(* ===== verification/Prelude.thy ===== *)
theory Prelude
  imports Main "HOL-Library.Word" "HOL-Library.Multiset"
begin

text \<open>
  Shared foundations of the development: how a C++ computation can end, how vectors are
  read and written at an index, and the generic facts on lists that several components
  use.

  A C++ function that may fail is modelled as a function into \<open>outcome\<close>: \<open>Ret\<close> is a normal
  return, \<open>Exit\<close> a call of \<^verbatim>\<open>exit\<close> with its status, \<open>Throw\<close> an escaping exception and
  \<open>UB\<close> an operation the C++ standard leaves undefined (an index out of range, a
  \<^verbatim>\<open>pop_back\<close> on an empty container, a signed overflow, a dereferenced end iterator),
  \<open>Abort\<close> a violated API contract, which ends the process.
  A loop that may run forever is defined with its value in \<open>option\<close>, \<open>None\<close> meaning that the
  loop does not return; where such a loop is called from code that can also fail, \<open>Diverge\<close>
  carries this case on.
\<close>

named_theorems outcome_simps \<open>evaluation rules of the outcome monad\<close>

datatype 'a outcome = Ret 'a | Exit nat | Throw | UB | Abort | Diverge

definition obind :: "'a outcome \<Rightarrow> ('a \<Rightarrow> 'b outcome) \<Rightarrow> 'b outcome" where
  "obind x f = (case x of Ret a \<Rightarrow> f a | Exit c \<Rightarrow> Exit c | Throw \<Rightarrow> Throw | UB \<Rightarrow> UB
               | Abort \<Rightarrow> Abort | Diverge \<Rightarrow> Diverge)"

lemma obind_simps [simp, outcome_simps]:
  "obind (Ret a) f = f a"
  "obind (Exit c) f = Exit c"
  "obind Throw f = Throw"
  "obind UB f = UB"
  "obind Abort f = Abort"
  "obind Diverge f = Diverge"
  by (simp_all add: obind_def)

definition of_loop :: "'a option \<Rightarrow> 'a outcome" where
  "of_loop x = (case x of Some a \<Rightarrow> Ret a | None \<Rightarrow> Diverge)"

lemma of_loop_simps [simp, outcome_simps]: "of_loop (Some a) = Ret a" "of_loop None = Diverge"
  by (simp_all add: of_loop_def)

lemma obind_eq_Ret: "obind x f = Ret b \<longleftrightarrow> (\<exists>a. x = Ret a \<and> f a = Ret b)"
  by (cases x) auto

lemma obind_assoc: "obind (obind x f) g = obind x (\<lambda>a. obind (f a) g)"
  by (cases x) auto

lemma obind_cong [fundef_cong]:
  "x = y \<Longrightarrow> (\<And>a. y = Ret a \<Longrightarrow> f a = g a) \<Longrightarrow> obind x f = obind y g"
  by (cases x) auto

fun ofold :: "('s \<Rightarrow> 'a \<Rightarrow> 's outcome) \<Rightarrow> 's \<Rightarrow> 'a list \<Rightarrow> 's outcome" where
  "ofold f s [] = Ret s"
| "ofold f s (x # xs) = obind (f s x) (\<lambda>s'. ofold f s' xs)"

lemma ofold_append: "ofold f s (xs @ ys) = obind (ofold f s xs) (\<lambda>s'. ofold f s' ys)"
  by (induction xs arbitrary: s) (auto simp: obind_assoc)

lemma ofold_invariant:
  assumes "ofold f s xs = Ret s'" and "I s"
    and "\<And>s x s'. I s \<Longrightarrow> x \<in> set xs \<Longrightarrow> f s x = Ret s' \<Longrightarrow> I s'"
  shows "I s'"
  using assms
proof (induction xs arbitrary: s)
  case (Cons x xs)
  from Cons.prems(1) obtain s1 where s1: "f s x = Ret s1" "ofold f s1 xs = Ret s'"
    by (auto simp: obind_eq_Ret)
  have "I s1" using Cons.prems(3)[OF Cons.prems(2) _ s1(1)] by simp
  then show ?case using Cons.IH[OF s1(2)] Cons.prems(3) by (meson list.set_intros(2))
qed simp

lemma ofold_Ret:
  assumes "\<And>s x. I s \<Longrightarrow> x \<in> set xs \<Longrightarrow> \<exists>s'. f s x = Ret s' \<and> I s'" and "I s"
  shows "\<exists>s'. ofold f s xs = Ret s' \<and> I s'"
  using assms
proof (induction xs arbitrary: s)
  case (Cons x xs)
  from Cons.prems(1)[of s x] Cons.prems(2) obtain s1 where "f s x = Ret s1" "I s1" by auto
  moreover from Cons.IH[of s1] Cons.prems(1) \<open>I s1\<close>
  obtain s2 where "ofold f s1 xs = Ret s2" "I s2" by auto
  ultimately show ?case by auto
qed auto

subsection \<open>Vectors\<close>

text \<open>\<^verbatim>\<open>v[i]\<close> of a \<^verbatim>\<open>std::vector\<close>, as a value and as the target of an assignment.\<close>

definition vec_get :: "'a list \<Rightarrow> int \<Rightarrow> 'a outcome" where
  "vec_get xs i = (if 0 \<le> i \<and> i < int (length xs) then Ret (xs ! nat i) else UB)"

definition vec_set :: "'a list \<Rightarrow> int \<Rightarrow> 'a \<Rightarrow> 'a list outcome" where
  "vec_set xs i v = (if 0 \<le> i \<and> i < int (length xs) then Ret (xs[nat i := v]) else UB)"

lemma vec_get_nat [simp]: "vec_get xs (int i) = (if i < length xs then Ret (xs ! i) else UB)"
  by (simp add: vec_get_def)

lemma vec_set_nat [simp]: "vec_set xs (int i) v = (if i < length xs then Ret (xs[i := v]) else UB)"
  by (simp add: vec_set_def)

lemma vec_get_Ret: "vec_get xs i = Ret v \<longleftrightarrow> 0 \<le> i \<and> i < int (length xs) \<and> v = xs ! nat i"
  by (auto simp: vec_get_def)

lemma vec_set_Ret:
  "vec_set xs i v = Ret ys \<longleftrightarrow> 0 \<le> i \<and> i < int (length xs) \<and> ys = xs[nat i := v]"
  by (auto simp: vec_set_def)

lemma list_update_all:
  "length xs = n \<Longrightarrow> \<forall>s<n. P s (xs ! s) \<Longrightarrow> P k x \<Longrightarrow> \<forall>s<n. P s (xs[k := x] ! s)"
  by (metis nth_list_update_eq nth_list_update_neq)

text \<open>
  \<open>grow n d xs\<close> is \<^verbatim>\<open>while (v.size () <= n) v.push_back (d)\<close>: afterwards index \<open>n\<close> is valid.
\<close>

definition grow :: "nat \<Rightarrow> 'a \<Rightarrow> 'a list \<Rightarrow> 'a list" where
  "grow n d xs = xs @ replicate (Suc n - length xs) d"

lemma length_grow [simp]: "length (grow n d xs) = max (Suc n) (length xs)"
  by (simp add: grow_def)

lemma nth_grow:
  "i < length (grow n d xs) \<Longrightarrow> grow n d xs ! i = (if i < length xs then xs ! i else d)"
  by (auto simp: grow_def nth_append)

text \<open>\<^verbatim>\<open>v.resize (n, d)\<close>: shorten or fill.\<close>

definition resize :: "nat \<Rightarrow> 'a \<Rightarrow> 'a list \<Rightarrow> 'a list" where
  "resize n d xs = take n xs @ replicate (n - length xs) d"

lemma length_resize [simp]: "length (resize n d xs) = n"
  by (simp add: resize_def)

subsection \<open>Vectors in the option type\<close>

definition vec_at :: "'a list \<Rightarrow> nat \<Rightarrow> 'a option" where
  "vec_at xs i = (if i < length xs then Some (xs ! i) else None)"

definition vec_put :: "'a list \<Rightarrow> nat \<Rightarrow> 'a \<Rightarrow> 'a list option" where
  "vec_put xs i v = (if i < length xs then Some (xs[i := v]) else None)"

lemma vec_at_Some [simp]: "i < length xs \<Longrightarrow> vec_at xs i = Some (xs ! i)"
  by (simp add: vec_at_def)

lemma vec_put_Some [simp]: "i < length xs \<Longrightarrow> vec_put xs i v = Some (xs[i := v])"
  by (simp add: vec_put_def)

subsection \<open>Machine limits\<close>

lemma of_char_nonneg [simp]: "0 \<le> (of_char c :: int)"
  by (simp add: of_char_def horner_sum_nonnegative)

lemma of_char_not_minus_one [simp]: "(of_char c :: int) \<noteq> - 1"
  using of_char_nonneg[of c] by linarith

abbreviation INT_MAX :: int where "INT_MAX \<equiv> 2147483647"

subsection \<open>Decimal representation\<close>

text \<open>\<^verbatim>\<open>std::to_string\<close> on a number that is not negative.\<close>

definition digit_char :: "nat \<Rightarrow> char" where
  "digit_char d = char_of (48 + d)"

fun to_string :: "nat \<Rightarrow> string" where
  "to_string n =
     (if n < 10 then [digit_char n] else to_string (n div 10) @ [digit_char (n mod 10)])"

declare to_string.simps [simp del]

lemma code_digit_char: "d < 10 \<Longrightarrow> (of_char (digit_char d) :: int) = 48 + int d"
proof -
  assume "d < 10"
  then have "(of_char (digit_char d) :: nat) = 48 + d" by (simp add: digit_char_def)
  then show ?thesis by (metis of_nat_of_char of_nat_add of_nat_numeral)
qed

lemma to_string_not_Nil [simp]: "to_string n \<noteq> []"
  by (subst to_string.simps) simp

lemma to_string_digits:
  "c \<in> set (to_string n) \<Longrightarrow> 48 \<le> (of_char c :: int) \<and> (of_char c :: int) \<le> 57"
proof (induction n rule: to_string.induct)
  case (1 n)
  show ?case
  proof (cases "n < 10")
    case True
    then show ?thesis using "1.prems" by (subst (asm) to_string.simps) (auto simp: code_digit_char)
  next
    case False
    then show ?thesis using 1 by (subst (asm) (2) to_string.simps) (auto simp: code_digit_char)
  qed
qed

end
