(* ===== verification/Reluctant.thy ===== *)
theory Reluctant
  imports Prelude "HOL-Library.Word"
begin

text \<open>
  The reluctant doubling sequence that triggers restarts in stable mode: the class \<^verbatim>\<open>Reluctant\<close> of
  \<^verbatim>\<open>src/reluctant.hpp\<close>.  Its counters are 64-bit words.  The reference is the Luby sequence, written
  as its blocks: a block is the previous block twice, followed by the next power of two.
\<close>

unbundle bit_operations_syntax

section \<open>The class\<close>

record reluctant =
  ru :: "64 word"
  rv :: "64 word"
  rlimit :: "64 word"
  rperiod :: "64 word"
  rcountdown :: "64 word"
  rtrigger :: bool
  rlimited :: bool

text \<open>The constructor sets two fields; the others keep what the memory held.\<close>

definition reluctant_init :: "reluctant \<Rightarrow> reluctant" where
  "reluctant_init r = r\<lparr>rperiod := 0, rtrigger := False\<rparr>"

definition enable :: "int \<Rightarrow> int \<Rightarrow> reluctant \<Rightarrow> reluctant" where
  "enable p l r = (
     let r1 = r\<lparr>ru := 1, rv := 1, rperiod := word_of_int p, rcountdown := word_of_int p, rtrigger := False\<rparr>
     in if l \<le> 0 then r1\<lparr>rlimited := False\<rparr> else r1\<lparr>rlimited := True, rlimit := word_of_int l\<rparr>)"

definition disable :: "reluctant \<Rightarrow> reluctant" where
  "disable r = r\<lparr>rperiod := 0, rtrigger := False\<rparr>"

text \<open>The line marked (DK).\<close>

definition doubling :: "64 word \<Rightarrow> 64 word \<Rightarrow> 64 word \<times> 64 word" where
  "doubling u v = (if u AND - u = v then (u + 1, 1) else (u, 2 * v))"

definition tick :: "reluctant \<Rightarrow> reluctant" where
  "tick r = (
     if rperiod r = 0 then r
     else if rtrigger r then r
     else let r1 = r\<lparr>rcountdown := rcountdown r - 1\<rparr> in
       if rcountdown r1 \<noteq> 0 then r1
       else case doubling (ru r1) (rv r1) of (u, v) \<Rightarrow>
         (case (if rlimited r1 \<and> v \<ge> rlimit r1 then (1, 1) else (u, v)) of (u', v') \<Rightarrow>
            r1\<lparr>ru := u', rv := v', rcountdown := v' * rperiod r1, rtrigger := True\<rparr>))"

text \<open>The conversion to \<^verbatim>\<open>bool\<close>.\<close>

definition poll :: "reluctant \<Rightarrow> bool \<times> reluctant" where
  "poll r = (if \<not> rtrigger r then (False, r) else (True, r\<lparr>rtrigger := False\<rparr>))"

text \<open>The signals of \<open>n\<close> conflicts, each followed by a query.\<close>

fun signals :: "nat \<Rightarrow> reluctant \<Rightarrow> bool list \<times> reluctant" where
  "signals 0 r = ([], r)"
| "signals (Suc n) r = (case poll (tick r) of (b, r1) \<Rightarrow>
     (case signals n r1 of (bs, r2) \<Rightarrow> (b # bs, r2)))"

section \<open>The Luby sequence\<close>

fun luby_block :: "nat \<Rightarrow> nat list" where
  "luby_block 0 = []"
| "luby_block (Suc k) = luby_block k @ luby_block k @ [2 ^ k]"

definition pulses :: "nat \<Rightarrow> nat list \<Rightarrow> bool list" where
  "pulses p vs = concat (map (\<lambda>v. replicate (v * p - 1) False @ [True]) vs)"

lemma pulses_append: "pulses p (xs @ ys) = pulses p xs @ pulses p ys"
  by (simp add: pulses_def)

lemma luby_block_bound: "v \<in> set (luby_block k) \<Longrightarrow> 0 < v \<and> v < 2 ^ k"
  by (induction k) (auto intro: less_trans)

section \<open>One interval\<close>

lemma unat_small: "n < 2 ^ 64 \<Longrightarrow> unat (of_nat n :: 64 word) = n"
  by (simp add: unat_of_nat)

lemma factor_small: "0 < l \<Longrightarrow> l * p < 2 ^ 63 \<Longrightarrow> (p::nat) < 2 ^ 63"
  by (cases l) auto

lemma signals_add:
  "signals (m + n) r = (case signals m r of (bs, r1) \<Rightarrow> case signals n r1 of (cs, r2) \<Rightarrow> (bs @ cs, r2))"
  by (induction m arbitrary: r) (auto split: prod.splits)

definition fired :: "reluctant \<Rightarrow> reluctant" where
  "fired r = (case doubling (ru r) (rv r) of (u, v) \<Rightarrow>
     (case (if rlimited r \<and> v \<ge> rlimit r then (1, 1) else (u, v)) of (u', v') \<Rightarrow>
        r\<lparr>ru := u', rv := v', rcountdown := v' * rperiod r\<rparr>))"

lemma signals_interval:
  "rperiod r \<noteq> 0 \<Longrightarrow> \<not> rtrigger r \<Longrightarrow> unat (rcountdown r) = Suc n \<Longrightarrow>
   signals (Suc n) r = (replicate n False @ [True], fired r)"
proof (induction n arbitrary: r)
  case 0
  then have "rcountdown r = 1" by (simp add: word_unat_eq_iff)
  then show ?case using 0 by (cases r) (auto simp: tick_def poll_def fired_def Let_def split: prod.splits)
next
  case (Suc n)
  have c: "unat (rcountdown r - 1) = Suc n"
    using Suc.prems(3) by (metis One_nat_def Suc_eq_plus1 diff_Suc_1 unat_minus_one unat_0 nat.distinct(1))
  then have "rcountdown r - 1 \<noteq> 0" by (metis nat.distinct(1) unat_0)
  then have t: "poll (tick r) = (False, r\<lparr>rcountdown := rcountdown r - 1\<rparr>)"
    using Suc.prems by (simp add: tick_def poll_def Let_def)
  have "signals (Suc n) (r\<lparr>rcountdown := rcountdown r - 1\<rparr>) =
      (replicate n False @ [True], fired (r\<lparr>rcountdown := rcountdown r - 1\<rparr>))"
    using Suc.IH[of "r\<lparr>rcountdown := rcountdown r - 1\<rparr>"] Suc.prems c by simp
  moreover have "fired (r\<lparr>rcountdown := rcountdown r - 1\<rparr>) = fired r"
    by (simp add: fired_def split: prod.splits)
  ultimately show ?case by (subst signals.simps(2)) (simp add: t del: signals.simps)
qed

section \<open>Knuth's bit trick\<close>

lemma odd_and_minus: "odd m \<Longrightarrow> m AND - m = (1 :: int)"
proof -
  assume "odd m"
  then obtain a where m: "m = 2 * a + 1" by (elim oddE)
  have "- m = NOT (2 * a)" unfolding m by (simp add: not_int_def)
  then have "m AND - m = (2 * a + 1) AND NOT (2 * a)" by (simp add: m)
  also have "\<dots> = 1"
  proof (rule bit_eqI)
    show "bit ((2 * a + 1) AND NOT (2 * a)) n = bit 1 n" for n
      unfolding bit_and_iff bit_not_iff by (cases n) (simp_all add: bit_0 bit_Suc)
  qed
  finally show ?thesis .
qed

lemma low_bit_int: "odd m \<Longrightarrow> (m * 2 ^ j) AND - (m * 2 ^ j) = (2 ^ j :: int)"
proof -
  assume "odd m"
  have "(m * 2 ^ j) AND - (m * 2 ^ j) = push_bit j m AND push_bit j (- m)" by (simp add: push_bit_eq_mult)
  also have "\<dots> = push_bit j (m AND - m)" by (simp add: push_bit_and)
  also have "\<dots> = 2 ^ j" using odd_and_minus[OF \<open>odd m\<close>] by (simp add: push_bit_eq_mult)
  finally show ?thesis .
qed

lemma low_bit_word:
  assumes "odd m"
  shows "(of_nat (m * 2 ^ j) AND - of_nat (m * 2 ^ j)) = (2 ^ j :: 64 word)"
proof -
  have "(of_nat (m * 2 ^ j) AND - of_nat (m * 2 ^ j) :: 64 word) =
      of_int (int (m * 2 ^ j)) AND of_int (- int (m * 2 ^ j))"
    by (simp only: of_int_minus of_int_of_nat_eq)
  also have "\<dots> = of_int (int (m * 2 ^ j) AND - int (m * 2 ^ j))" by (simp only: of_int_and_eq)
  also have "int (m * 2 ^ j) AND - int (m * 2 ^ j) = 2 ^ j"
    using low_bit_int[of "int m" j] assms by simp
  finally show ?thesis by simp
qed

lemma doubling_next:
  assumes "odd m"
  shows "doubling (of_nat (m * 2 ^ j)) (2 ^ j) = (of_nat (m * 2 ^ j + 1), 1)"
  using low_bit_word[OF assms, of j] by (simp add: doubling_def)

lemma odd_part: "0 < a \<Longrightarrow> \<exists>m i. (a :: nat) = m * 2 ^ i \<and> odd m"
proof (induction a rule: less_induct)
  case (less a)
  show ?case
  proof (cases "odd a")
    case True
    then show ?thesis by (intro exI[of _ a] exI[of _ 0]) simp
  next
    case False
    then obtain b where b: "a = 2 * b" by auto
    then obtain m i where "b = m * 2 ^ i" "odd m" using less.IH[of b] less.prems by auto
    then show ?thesis using b by (intro exI[of _ m] exI[of _ "Suc i"]) simp
  qed
qed

lemma doubling_same:
  assumes "0 < a" "a * 2 ^ Suc j < 2 ^ 64"
  shows "doubling (of_nat (a * 2 ^ Suc j)) (2 ^ j) = (of_nat (a * 2 ^ Suc j), 2 ^ Suc j)"
proof -
  obtain i m where a: "a = m * 2 ^ i" "odd m" using odd_part[OF assms(1)] by blast
  have "a * 2 ^ Suc j = m * 2 ^ (i + Suc j)" by (simp add: a power_add)
  then have l: "of_nat (a * 2 ^ Suc j) AND - of_nat (a * 2 ^ Suc j) = (2 ^ (i + Suc j) :: 64 word)"
    using low_bit_word[OF a(2)] by metis
  have "(2::nat) ^ (i + Suc j) \<le> a * 2 ^ Suc j" using a by (cases m) (auto simp: power_add)
  then have "(2::nat) ^ (i + Suc j) < 2 ^ 64" using assms(2) by linarith
  then have "i + Suc j < 64" by (rule power_less_imp_less_exp[rotated]) simp
  then have "bit (2 ^ (i + Suc j) :: 64 word) (i + Suc j)" "\<not> bit (2 ^ j :: 64 word) (i + Suc j)"
    by (simp_all only: bit_exp_iff possible_bit_word) simp_all
  then have "(2 ^ (i + Suc j) :: 64 word) \<noteq> 2 ^ j" by metis
  then show ?thesis using l by (simp add: doubling_def)
qed

section \<open>Blocks\<close>

definition at_value :: "nat \<Rightarrow> nat \<Rightarrow> nat \<Rightarrow> reluctant \<Rightarrow> bool" where
  "at_value p u v r \<longleftrightarrow> ru r = of_nat u \<and> rv r = of_nat v \<and> rperiod r = of_nat p \<and>
     rcountdown r = of_nat (v * p) \<and> \<not> rtrigger r \<and> \<not> rlimited r"

lemma one_interval:
  assumes r: "at_value p u v r" and p: "0 < p" "0 < v" "v * p < 2 ^ 64"
    and d: "doubling (of_nat u) (of_nat v) = (of_nat u', of_nat v')"
  shows "\<exists>r'. signals (v * p) r = (pulses p [v], r') \<and> at_value p u' v' r'"
proof -
  have "p \<le> v * p" using p(2) by simp
  then have pp: "p < 2 ^ 64" using p(3) by linarith
  obtain n where n: "v * p = Suc n" using p by (cases "v * p") auto
  have "rperiod r \<noteq> 0" using r p(1) pp by (auto simp: at_value_def word_unat_eq_iff unat_of_nat)
  moreover have "unat (rcountdown r) = Suc n"
    using r p(3) unfolding at_value_def n by (simp add: unat_of_nat del: of_nat_Suc)
  ultimately have "signals (Suc n) r = (replicate n False @ [True], fired r)"
    using signals_interval r by (simp add: at_value_def)
  moreover have "at_value p u' v' (fired r)" using r d by (simp add: at_value_def fired_def)
  ultimately show ?thesis using n by (simp add: pulses_def)
qed

lemma block_step:
  "signals m r = (bs, r1) \<Longrightarrow> signals n r1 = (cs, r2) \<Longrightarrow> signals (m + n) r = (bs @ cs, r2)"
  by (simp add: signals_add)

text \<open>
  A block but for its last value is run from any \<^verbatim>\<open>u\<close> that follows a multiple of \<open>2 ^ k\<close>.
\<close>

lemma block_run:
  assumes "0 < p" "p * 2 ^ k < 2 ^ 64" "(a + 1) * 2 ^ k < 2 ^ 64" "at_value p (a * 2 ^ k + 1) 1 r"
  shows "\<exists>r'. signals (2 * sum_list (luby_block k) * p) r = (pulses p (luby_block k @ luby_block k), r') \<and>
    at_value p ((a + 1) * 2 ^ k) (2 ^ k) r'"
  using assms
proof (induction k arbitrary: a r)
  case 0
  then show ?case by (simp add: pulses_def)
next
  case (Suc k)
  let ?n = "2 * sum_list (luby_block k) * p" and ?M = "luby_block k @ luby_block k"
  have half: "p * 2 ^ k < 2 ^ 64" "2 ^ k * p < 2 ^ 64" using Suc.prems(2) by (simp_all add: mult.commute[of "2 ^ k" p])
  have b1: "(2 * a + 1) * 2 ^ k < 2 ^ 64" "(2 * a + 1 + 1) * 2 ^ k < 2 ^ 64" "(a + 1) * 2 ^ Suc k < 2 ^ 64"
    using Suc.prems(3) by (simp_all add: algebra_simps)
  have "at_value p (2 * a * 2 ^ k + 1) 1 r" using Suc.prems(4) by (simp add: algebra_simps)
  then obtain r1 where r1: "signals ?n r = (pulses p ?M, r1)" "at_value p ((2 * a + 1) * 2 ^ k) (2 ^ k) r1"
    using Suc.IH[OF Suc.prems(1) half(1) b1(1)] by auto
  have d1: "doubling (of_nat ((2 * a + 1) * 2 ^ k)) (of_nat (2 ^ k)) = (of_nat ((2 * a + 1) * 2 ^ k + 1), of_nat 1)"
    using doubling_next[of "2 * a + 1" k] by simp
  obtain r2 where r2: "signals (2 ^ k * p) r1 = (pulses p [2 ^ k], r2)" "at_value p ((2 * a + 1) * 2 ^ k + 1) 1 r2"
    using one_interval[OF r1(2) Suc.prems(1) _ half(2) d1] by auto
  obtain r3 where r3: "signals ?n r2 = (pulses p ?M, r3)" "at_value p ((2 * a + 1 + 1) * 2 ^ k) (2 ^ k) r3"
    using Suc.IH[OF Suc.prems(1) half(1) b1(2) r2(2)] by auto
  have e: "(2 * a + 1 + 1) * 2 ^ k = (a + 1) * 2 ^ Suc k" by (simp add: algebra_simps)
  have d2: "doubling (of_nat ((2 * a + 1 + 1) * 2 ^ k)) (of_nat (2 ^ k)) = (of_nat ((a + 1) * 2 ^ Suc k), of_nat (2 ^ Suc k))"
    unfolding e using doubling_same[OF _ b1(3)] by (simp only: of_nat_power of_nat_numeral)
  obtain r4 where r4: "signals (2 ^ k * p) r3 = (pulses p [2 ^ k], r4)" "at_value p ((a + 1) * 2 ^ Suc k) (2 ^ Suc k) r4"
    using one_interval[OF r3(2) Suc.prems(1) _ half(2) d2] by auto
  have "?n + 2 ^ k * p + ?n + 2 ^ k * p = 2 * sum_list (luby_block (Suc k)) * p" by (simp add: algebra_simps)
  moreover have "signals (?n + 2 ^ k * p + ?n + 2 ^ k * p) r =
      (((pulses p ?M @ pulses p [2 ^ k]) @ pulses p ?M) @ pulses p [2 ^ k], r4)"
    using block_step[OF block_step[OF block_step[OF r1(1) r2(1)] r3(1)] r4(1)] .
  moreover have "((pulses p ?M @ pulses p [2 ^ k]) @ pulses p ?M) @ pulses p [2 ^ k] =
      pulses p (luby_block (Suc k) @ luby_block (Suc k))"
    by (simp only: pulses_append luby_block.simps append_assoc)
  ultimately show ?case using r4(2) by auto
qed

section \<open>Properties\<close>

text \<open>
  \<^bold>\<open>C31\<close> Without a limit, the conflicts at which the class signals a restart are exactly those of the
  Luby sequence scaled by the period, block after block, as long as the products fit into 64 bits.
\<close>

theorem reluctant_is_luby:
  assumes "0 < p" "p * 2 ^ k < 2 ^ 64"
  shows "fst (signals (sum_list (luby_block k) * p) (enable (int p) 0 r)) = pulses p (luby_block k)"
proof (cases k)
  case (Suc j)
  have b: "p * 2 ^ j < 2 ^ 64" "2 ^ j * p < 2 ^ 64" using assms(2) Suc by (simp_all add: mult.commute[of "2 ^ j" p])
  have "(1::nat) * 2 ^ j \<le> p * 2 ^ j" using assms(1) by (intro mult_le_mono1) simp
  then have b2: "(0 + 1) * 2 ^ j < (2::nat) ^ 64" using b(1) by (metis add_0 le_less_trans)
  have s: "at_value p (0 * 2 ^ j + 1) 1 (enable (int p) 0 r)" by (simp add: at_value_def enable_def Let_def)
  obtain r1 where r1: "signals (2 * sum_list (luby_block j) * p) (enable (int p) 0 r) = (pulses p (luby_block j @ luby_block j), r1)"
    "at_value p (1 * 2 ^ j) (2 ^ j) r1"
    using block_run[OF assms(1) b(1) b2 s] by auto
  have "doubling (of_nat (1 * 2 ^ j)) (of_nat (2 ^ j)) = (of_nat (1 * 2 ^ j + 1), of_nat 1)"
    using doubling_next[of 1 j] by simp
  then obtain r2 where r2: "signals (2 ^ j * p) r1 = (pulses p [2 ^ j], r2)"
    using one_interval[OF r1(2) assms(1) _ b(2)] by fastforce
  have "sum_list (luby_block k) * p = 2 * sum_list (luby_block j) * p + 2 ^ j * p" using Suc by (simp add: algebra_simps)
  then show ?thesis using block_step[OF r1(1) r2] Suc by (simp add: pulses_append)
qed (simp add: pulses_def)

lemma replicate_3: "replicate 3 x = [x, x, x]"
  by (simp add: numeral_3_eq_3)

lemma luby_block_2: "luby_block 2 = [1, 1, 2]"
  by code_simp

theorem reluctant_is_luby_witness:
  "fst (signals 8 (enable 2 0 \<lparr>ru = 0, rv = 7, rlimit = 9, rperiod = 1, rcountdown = 3, rtrigger = True, rlimited = True\<rparr>)) =
   [False, True, False, True, False, False, False, True]"
  using reluctant_is_luby[of 2 2 "\<lparr>ru = 0, rv = 7, rlimit = 9, rperiod = 1, rcountdown = 3, rtrigger = True, rlimited = True\<rparr>"]
  by (simp add: luby_block_2 pulses_def replicate_3 del: signals.simps)

text \<open>A limited sequence with the countdown running.\<close>

definition limited_ok :: "nat \<Rightarrow> nat \<Rightarrow> reluctant \<Rightarrow> bool" where
  "limited_ok p l r \<longleftrightarrow> rperiod r = of_nat p \<and> rlimited r \<and> rlimit r = of_nat l \<and> \<not> rtrigger r \<and>
     0 < unat (rv r) \<and> unat (rv r) \<le> l \<and> 0 < unat (rcountdown r) \<and> unat (rcountdown r) \<le> l * p"

lemma limited_value:
  fixes u v :: "64 word"
  assumes "0 < l" "l < 2 ^ 63" "0 < unat v" "unat v \<le> l"
  defines "w \<equiv> snd (if snd (doubling u v) \<ge> of_nat l then (1, 1) else doubling u v)"
  shows "0 < unat w" "unat w \<le> l"
proof -
  have "unat (2 * v) = 2 * unat v"
    using assms(2,4) by (simp add: unat_word_ariths take_bit_nat_eq_self)
  moreover have "unat (of_nat l :: 64 word) = l" using assms(2) by (simp add: unat_of_nat take_bit_nat_eq_self)
  ultimately show "0 < unat w" "unat w \<le> l"
    using assms(1,3) by (auto simp: w_def doubling_def word_le_nat_alt)
qed

lemma fired_limited_ok:
  assumes r: "limited_ok p l r" and p: "0 < p" "0 < l" "l * p < 2 ^ 63"
  shows "limited_ok p l (fired r)"
proof -
  have b: "l < 2 ^ 63" "p < 2 ^ 63"
    using factor_small[OF p(2,3)] factor_small[of p l] p by (simp_all add: mult.commute)
  define w where "w = snd (if snd (doubling (ru r) (rv r)) \<ge> of_nat l then (1, 1) else doubling (ru r) (rv r))"
  have w: "0 < unat w" "unat w \<le> l"
    using limited_value[OF p(2) b(1)] r unfolding w_def limited_ok_def by blast+
  have "unat w * p \<le> l * p" using w(2) by (rule mult_le_mono1)
  also have "l * p < 2 ^ 63" by (rule p(3))
  also have "(2 :: nat) ^ 63 < 2 ^ 64" by simp
  finally have "unat w * p < 2 ^ 64" .
  then have c: "unat (w * of_nat p) = unat w * p"
    using unat_small[of "unat w * p"] by (metis of_nat_mult of_nat_unat ucast_id)
  have "\<exists>u. fired r = r\<lparr>ru := u, rv := w, rcountdown := w * rperiod r\<rparr>"
    using r by (auto simp: fired_def w_def limited_ok_def split: prod.splits)
  then show ?thesis using r w c p(1) by (auto simp: limited_ok_def)
qed

lemma tick_limited_ok:
  assumes r: "limited_ok p l r" and p: "0 < p" "0 < l" "l * p < 2 ^ 63"
  shows "limited_ok p l (snd (poll (tick r)))"
proof -
  have nz: "rperiod r \<noteq> 0" using r p unat_small[of p] factor_small[OF p(2,3)] by (auto simp: limited_ok_def)
  show ?thesis
  proof (cases "rcountdown r = 1")
    case True
    then have "signals (Suc 0) r = ([True], fired r)" using signals_interval[of r 0] r nz by (simp add: limited_ok_def)
    then have "snd (poll (tick r)) = fired r" by (simp split: prod.splits)
    then show ?thesis using fired_limited_ok[OF assms] by simp
  next
    case False
    have "rcountdown r \<noteq> 0" using r by (auto simp: limited_ok_def)
    then have "unat (rcountdown r - 1) = unat (rcountdown r) - 1" by (rule unat_minus_one)
    moreover have "unat (rcountdown r) \<noteq> 1" using False by (auto simp: word_unat_eq_iff)
    moreover have "snd (poll (tick r)) = r\<lparr>rcountdown := rcountdown r - 1\<rparr>"
      using r nz False by (simp add: tick_def poll_def Let_def limited_ok_def)
    ultimately show ?thesis using r by (auto simp: limited_ok_def)
  qed
qed

lemma signals_limited_ok:
  "limited_ok p l r \<Longrightarrow> 0 < p \<Longrightarrow> 0 < l \<Longrightarrow> l * p < 2 ^ 63 \<Longrightarrow>
   limited_ok p l (snd (signals n r)) \<and> length (fst (signals n r)) = n"
proof (induction n arbitrary: r)
  case (Suc n)
  then have "limited_ok p l (snd (poll (tick r)))" by (intro tick_limited_ok)
  from Suc.IH[OF this Suc.prems(2-)] show ?case by (auto split: prod.splits)
qed simp

lemma enable_limited_ok:
  assumes "0 < p" "0 < l" "l * p < 2 ^ 63"
  shows "limited_ok p l (enable (int p) (int l) r)"
proof -
  have "unat (of_nat p :: 64 word) = p" using unat_small[of p] factor_small[OF assms(2,3)] by simp
  then show ?thesis using assms by (simp add: limited_ok_def enable_def Let_def)
qed

text \<open>
  \<^bold>\<open>C32\<close> With a positive limit \<open>l\<close>, however many conflicts have passed, the next signal comes at the
  latest after \<open>l\<close> times the period further conflicts: restarts never stop.
\<close>

theorem reluctant_keeps_signalling:
  assumes "0 < p" "0 < l" "l * p < 2 ^ 63"
  shows "True \<in> set (drop n (fst (signals (n + l * p) (enable (int p) (int l) r))))"
proof -
  define r1 where "r1 = snd (signals n (enable (int p) (int l) r))"
  have r1: "limited_ok p l r1" "length (fst (signals n (enable (int p) (int l) r))) = n"
    using signals_limited_ok[OF enable_limited_ok[OF assms] assms, of n r] by (simp_all add: r1_def)
  obtain m where m: "unat (rcountdown r1) = Suc m" using r1(1) by (cases "unat (rcountdown r1)") (auto simp: limited_ok_def)
  have "rperiod r1 \<noteq> 0" using r1(1) assms unat_small[of p] factor_small[OF assms(2,3)] by (auto simp: limited_ok_def)
  then have f: "signals (Suc m) r1 = (replicate m False @ [True], fired r1)"
    using signals_interval m r1(1) by (simp add: limited_ok_def)
  obtain k where k: "l * p = Suc m + k" using r1(1) m by (metis limited_ok_def le_iff_add)
  have "True \<in> set (fst (signals (l * p) r1))" unfolding k signals_add f by (simp split: prod.splits)
  then show ?thesis using r1(2) by (auto simp: signals_add r1_def split: prod.splits)
qed

theorem reluctant_keeps_signalling_witness:
  "True \<in> set (drop 1000 (fst (signals 1012 (enable 3 4 \<lparr>ru = 0, rv = 0, rlimit = 0, rperiod = 0, rcountdown = 0, rtrigger = False, rlimited = False\<rparr>))))"
  using reluctant_keeps_signalling[of 3 4 1000] by (simp del: signals.simps)

end
