(* ===== verification/Smv_Stream.thy ===== *)
theory Smv_Stream
  imports Prelude
begin

text \<open>
  The character stream and the token readers of \<^verbatim>\<open>src/smvHead.hpp\<close>.

  \<open>StreamBuffer\<close> reads a compressed file through \<^verbatim>\<open>gzread\<close> into a buffer of
  \<^verbatim>\<open>buffer_size\<close> bytes.  \<^verbatim>\<open>gzread\<close> belongs to zlib and is a parameter of the model,
  \<open>gz_reader\<close> states what its documentation promises.  The readers are templates over the
  stream; they are modelled on the unread characters of the stream, \<open>peek\<close> being
  \<^verbatim>\<open>*in\<close> and \<open>advance\<close> being \<^verbatim>\<open>++in\<close>.  That the buffered stream has exactly this view is
  the refinement result at the end of the theory.
\<close>

subsection \<open>The view of a stream\<close>

definition EOF :: int where
  "EOF = - 1"

abbreviation code :: "char \<Rightarrow> int" where
  "code c \<equiv> of_char c"

definition peek :: "string \<Rightarrow> int" where
  "peek s = (case s of [] \<Rightarrow> EOF | c # _ \<Rightarrow> code c)"

definition advance :: "string \<Rightarrow> string" where
  "advance s = tl s"

lemma peek_simps [simp]: "peek [] = - 1" "peek (c # s) = code c"
  by (simp_all add: peek_def EOF_def)

lemma advance_simps [simp]: "advance [] = []" "advance (c # s) = s"
  by (simp_all add: advance_def)

lemma length_advance_le: "length (advance s) \<le> length s"
  by (simp add: advance_def)

subsection \<open>The buffered stream\<close>

definition buffer_size :: nat where
  "buffer_size = 1048576"

record 'g stream_buffer =
  gz_in :: 'g
  buf :: "char list"
  pos :: int
  bsize :: int

text \<open>
  \<open>gzread g n\<close> gives the bytes stored, the returned value and the new state of the file.
\<close>

type_synonym 'g gz_read = "'g \<Rightarrow> nat \<Rightarrow> char list \<times> int \<times> 'g"

definition assureLookahead :: "'g gz_read \<Rightarrow> 'g stream_buffer \<Rightarrow> 'g stream_buffer" where
  "assureLookahead gzread b =
     (if pos b \<ge> bsize b
      then case gzread (gz_in b) buffer_size of (xs, r, g) \<Rightarrow>
             b\<lparr>pos := 0, buf := xs @ drop (length xs) (buf b), bsize := r, gz_in := g\<rparr>
      else b)"

definition new_StreamBuffer :: "'g gz_read \<Rightarrow> 'g \<Rightarrow> char list \<Rightarrow> 'g stream_buffer" where
  "new_StreamBuffer gzread g mem =
     assureLookahead gzread \<lparr>gz_in = g, buf = mem, pos = 0, bsize = 0\<rparr>"

definition sb_deref :: "'g stream_buffer \<Rightarrow> int" where
  "sb_deref b = (if pos b \<ge> bsize b then EOF else code (buf b ! nat (pos b)))"

definition sb_incr :: "'g gz_read \<Rightarrow> 'g stream_buffer \<Rightarrow> 'g stream_buffer" where
  "sb_incr gzread b = assureLookahead gzread (b\<lparr>pos := pos b + 1\<rparr>)"

subsection \<open>Generic readers\<close>

fun skipWhitespace :: "string \<Rightarrow> string" where
  "skipWhitespace [] = []"
| "skipWhitespace (c # s) =
     (if (code c \<ge> 9 \<and> code c \<le> 13) \<or> code c = 32 then skipWhitespace s else c # s)"

fun skipLine :: "string \<Rightarrow> string" where
  "skipLine [] = []"
| "skipLine (c # s) = (if code c = 10 then s else skipLine s)"

text \<open>
  The loop of \<^verbatim>\<open>parseInt\<close>.  The accumulator is a 32-bit \<^verbatim>\<open>int\<close>, whose overflow is
  undefined.
\<close>

fun parse_digits :: "int \<Rightarrow> string \<Rightarrow> (int \<times> string) outcome" where
  "parse_digits v [] = Ret (v, [])"
| "parse_digits v (c # s) =
     (if code c \<ge> 48 \<and> code c \<le> 57
      then (let w = v * 10 + (code c - 48) in if w > INT_MAX then UB else parse_digits w s)
      else Ret (v, c # s))"

definition parseInt :: "string \<Rightarrow> (int \<times> string) outcome" where
  "parseInt s =
     (let s1 = skipWhitespace s;
          neg = (peek s1 = 45);
          s2 = (if peek s1 = 45 then advance s1 else if peek s1 = 43 then advance s1 else s1)
      in if peek s2 < 48 \<or> peek s2 > 57 then Exit 3
         else obind (parse_digits 0 s2) (\<lambda>(v, s3). Ret (if neg then - v else v, s3)))"

fun eagerMatch :: "string \<Rightarrow> string \<Rightarrow> bool \<times> string" where
  "eagerMatch s [] = (True, s)"
| "eagerMatch s (c # cs) =
     (if code c \<noteq> peek s then (False, s) else eagerMatch (advance s) cs)"

subsection \<open>Readers of the head of a BMC problem\<close>

text \<open>
  These three scan forward for what they look for.  At the end of the file \<^verbatim>\<open>++in\<close> has no
  effect and the scan does not end.
\<close>

partial_function (option) parseVar :: "string \<Rightarrow> (int \<times> string) outcome option" where
  "parseVar s =
     (let s1 = skipWhitespace s
      in if peek s1 < 48 \<or> peek s1 > 57 then parseVar (advance s1)
         else case parseInt s1 of
                Ret r \<Rightarrow> if fst r > 0 then Some (Ret r) else parseVar (snd r)
              | Exit c \<Rightarrow> Some (Exit c) | Throw \<Rightarrow> Some Throw | UB \<Rightarrow> Some UB
              | Abort \<Rightarrow> Some Abort | Diverge \<Rightarrow> None)"

partial_function (option) parseVarLoopOrSize :: "string \<Rightarrow> (int \<times> string) outcome option" where
  "parseVarLoopOrSize s =
     (let s1 = skipWhitespace s
      in if peek s1 < 48 \<or> peek s1 > 57 then parseVarLoopOrSize (advance s1)
         else case parseInt s1 of
                Ret r \<Rightarrow> if fst r \<ge> 0 then Some (Ret r) else parseVarLoopOrSize (snd r)
              | Exit c \<Rightarrow> Some (Exit c) | Throw \<Rightarrow> Some Throw | UB \<Rightarrow> Some UB
              | Abort \<Rightarrow> Some Abort | Diverge \<Rightarrow> None)"

partial_function (option) read_to_newline :: "string \<Rightarrow> string \<Rightarrow> (string \<times> string) option" where
  "read_to_newline name s =
     (if peek s \<noteq> 10 then read_to_newline (name @ [char_of (peek s)]) (advance s)
      else Some (name, s))"

partial_function (option) parseNameVar :: "string \<Rightarrow> (string \<times> string) option" where
  "parseNameVar s =
     (let s1 = skipWhitespace s; m = eagerMatch s1 ''Variable''
      in if fst m then read_to_newline [] (skipWhitespace (snd m))
         else parseNameVar (advance (snd m)))"

subsection \<open>The LTL specification\<close>

definition operator_ltlspec :: "string \<Rightarrow> bool \<Rightarrow> bool" where
  "operator_ltlspec s bis =
     (if bis
      then peek s \<in> {code CHR ''('', code CHR '')'', code CHR ''!'', code CHR ''&'',
                     code CHR ''|'', code CHR ''<'', code CHR ''>'', code CHR '' '', EOF}
      else peek s \<in> {code CHR ''('', code CHR '')'', code CHR ''!'', code CHR ''G'',
                     code CHR ''F'', code CHR ''U'', code CHR ''X'', code CHR ''R'',
                     code CHR ''W'', code CHR ''&'', code CHR ''|'', code CHR ''<'',
                     code CHR ''>'', code CHR ''-'', code CHR '' '', code CHR ''V''})"

fun ltl_word :: "string \<Rightarrow> string \<Rightarrow> string \<times> string" where
  "ltl_word acc [] = (acc, [])"
| "ltl_word acc (c # s) =
     (if operator_ltlspec (c # s) True then (acc, c # s) else ltl_word (acc @ [c]) s)"

lemma length_ltl_word: "length (snd (ltl_word acc s)) \<le> length s"
  by (induction acc s rule: ltl_word.induct) auto

lemma ltl_word_shrinks:
  assumes "s \<noteq> []" "\<not> operator_ltlspec s False"
  shows "length (snd (ltl_word acc s)) < length s"
proof -
  obtain c t where s: "s = c # t" using assms(1) by (cases s) auto
  have "\<not> operator_ltlspec (c # t) True"
    using assms(2) of_char_nonneg[of c] by (auto simp: operator_ltlspec_def s EOF_def)
  then show ?thesis using length_ltl_word[of "acc @ [c]" t] by (simp add: s)
qed

function ltlspec_loop :: "string \<Rightarrow> string \<Rightarrow> string" where
  "ltlspec_loop ltl s =
     (if peek s = EOF then ltl
      else if operator_ltlspec s False then ltlspec_loop (ltl @ [char_of (peek s)]) (advance s)
      else case ltl_word (ltl @ [CHR 0x22]) s of
             (w, s') \<Rightarrow> ltlspec_loop (w @ [CHR 0x22]) s')"
  by pat_completeness auto

lemma peek_not_EOF: "peek s \<noteq> EOF \<Longrightarrow> s \<noteq> []"
  by (auto simp: EOF_def)

termination ltlspec_loop
proof (relation "measure (\<lambda>(ltl, s). length s)", goal_cases)
  case (2 ltl s)
  then show ?case using peek_not_EOF by (simp add: advance_def)
next
  case (3 ltl s w s')
  then have "length (snd (ltl_word (ltl @ [CHR 0x22]) s)) < length s"
    using peek_not_EOF ltl_word_shrinks by blast
  with 3 show ?case by (metis case_prod_conv in_measure snd_conv)
qed simp

declare ltlspec_loop.simps [simp del]

text \<open>Three \<^verbatim>\<open>pop_back\<close>, undefined on an empty string, remove the quoted line end.\<close>

definition readLTLSPEC :: "string \<Rightarrow> string outcome" where
  "readLTLSPEC s =
     (let ltl = ltlspec_loop [] s
      in if length ltl < 3 then UB else Ret (butlast (butlast (butlast ltl))))"


subsection \<open>The buffered stream refines its view\<close>

definition gz_reader :: "'g gz_read \<Rightarrow> ('g \<Rightarrow> string) \<Rightarrow> bool" where
  "gz_reader gzread contents \<longleftrightarrow>
     (\<forall>g n xs r g'. gzread g n = (xs, r, g') \<longrightarrow>
        r = int (length xs) \<and> length xs \<le> n \<and> contents g = xs @ contents g' \<and>
        (n > 0 \<and> xs = [] \<longrightarrow> contents g = []))"

definition sb_view :: "('g \<Rightarrow> string) \<Rightarrow> 'g stream_buffer \<Rightarrow> string" where
  "sb_view contents b = drop (nat (pos b)) (take (nat (bsize b)) (buf b)) @ contents (gz_in b)"

definition sb_inv :: "('g \<Rightarrow> string) \<Rightarrow> 'g stream_buffer \<Rightarrow> bool" where
  "sb_inv contents b \<longleftrightarrow>
     0 \<le> pos b \<and> 0 \<le> bsize b \<and> bsize b \<le> int buffer_size \<and> length (buf b) = buffer_size \<and>
     (pos b \<ge> bsize b \<longrightarrow> contents (gz_in b) = [])"

lemma assureLookahead_view:
  assumes gz: "gz_reader gzread contents"
    and p: "0 \<le> pos b" "pos b \<le> bsize b \<or> contents (gz_in b) = []"
    and s: "0 \<le> bsize b" "bsize b \<le> int buffer_size" "length (buf b) = buffer_size"
  shows "sb_inv contents (assureLookahead gzread b)"
    and "sb_view contents (assureLookahead gzread b) = sb_view contents b"
proof -
  obtain xs r g where r: "gzread (gz_in b) buffer_size = (xs, r, g)" by (cases "gzread (gz_in b) buffer_size")
  have h: "r = int (length xs)" "length xs \<le> buffer_size" "contents (gz_in b) = xs @ contents g"
    "xs = [] \<Longrightarrow> contents (gz_in b) = []"
    using gz r unfolding gz_reader_def buffer_size_def by force+
  show "sb_inv contents (assureLookahead gzread b)"
    using r h p s by (auto simp: sb_inv_def assureLookahead_def)
  show "sb_view contents (assureLookahead gzread b) = sb_view contents b"
    using r h p s by (auto simp: sb_view_def assureLookahead_def)
qed

lemma sb_deref_view:
  assumes "sb_inv contents b"
  shows "sb_deref b = peek (sb_view contents b)"
proof (cases "pos b \<ge> bsize b")
  case True
  then show ?thesis using assms by (simp add: sb_inv_def sb_deref_def sb_view_def EOF_def)
next
  case False
  let ?t = "take (nat (bsize b)) (buf b)"
  have "nat (pos b) < length ?t" using assms False by (auto simp: sb_inv_def)
  then have "drop (nat (pos b)) ?t = ?t ! nat (pos b) # drop (Suc (nat (pos b))) ?t"
    by (rule Cons_nth_drop_Suc[symmetric])
  then show ?thesis using False assms by (simp add: sb_deref_def sb_view_def sb_inv_def)
qed

lemma sb_incr_view:
  assumes gz: "gz_reader gzread contents" and inv: "sb_inv contents b"
  shows "sb_inv contents (sb_incr gzread b)"
    and "sb_view contents (sb_incr gzread b) = advance (sb_view contents b)"
proof -
  let ?b = "b\<lparr>pos := pos b + 1\<rparr>"
  have pre: "0 \<le> pos ?b" "pos ?b \<le> bsize ?b \<or> contents (gz_in ?b) = []"
    "0 \<le> bsize ?b" "bsize ?b \<le> int buffer_size" "length (buf ?b) = buffer_size"
    using inv by (auto simp: sb_inv_def)
  show "sb_inv contents (sb_incr gzread b)"
    using assureLookahead_view(1)[OF gz pre] by (simp add: sb_incr_def)
  have "sb_view contents ?b = advance (sb_view contents b)"
  proof (cases "pos b \<ge> bsize b")
    case True
    then show ?thesis using inv by (simp add: sb_view_def sb_inv_def)
  next
    case False
    let ?t = "take (nat (bsize b)) (buf b)"
    have "nat (pos b) < length ?t" using inv False by (auto simp: sb_inv_def)
    then have "drop (nat (pos b)) ?t = ?t ! nat (pos b) # drop (Suc (nat (pos b))) ?t"
      by (rule Cons_nth_drop_Suc[symmetric])
    then show ?thesis using inv by (simp add: sb_view_def sb_inv_def nat_add_distrib)
  qed
  then show "sb_view contents (sb_incr gzread b) = advance (sb_view contents b)"
    using assureLookahead_view(2)[OF gz pre] by (simp add: sb_incr_def)
qed

lemma new_StreamBuffer_view:
  assumes "gz_reader gzread contents" "length mem = buffer_size"
  shows "sb_inv contents (new_StreamBuffer gzread g mem)"
    and "sb_view contents (new_StreamBuffer gzread g mem) = contents g"
  using assureLookahead_view[OF assms(1), of "\<lparr>gz_in = g, buf = mem, pos = 0, bsize = 0\<rparr>"] assms(2)
  by (simp_all add: new_StreamBuffer_def sb_view_def)

subsection \<open>Reading numbers\<close>

abbreviation is_digit :: "char \<Rightarrow> bool" where
  "is_digit c \<equiv> 48 \<le> code c \<and> code c \<le> 57"

lemma skipWhitespace_nonspace:
  "(s = [] \<or> \<not> ((code (hd s) \<ge> 9 \<and> code (hd s) \<le> 13) \<or> code (hd s) = 32)) \<Longrightarrow> skipWhitespace s = s"
  by (cases s) auto

lemma length_skipWhitespace: "length (skipWhitespace s) \<le> length s"
  by (induction s) auto

lemma shift_digit_le: "0 \<le> w \<Longrightarrow> w * 10 + int d = x \<Longrightarrow> x \<le> m \<Longrightarrow> w \<le> (m :: int)"
  by simp

lemma parse_digits_digit:
  "d < 10 \<Longrightarrow> v * 10 + int d \<le> INT_MAX \<Longrightarrow>
   parse_digits v (digit_char d # r) = parse_digits (v * 10 + int d) r"
  by (simp add: code_digit_char)

lemma parse_digits_to_string:
  "v \<ge> 0 \<Longrightarrow> v * 10 ^ length (to_string n) + int n \<le> INT_MAX \<Longrightarrow>
   parse_digits v (to_string n @ r) = parse_digits (v * 10 ^ length (to_string n) + int n) r"
proof (induction n arbitrary: r rule: to_string.induct)
  case (1 n)
  show ?case
  proof (cases "n < 10")
    case True
    then have [simp]: "to_string n = [digit_char n]" by (simp add: to_string.simps)
    show ?thesis using 1 True by (simp add: parse_digits_digit del: parse_digits.simps)
  next
    case False
    let ?m = "n div 10" and ?d = "n mod 10"
    have ts: "to_string n = to_string ?m @ [digit_char ?d]" using False by (subst to_string.simps) simp
    let ?w = "v * 10 ^ length (to_string ?m) + int ?m"
    have eq: "?w * 10 + int ?d = v * 10 ^ length (to_string n) + int n"
      by (simp add: ts algebra_simps zdiv_int zmod_int)
    have "0 \<le> ?w" using "1.prems"(1) by simp
    then have "?w \<le> INT_MAX" using shift_digit_le[OF _ eq "1.prems"(2)] by simp
    then have "parse_digits v (to_string ?m @ digit_char ?d # r) = parse_digits ?w (digit_char ?d # r)"
      using "1.IH"[OF False "1.prems"(1)] by simp
    also have "\<dots> = parse_digits (?w * 10 + int ?d) r"
      by (rule parse_digits_digit) (use eq "1.prems"(2) in simp_all)
    finally have "parse_digits v (to_string ?m @ digit_char ?d # r) =
        parse_digits (v * 10 ^ length (to_string n) + int n) r" unfolding eq .
    then show ?thesis by (simp add: ts)
  qed
qed

lemma parse_digits_stop: "(r = [] \<or> \<not> is_digit (hd r)) \<Longrightarrow> parse_digits v r = Ret (v, r)"
  by (cases r) auto

lemma parseInt_to_string:
  assumes "int n \<le> INT_MAX" "r = [] \<or> \<not> is_digit (hd r)"
  shows "parseInt (to_string n @ r) = Ret (int n, r)"
proof -
  obtain c t where ct: "to_string n = c # t" by (cases "to_string n") auto
  then have d: "is_digit c" using to_string_digits[of c n] by simp
  then have "skipWhitespace (to_string n @ r) = to_string n @ r" by (simp add: ct)
  moreover have "parse_digits 0 (to_string n @ r) = Ret (int n, r)"
    using parse_digits_to_string[of 0 n r] parse_digits_stop[OF assms(2)] assms(1) by simp
  ultimately show ?thesis using d by (simp add: parseInt_def ct)
qed


subsection \<open>Scanning\<close>

abbreviation is_space :: "char \<Rightarrow> bool" where
  "is_space c \<equiv> (code c \<ge> 9 \<and> code c \<le> 13) \<or> code c = 32"

lemma skipWhitespace_Cons_space: "is_space c \<Longrightarrow> skipWhitespace (c # s) = skipWhitespace s"
  by simp

lemma parseVar_skip: "\<not> is_digit c \<Longrightarrow> parseVar (c # s) = parseVar s"
proof (cases "is_space c")
  case True
  then have "skipWhitespace (c # s) = skipWhitespace s" by simp
  then show ?thesis by (simp only: parseVar.simps[of "c # s"] parseVar.simps[of s])
next
  case False
  then show "\<not> is_digit c \<Longrightarrow> ?thesis" by (auto simp: parseVar.simps[of "c # s"] Let_def)
qed

lemma parseVarLoopOrSize_skip: "\<not> is_digit c \<Longrightarrow> parseVarLoopOrSize (c # s) = parseVarLoopOrSize s"
proof (cases "is_space c")
  case True
  then have "skipWhitespace (c # s) = skipWhitespace s" by simp
  then show ?thesis
    by (simp only: parseVarLoopOrSize.simps[of "c # s"] parseVarLoopOrSize.simps[of s])
next
  case False
  then show "\<not> is_digit c \<Longrightarrow> ?thesis"
    by (auto simp: parseVarLoopOrSize.simps[of "c # s"] Let_def)
qed

lemma parseNameVar_skip: "c \<noteq> CHR ''V'' \<Longrightarrow> parseNameVar (c # s) = parseNameVar s"
proof (cases "is_space c")
  case True
  then have "skipWhitespace (c # s) = skipWhitespace s" by simp
  then show ?thesis by (simp only: parseNameVar.simps[of "c # s"] parseNameVar.simps[of s])
next
  case False
  assume "c \<noteq> CHR ''V''"
  then have "code c \<noteq> code CHR ''V''" by (simp only: of_char_eq_iff not_False_eq_True)
  with False show ?thesis by (auto simp: parseNameVar.simps[of "c # s"] Let_def)
qed

lemma parseVar_skip_all: "list_all (\<lambda>c. \<not> is_digit c) p \<Longrightarrow> parseVar (p @ s) = parseVar s"
  by (induction p) (auto simp: parseVar_skip)

lemma parseVarLoopOrSize_skip_all:
  "list_all (\<lambda>c. \<not> is_digit c) p \<Longrightarrow> parseVarLoopOrSize (p @ s) = parseVarLoopOrSize s"
  by (induction p) (auto simp: parseVarLoopOrSize_skip)

lemma parseNameVar_skip_all:
  "list_all (\<lambda>c. c \<noteq> CHR ''V'') p \<Longrightarrow> parseNameVar (p @ s) = parseNameVar s"
  by (induction p) (auto simp: parseNameVar_skip)

lemma to_string_head:
  obtains c t where "to_string n = c # t" "is_digit c"
  using to_string_digits[of "hd (to_string n)" n] by (cases "to_string n") auto

lemma parseVar_number:
  assumes "list_all (\<lambda>c. \<not> is_digit c) p" "0 < n" "int n \<le> INT_MAX" "r = [] \<or> \<not> is_digit (hd r)"
  shows "parseVar (p @ to_string n @ r) = Some (Ret (int n, r))"
proof -
  obtain c t where ct: "to_string n = c # t" "is_digit c" by (rule to_string_head)
  then have "parseVar (to_string n @ r) = Some (Ret (int n, r))"
    using parseInt_to_string[OF assms(3,4)] assms(2)
    by (subst parseVar.simps) simp
  then show ?thesis using parseVar_skip_all[OF assms(1)] by simp
qed

lemma parseVarLoopOrSize_number:
  assumes "list_all (\<lambda>c. \<not> is_digit c) p" "int n \<le> INT_MAX" "r = [] \<or> \<not> is_digit (hd r)"
  shows "parseVarLoopOrSize (p @ to_string n @ r) = Some (Ret (int n, r))"
proof -
  obtain c t where ct: "to_string n = c # t" "is_digit c" by (rule to_string_head)
  then have "parseVarLoopOrSize (to_string n @ r) = Some (Ret (int n, r))"
    using parseInt_to_string[OF assms(2,3)]
    by (subst parseVarLoopOrSize.simps) simp
  then show ?thesis using parseVarLoopOrSize_skip_all[OF assms(1)] by simp
qed

lemma read_to_newline_line:
  "list_all (\<lambda>c. code c \<noteq> 10) t \<Longrightarrow>
   read_to_newline name (t @ CHR 0x0A # r) = Some (name @ t, CHR 0x0A # r)"
proof (induction t arbitrary: name)
  case Nil
  show ?case by (subst read_to_newline.simps) simp
next
  case (Cons c t)
  then show ?case by (subst read_to_newline.simps) simp
qed

lemma parseNameVar_line:
  assumes "list_all (\<lambda>c. c \<noteq> CHR ''V'') p" "list_all (\<lambda>c. code c \<noteq> 10) name"
    "name = [] \<or> \<not> is_space (hd name)" "name \<noteq> []"
  shows "parseNameVar (p @ ''Variable '' @ name @ CHR 0x0A # r) = Some (name, CHR 0x0A # r)"
proof -
  obtain c t where ct: "name = c # t" using assms(4) by (cases name) auto
  have "eagerMatch (''Variable '' @ name @ CHR 0x0A # r) ''Variable'' = (True, '' '' @ name @ CHR 0x0A # r)"
    by simp
  then have "parseNameVar (''Variable '' @ name @ CHR 0x0A # r) = Some (name, CHR 0x0A # r)"
    using assms(3,4) read_to_newline_line[OF assms(2), of "[]" r]
    by (subst parseNameVar.simps) (auto simp: ct)
  then show ?thesis using parseNameVar_skip_all[OF assms(1)] by simp
qed

lemma skipLine_line: "list_all (\<lambda>c. code c \<noteq> 10) t \<Longrightarrow> skipLine (t @ CHR 0x0A # r) = r"
  by (induction t) auto

text \<open>A scan returns exactly when what it scans for is ahead.\<close>

abbreviation nonzero_digit :: "char \<Rightarrow> bool" where
  "nonzero_digit c \<equiv> 49 \<le> code c \<and> code c \<le> 57"

lemma set_skipWhitespace_digit:
  "is_digit c \<Longrightarrow> c \<in> set (skipWhitespace s) \<longleftrightarrow> c \<in> set s"
  by (induction s) auto

lemma parse_digits_Ret:
  "parse_digits v s = Ret (w, r) \<Longrightarrow> 0 \<le> v \<Longrightarrow>
     length r \<le> length s \<and> v \<le> w \<and> (\<exists>p. s = p @ r \<and> list_all is_digit p \<and>
       (w = 0 \<longleftrightarrow> v = 0 \<and> list_all (\<lambda>c. \<not> nonzero_digit c) p))"
proof (induction v s rule: parse_digits.induct)
  case (1 v)
  then show ?case by auto
next
  case (2 v c s)
  show ?case
  proof (cases "is_digit c")
    case True
    let ?w = "v * 10 + (code c - 48)"
    from 2 True have pd: "parse_digits ?w s = Ret (w, r)" "0 \<le> ?w" "v \<le> ?w"
      by (auto simp: Let_def split: if_splits)
    then have "length r \<le> length s \<and> ?w \<le> w \<and> (\<exists>p. s = p @ r \<and> list_all is_digit p \<and>
       (w = 0 \<longleftrightarrow> ?w = 0 \<and> list_all (\<lambda>c. \<not> nonzero_digit c) p))"
      using 2 True by (auto simp: Let_def split: if_splits)
    then obtain p where p: "length r \<le> length s" "?w \<le> w" "s = p @ r" "list_all is_digit p"
       "w = 0 \<longleftrightarrow> ?w = 0 \<and> list_all (\<lambda>c. \<not> nonzero_digit c) p" by blast
    have "?w = 0 \<longleftrightarrow> v = 0 \<and> \<not> nonzero_digit c" using True "2.prems"(2) by presburger
    then have "c # s = (c # p) @ r \<and> list_all is_digit (c # p) \<and>
       (w = 0 \<longleftrightarrow> v = 0 \<and> list_all (\<lambda>c. \<not> nonzero_digit c) (c # p))" using p True by auto
    then have "\<exists>p. c # s = p @ r \<and> list_all is_digit p \<and>
       (w = 0 \<longleftrightarrow> v = 0 \<and> list_all (\<lambda>c. \<not> nonzero_digit c) p)" by blast
    moreover have "length r \<le> length (c # s)" "v \<le> w" using p(1,2) pd(3) by simp_all
    ultimately show ?thesis by blast
  next
    case False
    then have "w = v \<and> r = c # s" using 2 by auto
    then show ?thesis by auto
  qed
qed

lemma parse_digits_cases: "(\<exists>w r. parse_digits v s = Ret (w, r)) \<or> parse_digits v s = UB"
  by (induction v s rule: parse_digits.induct) (auto simp: Let_def)

lemma parse_digits_UB:
  "parse_digits v s = UB \<Longrightarrow> 0 \<le> v \<Longrightarrow> v \<le> INT_MAX \<Longrightarrow> v = 0 \<Longrightarrow> \<exists>c\<in>set s. nonzero_digit c"
proof (induction v s rule: parse_digits.induct)
  case (2 v c s)
  show ?case
  proof (cases "nonzero_digit c")
    case False
    have d: "is_digit c" using "2.prems"(1) by (auto split: if_splits)
    then have c48: "code c = 48" using False by linarith
    then have "parse_digits 0 s = UB" using "2.prems" d by (simp add: Let_def)
    then show ?thesis using "2.IH"[OF _ refl] d c48 "2.prems" by auto
  qed auto
qed simp

lemma parseInt_digits:
  assumes "is_digit c"
  shows "parseInt (c # s) = parse_digits 0 (c # s)"
proof -
  have "parseInt (c # s) = obind (parse_digits 0 (c # s)) (\<lambda>(v, s3). Ret (v, s3))"
    using assms by (simp add: parseInt_def del: parse_digits.simps)
  then show ?thesis by (cases "parse_digits 0 (c # s)") auto
qed

lemma parseVar_returns_only_if:
  assumes ret: "parseVar s = Some r"
  shows "\<exists>c\<in>set s. nonzero_digit c"
proof (rule parseVar.raw_induct [where P = "\<lambda>s r. \<exists>c\<in>set s. nonzero_digit c", OF _ ret])
  fix f s r
  assume IH: "\<And>s r. f s = Some r \<Longrightarrow> \<exists>c\<in>set s. nonzero_digit c"
    and eq: "(let s1 = skipWhitespace s
      in if peek s1 < 48 \<or> peek s1 > 57 then f (advance s1)
         else case parseInt s1 of
                Ret r \<Rightarrow> if fst r > 0 then Some (Ret r) else f (snd r)
              | Exit c \<Rightarrow> Some (Exit c) | Throw \<Rightarrow> Some Throw | UB \<Rightarrow> Some UB
              | Abort \<Rightarrow> Some Abort | Diverge \<Rightarrow> None) = Some r"
  have sub: "nonzero_digit c \<Longrightarrow> c \<in> set (skipWhitespace s) \<Longrightarrow> \<exists>c\<in>set s. nonzero_digit c" for c
    using set_skipWhitespace_digit[of c s] by auto
  show "\<exists>c\<in>set s. nonzero_digit c"
  proof (cases "skipWhitespace s")
    case Nil
    then show ?thesis using eq IH[of "[]"] by simp
  next
    case (Cons c t)
    show ?thesis
    proof (cases "is_digit c")
      case False
      then have "f t = Some r" using eq Cons by auto
      then show ?thesis using IH sub Cons by (metis list.set_intros(2))
    next
      case True
      consider w u where "parse_digits 0 (c # t) = Ret (w, u)" | "parse_digits 0 (c # t) = UB"
        using parse_digits_cases[of 0 "c # t"] by auto
      then show ?thesis
      proof cases
        case 1
        then obtain p where p: "c # t = p @ u" "w = 0 \<longleftrightarrow> list_all (\<lambda>c. \<not> nonzero_digit c) p" "0 \<le> w"
          using parse_digits_Ret[OF 1] by auto
        show ?thesis
        proof (cases "w = 0")
          case True
          then have "f u = Some r"
            using eq Cons 1 \<open>is_digit c\<close> by (simp add: parseInt_digits del: parse_digits.simps)
          then show ?thesis using IH sub Cons p(1) by (metis Un_iff set_append)
        next
          case False
          then obtain d where "d \<in> set p" "nonzero_digit d" using p(2) by (auto simp: list_all_iff)
          then show ?thesis using sub Cons p(1) by (metis Un_iff set_append)
        qed
      next
        case 2
        then show ?thesis using sub Cons parse_digits_UB[OF 2] by auto
      qed
    qed
  qed
qed

lemma parseVar_returns_if:
  "\<exists>c\<in>set s. nonzero_digit c \<Longrightarrow> \<exists>r. parseVar s = Some r"
proof (induction "length s" arbitrary: s rule: less_induct)
  case less
  then obtain d where d: "d \<in> set s" "nonzero_digit d" by auto
  then have ds: "d \<in> set (skipWhitespace s)" using set_skipWhitespace_digit[of d s] by auto
  then obtain c t where ct: "skipWhitespace s = c # t" by (cases "skipWhitespace s") auto
  then have len: "length t < length s" using length_skipWhitespace[of s] by simp
  show ?case
  proof (cases "is_digit c")
    case False
    then have "d \<in> set t" using ds ct d(2) by auto
    then obtain r where "parseVar t = Some r" using less.hyps[OF len] d(2) by auto
    then show ?thesis using False ct by (subst parseVar.simps) auto
  next
    case True
    show ?thesis
    proof (cases "parse_digits 0 (c # t) = UB")
      case u: True
      then show ?thesis using True ct
        by (subst parseVar.simps) (simp add: parseInt_digits del: parse_digits.simps)
    next
      case False
      then obtain w u where pd: "parse_digits 0 (c # t) = Ret (w, u)"
        using parse_digits_cases[of 0 "c # t"] by auto
      then obtain p where p: "c # t = p @ u" "list_all is_digit p"
          "w = 0 \<longleftrightarrow> list_all (\<lambda>c. \<not> nonzero_digit c) p" "0 \<le> w"
        using parse_digits_Ret[OF pd] by auto
      have unf: "parseVar s = (if w > 0 then Some (Ret (w, u)) else parseVar u)"
        using True ct pd
        by (subst parseVar.simps) (simp add: parseInt_digits del: parse_digits.simps)
      have "parse_digits (code c - 48) t = Ret (w, u)"
        using pd True by (auto simp: Let_def split: if_splits)
      then have "length u < length s" using parse_digits_Ret True len by fastforce
      moreover have "w = 0 \<Longrightarrow> d \<in> set u" using ds ct p d(2) by (auto simp: list_all_iff)
      ultimately show ?thesis using unf less.hyps[of u] d(2) p(4) by (cases "w = 0") auto
    qed
  qed
qed


subsection \<open>Reading the specification\<close>

text \<open>
  The input alphabet of \<^verbatim>\<open>readLTLSPEC\<close> as tokens.  An operator is one character; an atom is a
  maximal run of characters that do not end a word.
\<close>

datatype ltl_token = Op char | Atom string

abbreviation op1 :: "char \<Rightarrow> bool" where "op1 c \<equiv> operator_ltlspec [c] False"
abbreviation op2 :: "char \<Rightarrow> bool" where "op2 c \<equiv> operator_ltlspec [c] True"

fun render :: "ltl_token list \<Rightarrow> string" where
  "render [] = []"
| "render (Op c # ts) = c # render ts"
| "render (Atom a # ts) = a @ render ts"

fun quoted :: "ltl_token list \<Rightarrow> string" where
  "quoted [] = []"
| "quoted (Op c # ts) = c # quoted ts"
| "quoted (Atom a # ts) = CHR 0x22 # a @ CHR 0x22 # quoted ts"

fun spec_tokens :: "ltl_token list \<Rightarrow> bool" where
  "spec_tokens [] = True"
| "spec_tokens (Op c # ts) = (op1 c \<and> spec_tokens ts)"
| "spec_tokens (Atom a # ts) =
     (a \<noteq> [] \<and> \<not> op1 (hd a) \<and> list_all (\<lambda>c. \<not> op2 c) a \<and>
      (case ts of Op c # _ \<Rightarrow> op2 c | _ \<Rightarrow> False) \<and> spec_tokens ts)"

lemma operator_ltlspec_Cons: "operator_ltlspec (c # s) b = operator_ltlspec [c] b"
  by (simp add: operator_ltlspec_def)

lemma ltl_word_atom:
  "list_all (\<lambda>c. \<not> op2 c) a \<Longrightarrow> op2 c \<Longrightarrow> ltl_word acc (a @ c # s) = (acc @ a, c # s)"
  by (induction a arbitrary: acc)
    (auto simp: operator_ltlspec_Cons[of _ "_ @ _"] operator_ltlspec_Cons[of _ s])

lemma ltlspec_loop_op: "op1 c \<Longrightarrow> ltlspec_loop acc (c # s) = ltlspec_loop (acc @ [c]) s"
  by (subst ltlspec_loop.simps) (simp add: EOF_def operator_ltlspec_Cons[of c s])

lemma ltlspec_loop_atom:
  assumes "a \<noteq> []" "\<not> op1 (hd a)" "ltl_word (acc @ [CHR 0x22]) (a @ s) = (acc @ [CHR 0x22] @ a, s)"
  shows "ltlspec_loop acc (a @ s) = ltlspec_loop (acc @ CHR 0x22 # a @ [CHR 0x22]) s"
proof -
  obtain c t where a: "a = c # t" using assms(1) by (cases a) auto
  have "\<not> operator_ltlspec (a @ s) False" "peek (a @ s) \<noteq> EOF"
    using assms(2) operator_ltlspec_Cons[of c "t @ s"] by (simp_all add: a EOF_def)
  then show ?thesis by (subst ltlspec_loop.simps) (simp add: assms(3))
qed

lemma ltlspec_loop_render:
  "spec_tokens ts \<Longrightarrow> ltlspec_loop acc (render ts @ s) = ltlspec_loop (acc @ quoted ts) s"
proof (induction ts arbitrary: acc rule: spec_tokens.induct)
  case (3 a ts)
  then obtain c us where ts: "ts = Op c # us" "op2 c"
    by (cases ts rule: quoted.cases) auto
  have "ltl_word (acc @ [CHR 0x22]) (a @ render ts @ s) = (acc @ [CHR 0x22] @ a, render ts @ s)"
    using ltl_word_atom[of a c "acc @ [CHR 0x22]" "render us @ s"] 3(2) ts by simp
  then have "ltlspec_loop acc (a @ render ts @ s) =
      ltlspec_loop (acc @ CHR 0x22 # a @ [CHR 0x22]) (render ts @ s)"
    using ltlspec_loop_atom[of a acc "render ts @ s"] 3(2) by simp
  then show ?case using 3 by simp
qed (simp_all add: ltlspec_loop_op)

lemma ltlspec_loop_Nil [simp]: "ltlspec_loop acc [] = acc"
  by (subst ltlspec_loop.simps) (simp add: EOF_def)

lemma newline_not_op: "\<not> op1 (CHR 0x0A)" "\<not> op2 (CHR 0x0A)"
  by (simp_all add: operator_ltlspec_def EOF_def)

lemma ltl_word_to_end: "list_all (\<lambda>c. \<not> op2 c) a \<Longrightarrow> ltl_word acc a = (acc @ a, [])"
proof (induction a arbitrary: acc)
  case (Cons c a)
  then show ?case using operator_ltlspec_Cons[of c a True] by simp
qed simp

lemma readLTLSPEC_line:
  assumes "spec_tokens ts"
  shows "readLTLSPEC (render ts @ [CHR 0x0A]) = Ret (quoted ts)"
proof -
  have "ltlspec_loop (quoted ts) ([CHR 0x0A] @ []) =
      ltlspec_loop (quoted ts @ CHR 0x22 # [CHR 0x0A] @ [CHR 0x22]) []"
    by (rule ltlspec_loop_atom) (simp_all add: newline_not_op)
  then have "ltlspec_loop [] (render ts @ [CHR 0x0A]) = quoted ts @ [CHR 0x22, CHR 0x0A, CHR 0x22]"
    using ltlspec_loop_render[OF assms, of "[]"] by simp
  then show ?thesis by (simp add: readLTLSPEC_def butlast_append)
qed

text \<open>
  A specification that ends in an atom is read together with the line end: the three
  characters removed are then the quote, the line end and the last character of the atom.
\<close>

lemma readLTLSPEC_atom_at_end:
  assumes "spec_tokens ts" "a \<noteq> []" "\<not> op1 (hd a)" "list_all (\<lambda>c. \<not> op2 c) a"
  shows "readLTLSPEC (render ts @ a @ [CHR 0x0A]) = Ret (quoted ts @ CHR 0x22 # butlast a)"
proof -
  let ?b = "a @ [CHR 0x0A]"
  have "ltlspec_loop (quoted ts) (?b @ []) = ltlspec_loop (quoted ts @ CHR 0x22 # ?b @ [CHR 0x22]) []"
    by (rule ltlspec_loop_atom) (use assms newline_not_op in \<open>auto simp: ltl_word_to_end\<close>)
  then have "ltlspec_loop [] (render ts @ ?b) = (quoted ts @ CHR 0x22 # a) @ [CHR 0x0A, CHR 0x22]"
    using ltlspec_loop_render[OF assms(1), of "[]"] by simp
  then show ?thesis using assms(2) by (simp add: readLTLSPEC_def butlast_append)
qed

end
