(* ===== verification/Bmc_State.thy ===== *)
theory Bmc_State
  imports Prelude
begin

text \<open>
  The state of the BMC oracle, class \<^verbatim>\<open>BMCOracle\<close> of \<^verbatim>\<open>src/BMCOracle.hpp\<close>, and the
  interface through which it uses the BDD package (BuDDy) and the automata library
  (Spot).

  Both libraries are parameters: \<open>'b\<close> is the type of BDDs, \<open>'a\<close> the type of the automaton
  of the LTL formula, and the two interface records carry the library calls the oracle
  makes.  Clock readings and console output have no counterpart.
\<close>

record var_info =
  num_step :: int
  property :: bool
  vname :: string

definition default_var_info :: var_info where
  "default_var_info = \<lparr>num_step = - 1, property = False, vname = []\<rparr>"

datatype const_type = EMPTY_INTERSECT | LOOP_EXCLUDED | EDGE_CONST | LOOP_CONST

text \<open>The enumerators are \<^verbatim>\<open>0\<close> to \<^verbatim>\<open>3\<close> and index the two statistics vectors.\<close>

fun const_index :: "const_type \<Rightarrow> nat" where
  "const_index EMPTY_INTERSECT = 0"
| "const_index LOOP_EXCLUDED = 1"
| "const_index EDGE_CONST = 2"
| "const_index LOOP_CONST = 3"

text \<open>
  The word automaton of an assignment: \<open>w_states\<close> states, and edges in creation order.
  Spot numbers edges from one, so that the edge with number \<open>e\<close> is at index \<open>e - 1\<close>.
\<close>

record 'b word_edge =
  we_src :: nat
  we_dst :: nat
  we_cond :: 'b

record 'b word_automaton =
  w_states :: nat
  w_edges :: "'b word_edge list"

record ('a, 'b) bmc_oracle =
  new_clauses :: "int list list"
  current_trail :: "int list list"
  assignment_counter :: "string \<Rightarrow> int option"
  ap_to_rm :: "string list"
  unassigned_vars :: "(string \<times> int set) list"
  enable_intersection :: bool
  enable_edge_loop_cond :: bool
  ltl_aut :: 'a
  word_aut :: "'b word_automaton option"
  init_box_done :: bool
  num_edge_loop :: int
  numb_clauses :: "nat list"
  size_clauses :: "nat list"
  numb_call :: nat
  added_clauses :: nat
  max_vars :: int
  first_var :: int
  nb_property_variable :: int
  nb_model_variable :: int
  info_variables :: "var_info list"
  rename_lit_loop :: "int list"
  variable_by_step :: "(string \<Rightarrow> int option) list"
  bound_K :: int
  ltlspec :: string
  edges_id :: "int list"
  prev_trail_sz :: int
  curr_trail_sz :: int

text \<open>
  The state after the constructor's initialisers and the first \<^verbatim>\<open>push_back\<close> on
  \<^verbatim>\<open>current_trail\<close>: the root level is always there.
\<close>

definition initial_oracle :: "'a \<Rightarrow> ('a, 'b) bmc_oracle" where
  "initial_oracle null_aut =
     \<lparr>new_clauses = [], current_trail = [[]], assignment_counter = Map.empty, ap_to_rm = [],
      unassigned_vars = [], enable_intersection = True, enable_edge_loop_cond = True,
      ltl_aut = null_aut, word_aut = None, init_box_done = False, num_edge_loop = - 1,
      numb_clauses = [], size_clauses = [], numb_call = 0, added_clauses = 0,
      max_vars = 0, first_var = INT_MAX, nb_property_variable = 0, nb_model_variable = 0,
      info_variables = [], rename_lit_loop = [], variable_by_step = [], bound_K = 0,
      ltlspec = [], edges_id = [], prev_trail_sz = 0, curr_trail_sz = 0\<rparr>"

subsection \<open>The library interfaces\<close>

text \<open>
  BuDDy: the constants, the connectives, literals, the root variable with its two
  cofactors, and the sequence of cubes that \<^verbatim>\<open>minato_isop::next\<close> enumerates before it
  answers \<^verbatim>\<open>bddfalse\<close>.
\<close>

record 'b bdd_ops =
  bddtrue :: 'b
  bddfalse :: 'b
  bdd_and :: "'b \<Rightarrow> 'b \<Rightarrow> 'b"
  bdd_or :: "'b \<Rightarrow> 'b \<Rightarrow> 'b"
  bdd_not :: "'b \<Rightarrow> 'b"
  bdd_ithvar :: "int \<Rightarrow> 'b"
  bdd_nithvar :: "int \<Rightarrow> 'b"
  bdd_var :: "'b \<Rightarrow> int"
  bdd_high :: "'b \<Rightarrow> 'b"
  bdd_low :: "'b \<Rightarrow> 'b"
  minato_isop :: "'b \<Rightarrow> 'b list"

text \<open>
  What the oracle reads of a product automaton and of its strongly connected components:
  the initial state, the component count, the states of a component, the component of a
  state, the three classifications, the pair of source states, and the outgoing edges.
\<close>

record 'b prod_edge =
  pe_dst :: nat
  pe_cond :: 'b

record 'b product_view =
  p_init :: nat
  scc_count :: nat
  states_of :: "nat \<Rightarrow> nat list"
  scc_of :: "nat \<Rightarrow> nat"
  is_useful_scc :: "nat \<Rightarrow> bool"
  is_useful_state :: "nat \<Rightarrow> bool"
  is_accepting_scc :: "nat \<Rightarrow> bool"
  product_states :: "nat \<Rightarrow> nat \<times> nat"
  p_out :: "nat \<Rightarrow> 'b prod_edge list"

record ('a, 'b) spot_ops =
  parse_and_translate :: "string \<Rightarrow> 'a option"
  aut_aps :: "'a \<Rightarrow> string list"
  has_registered_proposition :: "'a \<Rightarrow> string \<Rightarrow> int"
  bdd_map_ap_name :: "'a \<Rightarrow> int \<Rightarrow> string"
  unregister_ap :: "'a \<Rightarrow> int \<Rightarrow> 'a"
  purge_dead_states :: "'a \<Rightarrow> 'a"
  remove_unused_ap :: "'a \<Rightarrow> 'a"
  spot_product :: "'b word_automaton \<Rightarrow> 'a \<Rightarrow> 'b product_view"

end
