(* ===== verification/Smv_Head.thy ===== *)
theory Smv_Head
  imports Smv_Stream Bmc_State
begin

text \<open>
  \<^verbatim>\<open>readHeadFile\<close> of \<^verbatim>\<open>src/smvHead.hpp\<close>: it fills the oracle's variable table, the loop
  variables, the bound and the LTL specification from the comment lines of a BMC problem
  in DIMACS format.
\<close>

text \<open>The branch for \<^verbatim>\<open>c CNF variable\<close>.\<close>

definition head_cnf_variable ::
  "int \<Rightarrow> int \<Rightarrow> string \<Rightarrow> ('a, 'b) bmc_oracle \<Rightarrow> ('a, 'b) bmc_oracle" where
  "head_cnf_variable step var_time name orc =
     (let vf = default_var_info\<lparr>num_step := step, vname := name\<rparr>
      in orc\<lparr>info_variables :=
               (grow (nat var_time) default_var_info (info_variables orc))[nat var_time := vf],
             nb_model_variable := nb_model_variable orc + 1,
             first_var := (if var_time < first_var orc then var_time else first_var orc)\<rparr>)"

text \<open>The branch for \<^verbatim>\<open>c LOOP variable\<close>.\<close>

definition head_loop_variable ::
  "int \<Rightarrow> int \<Rightarrow> ('a, 'b) bmc_oracle \<Rightarrow> ('a, 'b) bmc_oracle" where
  "head_loop_variable var_time loop_sz orc =
     (let vf = \<lparr>num_step = loop_sz, property = True,
                vname = ''loop'' @ to_string (nat var_time)\<rparr>
      in orc\<lparr>rename_lit_loop := rename_lit_loop orc @ [var_time],
             info_variables :=
               (grow (nat var_time) default_var_info (info_variables orc))[nat var_time := vf]\<rparr>)"

text \<open>The first loop of \<^verbatim>\<open>readHeadFile\<close>, up to the line \<^verbatim>\<open>c model\<close>.\<close>

partial_function (option) head_loop ::
  "('a, 'b) bmc_oracle \<Rightarrow> int \<Rightarrow> string \<Rightarrow> (('a, 'b) bmc_oracle \<times> int \<times> string) outcome option" where
  "head_loop orc step s =
     (if peek s = code CHR ''c'' then
        (let s1 = advance (advance s)
         in if peek s1 = code CHR ''@'' then head_loop orc (step + 1) (skipLine s1)
            else if peek s1 = code CHR ''C'' then
              (case parseVar s1 of
                 None \<Rightarrow> None
               | Some (Ret r) \<Rightarrow>
                   (case parseNameVar (snd r) of
                      None \<Rightarrow> None
                    | Some q \<Rightarrow>
                        head_loop (head_cnf_variable step (fst r) (fst q) orc) step
                          (skipLine (snd q)))
               | Some (Exit c) \<Rightarrow> Some (Exit c) | Some Throw \<Rightarrow> Some Throw | Some UB \<Rightarrow> Some UB | Some Abort \<Rightarrow> Some Abort | Some Diverge \<Rightarrow> None)
            else if peek s1 = code CHR ''L'' then
              (case parseVarLoopOrSize s1 of
                 None \<Rightarrow> None
               | Some (Ret r) \<Rightarrow>
                   (case parseVarLoopOrSize (snd r) of
                      None \<Rightarrow> None
                    | Some (Ret q) \<Rightarrow>
                        head_loop (head_loop_variable (fst r) (fst q) orc) step (skipLine (snd q))
                    | Some (Exit c) \<Rightarrow> Some (Exit c) | Some Throw \<Rightarrow> Some Throw
                    | Some UB \<Rightarrow> Some UB | Some Abort \<Rightarrow> Some Abort | Some Diverge \<Rightarrow> None)
               | Some (Exit c) \<Rightarrow> Some (Exit c) | Some Throw \<Rightarrow> Some Throw | Some UB \<Rightarrow> Some UB | Some Abort \<Rightarrow> Some Abort | Some Diverge \<Rightarrow> None)
            else if peek s1 = code CHR ''m'' then Some (Ret (orc, step, skipLine s1))
            else head_loop orc step (skipLine s1))
      else head_loop orc step (advance s))"

text \<open>
  The second loop, which skips the clauses and stops at the specification.  A comment that
  starts with \<^verbatim>\<open>L\<close> but is not the specification is left where the match stopped.
\<close>

partial_function (option) spec_loop ::
  "('a, 'b) bmc_oracle \<Rightarrow> string \<Rightarrow> ('a, 'b) bmc_oracle outcome option" where
  "spec_loop orc s =
     (let s0 = skipWhitespace s
      in if peek s0 = EOF then Some (Ret orc)
         else if peek s0 = code CHR ''p'' then
           (let m = eagerMatch s0 ''p cnf''
            in if fst m
               then case parseInt (snd m) of
                      Ret r \<Rightarrow>
                        (case parseInt (snd r) of
                           Ret q \<Rightarrow> spec_loop (orc\<lparr>max_vars := fst r\<rparr>) (snd q)
                         | Exit c \<Rightarrow> Some (Exit c) | Throw \<Rightarrow> Some Throw | UB \<Rightarrow> Some UB
              | Abort \<Rightarrow> Some Abort | Diverge \<Rightarrow> None)
                    | Exit c \<Rightarrow> Some (Exit c) | Throw \<Rightarrow> Some Throw | UB \<Rightarrow> Some UB
              | Abort \<Rightarrow> Some Abort | Diverge \<Rightarrow> None
               else Some (Exit 3))
         else if peek s0 = code CHR ''c'' then
           (let s1 = advance (advance s0)
            in if peek s1 = code CHR ''L'' then
                 (let s2 = advance s1
                  in if peek s2 = code CHR ''T''
                     then (let m = eagerMatch s2 ''TLSPEC ''
                           in if fst m
                              then Some (obind (readLTLSPEC (snd m)) (\<lambda>l. Ret (orc\<lparr>ltlspec := l\<rparr>)))
                              else spec_loop orc (snd m))
                     else spec_loop orc s2)
               else spec_loop orc (skipLine s1))
         else spec_loop orc (skipLine s0))"

definition readHeadFile :: "('a, 'b) bmc_oracle \<Rightarrow> string \<Rightarrow> ('a, 'b) bmc_oracle outcome option" where
  "readHeadFile orc file =
     (case head_loop (orc\<lparr>max_vars := 0, first_var := INT_MAX\<rparr>) (- 1) file of
        None \<Rightarrow> None
      | Some (Ret (o1, step, s)) \<Rightarrow> spec_loop (o1\<lparr>bound_K := step\<rparr>) s
      | Some (Exit c) \<Rightarrow> Some (Exit c) | Some Throw \<Rightarrow> Some Throw | Some UB \<Rightarrow> Some UB | Some Abort \<Rightarrow> Some Abort | Some Diverge \<Rightarrow> None)"


subsection \<open>A printed head and what it stands for\<close>

text \<open>
  The comment lines the reader understands, with free text where it scans.  \<open>TimeLine\<close>
  starts a new step, \<open>CnfLine\<close> names a variable of the current step, \<open>LoopLine\<close> a loop
  variable and its target, \<open>OtherLine\<close> is any other comment.
\<close>

datatype head_line =
    TimeLine string
  | CnfLine string nat string string
  | LoopLine string nat string nat string
  | OtherLine string

definition newline :: char where
  "newline = CHR 0x0A"

abbreviation one_line :: "string \<Rightarrow> bool" where
  "one_line t \<equiv> list_all (\<lambda>c. code c \<noteq> 10) t"

abbreviation no_digits :: "string \<Rightarrow> bool" where
  "no_digits t \<equiv> list_all (\<lambda>c. \<not> is_digit c) t"

fun print_line :: "head_line \<Rightarrow> string" where
  "print_line (TimeLine t) = ''c @'' @ t @ [newline]"
| "print_line (CnfLine pre n mid name) =
     ''c C'' @ pre @ to_string n @ mid @ ''Variable '' @ name @ [newline]"
| "print_line (LoopLine pre v mid k t) =
     ''c L'' @ pre @ to_string v @ mid @ to_string k @ t @ [newline]"
| "print_line (OtherLine t) = ''c '' @ t @ [newline]"

fun line_ok :: "head_line \<Rightarrow> bool" where
  "line_ok (TimeLine t) = one_line t"
| "line_ok (CnfLine pre n mid name) =
     (no_digits pre \<and> 0 < n \<and> int n \<le> INT_MAX \<and> mid \<noteq> [] \<and> \<not> is_digit (hd mid) \<and>
      list_all (\<lambda>c. c \<noteq> CHR ''V'') mid \<and> name \<noteq> [] \<and> \<not> is_space (hd name) \<and> one_line name)"
| "line_ok (LoopLine pre v mid k t) =
     (no_digits pre \<and> int v \<le> INT_MAX \<and> mid \<noteq> [] \<and> no_digits mid \<and> int k \<le> INT_MAX \<and>
      one_line t \<and> (t = [] \<or> \<not> is_digit (hd t)))"
| "line_ok (OtherLine t) =
     (t \<noteq> [] \<and> one_line t \<and> hd t \<notin> {CHR ''@'', CHR ''C'', CHR ''L'', CHR ''m''})"

fun read_line :: "('a, 'b) bmc_oracle \<times> int \<Rightarrow> head_line \<Rightarrow> ('a, 'b) bmc_oracle \<times> int" where
  "read_line (orc, step) (TimeLine t) = (orc, step + 1)"
| "read_line (orc, step) (CnfLine pre n mid name) =
     (head_cnf_variable step (int n) name orc, step)"
| "read_line (orc, step) (LoopLine pre v mid k t) = (head_loop_variable (int v) (int k) orc, step)"
| "read_line (orc, step) (OtherLine t) = (orc, step)"

lemma code_newline [simp]: "code newline = 10"
  by (simp add: newline_def)

lemma head_loop_line:
  assumes "line_ok l"
  shows "head_loop orc step (print_line l @ s) =
         (case read_line (orc, step) l of (o1, st1) \<Rightarrow> head_loop o1 st1 s)"
  using assms
proof (cases l)
  case (TimeLine t)
  then show ?thesis using assms skipLine_line[of t s]
    by (subst head_loop.simps) (simp add: newline_def)
next
  case (CnfLine pre n mid name)
  let ?tail = "mid @ ''Variable '' @ name @ newline # s"
  have v: "parseVar (''C'' @ pre @ to_string n @ ?tail) = Some (Ret (int n, ?tail))"
    using parseVar_number[of "''C'' @ pre" n ?tail] assms CnfLine by (simp del: parse_digits.simps)
  have nm: "parseNameVar ?tail = Some (name, newline # s)"
    using parseNameVar_line[of mid name s] assms CnfLine by (simp add: newline_def)
  show ?thesis using v nm CnfLine by (subst head_loop.simps) simp
next
  case (LoopLine pre v mid k t)
  let ?t1 = "mid @ to_string k @ t @ newline # s" and ?t2 = "t @ newline # s"
  have hd1: "?t1 = [] \<or> \<not> is_digit (hd ?t1)" using assms LoopLine by (cases mid) auto
  have hd2: "?t2 = [] \<or> \<not> is_digit (hd ?t2)" using assms LoopLine by (cases t) auto
  have v: "parseVarLoopOrSize (''L'' @ pre @ to_string v @ ?t1) = Some (Ret (int v, ?t1))"
    using parseVarLoopOrSize_number[OF _ _ hd1, of "''L'' @ pre" v] assms LoopLine by simp
  have k: "parseVarLoopOrSize ?t1 = Some (Ret (int k, ?t2))"
    using parseVarLoopOrSize_number[OF _ _ hd2, of mid k] assms LoopLine by simp
  have "skipLine ?t2 = s" using skipLine_line[of t s] assms LoopLine by (simp add: newline_def)
  then show ?thesis using v k LoopLine by (subst head_loop.simps) simp
next
  case (OtherLine t)
  then obtain c u where t: "t = c # u" using assms by (cases t) auto
  have "c \<noteq> CHR ''@''" "c \<noteq> CHR ''C''" "c \<noteq> CHR ''L''" "c \<noteq> CHR ''m''"
    using assms OtherLine t by auto
  then have "code c \<noteq> code CHR ''@''" "code c \<noteq> code CHR ''C''" "code c \<noteq> code CHR ''L''"
    "code c \<noteq> code CHR ''m''" by (simp_all only: of_char_eq_iff not_False_eq_True)
  then show ?thesis using assms OtherLine skipLine_line[of t s]
    by (subst head_loop.simps) (simp add: newline_def t)
qed

lemma head_loop_lines:
  assumes "list_all line_ok ls" "one_line t"
  shows "head_loop orc step (concat (map print_line ls) @ ''c m'' @ t @ newline # s) =
         (case foldl read_line (orc, step) ls of (o1, st1) \<Rightarrow> Some (Ret (o1, st1, s)))"
  using assms(1)
proof (induction ls arbitrary: orc step)
  case Nil
  have "skipLine (''m'' @ t @ newline # s) = s"
    using skipLine_line[of "''m'' @ t" s] assms(2) by (simp add: newline_def)
  then show ?case by (subst head_loop.simps) simp
next
  case (Cons l ls)
  then show ?case by (simp add: head_loop_line split: prod.split)
qed

text \<open>After the head: the problem line, the clauses, and the specification at the end.\<close>

definition clause_line :: "string \<Rightarrow> bool" where
  "clause_line l \<longleftrightarrow>
     l \<noteq> [] \<and> one_line l \<and> \<not> is_space (hd l) \<and> hd l \<notin> {CHR ''c'', CHR ''p''}"

definition print_body :: "nat \<Rightarrow> nat \<Rightarrow> string list \<Rightarrow> ltl_token list \<Rightarrow> string" where
  "print_body n m cs ts =
     ''p cnf '' @ to_string n @ '' '' @ to_string m @ [newline] @
     concat (map (\<lambda>l. l @ [newline]) cs) @ ''c LTLSPEC '' @ render ts @ [newline]"

lemma spec_loop_newline: "spec_loop orc (newline # s) = spec_loop orc s"
proof -
  have "skipWhitespace (newline # s) = skipWhitespace s" by simp
  then show ?thesis by (simp only: spec_loop.simps[of orc "newline # s"] spec_loop.simps[of orc s])
qed

lemma spec_loop_clause_line:
  assumes "clause_line l"
  shows "spec_loop orc (l @ newline # s) = spec_loop orc s"
proof -
  obtain c u where l: "l = c # u" using assms by (cases l) (auto simp: clause_line_def)
  have "c \<noteq> CHR ''c''" "c \<noteq> CHR ''p''" using assms l by (auto simp: clause_line_def)
  then have "code c \<noteq> code CHR ''c''" "code c \<noteq> code CHR ''p''"
    by (simp_all only: of_char_eq_iff not_False_eq_True)
  moreover have "skipWhitespace (l @ newline # s) = l @ newline # s"
    using assms by (auto simp: l clause_line_def)
  moreover have "skipLine (l @ newline # s) = s"
    using skipLine_line[of l s] assms by (simp add: clause_line_def newline_def)
  ultimately show ?thesis
    by (subst spec_loop.simps) (simp add: EOF_def Let_def l)
qed

lemma spec_loop_clause_lines:
  "list_all clause_line cs \<Longrightarrow>
   spec_loop orc (concat (map (\<lambda>l. l @ [newline]) cs) @ s) = spec_loop orc s"
  by (induction cs) (simp_all add: spec_loop_clause_line)

lemma spec_loop_spec:
  assumes "spec_tokens ts"
  shows "spec_loop orc (''c LTLSPEC '' @ render ts @ [newline]) = Some (Ret (orc\<lparr>ltlspec := quoted ts\<rparr>))"
proof -
  have "eagerMatch (''TLSPEC '' @ render ts @ [newline]) ''TLSPEC '' = (True, render ts @ [newline])"
    by simp
  then show ?thesis using readLTLSPEC_line[OF assms]
    by (subst spec_loop.simps) (simp add: EOF_def newline_def)
qed

lemma parseInt_space: "parseInt (CHR '' '' # s) = parseInt s"
  by (simp add: parseInt_def)

lemma spec_loop_body:
  assumes "int n \<le> INT_MAX" "int m \<le> INT_MAX" "list_all clause_line cs" "spec_tokens ts"
  shows "spec_loop orc (print_body n m cs ts) =
         Some (Ret (orc\<lparr>max_vars := int n, ltlspec := quoted ts\<rparr>))"
proof -
  let ?r = "concat (map (\<lambda>l. l @ [newline]) cs) @ ''c LTLSPEC '' @ render ts @ [newline]"
  let ?s1 = "'' '' @ to_string m @ [newline] @ ?r"
  have "eagerMatch (print_body n m cs ts) ''p cnf'' = (True, '' '' @ to_string n @ ?s1)"
    by (simp add: print_body_def)
  moreover have "parseInt ('' '' @ to_string n @ ?s1) = Ret (int n, ?s1)"
    using parseInt_to_string[OF assms(1), of ?s1] parseInt_space by simp
  moreover have "parseInt ?s1 = Ret (int m, newline # ?r)"
    using parseInt_to_string[OF assms(2), of "newline # ?r"] parseInt_space by simp
  moreover have "skipWhitespace (print_body n m cs ts) = print_body n m cs ts"
    "peek (print_body n m cs ts) = code CHR ''p''" by (simp_all add: print_body_def)
  ultimately have "spec_loop orc (print_body n m cs ts) =
      spec_loop (orc\<lparr>max_vars := int n\<rparr>) (newline # ?r)"
    by (subst spec_loop.simps) (simp add: EOF_def Let_def)
  also have "\<dots> = Some (Ret (orc\<lparr>max_vars := int n, ltlspec := quoted ts\<rparr>))"
    using spec_loop_spec[OF assms(4)]
    by (simp only: spec_loop_newline spec_loop_clause_lines[OF assms(3)]) simp
  finally show ?thesis .
qed


subsection \<open>When the readers do not return\<close>

lemma set_skipWhitespace: "set (skipWhitespace s) \<subseteq> set s"
  by (induction s) auto

lemma set_skipLine: "set (skipLine s) \<subseteq> set s"
  by (induction s) auto

lemma set_advance: "set (advance s) \<subseteq> set s"
  by (cases s) auto

lemma set_parse_digits: "parse_digits v s = Ret (w, u) \<Longrightarrow> set u \<subseteq> set s"
  by (induction v s rule: parse_digits.induct) (auto simp: Let_def split: if_splits)

lemma set_parseInt:
  assumes "parseInt s = Ret (v, u)"
  shows "set u \<subseteq> set s"
proof -
  let ?s1 = "skipWhitespace s"
  obtain s2 w where s2: "s2 = advance ?s1 \<or> s2 = ?s1" and w: "parse_digits 0 s2 = Ret (w, u)"
    using assms unfolding parseInt_def Let_def by (auto simp: obind_eq_Ret split: if_splits)
  have "set u \<subseteq> set s2" by (rule set_parse_digits[OF w])
  also have "\<dots> \<subseteq> set s" using s2 set_skipWhitespace[of s] set_advance[of ?s1] by auto
  finally show ?thesis .
qed

text \<open>One round of the two number scans, \<open>ok\<close> being the test on the parsed value.\<close>

lemma number_scan_set:
  assumes IH: "\<And>s v u. f s = Some (Ret (v, u)) \<Longrightarrow> set u \<subseteq> set s"
    and eq: "(let s1 = skipWhitespace s
      in if peek s1 < 48 \<or> peek s1 > 57 then f (advance s1)
         else case parseInt s1 of
                Ret r \<Rightarrow> if ok (fst r) then Some (Ret r) else f (snd r)
              | Exit c \<Rightarrow> Some (Exit c) | Throw \<Rightarrow> Some Throw | UB \<Rightarrow> Some UB
              | Abort \<Rightarrow> Some Abort | Diverge \<Rightarrow> None) = Some (Ret (v, u))"
  shows "set u \<subseteq> set s"
proof -
  let ?s1 = "skipWhitespace s"
  consider "f (advance ?s1) = Some (Ret (v, u))"
    | w x where "parseInt ?s1 = Ret (w, x)" "x = u \<or> f x = Some (Ret (v, u))"
    using eq by (auto simp: Let_def split: if_splits outcome.splits)
  then have "set u \<subseteq> set ?s1"
  proof cases
    case 1
    then show ?thesis using IH set_advance[of ?s1] by blast
  next
    case 2
    then show ?thesis using IH[of x] set_parseInt[OF 2(1)] by blast
  qed
  then show ?thesis using set_skipWhitespace[of s] by blast
qed

lemma set_parseVar:
  assumes "parseVar s = Some (Ret (v, u))"
  shows "set u \<subseteq> set s"
proof -
  have "\<forall>v u. r = Ret (v, u) \<longrightarrow> set u \<subseteq> set s" if ret: "parseVar s = Some r" for r
  proof (rule parseVar.raw_induct
      [where P = "\<lambda>s r. \<forall>v u. r = Ret (v, u) \<longrightarrow> set u \<subseteq> set s", OF _ ret], intro allI impI, goal_cases)
    case (1 f s r v u)
    show ?case
      by (rule number_scan_set[where f = f and ok = "\<lambda>v. v > 0", OF _ 1(2)[unfolded 1(3)]])
        (use 1(1) in blast)
  qed
  then show ?thesis using assms by blast
qed

lemma set_parseVarLoopOrSize:
  assumes "parseVarLoopOrSize s = Some (Ret (v, u))"
  shows "set u \<subseteq> set s"
proof -
  have "\<forall>v u. r = Ret (v, u) \<longrightarrow> set u \<subseteq> set s" if ret: "parseVarLoopOrSize s = Some r" for r
  proof (rule parseVarLoopOrSize.raw_induct
      [where P = "\<lambda>s r. \<forall>v u. r = Ret (v, u) \<longrightarrow> set u \<subseteq> set s", OF _ ret], intro allI impI, goal_cases)
    case (1 f s r v u)
    show ?case
      by (rule number_scan_set[where f = f and ok = "\<lambda>v. v \<ge> 0", OF _ 1(2)[unfolded 1(3)]])
        (use 1(1) in blast)
  qed
  then show ?thesis using assms by blast
qed

lemma set_read_to_newline:
  assumes ret: "read_to_newline name s = Some r"
  shows "set (snd r) \<subseteq> set s"
proof (rule read_to_newline.raw_induct [where P = "\<lambda>name s r. set (snd r) \<subseteq> set s", OF _ ret])
  fix f name s r
  assume IH: "\<And>name s r. f name s = Some r \<Longrightarrow> set (snd r) \<subseteq> set s"
    and eq: "(if peek s \<noteq> 10 then f (name @ [char_of (peek s)]) (advance s) else Some (name, s)) = Some r"
  show "set (snd r) \<subseteq> set s"
    using eq IH[of _ "advance s" r] set_advance[of s] by (auto split: if_splits)
qed

lemma set_eagerMatch: "set (snd (eagerMatch s p)) \<subseteq> set s"
proof (induction s p rule: eagerMatch.induct)
  case (2 s c cs)
  then show ?case using set_advance[of s] by auto
qed simp

lemma set_parseNameVar:
  assumes ret: "parseNameVar s = Some r"
  shows "set (snd r) \<subseteq> set s"
proof (rule parseNameVar.raw_induct [where P = "\<lambda>s r. set (snd r) \<subseteq> set s", OF _ ret])
  fix f s r
  assume IH: "\<And>s r. f s = Some r \<Longrightarrow> set (snd r) \<subseteq> set s"
    and eq: "(let s1 = skipWhitespace s; m = eagerMatch s1 ''Variable''
      in if fst m then read_to_newline [] (skipWhitespace (snd m)) else f (advance (snd m))) = Some r"
  let ?m = "eagerMatch (skipWhitespace s) ''Variable''"
  have "set (snd ?m) \<subseteq> set s" using set_eagerMatch set_skipWhitespace by blast
  moreover have "set (snd r) \<subseteq> set (snd ?m)"
  proof (cases "fst ?m")
    case True
    then show ?thesis using eq set_read_to_newline set_skipWhitespace
      by (simp add: Let_def del: eagerMatch.simps) blast
  next
    case False
    then show ?thesis using eq IH set_advance by (simp add: Let_def del: eagerMatch.simps) blast
  qed
  ultimately show "set (snd r) \<subseteq> set s" by blast
qed


lemma head_loop_Ret_step:
  assumes IH: "\<forall>orc step s x. f orc step s = Some (Ret x) \<longrightarrow> CHR ''m'' \<in> set s"
    and m: "CHR ''m'' \<notin> set s"
  shows "f orc step (skipLine s) \<noteq> Some (Ret x)" "f orc step (advance s) \<noteq> Some (Ret x)"
    "parseVar s = Some (Ret r) \<Longrightarrow> parseNameVar (snd r) = Some q \<Longrightarrow>
       f orc step (skipLine (snd q)) \<noteq> Some (Ret x)"
    "parseVarLoopOrSize s = Some (Ret r) \<Longrightarrow> parseVarLoopOrSize (snd r) = Some (Ret q') \<Longrightarrow>
       f orc step (skipLine (snd q')) \<noteq> Some (Ret x)"
proof -
  have sub: "f orc step u \<noteq> Some (Ret x)" if "set u \<subseteq> set s" for u orc step x
    using that m IH by blast
  show "f orc step (skipLine s) \<noteq> Some (Ret x)" "f orc step (advance s) \<noteq> Some (Ret x)"
    by (rule sub, rule set_skipLine) (rule sub, rule set_advance)
  show "f orc step (skipLine (snd q)) \<noteq> Some (Ret x)"
    if "parseVar s = Some (Ret r)" "parseNameVar (snd r) = Some q"
    using that set_parseVar[of s "fst r" "snd r"] set_parseNameVar[of "snd r" q]
      set_skipLine[of "snd q"] by (intro sub) auto
  show "f orc step (skipLine (snd q')) \<noteq> Some (Ret x)"
    if "parseVarLoopOrSize s = Some (Ret r)" "parseVarLoopOrSize (snd r) = Some (Ret q')"
    using that set_parseVarLoopOrSize[of s "fst r" "snd r"]
      set_parseVarLoopOrSize[of "snd r" "fst q'" "snd q'"]
      set_skipLine[of "snd q'"] by (intro sub) auto
qed

lemma head_loop_Ret:
  assumes "head_loop orc step s = Some (Ret x)"
  shows "CHR ''m'' \<in> set s"
proof -
  have "\<forall>x. r = Ret x \<longrightarrow> CHR ''m'' \<in> set s" if ret: "head_loop orc step s = Some r" for r
  proof (rule head_loop.raw_induct
      [where P = "\<lambda>orc step s r. \<forall>x. r = Ret x \<longrightarrow> CHR ''m'' \<in> set s", OF _ ret],
      intro allI impI, rule ccontr, goal_cases)
    case (1 f orc step s r x)
    let ?s1 = "advance (advance s)"
    have IH: "\<forall>orc step s x. f orc step s = Some (Ret x) \<longrightarrow> CHR ''m'' \<in> set s"
      using 1(1) by blast
    have m1: "CHR ''m'' \<notin> set ?s1" using 1(4) set_advance by blast
    then have "peek ?s1 \<noteq> code CHR ''m''" 
      by (cases ?s1) (simp_all only: of_char_eq_iff list.set_intros peek_simps of_char_not_minus_one, auto)
    then show False
      using 1(2)[unfolded 1(3)] head_loop_Ret_step[OF IH m1] head_loop_Ret_step(2)[OF IH 1(4)]
      by (auto simp: Let_def split: if_splits option.splits outcome.splits)
  qed
  then show ?thesis using assms by blast
qed


subsection \<open>Properties\<close>

text \<open>
  \<^bold>\<open>C14\<close> (\<open>StreamBuffer\<close>).  Whatever the sizes of the chunks that \<^verbatim>\<open>gzread\<close> delivers, the
  character under the stream after \<open>n\<close> increments is the \<open>n\<close>-th character of the file, or
  \<^verbatim>\<open>EOF\<close> behind the last one: refilling the buffer loses and repeats nothing.
\<close>

theorem StreamBuffer_reads_contents:
  assumes "gz_reader gzread contents" and "length mem = buffer_size"
  shows "sb_deref ((sb_incr gzread ^^ n) (new_StreamBuffer gzread g mem)) = peek (drop n (contents g))"
proof -
  have "sb_inv contents ((sb_incr gzread ^^ n) (new_StreamBuffer gzread g mem)) \<and>
        sb_view contents ((sb_incr gzread ^^ n) (new_StreamBuffer gzread g mem)) = drop n (contents g)"
  proof (induction n)
    case 0
    show ?case using new_StreamBuffer_view[OF assms] by simp
  next
    case (Suc n)
    then show ?case
      using sb_incr_view[OF assms(1)] by (simp add: advance_def drop_Suc tl_drop)
  qed
  then show ?thesis using sb_deref_view by metis
qed

definition list_gzread :: "string gz_read" where
  "list_gzread g n = (take n g, int (length (take n g)), drop n g)"

lemma list_gzread_reader: "gz_reader list_gzread id"
  by (auto simp: gz_reader_def list_gzread_def)

theorem StreamBuffer_reads_contents_witness:
  "gz_reader list_gzread id \<and> length (replicate buffer_size CHR 0x00) = buffer_size \<and>
   sb_deref ((sb_incr list_gzread ^^ 2)
     (new_StreamBuffer list_gzread ''p cnf'' (replicate buffer_size CHR 0x00))) = code CHR ''c''"
  using StreamBuffer_reads_contents[OF list_gzread_reader, of "replicate buffer_size CHR 0x00" 2 "''p cnf''"]
  by (simp add: list_gzread_reader)


text \<open>
  \<^bold>\<open>C15\<close> (\<open>readLTLSPEC\<close>).  A specification that ends in an operator character is read back
  with every atom in double quotes and everything else unchanged, the line end removed.
\<close>

theorem readLTLSPEC_quotes_atoms:
  assumes "spec_tokens ts"
  shows "readLTLSPEC (render ts @ [newline]) = Ret (quoted ts)"
  using readLTLSPEC_line[OF assms] by (simp add: newline_def)

theorem readLTLSPEC_quotes_atoms_witness:
  "spec_tokens [Op CHR ''G'', Op CHR ''('', Atom ''req.1'', Op CHR '')''] \<and>
   readLTLSPEC (''G(req.1)'' @ [newline]) = Ret (''G('' @ [CHR 0x22] @ ''req.1'' @ [CHR 0x22] @ '')'')"
  using readLTLSPEC_quotes_atoms[of "[Op CHR ''G'', Op CHR ''('', Atom ''req.1'', Op CHR '')'']"]
  by (simp add: operator_ltlspec_def EOF_def)

text \<open>
  \<^bold>\<open>C16\<close> (\<open>readLTLSPEC\<close>).  A specification that ends in an atom loses the last character of
  that atom and keeps an opening quote without its partner, because the three characters
  removed at the end are always taken for the quoted line end.
\<close>

theorem readLTLSPEC_truncates_final_atom:
  assumes "spec_tokens ts" "a \<noteq> []" "\<not> op1 (hd a)" "list_all (\<lambda>c. \<not> op2 c) a"
  shows "readLTLSPEC (render ts @ a @ [newline]) = Ret (quoted ts @ CHR 0x22 # butlast a)"
  using readLTLSPEC_atom_at_end[OF assms] by (simp add: newline_def)

theorem readLTLSPEC_truncates_final_atom_witness:
  "readLTLSPEC (''G ack'' @ [newline]) = Ret (''G '' @ CHR 0x22 # ''ac'')"
  using readLTLSPEC_truncates_final_atom[of "[Op CHR ''G'', Op CHR '' '']" "''ack''"]
  by (simp add: operator_ltlspec_def EOF_def)



text \<open>
  \<^bold>\<open>C18\<close> (\<open>readHeadFile\<close>).  The head is only left through a comment that starts with \<^verbatim>\<open>m\<close>: on
  a file without that character the function never returns normally, in particular it
  does not stop at the end of the file.
\<close>

theorem readHeadFile_needs_model_line:
  assumes "CHR ''m'' \<notin> set file"
  shows "readHeadFile orc file \<noteq> Some (Ret o1)"
  using head_loop_Ret assms by (fastforce simp: readHeadFile_def split: option.splits outcome.splits)

theorem readHeadFile_needs_model_line_witness:
  "\<not> (\<exists>o1. readHeadFile (initial_oracle () :: (unit, unit) bmc_oracle) ''p cnf 1 1 1 0'' = Some (Ret o1))"
  using readHeadFile_needs_model_line
    [of "''p cnf 1 1 1 0''" "initial_oracle () :: (unit, unit) bmc_oracle"] by auto

end
