(* ===== verification/Bmc_Clauses.thy ===== *)
theory Bmc_Clauses
  imports Bmc_State
begin

text \<open>
  The clause generation of the BMC oracle, \<^verbatim>\<open>src/BMCOracle.cpp\<close>: the word automaton of the
  current assignment for one loop target, the constraints its product with the LTL
  automaton puts on each step, their translation to clauses, and
  \<^verbatim>\<open>evaluate_assignment\<close>, which combines them over all loop targets.
\<close>

subsection \<open>The word automaton\<close>

text \<open>\<^verbatim>\<open>s.find (pat) != std::string::npos\<close>.\<close>

fun str_contains :: "string \<Rightarrow> string \<Rightarrow> bool" where
  "str_contains [] pat = (pat = [])"
| "str_contains (c # s) pat = (take (length pat) (c # s) = pat \<or> str_contains s pat)"

text \<open>\<^verbatim>\<open>new_edge\<close> returns the number of the edge it appends.\<close>

definition word_new_edge ::
  "'b word_automaton \<Rightarrow> nat \<Rightarrow> nat \<Rightarrow> 'b \<Rightarrow> 'b word_automaton \<times> int" where
  "word_new_edge w src dst cond =
     (w\<lparr>w_edges := w_edges w @ [\<lparr>we_src = src, we_dst = dst, we_cond = cond\<rparr>]\<rparr>,
      int (length (w_edges w)) + 1)"

definition word_update_edge ::
  "'b word_automaton \<Rightarrow> int \<Rightarrow> ('b word_edge \<Rightarrow> 'b word_edge) \<Rightarrow> 'b word_automaton outcome" where
  "word_update_edge w e f =
     obind (vec_get (w_edges w) (e - 1)) (\<lambda>ed.
     obind (vec_set (w_edges w) (e - 1) (f ed)) (\<lambda>es. Ret (w\<lparr>w_edges := es\<rparr>)))"

text \<open>The condition that one trail literal adds to the letter of its step.\<close>

definition alpha_condition ::
  "'b bdd_ops \<Rightarrow> ('a, 'b) spot_ops \<Rightarrow> ('a, 'b) bmc_oracle \<Rightarrow> 'b list \<Rightarrow> int \<Rightarrow> 'b list outcome" where
  "alpha_condition bdd spot orc conds var_time =
     obind (vec_get (info_variables orc) \<bar>var_time\<bar>) (\<lambda>vi.
       if str_contains (vname vi) ''loop'' then Ret conds
       else let var = has_registered_proposition spot (ltl_aut orc) (vname vi)
            in if var < 0 then Ret conds
               else if var_time = 0 then Exit 1
               else obind (vec_get conds (num_step vi)) (\<lambda>c.
                      vec_set conds (num_step vi)
                        (bdd_and bdd c (if var_time > 0 then bdd_ithvar bdd var
                                        else bdd_nithvar bdd var))))"

text \<open>One round of the loop that creates or relabels the edges.\<close>

definition alpha_edge ::
  "'b list \<Rightarrow> int \<Rightarrow> bool \<Rightarrow> ('a, 'b) bmc_oracle \<times> 'b word_automaton \<Rightarrow> nat \<Rightarrow>
   (('a, 'b) bmc_oracle \<times> 'b word_automaton) outcome" where
  "alpha_edge conds loop new_aut st step =
     (case st of (orc, w) \<Rightarrow>
       obind (vec_get conds (int step)) (\<lambda>cond.
       if int step \<noteq> bound_K orc - 1
       then if new_aut
            then (case word_new_edge w step (Suc step) cond of (w', e) \<Rightarrow>
                    obind (vec_set (edges_id orc) (int step) e) (\<lambda>ids.
                      Ret (orc\<lparr>edges_id := ids\<rparr>, w')))
            else obind (vec_get (edges_id orc) (int step)) (\<lambda>e.
                 obind (word_update_edge w e (\<lambda>ed. ed\<lparr>we_cond := cond\<rparr>)) (\<lambda>w'. Ret (orc, w')))
       else if new_aut
            then (case word_new_edge w step (nat loop) cond of (w', e) \<Rightarrow>
                    Ret (orc\<lparr>num_edge_loop := e\<rparr>, w'))
            else obind (word_update_edge w (num_edge_loop orc) (\<lambda>ed. ed\<lparr>we_cond := cond\<rparr>))
                   (\<lambda>w'. Ret (orc, w'))))"

definition create_alpha_language_automaton ::
  "'b bdd_ops \<Rightarrow> ('a, 'b) spot_ops \<Rightarrow> int \<Rightarrow> bool \<Rightarrow> ('a, 'b) bmc_oracle \<Rightarrow>
   ('a, 'b) bmc_oracle outcome" where
  "create_alpha_language_automaton bdd spot loop same_cond_aut orc =
     (case (same_cond_aut, word_aut orc) of
        (True, Some w) \<Rightarrow>
          obind (word_update_edge w (num_edge_loop orc) (\<lambda>ed. ed\<lparr>we_dst := nat loop\<rparr>))
            (\<lambda>w'. Ret (orc\<lparr>word_aut := Some w'\<rparr>))
      | _ \<Rightarrow>
          if bound_K orc < 0 then Throw
          else
          let new_aut = (word_aut orc = None);
              K = nat (bound_K orc);
              w = (case word_aut orc of Some w \<Rightarrow> w | None \<Rightarrow> \<lparr>w_states = K, w_edges = []\<rparr>);
              orc1 = (if new_aut then orc\<lparr>edges_id := resize K (- 1) (edges_id orc)\<rparr> else orc)
          in obind (ofold (alpha_condition bdd spot orc1) (replicate (Suc K) (bddtrue bdd))
                      (concat (current_trail orc1))) (\<lambda>conds.
             obind (ofold (alpha_edge conds loop new_aut) (orc1, w) [0..<K])
               (\<lambda>(orc2, w'). Ret (orc2\<lparr>word_aut := Some w'\<rparr>))))"

subsection \<open>Clauses\<close>

definition add_trail_lits_to_clause :: "('a, 'b) bmc_oracle \<Rightarrow> int list \<Rightarrow> int list" where
  "add_trail_lits_to_clause orc cls = cls @ map uminus (concat (current_trail orc))"

text \<open>
  Appending a clause with its statistics.  The statistics vectors have four entries since
  \<^verbatim>\<open>init_spot\<close>, one for each kind.
\<close>

definition push_clause ::
  "const_type \<Rightarrow> int list \<Rightarrow> ('a, 'b) bmc_oracle \<Rightarrow> ('a, 'b) bmc_oracle" where
  "push_clause kind cls orc =
     (let k = const_index kind
      in orc\<lparr>new_clauses := new_clauses orc @ [cls],
             added_clauses := added_clauses orc + 1,
             numb_clauses := (numb_clauses orc)[k := numb_clauses orc ! k + 1],
             size_clauses := (size_clauses orc)[k := size_clauses orc ! k + length cls]\<rparr>)"

definition add_alpha_loop_clause ::
  "int \<Rightarrow> ('a, 'b) bmc_oracle \<Rightarrow> ('a, 'b) bmc_oracle outcome" where
  "add_alpha_loop_clause loop orc =
     obind (vec_get (rename_lit_loop orc) loop) (\<lambda>l.
       Ret (push_clause EMPTY_INTERSECT (add_trail_lits_to_clause orc [- l]) orc))"

subsection \<open>The constraints of one loop target\<close>

definition constrain_edge ::
  "'b bdd_ops \<Rightarrow> nat \<Rightarrow> 'b list \<Rightarrow> 'b prod_edge \<Rightarrow> 'b list outcome" where
  "constrain_edge bdd step cs e =
     obind (vec_get cs (int step)) (\<lambda>c. vec_set cs (int step) (bdd_or bdd c (pe_cond e)))"

definition constrain_state ::
  "'b bdd_ops \<Rightarrow> 'b product_view \<Rightarrow> int \<Rightarrow> int \<Rightarrow> 'b list \<Rightarrow> nat \<Rightarrow> 'b list outcome" where
  "constrain_state bdd p K loop cs s =
     (let step = fst (product_states p s)
      in if int step = K - 1
         then ofold (constrain_edge bdd step) cs
                (filter (\<lambda>e. is_accepting_scc p (scc_of p (pe_dst e)) \<and>
                             int (fst (product_states p (pe_dst e))) = loop) (p_out p s))
         else ofold (constrain_edge bdd step) cs
                (filter (\<lambda>e. is_useful_state p (pe_dst e)) (p_out p s)))"

definition get_edges_constraints_of_loop ::
  "'b bdd_ops \<Rightarrow> ('a, 'b) spot_ops \<Rightarrow> int \<Rightarrow> ('a, 'b) bmc_oracle \<Rightarrow> 'b list outcome" where
  "get_edges_constraints_of_loop bdd spot loop orc =
     (case word_aut orc of
        None \<Rightarrow> UB
      | Some w \<Rightarrow>
          if bound_K orc < 0 then Throw
          else
          let p = spot_product spot w (ltl_aut orc);
              constraints = replicate (nat (bound_K orc)) (bddfalse bdd)
          in if \<not> is_useful_state p (p_init p) then Ret constraints
             else ofold (constrain_state bdd p (bound_K orc) loop) constraints
                    (concat (map (states_of p) (filter (is_useful_scc p) [0..<scc_count p]))))"

subsection \<open>Clauses of a constraint\<close>

text \<open>
  \<^verbatim>\<open>m[k]\<close> of a \<^verbatim>\<open>std::map\<close> with integer values: a missing key is inserted with value zero.
\<close>

definition map_index :: "(string \<Rightarrow> int option) \<Rightarrow> string \<Rightarrow> int \<times> (string \<Rightarrow> int option)" where
  "map_index m k = (case m k of Some v \<Rightarrow> (v, m) | None \<Rightarrow> (0, m(k \<mapsto> 0)))"

text \<open>
  The loop over the literals of one cube.  It follows the one non-constant cofactor until it
  reaches \<^verbatim>\<open>bddtrue\<close> and collects the negated literals at the given step.
\<close>

partial_function (option) cube_loop ::
  "'b bdd_ops \<Rightarrow> (int \<Rightarrow> string) \<Rightarrow> 'b \<Rightarrow> (string \<Rightarrow> int option) \<Rightarrow> int list \<Rightarrow>
   ((string \<Rightarrow> int option) \<times> int list) option" where
  "cube_loop bdd nm b m cls =
     (if b = bddtrue bdd then Some (m, cls)
      else let r = map_index m (nm (bdd_var bdd b)); high = bdd_high bdd b
           in if high = bddfalse bdd
              then cube_loop bdd nm (bdd_low bdd b) (snd r) (cls @ [fst r])
              else cube_loop bdd nm high (snd r) (cls @ [- fst r]))"

declare cube_loop.simps [code]

definition add_cube_clause ::
  "'b bdd_ops \<Rightarrow> ('a, 'b) spot_ops \<Rightarrow> int \<Rightarrow> int \<Rightarrow> ('a, 'b) bmc_oracle \<Rightarrow> 'b \<Rightarrow>
   ('a, 'b) bmc_oracle outcome" where
  "add_cube_clause bdd spot curr_step loop orc cube =
     obind (vec_get (variable_by_step orc) curr_step) (\<lambda>m.
     obind (of_loop (cube_loop bdd (bdd_map_ap_name spot (ltl_aut orc)) cube m [])) (\<lambda>(m', lits).
     obind (vec_set (variable_by_step orc) curr_step m') (\<lambda>vbs.
     let orc1 = orc\<lparr>variable_by_step := vbs\<rparr>;
         cls = add_trail_lits_to_clause orc1 lits;
         kind = (if curr_step = bound_K orc1 - 1 then LOOP_CONST else EDGE_CONST)
     in if loop \<noteq> - 1
        then obind (vec_get (rename_lit_loop orc1) loop) (\<lambda>l.
               Ret (push_clause kind (cls @ [- l]) orc1))
        else Ret (push_clause kind cls orc1))))"

definition add_edge_loop_clauses ::
  "'b bdd_ops \<Rightarrow> ('a, 'b) spot_ops \<Rightarrow> 'b \<Rightarrow> int \<Rightarrow> int \<Rightarrow> ('a, 'b) bmc_oracle \<Rightarrow>
   ('a, 'b) bmc_oracle outcome" where
  "add_edge_loop_clauses bdd spot formula curr_step loop orc =
     (if formula = bddtrue bdd then Ret orc
      else ofold (add_cube_clause bdd spot curr_step loop) orc (minato_isop bdd (bdd_not bdd formula)))"

subsection \<open>Evaluating an assignment\<close>

record 'b eval_acc =
  is_empty_inter :: "bool list"
  nb_empty_inter :: nat
  edges_constraints :: "'b list list"
  edges_formula_all :: "'b list"

text \<open>
  How the constraint of one more loop target is combined with what the earlier ones
  left for the same edge.
\<close>

definition merge_edge :: "'b bdd_ops \<Rightarrow> 'b \<Rightarrow> 'b \<Rightarrow> 'b" where
  "merge_edge bdd all c =
     (if all = bddtrue bdd then c else if all \<noteq> c then bddfalse bdd else all)"

definition eval_loop ::
  "'b bdd_ops \<Rightarrow> ('a, 'b) spot_ops \<Rightarrow> ('a, 'b) bmc_oracle \<times> 'b eval_acc \<Rightarrow> nat \<Rightarrow>
   (('a, 'b) bmc_oracle \<times> 'b eval_acc) outcome" where
  "eval_loop bdd spot st i =
     (case st of (orc, a) \<Rightarrow>
       obind (vec_get (rename_lit_loop orc) (int i)) (\<lambda>l.
       if l = 0 then Ret (orc, a)
       else
       obind (create_alpha_language_automaton bdd spot (int i) (i \<noteq> 0) orc) (\<lambda>orc1.
       obind (get_edges_constraints_of_loop bdd spot (int i) orc1) (\<lambda>constraints.
       if constraints = [] \<and> enable_intersection orc1
       then Ret (orc1, a\<lparr>is_empty_inter := (is_empty_inter a)[i := True],
                         nb_empty_inter := nb_empty_inter a + 1\<rparr>)
       else if constraints \<noteq> []
       then Ret (orc1, a\<lparr>edges_constraints := (edges_constraints a)[i := constraints],
                         edges_formula_all :=
                           map2 (merge_edge bdd) (edges_formula_all a) constraints\<rparr>)
       else Ret (orc1, a)))))"

definition combined_clause ::
  "'b bdd_ops \<Rightarrow> ('a, 'b) spot_ops \<Rightarrow> 'b eval_acc \<Rightarrow> ('a, 'b) bmc_oracle \<Rightarrow> nat \<Rightarrow>
   ('a, 'b) bmc_oracle outcome" where
  "combined_clause bdd spot a orc j =
     (if edges_formula_all a ! j \<noteq> bddtrue bdd \<and> edges_formula_all a ! j \<noteq> bddfalse bdd
      then add_edge_loop_clauses bdd spot (edges_formula_all a ! j) (int j) (- 1) orc
      else Ret orc)"

definition loop_edge_clause ::
  "'b bdd_ops \<Rightarrow> ('a, 'b) spot_ops \<Rightarrow> 'b eval_acc \<Rightarrow> nat \<Rightarrow> ('a, 'b) bmc_oracle \<Rightarrow> nat \<Rightarrow>
   ('a, 'b) bmc_oracle outcome" where
  "loop_edge_clause bdd spot a i orc j =
     (if edges_constraints a ! i ! j \<noteq> bddtrue bdd \<and> edges_formula_all a ! j = bddfalse bdd
      then add_edge_loop_clauses bdd spot (edges_constraints a ! i ! j) (int j) (int i) orc
      else Ret orc)"

definition loop_clauses ::
  "'b bdd_ops \<Rightarrow> ('a, 'b) spot_ops \<Rightarrow> 'b eval_acc \<Rightarrow> ('a, 'b) bmc_oracle \<Rightarrow> nat \<Rightarrow>
   ('a, 'b) bmc_oracle outcome" where
  "loop_clauses bdd spot a orc i =
     obind (vec_get (rename_lit_loop orc) (int i)) (\<lambda>l.
     if l = 0 then Ret orc
     else
     obind (if int (nb_empty_inter a) < bound_K orc \<and> is_empty_inter a ! i \<and> enable_intersection orc
            then add_alpha_loop_clause (int i) orc else Ret orc) (\<lambda>orc1.
     if enable_edge_loop_cond orc1 \<and> edges_constraints a ! i \<noteq> []
     then ofold (loop_edge_clause bdd spot a i) orc1 [0..<nat (bound_K orc1)]
     else Ret orc1))"

definition evaluate_assignment ::
  "'b bdd_ops \<Rightarrow> ('a, 'b) spot_ops \<Rightarrow> ('a, 'b) bmc_oracle \<Rightarrow> ('a, 'b) bmc_oracle outcome" where
  "evaluate_assignment bdd spot orc =
     (if \<not> init_box_done orc then Ret orc
      else if bound_K orc < 0 then Throw
      else
      let K = nat (bound_K orc);
          orc0 = orc\<lparr>numb_call := numb_call orc + 1, word_aut := None\<rparr>;
          a0 = \<lparr>is_empty_inter = replicate K False, nb_empty_inter = 0,
                edges_constraints = replicate K [], edges_formula_all = replicate K (bddtrue bdd)\<rparr>
      in obind (ofold (eval_loop bdd spot) (orc0, a0) [0..<K]) (\<lambda>(orc1, a).
         let orc2 = (if nb_empty_inter a = K \<and> enable_intersection orc1
                     then push_clause EMPTY_INTERSECT (add_trail_lits_to_clause orc1 []) orc1
                     else orc1)
         in obind (if enable_edge_loop_cond orc2
                   then ofold (combined_clause bdd spot a) orc2 [0..<K] else Ret orc2) (\<lambda>orc3.
            ofold (loop_clauses bdd spot a) orc3 [0..<K])))"

end
