(* ===== verification/Sat_Semantics.thy ===== *)
theory Sat_Semantics
  imports Prelude
begin

text \<open>
  The meaning of literals, clauses and formulas that all components share.  A literal is a
  non-zero integer, an assignment gives a truth value to every variable index.  Zero ends
  clauses in the code's interfaces and is no literal: it is never true.
\<close>

type_synonym assignment = "int \<Rightarrow> bool"

definition lit_true :: "assignment \<Rightarrow> int \<Rightarrow> bool" where
  "lit_true \<tau> l = (if l > 0 then \<tau> l else if l < 0 then \<not> \<tau> (- l) else False)"

definition clause_true :: "assignment \<Rightarrow> int list \<Rightarrow> bool" where
  "clause_true \<tau> c = list_ex (lit_true \<tau>) c"

lemma lit_true_pos [simp]: "0 < l \<Longrightarrow> lit_true \<tau> l = \<tau> l"
  by (simp add: lit_true_def)

lemma lit_true_zero [simp]: "\<not> lit_true \<tau> 0"
  by (simp add: lit_true_def)

lemma lit_true_uminus [simp]: "l \<noteq> 0 \<Longrightarrow> lit_true \<tau> (- l) \<longleftrightarrow> \<not> lit_true \<tau> l"
  by (auto simp: lit_true_def)

lemma lit_true_nonzero: "lit_true \<tau> l \<Longrightarrow> l \<noteq> 0"
  by auto

lemma clause_true_iff: "clause_true \<tau> c \<longleftrightarrow> (\<exists>l\<in>set c. lit_true \<tau> l)"
  by (simp add: clause_true_def list_ex_iff)

lemma clause_true_append [simp]:
  "clause_true \<tau> (c @ d) \<longleftrightarrow> clause_true \<tau> c \<or> clause_true \<tau> d"
  by (simp add: clause_true_def)

lemma clause_true_Nil [simp]: "\<not> clause_true \<tau> []"
  by (simp add: clause_true_def)

lemma clause_true_Cons [simp]: "clause_true \<tau> (l # c) \<longleftrightarrow> lit_true \<tau> l \<or> clause_true \<tau> c"
  by (simp add: clause_true_def)

lemma clause_true_mono: "set c \<subseteq> set d \<Longrightarrow> clause_true \<tau> c \<Longrightarrow> clause_true \<tau> d"
  by (auto simp: clause_true_iff)

lemma clause_true_negated:
  "0 \<notin> set ls \<Longrightarrow> clause_true \<tau> (map uminus ls) \<longleftrightarrow> \<not> list_all (lit_true \<tau>) ls"
  by (induction ls) auto

end
