(* ===== verification/Bmc_Soundness.thy ===== *)
theory Bmc_Soundness
  imports Bmc_Clauses Sat_Semantics
begin

text \<open>
  What the clauses of the BMC oracle mean.  A problem asks for a lasso: \<open>K\<close> letters and a
  back edge from the last one to step \<open>i\<close>.  The oracle's clauses have to hold in every
  assignment whose lasso the LTL automaton accepts.

  BuDDy and Spot enter through two hypotheses.  \<open>bdd_package\<close> is the meaning of the BDD
  operations, \<open>spot_product_sound\<close> what Spot documents of products and of the
  classification of strongly connected components: an accepting run of the
  product stays in useful states and ends up in an accepting component.
\<close>

subsection \<open>Meaning of the BDD operations\<close>

type_synonym letter = "int \<Rightarrow> bool"

inductive bdd_cube :: "'b bdd_ops \<Rightarrow> ('b \<Rightarrow> letter \<Rightarrow> bool) \<Rightarrow> int set \<Rightarrow> 'b \<Rightarrow> bool"
  for bdd :: "'b bdd_ops" and sem :: "'b \<Rightarrow> letter \<Rightarrow> bool" and V :: "int set" where
  cube_true: "bdd_cube bdd sem V (bddtrue bdd)"
| cube_neg: "b \<noteq> bddtrue bdd \<Longrightarrow> bdd_high bdd b = bddfalse bdd \<Longrightarrow> bdd_var bdd b \<in> V \<Longrightarrow>
    (\<And>v. sem b v \<longleftrightarrow> \<not> v (bdd_var bdd b) \<and> sem (bdd_low bdd b) v) \<Longrightarrow>
    bdd_cube bdd sem V (bdd_low bdd b) \<Longrightarrow> bdd_cube bdd sem V b"
| cube_pos: "b \<noteq> bddtrue bdd \<Longrightarrow> bdd_high bdd b \<noteq> bddfalse bdd \<Longrightarrow> bdd_var bdd b \<in> V \<Longrightarrow>
    (\<And>v. sem b v \<longleftrightarrow> v (bdd_var bdd b) \<and> sem (bdd_high bdd b) v) \<Longrightarrow>
    bdd_cube bdd sem V (bdd_high bdd b) \<Longrightarrow> bdd_cube bdd sem V b"

definition bdd_connectives :: "'b bdd_ops \<Rightarrow> ('b \<Rightarrow> letter \<Rightarrow> bool) \<Rightarrow> int set \<Rightarrow> bool" where
  "bdd_connectives bdd sem V \<longleftrightarrow>
     (\<forall>v. sem (bddtrue bdd) v) \<and> (\<forall>v. \<not> sem (bddfalse bdd) v) \<and>
     (\<forall>a b v. sem (bdd_and bdd a b) v \<longleftrightarrow> sem a v \<and> sem b v) \<and>
     (\<forall>a b v. sem (bdd_or bdd a b) v \<longleftrightarrow> sem a v \<or> sem b v) \<and>
     (\<forall>a v. sem (bdd_not bdd a) v \<longleftrightarrow> \<not> sem a v) \<and>
     (\<forall>x\<in>V. \<forall>v. sem (bdd_ithvar bdd x) v = v x \<and> sem (bdd_nithvar bdd x) v = (\<not> v x))"

definition bdd_package :: "'b bdd_ops \<Rightarrow> ('b \<Rightarrow> letter \<Rightarrow> bool) \<Rightarrow> int set \<Rightarrow> bool" where
  "bdd_package bdd sem V \<longleftrightarrow>
     bdd_connectives bdd sem V \<and>
     (\<forall>f v. sem f v \<longleftrightarrow> (\<exists>c\<in>set (minato_isop bdd f). sem c v)) \<and>
     (\<forall>f. \<forall>c\<in>set (minato_isop bdd f). bdd_cube bdd sem V c)"

lemma bdd_packageD:
  assumes "bdd_package bdd sem V"
  shows "sem (bddtrue bdd) v" "\<not> sem (bddfalse bdd) v"
    "sem (bdd_and bdd a b) v \<longleftrightarrow> sem a v \<and> sem b v"
    "sem (bdd_or bdd a b) v \<longleftrightarrow> sem a v \<or> sem b v"
    "sem (bdd_not bdd a) v \<longleftrightarrow> \<not> sem a v"
    "x \<in> V \<Longrightarrow> sem (bdd_ithvar bdd x) v = v x"
    "x \<in> V \<Longrightarrow> sem (bdd_nithvar bdd x) v = (\<not> v x)"
proof -
  have "bdd_connectives bdd sem V" using assms unfolding bdd_package_def by blast
  then show "sem (bddtrue bdd) v" "\<not> sem (bddfalse bdd) v"
    "sem (bdd_and bdd a b) v \<longleftrightarrow> sem a v \<and> sem b v"
    "sem (bdd_or bdd a b) v \<longleftrightarrow> sem a v \<or> sem b v"
    "sem (bdd_not bdd a) v \<longleftrightarrow> \<not> sem a v"
    "x \<in> V \<Longrightarrow> sem (bdd_ithvar bdd x) v = v x"
    "x \<in> V \<Longrightarrow> sem (bdd_nithvar bdd x) v = (\<not> v x)"
    by (simp_all add: bdd_connectives_def)
qed

lemma bdd_package_isop:
  assumes "bdd_package bdd sem V"
  shows "sem f v \<longleftrightarrow> (\<exists>c\<in>set (minato_isop bdd f). sem c v)"
    "c \<in> set (minato_isop bdd f) \<Longrightarrow> bdd_cube bdd sem V c"
  using assms unfolding bdd_package_def by blast+

text \<open>The loop over a cube returns the clause of the negated cube.\<close>

lemma cube_loop_negates:
  assumes "bdd_package bdd sem V" "bdd_cube bdd sem V b"
    and names: "\<And>v. v \<in> V \<Longrightarrow> \<exists>x. m (nm v) = Some x \<and> 0 < x"
  shows "\<exists>lits. cube_loop bdd nm b m cls = Some (m, cls @ lits) \<and> 0 \<notin> set lits \<and>
           (clause_true \<tau> lits \<longleftrightarrow> \<not> sem b (\<lambda>v. \<tau> (the (m (nm v)))))"
  using assms(2)
proof (induction b arbitrary: cls rule: bdd_cube.induct)
  case cube_true
  show ?case using bdd_packageD(1)[OF assms(1)] by (subst cube_loop.simps) simp
next
  case (cube_neg b)
  obtain x where x: "m (nm (bdd_var bdd b)) = Some x" "0 < x" using names cube_neg by blast
  obtain lits where l: "cube_loop bdd nm (bdd_low bdd b) m (cls @ [x]) = Some (m, (cls @ [x]) @ lits)"
      "0 \<notin> set lits" "clause_true \<tau> lits \<longleftrightarrow> \<not> sem (bdd_low bdd b) (\<lambda>v. \<tau> (the (m (nm v))))"
    using cube_neg.IH by blast
  have "cube_loop bdd nm b m cls = Some (m, cls @ (x # lits))"
    using cube_neg(1,2) x l(1) by (subst cube_loop.simps) (simp add: map_index_def)
  moreover have "clause_true \<tau> (x # lits) \<longleftrightarrow> \<not> sem b (\<lambda>v. \<tau> (the (m (nm v))))"
    using l(3) cube_neg(4) x by simp
  ultimately show ?case using l(2) x(2) by (intro exI[of _ "x # lits"]) simp
next
  case (cube_pos b)
  obtain x where x: "m (nm (bdd_var bdd b)) = Some x" "0 < x" using names cube_pos by blast
  obtain lits where l: "cube_loop bdd nm (bdd_high bdd b) m (cls @ [- x]) = Some (m, (cls @ [- x]) @ lits)"
      "0 \<notin> set lits" "clause_true \<tau> lits \<longleftrightarrow> \<not> sem (bdd_high bdd b) (\<lambda>v. \<tau> (the (m (nm v))))"
    using cube_pos.IH by blast
  have "cube_loop bdd nm b m cls = Some (m, cls @ (- x # lits))"
    using cube_pos(1,2) x l(1) by (subst cube_loop.simps) (simp add: map_index_def)
  moreover have "clause_true \<tau> (- x # lits) \<longleftrightarrow> \<not> sem b (\<lambda>v. \<tau> (the (m (nm v))))"
    using l(3) cube_pos(4) x by simp
  ultimately show ?case using l(2) x(2) by (intro exI[of _ "- x # lits"]) simp
qed

subsection \<open>Lassos and products\<close>

fun lasso_pos :: "nat \<Rightarrow> nat \<Rightarrow> nat \<Rightarrow> nat" where
  "lasso_pos K i 0 = 0"
| "lasso_pos K i (Suc n) = (if Suc (lasso_pos K i n) = K then i else Suc (lasso_pos K i n))"

lemma lasso_pos_less: "i < K \<Longrightarrow> lasso_pos K i n < K"
  by (induction n) auto

lemma lasso_pos_prefix: "n < K \<Longrightarrow> lasso_pos K i n = n"
  by (induction n) auto

text \<open>From any time on, the last letter comes again.\<close>

lemma lasso_pos_reaches_last:
  assumes "i < K"
  shows "\<exists>m\<ge>n. lasso_pos K i m = K - 1"
proof -
  have "\<exists>m\<ge>n. lasso_pos K i m = K - 1" if "K - 1 - lasso_pos K i n = d" for d n
    using that
  proof (induction d arbitrary: n)
    case 0
    then show ?case using lasso_pos_less[OF assms, of n] by (intro exI[of _ n]) simp
  next
    case (Suc d)
    then have "lasso_pos K i (Suc n) = Suc (lasso_pos K i n)" by auto
    then have "K - 1 - lasso_pos K i (Suc n) = d" using Suc.prems by (simp del: lasso_pos.simps)
    then obtain m where "m \<ge> Suc n" "lasso_pos K i m = K - 1" using Suc.IH by blast
    then show ?case by (intro exI[of _ m]) simp
  qed
  then show ?thesis by blast
qed

definition word_run ::
  "('b \<Rightarrow> letter \<Rightarrow> bool) \<Rightarrow> 'b word_automaton \<Rightarrow> (nat \<Rightarrow> nat) \<Rightarrow> (nat \<Rightarrow> letter) \<Rightarrow> bool" where
  "word_run sem w r u \<longleftrightarrow>
     r 0 = 0 \<and> (\<forall>n. \<exists>e\<in>set (w_edges w). we_src e = r n \<and> we_dst e = r (Suc n) \<and> sem (we_cond e) (u n))"

text \<open>
  An accepting run of the product over the word \<open>u\<close>, seen through the view the oracle has
  of the product, whose word component is \<open>r\<close>.
\<close>

definition product_run ::
  "('b \<Rightarrow> letter \<Rightarrow> bool) \<Rightarrow> 'b product_view \<Rightarrow> (nat \<Rightarrow> nat) \<Rightarrow> (nat \<Rightarrow> letter) \<Rightarrow> (nat \<Rightarrow> nat) \<Rightarrow> bool" where
  "product_run sem p r u \<pi> \<longleftrightarrow>
     \<pi> 0 = p_init p \<and>
     (\<forall>n. fst (product_states p (\<pi> n)) = r n \<and> is_useful_state p (\<pi> n) \<and>
        scc_of p (\<pi> n) < scc_count p \<and> is_useful_scc p (scc_of p (\<pi> n)) \<and>
        \<pi> n \<in> set (states_of p (scc_of p (\<pi> n))) \<and>
        (\<exists>e\<in>set (p_out p (\<pi> n)). pe_dst e = \<pi> (Suc n) \<and> sem (pe_cond e) (u n))) \<and>
     (\<exists>N. \<forall>n\<ge>N. is_accepting_scc p (scc_of p (\<pi> n)))"

definition spot_product_sound ::
  "('b \<Rightarrow> letter \<Rightarrow> bool) \<Rightarrow> ('a, 'b) spot_ops \<Rightarrow> ('a \<Rightarrow> (nat \<Rightarrow> letter) \<Rightarrow> bool) \<Rightarrow> bool" where
  "spot_product_sound sem spot accepts \<longleftrightarrow>
     (\<forall>w A r u. accepts A u \<longrightarrow> word_run sem w r u \<longrightarrow>
        (\<exists>\<pi>. product_run sem (spot_product spot w A) r u \<pi>))"


subsection \<open>The constraints of a loop target over-approximate its accepted lassos\<close>

lemma constrain_edges_mono:
  assumes pkg: "bdd_package bdd sem V" and r: "ofold (constrain_edge bdd step) cs es = Ret cs'"
  shows "length cs' = length cs \<and> (\<forall>k v. k < length cs \<longrightarrow> sem (cs ! k) v \<longrightarrow> sem (cs' ! k) v) \<and>
         (\<forall>e\<in>set es. step < length cs \<and> (\<forall>v. sem (pe_cond e) v \<longrightarrow> sem (cs' ! step) v))"
  using r
proof (induction es arbitrary: cs)
  case (Cons e es)
  from Cons.prems obtain cs1 where cs1: "constrain_edge bdd step cs e = Ret cs1"
    "ofold (constrain_edge bdd step) cs1 es = Ret cs'" by (auto simp: obind_eq_Ret)
  then have "step < length cs" "cs1 = cs[step := bdd_or bdd (cs ! step) (pe_cond e)]"
    by (auto simp: constrain_edge_def split: if_splits)
  then show ?case using Cons.IH[OF cs1(2)] bdd_packageD(4)[OF pkg]
    by (auto simp: nth_list_update)
qed simp

lemma constrain_states_mono:
  assumes pkg: "bdd_package bdd sem V" and r: "ofold (constrain_state bdd p K loop) cs ss = Ret cs'"
  shows "length cs' = length cs \<and> (\<forall>k v. k < length cs \<longrightarrow> sem (cs ! k) v \<longrightarrow> sem (cs' ! k) v) \<and>
         (\<forall>s\<in>set ss. \<forall>e\<in>set (p_out p s).
            (if int (fst (product_states p s)) = K - 1
             then is_accepting_scc p (scc_of p (pe_dst e)) \<and> int (fst (product_states p (pe_dst e))) = loop
             else is_useful_state p (pe_dst e)) \<longrightarrow>
            fst (product_states p s) < length cs \<and>
            (\<forall>v. sem (pe_cond e) v \<longrightarrow> sem (cs' ! fst (product_states p s)) v))"
  using r
proof (induction ss arbitrary: cs)
  case (Cons s ss)
  from Cons.prems obtain cs1 where cs1: "constrain_state bdd p K loop cs s = Ret cs1"
    "ofold (constrain_state bdd p K loop) cs1 ss = Ret cs'" by (auto simp: obind_eq_Ret)
  let ?step = "fst (product_states p s)"
  let ?ok = "\<lambda>e. if int ?step = K - 1
     then is_accepting_scc p (scc_of p (pe_dst e)) \<and> int (fst (product_states p (pe_dst e))) = loop
     else is_useful_state p (pe_dst e)"
  have f: "ofold (constrain_edge bdd ?step) cs (filter ?ok (p_out p s)) = Ret cs1"
    using cs1(1) unfolding constrain_state_def Let_def by (cases "int ?step = K - 1") simp_all
  note m = constrain_edges_mono[OF pkg f] and IH = Cons.IH[OF cs1(2)]
  have "?step < length cs \<and> (\<forall>v. sem (pe_cond e) v \<longrightarrow> sem (cs' ! ?step) v)"
    if "e \<in> set (p_out p s)" "?ok e" for e
  proof -
    have "e \<in> set (filter ?ok (p_out p s))" using that by simp
    then have "?step < length cs" "\<forall>v. sem (pe_cond e) v \<longrightarrow> sem (cs1 ! ?step) v"
      using m by blast+
    then show ?thesis using m IH by simp
  qed
  moreover have "length cs' = length cs" "\<forall>k v. k < length cs \<longrightarrow> sem (cs ! k) v \<longrightarrow> sem (cs' ! k) v"
    using m IH by simp_all
  moreover have "length cs1 = length cs" using m by simp
  ultimately show ?case using IH by auto
qed simp

lemma constraints_hold:
  assumes pkg: "bdd_package bdd sem V"
    and run: "product_run sem p (lasso_pos K i) (\<lambda>n. l (lasso_pos K i n)) \<pi>"
    and i: "i < K" and j: "j < K"
    and cs: "ofold (constrain_state bdd p (int K) (int i)) (replicate K (bddfalse bdd))
               (concat (map (states_of p) (filter (is_useful_scc p) [0..<scc_count p]))) = Ret cs"
  shows "sem (cs ! j) (l j)"
proof -
  let ?r = "lasso_pos K i"
  have inS: "\<pi> n \<in> set (concat (map (states_of p) (filter (is_useful_scc p) [0..<scc_count p])))" for n
    using run unfolding product_run_def by auto
  obtain N where N: "\<And>n. n \<ge> N \<Longrightarrow> is_accepting_scc p (scc_of p (\<pi> n))"
    using run unfolding product_run_def by blast
  obtain m where m: "?r m = j" "j = K - 1 \<Longrightarrow> m \<ge> N"
    using lasso_pos_reaches_last[OF i, of N] lasso_pos_prefix[OF j, of i] by (metis)
  obtain e where e: "e \<in> set (p_out p (\<pi> m))" "pe_dst e = \<pi> (Suc m)" "sem (pe_cond e) (l (?r m))"
    using run unfolding product_run_def by blast
  have st: "fst (product_states p (\<pi> n)) = ?r n" "is_useful_state p (\<pi> n)" for n
    using run unfolding product_run_def by blast+
  have "j = K - 1 \<Longrightarrow> ?r (Suc m) = i" using m(1) i by auto
  then have "if int (fst (product_states p (\<pi> m))) = int K - 1
     then is_accepting_scc p (scc_of p (pe_dst e)) \<and> int (fst (product_states p (pe_dst e))) = int i
     else is_useful_state p (pe_dst e)"
    using e(2) st N[of "Suc m"] m i by (cases "j = K - 1") (auto simp del: lasso_pos.simps)
  then show ?thesis
    using constrain_states_mono[OF pkg cs] inS[of m] e st(1)[of m] m(1) by auto
qed

subsection \<open>The word automaton\<close>

definition line_word :: "nat \<Rightarrow> 'b list \<Rightarrow> nat \<Rightarrow> 'b word_automaton" where
  "line_word K conds i =
     \<lparr>w_states = K,
      w_edges = map (\<lambda>s. \<lparr>we_src = s, we_dst = (if Suc s = K then i else Suc s), we_cond = conds ! s\<rparr>)
                    [0..<K]\<rparr>"

lemma line_word_run:
  assumes "i < K" "\<And>s. s < K \<Longrightarrow> sem (conds ! s) (l s)"
  shows "word_run sem (line_word K conds i) (lasso_pos K i) (\<lambda>n. l (lasso_pos K i n))"
  unfolding word_run_def
proof (intro conjI allI)
  fix n
  let ?s = "lasso_pos K i n"
  have "?s < K" by (rule lasso_pos_less[OF assms(1)])
  then show "\<exists>e\<in>set (w_edges (line_word K conds i)). we_src e = ?s \<and>
      we_dst e = lasso_pos K i (Suc n) \<and> sem (we_cond e) (l ?s)"
    using assms(2) by (auto simp: line_word_def)
qed simp

lemma line_word_retarget:
  assumes "0 < K"
  shows "word_update_edge (line_word K conds i) (int K) (\<lambda>ed. ed\<lparr>we_dst := nat (int j)\<rparr>) =
         Ret (line_word K conds j)"
proof -
  obtain k where K: "K = Suc k" using assms by (cases K) auto
  have "int K - 1 = int k" by (simp add: K)
  then show ?thesis
    by (simp add: word_update_edge_def line_word_def K list_update_append nth_append)
qed

lemma alpha_edges_new:
  assumes "bound_K orc = int K" "length conds = Suc K" "length (edges_id orc) = K" "n \<le> K"
    and "ofold (alpha_edge conds (int i) True) (orc, \<lparr>w_states = K, w_edges = []\<rparr>) [0..<n] = Ret (orc2, w)"
  shows "w = \<lparr>w_states = K, w_edges = take n (w_edges (line_word K conds i))\<rparr> \<and>
         (\<exists>ids. length ids = K \<and> (if n = K \<and> 0 < K
            then orc2 = orc\<lparr>edges_id := ids, num_edge_loop := int K\<rparr>
            else orc2 = orc\<lparr>edges_id := ids\<rparr>))"
  using assms(4,5)
proof (induction n arbitrary: orc2 w)
  case 0
  then show ?case using assms(3) by (auto intro: exI[of _ "edges_id orc"])
next
  case (Suc n)
  from Suc.prems(2) obtain orc1 w1 where
    s1: "ofold (alpha_edge conds (int i) True) (orc, \<lparr>w_states = K, w_edges = []\<rparr>) [0..<n] = Ret (orc1, w1)"
    and s2: "alpha_edge conds (int i) True (orc1, w1) n = Ret (orc2, w)"
    by (auto simp: ofold_append obind_eq_Ret)
  have n: "n < K" using Suc.prems(1) by simp
  from Suc.IH[OF _ s1] n obtain ids where
    w1: "w1 = \<lparr>w_states = K, w_edges = take n (w_edges (line_word K conds i))\<rparr>"
    and ids: "length ids = K" "orc1 = orc\<lparr>edges_id := ids\<rparr>" by auto
  have tk: "take (Suc n) (w_edges (line_word K conds i)) = take n (w_edges (line_word K conds i)) @
      [\<lparr>we_src = n, we_dst = (if Suc n = K then i else Suc n), we_cond = conds ! n\<rparr>]"
    using n by (simp add: line_word_def take_Suc_conv_app_nth)
  have len: "length (take n (w_edges (line_word K conds i))) = n" using n by (simp add: line_word_def)
  show ?case
  proof (cases "Suc n = K")
    case True
    then show ?thesis using s2 w1 ids tk len assms(1,2)
      by (auto simp: alpha_edge_def word_new_edge_def intro!: exI[of _ ids])
  next
    case False
    then have "int n \<noteq> int K - 1" by linarith
    then show ?thesis using s2 w1 ids tk len assms(1,2) n False
      by (auto simp: alpha_edge_def word_new_edge_def intro!: exI[of _ "ids[n := int n + 1]"])
  qed
qed


subsection \<open>The letters of an assignment\<close>

definition letter_of ::
  "('a, 'b) spot_ops \<Rightarrow> ('a, 'b) bmc_oracle \<Rightarrow> assignment \<Rightarrow> nat \<Rightarrow> letter" where
  "letter_of spot orc \<tau> j =
     (\<lambda>v. \<tau> (the ((variable_by_step orc ! j) (bdd_map_ap_name spot (ltl_aut orc) v))))"

text \<open>
  The tables agree: every BDD variable of the dictionary has a variable at every step, and a
  trail literal is the variable that its name and step select.
\<close>

definition oracle_tables :: "('a, 'b) spot_ops \<Rightarrow> int set \<Rightarrow> ('a, 'b) bmc_oracle \<Rightarrow> bool" where
  "oracle_tables spot V orc \<longleftrightarrow>
     length (variable_by_step orc) = Suc (nat (bound_K orc)) \<and>
     (\<forall>j \<le> nat (bound_K orc). \<forall>v\<in>V. \<exists>x.
        (variable_by_step orc ! j) (bdd_map_ap_name spot (ltl_aut orc) v) = Some x \<and> 0 < x) \<and>
     (\<forall>l\<in>set (concat (current_trail orc)). l \<noteq> 0 \<and> nat \<bar>l\<bar> < length (info_variables orc) \<and>
        (let vi = info_variables orc ! nat \<bar>l\<bar>;
             v = has_registered_proposition spot (ltl_aut orc) (vname vi)
         in \<not> str_contains (vname vi) ''loop'' \<and> 0 \<le> v \<longrightarrow>
            v \<in> V \<and> 0 \<le> num_step vi \<and> num_step vi \<le> bound_K orc \<and>
            (variable_by_step orc ! nat (num_step vi)) (bdd_map_ap_name spot (ltl_aut orc) v) = Some \<bar>l\<bar>))"

definition alpha_conds ::
  "'b bdd_ops \<Rightarrow> ('a, 'b) spot_ops \<Rightarrow> ('a, 'b) bmc_oracle \<Rightarrow> 'b list outcome" where
  "alpha_conds bdd spot orc =
     ofold (alpha_condition bdd spot orc) (replicate (Suc (nat (bound_K orc))) (bddtrue bdd))
       (concat (current_trail orc))"

lemma alpha_condition_cong:
  assumes "info_variables o1 = info_variables o2" "ltl_aut o1 = ltl_aut o2"
  shows "alpha_condition bdd spot o1 = alpha_condition bdd spot o2"
  by (intro ext) (simp only: alpha_condition_def assms)

lemma alpha_condition_letter:
  assumes pkg: "bdd_package bdd sem V" and tab: "oracle_tables spot V orc"
    and l: "l \<in> set (concat (current_trail orc))" "lit_true \<tau> l"
    and ok: "length cs = n" "\<forall>s<n. sem (cs ! s) (letter_of spot orc \<tau> s)"
    and r: "alpha_condition bdd spot orc cs l = Ret cs'"
  shows "length cs' = n \<and> (\<forall>s<n. sem (cs' ! s) (letter_of spot orc \<tau> s))"
proof -
  define vi where "vi = info_variables orc ! nat \<bar>l\<bar>"
  define v where "v = has_registered_proposition spot (ltl_aut orc) (vname vi)"
  have t: "l \<noteq> 0" "nat \<bar>l\<bar> < length (info_variables orc)"
    "\<not> str_contains (vname vi) ''loop'' \<Longrightarrow> 0 \<le> v \<Longrightarrow>
      v \<in> V \<and> 0 \<le> num_step vi \<and>
      (variable_by_step orc ! nat (num_step vi)) (bdd_map_ap_name spot (ltl_aut orc) v) = Some \<bar>l\<bar>"
    using tab l(1) by (auto simp: oracle_tables_def Let_def vi_def v_def)
  have g: "vec_get (info_variables orc) \<bar>l\<bar> = Ret vi" using t(2) by (simp add: vec_get_def vi_def)
  show ?thesis
  proof (cases "str_contains (vname vi) ''loop'' \<or> v < 0")
    case True
    then have "cs' = cs" using r g by (auto simp: alpha_condition_def Let_def v_def split: if_splits)
    then show ?thesis using ok by simp
  next
    case False
    let ?s = "num_step vi" and ?c = "if l > 0 then bdd_ithvar bdd v else bdd_nithvar bdd v"
    have cs': "0 \<le> ?s" "?s < int (length cs)" "cs' = cs[nat ?s := bdd_and bdd (cs ! nat ?s) ?c]"
      using r g t(1) False
      by (auto simp: alpha_condition_def Let_def v_def obind_eq_Ret vec_get_Ret vec_set_Ret split: if_splits)
    have "letter_of spot orc \<tau> (nat ?s) v = \<tau> \<bar>l\<bar>" using t(3) False by (simp add: letter_of_def)
    moreover have "lit_true \<tau> l \<longleftrightarrow> (if l > 0 then \<tau> \<bar>l\<bar> else \<not> \<tau> \<bar>l\<bar>)"
      using t(1) by (simp add: lit_true_def)
    ultimately have "sem ?c (letter_of spot orc \<tau> (nat ?s))"
      using bdd_packageD(6,7)[OF pkg, of v "letter_of spot orc \<tau> (nat ?s)"] t(3) False l(2) by (cases "l > 0") simp_all
    then have "sem (bdd_and bdd (cs ! nat ?s) ?c) (letter_of spot orc \<tau> (nat ?s))"
      using cs'(1,2) ok bdd_packageD(3)[OF pkg] by simp
    then show ?thesis
      using list_update_all[where P = "\<lambda>s b. sem b (letter_of spot orc \<tau> s)" and k = "nat ?s", OF ok] cs'(3) ok(1)
      by simp
  qed
qed

lemma alpha_conds_letters:
  assumes pkg: "bdd_package bdd sem V" and tab: "oracle_tables spot V orc"
    and \<tau>: "list_all (lit_true \<tau>) (concat (current_trail orc))"
    and r: "alpha_conds bdd spot orc = Ret conds"
  shows "\<forall>s \<le> nat (bound_K orc). sem (conds ! s) (letter_of spot orc \<tau> s)"
proof -
  let ?n = "Suc (nat (bound_K orc))"
  let ?I = "\<lambda>cs. length cs = ?n \<and> (\<forall>s<?n. sem (cs ! s) (letter_of spot orc \<tau> s))"
  have "?I conds"
  proof (rule ofold_invariant[OF r[unfolded alpha_conds_def]])
    show "?I (replicate ?n (bddtrue bdd))"
      using bdd_packageD(1)[OF pkg] by (auto simp del: replicate_Suc)
  next
    fix cs l cs'
    assume "?I cs" "l \<in> set (concat (current_trail orc))" "alpha_condition bdd spot orc cs l = Ret cs'"
    then show "?I cs'"
      using alpha_condition_letter[OF pkg tab] \<tau> unfolding list_all_iff by blast
  qed
  then show ?thesis by auto
qed

lemma alpha_conds_length: "alpha_conds bdd spot orc = Ret conds \<Longrightarrow> length conds = Suc (nat (bound_K orc))"
proof -
  assume r: "alpha_conds bdd spot orc = Ret conds"
  show ?thesis
    by (rule ofold_invariant[OF r[unfolded alpha_conds_def]])
      (auto simp: alpha_condition_def Let_def obind_eq_Ret vec_set_Ret split: if_splits)
qed

subsection \<open>Creating and reusing the word automaton\<close>

lemma create_fresh:
  assumes "word_aut orc = None" "bound_K orc = int K" "0 < K"
    and r: "create_alpha_language_automaton bdd spot (int i) same orc = Ret orc'"
  shows "\<exists>conds ids. alpha_conds bdd spot orc = Ret conds \<and>
     orc' = orc\<lparr>edges_id := ids, num_edge_loop := int K, word_aut := Some (line_word K conds i)\<rparr>"
proof -
  let ?o1 = "orc\<lparr>edges_id := resize K (- 1) (edges_id orc)\<rparr>"
  have ac: "alpha_condition bdd spot ?o1 = alpha_condition bdd spot orc"
    by (rule alpha_condition_cong) simp_all
  obtain conds orc2 w where c: "alpha_conds bdd spot orc = Ret conds"
    and f: "ofold (alpha_edge conds (int i) True) (?o1, \<lparr>w_states = K, w_edges = []\<rparr>) [0..<K] = Ret (orc2, w)"
    and o': "orc' = orc2\<lparr>word_aut := Some w\<rparr>"
    using r assms(1,2) ac unfolding create_alpha_language_automaton_def alpha_conds_def
    by (auto simp: Let_def obind_eq_Ret split: bool.splits)
  have "length conds = Suc K" using alpha_conds_length[OF c] assms(2) by simp
  then obtain ids where w: "w = line_word K conds i"
    and "orc2 = ?o1\<lparr>edges_id := ids, num_edge_loop := int K\<rparr>"
    using alpha_edges_new[OF _ _ _ _ f] assms(2,3) by (auto simp: line_word_def)
  then have "orc' = orc\<lparr>edges_id := ids, num_edge_loop := int K, word_aut := Some w\<rparr>"
    using o' by simp
  then show ?thesis using c w by blast
qed

lemma create_reuse:
  assumes "word_aut orc = Some (line_word K conds i0)" "num_edge_loop orc = int K" "0 < K"
  shows "create_alpha_language_automaton bdd spot (int i) True orc =
         Ret (orc\<lparr>word_aut := Some (line_word K conds i)\<rparr>)"
  using assms line_word_retarget[OF assms(3), of conds i0 i]
  by (simp add: create_alpha_language_automaton_def)

text \<open>The constraints of one loop target as a function of the assignment alone.\<close>

definition loop_constraints ::
  "'b bdd_ops \<Rightarrow> ('a, 'b) spot_ops \<Rightarrow> ('a, 'b) bmc_oracle \<Rightarrow> nat \<Rightarrow> 'b list outcome" where
  "loop_constraints bdd spot orc i =
     obind (alpha_conds bdd spot orc) (\<lambda>conds.
       get_edges_constraints_of_loop bdd spot (int i)
         (orc\<lparr>word_aut := Some (line_word (nat (bound_K orc)) conds i)\<rparr>))"

lemma get_edges_cong:
  assumes "word_aut o1 = word_aut o2" "bound_K o1 = bound_K o2" "ltl_aut o1 = ltl_aut o2"
  shows "get_edges_constraints_of_loop bdd spot i o1 = get_edges_constraints_of_loop bdd spot i o2"
  by (simp only: get_edges_constraints_of_loop_def assms)

lemma constrain_state_length:
  "constrain_state bdd p K loop cs s = Ret cs' \<Longrightarrow> length cs' = length cs"
  unfolding constrain_state_def Let_def
  by (auto split: if_splits elim!: ofold_invariant[where I = "\<lambda>c. length c = length cs"]
      simp: constrain_edge_def obind_eq_Ret vec_set_Ret)

lemma get_edges_length:
  assumes "get_edges_constraints_of_loop bdd spot i orc = Ret cs"
  shows "length cs = nat (bound_K orc)"
proof -
  have "length cs' = n" if "ofold (constrain_state bdd p K i) cs0 ss = Ret cs'" "length cs0 = n"
    for cs' p cs0 ss n K
    by (rule ofold_invariant[OF that(1)]) (use that(2) constrain_state_length in auto)
  then show ?thesis using assms
    by (auto simp: get_edges_constraints_of_loop_def Let_def split: option.splits if_splits)
qed


lemma loop_constraints_sound:
  assumes pkg: "bdd_package bdd sem V" and sp: "spot_product_sound sem spot accepts"
    and tab: "oracle_tables spot V orc" and K: "bound_K orc = int K" and i: "i < K" and j: "j < K"
    and cs: "loop_constraints bdd spot orc i = Ret cs"
    and \<tau>: "list_all (lit_true \<tau>) (concat (current_trail orc))"
    and acc: "accepts (ltl_aut orc) (\<lambda>n. letter_of spot orc \<tau> (lasso_pos K i n))"
  shows "sem (cs ! j) (letter_of spot orc \<tau> j)"
proof -
  obtain conds where c: "alpha_conds bdd spot orc = Ret conds"
    and g: "get_edges_constraints_of_loop bdd spot (int i) (orc\<lparr>word_aut := Some (line_word K conds i)\<rparr>) = Ret cs"
    using cs K by (auto simp: loop_constraints_def obind_eq_Ret)
  let ?w = "line_word K conds i" and ?l = "letter_of spot orc \<tau>"
  let ?p = "spot_product spot ?w (ltl_aut orc)"
  have "word_run sem ?w (lasso_pos K i) (\<lambda>n. ?l (lasso_pos K i n))"
    using alpha_conds_letters[OF pkg tab \<tau> c] K by (intro line_word_run[OF i]) simp
  then obtain \<pi> where run: "product_run sem ?p (lasso_pos K i) (\<lambda>n. ?l (lasso_pos K i n)) \<pi>"
    using sp acc unfolding spot_product_sound_def by blast
  then have "is_useful_state ?p (p_init ?p)" unfolding product_run_def by metis
  then have "ofold (constrain_state bdd ?p (int K) (int i)) (replicate K (bddfalse bdd))
               (concat (map (states_of ?p) (filter (is_useful_scc ?p) [0..<scc_count ?p]))) = Ret cs"
    using g K by (simp add: get_edges_constraints_of_loop_def Let_def)
  then show ?thesis by (rule constraints_hold[OF pkg run i j])
qed

subsection \<open>The accumulated constraints\<close>

definition active_loops :: "('a, 'b) bmc_oracle \<Rightarrow> nat \<Rightarrow> nat list" where
  "active_loops orc n = filter (\<lambda>i. rename_lit_loop orc ! i \<noteq> 0) [0..<n]"

definition loop_cs ::
  "'b bdd_ops \<Rightarrow> ('a, 'b) spot_ops \<Rightarrow> ('a, 'b) bmc_oracle \<Rightarrow> nat \<Rightarrow> 'b list" where
  "loop_cs bdd spot orc i = (case loop_constraints bdd spot orc i of Ret cs \<Rightarrow> cs | _ \<Rightarrow> [])"

text \<open>What the first loop of \<open>evaluate_assignment\<close> has computed after \<open>n\<close> loop targets.\<close>

definition word_inv ::
  "'b bdd_ops \<Rightarrow> ('a, 'b) spot_ops \<Rightarrow> ('a, 'b) bmc_oracle \<Rightarrow> nat \<Rightarrow> nat \<Rightarrow> int \<Rightarrow> 'b word_automaton option \<Rightarrow> bool" where
  "word_inv bdd spot orc0 K n nl wa \<longleftrightarrow>
     (case wa of None \<Rightarrow> active_loops orc0 n = []
      | Some w \<Rightarrow> 0 < n \<and> nl = int K \<and>
          (\<exists>conds i. alpha_conds bdd spot orc0 = Ret conds \<and> w = line_word K conds i))"

definition acc_inv ::
  "'b bdd_ops \<Rightarrow> ('a, 'b) spot_ops \<Rightarrow> ('a, 'b) bmc_oracle \<Rightarrow> nat \<Rightarrow> nat \<Rightarrow> 'b eval_acc \<Rightarrow> bool" where
  "acc_inv bdd spot orc0 K n a \<longleftrightarrow>
     is_empty_inter a = replicate K False \<and> nb_empty_inter a = 0 \<and>
     edges_constraints a = map (\<lambda>i. if i < n \<and> rename_lit_loop orc0 ! i \<noteq> 0
                                    then loop_cs bdd spot orc0 i else []) [0..<K] \<and>
     (\<forall>i\<in>set (active_loops orc0 n). loop_constraints bdd spot orc0 i = Ret (loop_cs bdd spot orc0 i) \<and>
        length (loop_cs bdd spot orc0 i) = K) \<and>
     length (edges_formula_all a) = K \<and>
     (\<forall>j<K. edges_formula_all a ! j =
        foldl (merge_edge bdd) (bddtrue bdd) (map (\<lambda>i. loop_cs bdd spot orc0 i ! j) (active_loops orc0 n)))"

definition eval_inv ::
  "'b bdd_ops \<Rightarrow> ('a, 'b) spot_ops \<Rightarrow> ('a, 'b) bmc_oracle \<Rightarrow> nat \<Rightarrow> nat \<Rightarrow>
   ('a, 'b) bmc_oracle \<times> 'b eval_acc \<Rightarrow> bool" where
  "eval_inv bdd spot orc0 K n st \<longleftrightarrow>
     (\<exists>ids nl wa. fst st = orc0\<lparr>edges_id := ids, num_edge_loop := nl, word_aut := wa\<rparr> \<and>
        word_inv bdd spot orc0 K n nl wa) \<and>
     acc_inv bdd spot orc0 K n (snd st)"

lemma active_loops_Suc:
  "active_loops orc (Suc n) = active_loops orc n @ (if rename_lit_loop orc ! n \<noteq> 0 then [n] else [])"
  by (simp add: active_loops_def)

lemma alpha_conds_cong:
  assumes "info_variables o1 = info_variables o2" "ltl_aut o1 = ltl_aut o2" "bound_K o1 = bound_K o2"
    "current_trail o1 = current_trail o2"
  shows "alpha_conds bdd spot o1 = alpha_conds bdd spot o2"
  using alpha_condition_cong[OF assms(1,2)] by (simp add: alpha_conds_def assms)

lemma eval_loop_automaton:
  assumes orc: "orc = orc0\<lparr>edges_id := ids, num_edge_loop := nl, word_aut := wa\<rparr>"
    and wa: "word_inv bdd spot orc0 K n nl wa" and K: "bound_K orc0 = int K" "n < K"
    and r: "create_alpha_language_automaton bdd spot (int n) (n \<noteq> 0) orc = Ret orc1"
  shows "\<exists>ids conds. alpha_conds bdd spot orc0 = Ret conds \<and>
     orc1 = orc0\<lparr>edges_id := ids, num_edge_loop := int K, word_aut := Some (line_word K conds n)\<rparr>"
proof (cases wa)
  case None
  have ac: "alpha_conds bdd spot orc = alpha_conds bdd spot orc0"
    by (rule alpha_conds_cong) (simp_all add: orc)
  show ?thesis
    using create_fresh[OF _ _ _ r, of K] None K ac by (auto simp: orc)
next
  case (Some w)
  then obtain conds i where c: "0 < n" "nl = int K" "alpha_conds bdd spot orc0 = Ret conds"
    "w = line_word K conds i" using wa by (auto simp: word_inv_def)
  have "create_alpha_language_automaton bdd spot (int n) True orc =
        Ret (orc\<lparr>word_aut := Some (line_word K conds n)\<rparr>)"
    using create_reuse[of orc K conds i] Some c K orc by simp
  then show ?thesis using r c orc Some by auto
qed

lemma acc_inv_inactive:
  assumes "acc_inv bdd spot orc0 K n a" "rename_lit_loop orc0 ! n = 0"
  shows "acc_inv bdd spot orc0 K (Suc n) a"
proof -
  have "(\<lambda>i. if i < Suc n \<and> rename_lit_loop orc0 ! i \<noteq> 0 then loop_cs bdd spot orc0 i else []) =
      (\<lambda>i. if i < n \<and> rename_lit_loop orc0 ! i \<noteq> 0 then loop_cs bdd spot orc0 i else [])"
    using assms(2) by (auto simp: less_Suc_eq)
  then show ?thesis using assms by (simp add: acc_inv_def active_loops_Suc)
qed

lemma acc_inv_active:
  assumes inv: "acc_inv bdd spot orc0 K n a" and n: "rename_lit_loop orc0 ! n \<noteq> 0" "n < K"
    and cs: "loop_constraints bdd spot orc0 n = Ret cs" "length cs = K"
  shows "acc_inv bdd spot orc0 K (Suc n) (a\<lparr>edges_constraints := (edges_constraints a)[n := cs],
           edges_formula_all := map2 (merge_edge bdd) (edges_formula_all a) cs\<rparr>)"
proof -
  have lcs: "loop_cs bdd spot orc0 n = cs" using cs(1) by (simp add: loop_cs_def)
  have ec: "(map (\<lambda>i. if i < n \<and> rename_lit_loop orc0 ! i \<noteq> 0 then loop_cs bdd spot orc0 i else []) [0..<K])[n := cs] =
      map (\<lambda>i. if i < Suc n \<and> rename_lit_loop orc0 ! i \<noteq> 0 then loop_cs bdd spot orc0 i else []) [0..<K]"
    using n lcs by (intro nth_equalityI) (auto simp: nth_list_update less_Suc_eq)
  have al: "active_loops orc0 (Suc n) = active_loops orc0 n @ [n]" using n by (simp add: active_loops_Suc)
  show ?thesis using inv unfolding acc_inv_def al by (simp add: ec lcs cs)
qed

lemma eval_loop_inv:
  assumes inv: "eval_inv bdd spot orc0 K n (orc, a)" and K: "bound_K orc0 = int K" "n < K"
    and r: "eval_loop bdd spot (orc, a) n = Ret st'"
  shows "eval_inv bdd spot orc0 K (Suc n) st'"
proof -
  from inv obtain ids nl wa where o: "orc = orc0\<lparr>edges_id := ids, num_edge_loop := nl, word_aut := wa\<rparr>"
    and wa: "word_inv bdd spot orc0 K n nl wa" and ai: "acc_inv bdd spot orc0 K n a"
    unfolding eval_inv_def by auto
  let ?l = "rename_lit_loop orc0 ! n"
  show ?thesis
  proof (cases "?l = 0")
    case True
    then have "st' = (orc, a)" using r o by (auto simp: eval_loop_def obind_eq_Ret split: if_splits)
    moreover have "word_inv bdd spot orc0 K (Suc n) nl wa"
      using wa True by (cases wa) (auto simp: word_inv_def active_loops_Suc)
    ultimately show ?thesis
      using acc_inv_inactive[OF ai True] o by (auto simp: eval_inv_def)
  next
    case False
    obtain orc1 cs where c1: "create_alpha_language_automaton bdd spot (int n) (n \<noteq> 0) orc = Ret orc1"
      and g: "get_edges_constraints_of_loop bdd spot (int n) orc1 = Ret cs"
      and st': "cs \<noteq> [] \<longrightarrow> st' = (orc1, a\<lparr>edges_constraints := (edges_constraints a)[n := cs],
                   edges_formula_all := map2 (merge_edge bdd) (edges_formula_all a) cs\<rparr>)"
      using r False o by (auto simp: eval_loop_def obind_eq_Ret split: if_splits)
    obtain ids' conds where conds: "alpha_conds bdd spot orc0 = Ret conds"
      and o1: "orc1 = orc0\<lparr>edges_id := ids', num_edge_loop := int K, word_aut := Some (line_word K conds n)\<rparr>"
      using eval_loop_automaton[OF o wa K c1] by blast
    have lc: "loop_constraints bdd spot orc0 n = Ret cs"
      using g get_edges_cong[of orc1 "orc0\<lparr>word_aut := Some (line_word K conds n)\<rparr>"]
      by (simp add: loop_constraints_def conds K(1) o1)
    have len: "length cs = K" using get_edges_length[OF g] K(1) by (simp add: o1)
    then have "cs \<noteq> []" using K(2) by auto
    then have "st' = (orc1, a\<lparr>edges_constraints := (edges_constraints a)[n := cs],
        edges_formula_all := map2 (merge_edge bdd) (edges_formula_all a) cs\<rparr>)" using st' by simp
    moreover have "word_inv bdd spot orc0 K (Suc n) (int K) (Some (line_word K conds n))"
      using conds by (auto simp: word_inv_def)
    ultimately show ?thesis
      using acc_inv_active[OF ai False K(2) lc len] o1 unfolding eval_inv_def by auto
  qed
qed

lemma eval_loops_inv:
  assumes K: "bound_K orc0 = int K" "word_aut orc0 = None" "n \<le> K"
    and r: "ofold (eval_loop bdd spot) (orc0, \<lparr>is_empty_inter = replicate K False, nb_empty_inter = 0,
       edges_constraints = replicate K [], edges_formula_all = replicate K (bddtrue bdd)\<rparr>) [0..<n] = Ret st"
  shows "eval_inv bdd spot orc0 K n st"
  using assms(3) r
proof (induction n arbitrary: st)
  case 0
  have "map (\<lambda>i. []) [0..<K] = replicate K ([] :: 'b list)" by (simp add: map_replicate_const)
  then show ?case using 0 K
    by (auto simp: eval_inv_def word_inv_def acc_inv_def active_loops_def
        intro!: exI[of _ "edges_id orc0"] exI[of _ "num_edge_loop orc0"] exI[of _ None])
next
  case (Suc n)
  from Suc.prems(2) obtain orc1 a1 where "ofold (eval_loop bdd spot) (orc0, \<lparr>is_empty_inter = replicate K False, nb_empty_inter = 0,
       edges_constraints = replicate K [], edges_formula_all = replicate K (bddtrue bdd)\<rparr>) [0..<n] = Ret (orc1, a1)"
     "eval_loop bdd spot (orc1, a1) n = Ret st" by (auto simp: ofold_append obind_eq_Ret)
  then show ?case using Suc.IH eval_loop_inv[OF _ K(1)] Suc.prems(1) by (metis Suc_leD Suc_le_lessD)
qed


subsection \<open>Merging the constraints of all loop targets\<close>

lemma foldl_merge_false: "foldl (merge_edge bdd) (bddfalse bdd) cs = bddfalse bdd"
  if "bddfalse bdd \<noteq> bddtrue bdd"
  using that by (induction cs) (auto simp: merge_edge_def)

lemma foldl_merge_same:
  assumes "bddfalse bdd \<noteq> bddtrue bdd" "a \<noteq> bddtrue bdd" "foldl (merge_edge bdd) a cs \<noteq> bddfalse bdd"
  shows "foldl (merge_edge bdd) a cs = a \<and> (\<forall>c\<in>set cs. c = a)"
  using assms(3)
proof (induction cs)
  case (Cons c cs)
  have "c = a"
  proof (rule ccontr)
    assume "c \<noteq> a"
    then have "merge_edge bdd a c = bddfalse bdd" using assms(2) by (auto simp: merge_edge_def)
    then show False using Cons.prems foldl_merge_false[OF assms(1)] by simp
  qed
  then show ?case using Cons assms(2) by (simp add: merge_edge_def)
qed simp

lemma foldl_merge_all:
  assumes "bddfalse bdd \<noteq> bddtrue bdd" "bddtrue bdd \<notin> set cs"
    "foldl (merge_edge bdd) (bddtrue bdd) cs \<noteq> bddfalse bdd" "c \<in> set cs"
  shows "c = foldl (merge_edge bdd) (bddtrue bdd) cs"
proof (cases cs)
  case (Cons d ds)
  then have d: "d \<noteq> bddtrue bdd" "foldl (merge_edge bdd) (bddtrue bdd) cs = foldl (merge_edge bdd) d ds"
    using assms(2) by (auto simp: merge_edge_def)
  then show ?thesis using foldl_merge_same[OF assms(1) d(1), of ds] assms(3,4) Cons by auto
qed (use assms(4) in simp)

subsection \<open>Adding clauses that hold\<close>

text \<open>
  \<open>extends_by \<tau>\<close> relates a state to one in which clauses true under \<open>\<tau>\<close> were appended and
  statistics counted, nothing else.
\<close>

definition extends_by :: "assignment \<Rightarrow> ('a, 'b) bmc_oracle \<Rightarrow> ('a, 'b) bmc_oracle \<Rightarrow> bool" where
  "extends_by \<tau> orc orc' \<longleftrightarrow>
     (\<exists>added ac nc sc. orc' = orc\<lparr>new_clauses := new_clauses orc @ added, added_clauses := ac,
         numb_clauses := nc, size_clauses := sc\<rparr> \<and> list_all (clause_true \<tau>) added)"

lemma extends_by_refl [simp]: "extends_by \<tau> orc orc"
  unfolding extends_by_def
  by (intro exI[of _ "[]"] exI[of _ "added_clauses orc"] exI[of _ "numb_clauses orc"]
      exI[of _ "size_clauses orc"]) simp

lemma extends_by_trans: "extends_by \<tau> a b \<Longrightarrow> extends_by \<tau> b c \<Longrightarrow> extends_by \<tau> a c"
  unfolding extends_by_def by fastforce

lemma extends_by_push: "clause_true \<tau> cls \<Longrightarrow> extends_by \<tau> orc (push_clause k cls orc)"
  unfolding extends_by_def push_clause_def Let_def by (rule exI[of _ "[cls]"]) auto

lemma extends_by_ofold:
  assumes "ofold f orc xs = Ret orc'"
    and "\<And>o1 x o2. extends_by \<tau> orc o1 \<Longrightarrow> x \<in> set xs \<Longrightarrow> f o1 x = Ret o2 \<Longrightarrow> extends_by \<tau> o1 o2"
  shows "extends_by \<tau> orc orc'"
  by (rule ofold_invariant[OF assms(1)]) (auto intro: extends_by_trans assms(2))

lemma extends_by_same:
  assumes "extends_by \<tau> orc orc'"
  shows "oracle_tables spot V orc' = oracle_tables spot V orc" "letter_of spot orc' = letter_of spot orc"
    "rename_lit_loop orc' = rename_lit_loop orc" "bound_K orc' = bound_K orc"
    "current_trail orc' = current_trail orc" "ltl_aut orc' = ltl_aut orc"
    "variable_by_step orc' = variable_by_step orc"
    "enable_edge_loop_cond orc' = enable_edge_loop_cond orc"
    "enable_intersection orc' = enable_intersection orc"
  using assms by (auto simp: extends_by_def oracle_tables_def letter_of_def fun_eq_iff)

lemma trail_negation:
  assumes "oracle_tables spot V orc"
  shows "clause_true \<tau> (map uminus (concat (current_trail orc))) \<longleftrightarrow>
         \<not> list_all (lit_true \<tau>) (concat (current_trail orc))"
  by (rule clause_true_negated) (use assms in \<open>auto simp: oracle_tables_def\<close>)

lemma add_cube_clause_extends:
  assumes pkg: "bdd_package bdd sem V" and tab: "oracle_tables spot V orc"
    and cube: "bdd_cube bdd sem V cube" and j: "j \<le> nat (bound_K orc)"
    and loop: "loop \<noteq> - 1 \<Longrightarrow> 0 \<le> loop \<and> nat loop < length (rename_lit_loop orc) \<and> rename_lit_loop orc ! nat loop \<noteq> 0"
    and sound: "list_all (lit_true \<tau>) (concat (current_trail orc)) \<Longrightarrow>
        (loop \<noteq> - 1 \<Longrightarrow> lit_true \<tau> (rename_lit_loop orc ! nat loop)) \<Longrightarrow>
        \<not> sem cube (letter_of spot orc \<tau> j)"
    and r: "add_cube_clause bdd spot (int j) loop orc cube = Ret orc'"
  shows "extends_by \<tau> orc orc'"
proof -
  let ?m = "variable_by_step orc ! j" and ?nm = "bdd_map_ap_name spot (ltl_aut orc)"
  have len: "length (variable_by_step orc) = Suc (nat (bound_K orc))"
    and nms: "\<And>v. v \<in> V \<Longrightarrow> \<exists>x. ?m (?nm v) = Some x \<and> 0 < x"
    using tab j by (auto simp: oracle_tables_def)
  obtain lits where l: "cube_loop bdd ?nm cube ?m [] = Some (?m, lits)"
    and lt: "clause_true \<tau> lits \<longleftrightarrow> \<not> sem cube (letter_of spot orc \<tau> j)"
    using cube_loop_negates[where m = ?m and nm = ?nm and cls = "[]" and \<tau> = \<tau>, OF pkg cube nms]
    by (auto simp: letter_of_def)
  let ?cls = "lits @ map uminus (concat (current_trail orc))"
  let ?c = "if loop \<noteq> - 1 then ?cls @ [- (rename_lit_loop orc ! nat loop)] else ?cls"
  have "\<exists>k. orc' = push_clause k ?c orc"
    using r l loop len j
    by (auto simp: add_cube_clause_def Let_def add_trail_lits_to_clause_def vec_get_def obind_eq_Ret
        split: if_splits)
  moreover have "clause_true \<tau> ?c"
    using sound lt trail_negation[OF tab] loop by auto
  ultimately show ?thesis using extends_by_push by blast
qed

lemma add_edge_loop_clauses_extends:
  assumes pkg: "bdd_package bdd sem V" and tab: "oracle_tables spot V orc" and j: "j \<le> nat (bound_K orc)"
    and loop: "loop \<noteq> - 1 \<Longrightarrow> 0 \<le> loop \<and> nat loop < length (rename_lit_loop orc) \<and> rename_lit_loop orc ! nat loop \<noteq> 0"
    and sound: "list_all (lit_true \<tau>) (concat (current_trail orc)) \<Longrightarrow>
        (loop \<noteq> - 1 \<Longrightarrow> lit_true \<tau> (rename_lit_loop orc ! nat loop)) \<Longrightarrow>
        sem f (letter_of spot orc \<tau> j)"
    and r: "add_edge_loop_clauses bdd spot f (int j) loop orc = Ret orc'"
  shows "extends_by \<tau> orc orc'"
proof (cases "f = bddtrue bdd")
  case True
  then show ?thesis using r by (simp add: add_edge_loop_clauses_def)
next
  case False
  then have f: "ofold (add_cube_clause bdd spot (int j) loop) orc (minato_isop bdd (bdd_not bdd f)) = Ret orc'"
    using r by (simp add: add_edge_loop_clauses_def)
  show ?thesis
  proof (rule extends_by_ofold[OF f])
    fix o1 c o2
    assume e: "extends_by \<tau> orc o1" and c: "c \<in> set (minato_isop bdd (bdd_not bdd f))"
      and a: "add_cube_clause bdd spot (int j) loop o1 c = Ret o2"
    note same = extends_by_same[OF e]
    have "sem c v \<Longrightarrow> \<not> sem f v" for v
      using bdd_package_isop(1)[OF pkg, of "bdd_not bdd f" v] bdd_packageD(5)[OF pkg] c by blast
    then show "extends_by \<tau> o1 o2"
      using add_cube_clause_extends[OF pkg _ bdd_package_isop(2)[OF pkg c] _ _ _ a] tab j loop sound
      by (metis same(1-5))
  qed
qed


subsection \<open>Evaluating an assignment\<close>

lemma loop_constraints_cong:
  assumes "info_variables o1 = info_variables o2" "ltl_aut o1 = ltl_aut o2" "bound_K o1 = bound_K o2"
    "current_trail o1 = current_trail o2"
  shows "loop_constraints bdd spot o1 i = loop_constraints bdd spot o2 i"
proof -
  have "get_edges_constraints_of_loop bdd spot (int i) (o1\<lparr>word_aut := w\<rparr>) =
        get_edges_constraints_of_loop bdd spot (int i) (o2\<lparr>word_aut := w\<rparr>)" for w
    by (rule get_edges_cong) (simp_all add: assms)
  then show ?thesis using alpha_conds_cong[OF assms] by (simp add: loop_constraints_def assms)
qed

lemma active_loopsD:
  "i \<in> set (active_loops orc n) \<longleftrightarrow> i < n \<and> rename_lit_loop orc ! i \<noteq> 0"
  by (auto simp: active_loops_def)

text \<open>The assignments the clauses must not exclude.\<close>

definition accepted_lassos ::
  "('a, 'b) spot_ops \<Rightarrow> ('a \<Rightarrow> (nat \<Rightarrow> letter) \<Rightarrow> bool) \<Rightarrow> ('a, 'b) bmc_oracle \<Rightarrow> assignment \<Rightarrow> bool" where
  "accepted_lassos spot accepts orc \<tau> \<longleftrightarrow>
     (\<forall>i < nat (bound_K orc). rename_lit_loop orc ! i \<noteq> 0 \<and> lit_true \<tau> (rename_lit_loop orc ! i) \<longrightarrow>
        accepts (ltl_aut orc) (\<lambda>n. letter_of spot orc \<tau> (lasso_pos (nat (bound_K orc)) i n)))"

lemma combined_clause_extends:
  assumes pkg: "bdd_package bdd sem V" and sp: "spot_product_sound sem spot accepts"
    and tab: "oracle_tables spot V orc" and K: "bound_K orc = int K" and j: "j < K"
    and acc: "accepted_lassos spot accepts orc \<tau>" and i: "i \<in> set (active_loops orc K)" "lit_true \<tau> (rename_lit_loop orc ! i)"
    and ai: "acc_inv bdd spot orc K K a"
    and nt: "\<forall>i\<in>set (active_loops orc K). bddtrue bdd \<notin> set (loop_cs bdd spot orc i)"
    and r: "combined_clause bdd spot a orc j = Ret orc'"
  shows "extends_by \<tau> orc orc'"
proof (cases "edges_formula_all a ! j \<noteq> bddtrue bdd \<and> edges_formula_all a ! j \<noteq> bddfalse bdd")
  case False
  then show ?thesis using r by (auto simp: combined_clause_def)
next
  case True
  let ?cs = "map (\<lambda>i. loop_cs bdd spot orc i ! j) (active_loops orc K)"
  have tf: "bddfalse bdd \<noteq> bddtrue bdd" using bdd_packageD(1,2)[OF pkg] by metis
  have f: "edges_formula_all a ! j = foldl (merge_edge bdd) (bddtrue bdd) ?cs"
    and lc: "\<And>i. i \<in> set (active_loops orc K) \<Longrightarrow> loop_constraints bdd spot orc i = Ret (loop_cs bdd spot orc i)"
    and len: "\<And>i. i \<in> set (active_loops orc K) \<Longrightarrow> length (loop_cs bdd spot orc i) = K"
    using ai j by (auto simp: acc_inv_def)
  have "bddtrue bdd \<notin> set ?cs" using nt len j by (auto dest: nth_mem)
  then have eq: "loop_cs bdd spot orc i ! j = edges_formula_all a ! j"
    using foldl_merge_all[OF tf, of ?cs] True f i(1) by auto
  have iK: "i < K" "rename_lit_loop orc ! i \<noteq> 0" using i(1) by (auto simp: active_loopsD)
  have "accepts (ltl_aut orc) (\<lambda>n. letter_of spot orc \<tau> (lasso_pos K i n))"
    using acc iK i(2) K by (auto simp: accepted_lassos_def)
  then have "sem (edges_formula_all a ! j) (letter_of spot orc \<tau> j)"
    if "list_all (lit_true \<tau>) (concat (current_trail orc))"
    using loop_constraints_sound[OF pkg sp tab K iK(1) j lc[OF i(1)] that] eq by simp
  moreover have "add_edge_loop_clauses bdd spot (edges_formula_all a ! j) (int j) (- 1) orc = Ret orc'"
    using r True by (simp add: combined_clause_def)
  ultimately show ?thesis
    using add_edge_loop_clauses_extends[OF pkg tab, of j "- 1" \<tau> "edges_formula_all a ! j"] j K by simp
qed

lemma loop_edge_clause_extends:
  assumes pkg: "bdd_package bdd sem V" and sp: "spot_product_sound sem spot accepts"
    and tab: "oracle_tables spot V orc" and K: "bound_K orc = int K" and j: "j < K"
    and acc: "accepted_lassos spot accepts orc \<tau>" and i: "i \<in> set (active_loops orc K)"
    and len: "K \<le> length (rename_lit_loop orc)"
    and ai: "acc_inv bdd spot orc K K a"
    and r: "loop_edge_clause bdd spot a i orc j = Ret orc'"
  shows "extends_by \<tau> orc orc'"
proof (cases "edges_constraints a ! i ! j \<noteq> bddtrue bdd \<and> edges_formula_all a ! j = bddfalse bdd")
  case False
  then show ?thesis using r by (auto simp: loop_edge_clause_def)
next
  case True
  have iK: "i < K" "rename_lit_loop orc ! i \<noteq> 0" using i by (auto simp: active_loopsD)
  have ec: "edges_constraints a ! i = loop_cs bdd spot orc i" and
    lc: "loop_constraints bdd spot orc i = Ret (loop_cs bdd spot orc i)"
    using ai i iK by (auto simp: acc_inv_def)
  have "sem (edges_constraints a ! i ! j) (letter_of spot orc \<tau> j)"
    if "list_all (lit_true \<tau>) (concat (current_trail orc))" "lit_true \<tau> (rename_lit_loop orc ! i)"
    using loop_constraints_sound[OF pkg sp tab K iK(1) j lc that(1)] acc iK that(2) K ec
    by (simp add: accepted_lassos_def)
  moreover have "add_edge_loop_clauses bdd spot (edges_constraints a ! i ! j) (int j) (int i) orc = Ret orc'"
    using r True by (simp add: loop_edge_clause_def)
  ultimately show ?thesis
    using add_edge_loop_clauses_extends[OF pkg tab, of j "int i" \<tau> "edges_constraints a ! i ! j"] j K iK len
    by simp
qed

lemma acc_inv_fields:
  assumes same: "info_variables o2 = info_variables o1" "ltl_aut o2 = ltl_aut o1" "bound_K o2 = bound_K o1"
    "current_trail o2 = current_trail o1" and rn: "rename_lit_loop o2 = rename_lit_loop o1"
  shows "acc_inv bdd spot o2 K n a = acc_inv bdd spot o1 K n a" "active_loops o2 n = active_loops o1 n"
    "loop_cs bdd spot o2 = loop_cs bdd spot o1"
proof -
  show al: "active_loops o2 n = active_loops o1 n" for n
    by (simp add: active_loops_def rn)
  show lcs: "loop_cs bdd spot o2 = loop_cs bdd spot o1"
    using loop_constraints_cong[OF same] by (simp add: loop_cs_def fun_eq_iff)
  show "acc_inv bdd spot o2 K n a = acc_inv bdd spot o1 K n a"
    by (simp only: acc_inv_def al lcs loop_constraints_cong[OF same] rn)
qed

lemma acc_inv_cong:
  assumes "extends_by \<tau> o1 o2"
  shows "acc_inv bdd spot o2 K n a = acc_inv bdd spot o1 K n a" "active_loops o2 n = active_loops o1 n"
    "loop_cs bdd spot o2 = loop_cs bdd spot o1"
    "accepted_lassos spot accepts o2 \<tau>' = accepted_lassos spot accepts o1 \<tau>'"
proof -
  have same: "info_variables o2 = info_variables o1" "ltl_aut o2 = ltl_aut o1" "bound_K o2 = bound_K o1"
    "current_trail o2 = current_trail o1" "rename_lit_loop o2 = rename_lit_loop o1"
    using assms by (auto simp: extends_by_def)
  show "acc_inv bdd spot o2 K n a = acc_inv bdd spot o1 K n a" "active_loops o2 n = active_loops o1 n"
    "loop_cs bdd spot o2 = loop_cs bdd spot o1" by (rule acc_inv_fields[OF same])+
  show "accepted_lassos spot accepts o2 \<tau>' = accepted_lassos spot accepts o1 \<tau>'"
    by (simp add: accepted_lassos_def extends_by_same[OF assms])
qed

lemma loop_clauses_extends:
  assumes pkg: "bdd_package bdd sem V" and sp: "spot_product_sound sem spot accepts"
    and tab: "oracle_tables spot V orc" and K: "bound_K orc = int K" and i: "i < K"
    and acc: "accepted_lassos spot accepts orc \<tau>"
    and len: "K \<le> length (rename_lit_loop orc)"
    and ai: "acc_inv bdd spot orc K K a"
    and r: "loop_clauses bdd spot a orc i = Ret orc'"
  shows "extends_by \<tau> orc orc'"
proof (cases "rename_lit_loop orc ! i = 0")
  case True
  then show ?thesis using r i len by (auto simp: loop_clauses_def)
next
  case False
  then have i': "i \<in> set (active_loops orc K)" using i by (simp add: active_loopsD)
  have ne: "\<not> is_empty_inter a ! i" using ai i by (simp add: acc_inv_def)
  have "(if enable_edge_loop_cond orc \<and> edges_constraints a ! i \<noteq> []
      then ofold (loop_edge_clause bdd spot a i) orc [0..<K] else Ret orc) = Ret orc'"
    using r False i len ne K unfolding loop_clauses_def by (simp cong: if_cong)
  then consider "orc' = orc" | "ofold (loop_edge_clause bdd spot a i) orc [0..<K] = Ret orc'"
    by (metis outcome.inject(1))
  then show ?thesis
  proof cases
    case 2
    show ?thesis
    proof (rule extends_by_ofold[OF 2])
      fix o1 j o2
      assume e: "extends_by \<tau> orc o1" and j: "j \<in> set [0..<K]"
        and s: "loop_edge_clause bdd spot a i o1 j = Ret o2"
      show "extends_by \<tau> o1 o2"
        by (rule loop_edge_clause_extends[OF pkg sp _ _ _ _ _ _ _ s, where K = K])
          (use tab K j acc i' len ai in \<open>simp_all add: extends_by_same[OF e] acc_inv_cong[OF e]\<close>)
    qed
  qed simp
qed

text \<open>The three phases of a call: the first loop, the combined clauses, the clauses per target.\<close>

lemma evaluate_assignment_phases:
  assumes K: "bound_K orc = int K" "0 < K" and "init_box_done orc"
    and r: "evaluate_assignment bdd spot orc = Ret orc'"
  shows "\<exists>orc1 a orc3. eval_inv bdd spot (orc\<lparr>numb_call := numb_call orc + 1, word_aut := None\<rparr>) K K (orc1, a) \<and>
     (if enable_edge_loop_cond orc1 then ofold (combined_clause bdd spot a) orc1 [0..<K] else Ret orc1) = Ret orc3 \<and>
     ofold (loop_clauses bdd spot a) orc3 [0..<K] = Ret orc'"
proof -
  let ?o0 = "orc\<lparr>numb_call := numb_call orc + 1, word_aut := None\<rparr>"
  let ?a0 = "\<lparr>is_empty_inter = replicate K False, nb_empty_inter = 0,
       edges_constraints = replicate K [], edges_formula_all = replicate K (bddtrue bdd)\<rparr>"
  obtain orc1 a where e1: "ofold (eval_loop bdd spot) (?o0, ?a0) [0..<K] = Ret (orc1, a)"
    and e23: "(let orc2 = (if nb_empty_inter a = K \<and> enable_intersection orc1
           then push_clause EMPTY_INTERSECT (add_trail_lits_to_clause orc1 []) orc1 else orc1)
       in obind (if enable_edge_loop_cond orc2 then ofold (combined_clause bdd spot a) orc2 [0..<K] else Ret orc2)
         (\<lambda>orc3. ofold (loop_clauses bdd spot a) orc3 [0..<K])) = Ret orc'"
    using assms unfolding evaluate_assignment_def Let_def
    by (cases "ofold (eval_loop bdd spot) (?o0, ?a0) [0..<K]") (auto simp: K Let_def cong: if_cong)
  from eval_loops_inv[OF _ _ _ e1] K have ev: "eval_inv bdd spot ?o0 K K (orc1, a)" by simp
  then have nb: "nb_empty_inter a \<noteq> K" using K(2) by (simp add: eval_inv_def acc_inv_def)
  obtain orc3 where
      "(if enable_edge_loop_cond orc1 then ofold (combined_clause bdd spot a) orc1 [0..<K] else Ret orc1) = Ret orc3"
      "ofold (loop_clauses bdd spot a) orc3 [0..<K] = Ret orc'"
    using e23 nb unfolding Let_def by (simp add: obind_eq_Ret cong: if_cong) blast
  then show ?thesis using ev by blast
qed

lemma evaluate_assignment_extends:
  assumes pkg: "bdd_package bdd sem V" and sp: "spot_product_sound sem spot accepts"
    and tab: "oracle_tables spot V orc" and K: "bound_K orc = int K" "0 < K"
    and len: "K \<le> length (rename_lit_loop orc)"
    and acc: "accepted_lassos spot accepts orc \<tau>"
    and i: "i < K" "lit_true \<tau> (rename_lit_loop orc ! i)"
    and nt: "\<And>i. i < K \<Longrightarrow> rename_lit_loop orc ! i \<noteq> 0 \<Longrightarrow> bddtrue bdd \<notin> set (loop_cs bdd spot orc i)"
    and r: "evaluate_assignment bdd spot orc = Ret orc'"
  shows "\<exists>added. new_clauses orc' = new_clauses orc @ added \<and> list_all (clause_true \<tau>) added"
proof (cases "init_box_done orc")
  case False
  then show ?thesis using r by (simp add: evaluate_assignment_def)
next
  case True
  let ?o0 = "orc\<lparr>numb_call := numb_call orc + 1, word_aut := None\<rparr>"
  obtain orc1 a orc3 where ev: "eval_inv bdd spot ?o0 K K (orc1, a)" and e2:
      "(if enable_edge_loop_cond orc1 then ofold (combined_clause bdd spot a) orc1 [0..<K] else Ret orc1) = Ret orc3"
    and e3: "ofold (loop_clauses bdd spot a) orc3 [0..<K] = Ret orc'"
    using evaluate_assignment_phases[OF K True r] by blast
  from ev obtain ids nl wa where o1: "orc1 = ?o0\<lparr>edges_id := ids, num_edge_loop := nl, word_aut := wa\<rparr>"
    and ai0: "acc_inv bdd spot ?o0 K K a" by (auto simp: eval_inv_def)
  have "acc_inv bdd spot orc1 K K a = acc_inv bdd spot ?o0 K K a" by (rule acc_inv_fields) (simp_all add: o1)
  then have ai: "acc_inv bdd spot orc1 K K a" using ai0 by simp
  have lcs: "loop_cs bdd spot orc1 = loop_cs bdd spot orc" by (rule acc_inv_fields) (simp_all add: o1)
  have tab1: "oracle_tables spot V orc1" using tab by (simp add: oracle_tables_def o1)
  have acc1: "accepted_lassos spot accepts orc1 \<tau>"
    using acc by (simp add: accepted_lassos_def letter_of_def o1)
  have basic: "bound_K orc1 = int K" "rename_lit_loop orc1 = rename_lit_loop orc"
    "new_clauses orc1 = new_clauses orc" using K by (simp_all add: o1)
  have iact: "i \<in> set (active_loops orc1 K)" "lit_true \<tau> (rename_lit_loop orc1 ! i)"
    using i lit_true_nonzero[OF i(2)] by (simp_all add: active_loopsD basic)
  have nt1: "\<forall>i\<in>set (active_loops orc1 K). bddtrue bdd \<notin> set (loop_cs bdd spot orc1 i)"
    using nt by (auto simp: active_loopsD basic lcs)
  have ext3: "extends_by \<tau> orc1 orc3"
  proof (cases "enable_edge_loop_cond orc1")
    case True
    then have f: "ofold (combined_clause bdd spot a) orc1 [0..<K] = Ret orc3"
      using e2 by simp
    show ?thesis
    proof (rule extends_by_ofold[OF f])
      fix o1 j o2
      assume e: "extends_by \<tau> orc1 o1" and j: "j \<in> set [0..<K]" and s: "combined_clause bdd spot a o1 j = Ret o2"
      show "extends_by \<tau> o1 o2"
        by (rule combined_clause_extends[OF pkg sp _ _ _ _ _ _ _ _ s, where K = K and i = i])
          (use tab1 basic j acc1 iact ai nt1 in \<open>simp_all add: extends_by_same[OF e] acc_inv_cong[OF e]\<close>)
    qed
  next
    case False
    then show ?thesis using e2 by simp
  qed
  have "extends_by \<tau> orc3 orc'"
  proof (rule extends_by_ofold[OF e3])
    fix o1 j o2
    assume e: "extends_by \<tau> orc3 o1" and j: "j \<in> set [0..<K]" and s: "loop_clauses bdd spot a o1 j = Ret o2"
    note e' = extends_by_trans[OF ext3 e]
    show "extends_by \<tau> o1 o2"
      by (rule loop_clauses_extends[OF pkg sp _ _ _ _ _ _ s, where K = K])
        (use tab1 basic j acc1 len ai in \<open>simp_all add: extends_by_same[OF e'] acc_inv_cong[OF e']\<close>)
  qed
  from extends_by_trans[OF ext3 this] show ?thesis by (auto simp: extends_by_def basic)
qed

end
