(* ===== verification/Bmc_Instance.thy ===== *)
theory Bmc_Instance
  imports Bmc_Soundness
begin

text \<open>
  A concrete instance of the two library interfaces, on which the oracle can be run.  BDDs
  over two variables are truth tables.  The automaton is the one of the formula
  \<^verbatim>\<open>GF a | G b\<close> with the states initial, \<^verbatim>\<open>GF\<close> and \<^verbatim>\<open>G\<close>, numbered from zero; the product
  state of word state \<open>s\<close> and automaton state \<open>q\<close> has number \<open>3 * s + q\<close>.
\<close>

datatype table = TT bool bool bool bool

fun tt_sem :: "table \<Rightarrow> letter \<Rightarrow> bool" where
  "tt_sem (TT p q r s) v = (if v 0 then (if v 1 then s else r) else (if v 1 then q else p))"

fun tt_and :: "table \<Rightarrow> table \<Rightarrow> table" where
  "tt_and (TT p q r s) (TT p' q' r' s') = TT (p \<and> p') (q \<and> q') (r \<and> r') (s \<and> s')"

fun tt_or :: "table \<Rightarrow> table \<Rightarrow> table" where
  "tt_or (TT p q r s) (TT p' q' r' s') = TT (p \<or> p') (q \<or> q') (r \<or> r') (s \<or> s')"

fun tt_not :: "table \<Rightarrow> table" where
  "tt_not (TT p q r s) = TT (\<not> p) (\<not> q) (\<not> r) (\<not> s)"

fun tt_root :: "table \<Rightarrow> int" where
  "tt_root (TT p q r s) = (if p = r \<and> q = s then 1 else 0)"

fun tt_high :: "table \<Rightarrow> table" where
  "tt_high (TT p q r s) = (if p = r \<and> q = s then TT q q q q else TT r s r s)"

fun tt_low :: "table \<Rightarrow> table" where
  "tt_low (TT p q r s) = (if p = r \<and> q = s then TT p p p p else TT p q p q)"

fun tt_isop :: "table \<Rightarrow> table list" where
  "tt_isop (TT p q r s) =
     (if p then [TT True False False False] else []) @ (if q then [TT False True False False] else []) @
     (if r then [TT False False True False] else []) @ (if s then [TT False False False True] else [])"

definition tt_ops :: "table bdd_ops" where
  "tt_ops = \<lparr>bddtrue = TT True True True True, bddfalse = TT False False False False,
     bdd_and = tt_and, bdd_or = tt_or, bdd_not = tt_not,
     bdd_ithvar = (\<lambda>x. if x = 0 then TT False False True True else TT False True False True),
     bdd_nithvar = (\<lambda>x. if x = 0 then TT True True False False else TT True False True False),
     bdd_var = tt_root, bdd_high = tt_high, bdd_low = tt_low, minato_isop = tt_isop\<rparr>"

lemma tt_minterm_cube:
  assumes "c \<in> {TT True False False False, TT False True False False, TT False False True False,
                TT False False False True}"
  shows "bdd_cube tt_ops tt_sem {0, 1} c"
proof -
  have t: "bdd_cube tt_ops tt_sem {0, 1} (TT True True True True)"
    using cube_true[of tt_ops] by (simp add: tt_ops_def)
  have b: "bdd_cube tt_ops tt_sem {0, 1} (TT False True False True)"
    by (rule cube_pos) (use t in \<open>simp_all add: tt_ops_def\<close>)
  have nb: "bdd_cube tt_ops tt_sem {0, 1} (TT True False True False)"
    by (rule cube_neg) (use t in \<open>simp_all add: tt_ops_def\<close>)
  have "bdd_cube tt_ops tt_sem {0, 1} (TT False False False True)"
    "bdd_cube tt_ops tt_sem {0, 1} (TT False False True False)"
    by (rule cube_pos, use b nb in \<open>simp_all add: tt_ops_def\<close>)+
  moreover have "bdd_cube tt_ops tt_sem {0, 1} (TT False True False False)"
    "bdd_cube tt_ops tt_sem {0, 1} (TT True False False False)"
    by (rule cube_neg, use b nb in \<open>simp_all add: tt_ops_def\<close>)+
  ultimately show ?thesis using assms by auto
qed

lemma tt_connectives: "bdd_connectives tt_ops tt_sem {0, 1}"
proof -
  have "tt_sem (tt_and a b) v \<longleftrightarrow> tt_sem a v \<and> tt_sem b v" "tt_sem (tt_or a b) v \<longleftrightarrow> tt_sem a v \<or> tt_sem b v"
    "tt_sem (tt_not a) v \<longleftrightarrow> \<not> tt_sem a v" for a b v
    by (cases a; cases b; simp)+
  then show ?thesis by (simp add: bdd_connectives_def tt_ops_def)
qed

lemma tt_package: "bdd_package tt_ops tt_sem {0, 1}"
proof -
  have "tt_sem f v \<longleftrightarrow> (\<exists>c\<in>set (tt_isop f). tt_sem c v)" for f v by (cases f) auto
  moreover have "\<forall>c\<in>set (tt_isop f). bdd_cube tt_ops tt_sem {0, 1} c" for f
  proof -
    have "set (tt_isop f) \<subseteq> {TT True False False False, TT False True False False,
        TT False False True False, TT False False False True}" by (cases f) auto
    then show ?thesis using tt_minterm_cube by blast
  qed
  moreover have "minato_isop tt_ops = tt_isop" by (simp add: tt_ops_def)
  ultimately show ?thesis unfolding bdd_package_def using tt_connectives by metis
qed

subsection \<open>The product with the automaton of \<open>GF a | G b\<close>\<close>

text \<open>Some edge that can be taken again allows a letter with \<open>a\<close>.\<close>

definition gf_possible :: "table word_automaton \<Rightarrow> bool" where
  "gf_possible w =
     list_ex (\<lambda>e. tt_and (we_cond e) (bdd_ithvar tt_ops 0) \<noteq> bddfalse tt_ops \<and>
                  list_ex (\<lambda>e'. we_dst e' = we_src e) (w_edges w)) (w_edges w)"

definition gf_edges :: "nat \<Rightarrow> table word_edge \<Rightarrow> table prod_edge list" where
  "gf_edges q e =
     (let to_gf = \<lparr>pe_dst = 3 * we_dst e + 1, pe_cond = we_cond e\<rparr>;
          to_g = \<lparr>pe_dst = 3 * we_dst e + 2, pe_cond = tt_and (we_cond e) (bdd_ithvar tt_ops 1)\<rparr>
      in if q = 0 then [to_gf, to_g] else if q = 1 then [to_gf] else [to_g])"

definition gf_product :: "table word_automaton \<Rightarrow> table product_view" where
  "gf_product w =
     \<lparr>p_init = 0, scc_count = 3,
      states_of = (\<lambda>q. if q = 0 then [0] else map (\<lambda>e. 3 * we_dst e + q) (w_edges w)),
      scc_of = (\<lambda>s. s mod 3),
      is_useful_scc = (\<lambda>q. q = 1 \<longrightarrow> gf_possible w),
      is_useful_state = (\<lambda>s. s mod 3 = 1 \<longrightarrow> gf_possible w),
      is_accepting_scc = (\<lambda>q. q = 2 \<or> q = 1 \<and> gf_possible w),
      product_states = (\<lambda>s. (s div 3, s mod 3)),
      p_out = (\<lambda>s. concat (map (gf_edges (s mod 3)) (filter (\<lambda>e. we_src e = s div 3) (w_edges w))))\<rparr>"

definition gf_spot :: "(unit, table) spot_ops" where
  "gf_spot =
     \<lparr>parse_and_translate = (\<lambda>s. Some ()), aut_aps = (\<lambda>_. [''a'', ''b'']),
      has_registered_proposition = (\<lambda>_ n. if n = ''a'' then 0 else if n = ''b'' then 1 else - 1),
      bdd_map_ap_name = (\<lambda>_ v. if v = 0 then ''a'' else ''b''),
      unregister_ap = (\<lambda>_ _. ()), purge_dead_states = (\<lambda>_. ()), remove_unused_ap = (\<lambda>_. ()),
      spot_product = (\<lambda>w _. gf_product w)\<rparr>"

definition gf_accepts :: "unit \<Rightarrow> (nat \<Rightarrow> letter) \<Rightarrow> bool" where
  "gf_accepts A u \<longleftrightarrow> (\<forall>n. \<exists>m\<ge>n. u m 0) \<or> (\<forall>n. u n 1)"

lemma gf_possible_if:
  assumes "word_run tt_sem w r u" and "\<forall>n. \<exists>m\<ge>n. u m 0"
  shows "gf_possible w"
proof -
  obtain m where m: "m \<ge> 1" "u m 0" using assms(2) by blast
  obtain e where e: "e \<in> set (w_edges w)" "we_src e = r m" "tt_sem (we_cond e) (u m)"
    using assms(1) by (auto simp: word_run_def)
  obtain e' where e': "e' \<in> set (w_edges w)" "we_dst e' = r m"
    using assms(1) m(1) unfolding word_run_def by (metis Suc_pred' zero_less_iff_neq_zero not_one_le_zero)
  have "tt_and (we_cond e) (bdd_ithvar tt_ops 0) \<noteq> bddfalse tt_ops"
    using e(3) m(2) by (cases "we_cond e") (auto simp: tt_ops_def split: if_splits)
  then show ?thesis using e e' unfolding gf_possible_def list_ex_iff by metis
qed

lemma gf_run:
  assumes w: "word_run tt_sem w r u" and q: "q = 1 \<and> gf_possible w \<or> q = 2 \<and> (\<forall>n. u n 1)"
  shows "product_run tt_sem (gf_product w) r u (\<lambda>n. if n = 0 then 0 else 3 * r n + q)"
proof -
  have r0: "r 0 = 0" using w by (simp add: word_run_def)
  have q3: "q < 3" "q \<noteq> 0" using q by auto
  have dst: "r (Suc n) \<in> we_dst ` set (w_edges w)" for n
    using w unfolding word_run_def by (metis image_eqI)
  have out: "\<exists>e\<in>set (p_out (gf_product w) (if n = 0 then 0 else 3 * r n + q)).
      pe_dst e = 3 * r (Suc n) + q \<and> tt_sem (pe_cond e) (u n)" for n
  proof -
    obtain e where e: "e \<in> set (w_edges w)" "we_src e = r n" "we_dst e = r (Suc n)" "tt_sem (we_cond e) (u n)"
      using w by (auto simp: word_run_def)
    have "tt_sem (tt_and (we_cond e) (bdd_ithvar tt_ops 1)) (u n)" if "u n 1"
      using e(4) that by (cases "we_cond e") (auto simp: tt_ops_def)
    then have "\<exists>pe\<in>set (gf_edges (if n = 0 then 0 else q) e).
        pe_dst pe = 3 * r (Suc n) + q \<and> tt_sem (pe_cond pe) (u n)"
      using q e by (auto simp: gf_edges_def Let_def)
    then show ?thesis using e r0 q3 by (auto simp: gf_product_def intro!: exI[of _ e])
  qed
  have st: "3 * r n + q \<in> (\<lambda>e. 3 * we_dst e + q) ` set (w_edges w)" if "n \<noteq> 0" for n
    using dst[of "n - 1"] that by (auto simp: image_iff) 
  have core: "fst (product_states (gf_product w) (if n = 0 then 0 else 3 * r n + q)) = r n"
    "is_useful_state (gf_product w) (if n = 0 then 0 else 3 * r n + q)"
    "scc_of (gf_product w) (if n = 0 then 0 else 3 * r n + q) < scc_count (gf_product w)"
    "is_useful_scc (gf_product w) (scc_of (gf_product w) (if n = 0 then 0 else 3 * r n + q))"
    "(if n = 0 then 0 else 3 * r n + q)
       \<in> set (states_of (gf_product w) (scc_of (gf_product w) (if n = 0 then 0 else 3 * r n + q)))" for n
    using r0 q q3 st[of n] by (auto simp: gf_product_def)
  have acc: "\<forall>n\<ge>1. is_accepting_scc (gf_product w) (scc_of (gf_product w) (if n = 0 then 0 else 3 * r n + q))"
    using q by (auto simp: gf_product_def)
  have "p_init (gf_product w) = 0" by (simp add: gf_product_def)
  then show ?thesis
    unfolding product_run_def using core out acc by (intro conjI allI exI[of _ 1]) simp_all
qed

lemma gf_spot_sound: "spot_product_sound tt_sem gf_spot gf_accepts"
proof -
  have "\<exists>\<pi>. product_run tt_sem (gf_product w) r u \<pi>" if "gf_accepts A u" "word_run tt_sem w r u" for w A r u
  proof (cases "\<forall>n. \<exists>m\<ge>n. u m 0")
    case True
    then show ?thesis using gf_run[OF that(2), of 1] gf_possible_if[OF that(2)] by blast
  next
    case False
    then show ?thesis using gf_run[OF that(2), of 2] that(1) by (auto simp: gf_accepts_def)
  qed
  then show ?thesis by (simp add: spot_product_sound_def gf_spot_def)
qed


subsection \<open>Two small problems\<close>

text \<open>
  Problems over the propositions \<open>a\<close> and \<open>b\<close>: \<open>a\<close> at step \<open>j\<close> is variable \<open>j + 1\<close>, \<open>b\<close> at step
  \<open>j\<close> variable \<open>K + 2 + j\<close>, and the loop literals follow.
\<close>

definition ab_oracle :: "nat \<Rightarrow> int list \<Rightarrow> (unit, table) bmc_oracle" where
  "ab_oracle K trail =
     (initial_oracle ())\<lparr>current_trail := [trail], bound_K := int K,
       init_box_done := True, numb_clauses := [0, 0, 0, 0], size_clauses := [0, 0, 0, 0],
       rename_lit_loop := map (\<lambda>i. int (2 * K + 3 + i)) [0..<K],
       variable_by_step :=
         map (\<lambda>j. [''a'' \<mapsto> int (j + 1), ''b'' \<mapsto> int (K + 2 + j)]) [0..<K + 1],
       info_variables :=
         default_var_info #
         map (\<lambda>j. \<lparr>num_step = int j, property = True, vname = ''a''\<rparr>) [0..<K + 1] @
         map (\<lambda>j. \<lparr>num_step = int j, property = True, vname = ''b''\<rparr>) [0..<K + 1] @
         map (\<lambda>i. \<lparr>num_step = int i, property = True, vname = ''loop''\<rparr>) [0..<K]\<rparr>"

lemma ab1_run:
  "map_outcome new_clauses (evaluate_assignment tt_ops gf_spot (ab_oracle 1 [-1])) =
     Ret [[1, 3, 1], [- 1, 3, 1], [- 1, - 3, 1]]"
  by code_simp

lemma ab2_run:
  "map_outcome new_clauses (evaluate_assignment tt_ops gf_spot (ab_oracle 2 [-2])) =
     Ret [[1, 4, 2], [- 1, 4, 2], [- 2, 5, 2, - 7], [- 2, - 5, 2, - 7],
          [2, 5, 2, - 8], [- 2, 5, 2, - 8], [- 2, - 5, 2, - 8]]"
  by code_simp

lemma ab1_constraints: "loop_constraints tt_ops gf_spot (ab_oracle 1 [-1]) 0 = Ret [TT False True False False]"
  by code_simp

lemma map_outcome_Ret: "map_outcome f x = Ret y \<Longrightarrow> \<exists>a. x = Ret a \<and> f a = y"
  by (cases x) auto

lemma ab_tables:
  "oracle_tables gf_spot {0, 1} (ab_oracle 1 [-1])" "oracle_tables gf_spot {0, 1} (ab_oracle 2 [-2])"
  by (simp_all add: oracle_tables_def ab_oracle_def gf_spot_def initial_oracle_def less_Suc_eq_le
      le_Suc_eq upt_rec numeral_2_eq_2 all_conj_distrib numeral_nat)


definition ab1_model :: assignment where
  "ab1_model x = (x \<in> {3, 5})"

definition ab2_model :: assignment where
  "ab2_model x = (x \<in> {1, 7})"

lemma ab1_accepted: "accepted_lassos gf_spot gf_accepts (ab_oracle 1 [-1]) ab1_model"
proof -
  have "lasso_pos (Suc 0) 0 n = 0" for n using lasso_pos_less[of 0 "Suc 0" n] by simp
  then show ?thesis
    by (simp add: accepted_lassos_def ab_oracle_def letter_of_def gf_spot_def gf_accepts_def
        initial_oracle_def ab1_model_def)
qed

lemma ab2_letter: "letter_of gf_spot (ab_oracle 2 [-2]) ab2_model 0 0"
  by (simp add: letter_of_def ab_oracle_def gf_spot_def initial_oracle_def ab2_model_def upt_rec)

lemma ab2_accepted: "accepted_lassos gf_spot gf_accepts (ab_oracle 2 [-2]) ab2_model"
proof -
  have "\<exists>m\<ge>n. lasso_pos 2 0 m = 0" for n
  proof -
    obtain m where "m \<ge> n" "lasso_pos 2 0 m = 1" using lasso_pos_reaches_last[of 0 2 n] by auto
    then have "Suc m \<ge> n" "lasso_pos 2 0 (Suc m) = 0" by simp_all
    then show ?thesis by blast
  qed
  then have "\<forall>n. \<exists>m\<ge>n. letter_of gf_spot (ab_oracle 2 [-2]) ab2_model (lasso_pos 2 0 m) 0"
    using ab2_letter by metis
  then show ?thesis
    by (auto simp: accepted_lassos_def gf_accepts_def ab_oracle_def initial_oracle_def ab2_model_def
        less_2_cases_iff upt_rec lit_true_def)
qed


text \<open>
  \<^bold>\<open>C10\<close> (\<open>evaluate_assignment\<close>).  Every clause that a call adds holds in every assignment whose
  selected lassos the LTL automaton accepts: no counterexample of the problem is excluded.
  The loop literal of some target is true, as the encoding of the problem demands, and no
  constraint computed in this call is the constant true.
\<close>

theorem evaluate_assignment_sound:
  assumes "bdd_package bdd sem V" and "spot_product_sound sem spot accepts"
    and "oracle_tables spot V orc" and "bound_K orc = int K" "0 < K"
    and "K \<le> length (rename_lit_loop orc)"
    and "accepted_lassos spot accepts orc \<tau>"
    and "i < K" "lit_true \<tau> (rename_lit_loop orc ! i)"
    and "\<And>i. i < K \<Longrightarrow> rename_lit_loop orc ! i \<noteq> 0 \<Longrightarrow> bddtrue bdd \<notin> set (loop_cs bdd spot orc i)"
    and "evaluate_assignment bdd spot orc = Ret orc'"
  shows "\<exists>added. new_clauses orc' = new_clauses orc @ added \<and> list_all (clause_true \<tau>) added"
  using evaluate_assignment_extends[OF assms] .

theorem evaluate_assignment_sound_witness:
  "\<exists>orc'. evaluate_assignment tt_ops gf_spot (ab_oracle 1 [-1]) = Ret orc' \<and>
     new_clauses orc' \<noteq> [] \<and> list_all (clause_true ab1_model) (new_clauses orc')"
proof -
  obtain orc' where r: "evaluate_assignment tt_ops gf_spot (ab_oracle 1 [-1]) = Ret orc'"
    and ne: "new_clauses orc' \<noteq> []" using map_outcome_Ret[OF ab1_run] by auto
  have "loop_cs tt_ops gf_spot (ab_oracle 1 [-1]) 0 = [TT False True False False]"
    by (simp only: loop_cs_def ab1_constraints outcome.case)
  then have nt: "bddtrue tt_ops \<notin> set (loop_cs tt_ops gf_spot (ab_oracle 1 [-1]) i)" if "i < 1" for i
    using that by (simp add: tt_ops_def)
  have "new_clauses (ab_oracle 1 [-1]) = []" by (simp add: ab_oracle_def initial_oracle_def)
  then show ?thesis
    using evaluate_assignment_sound[where i = 0, OF tt_package gf_spot_sound ab_tables(1) _ _ _ ab1_accepted _ _ nt r] r ne
    by (simp add: ab_oracle_def ab1_model_def)
qed

text \<open>
  \<^bold>\<open>C11\<close> (\<open>evaluate_assignment\<close>).  Without the last condition the clauses are not sound: \<^verbatim>\<open>bddtrue\<close>
  stands both for the constraint true and for a combined formula that has not been set, so a
  target whose constraint is true does not take part in the combination, and the clause of the
  other targets, added without a loop literal, excludes an accepted lasso.
\<close>

theorem evaluate_assignment_excludes_accepted_lasso:
  "\<exists>orc' c. bdd_package tt_ops tt_sem {0, 1} \<and> spot_product_sound tt_sem gf_spot gf_accepts \<and>
     oracle_tables gf_spot {0, 1} (ab_oracle 2 [-2]) \<and>
     accepted_lassos gf_spot gf_accepts (ab_oracle 2 [-2]) ab2_model \<and>
     lit_true ab2_model (rename_lit_loop (ab_oracle 2 [-2]) ! 0) \<and>
     evaluate_assignment tt_ops gf_spot (ab_oracle 2 [-2]) = Ret orc' \<and>
     c \<in> set (new_clauses orc') \<and> \<not> clause_true ab2_model c"
proof -
  obtain orc' where r: "evaluate_assignment tt_ops gf_spot (ab_oracle 2 [-2]) = Ret orc'"
    and c: "[- 1, 4, 2] \<in> set (new_clauses orc')" using map_outcome_Ret[OF ab2_run] by auto
  have "\<not> clause_true ab2_model [- 1, 4, 2]" by (simp add: ab2_model_def)
  moreover have "lit_true ab2_model (rename_lit_loop (ab_oracle 2 [-2]) ! 0)"
    by (simp add: ab_oracle_def ab2_model_def upt_rec)
  ultimately show ?thesis using tt_package gf_spot_sound ab_tables(2) ab2_accepted r c by blast
qed

subsection \<open>Empty intersections\<close>

lemma push_clause_numb:
  "kind \<noteq> EMPTY_INTERSECT \<Longrightarrow> numb_clauses (push_clause kind cls orc) ! 0 = numb_clauses orc ! 0"
  by (cases kind) (simp_all add: push_clause_def Let_def)

lemma add_edge_loop_clauses_numb:
  assumes "add_edge_loop_clauses bdd spot f j loop orc = Ret orc'"
  shows "numb_clauses orc' ! 0 = numb_clauses orc ! 0"
proof (cases "f = bddtrue bdd")
  case False
  then have f: "ofold (add_cube_clause bdd spot j loop) orc (minato_isop bdd (bdd_not bdd f)) = Ret orc'"
    using assms by (simp add: add_edge_loop_clauses_def)
  show ?thesis
    by (rule ofold_invariant[OF f, of "\<lambda>x. numb_clauses x ! 0 = numb_clauses orc ! 0"])
      (auto simp: add_cube_clause_def Let_def obind_eq_Ret push_clause_numb split: if_splits)
qed (use assms in \<open>simp add: add_edge_loop_clauses_def\<close>)



end
