(* ===== verification/Bmc_Oracle.thy ===== *)
theory Bmc_Oracle
  imports Smv_Head Bmc_Instance "HOL-Library.List_Lexorder" "HOL-Library.Char_ord"
begin

text \<open>
  The propagator interface of the BMC oracle: \<^verbatim>\<open>init_spot\<close> of \<^verbatim>\<open>src/BMCOracle.cpp\<close> and the
  notifications and callbacks of \<^verbatim>\<open>src/BMCOracle.hpp\<close>, followed by the oracle as a state
  machine driven by the solver's notifications.

  Assertions are compiled out, as in the default build; API contracts are kept.  Where the
  code iterates over a \<^verbatim>\<open>std::unordered_set\<close>, whose order the standard leaves open, the order
  is a parameter.
\<close>

record hash_order =
  set_begin :: "int set \<Rightarrow> int"
  names_order :: "string list \<Rightarrow> string list"

subsection \<open>The map of unassigned variables\<close>

text \<open>A \<^verbatim>\<open>std::map\<close> keyed by names, as an association list in increasing key order.\<close>

fun smap_put :: "string \<Rightarrow> 'v \<Rightarrow> (string \<times> 'v) list \<Rightarrow> (string \<times> 'v) list" where
  "smap_put k v [] = [(k, v)]"
| "smap_put k v ((k', v') # m) =
     (if k < k' then (k, v) # (k', v') # m
      else if k = k' then (k, v) # m
      else (k', v') # smap_put k v m)"

definition unassigned_of :: "(string \<times> int set) list \<Rightarrow> string \<Rightarrow> int set" where
  "unassigned_of m k = (case map_of m k of Some s \<Rightarrow> s | None \<Rightarrow> {})"

text \<open>\<^verbatim>\<open>unassigned_vars[k].erase (v)\<close> and \<^verbatim>\<open>unassigned_vars[k].insert (v)\<close>.\<close>

definition unassigned_erase :: "string \<Rightarrow> int \<Rightarrow> (string \<times> int set) list \<Rightarrow> (string \<times> int set) list" where
  "unassigned_erase k v m = smap_put k (unassigned_of m k - {v}) m"

definition unassigned_insert :: "string \<Rightarrow> int \<Rightarrow> (string \<times> int set) list \<Rightarrow> (string \<times> int set) list" where
  "unassigned_insert k v m = smap_put k (insert v (unassigned_of m k)) m"

subsection \<open>Notifications\<close>

definition has_lit :: "int list list \<Rightarrow> int \<Rightarrow> bool" where
  "has_lit curr_trail lit = list_ex (\<lambda>level_lits. lit \<in> set level_lits) curr_trail"

text \<open>
  \<^verbatim>\<open>c * 100. / n <= b\<close> and \<^verbatim>\<open>c * 100. / n >= b\<close> in double precision, for \<^verbatim>\<open>int\<close> arguments and
  a percentage \<open>b\<close>.  The product is exact and the quotient, when it is not \<open>b\<close>, differs from \<open>b\<close>
  by more than the rounding error.  Division by zero gives an infinity of the sign of \<open>c\<close>, or
  not-a-number, for which every comparison is false.
\<close>

definition percent_le :: "int \<Rightarrow> int \<Rightarrow> int \<Rightarrow> bool" where
  "percent_le c n b = (if n = 0 then c < 0 else if n > 0 then 100 * c \<le> b * n else b * n \<le> 100 * c)"

definition percent_ge :: "int \<Rightarrow> int \<Rightarrow> int \<Rightarrow> bool" where
  "percent_ge c n b = (if n = 0 then c > 0 else if n > 0 then b * n \<le> 100 * c else 100 * c \<le> b * n)"

definition remove_aps :: "hash_order \<Rightarrow> ('a, 'b) spot_ops \<Rightarrow> ('a, 'b) bmc_oracle \<Rightarrow> ('a, 'b) bmc_oracle" where
  "remove_aps ho spot orc =
     (if ap_to_rm orc = [] then orc
      else let aut = foldl (\<lambda>aut ap. unregister_ap spot aut (has_registered_proposition spot aut ap))
                       (ltl_aut orc) (names_order ho (ap_to_rm orc))
           in orc\<lparr>ltl_aut := remove_unused_ap spot (purge_dead_states spot aut), ap_to_rm := []\<rparr>)"

definition push_trail :: "int \<Rightarrow> bool \<Rightarrow> int list list \<Rightarrow> int list list outcome" where
  "push_trail lit is_fixed trail =
     (if trail = [] then UB
      else if is_fixed then Ret ((hd trail @ [lit]) # tl trail)
      else Ret (butlast trail @ [last trail @ [lit]]))"

text \<open>Whether it is worth running the oracle on the current assignment.\<close>

definition run_filter :: "('a, 'b) bmc_oracle \<Rightarrow> bool" where
  "run_filter orc =
     (let result = curr_trail_sz orc - prev_trail_sz orc
      in result \<ge> 0 \<and> percent_le (curr_trail_sz orc) (nb_property_variable orc) 30 \<and>
         (prev_trail_sz orc = 0 \<or>
          percent_ge result (nb_property_variable orc) 5 \<and> percent_le result (nb_property_variable orc) 10))"

definition notify_assignment ::
  "hash_order \<Rightarrow> 'b bdd_ops \<Rightarrow> ('a, 'b) spot_ops \<Rightarrow> int \<Rightarrow> bool \<Rightarrow> ('a, 'b) bmc_oracle \<Rightarrow>
   ('a, 'b) bmc_oracle outcome" where
  "notify_assignment ho bdd spot lit is_fixed orc =
     obind (vec_get (info_variables orc) \<bar>lit\<bar>) (\<lambda>vi.
     let var_name = vname vi;
         orc1 = orc\<lparr>curr_trail_sz := curr_trail_sz orc + 1,
                    unassigned_vars := unassigned_erase var_name \<bar>lit\<bar> (unassigned_vars orc)\<rparr>;
         root = is_fixed \<and> length (current_trail orc1) = 1;
         count = (case assignment_counter orc1 var_name of Some n \<Rightarrow> n | None \<Rightarrow> 0) + 1;
         orc2 = (if root then orc1\<lparr>assignment_counter := (assignment_counter orc1)(var_name \<mapsto> count)\<rparr>
                 else orc1)
     in if root \<and> count = bound_K orc2
        then Ret (orc2\<lparr>ap_to_rm := List.insert var_name (ap_to_rm orc2),
                       info_variables := (info_variables orc2)[nat \<bar>lit\<bar> := vi\<lparr>property := False\<rparr>],
                       nb_property_variable := nb_property_variable orc2 - bound_K orc2,
                       nb_model_variable := nb_model_variable orc2 + bound_K orc2\<rparr>)
        else
        obind (push_trail lit is_fixed (current_trail orc2)) (\<lambda>trail.
        let orc3 = orc2\<lparr>current_trail := trail\<rparr>
        in if \<not> init_box_done orc3 then Ret orc3
           else let orc4 = remove_aps ho spot orc3
                in if run_filter orc4
                   then obind (evaluate_assignment bdd spot orc4) (\<lambda>orc5.
                          Ret (orc5\<lparr>prev_trail_sz := curr_trail_sz orc5\<rparr>))
                   else Ret orc4))"

definition notify_new_decision_level :: "('a, 'b) bmc_oracle \<Rightarrow> ('a, 'b) bmc_oracle" where
  "notify_new_decision_level orc = orc\<lparr>current_trail := current_trail orc @ [[]]\<rparr>"

definition unassign_lit ::
  "var_info list \<Rightarrow> (string \<times> int set) list \<Rightarrow> int \<Rightarrow> (string \<times> int set) list outcome" where
  "unassign_lit infos m v =
     obind (vec_get infos \<bar>v\<bar>) (\<lambda>vi. Ret (unassigned_insert (vname vi) \<bar>v\<bar> m))"

function notify_backtrack :: "nat \<Rightarrow> ('a, 'b) bmc_oracle \<Rightarrow> ('a, 'b) bmc_oracle outcome" where
  "notify_backtrack new_level orc =
     (if length (current_trail orc) > new_level + 1
      then let last_lvl = last (current_trail orc)
           in obind (ofold (unassign_lit (info_variables orc)) (unassigned_vars orc) last_lvl) (\<lambda>m.
                notify_backtrack new_level
                  (orc\<lparr>curr_trail_sz := curr_trail_sz orc - int (length last_lvl),
                       unassigned_vars := m,
                       current_trail := butlast (current_trail orc)\<rparr>))
      else Ret orc)"
  by pat_completeness auto
termination by (relation "measure (\<lambda>(n, orc). length (current_trail orc))") auto


declare notify_backtrack.simps [simp del]

subsection \<open>Callbacks\<close>

definition cb_check_found_model :: "int list \<Rightarrow> bool" where
  "cb_check_found_model model = True"

definition cb_has_external_clause :: "('a, 'b) bmc_oracle \<Rightarrow> bool" where
  "cb_has_external_clause orc = (new_clauses orc \<noteq> [])"

definition cb_add_external_clause_lit :: "('a, 'b) bmc_oracle \<Rightarrow> int \<times> ('a, 'b) bmc_oracle" where
  "cb_add_external_clause_lit orc =
     (if new_clauses orc = [] then (0, orc)
      else let lastClause = last (new_clauses orc)
           in if lastClause = [] then (0, orc\<lparr>new_clauses := butlast (new_clauses orc)\<rparr>)
              else (last lastClause,
                    orc\<lparr>new_clauses := butlast (new_clauses orc) @ [butlast lastClause]\<rparr>))"

text \<open>The name with the fewest unassigned variables, the first one among equals.\<close>

definition min_unassigned :: "(string \<times> int set) list \<Rightarrow> string" where
  "min_unassigned m =
     foldl (\<lambda>best e. if card (unassigned_of m (fst e)) < card (unassigned_of m best) then fst e else best)
       (fst (hd m)) m"

definition cb_decide :: "hash_order \<Rightarrow> ('a, 'b) bmc_oracle \<Rightarrow> int outcome" where
  "cb_decide ho orc =
     (if unassigned_vars orc = [] then Ret 0
      else let s = unassigned_of (unassigned_vars orc) (min_unassigned (unassigned_vars orc))
           in if s = {} then UB else Ret (set_begin ho s))"

definition cb_propagate :: int where
  "cb_propagate = 0"

definition cb_add_reason_clause_lit :: "int \<Rightarrow> int" where
  "cb_add_reason_clause_lit plit = 0"

subsection \<open>Initialisation\<close>

text \<open>
  \<^verbatim>\<open>Solver::add_observed_var\<close>, as far as the oracle is concerned: the contract on the literal,
  and the notification the solver sends at once for a variable that has a fixed value when it is
  observed for the first time (\<^verbatim>\<open>External::add_observed_var\<close>).  \<open>fixed v\<close> is the root value of \<open>v\<close>.
\<close>

definition observe ::
  "hash_order \<Rightarrow> 'b bdd_ops \<Rightarrow> ('a, 'b) spot_ops \<Rightarrow> (int \<Rightarrow> int) \<Rightarrow> int \<Rightarrow>
   ('a, 'b) bmc_oracle \<times> int list \<Rightarrow> (('a, 'b) bmc_oracle \<times> int list) outcome" where
  "observe ho bdd spot fixed var st =
     (case st of (orc, observed) \<Rightarrow>
       if var = 0 then Abort
       else if var \<in> set observed then Ret (orc, observed)
       else if fixed var = 0 then Ret (orc, observed @ [var])
       else obind (notify_assignment ho bdd spot (if fixed var < 0 then - var else var) True orc)
              (\<lambda>orc'. Ret (orc', observed @ [var])))"

definition init_variable ::
  "hash_order \<Rightarrow> 'b bdd_ops \<Rightarrow> ('a, 'b) spot_ops \<Rightarrow> (int \<Rightarrow> int) \<Rightarrow>
   ('a, 'b) bmc_oracle \<times> int list \<Rightarrow> nat \<Rightarrow> (('a, 'b) bmc_oracle \<times> int list) outcome" where
  "init_variable ho bdd spot fixed st var =
     (case st of (orc, observed) \<Rightarrow>
       let vf = info_variables orc ! var
       in if vname vf = [] then Ret (orc, observed)
          else
          obind (vec_get (variable_by_step orc) (num_step vf)) (\<lambda>m.
          obind (vec_set (variable_by_step orc) (num_step vf)
                   (if m (vname vf) = None then m(vname vf \<mapsto> int var) else m)) (\<lambda>vbs.
          let orc1 = orc\<lparr>assignment_counter :=
                             (if assignment_counter orc (vname vf) = None
                              then (assignment_counter orc)(vname vf \<mapsto> 0) else assignment_counter orc),
                         unassigned_vars := smap_put (vname vf) {} (unassigned_vars orc),
                         variable_by_step := vbs\<rparr>
          in if str_contains (vname vf) ''loop''
             then observe ho bdd spot fixed (int var)
                    (orc1\<lparr>info_variables := (info_variables orc1)[var := (info_variables orc1 ! var)\<lparr>property := True\<rparr>]\<rparr>,
                     observed)
             else Ret (orc1, observed))))"

definition init_property ::
  "hash_order \<Rightarrow> 'b bdd_ops \<Rightarrow> ('a, 'b) spot_ops \<Rightarrow> (int \<Rightarrow> int) \<Rightarrow>
   ('a, 'b) bmc_oracle \<times> int list \<Rightarrow> nat \<times> string \<Rightarrow> (('a, 'b) bmc_oracle \<times> int list) outcome" where
  "init_property ho bdd spot fixed st key =
     (case (st, key) of ((orc, observed), (step, name)) \<Rightarrow>
       obind (vec_get (variable_by_step orc) (int step)) (\<lambda>m.
       case map_index m name of (var, m') \<Rightarrow>
       obind (vec_set (variable_by_step orc) (int step) m') (\<lambda>vbs.
       obind (vec_get (info_variables orc) var) (\<lambda>vi.
       obind (vec_set (info_variables orc) var (vi\<lparr>property := True\<rparr>)) (\<lambda>infos.
       observe ho bdd spot fixed var
         (orc\<lparr>variable_by_step := vbs, info_variables := infos,
              nb_property_variable := nb_property_variable orc + 1,
              nb_model_variable := nb_model_variable orc - 1\<rparr>, observed))))))"

definition init_spot ::
  "hash_order \<Rightarrow> 'b bdd_ops \<Rightarrow> ('a, 'b) spot_ops \<Rightarrow> (int \<Rightarrow> int) \<Rightarrow> ('a, 'b) bmc_oracle \<Rightarrow>
   (('a, 'b) bmc_oracle \<times> int list) outcome" where
  "init_spot ho bdd spot fixed orc =
     (let loops = int (length (rename_lit_loop orc));
          orc1 = orc\<lparr>nb_property_variable := loops,
                     nb_model_variable := nb_model_variable orc - loops,
                     numb_clauses := resize 4 0 (numb_clauses orc),
                     size_clauses := resize 4 0 (size_clauses orc)\<rparr>
      in if bound_K orc1 + 1 < 0 then Throw
         else
         let orc2 = orc1\<lparr>variable_by_step :=
                           resize (nat (bound_K orc1 + 1)) Map.empty (variable_by_step orc1)\<rparr>
         in case parse_and_translate spot (ltlspec orc2) of
              None \<Rightarrow> Exit 1
            | Some aut \<Rightarrow>
                let orc3 = orc2\<lparr>ltl_aut := aut\<rparr>
                in obind (ofold (init_variable ho bdd spot fixed) (orc3, [])
                            [nat (first_var orc3)..<length (info_variables orc3)]) (\<lambda>st.
                   obind (ofold (init_property ho bdd spot fixed) st
                            (concat (map (\<lambda>step. map (Pair step) (aut_aps spot aut))
                               [0..<nat (bound_K orc3 + 1)]))) (\<lambda>(orc4, observed).
                   Ret (orc4\<lparr>init_box_done := True, enable_edge_loop_cond := True,
                             enable_intersection := True\<rparr>, observed))))"


definition new_BMCOracle ::
  "hash_order \<Rightarrow> 'b bdd_ops \<Rightarrow> ('a, 'b) spot_ops \<Rightarrow> (int \<Rightarrow> int) \<Rightarrow> 'a \<Rightarrow> string \<Rightarrow>
   (('a, 'b) bmc_oracle \<times> int list) outcome" where
  "new_BMCOracle ho bdd spot fixed null_aut file =
     (case readHeadFile (initial_oracle null_aut) file of
        None \<Rightarrow> Diverge
      | Some r \<Rightarrow> obind r (init_spot ho bdd spot fixed))"

subsection \<open>The map of unassigned variables\<close>

lemma map_of_smap_put: "map_of (smap_put k v m) = (map_of m)(k \<mapsto> v)"
  by (induction m) auto

lemma unassigned_of_put [simp]: "unassigned_of (smap_put k v m) k' = (if k' = k then v else unassigned_of m k')"
  by (simp add: unassigned_of_def map_of_smap_put)

lemma unassigned_of_erase [simp]:
  "unassigned_of (unassigned_erase k v m) k' = unassigned_of m k' - (if k' = k then {v} else {})"
  by (auto simp: unassigned_erase_def)

lemma unassigned_of_insert [simp]:
  "unassigned_of (unassigned_insert k v m) k' = (if k' = k then insert v (unassigned_of m k') else unassigned_of m k')"
  by (auto simp: unassigned_insert_def)

lemma smap_put_not_Nil [simp]: "smap_put k v m \<noteq> []"
  by (cases m) (auto split: if_splits)

lemma unassigned_of_mem: "distinct (map fst m) \<Longrightarrow> (k, s) \<in> set m \<Longrightarrow> unassigned_of m k = s"
  by (simp add: unassigned_of_def)

lemma foldl_min:
  fixes f :: "'k \<Rightarrow> nat" and m :: "('k \<times> 'v) list"
  defines "pick \<equiv> \<lambda>best e. if f (fst e) < f best then fst e else best"
  assumes "b \<in> K" "fst ` set m \<subseteq> K"
  shows "foldl pick b m \<in> K \<and> f (foldl pick b m) \<le> f b \<and> (\<forall>e\<in>set m. f (foldl pick b m) \<le> f (fst e))"
  using assms(2,3)
proof (induction m arbitrary: b)
  case (Cons e m)
  have "pick b e \<in> K" "f (pick b e) \<le> f b" "f (pick b e) \<le> f (fst e)"
    using Cons.prems by (auto simp: pick_def)
  then show ?case using Cons.IH[of "pick b e"] Cons.prems by (auto intro: order_trans)
qed simp

lemma min_unassigned_minimal:
  assumes "m \<noteq> []"
  shows "min_unassigned m \<in> fst ` set m"
    "e \<in> set m \<Longrightarrow> card (unassigned_of m (min_unassigned m)) \<le> card (unassigned_of m (fst e))"
  using foldl_min[of "fst (hd m)" "fst ` set m" m "\<lambda>k. card (unassigned_of m k)"] assms
  by (auto simp: min_unassigned_def Let_def)

subsection \<open>Reading clauses\<close>

fun read_lits :: "nat \<Rightarrow> ('a, 'b) bmc_oracle \<Rightarrow> int list \<times> ('a, 'b) bmc_oracle" where
  "read_lits 0 orc = ([], orc)"
| "read_lits (Suc n) orc =
     (let (l, orc') = cb_add_external_clause_lit orc; (ls, orc'') = read_lits n orc' in (l # ls, orc''))"

lemma read_lits_add:
  "read_lits (m + n) orc =
     (let (ls, orc') = read_lits m orc; (ls', orc'') = read_lits n orc' in (ls @ ls', orc''))"
  by (induction m arbitrary: orc) (auto simp: Let_def split: prod.splits)

lemma read_lits_clause:
  "new_clauses orc = cs @ [c] \<Longrightarrow>
   read_lits (Suc (length c)) orc = (rev c @ [0], orc\<lparr>new_clauses := cs\<rparr>)"
proof (induction c arbitrary: orc rule: rev_induct)
  case (snoc l c)
  have "cb_add_external_clause_lit orc = (l, orc\<lparr>new_clauses := cs @ [c]\<rparr>)"
    using snoc.prems by (simp add: cb_add_external_clause_lit_def Let_def)
  then show ?case using snoc.IH[of "orc\<lparr>new_clauses := cs @ [c]\<rparr>"] by simp
qed (simp add: cb_add_external_clause_lit_def)

text \<open>
  \<^bold>\<open>C21\<close> (\<open>cb_add_external_clause_lit\<close>).  Called once for every literal and once more for
  every clause, the callback delivers all queued clauses, the last one first, each one reversed
  and ended by zero, and leaves the queue empty.
\<close>

theorem cb_clause_stream:
  "read_lits (sum_list (map (\<lambda>c. Suc (length c)) (new_clauses orc))) orc =
     (concat (map (\<lambda>c. rev c @ [0]) (rev (new_clauses orc))), orc\<lparr>new_clauses := []\<rparr>)"
proof (induction "new_clauses orc" arbitrary: orc rule: rev_induct)
  case (snoc c cs)
  let ?o = "orc\<lparr>new_clauses := cs\<rparr>"
  have eq: "new_clauses orc = cs @ [c]" using snoc.hyps(2) by simp
  have IH: "read_lits (sum_list (map (\<lambda>c. Suc (length c)) cs)) ?o =
      (concat (map (\<lambda>c. rev c @ [0]) (rev cs)), ?o\<lparr>new_clauses := []\<rparr>)"
    using snoc.hyps(1)[of ?o] by simp
  show ?case
    using read_lits_clause[OF eq] IH
      read_lits_add[of "Suc (length c)" "sum_list (map (\<lambda>c. Suc (length c)) cs)" orc]
    by (simp add: eq add.commute)
qed simp

subsection \<open>Backtracking\<close>

lemma unassign_lit_eq:
  "unassign_lit infos m v =
     (if nat \<bar>v\<bar> < length infos
      then Ret (unassigned_insert (vname (infos ! nat \<bar>v\<bar>)) \<bar>v\<bar> m) else UB)"
  by (auto simp: unassign_lit_def vec_get_def)

lemma unassign_lits:
  "ofold (unassign_lit infos) m lvl = Ret m' \<Longrightarrow>
   unassigned_of m' k = unassigned_of m k \<union> {\<bar>l\<bar> |l. l \<in> set lvl \<and> vname (infos ! nat \<bar>l\<bar>) = k}"
proof (induction lvl arbitrary: m)
  case (Cons l lvl)
  have "ofold (unassign_lit infos) (unassigned_insert (vname (infos ! nat \<bar>l\<bar>)) \<bar>l\<bar> m) lvl = Ret m'"
    using Cons.prems by (auto simp: unassign_lit_eq[of infos m l] split: if_splits)
  then show ?case using Cons.IH by auto
qed simp

lemma unassign_lits_Ret:
  assumes "\<forall>l\<in>set lvl. nat \<bar>l\<bar> < length infos"
  shows "\<exists>m'. ofold (unassign_lit infos) m lvl = Ret m'"
  using assms by (induction lvl arbitrary: m) (auto simp: unassign_lit_eq)

lemma notify_backtrack_result:
  assumes "\<forall>l\<in>set (concat (current_trail orc)). nat \<bar>l\<bar> < length (info_variables orc)"
  shows "\<exists>m. notify_backtrack n orc =
      Ret (orc\<lparr>curr_trail_sz := curr_trail_sz orc - int (length (concat (drop (Suc n) (current_trail orc)))),
               unassigned_vars := m, current_trail := take (Suc n) (current_trail orc)\<rparr>) \<and>
    (\<forall>k. unassigned_of m k = unassigned_of (unassigned_vars orc) k \<union>
       {\<bar>l\<bar> |l. l \<in> set (concat (drop (Suc n) (current_trail orc))) \<and> vname (info_variables orc ! nat \<bar>l\<bar>) = k})"
  using assms
proof (induction n orc rule: notify_backtrack.induct)
  case (1 n orc)
  show ?case
  proof (cases "length (current_trail orc) > n + 1")
    case False
    then show ?thesis by (subst notify_backtrack.simps) (auto intro!: exI[of _ "unassigned_vars orc"])
  next
    case True
    then obtain ls lvl where tr: "current_trail orc = ls @ [lvl]" and len: "n < length ls"
      by (cases "current_trail orc" rule: rev_cases) auto
    obtain m1 where m1: "ofold (unassign_lit (info_variables orc)) (unassigned_vars orc) lvl = Ret m1"
      using unassign_lits_Ret[of lvl "info_variables orc" "unassigned_vars orc"] "1.prems" tr by auto
    let ?o = "orc\<lparr>curr_trail_sz := curr_trail_sz orc - int (length lvl), unassigned_vars := m1, current_trail := ls\<rparr>"
    have b: "notify_backtrack n orc = notify_backtrack n ?o"
      using True tr m1 by (subst notify_backtrack.simps) simp
    obtain m where m: "notify_backtrack n ?o =
        Ret (?o\<lparr>curr_trail_sz := curr_trail_sz ?o - int (length (concat (drop (Suc n) ls))),
               unassigned_vars := m, current_trail := take (Suc n) ls\<rparr>)"
      "\<forall>k. unassigned_of m k = unassigned_of m1 k \<union>
       {\<bar>l\<bar> |l. l \<in> set (concat (drop (Suc n) ls)) \<and> vname (info_variables orc ! nat \<bar>l\<bar>) = k}"
      using "1.IH"[OF True _ m1] "1.prems" tr by auto
    show ?thesis
      using b m unassign_lits[OF m1] tr len by (intro exI[of _ m]) auto
  qed
qed


subsection \<open>What an evaluation leaves alone\<close>

definition trail_core :: "('a, 'b) bmc_oracle \<Rightarrow> ('a, 'b) bmc_oracle" where
  "trail_core orc =
     orc\<lparr>new_clauses := [], added_clauses := 0, numb_clauses := [], size_clauses := [], word_aut := None,
         edges_id := [], num_edge_loop := 0, variable_by_step := [], numb_call := 0\<rparr>"

lemma trail_core_fields:
  "trail_core orc' = trail_core orc \<Longrightarrow>
     current_trail orc' = current_trail orc \<and> curr_trail_sz orc' = curr_trail_sz orc \<and>
     unassigned_vars orc' = unassigned_vars orc \<and> info_variables orc' = info_variables orc \<and>
     bound_K orc' = bound_K orc"
  by (cases orc, cases orc') (simp add: trail_core_def)

lemma trail_core_push [simp]: "trail_core (push_clause k cls orc) = trail_core orc"
  by (simp add: trail_core_def push_clause_def Let_def)

lemma ofold_core:
  assumes "ofold f orc xs = Ret orc'" and "\<And>o1 x o2. f o1 x = Ret o2 \<Longrightarrow> g o2 = g o1"
  shows "g orc' = g orc"
  by (rule ofold_invariant[OF assms(1), of "\<lambda>x. g x = g orc"]) (auto dest: assms(2))

lemma alpha_edge_core:
  assumes "alpha_edge conds loop new_aut st step = Ret st'"
  shows "trail_core (fst st') = trail_core (fst st)"
  using assms
  by (cases st) (auto simp: alpha_edge_def word_new_edge_def obind_eq_Ret trail_core_def split: if_splits)

lemma create_alpha_core:
  assumes "create_alpha_language_automaton bdd spot loop same orc = Ret orc'"
  shows "trail_core orc' = trail_core orc"
proof (cases "same \<and> (\<exists>w. word_aut orc = Some w)")
  case True
  then show ?thesis using assms
    by (auto simp: create_alpha_language_automaton_def obind_eq_Ret trail_core_def)
next
  case False
  define K w orc1 where "K = nat (bound_K orc)"
    and "w = (case word_aut orc of Some w \<Rightarrow> w | None \<Rightarrow> \<lparr>w_states = K, w_edges = []\<rparr>)"
    and "orc1 = (if word_aut orc = None then orc\<lparr>edges_id := resize K (- 1) (edges_id orc)\<rparr> else orc)"
  obtain conds st where st: "ofold (alpha_edge conds loop (word_aut orc = None)) (orc1, w) [0..<K] = Ret st"
    and o': "orc' = (fst st)\<lparr>word_aut := Some (snd st)\<rparr>"
    using False assms unfolding create_alpha_language_automaton_def Let_def K_def w_def orc1_def
    by (cases same; cases "word_aut orc") (auto simp: obind_eq_Ret split: if_splits)
  have "trail_core (fst st) = trail_core orc1"
    using ofold_core[OF st, of "\<lambda>s. trail_core (fst s)"] alpha_edge_core by fastforce
  then show ?thesis using o' by (simp add: orc1_def trail_core_def split: if_splits)
qed

lemma eval_loop_core:
  assumes "eval_loop bdd spot st i = Ret st'"
  shows "trail_core (fst st') = trail_core (fst st)"
  using assms by (cases st) (auto simp: eval_loop_def obind_eq_Ret dest: create_alpha_core split: if_splits)

lemma add_cube_core:
  "add_cube_clause bdd spot j loop orc c = Ret orc' \<Longrightarrow> trail_core orc' = trail_core orc"
  by (auto simp: add_cube_clause_def Let_def obind_eq_Ret split: if_splits) (auto simp: trail_core_def)

lemma add_edge_core:
  assumes "add_edge_loop_clauses bdd spot f j loop orc = Ret orc'"
  shows "trail_core orc' = trail_core orc"
  using assms by (auto simp: add_edge_loop_clauses_def split: if_splits
      elim!: ofold_core[where g = trail_core] dest: add_cube_core)

lemma combined_core: "combined_clause bdd spot a orc j = Ret orc' \<Longrightarrow> trail_core orc' = trail_core orc"
  by (auto simp: combined_clause_def split: if_splits dest: add_edge_core)

lemma loop_edge_core: "loop_edge_clause bdd spot a i orc j = Ret orc' \<Longrightarrow> trail_core orc' = trail_core orc"
  by (auto simp: loop_edge_clause_def split: if_splits dest: add_edge_core)

lemma loop_clauses_core:
  assumes "loop_clauses bdd spot a orc i = Ret orc'"
  shows "trail_core orc' = trail_core orc"
proof -
  have "trail_core orc1 = trail_core orc" if "add_alpha_loop_clause l orc = Ret orc1" for l orc1
    using that by (auto simp: add_alpha_loop_clause_def obind_eq_Ret)
  then show ?thesis using assms ofold_core[where g = trail_core, OF _ loop_edge_core]
    by (fastforce simp: loop_clauses_def obind_eq_Ret split: if_splits)
qed

lemma evaluate_assignment_core:
  assumes "evaluate_assignment bdd spot orc = Ret orc'"
  shows "trail_core orc' = trail_core orc"
proof (cases "init_box_done orc")
  case True
  define K orc0 a0 where "K = nat (bound_K orc)"
    and "orc0 = orc\<lparr>numb_call := numb_call orc + 1, word_aut := None\<rparr>"
    and "a0 = \<lparr>is_empty_inter = replicate K False, nb_empty_inter = 0,
                edges_constraints = replicate K [], edges_formula_all = replicate K (bddtrue bdd)\<rparr>"
  have "\<not> bound_K orc < 0" using assms True by (auto simp: evaluate_assignment_def)
  then have r: "obind (ofold (eval_loop bdd spot) (orc0, a0) [0..<K]) (\<lambda>(orc1, a).
       let orc2 = (if nb_empty_inter a = K \<and> enable_intersection orc1
                     then push_clause EMPTY_INTERSECT (add_trail_lits_to_clause orc1 []) orc1 else orc1)
       in obind (if enable_edge_loop_cond orc2
                 then ofold (combined_clause bdd spot a) orc2 [0..<K] else Ret orc2) (\<lambda>orc3.
            ofold (loop_clauses bdd spot a) orc3 [0..<K])) = Ret orc'"
    using assms True
    by (simp only: evaluate_assignment_def Let_def K_def orc0_def a0_def not_True_eq_False if_False)
  from r obtain st where st: "ofold (eval_loop bdd spot) (orc0, a0) [0..<K] = Ret st"
    by (cases "ofold (eval_loop bdd spot) (orc0, a0) [0..<K]") simp_all
  define orc2 where o2: "orc2 = (if nb_empty_inter (snd st) = K \<and> enable_intersection (fst st)
       then push_clause EMPTY_INTERSECT (add_trail_lits_to_clause (fst st) []) (fst st) else fst st)"
  from r obtain orc3 where
    o3: "(if enable_edge_loop_cond orc2 then ofold (combined_clause bdd spot (snd st)) orc2 [0..<K] else Ret orc2) = Ret orc3"
    and o': "ofold (loop_clauses bdd spot (snd st)) orc3 [0..<K] = Ret orc'"
    by (auto simp only: st obind_simps case_prod_beta Let_def o2[symmetric] obind_eq_Ret)
  have "trail_core (fst st) = trail_core orc0"
    using ofold_core[OF st, of "\<lambda>s. trail_core (fst s)"] eval_loop_core by fastforce
  moreover have "trail_core orc0 = trail_core orc" by (simp add: orc0_def trail_core_def)
  moreover have "trail_core orc2 = trail_core (fst st)" by (simp add: o2)
  moreover have "trail_core orc3 = trail_core orc2"
    using o3 ofold_core[where g = trail_core, OF _ combined_core] by (auto split: if_splits)
  ultimately show ?thesis using ofold_core[OF o', of trail_core] loop_clauses_core by metis
qed (use assms in \<open>simp add: evaluate_assignment_def\<close>)


subsection \<open>The oracle as a state machine\<close>

datatype oracle_event = Assigned int bool | New_level | Backtracked nat | Clause_lit int

inductive oracle_step ::
  "hash_order \<Rightarrow> 'b bdd_ops \<Rightarrow> ('a, 'b) spot_ops \<Rightarrow> ('a, 'b) bmc_oracle \<Rightarrow> oracle_event \<Rightarrow>
   ('a, 'b) bmc_oracle \<Rightarrow> bool"
  for ho :: hash_order and bdd :: "'b bdd_ops" and spot :: "('a, 'b) spot_ops" where
  step_assigned: "notify_assignment ho bdd spot lit fx orc = Ret orc' \<Longrightarrow>
    oracle_step ho bdd spot orc (Assigned lit fx) orc'"
| step_level: "oracle_step ho bdd spot orc New_level (notify_new_decision_level orc)"
| step_backtracked: "notify_backtrack n orc = Ret orc' \<Longrightarrow> oracle_step ho bdd spot orc (Backtracked n) orc'"
| step_lit: "cb_add_external_clause_lit orc = (l, orc') \<Longrightarrow> oracle_step ho bdd spot orc (Clause_lit l) orc'"

inductive oracle_run ::
  "hash_order \<Rightarrow> 'b bdd_ops \<Rightarrow> ('a, 'b) spot_ops \<Rightarrow> ('a, 'b) bmc_oracle \<Rightarrow> oracle_event list \<Rightarrow>
   ('a, 'b) bmc_oracle \<Rightarrow> bool"
  for ho :: hash_order and bdd :: "'b bdd_ops" and spot :: "('a, 'b) spot_ops" where
  run_Nil: "oracle_run ho bdd spot orc [] orc"
| run_Cons: "oracle_step ho bdd spot orc ev orc1 \<Longrightarrow> oracle_run ho bdd spot orc1 evs orc2 \<Longrightarrow>
    oracle_run ho bdd spot orc (ev # evs) orc2"

inductive_cases oracle_stepE [elim!]: "oracle_step ho bdd spot orc ev orc'"
inductive_cases oracle_run_ConsE [elim!]: "oracle_run ho bdd spot orc (ev # evs) orc'"
inductive_cases oracle_run_NilE [elim!]: "oracle_run ho bdd spot orc [] orc'"

text \<open>
  Whether an assignment completes the root values of its name.  Such a notification returns
  before the literal is put on the trail.
\<close>

definition completes_name :: "('a, 'b) bmc_oracle \<Rightarrow> oracle_event \<Rightarrow> bool" where
  "completes_name orc ev =
     (case ev of
        Assigned lit True \<Rightarrow>
          length (current_trail orc) = 1 \<and>
          (case assignment_counter orc (vname (info_variables orc ! nat \<bar>lit\<bar>)) of Some n \<Rightarrow> n | None \<Rightarrow> 0) + 1
            = bound_K orc
      | _ \<Rightarrow> False)"

definition trail_of_event :: "oracle_event \<Rightarrow> int list list \<Rightarrow> int list list" where
  "trail_of_event ev t =
     (case ev of
        Assigned lit fx \<Rightarrow> (if fx then (hd t @ [lit]) # tl t else butlast t @ [last t @ [lit]])
      | New_level \<Rightarrow> t @ [[]]
      | Backtracked n \<Rightarrow> take (Suc n) t
      | Clause_lit l \<Rightarrow> t)"

lemma remove_aps_core:
  "current_trail (remove_aps ho spot orc) = current_trail orc"
  "curr_trail_sz (remove_aps ho spot orc) = curr_trail_sz orc"
  "unassigned_vars (remove_aps ho spot orc) = unassigned_vars orc"
  "info_variables (remove_aps ho spot orc) = info_variables orc"
  by (simp_all add: remove_aps_def Let_def)

lemma push_trail_event:
  "t \<noteq> [] \<Longrightarrow> push_trail lit fx t = Ret (trail_of_event (Assigned lit fx) t)"
  by (simp add: push_trail_def trail_of_event_def)

lemma notify_assignment_recorded:
  assumes "current_trail orc \<noteq> []" and "nat \<bar>lit\<bar> < length (info_variables orc)"
    and "\<not> completes_name orc (Assigned lit fx)"
    and r: "notify_assignment ho bdd spot lit fx orc = Ret orc'"
  shows "\<exists>orc3. current_trail orc3 = trail_of_event (Assigned lit fx) (current_trail orc) \<and>
     curr_trail_sz orc3 = curr_trail_sz orc + 1 \<and>
     unassigned_vars orc3 = unassigned_erase (vname (info_variables orc ! nat \<bar>lit\<bar>)) \<bar>lit\<bar> (unassigned_vars orc) \<and>
     info_variables orc3 = info_variables orc \<and>
     (if \<not> init_box_done orc3 then Ret orc3
      else let orc4 = remove_aps ho spot orc3
           in if run_filter orc4
              then obind (evaluate_assignment bdd spot orc4) (\<lambda>orc5. Ret (orc5\<lparr>prev_trail_sz := curr_trail_sz orc5\<rparr>))
              else Ret orc4) = Ret orc'"
proof -
  define name orc2 where "name = vname (info_variables orc ! nat \<bar>lit\<bar>)" and
    "orc2 = (let orc1 = orc\<lparr>curr_trail_sz := curr_trail_sz orc + 1,
                    unassigned_vars := unassigned_erase name \<bar>lit\<bar> (unassigned_vars orc)\<rparr>
     in if fx \<and> length (current_trail orc1) = 1
        then orc1\<lparr>assignment_counter := (assignment_counter orc1)(name \<mapsto>
            (case assignment_counter orc1 name of Some n \<Rightarrow> n | None \<Rightarrow> 0) + 1)\<rparr>
        else orc1)"
  let ?o = "orc2\<lparr>current_trail := trail_of_event (Assigned lit fx) (current_trail orc)\<rparr>"
  have same: "current_trail orc2 = current_trail orc" "curr_trail_sz orc2 = curr_trail_sz orc + 1"
    "unassigned_vars orc2 = unassigned_erase name \<bar>lit\<bar> (unassigned_vars orc)"
    "info_variables orc2 = info_variables orc"
    by (simp_all add: orc2_def Let_def)
  have "(if \<not> init_box_done ?o then Ret ?o
      else let orc4 = remove_aps ho spot ?o
           in if run_filter orc4
              then obind (evaluate_assignment bdd spot orc4) (\<lambda>orc5. Ret (orc5\<lparr>prev_trail_sz := curr_trail_sz orc5\<rparr>))
              else Ret orc4) = Ret orc'"
    using r assms(1-3) push_trail_event[OF assms(1)]
    unfolding notify_assignment_def vec_get_def
    by (cases fx) (auto simp: completes_name_def Let_def name_def orc2_def cong: if_cong split: if_splits)
  then show ?thesis using same by (intro exI[of _ ?o]) (simp add: name_def)
qed

lemma notify_assignment_effect:
  assumes r: "notify_assignment ho bdd spot lit fx orc = Ret orc'" and t: "current_trail orc \<noteq> []"
  shows "nat \<bar>lit\<bar> < length (info_variables orc) \<and> curr_trail_sz orc' = curr_trail_sz orc + 1 \<and>
    current_trail orc' = (if completes_name orc (Assigned lit fx) then current_trail orc
                           else trail_of_event (Assigned lit fx) (current_trail orc)) \<and>
    unassigned_vars orc' =
       unassigned_erase (vname (info_variables orc ! nat \<bar>lit\<bar>)) \<bar>lit\<bar> (unassigned_vars orc) \<and>
    map vname (info_variables orc') = map vname (info_variables orc)"
proof -
  have n: "nat \<bar>lit\<bar> < length (info_variables orc)"
    using r by (auto simp: notify_assignment_def vec_get_def split: if_splits)
  then have vg: "vec_get (info_variables orc) \<bar>lit\<bar> = Ret (info_variables orc ! nat \<bar>lit\<bar>)"
    by (simp add: vec_get_def)
  show ?thesis
  proof (cases "completes_name orc (Assigned lit fx)")
    case True
    then have fx by (cases fx) (simp_all add: completes_name_def)
    with True show ?thesis using r n
      by (auto simp: notify_assignment_def vg completes_name_def Let_def map_update
          intro!: list_update_same_conv[THEN iffD2])
  next
    case False
    obtain orc3 where orc3: "current_trail orc3 = trail_of_event (Assigned lit fx) (current_trail orc)"
      "curr_trail_sz orc3 = curr_trail_sz orc + 1"
      "unassigned_vars orc3 = unassigned_erase (vname (info_variables orc ! nat \<bar>lit\<bar>)) \<bar>lit\<bar> (unassigned_vars orc)"
      "info_variables orc3 = info_variables orc"
      and c: "(if \<not> init_box_done orc3 then Ret orc3
        else let orc4 = remove_aps ho spot orc3
           in if run_filter orc4
              then obind (evaluate_assignment bdd spot orc4) (\<lambda>orc5. Ret (orc5\<lparr>prev_trail_sz := curr_trail_sz orc5\<rparr>))
              else Ret orc4) = Ret orc'"
      using notify_assignment_recorded[OF t n False r] by blast
    from c consider "orc' = orc3" | "orc' = remove_aps ho spot orc3"
      | orc5 where "evaluate_assignment bdd spot (remove_aps ho spot orc3) = Ret orc5"
          "orc' = orc5\<lparr>prev_trail_sz := curr_trail_sz orc5\<rparr>"
      by (auto simp: Let_def obind_eq_Ret split: if_splits)
    then show ?thesis
      by cases (use n False orc3 in \<open>auto simp: remove_aps_core
          dest!: evaluate_assignment_core trail_core_fields\<close>)
  qed
qed


definition least_first :: hash_order where
  "least_first = \<lparr>set_begin = Min, names_order = (\<lambda>xs. xs)\<rparr>"

definition trail_inv :: "('a, 'b) bmc_oracle \<Rightarrow> bool" where
  "trail_inv orc \<longleftrightarrow> current_trail orc \<noteq> [] \<and>
     (\<forall>l\<in>set (concat (current_trail orc)). nat \<bar>l\<bar> < length (info_variables orc))"

definition trail_drift :: "('a, 'b) bmc_oracle \<Rightarrow> int" where
  "trail_drift orc = curr_trail_sz orc - int (length (concat (current_trail orc)))"

definition level_after :: "nat \<Rightarrow> oracle_event \<Rightarrow> nat" where
  "level_after n ev = (case ev of New_level \<Rightarrow> Suc n | Backtracked m \<Rightarrow> min n (Suc m) | _ \<Rightarrow> n)"

lemma length_concat_last: "t \<noteq> [] \<Longrightarrow> length (concat (butlast t)) + length (last t) = length (concat t)"
  by (cases t rule: rev_cases) auto

lemma trail_of_event_Assigned:
  assumes "t \<noteq> []"
  shows "trail_of_event (Assigned lit fx) t \<noteq> []"
    "length (trail_of_event (Assigned lit fx) t) = length t"
    "length (concat (trail_of_event (Assigned lit fx) t)) = Suc (length (concat t))"
    "set (concat (trail_of_event (Assigned lit fx) t)) = insert lit (set (concat t))"
proof -
  obtain a ts where a: "t = a # ts" using assms by (cases t) auto
  obtain b us where b: "t = us @ [b]" using assms by (cases t rule: rev_cases) auto
  show "trail_of_event (Assigned lit fx) t \<noteq> []"
    by (simp add: trail_of_event_def)
  show "length (trail_of_event (Assigned lit fx) t) = length t"
    using assms by (simp add: trail_of_event_def)
  show "length (concat (trail_of_event (Assigned lit fx) t)) = Suc (length (concat t))"
    by (cases fx) (simp add: a trail_of_event_def, simp add: b trail_of_event_def)
  show "set (concat (trail_of_event (Assigned lit fx) t)) = insert lit (set (concat t))"
    by (cases fx) (simp add: a trail_of_event_def, simp add: b trail_of_event_def)
qed

lemma oracle_step_effect:
  assumes "oracle_step ho bdd spot orc ev orc'" and inv: "trail_inv orc"
  shows "trail_inv orc' \<and> length (current_trail orc') = level_after (length (current_trail orc)) ev \<and>
    trail_drift orc' = trail_drift orc + (if completes_name orc ev then 1 else 0) \<and>
    (\<not> completes_name orc ev \<longrightarrow> current_trail orc' = trail_of_event ev (current_trail orc))"
  using assms(1)
proof cases
  case (step_assigned lit fx)
  have t: "current_trail orc \<noteq> []" using inv by (simp add: trail_inv_def)
  note e = notify_assignment_effect[OF step_assigned(2) t]
  from e have "length (info_variables orc') = length (info_variables orc)" by (metis length_map)
  with e trail_of_event_Assigned[OF t, of lit fx] inv show ?thesis
    by (auto simp: step_assigned(1) trail_inv_def trail_drift_def level_after_def)
next
  case step_level
  then show ?thesis using inv
    by (simp add: notify_new_decision_level_def trail_inv_def trail_drift_def level_after_def
        completes_name_def trail_of_event_def)
next
  case (step_backtracked n)
  let ?t = "current_trail orc"
  have "\<forall>l\<in>set (concat ?t). nat \<bar>l\<bar> < length (info_variables orc)" using inv by (simp add: trail_inv_def)
  then obtain m where m: "orc' = orc\<lparr>curr_trail_sz := curr_trail_sz orc - int (length (concat (drop (Suc n) ?t))),
               unassigned_vars := m, current_trail := take (Suc n) ?t\<rparr>"
    using notify_backtrack_result[of orc n] step_backtracked(2) by auto
  have "length (concat (take (Suc n) ?t)) + length (concat (drop (Suc n) ?t)) = length (concat ?t)"
    by (metis append_take_drop_id concat_append length_append)
  moreover have "set (concat (take (Suc n) ?t)) \<subseteq> set (concat ?t)"
    by (metis append_take_drop_id concat_append set_append Un_upper1)
  ultimately show ?thesis using inv
    by (auto simp: m step_backtracked(1) trail_inv_def trail_drift_def level_after_def completes_name_def
        trail_of_event_def)
next
  case (step_lit l)
  then have "current_trail orc' = current_trail orc" "curr_trail_sz orc' = curr_trail_sz orc"
    "info_variables orc' = info_variables orc"
    by (auto simp: cb_add_external_clause_lit_def Let_def split: if_splits)
  then show ?thesis using inv
    by (simp add: step_lit(1) trail_inv_def trail_drift_def level_after_def completes_name_def trail_of_event_def)
qed



subsection \<open>Decisions\<close>

text \<open>
  \<^bold>\<open>C22\<close> (\<open>cb_decide\<close>).  When every name has an unassigned variable left, the callback proposes a
  variable of a name with the fewest of them.
\<close>

theorem cb_decide_minimal:
  assumes "unassigned_vars orc \<noteq> []" and "distinct (map fst (unassigned_vars orc))"
    and "\<forall>(k, s)\<in>set (unassigned_vars orc). finite s \<and> s \<noteq> {}"
    and "\<forall>s. finite s \<longrightarrow> s \<noteq> {} \<longrightarrow> set_begin ho s \<in> s"
  shows "\<exists>v k s. cb_decide ho orc = Ret v \<and> (k, s) \<in> set (unassigned_vars orc) \<and> v \<in> s \<and>
     (\<forall>(k', s')\<in>set (unassigned_vars orc). card s \<le> card s')"
proof -
  let ?m = "unassigned_vars orc"
  let ?k = "min_unassigned ?m"
  obtain s where s: "(?k, s) \<in> set ?m" using min_unassigned_minimal(1)[OF assms(1)] by auto
  have u: "unassigned_of ?m ?k = s" using unassigned_of_mem[OF assms(2) s] .
  have "finite s" "s \<noteq> {}" using assms(3) s by auto
  then have "cb_decide ho orc = Ret (set_begin ho s)" using assms(1) u by (simp add: cb_decide_def Let_def)
  moreover have "card s \<le> card s'" if "(k', s') \<in> set ?m" for k' s'
    using min_unassigned_minimal(2)[OF assms(1) that] u unassigned_of_mem[OF assms(2) that] by simp
  ultimately show ?thesis using s \<open>finite s\<close> \<open>s \<noteq> {}\<close> assms(4) by blast
qed

theorem cb_decide_minimal_witness:
  "\<exists>v\<in>{3, 4}. cb_decide least_first
     ((ab_oracle 2 [])\<lparr>unassigned_vars := [(''a'', {1, 2, 5}), (''b'', {3, 4})]\<rparr>) = Ret v"
proof -
  have "\<forall>s. finite s \<longrightarrow> s \<noteq> {} \<longrightarrow> set_begin least_first s \<in> s" by (simp add: least_first_def)
  from cb_decide_minimal[where orc = "(ab_oracle 2 [])\<lparr>unassigned_vars := [(''a'', {1, 2, 5}), (''b'', {3, 4})]\<rparr>",
      OF _ _ _ this]
  show ?thesis by auto
qed

subsection \<open>The first decision\<close>

definition none_unassigned :: "('a, 'b) bmc_oracle \<Rightarrow> bool" where
  "none_unassigned orc \<longleftrightarrow> (\<forall>k. unassigned_of (unassigned_vars orc) k = {})"

lemma notify_assignment_none:
  assumes "notify_assignment ho bdd spot lit fx orc = Ret orc'" "current_trail orc \<noteq> []" "none_unassigned orc"
  shows "none_unassigned orc' \<and> current_trail orc' \<noteq> []"
  using notify_assignment_effect[OF assms(1,2)] trail_of_event_Assigned(1)[OF assms(2)] assms(2,3)
  by (auto simp: none_unassigned_def)

lemma observe_none:
  assumes "observe ho bdd spot fixed v st = Ret st'"
    "current_trail (fst st) \<noteq> []" "none_unassigned (fst st)"
  shows "none_unassigned (fst st') \<and> current_trail (fst st') \<noteq> []"
  using assms notify_assignment_none
  by (cases st) (fastforce simp: observe_def obind_eq_Ret split: if_splits)

lemma init_variable_none:
  assumes r: "init_variable ho bdd spot fixed st var = Ret st'"
    and i: "current_trail (fst st) \<noteq> [] \<and> none_unassigned (fst st)"
  shows "current_trail (fst st') \<noteq> [] \<and> none_unassigned (fst st')"
proof (cases "vname (info_variables (fst st) ! var) = []")
  case True
  then show ?thesis using r i by (cases st) (auto simp: init_variable_def Let_def)
next
  case False
  obtain orc observed where st: "st = (orc, observed)" by (cases st)
  let ?vf = "info_variables orc ! var"
  obtain ac vbs where o1: "(let orc1 = orc\<lparr>assignment_counter := ac,
        unassigned_vars := smap_put (vname ?vf) {} (unassigned_vars orc), variable_by_step := vbs\<rparr>
     in if str_contains (vname ?vf) ''loop''
        then observe ho bdd spot fixed (int var)
               (orc1\<lparr>info_variables := (info_variables orc1)[var := (info_variables orc1 ! var)\<lparr>property := True\<rparr>]\<rparr>,
                observed)
        else Ret (orc1, observed)) = Ret st'"
    using r False unfolding init_variable_def st prod.case Let_def fst_conv
    by (simp only: if_False obind_eq_Ret) blast
  show ?thesis
  proof (cases "str_contains (vname ?vf) ''loop''")
    case True
    from o1 show ?thesis unfolding Let_def if_P[OF True]
      by (rule observe_none[THEN conj_commute[THEN iffD1]]) (use i in \<open>simp_all add: none_unassigned_def st\<close>)
  next
    case False
    from o1 show ?thesis unfolding Let_def if_not_P[OF False]
      using i by (auto simp: none_unassigned_def st split: if_splits)
  qed
qed

lemma init_property_none:
  assumes r: "init_property ho bdd spot fixed st key = Ret st'"
    and i: "current_trail (fst st) \<noteq> [] \<and> none_unassigned (fst st)"
  shows "current_trail (fst st') \<noteq> [] \<and> none_unassigned (fst st')"
proof -
  obtain orc observed step name where k: "st = (orc, observed)" "key = (step, name)" by (cases st; cases key)
  obtain v vbs infos where
    "observe ho bdd spot fixed v
       (orc\<lparr>variable_by_step := vbs, info_variables := infos,
            nb_property_variable := nb_property_variable orc + 1,
            nb_model_variable := nb_model_variable orc - 1\<rparr>, observed) = Ret st'"
    using r unfolding init_property_def k prod.case obind_eq_Ret
    by (auto simp only: case_prod_beta obind_eq_Ret)
  from observe_none[OF this] show ?thesis using i by (simp add: k none_unassigned_def)
qed

lemma init_spot_none:
  assumes r: "init_spot ho bdd spot fixed orc0 = Ret (orc, obs)"
    and i: "current_trail orc0 \<noteq> []" "unassigned_vars orc0 = []"
  shows "current_trail orc \<noteq> [] \<and> none_unassigned orc"
proof -
  let ?I = "\<lambda>st :: ('a, 'b) bmc_oracle \<times> int list. current_trail (fst st) \<noteq> [] \<and> none_unassigned (fst st)"
  have "\<exists>orc3 st1 st2 xs ys. ?I (orc3, []) \<and>
     ofold (init_variable ho bdd spot fixed) (orc3, []) xs = Ret st1 \<and>
     ofold (init_property ho bdd spot fixed) st1 ys = Ret st2 \<and>
     current_trail orc = current_trail (fst st2) \<and> unassigned_vars orc = unassigned_vars (fst st2)"
  proof (cases "parse_and_translate spot (ltlspec orc0)")
    case (Some aut)
    define orc3 where "orc3 = orc0\<lparr>nb_property_variable := int (length (rename_lit_loop orc0)),
        nb_model_variable := nb_model_variable orc0 - int (length (rename_lit_loop orc0)),
        numb_clauses := resize 4 0 (numb_clauses orc0), size_clauses := resize 4 0 (size_clauses orc0),
        variable_by_step := resize (nat (bound_K orc0 + 1)) Map.empty (variable_by_step orc0), ltl_aut := aut\<rparr>"
    have "?I (orc3, [])" using i by (simp add: orc3_def none_unassigned_def unassigned_of_def)
    moreover obtain st1 st2 where "ofold (init_variable ho bdd spot fixed) (orc3, [])
          [nat (first_var orc0)..<length (info_variables orc0)] = Ret st1"
      "ofold (init_property ho bdd spot fixed) st1
         (concat (map (\<lambda>step. map (Pair step) (aut_aps spot aut)) [0..<nat (bound_K orc0 + 1)])) = Ret st2"
      "current_trail orc = current_trail (fst st2)" "unassigned_vars orc = unassigned_vars (fst st2)"
      using r Some by (auto simp: init_spot_def Let_def obind_eq_Ret orc3_def split: if_splits)
    ultimately show ?thesis by blast
  qed (use r in \<open>simp add: init_spot_def Let_def split: if_splits\<close>)
  then obtain orc3 st1 st2 xs ys where o3: "?I (orc3, [])"
    and 1: "ofold (init_variable ho bdd spot fixed) (orc3, []) xs = Ret st1"
    and 2: "ofold (init_property ho bdd spot fixed) st1 ys = Ret st2"
    and 3: "current_trail orc = current_trail (fst st2)" "unassigned_vars orc = unassigned_vars (fst st2)"
    by blast
  have "?I st1" by (rule ofold_invariant[OF 1, of ?I]) (use o3 init_variable_none in \<open>blast+\<close>)
  then have "?I st2" by (intro ofold_invariant[OF 2, of ?I]) (use init_property_none in \<open>blast+\<close>)
  then show ?thesis using 3 by (simp add: none_unassigned_def)
qed

lemma oracle_run_none:
  assumes "oracle_run ho bdd spot orc evs orc'" and "\<forall>n. Backtracked n \<notin> set evs"
    and "current_trail orc \<noteq> []" "none_unassigned orc"
  shows "none_unassigned orc'"
  using assms
proof (induction rule: oracle_run.induct)
  case (run_Cons orc ev orc1 evs orc2)
  have "none_unassigned orc1 \<and> current_trail orc1 \<noteq> []" using run_Cons.hyps(1)
  proof cases
    case (step_assigned lit fx)
    then show ?thesis using notify_assignment_none run_Cons.prems by blast
  next
    case (step_lit l)
    then show ?thesis using run_Cons.prems
      by (auto simp: cb_add_external_clause_lit_def none_unassigned_def Let_def split: if_splits)
  qed (use run_Cons.prems in \<open>auto simp: notify_new_decision_level_def none_unassigned_def\<close>)
  then show ?case using run_Cons by simp
qed simp

text \<open>
  \<^bold>\<open>C19\<close> (\<open>cb_decide\<close>).  The sets of unassigned variables start empty and only backtracking fills
  them.  So from the initialisation up to the first backtrack, and in particular at the first
  decision, the callback dereferences the begin iterator of an empty set.
\<close>

theorem cb_decide_undefined_at_first:
  assumes "init_spot ho bdd spot fixed orc0 = Ret (orc, obs)"
    and "current_trail orc0 \<noteq> []" "unassigned_vars orc0 = []"
    and "oracle_run ho bdd spot orc evs orc'" "\<forall>n. Backtracked n \<notin> set evs"
    and "unassigned_vars orc' \<noteq> []"
  shows "cb_decide ho orc' = UB"
proof -
  have "none_unassigned orc'" using oracle_run_none[OF assms(4,5)] init_spot_none[OF assms(1-3)] by blast
  then show ?thesis using assms(6) by (simp add: cb_decide_def none_unassigned_def Let_def)
qed

definition head_oracle :: "(unit, table) bmc_oracle" where
  "head_oracle = (initial_oracle ())\<lparr>bound_K := 1, first_var := 1, nb_model_variable := 4,
     rename_lit_loop := [5],
     info_variables := [default_var_info,
       \<lparr>num_step = 0, property = False, vname = ''a''\<rparr>, \<lparr>num_step = 1, property = False, vname = ''a''\<rparr>,
       \<lparr>num_step = 0, property = False, vname = ''b''\<rparr>, \<lparr>num_step = 1, property = False, vname = ''b''\<rparr>,
       \<lparr>num_step = 0, property = True, vname = ''loop5''\<rparr>]\<rparr>"

lemma head_oracle_init:
  "map_outcome (\<lambda>(orc, obs). (map fst (unassigned_vars orc), obs))
     (init_spot least_first tt_ops gf_spot (\<lambda>_. 0) head_oracle) =
   Ret ([''a'', ''b'', ''loop5''], [5, 1, 3, 2, 4])"
  by code_simp

theorem cb_decide_undefined_at_first_witness:
  "\<exists>orc obs. init_spot least_first tt_ops gf_spot (\<lambda>_. 0) head_oracle = Ret (orc, obs) \<and>
     cb_decide least_first orc = UB"
proof -
  obtain orc obs where r: "init_spot least_first tt_ops gf_spot (\<lambda>_. 0) head_oracle = Ret (orc, obs)"
    and ne: "unassigned_vars orc \<noteq> []" using map_outcome_Ret[OF head_oracle_init] by fastforce
  show ?thesis using cb_decide_undefined_at_first[OF r _ _ run_Nil _ ne] r
    by (auto simp: head_oracle_def initial_oracle_def)
qed

end
