(* ===== verification/Heap.thy ===== *)
theory Heap
  imports Prelude "HOL-Library.Monad_Syntax"
begin

text \<open>
  The binary heap with updates of \<^verbatim>\<open>src/heap.hpp\<close>: \<open>harray\<close> is the heap, \<open>hpos\<close> maps an element to
  its position, \<^verbatim>\<open>UINT_MAX\<close> standing for not contained.  Operations are in the option type:
  \<open>None\<close> is an access out of range or a loop that does not return, and the lemmas show that
  neither happens on a well-formed heap.
\<close>

subsection \<open>The heap\<close>

record heap =
  harray :: "nat list"
  hpos :: "nat list"

definition invalid_heap_position :: nat where
  "invalid_heap_position = 4294967295"

definition u32 :: "nat \<Rightarrow> nat" where
  "u32 n = n mod 4294967296"

text \<open>\<^verbatim>\<open>index (e)\<close> first makes room for the element.\<close>

definition index_room :: "heap \<Rightarrow> nat \<Rightarrow> heap" where
  "index_room h e =
     (if e \<ge> length (hpos h) then h\<lparr>hpos := resize (Suc e) invalid_heap_position (hpos h)\<rparr> else h)"

definition exchange :: "heap \<Rightarrow> nat \<Rightarrow> nat \<Rightarrow> heap option" where
  "exchange h0 a b = (let h = index_room (index_room h0 a) b in do {
     let i = hpos h ! a;
     let j = hpos h ! b;
     x \<leftarrow> vec_at (harray h) i;
     y \<leftarrow> vec_at (harray h) j;
     Some (h\<lparr>harray := (harray h)[i := y, j := x], hpos := (hpos h)[a := j, b := i]\<rparr>)
   })"

partial_function (option) up :: "(nat \<Rightarrow> nat \<Rightarrow> bool) \<Rightarrow> heap \<Rightarrow> nat \<Rightarrow> heap option" where
  "up lt h0 e = (let h = index_room h0 e in
     if hpos h ! e > 0
     then do {
       p \<leftarrow> vec_at (harray h) ((hpos h ! e - 1) div 2);
       if lt p e then do { h' \<leftarrow> exchange h p e; up lt h' e } else Some h
     }
     else Some h)"

text \<open>The larger child of the element at the given position.\<close>

definition max_child :: "(nat \<Rightarrow> nat \<Rightarrow> bool) \<Rightarrow> heap \<Rightarrow> nat \<Rightarrow> nat option" where
  "max_child lt h i = do {
     c \<leftarrow> vec_at (harray h) (u32 (2 * i + 1));
     if 2 * i + 2 < length (harray h)
     then do { r \<leftarrow> vec_at (harray h) (u32 (2 * i + 2)); Some (if lt c r then r else c) }
     else Some c
   }"

partial_function (option) down :: "(nat \<Rightarrow> nat \<Rightarrow> bool) \<Rightarrow> heap \<Rightarrow> nat \<Rightarrow> heap option" where
  "down lt h0 e = (let h = index_room h0 e in
     if 2 * (hpos h ! e) + 1 < length (harray h)
     then do {
       c \<leftarrow> max_child lt h (hpos h ! e);
       if lt e c then do { h' \<leftarrow> exchange h e c; down lt h' e } else Some h
     }
     else Some h)"

declare up.simps [code] down.simps [code]

definition new_heap :: heap where
  "new_heap = \<lparr>harray = [], hpos = []\<rparr>"

definition heap_size :: "heap \<Rightarrow> nat" where
  "heap_size h = length (harray h)"

definition heap_empty :: "heap \<Rightarrow> bool" where
  "heap_empty h = (harray h = [])"

definition contains :: "heap \<Rightarrow> nat \<Rightarrow> bool" where
  "contains h e = (e < length (hpos h) \<and> hpos h ! e \<noteq> invalid_heap_position)"

definition push_back :: "(nat \<Rightarrow> nat \<Rightarrow> bool) \<Rightarrow> heap \<Rightarrow> nat \<Rightarrow> heap option" where
  "push_back lt h e = do {
     let h1 = index_room (h\<lparr>harray := harray h @ [e]\<rparr>) e;
     h2 \<leftarrow> up lt (h1\<lparr>hpos := (hpos h1)[e := u32 (length (harray h))]\<rparr>) e;
     down lt h2 e
   }"

definition front :: "heap \<Rightarrow> nat option" where
  "front h = vec_at (harray h) 0"

definition pop_front :: "(nat \<Rightarrow> nat \<Rightarrow> bool) \<Rightarrow> heap \<Rightarrow> (nat \<times> heap) option" where
  "pop_front lt h = (if harray h = [] then None else do {
     let res = hd (harray h);
     let lst = last (harray h);
     h1 \<leftarrow> (if heap_size h > 1 then exchange h res lst else Some h);
     let h2 = index_room h1 res;
     let h3 = h2\<lparr>hpos := (hpos h2)[res := invalid_heap_position], harray := butlast (harray h2)\<rparr>;
     h4 \<leftarrow> (if heap_size h3 > 1 then down lt h3 lst else Some h3);
     Some (res, h4)
   })"

definition update :: "(nat \<Rightarrow> nat \<Rightarrow> bool) \<Rightarrow> heap \<Rightarrow> nat \<Rightarrow> heap option" where
  "update lt h e = do { h1 \<leftarrow> up lt h e; down lt h1 e }"

definition heap_clear :: "heap \<Rightarrow> heap" where
  "heap_clear h = \<lparr>harray = [], hpos = []\<rparr>"

subsection \<open>The two invariants\<close>

definition heap_wf :: "heap \<Rightarrow> bool" where
  "heap_wf h \<longleftrightarrow> length (harray h) \<le> invalid_heap_position \<and>
     (\<forall>i < length (harray h). harray h ! i < length (hpos h) \<and> hpos h ! (harray h ! i) = i) \<and>
     (\<forall>e < length (hpos h). hpos h ! e \<noteq> invalid_heap_position \<longrightarrow>
        hpos h ! e < length (harray h) \<and> harray h ! (hpos h ! e) = e)"

definition par :: "nat \<Rightarrow> nat" where
  "par i = (i - 1) div 2"

definition heap_ordered :: "(nat \<Rightarrow> nat \<Rightarrow> bool) \<Rightarrow> nat list \<Rightarrow> bool" where
  "heap_ordered lt A \<longleftrightarrow> (\<forall>i < length A. 0 < i \<longrightarrow> \<not> lt (A ! par i) (A ! i))"

definition heap_ok :: "(nat \<Rightarrow> nat \<Rightarrow> bool) \<Rightarrow> heap \<Rightarrow> bool" where
  "heap_ok lt h \<longleftrightarrow> heap_wf h \<and> heap_ordered lt (harray h)"

text \<open>The order with a hole: everything but the pairs that involve position \<open>k\<close>.\<close>

definition hole_ordered :: "(nat \<Rightarrow> nat \<Rightarrow> bool) \<Rightarrow> nat list \<Rightarrow> nat \<Rightarrow> bool" where
  "hole_ordered lt A k \<longleftrightarrow>
     (\<forall>i < length A. 0 < i \<longrightarrow> i \<noteq> k \<longrightarrow> par i \<noteq> k \<longrightarrow> \<not> lt (A ! par i) (A ! i)) \<and>
     (\<forall>i < length A. 0 < i \<longrightarrow> 0 < k \<longrightarrow> par i = k \<longrightarrow> \<not> lt (A ! par k) (A ! i))"

definition above_ordered :: "(nat \<Rightarrow> nat \<Rightarrow> bool) \<Rightarrow> nat list \<Rightarrow> nat \<Rightarrow> bool" where
  "above_ordered lt A k \<longleftrightarrow> (0 < k \<longrightarrow> \<not> lt (A ! par k) (A ! k))"

definition swapped :: "'a list \<Rightarrow> nat \<Rightarrow> nat \<Rightarrow> 'a list" where
  "swapped A i j = A[i := A ! j, j := A ! i]"

lemma par_less: "0 < i \<Longrightarrow> par i < i"
  by (simp add: par_def)

lemma child_par [simp]: "par (Suc (2 * k)) = k" "par (Suc (Suc (2 * k))) = k"
  by (simp_all add: par_def)

lemma par_children: "0 < i \<Longrightarrow> par i = k \<longleftrightarrow> i = 2 * k + 1 \<or> i = 2 * k + 2"
  by (auto simp: par_def)

lemma nth_swapped:
  "i < length A \<Longrightarrow> j < length A \<Longrightarrow> m < length A \<Longrightarrow>
   swapped A i j ! m = (if m = j then A ! i else if m = i then A ! j else A ! m)"
  by (simp add: swapped_def nth_list_update)

lemma length_swapped [simp]: "length (swapped A i j) = length A"
  by (simp add: swapped_def)

lemma mset_swapped [simp]: "i < length A \<Longrightarrow> j < length A \<Longrightarrow> mset (swapped A i j) = mset A"
  unfolding swapped_def by (rule mset_swap)

lemma index_room_id [simp]: "e < length (hpos h) \<Longrightarrow> index_room h e = h"
  by (simp add: index_room_def)

lemma heap_wfD:
  assumes "heap_wf h" "i < length (harray h)"
  shows "harray h ! i < length (hpos h)" "hpos h ! (harray h ! i) = i"
  using assms by (auto simp: heap_wf_def)

lemma heap_wf_elem:
  assumes "heap_wf h" "e \<in> set (harray h)"
  shows "e < length (hpos h)" "hpos h ! e < length (harray h)" "harray h ! (hpos h ! e) = e"
  using assms by (auto simp: in_set_conv_nth heap_wf_def)

lemma heap_wf_distinct: "heap_wf h \<Longrightarrow> distinct (harray h)"
  by (metis distinct_conv_nth heap_wfD(2))

lemma contains_iff: "heap_wf h \<Longrightarrow> contains h e \<longleftrightarrow> e \<in> set (harray h)"
proof -
  assume w: "heap_wf h"
  then have "hpos h ! e \<noteq> invalid_heap_position" if "e \<in> set (harray h)"
    using heap_wf_elem[OF w that] w by (auto simp: heap_wf_def)
  then show ?thesis using w heap_wf_elem[OF w, of e]
    by (auto simp: contains_def heap_wf_def) (metis nth_mem)
qed

lemma exchange_swaps:
  assumes w: "heap_wf h" and i: "i < length (harray h)" and j: "j < length (harray h)"
  shows "\<exists>h'. exchange h (harray h ! i) (harray h ! j) = Some h' \<and> heap_wf h' \<and>
     harray h' = swapped (harray h) i j"
proof -
  let ?A = "harray h" and ?P = "hpos h"
  let ?h = "h\<lparr>harray := swapped ?A i j, hpos := ?P[?A ! i := j, ?A ! j := i]\<rparr>"
  note wi = heap_wfD[OF w i] and wj = heap_wfD[OF w j]
  have ex: "exchange h (?A ! i) (?A ! j) = Some ?h"
    using wi wj i j by (simp add: exchange_def Let_def swapped_def)
  have inj: "?A ! m = ?A ! m' \<longleftrightarrow> m = m'" if "m < length ?A" "m' < length ?A" for m m'
    using that heap_wfD(2)[OF w] by metis
  have 1: "swapped ?A i j ! m < length ?P \<and> ?P[?A ! i := j, ?A ! j := i] ! (swapped ?A i j ! m) = m"
    if "m < length ?A" for m
    using that i j wi wj heap_wfD[OF w that] inj by (auto simp: nth_swapped nth_list_update)
  have 2: "?P[?A ! i := j, ?A ! j := i] ! e < length ?A \<and>
      swapped ?A i j ! (?P[?A ! i := j, ?A ! j := i] ! e) = e"
    if "e < length ?P" "?P[?A ! i := j, ?A ! j := i] ! e \<noteq> invalid_heap_position" for e
  proof -
    consider "e = ?A ! j" | "e = ?A ! i" "e \<noteq> ?A ! j" | "e \<noteq> ?A ! i" "e \<noteq> ?A ! j" by blast
    then show ?thesis
    proof cases
      case 3
      then have "?P ! e < length ?A" "?A ! (?P ! e) = e"
        using that w by (auto simp: nth_list_update heap_wf_def)
      with 3 show ?thesis using that i j by (auto simp: nth_list_update nth_swapped)
    qed (use that i j wi wj in \<open>auto simp: nth_list_update nth_swapped\<close>)
  qed
  have "heap_wf ?h" using w 1 2 by (simp add: heap_wf_def)
  then show ?thesis using ex by auto
qed


subsection \<open>Bubbling up and down\<close>

text \<open>
  What the heap asks of its comparison: a strict weak order.  A client that changes the
  value of one element has to announce it with \<open>update\<close>.
\<close>

locale heap_order =
  fixes lt :: "nat \<Rightarrow> nat \<Rightarrow> bool"
  assumes asym: "lt a b \<Longrightarrow> \<not> lt b a"
    and neg_trans: "\<not> lt a b \<Longrightarrow> \<not> lt b c \<Longrightarrow> \<not> lt a c"
begin

lemma up_step_order:
  assumes H: "hole_ordered lt A k" and k: "0 < k" "k < length A" and l: "lt (A ! par k) (A ! k)"
  shows "hole_ordered lt (swapped A (par k) k) (par k)"
proof -
  let ?q = "par k" and ?B = "swapped A (par k) k"
  have q: "?q < k" "?q < length A" using k par_less[of k] by auto
  have nB: "?B ! m = (if m = k then A ! ?q else if m = ?q then A ! k else A ! m)" if "m < length A" for m
    using nth_swapped[of ?q A k m] that q k by simp
  have H1: "\<And>i. i < length A \<Longrightarrow> 0 < i \<Longrightarrow> i \<noteq> k \<Longrightarrow> par i \<noteq> k \<Longrightarrow> \<not> lt (A ! par i) (A ! i)"
    and H2: "\<And>i. i < length A \<Longrightarrow> 0 < i \<Longrightarrow> par i = k \<Longrightarrow> \<not> lt (A ! ?q) (A ! i)"
    using H k by (auto simp: hole_ordered_def)
  have 1: "\<not> lt (?B ! par i) (?B ! i)" if i: "i < length A" "0 < i" "i \<noteq> ?q" "par i \<noteq> ?q" for i
  proof (cases "par i = k")
    case True
    then show ?thesis using H2[OF i(1,2)] i nB[of i] nB[of k] k par_less[of i] by auto
  next
    case False
    then have "i \<noteq> k" using i by auto
    then show ?thesis using H1[OF i(1,2)] False i nB[of i] nB[of "par i"] par_less[of i] by auto
  qed
  have 2: "\<not> lt (?B ! par ?q) (?B ! i)" if i: "i < length A" "0 < i" "0 < ?q" "par i = ?q" for i
  proof -
    have pq: "par ?q < ?q" using par_less i(3) by blast
    have up: "\<not> lt (A ! par ?q) (A ! ?q)" using H1[of ?q] q i(3) pq by auto
    have Bp: "?B ! par ?q = A ! par ?q" using nB[of "par ?q"] pq q by auto
    show ?thesis
    proof (cases "i = k")
      case True
      then show ?thesis using Bp nB[of k] k up by simp
    next
      case False
      then have "\<not> lt (A ! ?q) (A ! i)" using H1[of i] i q by auto
      then show ?thesis using Bp nB[of i] i False up par_less[of i] neg_trans by (metis less_irrefl)
    qed
  qed
  show ?thesis unfolding hole_ordered_def using 1 2 by simp
qed

lemma down_step_order:
  assumes H: "hole_ordered lt A k" and k: "k < length A"
    and m: "m < length A" "0 < m" "par m = k" and l: "lt (A ! k) (A ! m)"
    and mx: "\<And>i. i < length A \<Longrightarrow> 0 < i \<Longrightarrow> par i = k \<Longrightarrow> \<not> lt (A ! m) (A ! i)"
  shows "hole_ordered lt (swapped A k m) m" "above_ordered lt (swapped A k m) m"
proof -
  let ?B = "swapped A k m"
  have km: "k < m" using par_less m by auto
  have nB: "?B ! x = (if x = m then A ! k else if x = k then A ! m else A ! x)" if "x < length A" for x
    using nth_swapped[of k A m x] that m k by simp
  have H1: "\<And>i. i < length A \<Longrightarrow> 0 < i \<Longrightarrow> i \<noteq> k \<Longrightarrow> par i \<noteq> k \<Longrightarrow> \<not> lt (A ! par i) (A ! i)"
    and H2: "\<And>i. i < length A \<Longrightarrow> 0 < i \<Longrightarrow> 0 < k \<Longrightarrow> par i = k \<Longrightarrow> \<not> lt (A ! par k) (A ! i)"
    using H by (auto simp: hole_ordered_def)
  show "above_ordered lt ?B m"
    using nB[OF m(1)] nB[OF k] km l asym m(3) by (auto simp: above_ordered_def)
  have 1: "\<not> lt (?B ! par i) (?B ! i)" if i: "i < length A" "0 < i" "i \<noteq> m" "par i \<noteq> m" for i
  proof -
    have pi: "par i < i" "par i < length A" using par_less[OF i(2)] i(1) by auto
    consider "i = k" | "i \<noteq> k" "par i = k" | "i \<noteq> k" "par i \<noteq> k" by blast
    then show ?thesis
    proof cases
      case 1
      then show ?thesis using H2[OF m(1,2) _ m(3)] i nB[OF i(1)] nB[OF pi(2)] pi by auto
    next
      case 2
      then show ?thesis using mx[OF i(1,2)] i nB[OF i(1)] nB[OF pi(2)] pi km by auto
    next
      case 3
      then show ?thesis using H1[OF i(1,2)] i nB[OF i(1)] nB[OF pi(2)] by auto
    qed
  qed
  have 2: "\<not> lt (?B ! par m) (?B ! i)" if i: "i < length A" "0 < i" "par i = m" for i
    using H1[OF i(1,2)] i nB[OF i(1)] nB[OF k] m km par_less[OF i(2)] by auto
  show "hole_ordered lt ?B m" unfolding hole_ordered_def using 1 2 by simp
qed

lemma up_correct:
  assumes "heap_wf h" "e \<in> set (harray h)" "hole_ordered lt (harray h) (hpos h ! e)"
  shows "\<exists>h'. up lt h e = Some h' \<and> heap_wf h' \<and> mset (harray h') = mset (harray h) \<and>
     hole_ordered lt (harray h') (hpos h' ! e) \<and> above_ordered lt (harray h') (hpos h' ! e)"
  using assms
proof (induction "hpos h ! e" arbitrary: h rule: less_induct)
  case less
  let ?k = "hpos h ! e"
  note el = heap_wf_elem[OF less.prems(1,2)]
  have pq: "(?k - Suc 0) div 2 = par ?k" by (simp add: par_def)
  show ?case
  proof (cases "0 < ?k \<and> lt (harray h ! par ?k) e")
    case True
    then have q: "par ?k < ?k" "par ?k < length (harray h)" using par_less[of ?k] el(2) by auto
    obtain h1 where h1: "exchange h (harray h ! par ?k) e = Some h1" "heap_wf h1"
      "harray h1 = swapped (harray h) (par ?k) ?k"
      using exchange_swaps[OF less.prems(1) q(2) el(2)] el(3) by auto
    have m1: "mset (harray h1) = mset (harray h)" using h1(3) q el by simp
    then have in1: "e \<in> set (harray h1)" using less.prems(2) by (metis set_mset_mset)
    have "harray h1 ! par ?k = e" using nth_swapped[of "par ?k" "harray h" ?k "par ?k"] q el h1(3) by simp
    then have k1: "hpos h1 ! e = par ?k" using heap_wfD(2)[OF h1(2), of "par ?k"] q h1(3) by simp
    have "up lt h e = up lt h1 e"
      using True el q h1(1) by (subst up.simps) (simp add: pq)
    moreover have "hole_ordered lt (harray h1) (hpos h1 ! e)"
      using up_step_order[OF less.prems(3)] True el(2,3) h1(3) k1 by simp
    ultimately show ?thesis using less.hyps[of h1] k1 q(1) h1(2) in1 m1 by simp
  next
    case False
    have "up lt h e = Some h"
      using False el par_less[of ?k] by (subst up.simps) (auto simp: pq)
    then show ?thesis using False less.prems el by (auto simp: above_ordered_def)
  qed
qed

lemma down_max_child:
  assumes w: "heap_wf h" and i: "2 * i + 1 < length (harray h)"
  shows "\<exists>m. m < length (harray h) \<and> 0 < m \<and> par m = i \<and> max_child lt h i = Some (harray h ! m) \<and>
     (\<forall>j < length (harray h). 0 < j \<longrightarrow> par j = i \<longrightarrow> \<not> lt (harray h ! m) (harray h ! j))"
proof -
  have n: "length (harray h) \<le> 4294967295" using w by (simp add: heap_wf_def invalid_heap_position_def)
  then have u: "u32 (2 * i + 1) = 2 * i + 1" "2 * i + 2 < length (harray h) \<Longrightarrow> u32 (2 * i + 2) = 2 * i + 2"
    using i by (simp_all add: u32_def)
  have refl: "\<not> lt a a" for a using asym by blast
  have ch: "j = 2 * i + 1 \<or> j = 2 * i + 2" if "0 < j" "par j = i" for j using that par_children by simp
  show ?thesis
  proof (cases "2 * i + 2 < length (harray h) \<and> lt (harray h ! (2 * i + 1)) (harray h ! (2 * i + 2))")
    case True
    then have "max_child lt h i = Some (harray h ! (2 * i + 2))" using i u by (simp add: max_child_def)
    moreover have "\<not> lt (harray h ! (2 * i + 2)) (harray h ! j)" if "0 < j" "par j = i" for j
      using ch[OF that] True refl asym by auto
    ultimately show ?thesis using True by (intro exI[of _ "2 * i + 2"]) simp
  next
    case False
    then have "max_child lt h i = Some (harray h ! (2 * i + 1))" using i u by (auto simp: max_child_def)
    moreover have "\<not> lt (harray h ! (2 * i + 1)) (harray h ! j)" if "0 < j" "par j = i" "j < length (harray h)" for j
      using ch[OF that(1,2)] False refl that(3) by auto
    ultimately show ?thesis using i by (intro exI[of _ "2 * i + 1"]) simp
  qed
qed

lemma hole_filled:
  assumes "hole_ordered lt A k" "above_ordered lt A k"
    and "\<And>i. i < length A \<Longrightarrow> 0 < i \<Longrightarrow> par i = k \<Longrightarrow> \<not> lt (A ! k) (A ! i)"
  shows "heap_ordered lt A"
  unfolding heap_ordered_def
proof (intro allI impI)
  fix i assume i: "i < length A" "0 < i"
  consider "i = k" | "par i = k" | "i \<noteq> k" "par i \<noteq> k" by blast
  then show "\<not> lt (A ! par i) (A ! i)"
    by cases (use assms i in \<open>auto simp: above_ordered_def hole_ordered_def\<close>)
qed

lemma down_correct:
  assumes "heap_wf h" "e \<in> set (harray h)" "hole_ordered lt (harray h) (hpos h ! e)"
    "above_ordered lt (harray h) (hpos h ! e)"
  shows "\<exists>h'. down lt h e = Some h' \<and> heap_ok lt h' \<and> mset (harray h') = mset (harray h)"
  using assms
proof (induction "length (harray h) - hpos h ! e" arbitrary: h rule: less_induct)
  case less
  let ?k = "hpos h ! e" and ?A = "harray h"
  note el = heap_wf_elem[OF less.prems(1,2)]
  show ?case
  proof (cases "2 * ?k + 1 < length ?A")
    case False
    then have "down lt h e = Some h" using el by (subst down.simps) simp
    moreover have "heap_ordered lt ?A"
      by (rule hole_filled[OF less.prems(3,4)]) (use False par_children in auto)
    ultimately show ?thesis using less.prems(1) by (simp add: heap_ok_def)
  next
    case True
    obtain m where m: "m < length ?A" "0 < m" "par m = ?k" "max_child lt h ?k = Some (?A ! m)"
      and mx: "\<And>j. j < length ?A \<Longrightarrow> 0 < j \<Longrightarrow> par j = ?k \<Longrightarrow> \<not> lt (?A ! m) (?A ! j)"
      using down_max_child[OF less.prems(1) True] by blast
    show ?thesis
    proof (cases "lt e (?A ! m)")
      case False
      then have "down lt h e = Some h" using el True m(4) by (subst down.simps) simp
      moreover have "heap_ordered lt ?A"
        by (rule hole_filled[OF less.prems(3,4)]) (use False mx neg_trans[OF False] el(3) in auto)
      ultimately show ?thesis using less.prems(1) by (simp add: heap_ok_def)
    next
      case l: True
      obtain h1 where h1: "exchange h e (?A ! m) = Some h1" "heap_wf h1" "harray h1 = swapped ?A ?k m"
        using exchange_swaps[OF less.prems(1) el(2) m(1)] el(3) by auto
      have m1: "mset (harray h1) = mset ?A" using h1(3) m el by simp
      then have in1: "e \<in> set (harray h1)" using less.prems(2) by (metis set_mset_mset)
      have "harray h1 ! m = e" using nth_swapped[of ?k ?A m m] m el h1(3) by simp
      then have k1: "hpos h1 ! e = m" using heap_wfD(2)[OF h1(2), of m] m h1(3) by simp
      have d: "down lt h e = down lt h1 e" using el True m(4) l h1(1) by (subst down.simps) simp
      have l': "lt (?A ! ?k) (?A ! m)" using l el(3) by simp
      have "hole_ordered lt (harray h1) m" "above_ordered lt (harray h1) m"
        using down_step_order[OF less.prems(3) el(2) m(1-3) l' mx] by (simp_all only: h1(3))
      moreover have "length (harray h1) - hpos h1 ! e < length ?A - ?k"
        using k1 m par_less[of m] h1(3) by simp
      ultimately show ?thesis using less.hyps[of h1] d h1(2) in1 m1 k1 by simp
    qed
  qed
qed

lemma update_correct:
  assumes "heap_wf h" "e \<in> set (harray h)" "hole_ordered lt (harray h) (hpos h ! e)"
  shows "\<exists>h'. update lt h e = Some h' \<and> heap_ok lt h' \<and> mset (harray h') = mset (harray h)"
proof -
  obtain h1 where h1: "up lt h e = Some h1" "heap_wf h1" "mset (harray h1) = mset (harray h)"
     "hole_ordered lt (harray h1) (hpos h1 ! e)" "above_ordered lt (harray h1) (hpos h1 ! e)"
    using up_correct[OF assms] by blast
  then have "e \<in> set (harray h1)" using assms(2) by (metis set_mset_mset)
  from down_correct[OF h1(2) this h1(4,5)] h1 show ?thesis by (auto simp: update_def)
qed

end


subsection \<open>The operations\<close>

lemma heap_wf_append:
  assumes w: "heap_wf h" and e: "\<not> contains h e" and n: "length (harray h) < invalid_heap_position"
  defines "h1 \<equiv> index_room (h\<lparr>harray := harray h @ [e]\<rparr>) e"
  defines "h2 \<equiv> h1\<lparr>hpos := (hpos h1)[e := length (harray h)]\<rparr>"
  shows "heap_wf h2" "harray h2 = harray h @ [e]" "hpos h2 ! e = length (harray h)"
proof -
  let ?P = "hpos h1" and ?n = "length (harray h)"
  have A: "harray h1 = harray h @ [e]" and eP: "e < length ?P" and lP: "length (hpos h) \<le> length ?P"
    by (auto simp: h1_def index_room_def)
  have P: "?P ! x = (if x < length (hpos h) then hpos h ! x else invalid_heap_position)" if "x < length ?P" for x
    using that by (auto simp: h1_def index_room_def resize_def nth_append split: if_splits)
  show "harray h2 = harray h @ [e]" "hpos h2 ! e = ?n" using A eP by (simp_all add: h2_def)
  have ne: "e \<notin> set (harray h)" using contains_iff[OF w] e by simp
  have 1: "(harray h @ [e]) ! i < length ?P \<and> ?P[e := ?n] ! ((harray h @ [e]) ! i) = i" if "i < Suc ?n" for i
  proof (cases "i < ?n")
    case True
    then have "harray h ! i \<noteq> e" using ne nth_mem by metis
    then show ?thesis using True heap_wfD[OF w True] P[of "harray h ! i"] lP by (simp add: nth_append)
  qed (use that eP in \<open>simp add: nth_append\<close>)
  have 2: "?P[e := ?n] ! x < Suc ?n \<and> (harray h @ [e]) ! (?P[e := ?n] ! x) = x"
    if "x < length ?P" "?P[e := ?n] ! x \<noteq> invalid_heap_position" for x
  proof (cases "x = e")
    case False
    then have "x < length (hpos h)" "hpos h ! x \<noteq> invalid_heap_position" "?P ! x = hpos h ! x"
      using that P[OF that(1)] by (auto split: if_splits)
    then show ?thesis using False w by (auto simp: heap_wf_def nth_append)
  qed (use eP in \<open>simp add: nth_append\<close>)
  show "heap_wf h2" using 1 2 n A by (simp add: heap_wf_def h2_def)
qed

lemma heap_wf_drop_last:
  assumes w: "heap_wf h" and A: "harray h = xs @ [e]"
  defines "h1 \<equiv> h\<lparr>hpos := (hpos h)[e := invalid_heap_position], harray := xs\<rparr>"
  shows "heap_wf h1"
proof -
  have d: "e \<notin> set xs" using heap_wf_distinct[OF w] A by simp
  have eP: "hpos h ! e = length xs" "e < length (hpos h)"
    using heap_wfD[OF w, of "length xs"] A by auto
  have 1: "xs ! i < length (hpos h) \<and> (hpos h)[e := invalid_heap_position] ! (xs ! i) = i"
    if "i < length xs" for i
  proof -
    have "xs ! i \<noteq> e" using d that nth_mem by metis
    then show ?thesis using heap_wfD[OF w, of i] A that by (simp add: nth_append)
  qed
  have 2: "(hpos h)[e := invalid_heap_position] ! x < length xs \<and> xs ! ((hpos h)[e := invalid_heap_position] ! x) = x"
    if "x < length (hpos h)" "(hpos h)[e := invalid_heap_position] ! x \<noteq> invalid_heap_position" for x
  proof -
    have "x \<noteq> e" using that by (auto simp: nth_list_update)
    then have "hpos h ! x < Suc (length xs)" "(xs @ [e]) ! (hpos h ! x) = x"
      using that w A by (auto simp: heap_wf_def)
    with \<open>x \<noteq> e\<close> show ?thesis by (auto simp: nth_append less_Suc_eq split: if_splits)
  qed
  have "length xs \<le> invalid_heap_position" using w A by (simp add: heap_wf_def)
  then show ?thesis using 1 2 by (simp add: heap_wf_def h1_def)
qed

context heap_order
begin

lemma push_back_correct:
  assumes ok: "heap_ok lt h" and e: "\<not> contains h e" and n: "length (harray h) < invalid_heap_position"
  shows "\<exists>h'. push_back lt h e = Some h' \<and> heap_ok lt h' \<and> mset (harray h') = add_mset e (mset (harray h))"
proof -
  define h1 h2 where "h1 = index_room (h\<lparr>harray := harray h @ [e]\<rparr>) e"
    and "h2 = h1\<lparr>hpos := (hpos h1)[e := length (harray h)]\<rparr>"
  have w: "heap_wf h" using ok by (simp add: heap_ok_def)
  note wf2 = heap_wf_append[OF w e n, folded h1_def, folded h2_def]
  have u: "u32 (length (harray h)) = length (harray h)" using n by (simp add: u32_def invalid_heap_position_def)
  have "\<not> lt (harray h2 ! par i) (harray h2 ! i)" if "i < length (harray h)" "0 < i" for i
    using ok that wf2(2) par_less[of i] by (auto simp: heap_ok_def heap_ordered_def nth_append)
  moreover have "par i \<noteq> length (harray h)" if "i < Suc (length (harray h))" "0 < i" for i
    using that par_less[of i] by auto
  ultimately have "hole_ordered lt (harray h2) (hpos h2 ! e)"
    using wf2 by (auto simp: hole_ordered_def)
  from update_correct[OF wf2(1) _ this] wf2(2) show ?thesis
    by (simp add: push_back_def update_def u h1_def[symmetric] h2_def[symmetric])
qed

lemma heap_ordered_max:
  assumes "heap_ordered lt A" "i < length A"
  shows "\<not> lt (A ! 0) (A ! i)"
  using assms(2)
proof (induction i rule: less_induct)
  case (less i)
  show ?case
  proof (cases "i = 0")
    case True
    then show ?thesis using asym by blast
  next
    case False
    then have "\<not> lt (A ! 0) (A ! par i)" "\<not> lt (A ! par i) (A ! i)"
      using less par_less[of i] assms(1) by (auto simp: heap_ordered_def)
    then show ?thesis using neg_trans by blast
  qed
qed

lemma pop_front_correct:
  assumes ok: "heap_ok lt h" and ne: "harray h \<noteq> []"
  shows "\<exists>h'. pop_front lt h = Some (harray h ! 0, h') \<and> heap_ok lt h' \<and>
     mset (harray h) = add_mset (harray h ! 0) (mset (harray h'))"
proof -
  let ?A = "harray h" and ?n = "length (harray h) - 1" and ?r = "harray h ! 0"
  have w: "heap_wf h" and o: "heap_ordered lt ?A" using ok by (auto simp: heap_ok_def)
  have hl: "hd ?A = ?r" "last ?A = ?A ! ?n" using ne by (simp_all add: hd_conv_nth last_conv_nth)
  obtain h1 where h1: "(if heap_size h > 1 then exchange h ?r (?A ! ?n) else Some h) = Some h1"
    "heap_wf h1" "harray h1 = swapped ?A 0 ?n"
  proof (cases "heap_size h > 1")
    case True
    then show ?thesis using that exchange_swaps[OF w, of 0 ?n] ne by auto
  next
    case False
    then have "swapped ?A 0 ?n = ?A" using ne by (cases ?A) (auto simp: heap_size_def swapped_def)
    then show ?thesis using that False w by simp
  qed
  have A1: "harray h1 ! m = (if m = ?n then ?r else if m = 0 then ?A ! ?n else ?A ! m)" if "m \<le> ?n" for m
    using nth_swapped[of 0 ?A ?n m] that ne h1(3) by (cases "?A = []") (auto simp: le_less_trans)
  have l1: "length (harray h1) = Suc ?n" using h1(3) ne by simp
  define xs where "xs = butlast (harray h1)"
  have split: "harray h1 = xs @ [?r]"
  proof -
    have ne1: "harray h1 \<noteq> []" using l1 by auto
    have "last (harray h1) = ?r" using A1[of ?n] l1 ne1 by (simp add: last_conv_nth)
    then show ?thesis using append_butlast_last_id[OF ne1] by (simp add: xs_def)
  qed
  have rP: "?r < length (hpos h1)" using heap_wf_elem(1)[OF h1(2)] split by simp
  define h3 where "h3 = h1\<lparr>hpos := (hpos h1)[?r := invalid_heap_position], harray := xs\<rparr>"
  have w3: "heap_wf h3" unfolding h3_def by (rule heap_wf_drop_last[OF h1(2) split])
  have len: "length xs = ?n" using split l1 by simp
  have xs: "xs ! m = (if m = 0 then ?A ! ?n else ?A ! m)" if "m < ?n" for m
    using A1[of m] that split len by (simp add: nth_append)
  have m3: "mset ?A = add_mset ?r (mset xs)"
  proof -
    have "mset (harray h1) = mset ?A" using h1(3) mset_swapped[of 0 ?A ?n] ne by simp
    then show ?thesis by (simp add: split)
  qed
  have hole: "hole_ordered lt xs 0"
  proof -
    have "\<not> lt (xs ! par i) (xs ! i)" if "i < ?n" "0 < i" "par i \<noteq> 0" for i
      using that xs[of i] xs[of "par i"] par_less[of i] o by (auto simp: heap_ordered_def)
    then show ?thesis using len by (simp add: hole_ordered_def)
  qed
  have run: "pop_front lt h = do { h4 \<leftarrow> (if heap_size h3 > 1 then down lt h3 (?A ! ?n) else Some h3); Some (?r, h4) }"
    using ne h1(1) rP split
    by (simp add: pop_front_def Let_def hl h3_def cong: if_cong)
  show ?thesis
  proof (cases "heap_size h3 > 1")
    case True
    then have n1: "1 < ?n" using len by (simp add: heap_size_def h3_def)
    have x0: "xs ! 0 = ?A ! ?n" using xs[of 0] n1 by simp
    have in3: "?A ! ?n \<in> set (harray h3)" using x0 len n1 nth_mem[of 0 xs] by (simp add: h3_def)
    have "hpos h3 ! (?A ! ?n) = 0" using heap_wfD(2)[OF w3, of 0] x0 len n1 by (simp add: h3_def)
    with down_correct[OF w3 in3] hole obtain h4 where "down lt h3 (?A ! ?n) = Some h4" "heap_ok lt h4"
      "mset (harray h4) = mset xs" by (auto simp: above_ordered_def h3_def)
    then show ?thesis using run True m3 by simp
  next
    case False
    have "heap_ordered lt xs"
      using False by (auto simp: heap_ordered_def heap_size_def h3_def)
    then show ?thesis using run False m3 w3 by (auto simp: heap_ok_def h3_def)
  qed
qed

lemma update_after_change:
  assumes ok: "heap_ok lt0 h" and nt: "\<And>a b c. \<not> lt0 a b \<Longrightarrow> \<not> lt0 b c \<Longrightarrow> \<not> lt0 a c"
    and e: "e \<in> set (harray h)" and same: "\<And>a b. a \<noteq> e \<Longrightarrow> b \<noteq> e \<Longrightarrow> lt a b = lt0 a b"
  shows "\<exists>h'. update lt h e = Some h' \<and> heap_ok lt h' \<and> mset (harray h') = mset (harray h)"
proof -
  let ?A = "harray h" and ?k = "hpos h ! e"
  have w: "heap_wf h" and o: "\<And>i. i < length ?A \<Longrightarrow> 0 < i \<Longrightarrow> \<not> lt0 (?A ! par i) (?A ! i)"
    using ok by (auto simp: heap_ok_def heap_ordered_def)
  have k: "?k < length ?A" "?A ! ?k = e" using heap_wf_elem[OF w e] by auto
  have ne: "?A ! i \<noteq> e" if "i < length ?A" "i \<noteq> ?k" for i using heap_wfD(2)[OF w that(1)] that by auto
  have 1: "\<not> lt (?A ! par i) (?A ! i)" if "i < length ?A" "0 < i" "i \<noteq> ?k" "par i \<noteq> ?k" for i
    using o[OF that(1,2)] same ne[OF that(1,3)] ne[of "par i"] that par_less[of i] by auto
  have 2: "\<not> lt (?A ! par ?k) (?A ! i)" if "i < length ?A" "0 < i" "0 < ?k" "par i = ?k" for i
  proof -
    have "\<not> lt0 (?A ! par ?k) (?A ! ?k)" "\<not> lt0 (?A ! ?k) (?A ! i)"
      using o[OF k(1) that(3)] o[OF that(1,2)] that(4) by auto
    then have "\<not> lt0 (?A ! par ?k) (?A ! i)" by (rule nt)
    then show ?thesis using same ne[of i] ne[of "par ?k"] that par_less[of i] par_less[of ?k] k by auto
  qed
  have "hole_ordered lt ?A ?k" using 1 2 by (simp add: hole_ordered_def)
  then show ?thesis by (rule update_correct[OF w e])
qed

end

end
