(* ===== verification/Score.thy ===== *)
theory Score
  imports Heap Complex_Main
begin

text \<open>
  Clients of the heap: the EVSIDS scores of \<^verbatim>\<open>src/score.cpp\<close>, \<^verbatim>\<open>src/analyze.cpp\<close> and
  \<^verbatim>\<open>src/decide.cpp\<close>, and the comparisons of the elimination and blocking schedules.

  Scores are elements of an ordered field: the rounding of \<^verbatim>\<open>double\<close> is not modelled.
\<close>

subsection \<open>Comparisons\<close>

definition score_smaller :: "'s::linorder list \<Rightarrow> nat \<Rightarrow> nat \<Rightarrow> bool" where
  "score_smaller stab a b =
     (let s = stab ! a; t = stab ! b in if s < t then True else if s > t then False else a > b)"

definition compute_elim_score :: "(nat \<Rightarrow> int) \<Rightarrow> int \<Rightarrow> int \<Rightarrow> nat \<Rightarrow> int" where
  "compute_elim_score ntab elimsum elimprod lit =
     (let uidx = 2 * lit; pos = ntab uidx; neg = ntab (uidx + 1)
      in if pos = 0 then - neg
         else if neg = 0 then - pos
         else elimprod * (pos * neg) + elimsum * (pos + neg))"

definition elim_more :: "(nat \<Rightarrow> int) \<Rightarrow> int \<Rightarrow> int \<Rightarrow> nat \<Rightarrow> nat \<Rightarrow> bool" where
  "elim_more ntab elimsum elimprod a b =
     (let s = compute_elim_score ntab elimsum elimprod a; t = compute_elim_score ntab elimsum elimprod b
      in if s > t then True else if s < t then False else a > b)"

definition u2i :: "nat \<Rightarrow> int" where
  "u2i u = (if odd u then - int (u div 2) else int (u div 2))"

definition block_more_occs_size :: "(int \<Rightarrow> nat) \<Rightarrow> nat \<Rightarrow> nat \<Rightarrow> bool" where
  "block_more_occs_size noccs a b =
     (let s = noccs (- u2i a); t = noccs (- u2i b); s' = noccs (u2i a); t' = noccs (u2i b)
      in if s > t then True else if s < t then False
         else if s' > t' then True else if s' < t' then False else a > b)"

interpretation score_order: heap_order "score_smaller stab" for stab :: "'s::linorder list"
  by unfold_locales (auto simp: score_smaller_def Let_def split: if_splits)

interpretation elim_order: heap_order "elim_more ntab es ep"
  by unfold_locales (auto simp: elim_more_def Let_def split: if_splits)

interpretation block_order: heap_order "block_more_occs_size noccs"
  by unfold_locales (auto simp: block_more_occs_size_def Let_def split: if_splits)

subsection \<open>Loops over a schedule\<close>

text \<open>\<^verbatim>\<open>while (!scores.empty ()) { ... scores.pop_front (); ... }\<close>\<close>

partial_function (option) drain ::
  "('q \<Rightarrow> bool) \<Rightarrow> ('q \<Rightarrow> (nat \<times> 'q) option) \<Rightarrow> 'q \<Rightarrow> nat list \<Rightarrow> (nat list \<times> 'q) option" where
  "drain emp pop q acc =
     (if emp q then Some (acc, q)
      else do { (x, q') \<leftarrow> pop q; drain emp pop q' (acc @ [x]) })"

text \<open>The loop of \<^verbatim>\<open>next_decision_variable_with_best_score\<close>.\<close>

partial_function (option) best_unassigned ::
  "('q \<Rightarrow> nat option) \<Rightarrow> ('q \<Rightarrow> (nat \<times> 'q) option) \<Rightarrow> (nat \<Rightarrow> bool) \<Rightarrow> 'q \<Rightarrow> (nat \<times> 'q) option" where
  "best_unassigned frt pop assigned q = do {
     res \<leftarrow> frt q;
     if \<not> assigned res then Some (res, q)
     else do { (_, q') \<leftarrow> pop q; best_unassigned frt pop assigned q' } }"

declare drain.simps [code] best_unassigned.simps [code]

text \<open>What a schedule promises to such loops.\<close>

locale schedule =
  fixes ok :: "'q \<Rightarrow> bool" and elems :: "'q \<Rightarrow> nat multiset" and lt :: "nat \<Rightarrow> nat \<Rightarrow> bool"
    and emp :: "'q \<Rightarrow> bool" and frt :: "'q \<Rightarrow> nat option" and pop :: "'q \<Rightarrow> (nat \<times> 'q) option"
  assumes empty_iff: "ok q \<Longrightarrow> emp q \<longleftrightarrow> elems q = {#}"
    and pop_max: "ok q \<Longrightarrow> elems q \<noteq> {#} \<Longrightarrow>
      \<exists>x q'. frt q = Some x \<and> pop q = Some (x, q') \<and> ok q' \<and> elems q = add_mset x (elems q') \<and>
        (\<forall>y\<in>#elems q. \<not> lt x y)"
begin

lemma drain_sorted:
  assumes "ok q"
  shows "\<exists>xs q'. drain emp pop q acc = Some (acc @ xs, q') \<and> ok q' \<and> elems q' = {#} \<and>
     mset xs = elems q \<and> sorted_wrt (\<lambda>x y. \<not> lt x y) xs"
  using assms
proof (induction "size (elems q)" arbitrary: q acc)
  case 0
  then show ?case using empty_iff[OF 0(2)] by (subst drain.simps) simp
next
  case (Suc n)
  then have ne: "elems q \<noteq> {#}" by auto
  obtain x q1 where p: "pop q = Some (x, q1)" "ok q1" "elems q = add_mset x (elems q1)"
    "\<forall>y\<in>#elems q. \<not> lt x y" using pop_max[OF Suc.prems ne] by blast
  obtain xs q2 where r: "drain emp pop q1 (acc @ [x]) = Some ((acc @ [x]) @ xs, q2)" "ok q2" "elems q2 = {#}"
    "mset xs = elems q1" "sorted_wrt (\<lambda>x y. \<not> lt x y) xs"
    using Suc.hyps(1)[of q1 "acc @ [x]"] Suc.hyps(2) p by auto
  have "drain emp pop q acc = Some (acc @ (x # xs), q2)"
    using p(1) r(1) empty_iff[OF Suc.prems] ne by (subst drain.simps) simp
  moreover have "\<forall>y\<in>set xs. \<not> lt x y" using p(3,4) r(4) by (metis insert_iff set_mset_add_mset_insert set_mset_mset)
  ultimately show ?case using r p(3) by (intro exI[of _ "x # xs"]) simp
qed

lemma best_unassigned_correct:
  assumes "ok q" and "\<exists>x\<in>#elems q. \<not> assigned x"
  shows "\<exists>x q'. best_unassigned frt pop assigned q = Some (x, q') \<and> ok q' \<and> x \<in># elems q \<and> \<not> assigned x \<and>
     (\<forall>y\<in>#elems q. \<not> assigned y \<longrightarrow> \<not> lt x y) \<and>
     filter_mset (\<lambda>y. \<not> assigned y) (elems q') = filter_mset (\<lambda>y. \<not> assigned y) (elems q) \<and> elems q' \<subseteq># elems q"
  using assms
proof (induction "size (elems q)" arbitrary: q)
  case 0
  then show ?case by auto
next
  case (Suc n)
  then have ne: "elems q \<noteq> {#}" by auto
  obtain x q1 where p: "frt q = Some x" "pop q = Some (x, q1)" "ok q1" "elems q = add_mset x (elems q1)"
    "\<forall>y\<in>#elems q. \<not> lt x y" using pop_max[OF Suc.prems(1) ne] by blast
  show ?case
  proof (cases "assigned x")
    case False
    then show ?thesis using p Suc.prems(1) by (subst best_unassigned.simps) auto
  next
    case True
    have "best_unassigned frt pop assigned q = best_unassigned frt pop assigned q1"
      using p True by (subst best_unassigned.simps) simp
    moreover have "\<exists>x\<in>#elems q1. \<not> assigned x" using Suc.prems(2) p(4) True by auto
    ultimately show ?thesis using Suc.hyps(1)[of q1] Suc.hyps(2) p True
      by (auto intro: subset_mset.order_trans simp: subseteq_mset_def le_SucI)
  qed
qed

end

lemma front_pop: "harray h \<noteq> [] \<Longrightarrow> front h = Some (harray h ! 0)"
  by (simp add: front_def)

sublocale heap_order \<subseteq> sched: schedule "heap_ok lt" "\<lambda>h. mset (harray h)" lt heap_empty front "pop_front lt"
proof unfold_locales
  fix q assume ok: "heap_ok lt q"
  show "heap_empty q \<longleftrightarrow> mset (harray q) = {#}" by (simp add: heap_empty_def)
  assume "mset (harray q) \<noteq> {#}"
  then have ne: "harray q \<noteq> []" by auto
  have "\<forall>y\<in>#mset (harray q). \<not> lt (harray q ! 0) y"
    using heap_ordered_max ok by (auto simp: heap_ok_def in_set_conv_nth)
  with pop_front_correct[OF ok ne] front_pop[OF ne]
  show "\<exists>x q'. front q = Some x \<and> pop_front lt q = Some (x, q') \<and> heap_ok lt q' \<and>
      mset (harray q) = add_mset x (mset (harray q')) \<and> (\<forall>y\<in>#mset (harray q). \<not> lt x y)"
    by blast
qed


subsection \<open>The scores\<close>

record 's scores_state =
  stab :: "'s list"
  scores :: heap
  score_inc :: 's

definition lt_of :: "'s::linorder scores_state \<Rightarrow> nat \<Rightarrow> nat \<Rightarrow> bool" where
  "lt_of st = score_smaller (stab st)"

text \<open>Push a sequence of variables.\<close>

fun push_all :: "'s::linorder scores_state \<Rightarrow> nat list \<Rightarrow> 's scores_state option" where
  "push_all st [] = Some st"
| "push_all st (x # xs) = do { h \<leftarrow> push_back (lt_of st) (scores st) x; push_all (st\<lparr>scores := h\<rparr>) xs }"

definition init_scores :: "nat \<Rightarrow> nat \<Rightarrow> 's::linorder scores_state \<Rightarrow> 's scores_state option" where
  "init_scores old_max_var new_max_var st = push_all st (map Suc [old_max_var..<new_max_var])"

text \<open>The last loop of \<^verbatim>\<open>shuffle_scores\<close>.\<close>

fun rescore_all :: "'s::linordered_field scores_state \<Rightarrow> nat list \<Rightarrow> 's scores_state option" where
  "rescore_all st [] = Some st"
| "rescore_all st (idx # xs) = do {
     tab \<leftarrow> vec_put (stab st) idx (score_inc st);
     let st1 = st\<lparr>stab := tab, score_inc := score_inc st + 1\<rparr>;
     h \<leftarrow> push_back (lt_of st1) (scores st1) idx;
     rescore_all (st1\<lparr>scores := h\<rparr>) xs }"

text \<open>
  \<open>picks i\<close> is the result of \<^verbatim>\<open>random.pick_int (i, max_var - 1)\<close> in round \<open>i\<close> of the random
  shuffle.
\<close>

definition shuffle_order :: "(nat \<Rightarrow> nat) \<Rightarrow> nat \<Rightarrow> nat list" where
  "shuffle_order picks max_var =
     foldl (\<lambda>xs i. swapped xs i (picks i)) (rev (map Suc [0..<max_var])) [0..<max_var - 1]"

definition shuffle_scores ::
  "bool \<Rightarrow> bool \<Rightarrow> bool \<Rightarrow> (nat \<Rightarrow> nat) \<Rightarrow> nat \<Rightarrow> 's::linordered_field scores_state \<Rightarrow> 's scores_state option" where
  "shuffle_scores opt_shuffle opt_shufflescores opt_shufflerandom picks max_var st =
     (if \<not> opt_shuffle then Some st
      else if \<not> opt_shufflescores then Some st
      else do {
        (order, h) \<leftarrow> (if opt_shufflerandom then Some (shuffle_order picks max_var, heap_clear (scores st))
                       else drain heap_empty (pop_front (lt_of st)) (scores st) []);
        rescore_all (st\<lparr>scores := h, score_inc := 0\<rparr>) order })"

definition evsids_limit_hit :: "'s::linordered_field \<Rightarrow> bool" where
  "evsids_limit_hit score = (score > 10 ^ 150)"

definition rescale_variable_scores :: "nat \<Rightarrow> 's::linordered_field scores_state \<Rightarrow> 's scores_state option" where
  "rescale_variable_scores max_var st =
     (if max_var < length (stab st)
      then let divider = foldl (\<lambda>d idx. if stab st ! idx > d then stab st ! idx else d) (score_inc st) [1..<Suc max_var];
               factor = 1 / divider
           in Some (st\<lparr>stab := map (\<lambda>idx. if 1 \<le> idx \<and> idx \<le> max_var then stab st ! idx * factor else stab st ! idx)
                                 [0..<length (stab st)],
                       score_inc := score_inc st * factor\<rparr>)
      else None)"

definition bump_variable_score :: "nat \<Rightarrow> nat \<Rightarrow> 's::linordered_field scores_state \<Rightarrow> 's scores_state option" where
  "bump_variable_score max_var idx st = do {
     old_score \<leftarrow> vec_at (stab st) idx;
     st1 \<leftarrow> (if evsids_limit_hit (old_score + score_inc st) then rescale_variable_scores max_var st else Some st);
     old_score \<leftarrow> vec_at (stab st1) idx;
     tab \<leftarrow> vec_put (stab st1) idx (old_score + score_inc st1);
     let st2 = st1\<lparr>stab := tab\<rparr>;
     if contains (scores st2) idx
     then do { h \<leftarrow> update (lt_of st2) (scores st2) idx; Some (st2\<lparr>scores := h\<rparr>) }
     else Some st2 }"

definition next_decision_variable_with_best_score ::
  "(nat \<Rightarrow> bool) \<Rightarrow> 's::linorder scores_state \<Rightarrow> (nat \<times> 's scores_state) option" where
  "next_decision_variable_with_best_score assigned st = do {
     (res, h) \<leftarrow> best_unassigned front (pop_front (lt_of st)) assigned (scores st);
     Some (res, st\<lparr>scores := h\<rparr>) }"

definition scores_ok :: "nat \<Rightarrow> 's::linorder scores_state \<Rightarrow> bool" where
  "scores_ok max_var st \<longleftrightarrow> max_var < length (stab st) \<and> max_var < invalid_heap_position \<and>
     heap_ok (lt_of st) (scores st) \<and> set (harray (scores st)) \<subseteq> {1..max_var}"

lemma heap_ok_cong:
  assumes "\<And>a b. a \<in> set (harray h) \<Longrightarrow> b \<in> set (harray h) \<Longrightarrow> lt a b = lt' a b"
  shows "heap_ok lt h = heap_ok lt' h"
proof -
  have "lt (harray h ! par i) (harray h ! i) = lt' (harray h ! par i) (harray h ! i)"
    if "i < length (harray h)" "0 < i" for i
    using assms that par_less[of i] by simp
  then show ?thesis by (auto simp: heap_ok_def heap_ordered_def)
qed

lemma scores_ok_size: "scores_ok n st \<Longrightarrow> length (harray (scores st)) \<le> n"
proof -
  assume ok: "scores_ok n st"
  then have "distinct (harray (scores st))" by (auto simp: scores_ok_def heap_ok_def intro: heap_wf_distinct)
  then have "length (harray (scores st)) = card (set (harray (scores st)))" by (simp add: distinct_card)
  also have "\<dots> \<le> card {1..n}" using ok by (intro card_mono) (auto simp: scores_ok_def)
  finally show ?thesis by simp
qed

lemma push_one_ok:
  assumes ok: "scores_ok n st" and x: "x \<in> {1..n}" "x \<notin> set (harray (scores st))"
  shows "\<exists>h. push_back (lt_of st) (scores st) x = Some h \<and> scores_ok n (st\<lparr>scores := h\<rparr>) \<and>
     mset (harray h) = add_mset x (mset (harray (scores st))) \<and> set (harray h) = insert x (set (harray (scores st)))"
proof -
  have hok: "heap_ok (lt_of st) (scores st)" and wf: "heap_wf (scores st)"
    using ok by (auto simp: scores_ok_def heap_ok_def)
  have nc: "\<not> contains (scores st) x" using contains_iff[OF wf] x(2) by auto
  have len: "length (harray (scores st)) < invalid_heap_position"
    using scores_ok_size[OF ok] ok by (simp add: scores_ok_def)
  obtain h where h: "push_back (lt_of st) (scores st) x = Some h" "heap_ok (lt_of st) h"
    "mset (harray h) = add_mset x (mset (harray (scores st)))"
    using score_order.push_back_correct[OF hok[unfolded lt_of_def] nc len] by (auto simp: lt_of_def)
  have set_h: "set (harray h) = insert x (set (harray (scores st)))"
    using h(3) by (metis set_mset_add_mset_insert set_mset_mset)
  have "scores_ok n (st\<lparr>scores := h\<rparr>)" using ok x h set_h by (simp add: scores_ok_def lt_of_def)
  then show ?thesis using h set_h by blast
qed

lemma push_all_ok:
  assumes "scores_ok n st" "set xs \<subseteq> {1..n}" "distinct xs" "set xs \<inter> set (harray (scores st)) = {}"
  shows "\<exists>h. push_all st xs = Some (st\<lparr>scores := h\<rparr>) \<and> scores_ok n (st\<lparr>scores := h\<rparr>) \<and>
     mset (harray h) = mset xs + mset (harray (scores st))"
  using assms
proof (induction xs arbitrary: st)
  case Nil
  then show ?case by (intro exI[of _ "scores st"]) simp
next
  case (Cons x xs)
  obtain h where h: "push_back (lt_of st) (scores st) x = Some h" "scores_ok n (st\<lparr>scores := h\<rparr>)"
    "mset (harray h) = add_mset x (mset (harray (scores st)))" "set (harray h) = insert x (set (harray (scores st)))"
    using push_one_ok[OF Cons.prems(1), of x] Cons.prems by auto
  with Cons.IH[of "st\<lparr>scores := h\<rparr>"] Cons.prems obtain h2 where
    "push_all (st\<lparr>scores := h\<rparr>) xs = Some (st\<lparr>scores := h2\<rparr>)" "scores_ok n (st\<lparr>scores := h2\<rparr>)"
    "mset (harray h2) = mset xs + mset (harray h)" by auto
  then show ?case using h by auto
qed


lemma sorted_wrt_unique:
  assumes "\<And>x y. R x y \<Longrightarrow> R y x \<Longrightarrow> x = y"
  shows "mset xs = mset ys \<Longrightarrow> sorted_wrt R xs \<Longrightarrow> sorted_wrt R ys \<Longrightarrow> xs = ys"
proof (induction xs arbitrary: ys)
  case (Cons x xs)
  then obtain y zs where ys: "ys = y # zs" by (cases ys) auto
  have "x = y"
  proof (rule ccontr)
    assume "x \<noteq> y"
    then have "y \<in> set xs" "x \<in> set zs"
      using Cons.prems(1) ys by (metis insert_iff list.simps(15) set_mset_mset)+
    then show False using Cons.prems(2,3) ys assms \<open>x \<noteq> y\<close> by auto
  qed
  then show ?case using Cons ys by auto
qed simp

lemma rescore_all_ok:
  assumes "scores_ok n st" "set xs \<subseteq> {1..n}" "distinct xs" "set xs \<inter> set (harray (scores st)) = {}"
  shows "\<exists>st'. rescore_all st xs = Some st' \<and> scores_ok n st' \<and>
     mset (harray (scores st')) = mset xs + mset (harray (scores st)) \<and>
     (\<forall>i < length xs. stab st' ! (xs ! i) = score_inc st + of_nat i) \<and>
     (\<forall>x. x \<notin> set xs \<longrightarrow> stab st' ! x = stab st ! x)"
  using assms
proof (induction xs arbitrary: st)
  case Nil
  then show ?case by (intro exI[of _ st]) simp
next
  case (Cons x xs)
  define st1 where "st1 = st\<lparr>stab := (stab st)[x := score_inc st], score_inc := score_inc st + 1\<rparr>"
  have x: "x < length (stab st)" "x \<notin> set (harray (scores st))" using Cons.prems by (auto simp: scores_ok_def)
  have "heap_ok (lt_of st1) (scores st) = heap_ok (lt_of st) (scores st)"
    by (rule heap_ok_cong) (use x in \<open>auto simp: lt_of_def score_smaller_def st1_def nth_list_update\<close>)
  then have ok1: "scores_ok n st1" using Cons.prems(1) by (simp add: scores_ok_def st1_def)
  obtain h where h: "push_back (lt_of st1) (scores st1) x = Some h" "scores_ok n (st1\<lparr>scores := h\<rparr>)"
    "mset (harray h) = add_mset x (mset (harray (scores st)))" "set (harray h) = insert x (set (harray (scores st)))"
    using push_one_ok[OF ok1, of x] Cons.prems x(2) by (auto simp: st1_def)
  obtain st' where st': "rescore_all (st1\<lparr>scores := h\<rparr>) xs = Some st'" "scores_ok n st'"
     "mset (harray (scores st')) = mset xs + mset (harray h)"
     "\<forall>i < length xs. stab st' ! (xs ! i) = score_inc st + 1 + of_nat i"
     "\<forall>y. y \<notin> set xs \<longrightarrow> stab st' ! y = stab st1 ! y"
    using Cons.IH[OF h(2)] Cons.prems h(4) by (auto simp: st1_def)
  have run: "rescore_all st (x # xs) = Some st'" using x h(1) st'(1) by (simp add: st1_def Let_def)
  have "stab st' ! ((x # xs) ! i) = score_inc st + of_nat i" if "i < length (x # xs)" for i
    using that st'(4,5) Cons.prems(3) x by (cases i) (auto simp: st1_def)
  moreover have "stab st' ! y = stab st ! y" if "y \<notin> set (x # xs)" for y using that st'(5) by (auto simp: st1_def)
  ultimately show ?case using run st'(2,3) h(3) by auto
qed

lemma drain_scores:
  assumes "scores_ok n st"
  shows "\<exists>xs h. drain heap_empty (pop_front (lt_of st)) (scores st) [] = Some (xs, h) \<and>
     scores_ok n (st\<lparr>scores := h\<rparr>) \<and> harray h = [] \<and> mset xs = mset (harray (scores st)) \<and>
     sorted_wrt (\<lambda>x y. \<not> lt_of st x y) xs"
proof -
  have ok: "heap_ok (score_smaller (stab st)) (scores st)" using assms by (simp add: scores_ok_def lt_of_def)
  from score_order.sched.drain_sorted[OF ok, of "[]"] show ?thesis
    using assms by (auto simp: scores_ok_def lt_of_def)
qed

lemma lt_of_total: "\<not> lt_of st x y \<Longrightarrow> \<not> lt_of st y x \<Longrightarrow> x = y"
  by (auto simp: lt_of_def score_smaller_def Let_def split: if_splits)

text \<open>
  \<^bold>\<open>C25\<close> (\<open>shuffle_scores\<close>).  Without the random option, shuffling turns the decision order
  around: the variables come off the heap afterwards in exactly the opposite order.
\<close>

theorem shuffle_scores_reverses:
  fixes st :: "'s::linordered_field scores_state"
  assumes "scores_ok n st"
  shows "\<exists>st' xs h h'. shuffle_scores True True False picks n st = Some st' \<and> scores_ok n st' \<and>
     drain heap_empty (pop_front (lt_of st)) (scores st) [] = Some (xs, h) \<and>
     drain heap_empty (pop_front (lt_of st')) (scores st') [] = Some (rev xs, h')"
proof -
  obtain xs h where d: "drain heap_empty (pop_front (lt_of st)) (scores st) [] = Some (xs, h)"
    "scores_ok n (st\<lparr>scores := h\<rparr>)" "harray h = []" "mset xs = mset (harray (scores st))"
    using drain_scores[OF assms] by blast
  have dist: "distinct (harray (scores st))" and rng: "set (harray (scores st)) \<subseteq> {1..n}"
    using assms by (auto simp: scores_ok_def heap_ok_def intro: heap_wf_distinct)
  then have xs: "distinct xs" "set xs \<subseteq> {1..n}" using d(4) by (metis mset_eq_imp_distinct_iff, metis mset_eq_setD)
  have ok0: "scores_ok n (st\<lparr>scores := h, score_inc := 0\<rparr>)" using d(2) by (simp add: scores_ok_def lt_of_def)
  from rescore_all_ok[OF ok0 xs(2,1)] d(3) obtain st' where
    r: "rescore_all (st\<lparr>scores := h, score_inc := 0\<rparr>) xs = Some st'" "scores_ok n st'"
     "mset (harray (scores st')) = mset xs" "\<forall>i < length xs. stab st' ! (xs ! i) = of_nat i" by auto
  obtain ys h' where d': "drain heap_empty (pop_front (lt_of st')) (scores st') [] = Some (ys, h')"
    "mset ys = mset xs" "sorted_wrt (\<lambda>x y. \<not> lt_of st' x y) ys"
    using drain_scores[OF r(2)] r(3) by auto
  have up: "\<not> lt_of st' (xs ! j) (xs ! i)" if "i < j" "j < length xs" for i j
  proof -
    have "stab st' ! (xs ! i) < stab st' ! (xs ! j)" using r(4) that by simp
    then show ?thesis by (simp add: lt_of_def score_smaller_def)
  qed
  have sr: "sorted_wrt (\<lambda>x y. \<not> lt_of st' x y) (rev xs)"
    unfolding sorted_wrt_rev unfolding sorted_wrt_iff_nth_less by (intro allI impI up)
  have "mset ys = mset (rev xs)" using d'(2) by simp
  then have "ys = rev xs"
    by (rule sorted_wrt_unique[where R = "\<lambda>x y. \<not> lt_of st' x y", rotated, OF _ d'(3) sr]) (rule lt_of_total)
  then show ?thesis using d(1) r(1,2) d'(1) by (simp add: shuffle_scores_def)
qed

text \<open>
  \<^bold>\<open>C23\<close> (\<open>next_decision_variable_with_best_score\<close>).  If the heap holds every unassigned
  variable, the function returns an unassigned variable of maximal score, removes no unassigned
  variable from the heap and keeps the heap in order.
\<close>

theorem best_score_decision:
  assumes "scores_ok n st" and "\<forall>x\<in>{1..n}. \<not> assigned x \<longrightarrow> contains (scores st) x"
    and "\<exists>x\<in>{1..n}. \<not> assigned x"
  shows "\<exists>x st'. next_decision_variable_with_best_score assigned st = Some (x, st') \<and>
     x \<in> {1..n} \<and> \<not> assigned x \<and> (\<forall>y\<in>{1..n}. \<not> assigned y \<longrightarrow> \<not> score_smaller (stab st) x y) \<and>
     scores_ok n st' \<and> (\<forall>y\<in>{1..n}. \<not> assigned y \<longrightarrow> contains (scores st') y)"
proof -
  let ?h = "scores st"
  have ok: "heap_ok (score_smaller (stab st)) ?h" and wf: "heap_wf ?h" and rng: "set (harray ?h) \<subseteq> {1..n}"
    using assms(1) by (auto simp: scores_ok_def lt_of_def heap_ok_def)
  have all: "x \<in># mset (harray ?h)" if "x \<in> {1..n}" "\<not> assigned x" for x
    using assms(2) that contains_iff[OF wf] by auto
  obtain x h' where r: "best_unassigned front (pop_front (score_smaller (stab st))) assigned ?h = Some (x, h')"
    "heap_ok (score_smaller (stab st)) h'" "x \<in># mset (harray ?h)" "\<not> assigned x"
    "\<forall>y\<in>#mset (harray ?h). \<not> assigned y \<longrightarrow> \<not> score_smaller (stab st) x y"
    "filter_mset (\<lambda>y. \<not> assigned y) (mset (harray h')) = filter_mset (\<lambda>y. \<not> assigned y) (mset (harray ?h))"
    "mset (harray h') \<subseteq># mset (harray ?h)"
    using score_order.sched.best_unassigned_correct[OF ok, of assigned] assms(3) all by blast
  have sub: "set (harray h') \<subseteq> set (harray ?h)" using set_mset_mono[OF r(7)] by simp
  have "y \<in># mset (harray h')" if "y \<in> {1..n}" "\<not> assigned y" for y
  proof -
    have "y \<in># filter_mset (\<lambda>y. \<not> assigned y) (mset (harray ?h))" using all[OF that] that(2) by simp
    then show ?thesis by (simp add: r(6)[symmetric])
  qed
  moreover have "heap_wf h'" using r(2) by (simp add: heap_ok_def)
  ultimately have "\<forall>y\<in>{1..n}. \<not> assigned y \<longrightarrow> contains h' y" using contains_iff by auto
  moreover have "scores_ok n (st\<lparr>scores := h'\<rparr>)"
    using assms(1) r(2) subset_trans[OF sub rng] by (simp add: scores_ok_def lt_of_def)
  ultimately show ?thesis using r all rng
    by (intro exI[of _ x] exI[of _ "st\<lparr>scores := h'\<rparr>"])
      (auto simp: next_decision_variable_with_best_score_def lt_of_def)
qed

lemma rescale_ok:
  fixes st :: "'s::linordered_field scores_state"
  assumes "scores_ok n st" "0 < score_inc st"
  shows "\<exists>st'. rescale_variable_scores n st = Some st' \<and> scores_ok n st' \<and> 0 < score_inc st' \<and>
    scores st' = scores st"
proof -
  define d where "d = foldl (\<lambda>d idx. if stab st ! idx > d then stab st ! idx else d) (score_inc st) [1..<Suc n]"
  define tab where "tab = map (\<lambda>idx. if 1 \<le> idx \<and> idx \<le> n then stab st ! idx * (1 / d) else stab st ! idx)
      [0..<length (stab st)]"
  have "c \<le> foldl (\<lambda>d idx. if stab st ! idx > d then stab st ! idx else d) c xs" for c xs
  proof (induction xs arbitrary: c)
    case (Cons x xs)
    show ?case using Cons.IH[of "if stab st ! x > c then stab st ! x else c"]
      by (auto split: if_splits)
  qed simp
  then have d: "0 < d" using assms(2) unfolding d_def by (meson order_less_le_trans)
  have nl: "n < length (stab st)" using assms(1) by (simp add: scores_ok_def)
  have r: "rescale_variable_scores n st = Some (st\<lparr>stab := tab, score_inc := score_inc st * (1 / d)\<rparr>)"
    using nl by (simp add: rescale_variable_scores_def d_def tab_def Let_def)
  have tabi: "tab ! a = stab st ! a / d" if "a \<in> {1..n}" for a
    using that nl by (simp add: tab_def)
  have "score_smaller tab a b = score_smaller (stab st) a b" if "a \<in> {1..n}" "b \<in> {1..n}" for a b
    using that d by (simp add: score_smaller_def tabi divide_less_cancel)
  then have "heap_ok (lt_of (st\<lparr>stab := tab, score_inc := score_inc st * (1 / d)\<rparr>)) (scores st) = heap_ok (lt_of st) (scores st)"
    using assms(1) by (intro heap_ok_cong) (simp add: lt_of_def scores_ok_def subset_iff)
  then have "scores_ok n (st\<lparr>stab := tab, score_inc := score_inc st * (1 / d)\<rparr>)"
    using assms(1) by (simp add: scores_ok_def tab_def)
  moreover have "0 < score_inc st * (1 / d)" using assms(2) d by simp
  ultimately show ?thesis using r by simp
qed

lemma update_scores:
  assumes ok: "heap_ok (lt_of st1) h" and e: "e \<in> set (harray h)"
    and same: "\<And>a b. a \<noteq> e \<Longrightarrow> b \<noteq> e \<Longrightarrow> lt_of st2 a b = lt_of st1 a b"
  shows "\<exists>h'. update (lt_of st2) h e = Some h' \<and> heap_ok (lt_of st2) h' \<and> mset (harray h') = mset (harray h)"
  unfolding lt_of_def[of st2]
proof (rule score_order.update_after_change)
  show "heap_ok (lt_of st1) h" "e \<in> set (harray h)" by fact+
  show "\<not> lt_of st1 a b \<Longrightarrow> \<not> lt_of st1 b c \<Longrightarrow> \<not> lt_of st1 a c" for a b c
    unfolding lt_of_def by (rule score_order.neg_trans)
  show "a \<noteq> e \<Longrightarrow> b \<noteq> e \<Longrightarrow> score_smaller (stab st2) a b = lt_of st1 a b" for a b
    using same[unfolded lt_of_def[of st2]] .
qed



definition demo_scores :: "rat scores_state" where
  "demo_scores = \<lparr>stab = [0, 5, 1, 7], scores = \<lparr>harray = [3, 2, 1], hpos = [4294967295, 2, 1, 0]\<rparr>, score_inc = 1\<rparr>"

lemma demo_scores_ok: "scores_ok 3 demo_scores"
  by (simp add: demo_scores_def scores_ok_def heap_ok_def heap_wf_def heap_ordered_def
      invalid_heap_position_def lt_of_def score_smaller_def par_def numeral_3_eq_3 numeral_2_eq_2 less_Suc_eq
      all_conj_distrib)

theorem shuffle_scores_reverses_witness:
  "\<exists>st' xs h h'. shuffle_scores True True False id 3 demo_scores = Some st' \<and> scores_ok 3 st' \<and>
     drain heap_empty (pop_front (lt_of demo_scores)) (scores demo_scores) [] = Some (xs, h) \<and>
     drain heap_empty (pop_front (lt_of st')) (scores st') [] = Some (rev xs, h')"
  by (rule shuffle_scores_reverses[OF demo_scores_ok])

theorem best_score_decision_witness:
  "\<exists>st'. next_decision_variable_with_best_score (\<lambda>x. x = 3) demo_scores = Some (1, st') \<and> scores_ok 3 st'"
proof -
  have dom: "{1..3::nat} = {1, 2, 3}" by auto
  have "\<forall>x\<in>{1..3}. x \<noteq> 3 \<longrightarrow> contains (scores demo_scores) x"
    unfolding dom by (simp add: contains_def demo_scores_def invalid_heap_position_def)
  then obtain x st' where r: "next_decision_variable_with_best_score (\<lambda>x. x = 3) demo_scores = Some (x, st')"
    "scores_ok 3 st'" "x \<in> {1..3}" "x \<noteq> 3" "\<forall>y\<in>{1..3}. y \<noteq> 3 \<longrightarrow> \<not> score_smaller (stab demo_scores) x y"
    using best_score_decision[OF demo_scores_ok, of "\<lambda>x. x = 3"] unfolding dom by auto
  then have "x = 1" unfolding dom by (auto simp: score_smaller_def demo_scores_def)
  then show ?thesis using r by blast
qed


end
