(* ===== verification/Vmtf.thy ===== *)
theory Vmtf
  imports Heap
begin

text \<open>
  The variable-move-to-front decision queue: \<^verbatim>\<open>src/queue.hpp\<close>, \<^verbatim>\<open>src/queue.cpp\<close>, \<^verbatim>\<open>bump_queue\<close> of
  \<^verbatim>\<open>src/analyze.cpp\<close>, the queue part of \<^verbatim>\<open>unassign\<close> in \<^verbatim>\<open>src/backtrack.cpp\<close> and
  \<^verbatim>\<open>next_decision_variable_on_queue\<close> of \<^verbatim>\<open>src/decide.cpp\<close>.

  Variable indices are natural numbers and zero is the null link, as in the code.  \<open>None\<close> is an
  access out of range or a walk that does not end.
\<close>

record link =
  lprev :: nat
  lnext :: nat

record queue =
  links :: "link list"
  qfirst :: nat
  qlast :: nat
  unassigned :: nat
  qbumped :: int
  btab :: "int list"
  bumped :: int

definition set_prev :: "link list \<Rightarrow> nat \<Rightarrow> nat \<Rightarrow> link list option" where
  "set_prev L i p = do { l \<leftarrow> vec_at L i; vec_put L i (l\<lparr>lprev := p\<rparr>) }"

definition set_next :: "link list \<Rightarrow> nat \<Rightarrow> nat \<Rightarrow> link list option" where
  "set_next L i n = do { l \<leftarrow> vec_at L i; vec_put L i (l\<lparr>lnext := n\<rparr>) }"

definition dequeue :: "queue \<Rightarrow> nat \<Rightarrow> queue option" where
  "dequeue q idx = do {
     l \<leftarrow> vec_at (links q) idx;
     q1 \<leftarrow> (if lprev l \<noteq> 0 then do { L \<leftarrow> set_next (links q) (lprev l) (lnext l); Some (q\<lparr>links := L\<rparr>) }
            else Some (q\<lparr>qfirst := lnext l\<rparr>));
     if lnext l \<noteq> 0 then do { L \<leftarrow> set_prev (links q1) (lnext l) (lprev l); Some (q1\<lparr>links := L\<rparr>) }
     else Some (q1\<lparr>qlast := lprev l\<rparr>) }"

definition enqueue :: "queue \<Rightarrow> nat \<Rightarrow> queue option" where
  "enqueue q idx = do {
     L1 \<leftarrow> set_prev (links q) idx (qlast q);
     let q1 = q\<lparr>links := L1\<rparr>;
     q2 \<leftarrow> (if qlast q1 \<noteq> 0 then do { L2 \<leftarrow> set_next (links q1) (qlast q1) idx; Some (q1\<lparr>links := L2\<rparr>) }
            else Some (q1\<lparr>qfirst := idx\<rparr>));
     L3 \<leftarrow> set_next (links q2) idx 0;
     Some (q2\<lparr>qlast := idx, links := L3\<rparr>) }"

definition update_queue_unassigned :: "queue \<Rightarrow> nat \<Rightarrow> queue option" where
  "update_queue_unassigned q idx = do { b \<leftarrow> vec_at (btab q) idx; Some (q\<lparr>unassigned := idx, qbumped := b\<rparr>) }"

definition init_enqueue :: "bool \<Rightarrow> queue \<Rightarrow> nat \<Rightarrow> queue option" where
  "init_enqueue opt_reverse q idx =
     (if opt_reverse
      then do {
        L1 \<leftarrow> set_prev (links q) idx 0;
        let q1 = q\<lparr>links := L1\<rparr>;
        q2 \<leftarrow> (if qfirst q1 \<noteq> 0
               then do { L2 \<leftarrow> set_prev (links q1) (qfirst q1) idx;
                         b \<leftarrow> vec_at (btab q1) (qfirst q1);
                         bs \<leftarrow> vec_put (btab q1) idx (b - 1);
                         Some (q1\<lparr>links := L2, btab := bs\<rparr>) }
               else do { bs \<leftarrow> vec_put (btab q1) idx 0; Some (q1\<lparr>qlast := idx, btab := bs\<rparr>) });
        L3 \<leftarrow> set_next (links q2) idx (qfirst q2);
        let q3 = q2\<lparr>links := L3, qfirst := idx\<rparr>;
        if unassigned q3 = 0 then update_queue_unassigned q3 (qlast q3) else Some q3 }
      else do {
        L1 \<leftarrow> set_next (links q) idx 0;
        let q1 = q\<lparr>links := L1\<rparr>;
        q2 \<leftarrow> (if qlast q1 \<noteq> 0 then do { L2 \<leftarrow> set_next (links q1) (qlast q1) idx; Some (q1\<lparr>links := L2\<rparr>) }
               else Some (q1\<lparr>qfirst := idx\<rparr>));
        bs \<leftarrow> vec_put (btab q2) idx (bumped q2 + 1);
        L3 \<leftarrow> set_prev (links q2) idx (qlast q2);
        let q3 = q2\<lparr>bumped := bumped q2 + 1, btab := bs, links := L3, qlast := idx\<rparr>;
        update_queue_unassigned q3 (qlast q3) })"

fun init_queue_from :: "bool \<Rightarrow> queue \<Rightarrow> nat list \<Rightarrow> queue option" where
  "init_queue_from r q [] = Some q"
| "init_queue_from r q (x # xs) = do { q' \<leftarrow> init_enqueue r q x; init_queue_from r q' xs }"

definition init_queue :: "bool \<Rightarrow> nat \<Rightarrow> nat \<Rightarrow> queue \<Rightarrow> queue option" where
  "init_queue opt_reverse old_max_var new_max_var q =
     init_queue_from opt_reverse q (map Suc [old_max_var..<new_max_var])"

definition bump_queue :: "(nat \<Rightarrow> bool) \<Rightarrow> nat \<Rightarrow> queue \<Rightarrow> queue option" where
  "bump_queue assigned idx q = do {
     l \<leftarrow> vec_at (links q) idx;
     if lnext l = 0 then Some q
     else do {
       q1 \<leftarrow> dequeue q idx;
       q2 \<leftarrow> enqueue q1 idx;
       bs \<leftarrow> vec_put (btab q2) idx (bumped q2 + 1);
       let q3 = q2\<lparr>bumped := bumped q2 + 1, btab := bs\<rparr>;
       if \<not> assigned idx then update_queue_unassigned q3 idx else Some q3 } }"

text \<open>The part of \<^verbatim>\<open>unassign\<close> that concerns the queue.\<close>

definition queue_unassign :: "queue \<Rightarrow> nat \<Rightarrow> queue option" where
  "queue_unassign q idx = do {
     b \<leftarrow> vec_at (btab q) idx;
     if qbumped q < b then update_queue_unassigned q idx else Some q }"

text \<open>\<^verbatim>\<open>for (int idx = i; idx; idx = links[idx].prev)\<close>, as the list of the indices visited.\<close>

partial_function (option) walk_prev :: "link list \<Rightarrow> nat \<Rightarrow> nat list option" where
  "walk_prev L idx =
     (if idx = 0 then Some []
      else do { l \<leftarrow> vec_at L idx; xs \<leftarrow> walk_prev L (lprev l); Some (idx # xs) })"

declare walk_prev.simps [code]

fun enqueue_all :: "queue \<Rightarrow> nat list \<Rightarrow> queue option" where
  "enqueue_all q [] = Some q"
| "enqueue_all q (x # xs) = do { q' \<leftarrow> enqueue q x; enqueue_all q' xs }"

fun stamp_all :: "int list \<Rightarrow> int \<Rightarrow> nat list \<Rightarrow> int list option" where
  "stamp_all bs b [] = Some bs"
| "stamp_all bs b (x # xs) = do { bs' \<leftarrow> vec_put bs x b; stamp_all bs' (b - 1) xs }"

text \<open>\<open>order\<close> is the outcome of the random shuffle of all variables.\<close>

definition shuffle_queue :: "bool \<Rightarrow> bool \<Rightarrow> bool \<Rightarrow> nat list \<Rightarrow> queue \<Rightarrow> queue option" where
  "shuffle_queue opt_shuffle opt_shufflequeue opt_shufflerandom order q =
     (if \<not> opt_shuffle then Some q
      else if \<not> opt_shufflequeue then Some q
      else do {
        shuffle \<leftarrow> (if opt_shufflerandom then Some order else walk_prev (links q) (qlast q));
        q1 \<leftarrow> enqueue_all (q\<lparr>qfirst := 0, qlast := 0\<rparr>) shuffle;
        back \<leftarrow> walk_prev (links q1) (qlast q1);
        bs \<leftarrow> stamp_all (btab q1) (qbumped q1) back;
        Some (q1\<lparr>btab := bs, unassigned := qlast q1\<rparr>) })"

partial_function (option) search_unassigned :: "(nat \<Rightarrow> bool) \<Rightarrow> link list \<Rightarrow> nat \<Rightarrow> nat \<Rightarrow> (nat \<times> nat) option" where
  "search_unassigned assigned L res searched =
     (if assigned res
      then do { l \<leftarrow> vec_at L res; search_unassigned assigned L (lprev l) (searched + 1) }
      else Some (res, searched))"

declare search_unassigned.simps [code]

definition next_decision_variable_on_queue :: "(nat \<Rightarrow> bool) \<Rightarrow> queue \<Rightarrow> (nat \<times> queue) option" where
  "next_decision_variable_on_queue assigned q = do {
     (res, searched) \<leftarrow> search_unassigned assigned (links q) (unassigned q) 0;
     q' \<leftarrow> (if searched > 0 then update_queue_unassigned q res else Some q);
     Some (res, q') }"

subsection \<open>The list a queue stands for\<close>

fun dll :: "link list \<Rightarrow> nat \<Rightarrow> nat list \<Rightarrow> nat \<Rightarrow> bool" where
  "dll L p [] n = True"
| "dll L p (x # xs) n \<longleftrightarrow> 0 < x \<and> x < length L \<and> lprev (L ! x) = p \<and>
     lnext (L ! x) = (if xs = [] then n else hd xs) \<and> dll L x xs n"

definition head_of :: "nat \<Rightarrow> nat list \<Rightarrow> nat" where
  "head_of n xs = (if xs = [] then n else hd xs)"

definition last_of :: "nat \<Rightarrow> nat list \<Rightarrow> nat" where
  "last_of p xs = (if xs = [] then p else last xs)"

definition queue_list :: "queue \<Rightarrow> nat list \<Rightarrow> bool" where
  "queue_list q xs \<longleftrightarrow> distinct xs \<and> dll (links q) 0 xs 0 \<and> qfirst q = head_of 0 xs \<and> qlast q = last_of 0 xs"

lemma head_of_simps [simp]: "head_of n [] = n" "head_of n (x # xs) = x"
  by (simp_all add: head_of_def)

lemma last_of_simps [simp]: "last_of p [] = p" "last_of p (xs @ [x]) = x" "last_of p (x # xs) = last_of x xs"
  by (simp_all add: last_of_def)

lemma last_of_append: "last_of p (xs @ ys) = last_of (last_of p xs) ys"
  by (simp add: last_of_def)

lemma head_of_append: "head_of n (xs @ ys) = head_of (head_of n ys) xs"
  by (simp add: head_of_def)

lemma dll_append: "dll L p (xs @ ys) n \<longleftrightarrow> dll L p xs (head_of n ys) \<and> dll L (last_of p xs) ys n"
  by (induction xs arbitrary: p) (auto simp: head_of_def)

lemma dll_update: "x \<notin> set xs \<Longrightarrow> dll (L[x := l]) p xs n = dll L p xs n"
  by (induction xs arbitrary: p) auto

lemma dll_bounds: "dll L p xs n \<Longrightarrow> x \<in> set xs \<Longrightarrow> 0 < x \<and> x < length L"
  by (induction xs arbitrary: p) auto

lemma dll_new_next:
  assumes "dll L p (xs @ [x]) n" "x \<notin> set xs"
  shows "dll (L[x := (L ! x)\<lparr>lnext := n'\<rparr>]) p (xs @ [x]) n'"
  using assms by (simp add: dll_append dll_update)

lemma dll_new_prev:
  assumes "dll L p (x # xs) n" "x \<notin> set xs"
  shows "dll (L[x := (L ! x)\<lparr>lprev := p'\<rparr>]) p' (x # xs) n"
  using assms by (simp add: dll_update)

lemma set_next_Some [simp]: "i < length L \<Longrightarrow> set_next L i n = Some (L[i := (L ! i)\<lparr>lnext := n\<rparr>])"
  by (simp add: set_next_def)

lemma set_prev_Some [simp]: "i < length L \<Longrightarrow> set_prev L i n = Some (L[i := (L ! i)\<lparr>lprev := n\<rparr>])"
  by (simp add: set_prev_def)


lemma dequeue_list:
  assumes q: "queue_list q (as @ x # bs)"
  shows "\<exists>L f l. dequeue q x = Some (q\<lparr>links := L, qfirst := f, qlast := l\<rparr>) \<and> length L = length (links q) \<and>
     queue_list (q\<lparr>links := L, qfirst := f, qlast := l\<rparr>) (as @ bs)"
proof -
  let ?L = "links q"
  have d: "distinct (as @ x # bs)" and dl: "dll ?L 0 as x" "dll ?L (last_of 0 as) (x # bs) 0"
    and fl: "qfirst q = head_of x as" "qlast q = last_of x bs"
    using q by (auto simp: queue_list_def dll_append head_of_append last_of_append)
  have x: "x < length ?L" "0 < x" "lprev (?L ! x) = last_of 0 as" "lnext (?L ! x) = head_of 0 bs" "dll ?L x bs 0"
    using dl(2) by (auto simp: head_of_def)
  define L1 where "L1 = (if as = [] then ?L else ?L[last as := (?L ! last as)\<lparr>lnext := head_of 0 bs\<rparr>])"
  define L2 where "L2 = (if bs = [] then L1 else L1[hd bs := (L1 ! hd bs)\<lparr>lprev := last_of 0 as\<rparr>])"
  have len: "length L1 = length ?L" "length L2 = length ?L" by (simp_all add: L1_def L2_def)
  have as1: "dll L1 0 as (head_of 0 bs)" and bs1: "dll L1 x bs 0"
  proof -
    show "dll L1 0 as (head_of 0 bs)"
    proof (cases as rule: rev_cases)
      case (snoc as' a)
      then show ?thesis using dll_new_next[of ?L 0 as' a x "head_of 0 bs"] dl(1) d by (simp add: L1_def)
    qed simp
    have "as \<noteq> [] \<Longrightarrow> last as \<notin> set bs" using d last_in_set[of as] by (auto simp del: last_in_set)
    then show "dll L1 x bs 0" using x(5) by (simp add: L1_def dll_update)
  qed
  have as2: "dll L2 0 as (head_of 0 bs)"
  proof -
    have "bs \<noteq> [] \<Longrightarrow> hd bs \<notin> set as" using d by auto
    then show ?thesis using as1 by (cases "bs = []") (simp_all add: L2_def dll_update)
  qed
  have bs2: "dll L2 (last_of 0 as) bs 0"
  proof (cases bs)
    case (Cons b bs')
    then show ?thesis using dll_new_prev[of L1 x b bs' 0 "last_of 0 as"] bs1 d by (simp add: L2_def)
  qed simp
  have la: "0 < last as \<and> last as < length ?L" if "as \<noteq> []" using dll_bounds[OF dl(1)] that by simp
  have hb: "0 < hd bs \<and> hd bs < length ?L" if "bs \<noteq> []" using dll_bounds[OF x(5)] that by simp
  have "dequeue q x = Some (q\<lparr>links := L2, qfirst := head_of 0 (as @ bs), qlast := last_of 0 (as @ bs)\<rparr>)"
    using x la hb fl len
    by (cases "as = []"; cases "bs = []") (simp_all add: dequeue_def L1_def L2_def last_of_def head_of_def)
  moreover have "dll L2 0 (as @ bs) 0" using as2 bs2 by (simp add: dll_append)
  ultimately show ?thesis using d len(2) by (auto simp: queue_list_def)
qed

lemma enqueue_list:
  assumes q: "queue_list q xs" and x: "0 < x" "x < length (links q)" "x \<notin> set xs"
  shows "\<exists>L f. enqueue q x = Some (q\<lparr>links := L, qfirst := f, qlast := x\<rparr>) \<and> length L = length (links q) \<and>
     queue_list (q\<lparr>links := L, qfirst := f, qlast := x\<rparr>) (xs @ [x])"
proof -
  let ?L = "links q"
  have d: "distinct xs" and dl: "dll ?L 0 xs 0" and fl: "qfirst q = head_of 0 xs" "qlast q = last_of 0 xs"
    using q by (auto simp: queue_list_def)
  define L1 where "L1 = ?L[x := (?L ! x)\<lparr>lprev := last_of 0 xs\<rparr>]"
  define L2 where "L2 = (if xs = [] then L1 else L1[last xs := (L1 ! last xs)\<lparr>lnext := x\<rparr>])"
  define L3 where "L3 = L2[x := (L2 ! x)\<lparr>lnext := 0\<rparr>]"
  have len: "length L1 = length ?L" "length L2 = length ?L" "length L3 = length ?L" by (simp_all add: L1_def L2_def L3_def)
  have "dll L1 0 xs 0" using dl x by (simp add: L1_def dll_update)
  then have "dll L2 0 xs x"
  proof (cases xs rule: rev_cases)
    case (snoc ys y)
    then show ?thesis using dll_new_next[of L1 0 ys y 0 x] \<open>dll L1 0 xs 0\<close> d by (simp add: L2_def)
  qed simp
  then have dx: "dll L3 0 xs x" using x by (simp add: L3_def dll_update)
  have lx: "xs \<noteq> [] \<Longrightarrow> last xs \<noteq> x" using x(3) by auto
  then have "lprev (L3 ! x) = last_of 0 xs" "lnext (L3 ! x) = 0"
    using x len by (simp_all add: L3_def L2_def L1_def)
  then have "dll L3 0 (xs @ [x]) 0" using dx x len by (simp add: dll_append)
  moreover have "0 < last xs \<and> last xs < length ?L" if "xs \<noteq> []" using dll_bounds[OF dl] that by simp
  then have "enqueue q x = Some (q\<lparr>links := L3, qfirst := head_of 0 (xs @ [x]), qlast := x\<rparr>)"
    using x fl len by (cases "xs = []") (simp_all add: enqueue_def L3_def L2_def L1_def last_of_def head_of_def)
  ultimately show ?thesis using d x(3) len(3) by (auto simp: queue_list_def)
qed

lemma walk_prev_dll:
  "dll L 0 xs n \<Longrightarrow> walk_prev L (last_of 0 xs) = Some (rev xs)"
proof (induction xs arbitrary: n rule: rev_induct)
  case Nil
  then show ?case by (subst walk_prev.simps) simp
next
  case (snoc x xs)
  then have "walk_prev L (last_of 0 xs) = Some (rev xs)" using snoc.IH[of x] by (simp add: dll_append)
  moreover have "0 < x" "x < length L" "lprev (L ! x) = last_of 0 xs" using snoc.prems by (auto simp: dll_append)
  ultimately show ?case by (subst walk_prev.simps) simp
qed

lemma enqueue_all_list:
  assumes "queue_list q xs" "\<forall>y\<in>set ys. 0 < y \<and> y < length (links q)" "distinct ys" "set ys \<inter> set xs = {}"
  shows "\<exists>L f l. enqueue_all q ys = Some (q\<lparr>links := L, qfirst := f, qlast := l\<rparr>) \<and> length L = length (links q) \<and>
     queue_list (q\<lparr>links := L, qfirst := f, qlast := l\<rparr>) (xs @ ys)"
  using assms
proof (induction ys arbitrary: q xs)
  case Nil
  then show ?case by (intro exI[of _ "links q"] exI[of _ "qfirst q"] exI[of _ "qlast q"]) simp
next
  case (Cons y ys)
  obtain L f where q1: "enqueue q y = Some (q\<lparr>links := L, qfirst := f, qlast := y\<rparr>)" "length L = length (links q)"
    "queue_list (q\<lparr>links := L, qfirst := f, qlast := y\<rparr>) (xs @ [y])"
    using enqueue_list[OF Cons.prems(1), of y] Cons.prems by auto
  show ?case using Cons.IH[OF q1(3)] Cons.prems q1 by auto
qed

subsection \<open>Time stamps\<close>

text \<open>
  The stamps increase along the queue, and every variable behind \<open>unassigned\<close> is assigned.
\<close>

definition vmtf_inv :: "(nat \<Rightarrow> bool) \<Rightarrow> queue \<Rightarrow> nat list \<Rightarrow> bool" where
  "vmtf_inv assigned q xs \<longleftrightarrow> queue_list q xs \<and> length (btab q) = length (links q) \<and>
     sorted_wrt (\<lambda>x y. btab q ! x < btab q ! y) xs \<and> (\<forall>x\<in>set xs. btab q ! x \<le> bumped q) \<and>
     (xs \<noteq> [] \<longrightarrow> unassigned q \<in> set xs \<and> qbumped q \<le> btab q ! unassigned q \<and>
        (\<forall>x\<in>set xs. qbumped q < btab q ! x \<longrightarrow> assigned x)) \<and>
     (xs = [] \<longrightarrow> unassigned q = 0 \<and> 0 \<le> bumped q)"

lemma queue_list_cong:
  "links q' = links q \<Longrightarrow> qfirst q' = qfirst q \<Longrightarrow> qlast q' = qlast q \<Longrightarrow> queue_list q' xs = queue_list q xs"
  by (simp add: queue_list_def)

lemma vmtf_inv_bounds: "vmtf_inv assigned q xs \<Longrightarrow> x \<in> set xs \<Longrightarrow> 0 < x \<and> x < length (links q)"
  using dll_bounds by (auto simp: vmtf_inv_def queue_list_def)

lemma sorted_wrt_update:
  "x \<notin> set xs \<Longrightarrow> sorted_wrt (\<lambda>a b. bs[x := v] ! a < bs[x := v] ! b) xs = sorted_wrt (\<lambda>a b. (bs :: int list) ! a < bs ! b) xs"
proof (induction xs)
  case (Cons a xs)
  have "bs[x := v] ! y = bs ! y" if "y \<in> set (a # xs)" for y
    using Cons.prems that by (metis nth_list_update_neq)
  then show ?case using Cons by auto
qed simp

lemma bump_queue_inv:
  assumes inv: "vmtf_inv assigned q (as @ x # bs)"
  shows "\<exists>q'. bump_queue assigned x q = Some q' \<and> vmtf_inv assigned q' (as @ bs @ [x])"
proof (cases "bs = []")
  case True
  have "dll (links q) 0 (as @ x # bs) 0" using inv by (simp add: vmtf_inv_def queue_list_def)
  then have "x < length (links q)" "lnext (links q ! x) = 0" using True by (auto simp: dll_append)
  then show ?thesis using inv True by (simp add: bump_queue_def)
next
  case False
  have ql: "queue_list q (as @ x # bs)" and lb: "length (btab q) = length (links q)" using inv by (auto simp: vmtf_inv_def)
  have d: "distinct (as @ x # bs)" and dl: "dll (links q) 0 (as @ x # bs) 0" using ql by (auto simp: queue_list_def)
  have x: "0 < x" "x < length (links q)" "lnext (links q ! x) \<noteq> 0"
    using dl False dll_bounds[of "links q" x bs 0 "hd bs"] by (auto simp: dll_append)
  obtain L f l where q1: "dequeue q x = Some (q\<lparr>links := L, qfirst := f, qlast := l\<rparr>)" "length L = length (links q)"
     "queue_list (q\<lparr>links := L, qfirst := f, qlast := l\<rparr>) (as @ bs)"
    using dequeue_list[OF ql] by blast
  obtain L' f' where q2: "enqueue (q\<lparr>links := L, qfirst := f, qlast := l\<rparr>) x = Some (q\<lparr>links := L', qfirst := f', qlast := x\<rparr>)"
    "length L' = length (links q)" "queue_list (q\<lparr>links := L', qfirst := f', qlast := x\<rparr>) ((as @ bs) @ [x])"
    using enqueue_list[OF q1(3), of x] x q1(2) d by auto
  define B where "B = (btab q)[x := bumped q + 1]"
  define q3 where "q3 = q\<lparr>links := L', qfirst := f', qlast := x, bumped := bumped q + 1, btab := B\<rparr>"
  define q4 where "q4 = (if assigned x then q3 else q3\<lparr>unassigned := x, qbumped := B ! x\<rparr>)"
  have B: "B ! x = bumped q + 1" "\<And>y. y \<noteq> x \<Longrightarrow> B ! y = btab q ! y" using x lb by (auto simp: B_def)
  have run: "bump_queue assigned x q = Some q4"
    using x q1(1) q2(1) lb q1(2) q2(2)
    by (simp add: bump_queue_def q4_def q3_def B_def Let_def update_queue_unassigned_def)
  have le: "btab q ! y \<le> bumped q" if "y \<in> set (as @ x # bs)" for y using inv that by (auto simp: vmtf_inv_def)
  have srt: "sorted_wrt (\<lambda>a b. btab q ! a < btab q ! b) (as @ x # bs)" using inv by (simp add: vmtf_inv_def)
  have s1: "sorted_wrt (\<lambda>a b. B ! a < B ! b) (as @ bs)"
    using srt d unfolding B_def by (subst sorted_wrt_update) (auto simp: sorted_wrt_append)
  have s2: "B ! y < B ! x" if "y \<in> set (as @ bs)" for y
  proof -
    have "y \<noteq> x" using that d by auto
    then show ?thesis using le[of y] that B by auto
  qed
  have u: "unassigned q \<in> set (as @ x # bs)" "qbumped q \<le> btab q ! unassigned q"
     "\<And>y. y \<in> set (as @ x # bs) \<Longrightarrow> qbumped q < btab q ! y \<Longrightarrow> assigned y"
    using inv by (auto simp: vmtf_inv_def)
  have "queue_list q4 (as @ bs @ [x])"
    using q2(3) queue_list_cong[of q4 "q\<lparr>links := L', qfirst := f', qlast := x\<rparr>"] by (simp add: q4_def q3_def)
  moreover have "sorted_wrt (\<lambda>a b. btab q4 ! a < btab q4 ! b) (as @ bs @ [x])"
    using s1 s2 by (auto simp: q4_def q3_def sorted_wrt_append)
  moreover have "\<forall>y\<in>set (as @ bs @ [x]). btab q4 ! y \<le> bumped q4"
  proof
    fix y assume "y \<in> set (as @ bs @ [x])"
    then show "btab q4 ! y \<le> bumped q4" using le[of y] B by (cases "y = x") (auto simp: q4_def q3_def)
  qed
  moreover have "unassigned q4 \<in> set (as @ bs @ [x]) \<and> qbumped q4 \<le> btab q4 ! unassigned q4 \<and>
      (\<forall>y\<in>set (as @ bs @ [x]). qbumped q4 < btab q4 ! y \<longrightarrow> assigned y)"
  proof (cases "assigned x")
    case True
    have "qbumped q \<le> B ! unassigned q"
      using u(1,2) le[of "unassigned q"] B by (cases "unassigned q = x") auto
    moreover have "assigned y" if "y \<in> set (as @ bs @ [x])" "qbumped q < B ! y" for y
      using that u(3)[of y] True B by (cases "y = x") auto
    ultimately show ?thesis using u(1) True by (auto simp: q4_def q3_def)
  next
    case False
    have "B ! y \<le> B ! x" if "y \<in> set (as @ bs @ [x])" for y
      using that s2[of y] by (cases "y = x") (auto intro: less_imp_le)
    then show ?thesis using False by (auto simp: q4_def q3_def not_less[symmetric])
  qed
  moreover have "length (btab q4) = length (links q4)" using lb q2(2) by (simp add: q4_def q3_def B_def)
  ultimately show ?thesis using run by (auto simp: vmtf_inv_def)
qed


lemma queue_unassign_inv:
  assumes inv: "vmtf_inv assigned q xs" and x: "x \<in> set xs"
  shows "\<exists>q'. queue_unassign q x = Some q' \<and> vmtf_inv (\<lambda>y. assigned y \<and> y \<noteq> x) q' xs"
proof -
  have xl: "x < length (btab q)" using vmtf_inv_bounds[OF inv x] inv by (simp add: vmtf_inv_def)
  show ?thesis
  proof (cases "qbumped q < btab q ! x")
    case True
    then have "vmtf_inv (\<lambda>y. assigned y \<and> y \<noteq> x) (q\<lparr>unassigned := x, qbumped := btab q ! x\<rparr>) xs"
      using inv x by (auto simp: vmtf_inv_def queue_list_def)
    then show ?thesis using True xl by (simp add: queue_unassign_def update_queue_unassigned_def)
  next
    case False
    then have "vmtf_inv (\<lambda>y. assigned y \<and> y \<noteq> x) q xs" using inv x by (auto simp: vmtf_inv_def)
    then show ?thesis using False xl by (simp add: queue_unassign_def)
  qed
qed

lemma vmtf_inv_assign: "vmtf_inv assigned q xs \<Longrightarrow> vmtf_inv (\<lambda>y. assigned y \<or> y = x) q xs"
  by (auto simp: vmtf_inv_def)

lemma search_dll:
  assumes "dll L 0 ys n" "\<exists>y\<in>set ys. \<not> assigned y"
  shows "\<exists>k. search_unassigned assigned L (last_of 0 ys) s = Some (last (filter (\<lambda>y. \<not> assigned y) ys), s + k) \<and>
     (k = 0 \<longrightarrow> last_of 0 ys = last (filter (\<lambda>y. \<not> assigned y) ys))"
  using assms
proof (induction ys arbitrary: n s rule: rev_induct)
  case (snoc x ys)
  have x: "dll L 0 ys x" "x < length L" "lprev (L ! x) = last_of 0 ys" using snoc.prems(1) by (auto simp: dll_append)
  show ?case
  proof (cases "assigned x")
    case False
    then show ?thesis by (subst search_unassigned.simps) (auto intro!: exI[of _ 0])
  next
    case True
    then obtain k where "search_unassigned assigned L (last_of 0 ys) (s + 1) =
        Some (last (filter (\<lambda>y. \<not> assigned y) ys), s + 1 + k)"
      using snoc.IH[OF x(1), of "s + 1"] snoc.prems(2) by auto
    then show ?thesis using True x by (subst search_unassigned.simps) (auto intro!: exI[of _ "Suc k"])
  qed
qed simp

lemma sorted_after:
  assumes "sorted_wrt (\<lambda>x y. (b :: nat \<Rightarrow> int) x < b y) xs" "\<exists>x\<in>set xs. P x"
  shows "\<forall>y\<in>set xs. b (last (filter P xs)) < b y \<longrightarrow> \<not> P y" "last (filter P xs) \<in> set xs" "P (last (filter P xs))"
proof -
  have ne: "filter P xs \<noteq> []" using assms(2) by (auto simp: filter_empty_conv)
  have "last (filter P xs) \<in> set (filter P xs)" using ne by (rule last_in_set)
  then show "last (filter P xs) \<in> set xs" "P (last (filter P xs))" by auto
  obtain ys where ys: "filter P xs = ys @ [last (filter P xs)]" using ne by (metis append_butlast_last_id)
  have "sorted_wrt (\<lambda>x y. b x < b y) (filter P xs)" using assms(1) by (rule sorted_wrt_filter)
  then have "\<forall>y\<in>set ys. b y < b (last (filter P xs))" by (subst (asm) ys) (simp add: sorted_wrt_append)
  moreover have "y \<in> set ys \<or> y = last (filter P xs)" if "y \<in> set xs" "P y" for y
  proof -
    have "y \<in> set (ys @ [last (filter P xs)])" using that by (simp flip: ys)
    then show ?thesis by auto
  qed
  ultimately show "\<forall>y\<in>set xs. b (last (filter P xs)) < b y \<longrightarrow> \<not> P y" by fastforce
qed

lemma next_on_queue:
  assumes inv: "vmtf_inv assigned q xs" and ex: "\<exists>x\<in>set xs. \<not> assigned x"
  shows "\<exists>q'. next_decision_variable_on_queue assigned q = Some (last (filter (\<lambda>y. \<not> assigned y) xs), q') \<and>
     vmtf_inv assigned q' xs \<and> btab q' = btab q"
proof -
  define r where "r = last (filter (\<lambda>y. \<not> assigned y) xs)"
  have xs: "xs \<noteq> []" using ex by auto
  have ql: "queue_list q xs" and srt: "sorted_wrt (\<lambda>x y. btab q ! x < btab q ! y) xs" and u: "unassigned q \<in> set xs"
    "qbumped q \<le> btab q ! unassigned q" "\<And>x. x \<in> set xs \<Longrightarrow> qbumped q < btab q ! x \<Longrightarrow> assigned x"
    using inv xs by (auto simp: vmtf_inv_def)
  obtain as bs where sp: "xs = as @ unassigned q # bs" using u(1) by (meson split_list)
  have bs: "assigned y" if "y \<in> set bs" for y
    using srt u(2) u(3)[of y] that sp by (auto simp: sorted_wrt_append)
  then have f: "filter (\<lambda>y. \<not> assigned y) xs = filter (\<lambda>y. \<not> assigned y) (as @ [unassigned q])"
    using sp by (auto simp: filter_empty_conv)
  have "dll (links q) 0 (as @ [unassigned q]) (head_of 0 bs)"
    using ql sp by (simp add: queue_list_def dll_append head_of_def)
  moreover have "\<exists>y\<in>set (as @ [unassigned q]). \<not> assigned y" using ex bs sp by auto
  ultimately obtain k where k: "search_unassigned assigned (links q) (unassigned q) 0 = Some (r, k)"
    "k = 0 \<longrightarrow> unassigned q = r"
    using search_dll[of "links q" "as @ [unassigned q]" "head_of 0 bs" assigned 0] f unfolding r_def by auto
  note sa = sorted_after[where b = "\<lambda>x. btab q ! x", OF srt ex, folded r_def]
  have rl: "r < length (btab q)" using vmtf_inv_bounds[OF inv sa(2)] inv by (simp add: vmtf_inv_def)
  show ?thesis
  proof (cases "k = 0")
    case True
    then show ?thesis using k inv unfolding r_def[symmetric] by (simp add: next_decision_variable_on_queue_def)
  next
    case False
    have "vmtf_inv assigned (q\<lparr>unassigned := r, qbumped := btab q ! r\<rparr>) xs"
      using inv sa(1,2) xs by (simp add: vmtf_inv_def queue_list_def)
    then show ?thesis using False k(1) rl unfolding r_def[symmetric]
      by (simp add: next_decision_variable_on_queue_def update_queue_unassigned_def)
  qed
qed

lemma vmtf_inv_empty:
  assumes "vmtf_inv assigned q []"
  shows "qfirst q = 0" "qlast q = 0" "unassigned q = 0" "0 \<le> bumped q"
  using assms by (auto simp: vmtf_inv_def queue_list_def)

lemma vmtf_inv_nonzero: "vmtf_inv assigned q xs \<Longrightarrow> xs \<noteq> [] \<Longrightarrow> unassigned q \<noteq> 0"
  using vmtf_inv_bounds by (fastforce simp: vmtf_inv_def)

lemma init_enqueue_append:
  assumes inv: "vmtf_inv assigned q xs" and x: "0 < x" "x < length (links q)" "x \<notin> set xs"
  shows "\<exists>q'. init_enqueue False q x = Some q' \<and> vmtf_inv assigned q' (xs @ [x]) \<and>
     length (links q') = length (links q) \<and> qbumped q' = btab q' ! unassigned q'"
proof -
  let ?L = "links q"
  have ql: "queue_list q xs" and lb: "length (btab q) = length ?L" using inv by (auto simp: vmtf_inv_def)
  have d: "distinct xs" and dl: "dll ?L 0 xs 0" and fl: "qfirst q = head_of 0 xs" "qlast q = last_of 0 xs"
    using ql by (auto simp: queue_list_def)
  define L1 where "L1 = ?L[x := (?L ! x)\<lparr>lnext := 0\<rparr>]"
  define L2 where "L2 = (if xs = [] then L1 else L1[last xs := (L1 ! last xs)\<lparr>lnext := x\<rparr>])"
  define L3 where "L3 = L2[x := (L2 ! x)\<lparr>lprev := last_of 0 xs\<rparr>]"
  define B where "B = (btab q)[x := bumped q + 1]"
  define q' where "q' = q\<lparr>links := L3, qfirst := head_of 0 (xs @ [x]), qlast := x, bumped := bumped q + 1, btab := B,
       unassigned := x, qbumped := B ! x\<rparr>"
  have len: "length L1 = length ?L" "length L2 = length ?L" "length L3 = length ?L" by (simp_all add: L1_def L2_def L3_def)
  have "dll L1 0 xs 0" using dl x by (simp add: L1_def dll_update)
  then have "dll L2 0 xs x"
  proof (cases xs rule: rev_cases)
    case (snoc ys y)
    then show ?thesis using dll_new_next[of L1 0 ys y 0 x] \<open>dll L1 0 xs 0\<close> d by (simp add: L2_def)
  qed simp
  then have dx: "dll L3 0 xs x" using x by (simp add: L3_def dll_update)
  have "xs \<noteq> [] \<Longrightarrow> last xs \<noteq> x" using x(3) by auto
  then have "lprev (L3 ! x) = last_of 0 xs" "lnext (L3 ! x) = 0"
    using x len by (simp_all add: L3_def L2_def L1_def)
  then have "dll L3 0 (xs @ [x]) 0" using dx x len by (simp add: dll_append)
  then have ql': "queue_list q' (xs @ [x])" using d x(3) by (simp add: queue_list_def q'_def)
  have "0 < last xs \<and> last xs < length ?L" if "xs \<noteq> []" using dll_bounds[OF dl] that by simp
  then have run: "init_enqueue False q x = Some q'"
    using x fl len lb by (cases "xs = []")
      (simp_all add: init_enqueue_def L3_def L2_def L1_def last_of_def head_of_def Let_def B_def q'_def update_queue_unassigned_def)
  have le: "btab q ! y \<le> bumped q" if "y \<in> set xs" for y using inv that by (simp add: vmtf_inv_def)
  have B: "B ! x = bumped q + 1" "\<And>y. y \<in> set xs \<Longrightarrow> B ! y = btab q ! y"
    using x lb by (simp add: B_def, metis B_def nth_list_update_neq)
  have "sorted_wrt (\<lambda>a b. B ! a < B ! b) xs"
    using inv x(3) by (simp add: B_def sorted_wrt_update vmtf_inv_def)
  moreover have ltB: "B ! y < bumped q + 1" if "y \<in> set xs" for y using le[OF that] B(2)[OF that] by simp
  moreover have "length B = length L3" using lb len by (simp add: B_def)
  ultimately have "vmtf_inv assigned q' (xs @ [x])"
    using ql' B(1) less_imp_le[OF ltB] by (fastforce simp: vmtf_inv_def q'_def sorted_wrt_append)
  then show ?thesis using run len by (simp add: q'_def)
qed


lemma init_enqueue_prepend:
  assumes inv: "vmtf_inv assigned q xs" and x: "0 < x" "x < length (links q)" "x \<notin> set xs"
    and fresh: "xs \<noteq> [] \<Longrightarrow> qbumped q = btab q ! unassigned q"
  shows "\<exists>q'. init_enqueue True q x = Some q' \<and> vmtf_inv assigned q' (x # xs) \<and>
     length (links q') = length (links q) \<and> qbumped q' = btab q' ! unassigned q'"
proof -
  let ?L = "links q"
  have ql: "queue_list q xs" and lb: "length (btab q) = length ?L" using inv by (auto simp: vmtf_inv_def)
  have d: "distinct xs" and dl: "dll ?L 0 xs 0" and fl: "qfirst q = head_of 0 xs" "qlast q = last_of 0 xs"
    using ql by (auto simp: queue_list_def)
  define L1 where "L1 = ?L[x := (?L ! x)\<lparr>lprev := 0\<rparr>]"
  define L2 where "L2 = (if xs = [] then L1 else L1[hd xs := (L1 ! hd xs)\<lparr>lprev := x\<rparr>])"
  define L3 where "L3 = L2[x := (L2 ! x)\<lparr>lnext := head_of 0 xs\<rparr>]"
  define v where "v = (if xs = [] then 0 else btab q ! hd xs - 1)"
  define B where "B = (btab q)[x := v]"
  define q1 where "q1 = q\<lparr>links := L3, qfirst := x, qlast := last_of x xs, btab := B\<rparr>"
  define q' where "q' = (if xs = [] then q1\<lparr>unassigned := x, qbumped := B ! x\<rparr> else q1)"
  have len: "length L1 = length ?L" "length L2 = length ?L" "length L3 = length ?L" by (simp_all add: L1_def L2_def L3_def)
  have d1: "dll L1 0 xs 0" using dl x by (simp add: L1_def dll_update)
  have "dll L2 x xs 0"
  proof (cases xs)
    case (Cons y ys)
    then show ?thesis using dll_new_prev[of L1 0 y ys 0 x] d1 d by (simp add: L2_def)
  qed simp
  then have dx: "dll L3 x xs 0" using x by (simp add: L3_def dll_update)
  have hx: "xs \<noteq> [] \<Longrightarrow> hd xs \<noteq> x" using x(3) by auto
  then have "lprev (L3 ! x) = 0" "lnext (L3 ! x) = head_of 0 xs" using x len by (simp_all add: L3_def L2_def L1_def)
  then have "dll L3 0 (x # xs) 0" using dx x len by (simp add: head_of_def)
  then have ql': "queue_list q1 (x # xs)" using d x(3) by (simp add: queue_list_def q1_def)
  have hb: "0 < hd xs \<and> hd xs < length ?L" if "xs \<noteq> []" using dll_bounds[OF dl] that by simp
  have run: "init_enqueue True q x = Some q'"
  proof (cases "xs = []")
    case True
    then show ?thesis using x fl len lb vmtf_inv_empty(3)[of assigned q] inv
      by (simp add: init_enqueue_def L3_def L2_def L1_def Let_def B_def v_def q'_def q1_def update_queue_unassigned_def)
  next
    case False
    then show ?thesis using x fl len lb vmtf_inv_nonzero[OF inv] hb hx
      by (simp add: init_enqueue_def L3_def L2_def L1_def Let_def B_def v_def q'_def q1_def last_of_def head_of_def)
  qed
  have B: "B ! x = v" "\<And>y. y \<in> set xs \<Longrightarrow> B ! y = btab q ! y"
    using x lb by (simp add: B_def, metis B_def nth_list_update_neq)
  have srt: "sorted_wrt (\<lambda>a b. B ! a < B ! b) xs" using inv x(3) by (simp add: B_def sorted_wrt_update vmtf_inv_def)
  have low: "v < B ! y" if "y \<in> set xs" for y
  proof -
    have "B ! hd xs \<le> B ! y" using srt that by (cases xs) auto
    then show ?thesis using that B(2)[of "hd xs"] by (cases xs) (auto simp: v_def)
  qed
  have lB: "length B = length L3" using lb len by (simp add: B_def)
  have "vmtf_inv assigned q' (x # xs)"
  proof (cases "xs = []")
    case True
    then show ?thesis using ql' lB B(1) vmtf_inv_empty(4)[of assigned q] inv x
      by (auto simp: vmtf_inv_def q'_def q1_def v_def queue_list_def)
  next
    case False
    have le: "B ! y \<le> bumped q" if "y \<in> set xs" for y using inv that B(2)[OF that] by (simp add: vmtf_inv_def)
    have u: "unassigned q \<in> set xs" "qbumped q = B ! unassigned q"
      "\<And>y. y \<in> set xs \<Longrightarrow> qbumped q < B ! y \<Longrightarrow> assigned y"
      using inv False B(2) fresh by (auto simp: vmtf_inv_def)
    have vq: "v < qbumped q" using low[OF u(1)] u(2) by simp
    have vb: "v \<le> bumped q" using low[OF u(1)] le[OF u(1)] by simp
    have "\<not> qbumped q < B ! x" using vq B(1) by simp
    then show ?thesis
      using ql' lB B(1) False le u vb srt low by (auto simp: vmtf_inv_def q'_def q1_def)
  qed
  moreover have "qbumped q' = btab q' ! unassigned q'"
    using fresh B(2) inv by (cases "xs = []") (auto simp: q'_def q1_def vmtf_inv_def)
  ultimately show ?thesis using run len by (simp add: q'_def q1_def)
qed


lemma stamp_all_ok:
  assumes "distinct zs" "\<forall>z\<in>set zs. z < length bs"
  shows "\<exists>bs'. stamp_all bs b zs = Some bs' \<and> length bs' = length bs \<and>
     (\<forall>i < length zs. bs' ! (zs ! i) = b - int i) \<and> (\<forall>y. y \<notin> set zs \<longrightarrow> bs' ! y = bs ! y)"
  using assms
proof (induction zs arbitrary: bs b)
  case (Cons z zs)
  then obtain bs' where r: "stamp_all (bs[z := b]) (b - 1) zs = Some bs'" "length bs' = length bs"
    "\<forall>i < length zs. bs' ! (zs ! i) = b - 1 - int i" "\<forall>y. y \<notin> set zs \<longrightarrow> bs' ! y = bs[z := b] ! y"
    using Cons.IH[of "bs[z := b]" "b - 1"] by auto
  have "bs' ! ((z # zs) ! i) = b - int i" if "i < length (z # zs)" for i
    using that r(3,4) Cons.prems by (cases i) auto
  then show ?case using r Cons.prems by auto
qed simp

lemma shuffle_queue_inv:
  fixes rnd :: bool
  assumes inv: "vmtf_inv assigned q xs" and ord: "distinct order" "set order = set xs"
  defines "ys \<equiv> (if rnd then order else rev xs)"
  shows "\<exists>q'. shuffle_queue True True rnd order q = Some q' \<and> vmtf_inv assigned q' ys"
proof -
  have ql: "queue_list q xs" and lb: "length (btab q) = length (links q)" using inv by (auto simp: vmtf_inv_def)
  then have d: "distinct xs" and dl: "dll (links q) 0 xs 0" and lst: "qlast q = last_of 0 xs" by (auto simp: queue_list_def)
  have ys: "distinct ys" "set ys = set xs" using d ord by (auto simp: ys_def)
  have sh: "(if rnd then Some order else walk_prev (links q) (qlast q)) = Some ys"
    using walk_prev_dll[OF dl] lst by (simp add: ys_def)
  have q0: "queue_list (q\<lparr>qfirst := 0, qlast := 0\<rparr>) []" by (simp add: queue_list_def)
  have bnd: "\<forall>y\<in>set ys. 0 < y \<and> y < length (links q)" using vmtf_inv_bounds[OF inv] ys(2) by auto
  obtain L f l where e: "enqueue_all (q\<lparr>qfirst := 0, qlast := 0\<rparr>) ys = Some (q\<lparr>links := L, qfirst := f, qlast := l\<rparr>)"
    "length L = length (links q)" "queue_list (q\<lparr>links := L, qfirst := f, qlast := l\<rparr>) ys"
    using enqueue_all_list[OF q0, of ys] bnd ys(1) by auto
  have dl': "dll L 0 ys 0" and l': "l = last_of 0 ys" using e(3) by (auto simp: queue_list_def)
  have bk: "walk_prev L l = Some (rev ys)" using walk_prev_dll[OF dl'] l' by simp
  obtain bs where bs: "stamp_all (btab q) (qbumped q) (rev ys) = Some bs" "length bs = length (btab q)"
     "\<forall>i < length ys. bs ! (rev ys ! i) = qbumped q - int i"
    using stamp_all_ok[of "rev ys" "btab q" "qbumped q"] ys(1) bnd lb by auto
  define q' where "q' = q\<lparr>links := L, qfirst := f, qlast := l, btab := bs, unassigned := l\<rparr>"
  have run: "shuffle_queue True True rnd order q = Some q'"
    using sh e(1) bk bs(1) by (simp add: shuffle_queue_def q'_def)
  have st: "bs ! (ys ! i) = qbumped q - int (length ys - 1 - i)" if "i < length ys" for i
    using bs(3)[rule_format, of "length ys - 1 - i"] that by (simp add: rev_nth)
  have srt: "sorted_wrt (\<lambda>x y. bs ! x < bs ! y) ys"
    unfolding sorted_wrt_iff_nth_less using st by auto
  have le: "bs ! y \<le> qbumped q" if "y \<in> set ys" for y using that st by (auto simp: in_set_conv_nth)
  have qb: "qbumped q \<le> bumped q" if "ys \<noteq> []"
  proof -
    have "xs \<noteq> []" using that ys(2) by auto
    then show ?thesis using inv unfolding vmtf_inv_def by (meson order_trans)
  qed
  have ql': "queue_list q' ys" using e(3) by (simp add: q'_def queue_list_def)
  have "vmtf_inv assigned q' ys"
  proof (cases "ys = []")
    case True
    then have "xs = []" using ys(2) by simp
    then show ?thesis using True ql' inv bs(2) lb e(2) l' by (simp add: vmtf_inv_def q'_def)
  next
    case False
    then have "l \<in> set ys" "bs ! l = qbumped q"
      using l' st[of "length ys - 1"] by (auto simp: last_of_def last_conv_nth)
    moreover have "\<forall>y\<in>set ys. \<not> qbumped q < bs ! y" "\<forall>y\<in>set ys. bs ! y \<le> bumped q"
      using le qb[OF False] by (auto simp: not_less intro: order_trans)
    ultimately show ?thesis
      using False ql' srt bs(2) lb e(2) by (simp add: vmtf_inv_def q'_def)
  qed
  then show ?thesis using run by blast
qed

subsection \<open>The queue under any sequence of events\<close>

datatype vmtf_event = Assign nat | Unassign nat | Bump nat | Decide | Shuffle

fun vmtf_step :: "vmtf_event \<Rightarrow> nat set \<times> queue \<Rightarrow> (nat set \<times> queue) option" where
  "vmtf_step (Assign x) (A, q) = Some (insert x A, q)"
| "vmtf_step (Unassign x) (A, q) = map_option (Pair (A - {x})) (queue_unassign q x)"
| "vmtf_step (Bump x) (A, q) = map_option (Pair A) (bump_queue (\<lambda>y. y \<in> A) x q)"
| "vmtf_step Decide (A, q) = map_option (\<lambda>(x, q'). (A, q')) (next_decision_variable_on_queue (\<lambda>y. y \<in> A) q)"
| "vmtf_step Shuffle (A, q) = map_option (Pair A) (shuffle_queue True True False [] q)"

text \<open>The events a solver with the variables \<open>V\<close> produces: a decision needs an unassigned variable.\<close>

fun vmtf_allowed :: "nat set \<Rightarrow> nat set \<Rightarrow> vmtf_event \<Rightarrow> bool" where
  "vmtf_allowed V A (Assign x) = (x \<in> V)"
| "vmtf_allowed V A (Unassign x) = (x \<in> V)"
| "vmtf_allowed V A (Bump x) = (x \<in> V)"
| "vmtf_allowed V A Decide = (\<exists>x\<in>V. x \<notin> A)"
| "vmtf_allowed V A Shuffle = True"

inductive vmtf_run :: "nat set \<Rightarrow> nat set \<times> queue \<Rightarrow> nat set \<times> queue \<Rightarrow> bool" for V where
  vmtf_refl: "vmtf_run V st st"
| vmtf_next: "vmtf_run V st (A, q) \<Longrightarrow> vmtf_allowed V A ev \<Longrightarrow> vmtf_step ev (A, q) = Some st' \<Longrightarrow> vmtf_run V st st'"

lemma vmtf_step_inv:
  assumes inv: "vmtf_inv (\<lambda>y. y \<in> A) q xs" and V: "set xs = V" and al: "vmtf_allowed V A ev"
  shows "\<exists>A' q' xs'. vmtf_step ev (A, q) = Some (A', q') \<and> vmtf_inv (\<lambda>y. y \<in> A') q' xs' \<and> set xs' = V"
proof (cases ev)
  case (Assign x)
  then show ?thesis using vmtf_inv_assign[OF inv, of x] V by (auto simp: disj_commute)
next
  case (Unassign x)
  then show ?thesis using queue_unassign_inv[OF inv, of x] V al by auto
next
  case (Bump x)
  then obtain as bs where "xs = as @ x # bs" using al V by (metis split_list vmtf_allowed.simps(3))
  then show ?thesis using bump_queue_inv[of "\<lambda>y. y \<in> A" q as x bs] inv V Bump
    by (auto intro!: exI[of _ "as @ bs @ [x]"])
next
  case Decide
  then show ?thesis using next_on_queue[OF inv] al V by fastforce
next
  case Shuffle
  have d: "distinct xs" using inv by (simp add: vmtf_inv_def queue_list_def)
  have "shuffle_queue True True False [] q = shuffle_queue True True False xs q" by (simp add: shuffle_queue_def)
  then show ?thesis using shuffle_queue_inv[OF inv d refl, of False] V Shuffle
    by (auto intro!: exI[of _ "rev xs"])
qed

text \<open>
  \<^bold>\<open>C26\<close> (the VMTF queue).  Along every sequence of assignments, unassignments, bumps, decisions
  and shuffles no operation fails, and whenever a variable is unassigned the queue's decision is
  the unassigned variable with the latest time stamp.
\<close>

theorem vmtf_decides_latest:
  assumes "vmtf_run V (A0, q0) (A, q)" and "vmtf_inv (\<lambda>y. y \<in> A0) q0 xs0" and "set xs0 = V"
    and "v \<in> V" "v \<notin> A"
  shows "\<exists>x q'. next_decision_variable_on_queue (\<lambda>y. y \<in> A) q = Some (x, q') \<and> x \<in> V \<and> x \<notin> A \<and>
     (\<forall>y\<in>V. y \<notin> A \<longrightarrow> btab q ! y \<le> btab q ! x)"
proof -
  have "\<exists>xs. vmtf_inv (\<lambda>y. y \<in> fst st) (snd st) xs \<and> set xs = V" if "vmtf_run V (A0, q0) st" for st
    using that assms(2,3)
  proof (induction "(A0, q0)" st rule: vmtf_run.induct)
    case (vmtf_next A q ev st')
    then obtain xs where "vmtf_inv (\<lambda>y. y \<in> A) q xs" "set xs = V" by auto
    from vmtf_step_inv[OF this vmtf_next.hyps(3)] vmtf_next.hyps(4) show ?case by auto
  qed auto
  from this[OF assms(1)] obtain xs where inv: "vmtf_inv (\<lambda>y. y \<in> A) q xs" and V: "set xs = V" by auto
  have ex: "\<exists>x\<in>set xs. x \<notin> A" using assms(4,5) V by auto
  have srt: "sorted_wrt (\<lambda>x y. btab q ! x < btab q ! y) xs" using inv by (simp add: vmtf_inv_def)
  note sa = sorted_after[where b = "\<lambda>x. btab q ! x", OF srt ex]
  show ?thesis using next_on_queue[OF inv ex] sa V by (meson linorder_not_less)
qed


definition demo_queue :: queue where
  "demo_queue = \<lparr>links = [\<lparr>lprev = 0, lnext = 0\<rparr>, \<lparr>lprev = 0, lnext = 2\<rparr>, \<lparr>lprev = 1, lnext = 3\<rparr>,
       \<lparr>lprev = 2, lnext = 0\<rparr>], qfirst = 1, qlast = 3, unassigned = 3, qbumped = 3, btab = [0, 1, 2, 3], bumped = 3\<rparr>"

lemma demo_queue_inv: "vmtf_inv (\<lambda>y. y \<in> {}) demo_queue [1, 2, 3]"
  by (simp add: vmtf_inv_def demo_queue_def queue_list_def last_of_def head_of_def)

theorem vmtf_decides_latest_witness:
  "\<exists>A q q'. vmtf_run {1, 2, 3} ({}, demo_queue) (A, q) \<and>
     next_decision_variable_on_queue (\<lambda>y. y \<in> A) q = Some (1, q')"
proof -
  obtain q1 where q1: "bump_queue (\<lambda>y. y \<in> {}) 1 demo_queue = Some q1"
    "vmtf_inv (\<lambda>y. y \<in> {}) q1 ([] @ [2, 3] @ [1])"
    using bump_queue_inv[of "\<lambda>y. y \<in> {}" demo_queue "[]" 1 "[2, 3]"] demo_queue_inv by auto
  have r: "vmtf_run {1, 2, 3} ({}, demo_queue) ({}, q1)"
    by (rule vmtf_next[OF vmtf_refl, where ev = "Bump 1"]) (use q1 in \<open>simp_all\<close>)
  obtain x q' where x: "next_decision_variable_on_queue (\<lambda>y. y \<in> {}) q1 = Some (x, q')" "x \<in> {1, 2, 3}"
    "\<forall>y\<in>{1, 2, 3}. btab q1 ! y \<le> btab q1 ! x"
    using vmtf_decides_latest[OF r demo_queue_inv, of 1] by auto
  have "btab q1 ! 2 < btab q1 ! 3" "btab q1 ! 3 < btab q1 ! 1" "btab q1 ! 2 < btab q1 ! 1"
    using q1(2) by (auto simp: vmtf_inv_def)
  then have "x = 1" using x(2,3) by auto
  then show ?thesis using r x(1) by blast
qed

end
