(* ===== verification/Radix.thy ===== *)
theory Radix
  imports Prelude "HOL-Library.Monad_Syntax"
begin

text \<open>
  The radix sort \<^verbatim>\<open>rsort\<close> of \<^verbatim>\<open>src/radix.hpp\<close>, byte by byte with its three optimisations: bytes on
  which all ranks agree are skipped, only the used part of the bucket array is cleared, and the
  two buffers change roles.  Ranks are machine words of any width above one byte, so that the
  loop over the buckets, whose index has the type of the ranks, does not wrap around.
\<close>

unbundle bit_operations_syntax

record (overloaded) ('a, 'w::len) rsort_state =
  cur :: "'a list"
  other :: "'a list"
  initialized :: bool
  count :: "nat list"
  lower :: "'w word"
  upper :: "'w word"
  bounded :: bool
  masked_lower :: nat
  masked_upper :: nat

definition radix_mask :: "'w::len word" where
  "radix_mask = 255"

text \<open>\<^verbatim>\<open>(rank (*p) >> i) & mask\<close>\<close>

definition bucket :: "nat \<Rightarrow> 'w::len word \<Rightarrow> nat" where
  "bucket i r = unat (drop_bit i r AND radix_mask)"

definition clear_buckets :: "nat \<Rightarrow> nat \<Rightarrow> nat list \<Rightarrow> nat list" where
  "clear_buckets lo hi cnt = map (\<lambda>j. if lo \<le> j \<and> j \<le> hi then 0 else cnt ! j) [0..<length cnt]"

fun count_all :: "('a \<Rightarrow> nat) \<Rightarrow> nat list \<Rightarrow> 'a list \<Rightarrow> nat list option" where
  "count_all dig cnt [] = Some cnt"
| "count_all dig cnt (x # xs) = do {
     k \<leftarrow> vec_at cnt (dig x);
     cnt' \<leftarrow> vec_put cnt (dig x) (k + 1);
     count_all dig cnt' xs }"

fun bucket_starts :: "nat list \<Rightarrow> nat \<Rightarrow> nat list \<Rightarrow> nat list option" where
  "bucket_starts [] pos cnt = Some cnt"
| "bucket_starts (j # js) pos cnt = do {
     delta \<leftarrow> vec_at cnt j;
     cnt' \<leftarrow> vec_put cnt j pos;
     bucket_starts js (pos + delta) cnt' }"

fun scatter :: "('a \<Rightarrow> nat) \<Rightarrow> nat list \<Rightarrow> 'a list \<Rightarrow> 'a list \<Rightarrow> (nat list \<times> 'a list) option" where
  "scatter dig cnt d [] = Some (cnt, d)"
| "scatter dig cnt d (x # xs) = do {
     k \<leftarrow> vec_at cnt (dig x);
     d' \<leftarrow> vec_put d k x;
     cnt' \<leftarrow> vec_put cnt (dig x) (k + 1);
     scatter dig cnt' d' xs }"

definition rsort_pass ::
  "('a \<Rightarrow> 'w::len word) \<Rightarrow> 'a \<Rightarrow> ('a, 'w) rsort_state \<Rightarrow> nat \<Rightarrow> ('a, 'w) rsort_state option" where
  "rsort_pass rank dflt st i =
     (let shifted = push_bit i radix_mask :: 'w word; dig = (\<lambda>x. bucket i (rank x))
      in if bounded st \<and> lower st AND shifted = upper st AND shifted then Some st
      else do {
        cnt \<leftarrow> count_all dig (clear_buckets (masked_lower st) (masked_upper st) (count st)) (cur st);
        let lo = (if bounded st then lower st else foldl (\<lambda>l x. l AND rank x) (lower st) (cur st));
        let up = (if bounded st then upper st else foldl (\<lambda>u x. u OR rank x) (upper st) (cur st));
        let st1 = st\<lparr>count := cnt, lower := lo, upper := up,
                     masked_lower := bucket i lo, masked_upper := bucket i up, bounded := True\<rparr>;
        if \<not> bounded st \<and> lo AND shifted = up AND shifted then Some st1
        else do {
          starts \<leftarrow> bucket_starts [bucket i lo..<Suc (bucket i up)] 0 cnt;
          let d0 = (if initialized st then other st else replicate (length (cur st)) dflt);
          (cnt', d) \<leftarrow> scatter dig starts d0 (cur st);
          Some (st1\<lparr>count := cnt', cur := d, other := cur st, initialized := True\<rparr>) } })"

fun rsort_passes ::
  "('a \<Rightarrow> 'w::len word) \<Rightarrow> 'a \<Rightarrow> nat list \<Rightarrow> ('a, 'w) rsort_state \<Rightarrow> ('a, 'w) rsort_state option" where
  "rsort_passes rank dflt [] st = Some st"
| "rsort_passes rank dflt (i # is) st = do { st' \<leftarrow> rsort_pass rank dflt st i; rsort_passes rank dflt is st' }"

text \<open>
  \<open>garbage\<close> is the content of the uninitialised bucket array and \<open>dflt\<close> the value of the elements
  that \<^verbatim>\<open>v.resize (n)\<close> creates.
\<close>

definition rsort :: "('a \<Rightarrow> 'w::len word) \<Rightarrow> 'a \<Rightarrow> nat list \<Rightarrow> 'a list \<Rightarrow> 'a list option" where
  "rsort rank dflt garbage xs =
     (if length xs \<le> 1 then Some xs
      else do {
        st \<leftarrow> rsort_passes rank dflt (map (\<lambda>k. 8 * k) [0..<LENGTH('w) div 8])
                \<lparr>cur = xs, other = [], initialized = False, count = garbage,
                 lower = NOT 0, upper = 0, bounded = False, masked_lower = 0, masked_upper = 255\<rparr>;
        Some (cur st) })"

text \<open>The macro \<^verbatim>\<open>MSORT\<close>; \<open>std_sort\<close> is the library's \<^verbatim>\<open>sort\<close> with the matching comparison.\<close>

definition MSORT ::
  "nat \<Rightarrow> ('a list \<Rightarrow> 'a list option) \<Rightarrow> ('a \<Rightarrow> 'w::len word) \<Rightarrow> 'a \<Rightarrow> nat list \<Rightarrow> 'a list \<Rightarrow> 'a list option" where
  "MSORT limit std_sort rank dflt garbage xs =
     (if length xs \<le> limit then std_sort xs else rsort rank dflt garbage xs)"

subsection \<open>Counting\<close>

definition occ :: "('a \<Rightarrow> nat) \<Rightarrow> 'a list \<Rightarrow> nat \<Rightarrow> nat" where
  "occ dig xs j = length (filter (\<lambda>x. dig x = j) xs)"

lemma occ_simps [simp]: "occ dig [] j = 0" "occ dig (x # xs) j = (if dig x = j then 1 else 0) + occ dig xs j"
  by (simp_all add: occ_def)

lemma count_all_ok:
  "\<forall>x\<in>set xs. dig x < length cnt \<Longrightarrow>
   \<exists>cnt'. count_all dig cnt xs = Some cnt' \<and> length cnt' = length cnt \<and>
     (\<forall>j < length cnt. cnt' ! j = cnt ! j + occ dig xs j)"
proof (induction xs arbitrary: cnt)
  case (Cons x xs)
  then obtain cnt' where "count_all dig (cnt[dig x := cnt ! dig x + 1]) xs = Some cnt'" "length cnt' = length cnt"
    "\<forall>j < length cnt. cnt' ! j = cnt[dig x := cnt ! dig x + 1] ! j + occ dig xs j"
    using Cons.IH[of "cnt[dig x := cnt ! dig x + 1]"] by auto
  then show ?case using Cons.prems by (auto simp: nth_list_update)
qed simp

definition start_of :: "(nat \<Rightarrow> nat) \<Rightarrow> nat \<Rightarrow> nat \<Rightarrow> nat" where
  "start_of f lo j = sum_list (map f [lo..<j])"

lemma bucket_starts_ok:
  assumes "hi \<le> length cnt" "lo \<le> hi"
  shows "\<exists>cnt'. bucket_starts [lo..<hi] pos cnt = Some cnt' \<and> length cnt' = length cnt \<and>
     (\<forall>j < length cnt. cnt' ! j = (if lo \<le> j \<and> j < hi then pos + start_of (\<lambda>j. cnt ! j) lo j else cnt ! j))"
  using assms
proof (induction "hi - lo" arbitrary: lo pos cnt)
  case (Suc n)
  then have lt: "lo < hi" "lo < length cnt" "n = hi - Suc lo" "Suc lo \<le> hi" by auto
  let ?c = "cnt[lo := pos]"
  obtain cnt' where r: "bucket_starts [Suc lo..<hi] (pos + cnt ! lo) ?c = Some cnt'" "length cnt' = length cnt"
    "\<forall>j < length cnt. cnt' ! j =
      (if Suc lo \<le> j \<and> j < hi then pos + cnt ! lo + start_of (\<lambda>j. ?c ! j) (Suc lo) j else ?c ! j)"
    using Suc.hyps(1)[OF lt(3), of ?c "pos + cnt ! lo"] Suc.prems lt(4) by auto
  have "start_of (\<lambda>j. ?c ! j) (Suc lo) j + cnt ! lo = start_of (\<lambda>j. cnt ! j) lo j" if "Suc lo \<le> j" for j
  proof -
    have "sum_list (map (\<lambda>j. ?c ! j) [Suc lo..<j]) = sum_list (map (\<lambda>j. cnt ! j) [Suc lo..<j])"
      by (intro arg_cong[where f = sum_list] map_cong) auto
    then show ?thesis using that by (simp add: start_of_def upt_rec[of lo j])
  qed
  then have "cnt' ! j = (if lo \<le> j \<and> j < hi then pos + start_of (\<lambda>j. cnt ! j) lo j else cnt ! j)"
    if "j < length cnt" for j
    using r(3) that lt by (cases "j = lo") (auto simp: start_of_def ac_simps)
  then show ?case using r(1,2) lt by (simp add: upt_rec[of lo hi])
qed (simp add: not_less[symmetric])


subsection \<open>Distributing\<close>

text \<open>What the target buffer holds once the prefix \<open>ys\<close> of the input has been distributed.\<close>

definition scattered :: "('a \<Rightarrow> nat) \<Rightarrow> (nat \<Rightarrow> nat) \<Rightarrow> 'a list \<Rightarrow> nat list \<Rightarrow> 'a list \<Rightarrow> bool" where
  "scattered dig st ys cnt d \<longleftrightarrow>
     (\<forall>x. dig x < length cnt \<longrightarrow> cnt ! dig x = st (dig x) + occ dig ys (dig x)) \<and>
     (\<forall>j k. k < occ dig ys j \<longrightarrow> st j + k < length d \<and> d ! (st j + k) = filter (\<lambda>x. dig x = j) ys ! k)"

lemma occ_append: "occ dig (xs @ ys) j = occ dig xs j + occ dig ys j"
  by (simp add: occ_def)

lemma scatter_step:
  assumes sc: "scattered dig st ys cnt d" and x: "dig x < length cnt" "st (dig x) + occ dig ys (dig x) < length d"
    and sep: "\<And>j k. k < occ dig ys j \<Longrightarrow> st j + k \<noteq> st (dig x) + occ dig ys (dig x)"
  shows "scattered dig st (ys @ [x]) (cnt[dig x := cnt ! dig x + 1]) (d[cnt ! dig x := x])"
proof -
  let ?p = "st (dig x) + occ dig ys (dig x)"
  have c: "cnt ! dig x = ?p" using sc x(1) by (auto simp: scattered_def)
  have 1: "\<forall>y. dig y < length cnt \<longrightarrow>
      (cnt[dig x := cnt ! dig x + 1]) ! dig y = st (dig y) + occ dig (ys @ [x]) (dig y)"
    using sc by (auto simp: scattered_def occ_append nth_list_update)
  have 2: "st j + k < length d \<and> d[?p := x] ! (st j + k) = filter (\<lambda>y. dig y = j) (ys @ [x]) ! k"
    if k: "k < occ dig (ys @ [x]) j" for j k
  proof (cases "k < occ dig ys j")
    case True
    then show ?thesis using sc sep[OF True] by (auto simp: scattered_def nth_append occ_def)
  next
    case False
    then have "dig x = j" "k = occ dig ys j" using k by (auto simp: occ_append split: if_splits)
    then show ?thesis using x(2) by (auto simp: nth_append occ_def)
  qed
  show ?thesis unfolding scattered_def c using 1 2 c by simp
qed

lemma scatter_ok:
  assumes "scattered dig st ys cnt d" "\<forall>x\<in>set xs. dig x < length cnt"
    and "\<And>j. dig ` set xs \<subseteq> J" "\<And>j. j \<in> J \<Longrightarrow> st j + occ dig (ys @ xs) j \<le> length d"
    and "dig ` set ys \<subseteq> J"
    and sep: "\<And>j j' k k'. j \<in> J \<Longrightarrow> j' \<in> J \<Longrightarrow> k < occ dig (ys @ xs) j \<Longrightarrow> k' < occ dig (ys @ xs) j' \<Longrightarrow>
       st j + k = st j' + k' \<Longrightarrow> j = j'"
  shows "\<exists>cnt' d'. scatter dig cnt d xs = Some (cnt', d') \<and> length cnt' = length cnt \<and> length d' = length d \<and>
     scattered dig st (ys @ xs) cnt' d' \<and> (\<forall>j < length cnt. j \<notin> dig ` set xs \<longrightarrow> cnt' ! j = cnt ! j)"
  using assms
proof (induction xs arbitrary: ys cnt d)
  case (Cons x xs)
  have xJ: "dig x \<in> J" using Cons.prems(3) by auto
  have oc: "occ dig ys (dig x) < occ dig (ys @ x # xs) (dig x)" by (simp add: occ_append)
  have p: "cnt ! dig x = st (dig x) + occ dig ys (dig x)" using Cons.prems(1,2) by (auto simp: scattered_def)
  have pd: "cnt ! dig x < length d" using Cons.prems(4)[OF xJ] oc p by simp
  have yJ: "j \<in> J" if "k < occ dig ys j" for j k
  proof -
    have "filter (\<lambda>x. dig x = j) ys \<noteq> []" using that by (auto simp: occ_def)
    then show ?thesis using Cons.prems(5) by (auto simp: filter_empty_conv)
  qed
  have sep': "st j + k \<noteq> st (dig x) + occ dig ys (dig x)" if k: "k < occ dig ys j" for j k
  proof
    assume eq: "st j + k = st (dig x) + occ dig ys (dig x)"
    have "k < occ dig (ys @ x # xs) j" using k by (simp add: occ_append)
    from Cons.prems(6)[OF yJ[OF k] xJ this oc eq] show False using eq k by simp
  qed
  have sc: "scattered dig st (ys @ [x]) (cnt[dig x := cnt ! dig x + 1]) (d[cnt ! dig x := x])"
    by (rule scatter_step[OF Cons.prems(1) _ _ sep']) (use Cons.prems(2) pd p in auto)
  have "\<exists>cnt' d'. scatter dig (cnt[dig x := cnt ! dig x + 1]) (d[cnt ! dig x := x]) xs = Some (cnt', d') \<and>
     length cnt' = length (cnt[dig x := cnt ! dig x + 1]) \<and> length d' = length (d[cnt ! dig x := x]) \<and>
     scattered dig st ((ys @ [x]) @ xs) cnt' d' \<and>
     (\<forall>j < length (cnt[dig x := cnt ! dig x + 1]). j \<notin> dig ` set xs \<longrightarrow> cnt' ! j = cnt[dig x := cnt ! dig x + 1] ! j)"
    by (rule Cons.IH[OF sc]) (use Cons.prems in auto)
  then show ?case using Cons.prems(2) pd by auto
qed simp

lemma concat_nth_eq:
  assumes "length d = sum_list (map (\<lambda>j. length (B j)) [lo..<hi])" "lo \<le> hi"
    and "\<And>j k. lo \<le> j \<Longrightarrow> j < hi \<Longrightarrow> k < length (B j) \<Longrightarrow> d ! (start_of (\<lambda>j. length (B j)) lo j + k) = B j ! k"
  shows "d = concat (map B [lo..<hi])"
  using assms
proof (induction "hi - lo" arbitrary: hi d)
  case 0
  then show ?case by simp
next
  case (Suc n)
  then obtain h where h: "hi = Suc h" "lo \<le> h" "n = h - lo" by (cases hi) auto
  let ?s = "start_of (\<lambda>j. length (B j)) lo h"
  have len: "length d = ?s + length (B h)" using Suc.prems(1) h by (simp add: start_of_def)
  have s_le: "start_of (\<lambda>j. length (B j)) lo j + k < ?s" if "lo \<le> j" "j < h" "k < length (B j)" for j k
  proof -
    have "[lo..<h] = [lo..<j] @ j # [Suc j..<h]"
      using upt_add_eq_append[of lo j "h - j"] that by (simp add: upt_conv_Cons)
    then show ?thesis using that(3) by (simp add: start_of_def)
  qed
  have "take ?s d = concat (map B [lo..<h])"
    by (rule Suc.hyps(1)[OF h(3)]) (use len h(2) Suc.prems(3) s_le h(1) in \<open>auto simp: start_of_def\<close>)
  moreover have "drop ?s d = B h"
    by (rule nth_equalityI) (use len Suc.prems(3)[of h] h in auto)
  ultimately have "d = concat (map B [lo..<h]) @ B h" using append_take_drop_id[of ?s d] by simp
  then show ?case using h by simp
qed


subsection \<open>One pass is a stable sort\<close>

lemma start_of_sep:
  assumes "lo \<le> j" "j < j'" "k < f j"
  shows "start_of f lo j + k < start_of f lo j'"
proof -
  have "[lo..<j'] = [lo..<j] @ j # [Suc j..<j']"
    using upt_add_eq_append[of lo j "j' - j"] assms by (simp add: upt_conv_Cons)
  then show ?thesis using assms(3) by (simp add: start_of_def)
qed

lemma sum_occ:
  assumes "\<forall>x\<in>set xs. lo \<le> dig x \<and> dig x < hi"
  shows "sum_list (map (occ dig xs) [lo..<hi]) = length xs"
  using assms
proof (induction xs)
  case Nil
  then show ?case by (simp add: occ_def)
next
  case (Cons x xs)
  have "sum_list (map (occ dig (x # xs)) [lo..<hi]) =
      sum_list (map (\<lambda>j. (if dig x = j then 1 else 0) + occ dig xs j) [lo..<hi])"
    by (intro arg_cong[where f = sum_list] map_cong) auto
  also have "\<dots> = sum_list (map (\<lambda>j. if dig x = j then 1 else 0) [lo..<hi]) + sum_list (map (occ dig xs) [lo..<hi])"
    by (rule sum_list_addf)
  also have "sum_list (map (\<lambda>j. if dig x = j then 1 else 0) [lo..<hi]) = (1::nat)"
    using Cons.prems by (subst sum_list_distinct_conv_sum_set) auto
  finally show ?case using Cons by simp
qed

lemma scatter_pass:
  assumes cnt: "\<And>j. j < length cnt \<Longrightarrow> cnt ! j = occ dig xs j" and len: "hi \<le> length cnt" "lo \<le> hi"
    and rng: "\<forall>x\<in>set xs. lo \<le> dig x \<and> dig x < hi" and d: "length d = length xs"
    and st: "bucket_starts [lo..<hi] 0 cnt = Some starts"
  shows "\<exists>cnt'. scatter dig starts d xs = Some (cnt', concat (map (\<lambda>j. filter (\<lambda>x. dig x = j) xs) [lo..<hi])) \<and>
     length cnt' = length cnt \<and> (\<forall>j < length cnt. j < lo \<or> hi \<le> j \<longrightarrow> cnt' ! j = 0)"
proof -
  have s: "length starts = length cnt" "\<And>j. j < length cnt \<Longrightarrow>
      starts ! j = (if lo \<le> j \<and> j < hi then start_of (\<lambda>j. cnt ! j) lo j else cnt ! j)"
    using bucket_starts_ok[OF len, of 0] st by auto
  have so: "start_of (\<lambda>j. cnt ! j) lo j = start_of (occ dig xs) lo j" if "j \<le> hi" for j
    unfolding start_of_def using that len cnt by (intro arg_cong[where f = sum_list] map_cong) auto
  define S where "S j = (if lo \<le> j \<and> j < hi then start_of (occ dig xs) lo j else occ dig xs j)" for j
  have total: "start_of (occ dig xs) lo hi = length xs" using sum_occ[OF rng] by (simp add: start_of_def)
  have top: "start_of (occ dig xs) lo j + occ dig xs j \<le> length xs" if "lo \<le> j" "j < hi" for j
  proof -
    have "start_of (occ dig xs) lo j + occ dig xs j = start_of (occ dig xs) lo (Suc j)"
      using that by (simp add: start_of_def)
    also have "\<dots> \<le> start_of (occ dig xs) lo hi"
    proof -
      have "[lo..<hi] = [lo..<Suc j] @ [Suc j..<hi]" using upt_add_eq_append[of lo "Suc j" "hi - Suc j"] that by simp
      then show ?thesis by (simp add: start_of_def del: upt_Suc)
    qed
    finally show ?thesis using total by simp
  qed
  have sc0: "scattered dig S [] starts d"
    using s so len by (auto simp: scattered_def S_def occ_def cnt split: if_splits) 
  have "\<exists>cnt' d'. scatter dig starts d xs = Some (cnt', d') \<and> length cnt' = length starts \<and> length d' = length d \<and>
     scattered dig S ([] @ xs) cnt' d' \<and> (\<forall>j < length starts. j \<notin> dig ` set xs \<longrightarrow> cnt' ! j = starts ! j)"
  proof (rule scatter_ok[OF sc0, where J = "{lo..<hi}"])
    show "\<forall>x\<in>set xs. dig x < length starts" using rng len s(1) by auto
    show "dig ` set xs \<subseteq> {lo..<hi}" using rng by auto
    show "S j + occ dig ([] @ xs) j \<le> length d" if "j \<in> {lo..<hi}" for j using that top d by (simp add: S_def)
    show "dig ` set [] \<subseteq> {lo..<hi}" by simp
    show "j = j'" if "j \<in> {lo..<hi}" "j' \<in> {lo..<hi}" "k < occ dig ([] @ xs) j" "k' < occ dig ([] @ xs) j'"
      "S j + k = S j' + k'" for j j' k k'
      using that start_of_sep[of lo j j' k "occ dig xs"] start_of_sep[of lo j' j k' "occ dig xs"]
      by (cases j j' rule: linorder_cases) (auto simp: S_def)
  qed
  then obtain cnt' d' where r: "scatter dig starts d xs = Some (cnt', d')" "length cnt' = length starts"
    "length d' = length d" "scattered dig S xs cnt' d'" "\<forall>j < length starts. j \<notin> dig ` set xs \<longrightarrow> cnt' ! j = starts ! j"
    by auto
  have "d' = concat (map (\<lambda>j. filter (\<lambda>x. dig x = j) xs) [lo..<hi])"
  proof (rule concat_nth_eq)
    show "length d' = sum_list (map (\<lambda>j. length (filter (\<lambda>x. dig x = j) xs)) [lo..<hi])"
      using r(3) d sum_occ[OF rng] by (simp add: occ_def[abs_def])
    show "lo \<le> hi" by fact
    show "d' ! (start_of (\<lambda>j. length (filter (\<lambda>x. dig x = j) xs)) lo j + k) = filter (\<lambda>x. dig x = j) xs ! k"
      if "lo \<le> j" "j < hi" "k < length (filter (\<lambda>x. dig x = j) xs)" for j k
    proof -
      have "occ dig xs = (\<lambda>j. length (filter (\<lambda>x. dig x = j) xs))" by (simp add: occ_def fun_eq_iff)
      moreover have "k < occ dig xs j \<longrightarrow> d' ! (S j + k) = filter (\<lambda>x. dig x = j) xs ! k"
        using r(4) unfolding scattered_def by blast
      ultimately show ?thesis using that by (simp add: S_def)
    qed
  qed
  moreover have "cnt' ! j = 0" if "j < length cnt" "j < lo \<or> hi \<le> j" for j
  proof -
    have nj: "j \<notin> dig ` set xs" using rng that by auto
    then have "occ dig xs j = 0" by (auto simp: occ_def filter_empty_conv)
    then show ?thesis using r(5) nj that s cnt by auto
  qed
  ultimately show ?thesis using r(1,2) s(1) by auto
qed

lemma mset_buckets:
  "distinct js \<Longrightarrow> mset (concat (map (\<lambda>j. filter (\<lambda>x. dig x = j) c) js)) = filter_mset (\<lambda>x. dig x \<in> set js) (mset c)"
  by (induction js) (auto simp: multiset_eq_iff)

lemma sorted_buckets:
  fixes low dig :: "'a \<Rightarrow> nat"
  assumes "sorted (map low c)" "\<And>x. low x < m"
  shows "sorted_wrt (<) js \<Longrightarrow> sorted (map (\<lambda>x. m * dig x + low x) (concat (map (\<lambda>j. filter (\<lambda>x. dig x = j) c) js)))"
proof (induction js)
  case (Cons j js)
  have "sorted (map low (filter (\<lambda>x. dig x = j) c))" using assms(1) by (rule sorted_filter)
  then have "sorted (map (\<lambda>x. m * dig x + low x) (filter (\<lambda>x. dig x = j) c))"
    by (simp add: sorted_map) (erule sorted_wrt_mono_rel[rotated], auto)
  moreover have "m * j + low x \<le> m * dig y + low y" if "dig y \<in> set js" for x y
  proof -
    have "Suc j \<le> dig y" using Cons.prems that by auto
    then have "m * Suc j \<le> m * dig y" by (rule mult_le_mono2)
    then show ?thesis using assms(2)[of x] by simp
  qed
  ultimately show ?case using Cons by (auto simp: sorted_append)
qed simp

lemma concat_single:
  assumes "distinct js" "j0 \<in> set js" "\<And>j. j \<in> set js \<Longrightarrow> j \<noteq> j0 \<Longrightarrow> F j = []"
  shows "concat (map F js) = F j0"
proof -
  obtain as bs where "js = as @ j0 # bs" using assms(2) by (meson split_list)
  moreover from this have "concat (map F as) = []" "concat (map F bs) = []"
    using assms(1,3) by (fastforce simp: concat_eq_Nil_conv)+
  ultimately show ?thesis by (simp del: concat_eq_Nil_conv)
qed

lemma bucket_sort_key:
  fixes low dig :: "'a \<Rightarrow> nat"
  assumes rng: "\<forall>x\<in>set xs. lo \<le> dig x \<and> dig x < hi" and low: "\<And>x. low x < m"
  shows "concat (map (\<lambda>j. filter (\<lambda>x. dig x = j) (sort_key low xs)) [lo..<hi]) = sort_key (\<lambda>x. m * dig x + low x) xs"
proof -
  let ?c = "sort_key low xs" and ?key = "\<lambda>x. m * dig x + low x"
  let ?B = "\<lambda>j. filter (\<lambda>x. dig x = j) ?c"
  have keq: "?key x = ?key y \<longleftrightarrow> dig x = dig y \<and> low x = low y" for x y
  proof
    assume e: "?key x = ?key y"
    have "?key x div m = dig x" "?key y div m = dig y" using low[of x] low[of y] by auto
    then show "dig x = dig y \<and> low x = low y" using e by auto
  qed simp
  have m: "mset (concat (map ?B [lo..<hi])) = mset xs"
  proof -
    have "filter_mset (\<lambda>x. dig x \<in> set [lo..<hi]) (mset xs) = mset xs" using rng by (simp add: filter_mset_eq_conv)
    then show ?thesis by (subst mset_buckets) simp_all
  qed
  have srt: "sorted (map ?key (concat (map ?B [lo..<hi])))"
    by (rule sorted_buckets) (use low in simp_all)
  have stab: "filter (\<lambda>x. ?key k = ?key x) (concat (map ?B [lo..<hi])) = filter (\<lambda>x. ?key k = ?key x) xs"
    if "k \<in> set xs" for k
  proof -
    have "filter (\<lambda>x. ?key k = ?key x) (concat (map ?B [lo..<hi])) = concat (map (\<lambda>j. filter (\<lambda>x. ?key k = ?key x) (?B j)) [lo..<hi])"
      by (simp add: filter_concat o_def)
    also have "\<dots> = filter (\<lambda>x. ?key k = ?key x) (?B (dig k))"
      by (rule concat_single) (use rng that keq in \<open>auto simp: filter_empty_conv\<close>)
    also have "\<dots> = filter (\<lambda>x. dig x = dig k) (filter (\<lambda>x. low x = low k) ?c)"
      by (simp add: keq) (rule filter_cong, auto)
    also have "\<dots> = filter (\<lambda>x. ?key k = ?key x) xs"
      by (simp add: sort_key_stable keq) (rule filter_cong, auto)
    finally show ?thesis .
  qed
  show ?thesis
    by (rule properties_for_sort_key[symmetric]) (use m srt stab in \<open>auto dest: mset_eq_setD\<close>)
qed


subsection \<open>Bytes of ranks\<close>

lemma radix_mask_eq: "radix_mask = (mask 8 :: 'w::len word)"
  by (simp add: radix_mask_def mask_eq_exp_minus_1)

lemma bucket_eq: "bucket i (r :: 'w::len word) = unat r div 2 ^ i mod 256"
proof -
  have "drop_bit i r AND radix_mask = take_bit 8 (drop_bit i r)" by (simp add: radix_mask_eq take_bit_eq_mask)
  then have "bucket i r = take_bit 8 (drop_bit i (take_bit LENGTH('w) (unat r)))"
    unfolding bucket_def by (simp only: unsigned_take_bit_eq unsigned_drop_bit_eq)
  also have "take_bit LENGTH('w) (unat r) = unat r" by (simp add: take_bit_nat_eq_self)
  finally show ?thesis by (simp add: take_bit_eq_mod drop_bit_eq_div)
qed

lemma bucket_less: "bucket i r < 256"
  by (simp add: bucket_eq)

lemma bucket_mono:
  assumes "a AND b = (a :: 'w::len word)"
  shows "bucket i a \<le> bucket i b"
proof -
  have "(drop_bit i a AND radix_mask) AND (drop_bit i b AND radix_mask) = drop_bit i (a AND b) AND radix_mask"
    by (simp add: bit_eq_iff bit_simps) blast
  then have "(drop_bit i a AND radix_mask) AND (drop_bit i b AND radix_mask) = drop_bit i a AND radix_mask"
    using assms by simp
  then show ?thesis unfolding bucket_def by (metis word_and_le1 word_le_nat_alt)
qed

lemma bucket_shifted:
  assumes "i + 8 \<le> LENGTH('w)"
  shows "bucket i (r AND push_bit i radix_mask) = bucket i (r :: 'w::len word)"
proof -
  have "drop_bit i (r AND push_bit i radix_mask) AND radix_mask = drop_bit i r AND radix_mask"
    using assms by (auto simp: bit_eq_iff bit_simps radix_mask_eq)
  then show ?thesis by (simp add: bucket_def)
qed

lemma same_byte:
  fixes lo up r :: "'w::len word"
  assumes "lo AND r = lo" "r AND up = r" "lo AND s = up AND s" "s = push_bit i radix_mask" "i + 8 \<le> LENGTH('w)"
  shows "bucket i r = bucket i lo"
proof -
  have "bucket i lo = bucket i (lo AND s)" "bucket i up = bucket i (up AND s)"
    using bucket_shifted[OF assms(5)] assms(4) by simp_all
  then have "bucket i lo = bucket i up" using assms(3) by simp
  then show ?thesis using bucket_mono[OF assms(1), of i] bucket_mono[OF assms(2), of i] by simp
qed

lemma foldl_and_lower:
  fixes rank :: "'a \<Rightarrow> 'w::len word"
  shows "foldl (\<lambda>l x. l AND rank x) l xs AND l = foldl (\<lambda>l x. l AND rank x) l xs"
    "x \<in> set xs \<Longrightarrow> foldl (\<lambda>l x. l AND rank x) l xs AND rank x = foldl (\<lambda>l x. l AND rank x) l xs"
proof -
  show 1: "foldl (\<lambda>l x. l AND rank x) l xs AND l = foldl (\<lambda>l x. l AND rank x) l xs" for l xs
  proof (induction xs arbitrary: l)
    case (Cons x xs)
    then show ?case using Cons[of "l AND rank x"] by (simp add: bit_eq_iff bit_simps) blast
  qed simp
  show "foldl (\<lambda>l x. l AND rank x) l xs AND rank x = foldl (\<lambda>l x. l AND rank x) l xs" if "x \<in> set xs" for l
    using that
  proof (induction xs arbitrary: l)
    case (Cons y xs)
    show ?case
    proof (cases "x = y")
      case True
      then show ?thesis using 1[of "l AND rank y" xs] by (simp add: bit_eq_iff bit_simps) blast
    qed (use Cons in auto)
  qed simp
qed

lemma foldl_or_upper:
  fixes rank :: "'a \<Rightarrow> 'w::len word"
  shows "l AND foldl (\<lambda>l x. l OR rank x) l xs = l"
    "x \<in> set xs \<Longrightarrow> rank x AND foldl (\<lambda>l x. l OR rank x) l xs = rank x"
proof -
  show 1: "l AND foldl (\<lambda>l x. l OR rank x) l xs = l" for l xs
  proof (induction xs arbitrary: l)
    case (Cons x xs)
    then show ?case using Cons[of "l OR rank x"] by (simp add: bit_eq_iff bit_simps) blast
  qed simp
  show "rank x AND foldl (\<lambda>l x. l OR rank x) l xs = rank x" if "x \<in> set xs" for l
    using that
  proof (induction xs arbitrary: l)
    case (Cons y xs)
    show ?case
    proof (cases "x = y")
      case True
      then show ?thesis using 1[of "l OR rank y" xs] by (simp add: bit_eq_iff bit_simps) blast
    qed (use Cons in auto)
  qed simp
qed


subsection \<open>Correctness of the sort\<close>

definition low_key :: "('a \<Rightarrow> 'w::len word) \<Rightarrow> nat \<Rightarrow> 'a \<Rightarrow> nat" where
  "low_key rank i x = unat (rank x) mod 2 ^ i"

definition rsort_inv :: "('a \<Rightarrow> 'w::len word) \<Rightarrow> 'a list \<Rightarrow> nat \<Rightarrow> ('a, 'w) rsort_state \<Rightarrow> bool" where
  "rsort_inv rank xs i st \<longleftrightarrow>
     cur st = sort_key (low_key rank i) xs \<and> length (count st) = 256 \<and>
     (\<forall>j < 256. j < masked_lower st \<or> masked_upper st < j \<longrightarrow> count st ! j = 0) \<and>
     (initialized st \<longrightarrow> length (other st) = length xs) \<and>
     (bounded st \<longrightarrow> (\<forall>x \<in> set xs. lower st AND rank x = lower st \<and> rank x AND upper st = rank x))"

lemma low_key_step: "low_key rank (i + 8) = (\<lambda>x. 2 ^ i * bucket i (rank x) + low_key rank i x)"
proof
  fix x
  have "unat (rank x) mod (2 ^ i * 256) = 2 ^ i * (unat (rank x) div 2 ^ i mod 256) + unat (rank x) mod 2 ^ i"
    by (rule mod_mult2_eq)
  then show "low_key rank (i + 8) x = 2 ^ i * bucket i (rank x) + low_key rank i x"
    by (simp add: low_key_def bucket_eq power_add)
qed

lemma low_key_less: "low_key rank i x < 2 ^ i"
  by (simp add: low_key_def)

lemma skipped_byte:
  assumes "\<forall>x \<in> set xs. bucket i (rank x) = c"
  shows "sort_key (low_key rank i) xs = sort_key (low_key rank (i + 8)) xs"
proof -
  have "concat (map (\<lambda>j. filter (\<lambda>x. bucket i (rank x) = j) (sort_key (low_key rank i) xs)) [c..<Suc c]) =
      sort_key (low_key rank (i + 8)) xs"
    unfolding low_key_step by (rule bucket_sort_key) (use assms in \<open>auto simp: low_key_less\<close>)
  moreover have "filter (\<lambda>x. bucket i (rank x) = c) (sort_key (low_key rank i) xs) = sort_key (low_key rank i) xs"
    using assms by (simp add: filter_id_conv)
  ultimately show ?thesis by simp
qed

lemma clear_buckets_zero:
  assumes "length cnt = 256" "\<forall>j < 256. j < lo \<or> hi < j \<longrightarrow> cnt ! j = 0" "j < 256"
  shows "clear_buckets lo hi cnt ! j = 0"
  using assms by (auto simp: clear_buckets_def not_le)

lemma length_clear_buckets [simp]: "length (clear_buckets lo hi cnt) = length cnt"
  by (simp add: clear_buckets_def)

text \<open>The bounds that a pass computes or keeps enclose every rank.\<close>

lemma pass_bounds:
  assumes inv: "rsort_inv rank xs i st" and x: "x \<in> set xs"
    and "lo = (if bounded st then lower st else foldl (\<lambda>l x. l AND rank x) (lower st) (cur st))"
    and "up = (if bounded st then upper st else foldl (\<lambda>u x. u OR rank x) (upper st) (cur st))"
  shows "lo AND rank x = lo" "rank x AND up = rank x"
proof -
  have "x \<in> set (cur st)" using inv x by (simp add: rsort_inv_def)
  then show "lo AND rank x = lo" "rank x AND up = rank x"
    using assms foldl_and_lower(2)[of x "cur st"] foldl_or_upper(2)[of x "cur st"]
    by (auto simp: rsort_inv_def)
qed

lemma rsort_pass_ok:
  fixes rank :: "'a \<Rightarrow> 'w::len word"
  assumes inv: "rsort_inv rank xs i st" and i: "i + 8 \<le> LENGTH('w)" and ne: "xs \<noteq> []"
  shows "\<exists>st'. rsort_pass rank dflt st i = Some st' \<and> rsort_inv rank xs (i + 8) st'"
proof -
  define s :: "'w word" where "s = push_bit i radix_mask"
  define dig where "dig x = bucket i (rank x)" for x
  define lo where "lo = (if bounded st then lower st else foldl (\<lambda>l x. l AND rank x) (lower st) (cur st))"
  define up where "up = (if bounded st then upper st else foldl (\<lambda>u x. u OR rank x) (upper st) (cur st))"
  note pb = pass_bounds[OF inv _ lo_def up_def]
  have c: "cur st = sort_key (low_key rank i) xs" "length (count st) = 256" using inv by (auto simp: rsort_inv_def)
  have skip: "cur st = sort_key (low_key rank (i + 8)) xs" if "lo AND s = up AND s"
  proof -
    have "\<forall>x \<in> set xs. bucket i (rank x) = bucket i lo"
      using same_byte[OF pb(1) pb(2) that s_def i] by blast
    from skipped_byte[OF this] show ?thesis by (simp add: c(1))
  qed
  obtain cnt where cnt: "count_all dig (clear_buckets (masked_lower st) (masked_upper st) (count st)) (cur st) = Some cnt"
    "length cnt = 256" "\<forall>j < 256. cnt ! j = occ dig (cur st) j"
    using count_all_ok[of "cur st" dig "clear_buckets (masked_lower st) (masked_upper st) (count st)"]
      clear_buckets_zero[OF c(2), of "masked_lower st" "masked_upper st"] inv
    by (auto simp: c(2) dig_def bucket_less rsort_inv_def)
  have rng: "bucket i lo \<le> dig x \<and> dig x < Suc (bucket i up)" if "x \<in> set xs" for x
    using bucket_mono[OF pb(1)[OF that], of i] bucket_mono[OF pb(2)[OF that], of i] by (simp add: dig_def)
  obtain x0 where "x0 \<in> set xs" using ne by (cases xs) auto
  from rng[OF this] have le: "bucket i lo \<le> Suc (bucket i up)" by simp
  have le': "Suc (bucket i up) \<le> length cnt" using cnt(2) bucket_less[of i up] by simp
  have out: "cnt ! j = 0" if "j < 256" "j < bucket i lo \<or> bucket i up < j" for j
    using cnt(3) that rng by (fastforce simp: occ_def filter_empty_conv c(1))
  obtain starts where st: "bucket_starts [bucket i lo..<Suc (bucket i up)] 0 cnt = Some starts"
    using bucket_starts_ok[OF le' le, of 0] by blast
  define d0 where "d0 = (if initialized st then other st else replicate (length (cur st)) dflt)"
  have d0: "length d0 = length (cur st)" using inv by (simp add: d0_def rsort_inv_def)
  obtain cnt' where sc: "scatter dig starts d0 (cur st) = Some (cnt', sort_key (low_key rank (i + 8)) xs)"
    "length cnt' = 256" "\<forall>j < 256. j < bucket i lo \<or> Suc (bucket i up) \<le> j \<longrightarrow> cnt' ! j = 0"
  proof -
    have "\<exists>cnt'. scatter dig starts d0 (cur st) =
        Some (cnt', concat (map (\<lambda>j. filter (\<lambda>x. dig x = j) (cur st)) [bucket i lo..<Suc (bucket i up)])) \<and>
       length cnt' = length cnt \<and> (\<forall>j < length cnt. j < bucket i lo \<or> Suc (bucket i up) \<le> j \<longrightarrow> cnt' ! j = 0)"
      by (rule scatter_pass[OF _ le' le _ d0 st]) (use cnt rng c(1) in auto)
    moreover have "concat (map (\<lambda>j. filter (\<lambda>x. dig x = j) (cur st)) [bucket i lo..<Suc (bucket i up)]) =
        sort_key (low_key rank (i + 8)) xs"
      unfolding c(1) low_key_step dig_def by (rule bucket_sort_key) (use rng in \<open>auto simp: low_key_less dig_def\<close>)
    ultimately show thesis using that cnt(2) by auto
  qed
  show ?thesis
  proof (cases "bounded st \<and> lower st AND s = upper st AND s")
    case True
    then have "cur st = sort_key (low_key rank (i + 8)) xs" using skip by (simp add: lo_def up_def)
    then show ?thesis using True inv by (auto simp: rsort_pass_def s_def rsort_inv_def)
  next
    case False
    define st1 where "st1 = st\<lparr>count := cnt, lower := lo, upper := up,
        masked_lower := bucket i lo, masked_upper := bucket i up, bounded := True\<rparr>"
    have "rsort_pass rank dflt st i = (if \<not> bounded st \<and> lo AND s = up AND s then Some st1
        else Some (st1\<lparr>count := cnt', cur := sort_key (low_key rank (i + 8)) xs, other := cur st, initialized := True\<rparr>))"
      unfolding rsort_pass_def Let_def s_def[symmetric] dig_def[symmetric] lo_def[symmetric] up_def[symmetric]
        d0_def[symmetric] if_not_P[OF False] cnt(1)
      by (simp add: st sc(1) st1_def del: upt_Suc)
    moreover have "rsort_inv rank xs (i + 8) st1" if "lo AND s = up AND s"
      unfolding rsort_inv_def st1_def using cnt(2) out pb skip[OF that] inv by (simp add: rsort_inv_def)
    moreover have "rsort_inv rank xs (i + 8)
        (st1\<lparr>count := cnt', cur := sort_key (low_key rank (i + 8)) xs, other := cur st, initialized := True\<rparr>)"
      unfolding rsort_inv_def st1_def using sc pb by (simp add: Suc_le_eq c(1))
    ultimately show ?thesis by auto
  qed
qed

lemma rsort_passes_ok:
  fixes rank :: "'a \<Rightarrow> 'w::len word"
  assumes "rsort_inv rank xs (8 * a) st" "a \<le> b" "8 * b \<le> LENGTH('w)" "xs \<noteq> []"
  shows "\<exists>st'. rsort_passes rank dflt (map (\<lambda>k. 8 * k) [a..<b]) st = Some st' \<and> rsort_inv rank xs (8 * b) st'"
  using assms
proof (induction "b - a" arbitrary: a st)
  case 0
  then show ?case by simp
next
  case (Suc n)
  then have ab: "a < b" "n = b - Suc a" by auto
  obtain st1 where st1: "rsort_pass rank dflt st (8 * a) = Some st1" "rsort_inv rank xs (8 * a + 8) st1"
    using rsort_pass_ok[OF Suc.prems(1)] Suc.prems(3,4) ab by fastforce
  have "8 * a + 8 = 8 * Suc a" by simp
  with st1 Suc.hyps(1)[OF ab(2), of st1] Suc.prems ab show ?case by (auto simp: upt_conv_Cons)
qed

text \<open>
  \<^bold>\<open>C27\<close> Whatever the bucket array held before and whatever filled the second buffer, the radix
  sort, with its skipped bytes, its partial clearing and its swapped buffers, stays within the
  bounds of its arrays and is the stable sort by rank, for every rank type of at least two whole
  bytes (with a one-byte type the bucket index of the source wraps around).
\<close>

theorem rsort_is_stable_sort:
  fixes rank :: "'a \<Rightarrow> 'w::len word"
  assumes "8 < LENGTH('w)" "8 dvd LENGTH('w)" "length garbage = 256"
  shows "rsort rank dflt garbage xs = Some (sort_key (\<lambda>x. unat (rank x)) xs)"
proof (cases "length xs \<le> 1")
  case True
  then have "xs = [] \<or> (\<exists>x. xs = [x])" by (cases xs) auto
  then show ?thesis by (auto simp: rsort_def)
next
  case False
  then have ne: "xs \<noteq> []" by auto
  let ?st = "\<lparr>cur = xs, other = [], initialized = False, count = garbage, lower = NOT 0 :: 'w word, upper = 0,
    bounded = False, masked_lower = 0, masked_upper = 255\<rparr>"
  have "sort_key (low_key rank 0) xs = xs"
    by (rule properties_for_sort_key) (auto simp: low_key_def[abs_def] sorted_iff_nth_mono)
  then have "rsort_inv rank xs (8 * 0) ?st" using assms(3) by (auto simp: rsort_inv_def)
  from rsort_passes_ok[OF this, of "LENGTH('w) div 8" dflt] ne obtain st' where
    "rsort_passes rank dflt (map (\<lambda>k. 8 * k) [0..<LENGTH('w) div 8]) ?st = Some st'"
    "rsort_inv rank xs (8 * (LENGTH('w) div 8)) st'" by auto
  moreover have "low_key rank (8 * (LENGTH('w) div 8)) = (\<lambda>x. unat (rank x))"
    using assms(2) by (simp add: low_key_def fun_eq_iff)
  ultimately show ?thesis using False by (simp add: rsort_def rsort_inv_def)
qed

theorem rsort_is_stable_sort_witness:
  "rsort (fst :: 32 word \<times> nat \<Rightarrow> 32 word) (0, 0) (replicate 256 7) [(70000, 1), (5, 2), (70000, 3), (300, 4)] =
   Some [(5, 2), (300, 4), (70000, 1), (70000, 3)]"
  by (subst rsort_is_stable_sort) simp_all

end
