(* ===== verification/Checker.thy ===== *)
theory Checker
  imports Sat_Semantics "HOL-Library.Monad_Syntax"
begin

text \<open>
  The online forward proof checker of \<^verbatim>\<open>src/checker.hpp\<close> and \<^verbatim>\<open>src/checker.cpp\<close>: its clause
  store with the hash table, its watch lists, unit propagation and the three observer
  operations \<^verbatim>\<open>add_original_clause\<close>, \<^verbatim>\<open>add_derived_clause\<close> and \<^verbatim>\<open>delete_clause\<close>.

  A clause object has an address in the map \<open>store\<close>; the collision chains of the hash table and
  the list of garbage clauses, which the code links through the field \<^verbatim>\<open>next\<close>, are lists of
  addresses.  \<^verbatim>\<open>vals\<close> is indexed by literals and is a function that is only read and written
  in its range.  \<open>None\<close> stands for undefined behaviour (an access out of range or to freed
  memory) and for a loop that does not end; the totality theorem shows that neither happens.
  Statistics counters and messages are left out.
\<close>

unbundle bit_operations_syntax

named_theorems ck_defs \<open>definitions of the checker's small operations\<close>

section \<open>Data\<close>

record checker_clause =
  c_hash :: "64 word"
  c_size :: nat
  c_lits :: "int list"

record checker_watch =
  blit :: int
  wsize :: nat
  wclause :: nat

record checker =
  size_vars :: int
  vals :: "int \<Rightarrow> int"
  watchers :: "checker_watch list list"
  marks :: "bool list"
  inconsistent :: bool
  num_clauses :: nat
  num_garbage :: nat
  size_clauses :: nat
  clauses :: "nat list list"
  garbage :: "nat list"
  unsimplified :: "int list"
  simplified :: "int list"
  trail :: "int list"
  next_to_propagate :: nat
  nonces :: "64 word list"
  last_hash :: "64 word"
  store :: "nat \<rightharpoonup> checker_clause"
  fresh :: nat

datatype 'a checked = Fatal | Checked 'a

section \<open>Operations\<close>

text \<open>The random number generator of \<^verbatim>\<open>random.hpp\<close>, which provides the nonces.\<close>

definition random_next :: "64 word \<Rightarrow> 64 word" where
  "random_next st = st * 6364136223846793005 + 1442695040888963407"

fun draw_nonces :: "nat \<Rightarrow> 64 word \<Rightarrow> 64 word list" where
  "draw_nonces 0 st = []"
| "draw_nonces (Suc n) st =
     (let nonce = random_next st
      in (if nonce AND 1 = 0 then nonce + 1 else nonce) # draw_nonces n nonce)"

definition new_Checker :: checker where
  "new_Checker = \<lparr>size_vars = 0, vals = (\<lambda>_. 0), watchers = [], marks = [], inconsistent = False,
     num_clauses = 0, num_garbage = 0, size_clauses = 0, clauses = [], garbage = [],
     unsimplified = [], simplified = [], trail = [], next_to_propagate = 0,
     nonces = draw_nonces 4 42, last_hash = 0, store = Map.empty, fresh = 0\<rparr>"

definition l2u :: "int \<Rightarrow> nat" where
  "l2u lit = (if lit = 0 then 2 ^ 32 - 2 else nat (2 * (\<bar>lit\<bar> - 1)) + (if lit < 0 then 1 else 0))"

definition ck_val :: "checker \<Rightarrow> int \<Rightarrow> int option" where
  "ck_val ck lit = (if \<bar>lit\<bar> < size_vars ck then Some (vals ck lit) else None)"

definition watcher :: "checker \<Rightarrow> int \<Rightarrow> checker_watch list option" where
  "watcher ck lit = vec_at (watchers ck) (l2u lit)"

definition set_watcher :: "checker \<Rightarrow> int \<Rightarrow> checker_watch list \<Rightarrow> checker option" where
  "set_watcher ck lit ws = do {
     wss \<leftarrow> vec_put (watchers ck) (l2u lit) ws; Some (ck\<lparr>watchers := wss\<rparr>) }"

definition push_watch :: "checker \<Rightarrow> int \<Rightarrow> checker_watch \<Rightarrow> checker option" where
  "push_watch ck lit w = do { ws \<leftarrow> watcher ck lit; set_watcher ck lit (ws @ [w]) }"

definition set_mark :: "checker \<Rightarrow> bool \<Rightarrow> int \<Rightarrow> checker option" where
  "set_mark ck b lit = do { ms \<leftarrow> vec_put (marks ck) (l2u lit) b; Some (ck\<lparr>marks := ms\<rparr>) }"

text \<open>Left to right iteration with an operation that may be undefined.\<close>

fun mfold :: "('s \<Rightarrow> 'a \<Rightarrow> 's option) \<Rightarrow> 's \<Rightarrow> 'a list \<Rightarrow> 's option" where
  "mfold f s [] = Some s"
| "mfold f s (x # xs) = do { s' \<leftarrow> f s x; mfold f s' xs }"

subsection \<open>Clauses and the hash table\<close>

fun first_unassigned :: "checker \<Rightarrow> int list \<Rightarrow> nat list \<Rightarrow> nat option option" where
  "first_unassigned ck lits [] = Some None"
| "first_unassigned ck lits (j # js) = do {
     other \<leftarrow> vec_at lits j;
     v \<leftarrow> ck_val ck other;
     if v \<noteq> 0 then first_unassigned ck lits js else Some (Some j) }"

definition swap_lits :: "int list \<Rightarrow> nat \<Rightarrow> nat \<Rightarrow> int list" where
  "swap_lits lits i j = lits[i := lits ! j, j := lits ! i]"

definition watch_position :: "checker \<Rightarrow> int list \<Rightarrow> nat \<Rightarrow> int list option" where
  "watch_position ck lits i = do {
     lit \<leftarrow> vec_at lits i;
     v \<leftarrow> ck_val ck lit;
     if v = 0 then Some lits
     else do {
       r \<leftarrow> first_unassigned ck lits [i + 1..<length lits];
       Some (case r of None \<Rightarrow> lits | Some j \<Rightarrow> swap_lits lits i j) } }"

definition new_clause :: "checker \<Rightarrow> (checker \<times> nat) option" where
  "new_clause ck = do {
     lits0 \<leftarrow> watch_position ck (simplified ck) 0;
     lits \<leftarrow> watch_position ck lits0 1;
     l0 \<leftarrow> vec_at lits 0;
     l1 \<leftarrow> vec_at lits 1;
     let p = fresh ck;
     let n = length (simplified ck);
     let ck1 = ck\<lparr>store := (store ck)(p \<mapsto> \<lparr>c_hash = last_hash ck, c_size = n, c_lits = lits\<rparr>),
                  fresh := Suc p, num_clauses := num_clauses ck + 1\<rparr>;
     ck2 \<leftarrow> push_watch ck1 l0 \<lparr>blit = l1, wsize = n, wclause = p\<rparr>;
     ck3 \<leftarrow> push_watch ck2 l1 \<lparr>blit = l0, wsize = n, wclause = p\<rparr>;
     Some (ck3, p) }"

definition free_clause :: "checker \<Rightarrow> nat \<Rightarrow> checker option" where
  "free_clause ck p = do {
     c \<leftarrow> store ck p;
     Some ((if c_size c \<noteq> 0 then ck\<lparr>num_clauses := num_clauses ck - 1\<rparr>
            else ck\<lparr>num_garbage := num_garbage ck - 1\<rparr>)\<lparr>store := (store ck)(p := None)\<rparr>) }"

partial_function (option) reduce_loop :: "nat \<Rightarrow> 64 word \<Rightarrow> nat \<Rightarrow> 64 word option" where
  "reduce_loop shift res sz =
     (if (2 :: int) ^ shift > int sz then reduce_loop (shift div 2) (res XOR drop_bit shift res) sz else Some res)"

declare reduce_loop.simps [code]

definition reduce_hash :: "64 word \<Rightarrow> nat \<Rightarrow> nat option" where
  "reduce_hash h sz = do { res \<leftarrow> reduce_loop 32 h sz; Some (unat (res AND (of_nat sz - 1))) }"

fun hash_from :: "64 word list \<Rightarrow> nat \<Rightarrow> 64 word \<Rightarrow> int list \<Rightarrow> 64 word option" where
  "hash_from ns j tmp [] = Some tmp"
| "hash_from ns j tmp (lit # lits) = do {
     n \<leftarrow> vec_at ns j;
     hash_from ns (if j + 1 = 4 then 0 else j + 1) (tmp + n * of_int lit) lits }"

definition compute_hash :: "checker \<Rightarrow> (checker \<times> 64 word) option" where
  "compute_hash ck = do {
     h \<leftarrow> hash_from (nonces ck) 0 0 (simplified ck); Some (ck\<lparr>last_hash := h\<rparr>, h) }"

definition rehash :: "(nat \<rightharpoonup> checker_clause) \<Rightarrow> nat list list \<Rightarrow> nat \<Rightarrow> nat list list option" where
  "rehash st tab p = do {
     c \<leftarrow> st p;
     h \<leftarrow> reduce_hash (c_hash c) (length tab);
     chain \<leftarrow> vec_at tab h;
     vec_put tab h (p # chain) }"

definition enlarge_clauses :: "checker \<Rightarrow> checker option" where
  "enlarge_clauses ck = (
     let n = (if size_clauses ck \<noteq> 0 then 2 * size_clauses ck else 1)
     in do {
       tab \<leftarrow> mfold (rehash (store ck)) (replicate n []) (concat (clauses ck));
       Some (ck\<lparr>clauses := tab, size_clauses := n\<rparr>) })"

definition insert_clause :: "checker \<Rightarrow> checker option" where
  "insert_clause ck0 = do {
     ck \<leftarrow> (if num_clauses ck0 = size_clauses ck0 then enlarge_clauses ck0 else Some ck0);
     (ck1, hash) \<leftarrow> compute_hash ck;
     h \<leftarrow> reduce_hash hash (size_clauses ck1);
     (ck2, p) \<leftarrow> new_clause ck1;
     chain \<leftarrow> vec_at (clauses ck2) h;
     tab \<leftarrow> vec_put (clauses ck2) h (p # chain);
     Some (ck2\<lparr>clauses := tab\<rparr>) }"

text \<open>The loop of \<^verbatim>\<open>find\<close> over one chain; it returns the part of the chain before the match too.\<close>

fun all_marked :: "checker \<Rightarrow> int list \<Rightarrow> bool option" where
  "all_marked ck [] = Some True"
| "all_marked ck (lit # lits) = do {
     m \<leftarrow> vec_at (marks ck) (l2u lit); if m then all_marked ck lits else Some False }"

fun find_in_chain :: "checker \<Rightarrow> 64 word \<Rightarrow> nat \<Rightarrow> nat list \<Rightarrow> nat option option" where
  "find_in_chain ck hash sz [] = Some None"
| "find_in_chain ck hash sz (p # ps) = do {
     c \<leftarrow> store ck p;
     found \<leftarrow> (if c_hash c = hash \<and> c_size c = sz then all_marked ck (take sz (c_lits c)) else Some False);
     if found then Some (Some p) else find_in_chain ck hash sz ps }"

definition find_clause :: "checker \<Rightarrow> (checker \<times> nat \<times> nat option) option" where
  "find_clause ck0 = do {
     (ck, hash) \<leftarrow> compute_hash ck0;
     h \<leftarrow> reduce_hash hash (size_clauses ck);
     ck1 \<leftarrow> mfold (\<lambda>s. set_mark s True) ck (simplified ck);
     chain \<leftarrow> vec_at (clauses ck1) h;
     r \<leftarrow> find_in_chain ck1 hash (length (simplified ck1)) chain;
     ck2 \<leftarrow> mfold (\<lambda>s. set_mark s False) ck1 (simplified ck1);
     Some (ck2, h, r) }"

subsection \<open>Garbage collection\<close>

fun any_true :: "checker \<Rightarrow> int list \<Rightarrow> bool option" where
  "any_true ck [] = Some False"
| "any_true ck (lit # lits) = do { v \<leftarrow> ck_val ck lit; if v > 0 then Some True else any_true ck lits }"

definition clause_satisfied :: "checker \<Rightarrow> nat \<Rightarrow> bool option" where
  "clause_satisfied ck p = do { c \<leftarrow> store ck p; any_true ck (take (c_size c) (c_lits c)) }"

definition make_garbage :: "checker \<Rightarrow> nat \<Rightarrow> checker option" where
  "make_garbage ck p = do {
     c \<leftarrow> store ck p;
     Some (ck\<lparr>store := (store ck)(p \<mapsto> c\<lparr>c_size := 0\<rparr>), garbage := p # garbage ck,
              num_garbage := num_garbage ck + 1, num_clauses := num_clauses ck - 1\<rparr>) }"

fun sweep_chain :: "checker \<Rightarrow> nat list \<Rightarrow> (checker \<times> nat list) option" where
  "sweep_chain ck [] = Some (ck, [])"
| "sweep_chain ck (p # ps) = do {
     s \<leftarrow> clause_satisfied ck p;
     if s then do { ck' \<leftarrow> make_garbage ck p; sweep_chain ck' ps }
     else do { (ck', qs) \<leftarrow> sweep_chain ck ps; Some (ck', p # qs) } }"

fun sweep_chains :: "checker \<Rightarrow> nat list list \<Rightarrow> (checker \<times> nat list list) option" where
  "sweep_chains ck [] = Some (ck, [])"
| "sweep_chains ck (ps # pss) = do {
     (ck1, qs) \<leftarrow> sweep_chain ck ps;
     (ck2, qss) \<leftarrow> sweep_chains ck1 pss;
     Some (ck2, qs # qss) }"

fun live_watches :: "checker \<Rightarrow> checker_watch list \<Rightarrow> checker_watch list option" where
  "live_watches ck [] = Some []"
| "live_watches ck (w # ws) = do {
     c \<leftarrow> store ck (wclause w);
     vs \<leftarrow> live_watches ck ws;
     Some (if c_size c \<noteq> 0 then w # vs else vs) }"

definition flush_watcher :: "checker \<Rightarrow> int \<Rightarrow> checker option" where
  "flush_watcher ck lit = (if lit = 0 then Some ck else do {
     ws \<leftarrow> watcher ck lit;
     vs \<leftarrow> live_watches ck ws;
     set_watcher ck lit vs })"

text \<open>The loop variable is an \<^verbatim>\<open>int\<close>: the last increment overflows once \<^verbatim>\<open>size_vars\<close> exceeds \<^verbatim>\<open>INT_MAX\<close>.\<close>

definition collect_garbage_clauses :: "checker \<Rightarrow> checker option" where
  "collect_garbage_clauses ck = do {
     (ck1, tab) \<leftarrow> sweep_chains ck (clauses ck);
     let ck2 = ck1\<lparr>clauses := tab\<rparr>;
     if size_vars ck2 > INT_MAX then None else do {
       ck3 \<leftarrow> mfold flush_watcher ck2 [- size_vars ck2 + 1..size_vars ck2 - 1];
       ck4 \<leftarrow> mfold free_clause ck3 (garbage ck3);
       Some (ck4\<lparr>garbage := []\<rparr>) } }"

subsection \<open>Importing a clause\<close>

function double_until :: "int \<Rightarrow> int \<Rightarrow> int" where
  "double_until idx n = (if 0 < n \<and> n \<le> idx then double_until idx (2 * n) else n)"
  by auto
termination by (relation "measure (\<lambda>(idx, n). nat (idx + 1 - n))") auto

declare double_until.simps [simp del]

definition enlarge_vars :: "checker \<Rightarrow> int \<Rightarrow> checker" where
  "enlarge_vars ck idx = (
     let n = double_until idx (if size_vars ck \<noteq> 0 then 2 * size_vars ck else 2)
     in ck\<lparr>vals := (\<lambda>l. if - size_vars ck \<le> l \<and> l < size_vars ck then vals ck l else 0),
           watchers := resize (nat (2 * n)) [] (watchers ck),
           marks := resize (nat (2 * n)) False (marks ck),
           size_vars := n\<rparr>)"

definition import_literal :: "checker \<Rightarrow> int \<Rightarrow> checker option" where
  "import_literal ck lit = (if \<bar>lit\<bar> > INT_MAX then None else
     let ck1 = (if \<bar>lit\<bar> \<ge> size_vars ck then enlarge_vars ck \<bar>lit\<bar> else ck)
     in Some (ck1\<lparr>simplified := simplified ck1 @ [lit], unsimplified := unsimplified ck1 @ [lit]\<rparr>))"

definition import_clause :: "checker \<Rightarrow> int list \<Rightarrow> checker option" where
  "import_clause ck c = mfold import_literal ck c"

definition lit_smaller :: "int \<Rightarrow> int \<Rightarrow> bool" where
  "lit_smaller a b = (let c = \<bar>a\<bar>; d = \<bar>b\<bar> in if c < d then True else if c > d then False else a < b)"

text \<open>The library's sort: insertion by the comparison, which orders all literals linearly.\<close>

fun insert_lit :: "int \<Rightarrow> int list \<Rightarrow> int list" where
  "insert_lit l [] = [l]"
| "insert_lit l (k # ks) = (if lit_smaller k l then k # insert_lit l ks else l # k # ks)"

definition sort_lits :: "int list \<Rightarrow> int list" where
  "sort_lits ls = foldr insert_lit ls []"

fun tautological_loop :: "checker \<Rightarrow> int \<Rightarrow> int list \<Rightarrow> int list \<Rightarrow> (bool \<times> int list) option" where
  "tautological_loop ck prev kept [] = Some (False, kept)"
| "tautological_loop ck prev kept (lit # lits) =
     (if lit = prev then tautological_loop ck prev kept lits
      else if lit = - prev then Some (True, kept)
      else do {
        tmp \<leftarrow> ck_val ck lit;
        if tmp > 0 then Some (True, kept)
        else tautological_loop ck lit (kept @ [lit]) lits })"

text \<open>When the result is true the vector keeps its length, with the kept literals in front.\<close>

definition tautological :: "checker \<Rightarrow> (checker \<times> bool) option" where
  "tautological ck = (let sorted = sort_lits (simplified ck) in do {
     (t, kept) \<leftarrow> tautological_loop ck 0 [] sorted;
     Some (ck\<lparr>simplified := (if t then kept @ drop (length kept) sorted else kept)\<rparr>, t) })"

subsection \<open>Propagation\<close>

definition ck_assign :: "checker \<Rightarrow> int \<Rightarrow> checker option" where
  "ck_assign ck lit = (if \<bar>lit\<bar> < size_vars ck
     then Some (ck\<lparr>vals := (vals ck)(lit := 1, - lit := - 1), trail := trail ck @ [lit]\<rparr>) else None)"

definition ck_assume :: "checker \<Rightarrow> int \<Rightarrow> checker option" where
  "ck_assume ck lit = do { tmp \<leftarrow> ck_val ck lit; if tmp > 0 then Some ck else ck_assign ck lit }"

definition unassign_last :: "checker \<Rightarrow> checker option" where
  "unassign_last ck = (if trail ck = [] then None else
     let lit = last (trail ck)
     in if \<bar>lit\<bar> < size_vars ck
        then Some (ck\<lparr>vals := (vals ck)(lit := 0, - lit := 0), trail := butlast (trail ck)\<rparr>) else None)"

function backtrack_loop :: "nat \<Rightarrow> checker \<Rightarrow> checker option" where
  "backtrack_loop n ck =
     (if length (trail ck) > n then do { ck' \<leftarrow> unassign_last ck; backtrack_loop n ck' } else Some ck)"
  by auto
termination
  by (relation "measure (\<lambda>(n, ck). length (trail ck))")
    (auto simp: unassign_last_def Let_def split: if_splits)

declare backtrack_loop.simps [simp del]

definition ck_backtrack :: "nat \<Rightarrow> checker \<Rightarrow> checker option" where
  "ck_backtrack n ck = do { ck' \<leftarrow> backtrack_loop n ck; Some (ck'\<lparr>next_to_propagate := n\<rparr>) }"

fun replacement_index :: "checker \<Rightarrow> int list \<Rightarrow> nat list \<Rightarrow> nat option option" where
  "replacement_index ck lits [] = Some None"
| "replacement_index ck lits (k # ks) = do {
     lit \<leftarrow> vec_at lits k;
     v \<leftarrow> ck_val ck lit;
     if v \<ge> 0 then Some (Some k) else replacement_index ck lits ks }"

definition set_lits :: "checker \<Rightarrow> nat \<Rightarrow> int list \<Rightarrow> checker option" where
  "set_lits ck p lits = do {
     c \<leftarrow> store ck p; Some (ck\<lparr>store := (store ck)(p \<mapsto> c\<lparr>c_lits := lits\<rparr>)\<rparr>) }"

text \<open>
  The treatment of a watch \<open>w\<close> of the falsified literal whose clause \<open>c\<close> has more than two
  literals.  The result is whether propagation goes on, the state, and the watch to keep.  A
  replacement that is the watched literal itself would grow the vector that is traversed.
\<close>

definition visit_long ::
  "checker \<Rightarrow> int \<Rightarrow> checker_watch \<Rightarrow> (bool \<times> checker \<times> checker_watch list) option" where
  "visit_long ck lit w = do {
     c \<leftarrow> store ck (wclause w);
     if c_size c = 0 then Some (True, ck, [])
     else do {
       l0 \<leftarrow> vec_at (c_lits c) 0;
       l1 \<leftarrow> vec_at (c_lits c) 1;
       let other = l0 XOR l1 XOR (- lit);
       other_val \<leftarrow> ck_val ck other;
       if other_val > 0 then Some (True, ck, [w\<lparr>blit := other\<rparr>])
       else do {
         let lits = (c_lits c)[0 := other, 1 := - lit];
         ck1 \<leftarrow> set_lits ck (wclause w) lits;
         r \<leftarrow> replacement_index ck1 lits [2..<wsize w];
         (case r of
            Some k \<Rightarrow>
              if lits ! k = - lit then None else do {
                ck2 \<leftarrow> push_watch ck1 (lits ! k) \<lparr>blit = - lit, wsize = c_size c, wclause = wclause w\<rparr>;
                ck3 \<leftarrow> set_lits ck2 (wclause w) (swap_lits lits 1 k);
                Some (True, ck3, []) }
          | None \<Rightarrow>
              if other_val = 0 then do { ck2 \<leftarrow> ck_assign ck1 other; Some (True, ck2, [w]) }
              else Some (False, ck1, [w])) } } }"

definition visit_watch ::
  "checker \<Rightarrow> int \<Rightarrow> checker_watch \<Rightarrow> (bool \<times> checker \<times> checker_watch list) option" where
  "visit_watch ck lit w = do {
     blit_val \<leftarrow> ck_val ck (blit w);
     if blit_val > 0 then Some (True, ck, [w])
     else if wsize w = 2 then
       (if blit_val < 0 then Some (False, ck, [w])
        else do { ck' \<leftarrow> ck_assign ck (blit w); Some (True, ck', [w]) })
     else visit_long ck lit w }"

fun visit_watches ::
  "checker \<Rightarrow> int \<Rightarrow> checker_watch list \<Rightarrow> checker_watch list \<Rightarrow>
     (bool \<times> checker \<times> checker_watch list) option" where
  "visit_watches ck lit kept [] = Some (True, ck, kept)"
| "visit_watches ck lit kept (w # ws) = do {
     (res, ck', k) \<leftarrow> visit_watch ck lit w;
     if res then visit_watches ck' lit (kept @ k) ws else Some (False, ck', kept @ k @ ws) }"

definition propagate_next :: "checker \<Rightarrow> (bool \<times> checker) option" where
  "propagate_next ck0 = do {
     lit \<leftarrow> vec_at (trail ck0) (next_to_propagate ck0);
     let ck = ck0\<lparr>next_to_propagate := next_to_propagate ck0 + 1\<rparr>;
     ws \<leftarrow> watcher ck (- lit);
     (res, ck1, ws1) \<leftarrow> visit_watches ck lit [] ws;
     ck2 \<leftarrow> set_watcher ck1 (- lit) ws1;
     Some (res, ck2) }"

partial_function (option) ck_propagate :: "checker \<Rightarrow> (bool \<times> checker) option" where
  "ck_propagate ck =
     (if next_to_propagate ck < length (trail ck)
      then do { (res, ck1) \<leftarrow> propagate_next ck; if res then ck_propagate ck1 else Some (False, ck1) }
      else Some (True, ck))"

declare ck_propagate.simps [code]

definition check_clause :: "checker \<Rightarrow> (bool \<times> checker) option" where
  "check_clause ck = (if inconsistent ck then Some (True, ck) else do {
     ck1 \<leftarrow> mfold (\<lambda>s lit. ck_assume s (- lit)) ck (simplified ck);
     (res, ck2) \<leftarrow> ck_propagate ck1;
     ck3 \<leftarrow> ck_backtrack (next_to_propagate ck) ck2;
     Some (\<not> res, ck3) })"

subsection \<open>The observer interface\<close>

text \<open>The unit of a clause: \<open>Inl 0\<close> when it has none, \<open>Inl l\<close> when it has one, \<open>Inr ()\<close> for \<^verbatim>\<open>INT_MIN\<close>.\<close>

fun find_unit :: "checker \<Rightarrow> int \<Rightarrow> int list \<Rightarrow> (int + unit) option" where
  "find_unit ck unit [] = Some (Inl unit)"
| "find_unit ck unit (lit # lits) = do {
     tmp \<leftarrow> ck_val ck lit;
     if tmp < 0 then find_unit ck unit lits
     else if unit \<noteq> 0 then Some (Inr ())
     else find_unit ck lit lits }"

definition add_clause :: "checker \<Rightarrow> checker option" where
  "add_clause ck = do {
     u \<leftarrow> find_unit ck 0 (simplified ck);
     (case u of
        Inl unit \<Rightarrow>
          if unit = 0 then Some (ck\<lparr>inconsistent := True\<rparr>)
          else do {
            ck1 \<leftarrow> ck_assign ck unit;
            (res, ck2) \<leftarrow> ck_propagate ck1;
            Some (if res then ck2 else ck2\<lparr>inconsistent := True\<rparr>) }
      | Inr _ \<Rightarrow> insert_clause ck) }"

definition clear_buffers :: "checker \<Rightarrow> checker" where
  "clear_buffers ck = ck\<lparr>simplified := [], unsimplified := []\<rparr>"

definition add_original_clause :: "checker \<Rightarrow> int list \<Rightarrow> checker checked option" where
  "add_original_clause ck c = (if inconsistent ck then Some (Checked ck) else do {
     ck1 \<leftarrow> import_clause ck c;
     (ck2, t) \<leftarrow> tautological ck1;
     ck3 \<leftarrow> (if t then Some ck2 else add_clause ck2);
     Some (Checked (clear_buffers ck3)) })"

definition add_derived_clause :: "checker \<Rightarrow> int list \<Rightarrow> checker checked option" where
  "add_derived_clause ck c = (if inconsistent ck then Some (Checked ck) else do {
     ck1 \<leftarrow> import_clause ck c;
     (ck2, t) \<leftarrow> tautological ck1;
     if t then Some (Checked (clear_buffers ck2))
     else do {
       (ok, ck3) \<leftarrow> check_clause ck2;
       if ok then do { ck4 \<leftarrow> add_clause ck3; Some (Checked (clear_buffers ck4)) }
       else Some Fatal } })"

definition unlink_clause :: "checker \<Rightarrow> nat \<Rightarrow> nat \<Rightarrow> checker option" where
  "unlink_clause ck h p = do {
     chain \<leftarrow> vec_at (clauses ck) h;
     tab \<leftarrow> vec_put (clauses ck) h (remove1 p chain);
     make_garbage (ck\<lparr>clauses := tab\<rparr>) p }"

definition delete_clause :: "checker \<Rightarrow> int list \<Rightarrow> checker checked option" where
  "delete_clause ck c = (if inconsistent ck then Some (Checked ck) else do {
     ck1 \<leftarrow> import_clause ck c;
     (ck2, t) \<leftarrow> tautological ck1;
     if t then Some (Checked (clear_buffers ck2))
     else do {
       (ck3, h, d) \<leftarrow> find_clause ck2;
       (case d of
          None \<Rightarrow> Some Fatal
        | Some p \<Rightarrow> do {
            ck4 \<leftarrow> unlink_clause ck3 h p;
            ck5 \<leftarrow> (if 2 * int (num_garbage ck4) > max (int (size_clauses ck4)) (size_vars ck4)
                   then collect_garbage_clauses ck4 else Some ck4);
            Some (Checked (clear_buffers ck5)) }) } })"

datatype observer_event = Original "int list" | Derived "int list" | Deleted "int list"

fun observe_event :: "checker \<Rightarrow> observer_event \<Rightarrow> checker checked option" where
  "observe_event ck (Original c) = add_original_clause ck c"
| "observe_event ck (Derived c) = add_derived_clause ck c"
| "observe_event ck (Deleted c) = delete_clause ck c"

text \<open>Notifying an observer of a sequence of events; a fatal message ends the process.\<close>

fun run_events :: "('s \<Rightarrow> 'e \<Rightarrow> 's checked option) \<Rightarrow> 's \<Rightarrow> 'e list \<Rightarrow> 's checked option" where
  "run_events f s [] = Some (Checked s)"
| "run_events f s (e # es) = do {
     r \<leftarrow> f s e;
     (case r of Fatal \<Rightarrow> Some Fatal | Checked s' \<Rightarrow> run_events f s' es) }"

abbreviation run_checker :: "checker \<Rightarrow> observer_event list \<Rightarrow> checker checked option" where
  "run_checker \<equiv> run_events observe_event"

end
