(* ===== verification/Checker_Sound.thy ===== *)
theory Checker_Sound
  imports Checker
begin

text \<open>
  Soundness of the proof checker: the invariant of its data structures, preserved by every
  operation, and the theorem that what it accepts follows from the original clauses.
\<close>

section \<open>Entailment\<close>

definition models :: "int list list \<Rightarrow> assignment \<Rightarrow> bool" where
  "models F \<tau> \<longleftrightarrow> (\<forall>c \<in> set F. clause_true \<tau> c)"

text \<open>\<open>F\<close> and the literals \<open>A\<close> entail the clause \<open>c\<close>.\<close>

definition entails :: "int list list \<Rightarrow> int list \<Rightarrow> int list \<Rightarrow> bool" where
  "entails F A c \<longleftrightarrow> (\<forall>\<tau>. models F \<tau> \<longrightarrow> (\<forall>l \<in> set A. lit_true \<tau> l) \<longrightarrow> clause_true \<tau> c)"

lemma entails_mono: "entails F A c \<Longrightarrow> set F \<subseteq> set F' \<Longrightarrow> set A \<subseteq> set A' \<Longrightarrow> entails F' A' c"
  unfolding entails_def models_def by (meson subsetD)

lemma entails_set: "entails F A c \<Longrightarrow> set c \<subseteq> set d \<Longrightarrow> entails F A d"
  unfolding entails_def using clause_true_mono by blast

lemma entails_member: "c \<in> set F \<Longrightarrow> entails F A c"
  by (auto simp: entails_def models_def)

lemma entails_assumed: "l \<in> set A \<Longrightarrow> entails F A [l]"
  by (auto simp: entails_def)

text \<open>Resolving with literals known to be true.\<close>

lemma entails_cut:
  assumes "entails F A c" "\<And>l. l \<in> set c \<Longrightarrow> l \<notin> set d \<Longrightarrow> l \<noteq> 0 \<and> entails F A [- l]"
  shows "entails F A d"
  using assms by (fastforce simp: entails_def clause_true_iff)

section \<open>The invariant\<close>

definition lit_ok :: "int \<Rightarrow> int \<Rightarrow> bool" where
  "lit_ok sz l \<longleftrightarrow> l \<noteq> 0 \<and> \<bar>l\<bar> < sz"

definition value_of :: "int list \<Rightarrow> int \<Rightarrow> int" where
  "value_of tr l = (if l \<in> set tr then 1 else if - l \<in> set tr then - 1 else 0)"

definition assign_ok :: "int \<Rightarrow> (int \<Rightarrow> int) \<Rightarrow> int list \<Rightarrow> bool" where
  "assign_ok sz vs tr \<longleftrightarrow>
     vs = value_of tr \<and>
     (\<forall>l \<in> set tr. lit_ok sz l \<and> - l \<notin> set tr) \<and> distinct tr"

definition store_ok :: "int \<Rightarrow> (nat \<rightharpoonup> checker_clause) \<Rightarrow> bool" where
  "store_ok sz st \<longleftrightarrow> (\<forall>p c. st p = Some c \<longrightarrow>
     2 \<le> length (c_lits c) \<and> distinct (c_lits c) \<and> (\<forall>l \<in> set (c_lits c). lit_ok sz l) \<and>
     (c_size c = 0 \<or> c_size c = length (c_lits c)))"

definition watch_ok :: "(nat \<rightharpoonup> checker_clause) \<Rightarrow> int \<Rightarrow> checker_watch \<Rightarrow> bool" where
  "watch_ok st l w \<longleftrightarrow> (\<exists>c. st (wclause w) = Some c \<and> wsize w = length (c_lits c) \<and>
     (l = c_lits c ! 0 \<or> l = c_lits c ! 1) \<and> blit w \<in> set (c_lits c) \<and> blit w \<noteq> l)"

definition watchlist_ok :: "(nat \<rightharpoonup> checker_clause) \<Rightarrow> int \<Rightarrow> checker_watch list \<Rightarrow> bool" where
  "watchlist_ok st l ws \<longleftrightarrow> distinct (map wclause ws) \<and> (\<forall>w \<in> set ws. watch_ok st l w)"

definition watches_ok :: "int \<Rightarrow> (nat \<rightharpoonup> checker_clause) \<Rightarrow> checker_watch list list \<Rightarrow> bool" where
  "watches_ok sz st wss \<longleftrightarrow> length wss = nat (2 * sz) \<and> 
     (\<forall>l. l \<noteq> 0 \<longrightarrow> l2u l < length wss \<longrightarrow> watchlist_ok st l (wss ! l2u l))"

definition store_implied :: "int list list \<Rightarrow> (nat \<rightharpoonup> checker_clause) \<Rightarrow> bool" where
  "store_implied F st \<longleftrightarrow> (\<forall>p c. st p = Some c \<longrightarrow> entails F [] (c_lits c))"

definition trail_implied :: "int list list \<Rightarrow> int list \<Rightarrow> int list \<Rightarrow> bool" where
  "trail_implied F A tr \<longleftrightarrow> (\<forall>l \<in> set tr. entails F A [l])"

definition core :: "int list list \<Rightarrow> int list \<Rightarrow> checker \<Rightarrow> bool" where
  "core F A ck \<longleftrightarrow> 0 \<le> size_vars ck \<and> assign_ok (size_vars ck) (vals ck) (trail ck) \<and>
     store_ok (size_vars ck) (store ck) \<and> watches_ok (size_vars ck) (store ck) (watchers ck) \<and>
     store_implied F (store ck) \<and> trail_implied F A (trail ck) \<and> next_to_propagate ck \<le> length (trail ck)"

lemma l2u_less: "lit_ok sz l \<Longrightarrow> l2u l < nat (2 * sz)"
  by (auto simp: lit_ok_def l2u_def)

lemma l2u_inj:
  assumes "l \<noteq> 0" "k \<noteq> 0"
  shows "l2u l = l2u k \<longleftrightarrow> l = k"
proof -
  have "int (l2u x) = 2 * \<bar>x\<bar> - 2 + (if x < 0 then 1 else 0)" if "x \<noteq> 0" for x
    using that by (simp add: l2u_def)
  then have "l2u l = l2u k \<longleftrightarrow>
      2 * \<bar>l\<bar> - 2 + (if l < 0 then 1 else 0) = 2 * \<bar>k\<bar> - 2 + (if k < 0 then 1 else 0)"
    using assms by (metis of_nat_eq_iff)
  also have "\<dots> \<longleftrightarrow> l = k" by presburger
  finally show ?thesis .
qed

lemma lit_ok_uminus [simp]: "lit_ok sz (- l) = lit_ok sz l"
  by (auto simp: lit_ok_def)

lemma ck_val_ok: "lit_ok (size_vars ck) l \<Longrightarrow> ck_val ck l = Some (vals ck l)"
  by (simp add: ck_val_def lit_ok_def)

lemma watcher_ok:
  "watches_ok (size_vars ck) st (watchers ck) \<Longrightarrow> lit_ok (size_vars ck) l \<Longrightarrow> watcher ck l = Some (watchers ck ! l2u l)"
  by (simp add: watcher_def watches_ok_def l2u_less)

lemma watches_okD:
  assumes "watches_ok sz st wss"
  shows "length wss = nat (2 * sz)" "lit_ok sz l \<Longrightarrow> watchlist_ok st l (wss ! l2u l)"
    "l \<noteq> 0 \<Longrightarrow> l2u l < length wss \<Longrightarrow> watchlist_ok st l (wss ! l2u l)"
  using assms l2u_less[of sz l] by (auto simp: watches_ok_def lit_ok_def)

lemma watches_ok_update:
  assumes "watches_ok sz st wss" "l \<noteq> 0" "watchlist_ok st l ws"
  shows "watches_ok sz st (wss[l2u l := ws])"
proof -
  have "watchlist_ok st k (wss[l2u l := ws] ! l2u k)" if "k \<noteq> 0" "l2u k < length wss" for k
    using assms that l2u_inj[of l k] by (cases "k = l") (auto simp: watches_ok_def nth_list_update)
  then show ?thesis using assms(1) by (auto simp: watches_ok_def)
qed

subsection \<open>Assignments\<close>

lemma assign_okD:
  assumes "assign_ok sz vs tr"
  shows "vs l > 0 \<longleftrightarrow> l \<in> set tr" "vs l < 0 \<longleftrightarrow> - l \<in> set tr" "vs l = 0 \<longleftrightarrow> l \<notin> set tr \<and> - l \<notin> set tr"
    "l \<in> set tr \<Longrightarrow> lit_ok sz l"
  using assms unfolding assign_ok_def by (auto simp: value_of_def split: if_splits)

lemma assign_ok_push:
  assumes "assign_ok sz vs tr" "lit_ok sz l" "vs l = 0"
  shows "assign_ok sz (vs(l := 1, - l := - 1)) (tr @ [l])"
proof -
  have "l \<notin> set tr" "- l \<notin> set tr" "l \<noteq> 0" using assms by (auto simp: assign_okD(3) lit_ok_def)
  moreover from this have "value_of (tr @ [l]) = (value_of tr)(l := 1, - l := - 1)"
    by (auto simp: value_of_def fun_eq_iff)
  ultimately show ?thesis using assms unfolding assign_ok_def by (auto simp: minus_equation_iff[of l])
qed

lemma assign_ok_pop:
  assumes "assign_ok sz vs (tr @ [l])"
  shows "assign_ok sz (vs(l := 0, - l := 0)) tr"
proof -
  have "l \<notin> set tr" "- l \<notin> set tr" using assms by (auto simp: assign_ok_def)
  then have "value_of tr = (value_of (tr @ [l]))(l := 0, - l := 0)"
    by (auto simp: value_of_def fun_eq_iff)
  then show ?thesis using assms unfolding assign_ok_def by auto
qed

lemma assign_ok_length:
  assumes "assign_ok sz vs tr" "0 \<le> sz"
  shows "length tr \<le> nat sz"
proof -
  have d: "distinct (map (\<lambda>l. nat \<bar>l\<bar>) tr)"
    unfolding distinct_map inj_on_def
  proof (intro conjI ballI impI)
    fix x y assume xy: "x \<in> set tr" "y \<in> set tr" "nat \<bar>x\<bar> = nat \<bar>y\<bar>"
    then have "x = y \<or> x = - y" by linarith
    then show "x = y" using assms(1) xy by (auto simp: assign_ok_def)
  qed (use assms(1) in \<open>simp add: assign_ok_def\<close>)
  have "(\<lambda>l. nat \<bar>l\<bar>) ` set tr \<subseteq> {0..<nat sz}" using assms by (auto simp: assign_ok_def lit_ok_def)
  then have "card ((\<lambda>l. nat \<bar>l\<bar>) ` set tr) \<le> card {0..<nat sz}" by (rule card_mono[rotated]) simp
  then show ?thesis using distinct_card[OF d] by simp
qed

subsection \<open>Permuting the literals of a stored clause\<close>

lemma xor_other:
  fixes a b x :: int
  shows "x = a \<Longrightarrow> a XOR b XOR x = b" "x = b \<Longrightarrow> a XOR b XOR x = a"
  by (auto simp: xor.commute xor.left_commute)

lemma set_swap_lits [simp]: "i < length ls \<Longrightarrow> j < length ls \<Longrightarrow> mset (swap_lits ls i j) = mset ls"
  by (cases "i = j") (auto simp: swap_lits_def mset_swap)

lemma length_swap_lits [simp]: "length (swap_lits ls i j) = length ls"
  by (simp add: swap_lits_def)

text \<open>\<open>same_clauses\<close>: the same addresses hold the same clauses up to the order of literals.\<close>

definition same_clauses :: "(nat \<rightharpoonup> checker_clause) \<Rightarrow> (nat \<rightharpoonup> checker_clause) \<Rightarrow> bool" where
  "same_clauses st st' \<longleftrightarrow> (\<forall>p. rel_option (\<lambda>c c'. c_hash c' = c_hash c \<and> c_size c' = c_size c \<and>
     mset (c_lits c') = mset (c_lits c)) (st p) (st' p))"

lemma same_clauses_refl [simp]: "same_clauses st st"
  by (simp add: same_clauses_def option.rel_refl)

lemma same_clauses_trans [trans]:
  assumes "same_clauses s t" "same_clauses t u"
  shows "same_clauses s u"
  unfolding same_clauses_def
proof
  fix p
  show "rel_option (\<lambda>c c'. c_hash c' = c_hash c \<and> c_size c' = c_size c \<and> mset (c_lits c') = mset (c_lits c)) (s p) (u p)"
    using assms[unfolded same_clauses_def, THEN spec, of p]
    by (cases "s p"; cases "t p"; cases "u p") auto
qed

lemma same_clauses_update:
  "st p = Some c \<Longrightarrow> mset ls = mset (c_lits c) \<Longrightarrow> same_clauses st (st(p \<mapsto> c\<lparr>c_lits := ls\<rparr>))"
  by (auto simp: same_clauses_def option.rel_refl)

lemma same_clausesD:
  assumes "same_clauses st st'" "st' p = Some c'"
  shows "\<exists>c. st p = Some c \<and> c_hash c' = c_hash c \<and> c_size c' = c_size c \<and> mset (c_lits c') = mset (c_lits c)"
  using assms(1)[unfolded same_clauses_def, THEN spec, of p] assms(2) by (cases "st p") auto

lemma same_clauses_dom: "same_clauses st st' \<Longrightarrow> st p = None \<longleftrightarrow> st' p = None"
  unfolding same_clauses_def by (cases "st p"; cases "st' p") (auto dest!: spec[of _ p])

lemma store_ok_same: "store_ok sz st \<Longrightarrow> same_clauses st st' \<Longrightarrow> store_ok sz st'"
  unfolding store_ok_def
proof (intro allI impI)
  fix p c' assume a: "\<forall>p c. st p = Some c \<longrightarrow> 2 \<le> length (c_lits c) \<and> distinct (c_lits c) \<and>
     (\<forall>l \<in> set (c_lits c). lit_ok sz l) \<and> (c_size c = 0 \<or> c_size c = length (c_lits c))"
    "same_clauses st st'" "st' p = Some c'"
  from same_clausesD[OF a(2,3)] obtain c where c: "st p = Some c" "c_size c' = c_size c" "mset (c_lits c') = mset (c_lits c)"
    by blast
  from c(3) have "length (c_lits c') = length (c_lits c)" "set (c_lits c') = set (c_lits c)"
    "distinct (c_lits c') = distinct (c_lits c)"
    by (auto dest: mset_eq_length mset_eq_setD mset_eq_imp_distinct_iff)
  then show "2 \<le> length (c_lits c') \<and> distinct (c_lits c') \<and> (\<forall>l \<in> set (c_lits c'). lit_ok sz l) \<and>
     (c_size c' = 0 \<or> c_size c' = length (c_lits c'))" using a(1) c by simp
qed

lemma store_implied_same: "store_implied F st \<Longrightarrow> same_clauses st st' \<Longrightarrow> store_implied F st'"
  unfolding store_implied_def by (metis (no_types, lifting) entails_set mset_eq_setD order_refl same_clausesD)


section \<open>Propagation\<close>

definition with_list :: "checker \<Rightarrow> int \<Rightarrow> checker_watch list \<Rightarrow> checker" where
  "with_list ck l ws = ck\<lparr>watchers := (watchers ck)[l2u l := ws]\<rparr>"

text \<open>What propagation leaves alone.\<close>

definition frame :: "checker \<Rightarrow> checker \<Rightarrow> bool" where
  "frame ck ck' \<longleftrightarrow> (\<exists>vs wss tr st. ck' = ck\<lparr>vals := vs, watchers := wss, trail := trail ck @ tr, store := st\<rparr> \<and>
     length wss = length (watchers ck) \<and> same_clauses (store ck) st)"

lemma frame_refl [simp]: "frame ck ck"
  unfolding frame_def by (intro exI[of _ "vals ck"] exI[of _ "watchers ck"] exI[of _ "[]"] exI[of _ "store ck"]) simp

lemma frameI:
  "length wss = length (watchers ck) \<Longrightarrow> same_clauses (store ck) st \<Longrightarrow>
   frame ck (ck\<lparr>vals := vs, watchers := wss, trail := trail ck @ tr, store := st\<rparr>)"
  unfolding frame_def by blast

lemma frame_trans [trans]:
  assumes "frame a b" "frame b c"
  shows "frame a c"
proof -
  obtain vs wss tr st where b: "b = a\<lparr>vals := vs, watchers := wss, trail := trail a @ tr, store := st\<rparr>"
    "length wss = length (watchers a)" "same_clauses (store a) st" using assms(1) by (auto simp: frame_def)
  obtain vs' wss' tr' st' where c: "c = b\<lparr>vals := vs', watchers := wss', trail := trail b @ tr', store := st'\<rparr>"
    "length wss' = length (watchers b)" "same_clauses (store b) st'" using assms(2) by (auto simp: frame_def)
  have "c = a\<lparr>vals := vs', watchers := wss', trail := trail a @ (tr @ tr'), store := st'\<rparr>"
    using b(1) c(1) by simp
  then show ?thesis using frameI[where ck = a and wss = wss' and st = st' and vs = vs' and tr = "tr @ tr'"] b c same_clauses_trans[of "store a" st st'] by simp
qed

lemma frameD:
  assumes "frame ck ck'"
  shows "size_vars ck' = size_vars ck" "next_to_propagate ck' = next_to_propagate ck"
    "length (watchers ck') = length (watchers ck)" "same_clauses (store ck) (store ck')"
    "\<exists>tr. trail ck' = trail ck @ tr" "l \<in> set (trail ck) \<Longrightarrow> l \<in> set (trail ck')"
  using assms by (auto simp: frame_def)

lemma coreD:
  assumes "core F A ck"
  shows "0 \<le> size_vars ck" "assign_ok (size_vars ck) (vals ck) (trail ck)" "store_ok (size_vars ck) (store ck)"
    "watches_ok (size_vars ck) (store ck) (watchers ck)" "store_implied F (store ck)"
    "trail_implied F A (trail ck)" "next_to_propagate ck \<le> length (trail ck)"
  using assms by (auto simp: core_def)

lemma core_true: "core F A ck \<Longrightarrow> vals ck l > 0 \<Longrightarrow> entails F A [l]"
  and core_false: "core F A ck \<Longrightarrow> vals ck l < 0 \<Longrightarrow> entails F A [- l]"
  using assign_okD(1,2)[OF coreD(2)] coreD(6) by (fastforce simp: trail_implied_def)+

lemma frame_assign: "frame ck (ck\<lparr>vals := vs, trail := trail ck @ tr\<rparr>)"
  using frameI[where ck = ck and wss = "watchers ck" and st = "store ck" and vs = vs and tr = tr] by simp

lemma assign_core:
  assumes "core F A ck" "lit_ok (size_vars ck) l" "vals ck l = 0" "entails F A [l]"
  shows "\<exists>ck'. ck_assign ck l = Some ck' \<and> core F A ck' \<and> frame ck ck' \<and> l \<in> set (trail ck')"
proof -
  let ?ck = "ck\<lparr>vals := (vals ck)(l := 1, - l := - 1), trail := trail ck @ [l]\<rparr>"
  have "frame ck ?ck" by (rule frame_assign)
  moreover have "core F A ?ck"
    using assms assign_ok_push[OF coreD(2)[OF assms(1)] assms(2,3)] by (auto simp: core_def trail_implied_def)
  ultimately show ?thesis using assms(2) by (simp add: ck_assign_def lit_ok_def)
qed

text \<open>The same inside the traversal of the watches of one literal.\<close>

lemma assign_with_list:
  assumes "core F A (with_list ck k ws)" "lit_ok (size_vars ck) l" "vals ck l = 0" "entails F A [l]"
  shows "\<exists>ck'. ck_assign ck l = Some ck' \<and> core F A (with_list ck' k ws) \<and> frame ck ck' \<and> l \<in> set (trail ck')"
proof -
  let ?ck = "ck\<lparr>vals := (vals ck)(l := 1, - l := - 1), trail := trail ck @ [l]\<rparr>"
  obtain c where "ck_assign (with_list ck k ws) l = Some c" "core F A c"
    using assign_core[OF assms(1), of l] assms(2-4) by (auto simp: with_list_def)
  then have "core F A (with_list ?ck k ws)" by (auto simp: core_def ck_assign_def with_list_def split: if_splits)
  moreover have "frame ck ?ck" by (rule frame_assign)
  ultimately show ?thesis using assms(2) by (simp add: ck_assign_def lit_ok_def)
qed

text \<open>What a watch \<open>w\<close> of the literal \<open>l\<close> tells about its clause \<open>c\<close>.\<close>

definition watched :: "int list list \<Rightarrow> int list \<Rightarrow> checker \<Rightarrow> int \<Rightarrow> checker_watch \<Rightarrow> checker_clause \<Rightarrow> bool" where
  "watched F A ck l w c \<longleftrightarrow> store ck (wclause w) = Some c \<and> wsize w = length (c_lits c) \<and>
     (l = c_lits c ! 0 \<or> l = c_lits c ! 1) \<and> blit w \<in> set (c_lits c) \<and> blit w \<noteq> l \<and>
     2 \<le> length (c_lits c) \<and> distinct (c_lits c) \<and> (\<forall>l \<in> set (c_lits c). lit_ok (size_vars ck) l) \<and>
     (c_size c = 0 \<or> c_size c = length (c_lits c)) \<and> entails F A (c_lits c)"

lemma with_list_watch:
  assumes "core F A (with_list ck l (kept @ w # ws))" "lit_ok (size_vars ck) l"
  shows "\<exists>c. watched F A ck l w c"
proof -
  have w: "watches_ok (size_vars ck) (store ck) ((watchers ck)[l2u l := kept @ w # ws])"
    and s: "store_ok (size_vars ck) (store ck)" "store_implied F (store ck)"
    using coreD[OF assms(1)] by (auto simp: with_list_def)
  have "watchlist_ok (store ck) l (kept @ w # ws)"
    using watches_okD(2)[OF w assms(2)] watches_okD(1)[OF w] l2u_less[OF assms(2)] by simp
  then have "watch_ok (store ck) l w" by (simp add: watchlist_ok_def)
  then obtain c where c: "store ck (wclause w) = Some c" "wsize w = length (c_lits c)"
    "l = c_lits c ! 0 \<or> l = c_lits c ! 1" "blit w \<in> set (c_lits c)" "blit w \<noteq> l" by (auto simp: watch_ok_def)
  moreover have "entails F A (c_lits c)"
    using s(2) c(1) entails_mono[of F "[]" "c_lits c" F A] by (auto simp: store_implied_def)
  ultimately show ?thesis unfolding watched_def using s(1) by (auto simp: store_ok_def intro!: exI[of _ c])
qed

text \<open>The contract of the treatment of one watch.\<close>

definition visited :: "int list list \<Rightarrow> int list \<Rightarrow> checker \<Rightarrow> int \<Rightarrow> checker_watch list \<Rightarrow> checker_watch list \<Rightarrow>
    (bool \<times> checker \<times> checker_watch list) option \<Rightarrow> bool" where
  "visited F A ck lit kept ws r \<longleftrightarrow> (case r of None \<Rightarrow> False | Some (res, ck', k) \<Rightarrow>
     core F A (with_list ck' (- lit) (kept @ k @ ws)) \<and> frame ck ck' \<and> (\<not> res \<longrightarrow> entails F A []))"

lemma visited_Some [simp]: "visited F A ck lit kept ws (Some (res, ck', k)) \<longleftrightarrow>
    core F A (with_list ck' (- lit) (kept @ k @ ws)) \<and> frame ck ck' \<and> (\<not> res \<longrightarrow> entails F A [])"
  by (simp add: visited_def)

lemma visit_watch_binary:
  assumes K: "core F A (with_list ck (- lit) (kept @ w # ws))" and lit: "lit \<in> set (trail ck)" and two: "wsize w = 2"
  shows "visited F A ck lit kept ws (visit_watch ck lit w)"
proof -
  have ok: "lit_ok (size_vars ck) (- lit)" "lit \<noteq> 0"
    using coreD(2)[OF K] lit by (auto simp: with_list_def dest: assign_okD(4) simp: lit_ok_def)
  have tr: "entails F A [lit]" using coreD(6)[OF K] lit by (simp add: with_list_def trail_implied_def)
  from with_list_watch[OF K ok(1)] obtain c where "watched F A ck (- lit) w c" ..
  then have c: "wsize w = length (c_lits c)"
    "- lit = c_lits c ! 0 \<or> - lit = c_lits c ! 1" "blit w \<in> set (c_lits c)" "blit w \<noteq> - lit"
    "\<forall>l \<in> set (c_lits c). lit_ok (size_vars ck) l" "entails F A (c_lits c)" by (simp_all add: watched_def)
  have "length (c_lits c) = Suc (Suc 0)" using c(1) two by simp
  then obtain a b where "c_lits c = [a, b]" by (auto simp: length_Suc_conv)
  then have "set (c_lits c) = {- lit, blit w}" using c(2-4) by auto
  then have unit: "entails F A [blit w]"
    by (intro entails_cut[OF c(6)]) (use tr ok(2) in \<open>simp add: doubleton_eq_iff\<close>)
  have bok: "lit_ok (size_vars ck) (blit w)" using c(3,5) by blast
  have v: "ck_val ck (blit w) = Some (vals ck (blit w))" by (rule ck_val_ok[OF bok])
  consider "vals ck (blit w) > 0" | "vals ck (blit w) < 0" | "vals ck (blit w) = 0" by linarith
  then show ?thesis
  proof cases
    case 2
    then have "entails F A [- blit w]" using core_false[OF K, of "blit w"] by (simp add: with_list_def)
    then have "entails F A []" by (intro entails_cut[OF unit]) (use bok in \<open>auto simp: lit_ok_def\<close>)
    then show ?thesis using 2 K v two by (simp add: visit_watch_def)
  next
    case 3
    from assign_with_list[OF K bok 3 unit] v 3 two show ?thesis by (auto simp: visit_watch_def)
  qed (use K v in \<open>simp add: visit_watch_def\<close>)
qed

lemma replacement_index_ok:
  assumes "\<forall>k \<in> set ks. k < length lits" "\<forall>l \<in> set lits. lit_ok (size_vars ck) l"
  shows "(replacement_index ck lits ks = Some None \<and> (\<forall>k \<in> set ks. vals ck (lits ! k) < 0)) \<or>
    (\<exists>k \<in> set ks. replacement_index ck lits ks = Some (Some k) \<and> vals ck (lits ! k) \<ge> 0)"
  using assms by (induction ks) (auto simp: ck_val_ok)

text \<open>Reordering a stored clause without changing its pair of watched literals.\<close>

lemma watches_ok_reorder:
  assumes "watches_ok sz st wss" "st p = Some c" "mset ls = mset (c_lits c)" "2 \<le> length (c_lits c)"
    "{ls ! 0, ls ! 1} = {c_lits c ! 0, c_lits c ! 1}"
  shows "watches_ok sz (st(p \<mapsto> c\<lparr>c_lits := ls\<rparr>)) wss"
proof -
  have "length ls = length (c_lits c)" "set ls = set (c_lits c)" using assms(3) by (auto dest: mset_eq_length mset_eq_setD)
  moreover have "l = ls ! 0 \<or> l = ls ! 1 \<longleftrightarrow> l = c_lits c ! 0 \<or> l = c_lits c ! 1" for l
    using assms(5) by (auto simp: doubleton_eq_iff)
  ultimately have "watch_ok (st(p \<mapsto> c\<lparr>c_lits := ls\<rparr>)) l w = watch_ok st l w" for l w
    using assms(2) by (auto simp: watch_ok_def)
  then show ?thesis using assms(1) by (simp add: watches_ok_def watchlist_ok_def)
qed

text \<open>Moving a watch from \<open>l\<close> to the literal at position \<open>k\<close>.\<close>

lemma watches_ok_move:
  assumes W: "watches_ok sz st (wss[l2u l := kept @ w # ws])" and l: "lit_ok sz l"
    and c: "st p = Some c" "distinct (c_lits c)" "\<forall>l \<in> set (c_lits c). lit_ok sz l" "c_lits c ! 1 = l"
    and w: "wclause w = p" and k: "2 \<le> k" "k < length (c_lits c)"
  defines "r \<equiv> c_lits c ! k"
  shows "watches_ok sz (st(p \<mapsto> c\<lparr>c_lits := swap_lits (c_lits c) 1 k\<rparr>))
    ((wss[l2u r := (wss ! l2u r) @ [\<lparr>blit = l, wsize = length (c_lits c), wclause = p\<rparr>]])[l2u l := kept @ ws])"
proof -
  let ?ls = "swap_lits (c_lits c) 1 k" and ?w = "\<lparr>blit = l, wsize = length (c_lits c), wclause = p\<rparr>"
  let ?st = "st(p \<mapsto> c\<lparr>c_lits := ?ls\<rparr>)"
  have len: "2 < length (c_lits c)" using k by simp
  have ls: "?ls ! 0 = c_lits c ! 0" "?ls ! 1 = r" "set ?ls = set (c_lits c)" "length ?ls = length (c_lits c)"
    using k len by (auto simp: swap_lits_def r_def nth_list_update dest!: mset_eq_setD[OF set_swap_lits[of 1 "c_lits c" k]])
  have rne: "r \<noteq> c_lits c ! 0" "r \<noteq> l" "r \<in> set (c_lits c)" "l \<in> set (c_lits c)" "c_lits c ! 0 \<noteq> l"
    using nth_eq_iff_index_eq[OF c(2) k(2), of 0] nth_eq_iff_index_eq[OF c(2) k(2), of 1]
      nth_eq_iff_index_eq[OF c(2), of 1 0] c(4) k len by (auto simp: r_def simp del: length_greater_0_conv)
  have rl: "lit_ok sz r" "l2u r \<noteq> l2u l" using c(3) rne l l2u_inj[of r l] by (auto simp: lit_ok_def)
  have lw: "length wss = nat (2 * sz)" "l2u l < length wss" "l2u r < length wss"
    using watches_okD(1)[OF W] l2u_less[OF l] l2u_less[OF rl(1)] by auto
  have old: "watchlist_ok st x (if x = l then kept @ w # ws else wss ! l2u x)" if "x \<noteq> 0" "l2u x < length wss" for x
  proof -
    have "x \<noteq> l \<Longrightarrow> l2u x \<noteq> l2u l" using l2u_inj[of x l] that l by (simp add: lit_ok_def)
    then show ?thesis using watches_okD(3)[OF W that(1)] that(2) lw(2) by (cases "x = l") simp_all
  qed
  have keep: "watch_ok ?st x v" if "watch_ok st x v" "wclause v = p \<Longrightarrow> x \<noteq> l" for x v
  proof (cases "wclause v = p")
    case True
    with that have "wsize v = length (c_lits c)" "x = c_lits c ! 0" "blit v \<in> set (c_lits c)" "blit v \<noteq> x"
      using c(1,4) by (auto simp: watch_ok_def)
    then show ?thesis using True ls by (simp add: watch_ok_def)
  qed (use that(1) in \<open>simp add: watch_ok_def\<close>)
  have "watchlist_ok ?st x (((wss[l2u r := (wss ! l2u r) @ [?w]])[l2u l := kept @ ws]) ! l2u x)"
    if x: "x \<noteq> 0" "l2u x < length wss" for x
  proof -
    consider "x = l" | "x = r" "x \<noteq> l" | "x \<noteq> l" "x \<noteq> r" by blast
    then show ?thesis
    proof cases
      case 1
      then have "watchlist_ok st l (kept @ w # ws)" using old[OF x] by simp
      moreover from this have "watch_ok ?st l v" if "v \<in> set (kept @ ws)" for v
        using that w by (intro keep) (auto simp: watchlist_ok_def image_iff)
      ultimately have "watchlist_ok ?st l (kept @ ws)" unfolding watchlist_ok_def by simp
      then show ?thesis using 1 lw by simp
    next
      case 2
      then have o: "watchlist_ok st r (wss ! l2u r)" using old[OF x] by simp
      then have np: "p \<notin> wclause ` set (wss ! l2u r)" using rne c by (auto simp: watchlist_ok_def watch_ok_def)
      have nw: "watch_ok ?st r ?w" using ls rne by (simp add: watch_ok_def)
      have "watch_ok ?st r v" if "v \<in> set (wss ! l2u r)" for v
        using o rne(2) that by (intro keep) (simp_all add: watchlist_ok_def)
      then have "watchlist_ok ?st r (wss ! l2u r @ [?w])"
        using o np nw unfolding watchlist_ok_def by auto
      then show ?thesis using 2 lw rl by simp
    next
      case 3
      then have "l2u x \<noteq> l2u l" "l2u x \<noteq> l2u r" using l2u_inj x(1) l rl(1) by (auto simp: lit_ok_def)
      moreover have "watch_ok ?st x v" if "v \<in> set (wss ! l2u x)" for v
        using old[OF x] 3 that by (intro keep) (simp_all add: watchlist_ok_def)
      then have "watchlist_ok ?st x (wss ! l2u x)"
        using old[OF x] 3 unfolding watchlist_ok_def by simp
      ultimately show ?thesis by simp
    qed
  qed
  then show ?thesis using lw by (simp add: watches_ok_def)
qed

lemma core_reorder:
  assumes "core F A (with_list ck k ws)" "store ck p = Some c" "mset ls = mset (c_lits c)" "2 \<le> length (c_lits c)"
    "{ls ! 0, ls ! 1} = {c_lits c ! 0, c_lits c ! 1}"
  shows "core F A (with_list (ck\<lparr>store := (store ck)(p \<mapsto> c\<lparr>c_lits := ls\<rparr>)\<rparr>) k ws)"
proof -
  have s: "same_clauses (store ck) ((store ck)(p \<mapsto> c\<lparr>c_lits := ls\<rparr>))"
    by (rule same_clauses_update) fact+
  show ?thesis using assms(1) store_ok_same[OF _ s] store_implied_same[OF _ s]
      watches_ok_reorder[where c = c and st = "store ck", OF _ assms(2-5)] by (simp add: core_def with_list_def)
qed

lemma core_move:
  assumes K: "core F A (with_list ck l (kept @ w # ws))" and l: "lit_ok (size_vars ck) l"
    and c: "store ck (wclause w) = Some c" "distinct (c_lits c)" "\<forall>l \<in> set (c_lits c). lit_ok (size_vars ck) l"
      "c_lits c ! 1 = l"
    and k: "2 \<le> k" "k < length (c_lits c)"
  defines "w' \<equiv> \<lparr>blit = l, wsize = length (c_lits c), wclause = wclause w\<rparr>"
  shows "\<exists>ck2. push_watch ck (c_lits c ! k) w' = Some ck2 \<and> store ck2 = store ck \<and>
    core F A (with_list (ck2\<lparr>store := (store ck)(wclause w \<mapsto> c\<lparr>c_lits := swap_lits (c_lits c) 1 k\<rparr>)\<rparr>) l (kept @ ws)) \<and>
    frame ck (ck2\<lparr>store := (store ck)(wclause w \<mapsto> c\<lparr>c_lits := swap_lits (c_lits c) 1 k\<rparr>)\<rparr>)"
proof -
  let ?r = "c_lits c ! k" and ?ls = "swap_lits (c_lits c) 1 k"
  let ?st = "(store ck)(wclause w \<mapsto> c\<lparr>c_lits := ?ls\<rparr>)"
  let ?wss = "(watchers ck)[l2u ?r := (watchers ck ! l2u ?r) @ [w']]"
  have r: "lit_ok (size_vars ck) ?r" using c(3) k by simp
  have W: "watches_ok (size_vars ck) (store ck) ((watchers ck)[l2u l := kept @ w # ws])"
    using coreD(4)[OF K] by (simp add: with_list_def)
  have lr: "l2u ?r < length (watchers ck)" using watches_okD(1)[OF W] l2u_less[OF r] by simp
  have push: "push_watch ck ?r w' = Some (ck\<lparr>watchers := ?wss\<rparr>)"
    using lr by (simp add: push_watch_def watcher_def set_watcher_def)
  have s: "same_clauses (store ck) ?st" by (rule same_clauses_update) (use c(1) k in simp_all)
  have "watches_ok (size_vars ck) ?st (?wss[l2u l := kept @ ws])"
    unfolding w'_def by (rule watches_ok_move[OF W l c(1-4) refl k])
  then have "core F A (with_list (ck\<lparr>watchers := ?wss, store := ?st\<rparr>) l (kept @ ws))"
    using K store_ok_same[OF _ s] store_implied_same[OF _ s] by (simp add: core_def with_list_def)
  moreover have "frame ck (ck\<lparr>watchers := ?wss, store := ?st\<rparr>)"
    using frameI[where ck = ck and wss = ?wss and st = ?st and vs = "vals ck" and tr = "[]", OF _ s] by simp
  ultimately show ?thesis using push by (intro exI[of _ "ck\<lparr>watchers := ?wss\<rparr>"]) simp
qed

lemma core_drop:
  assumes "core F A (with_list ck l (kept @ w # ws))" "lit_ok (size_vars ck) l"
    "k = [] \<or> (\<exists>b. k = [w\<lparr>blit := b\<rparr>] \<and> watch_ok (store ck) l (w\<lparr>blit := b\<rparr>))"
  shows "core F A (with_list ck l (kept @ k @ ws))"
proof -
  have W: "watches_ok (size_vars ck) (store ck) ((watchers ck)[l2u l := kept @ w # ws])"
    using coreD(4)[OF assms(1)] by (simp add: with_list_def)
  have "watchlist_ok (store ck) l (kept @ w # ws)"
    using watches_okD(2)[OF W assms(2)] watches_okD(1)[OF W] l2u_less[OF assms(2)] by simp
  then have "watchlist_ok (store ck) l (kept @ k @ ws)" using assms(3) unfolding watchlist_ok_def by (elim disjE exE conjE) simp_all
  from watches_ok_update[OF W _ this] assms(1,2) show ?thesis by (simp add: core_def with_list_def lit_ok_def)
qed

lemma visit_watch_long:
  assumes K: "core F A (with_list ck (- lit) (kept @ w # ws))" and lit: "lit \<in> set (trail ck)"
    and two: "wsize w \<noteq> 2"
  shows "visited F A ck lit kept ws (visit_long ck lit w)"
proof -
  have ok: "lit_ok (size_vars ck) (- lit)" "lit \<noteq> 0"
    using coreD(2)[OF K] lit by (auto simp: with_list_def dest: assign_okD(4) simp: lit_ok_def)
  have tr: "entails F A [lit]" using coreD(6)[OF K] lit by (simp add: with_list_def trail_implied_def)
  from with_list_watch[OF K ok(1)] obtain c where "watched F A ck (- lit) w c" ..
  then have c: "store ck (wclause w) = Some c" "wsize w = length (c_lits c)"
    "- lit = c_lits c ! 0 \<or> - lit = c_lits c ! 1" "2 < length (c_lits c)" "distinct (c_lits c)"
    "\<forall>l \<in> set (c_lits c). lit_ok (size_vars ck) l"
    "c_size c = 0 \<or> c_size c = length (c_lits c)" "entails F A (c_lits c)" using two by (auto simp: watched_def)
  let ?o = "c_lits c ! 0 XOR c_lits c ! 1 XOR - lit" and ?p = "wclause w"
  let ?ls = "(c_lits c)[0 := ?o, 1 := - lit]"
  have o: "?o = (if - lit = c_lits c ! 0 then c_lits c ! 1 else c_lits c ! 0)"
    using c(3) xor_other[where x = "- lit" and a = "c_lits c ! 0" and b = "c_lits c ! 1"] by auto
  obtain a b d e where abd: "c_lits c = a # b # d # e"
    using c(4) by (cases "c_lits c" rule: remdups_adj.cases) (auto simp: neq_Nil_conv)
  have ls: "mset ?ls = mset (c_lits c)" "{?ls ! 0, ?ls ! 1} = {c_lits c ! 0, c_lits c ! 1}" "?o \<noteq> - lit"
      "?o \<in> set (c_lits c)" "length ?ls = length (c_lits c)" "?ls ! 0 = ?o" "?ls ! 1 = - lit"
    using o c(3,5) abd by auto
  have ook: "lit_ok (size_vars ck) ?o" using c(6) ls(4) by blast
  let ?ck1 = "ck\<lparr>store := (store ck)(?p \<mapsto> c\<lparr>c_lits := ?ls\<rparr>)\<rparr>"
  have K1: "core F A (with_list ?ck1 (- lit) (kept @ w # ws))"
    by (rule core_reorder[where c = c, OF K c(1) ls(1) _ ls(2)]) (use c(4) in simp)
  have sc: "same_clauses (store ck) (store ?ck1)" by (simp, rule same_clauses_update) (use c(1) ls(1) in simp_all)
  have fr1: "frame ck ?ck1"
    using frameI[where ck = ck and wss = "watchers ck" and st = "(store ck)(?p \<mapsto> c\<lparr>c_lits := ?ls\<rparr>)" and vs = "vals ck"
        and tr = "[]"] sc by simp
  have set1: "set_lits ck ?p ?ls = Some ?ck1" using c(1) by (simp add: set_lits_def)
  have set_ls: "set ?ls = set (c_lits c)" using ls(1) by (rule mset_eq_setD)
  have at: "vec_at (c_lits c) 0 = Some (c_lits c ! 0)" "vec_at (c_lits c) 1 = Some (c_lits c ! 1)" using abd by auto
  have step: "visit_long ck lit w = (if c_size c = 0 then Some (True, ck, [])
     else if vals ck ?o > 0 then Some (True, ck, [w\<lparr>blit := ?o\<rparr>])
     else do { r \<leftarrow> replacement_index ?ck1 ?ls [2..<wsize w];
       (case r of
          Some k \<Rightarrow> if ?ls ! k = - lit then None else do {
              ck2 \<leftarrow> push_watch ?ck1 (?ls ! k) \<lparr>blit = - lit, wsize = c_size c, wclause = ?p\<rparr>;
              ck3 \<leftarrow> set_lits ck2 ?p (swap_lits ?ls 1 k);
              Some (True, ck3, []) }
        | None \<Rightarrow> if vals ck ?o = 0 then do { ck2 \<leftarrow> ck_assign ?ck1 ?o; Some (True, ck2, [w]) }
                 else Some (False, ?ck1, [w])) })"
    unfolding visit_long_def c(1) Option.bind.bind_lunit at ck_val_ok[OF ook] set1 Let_def by simp
  consider "c_size c = 0" | "c_size c \<noteq> 0" "vals ck ?o > 0" | "c_size c \<noteq> 0" "\<not> vals ck ?o > 0" by linarith
  then show ?thesis
  proof cases
    case 1
    then show ?thesis unfolding step using core_drop[OF K ok(1), of "[]"] by simp
  next
    case 2
    have "watch_ok (store ck) (- lit) (w\<lparr>blit := ?o\<rparr>)" using c(1-3) ls(3,4) by (simp add: watch_ok_def)
    then show ?thesis unfolding step using 2 core_drop[OF K ok(1), of "[w\<lparr>blit := ?o\<rparr>]"] by auto
  next
    case 3
    have "(replacement_index ?ck1 ?ls [2..<wsize w] = Some None \<and> (\<forall>k \<in> set [2..<wsize w]. vals ?ck1 (?ls ! k) < 0)) \<or>
      (\<exists>k \<in> set [2..<wsize w]. replacement_index ?ck1 ?ls [2..<wsize w] = Some (Some k) \<and> vals ?ck1 (?ls ! k) \<ge> 0)"
      by (rule replacement_index_ok) (use c(2,6) set_ls in auto)
    then show ?thesis
    proof (elim disjE bexE conjE)
      assume r: "replacement_index ?ck1 ?ls [2..<wsize w] = Some None" "\<forall>k \<in> set [2..<wsize w]. vals ?ck1 (?ls ! k) < 0"
      have fl: "entails F A [- x]" if x: "x \<in> set ?ls" "x \<noteq> ?o" for x
      proof -
        obtain k where k: "k < length ?ls" "x = ?ls ! k" using x(1) unfolding in_set_conv_nth by blast
        consider "k = 0" | "k = 1" | "k \<in> set [2..<wsize w]" using k c(2) by fastforce
        then show ?thesis
        proof cases
          case 3
          then have "vals ck x < 0" using r(2) k by simp
          then show ?thesis using core_false[OF K, of x] by (simp add: with_list_def)
        qed (use k ls(6,7) that tr in auto)
      qed
      have unit: "entails F A [?o]"
        by (rule entails_cut[OF c(8)]) (use fl set_ls c(6) in \<open>auto simp: lit_ok_def\<close>)
      show ?thesis
      proof (cases "vals ck ?o = 0")
        case True
        obtain ck' where "ck_assign ?ck1 ?o = Some ck'" "core F A (with_list ck' (- lit) (kept @ w # ws))" "frame ?ck1 ck'"
          using assign_with_list[OF K1, of ?o] ook True unit by auto
        then show ?thesis unfolding step using 3 r(1) True frame_trans[OF fr1] by simp
      next
        case False
        then have "entails F A [- ?o]" using 3 core_false[OF K, of ?o] by (simp add: with_list_def)
        then have "entails F A []" by (intro entails_cut[OF unit]) (use ook in \<open>auto simp: lit_ok_def\<close>)
        then show ?thesis unfolding step using 3 r(1) False K1 fr1 by simp
      qed
    next
      fix k assume r: "k \<in> set [2..<wsize w]" "replacement_index ?ck1 ?ls [2..<wsize w] = Some (Some k)"
      let ?c1 = "c\<lparr>c_lits := ?ls\<rparr>"
      have k: "2 \<le> k" "k < length ?ls" using r(1) c(2) by auto
      have d: "distinct ?ls" using c(5) ls(1) mset_eq_imp_distinct_iff by blast
      have ne: "?ls ! k \<noteq> - lit" using nth_eq_iff_index_eq[OF d k(2), of 1] k ls(7) by auto
      have sz: "c_size c = length ?ls" using 3 c(7) by simp
      obtain ck2 where ck2: "push_watch ?ck1 (?ls ! k) \<lparr>blit = - lit, wsize = c_size c, wclause = ?p\<rparr> = Some ck2"
        "store ck2 = store ?ck1"
        "core F A (with_list (ck2\<lparr>store := (store ?ck1)(?p \<mapsto> ?c1\<lparr>c_lits := swap_lits ?ls 1 k\<rparr>)\<rparr>) (- lit) (kept @ ws))"
        "frame ?ck1 (ck2\<lparr>store := (store ?ck1)(?p \<mapsto> ?c1\<lparr>c_lits := swap_lits ?ls 1 k\<rparr>)\<rparr>)"
        using core_move[OF K1, of ?c1 k] ok(1) d c(6) set_ls ls(7) k sz by auto
      have "set_lits ck2 ?p (swap_lits ?ls 1 k) =
          Some (ck2\<lparr>store := (store ?ck1)(?p \<mapsto> ?c1\<lparr>c_lits := swap_lits ?ls 1 k\<rparr>)\<rparr>)"
        using ck2(2) by (simp add: set_lits_def)
      then show ?thesis unfolding step using 3 r(2) ne ck2(1,3) frame_trans[OF fr1 ck2(4)] by simp
    qed
  qed
qed

lemma visit_watch_ok:
  assumes "core F A (with_list ck (- lit) (kept @ w # ws))" "lit \<in> set (trail ck)"
  shows "visited F A ck lit kept ws (visit_watch ck lit w)"
proof (cases "wsize w = 2")
  case True
  then show ?thesis by (rule visit_watch_binary[OF assms])
next
  case False
  have "\<exists>c. watched F A ck (- lit) w c"
    using coreD(2)[OF assms(1)] assms(2)
    by (intro with_list_watch[OF assms(1)]) (auto simp: with_list_def dest: assign_okD(4))
  then have "lit_ok (size_vars ck) (blit w)" by (auto simp: watched_def)
  then show ?thesis using False assms(1) visit_watch_long[OF assms False]
    by (simp add: visit_watch_def ck_val_ok)
qed

lemma visit_watches_ok:
  assumes "core F A (with_list ck (- lit) (kept @ ws))" "lit \<in> set (trail ck)"
  shows "\<exists>res ck' ws'. visit_watches ck lit kept ws = Some (res, ck', ws') \<and>
    core F A (with_list ck' (- lit) ws') \<and> frame ck ck' \<and> (\<not> res \<longrightarrow> entails F A [])"
  using assms
proof (induction ws arbitrary: ck kept)
  case Nil
  then show ?case by auto
next
  case (Cons w ws)
  obtain res ck' k where v: "visit_watch ck lit w = Some (res, ck', k)"
    "core F A (with_list ck' (- lit) (kept @ k @ ws))" "frame ck ck'" "\<not> res \<longrightarrow> entails F A []"
    using visit_watch_ok[OF Cons.prems] by (auto simp: visited_def split: option.splits)
  show ?case
  proof (cases res)
    case True
    from Cons.IH[of ck' "kept @ k"] v(2) frameD(6)[OF v(3) Cons.prems(2)] obtain res2 ck2 ws2 where
      "visit_watches ck' lit (kept @ k) ws = Some (res2, ck2, ws2)" "core F A (with_list ck2 (- lit) ws2)" "frame ck' ck2"
      "\<not> res2 \<longrightarrow> entails F A []" by auto
    then show ?thesis using True v(1) frame_trans[OF v(3)] by auto
  next
    case False
    then show ?thesis using v by auto
  qed
qed

lemma propagate_next_ok:
  assumes "core F A ck" "next_to_propagate ck < length (trail ck)"
  shows "\<exists>res ck'. propagate_next ck = Some (res, ck') \<and> core F A ck' \<and>
    frame (ck\<lparr>next_to_propagate := next_to_propagate ck + 1\<rparr>) ck' \<and> (\<not> res \<longrightarrow> entails F A [])"
proof -
  let ?ck = "ck\<lparr>next_to_propagate := next_to_propagate ck + 1\<rparr>" and ?lit = "trail ck ! next_to_propagate ck"
  have lit: "?lit \<in> set (trail ck)" "lit_ok (size_vars ck) (- ?lit)"
    using assms(2) assign_okD(4)[OF coreD(2)[OF assms(1)], of ?lit] by auto
  have C: "core F A ?ck" using assms by (auto simp: core_def)
  have w: "watcher ?ck (- ?lit) = Some (watchers ck ! l2u (- ?lit))"
    using watcher_ok[of ?ck "store ck" "- ?lit"] coreD(4)[OF C] lit(2) by simp
  have "core F A (with_list ?ck (- ?lit) ([] @ watchers ck ! l2u (- ?lit)))"
    using C by (simp add: with_list_def)
  from visit_watches_ok[OF this] lit(1) obtain res ck' ws' where v:
    "visit_watches ?ck ?lit [] (watchers ck ! l2u (- ?lit)) = Some (res, ck', ws')"
    "core F A (with_list ck' (- ?lit) ws')" "frame ?ck ck'" "\<not> res \<longrightarrow> entails F A []" by auto
  have len: "l2u (- ?lit) < length (watchers ck')"
    using frameD(3)[OF v(3)] watches_okD(1)[OF coreD(4)[OF assms(1)]] l2u_less[OF lit(2)] by simp
  have "frame ck' (with_list ck' (- ?lit) ws')"
    using frameI[where ck = ck' and wss = "(watchers ck')[l2u (- ?lit) := ws']" and st = "store ck'" and vs = "vals ck'" and tr = "[]"]
    by (simp add: with_list_def)
  then have "frame ?ck (with_list ck' (- ?lit) ws')" by (rule frame_trans[OF v(3)])
  then show ?thesis using v w len assms(2)
    by (simp add: propagate_next_def set_watcher_def with_list_def)
qed


text \<open>Propagation as a whole: it ends, and a conflict means that formula and assumptions contradict.\<close>

definition pframe :: "checker \<Rightarrow> checker \<Rightarrow> bool" where
  "pframe ck ck' \<longleftrightarrow> (\<exists>n. frame (ck\<lparr>next_to_propagate := n\<rparr>) ck')"

lemma frame_next: "frame ck ck' \<Longrightarrow> frame (ck\<lparr>next_to_propagate := n\<rparr>) (ck'\<lparr>next_to_propagate := n\<rparr>)"
proof -
  assume "frame ck ck'"
  then obtain vs wss tr st where f: "ck' = ck\<lparr>vals := vs, watchers := wss, trail := trail ck @ tr, store := st\<rparr>"
    "length wss = length (watchers ck)" "same_clauses (store ck) st" by (auto simp: frame_def)
  have "ck'\<lparr>next_to_propagate := n\<rparr> =
      ck\<lparr>next_to_propagate := n, vals := vs, watchers := wss, trail := trail ck @ tr, store := st\<rparr>"
    by (rule checker.equality) (simp_all add: f(1))
  with f(2,3) show ?thesis
    using frameI[where ck = "ck\<lparr>next_to_propagate := n\<rparr>" and wss = wss and st = st and vs = vs and tr = tr] by simp
qed

lemma pframe_refl [simp]: "pframe ck ck"
  unfolding pframe_def by (rule exI[of _ "next_to_propagate ck"]) simp

lemma pframe_trans [trans]:
  assumes "pframe a b" "pframe b c"
  shows "pframe a c"
proof -
  obtain n m where f: "frame (a\<lparr>next_to_propagate := n\<rparr>) b" "frame (b\<lparr>next_to_propagate := m\<rparr>) c"
    using assms by (auto simp: pframe_def)
  have "frame (a\<lparr>next_to_propagate := m\<rparr>) (b\<lparr>next_to_propagate := m\<rparr>)" using frame_next[OF f(1), of m] by simp
  from frame_trans[OF this f(2)] show ?thesis by (auto simp: pframe_def)
qed

lemma frame_pframe: "frame a b \<Longrightarrow> pframe a b"
  unfolding pframe_def by (rule exI[of _ "next_to_propagate a"]) simp

lemma pframe_step: "frame (ck\<lparr>next_to_propagate := n\<rparr>) ck' \<Longrightarrow> pframe ck ck'"
  unfolding pframe_def by blast

lemma ck_propagate_ok:
  assumes "core F A ck"
  shows "\<exists>res ck'. ck_propagate ck = Some (res, ck') \<and> core F A ck' \<and> pframe ck ck' \<and>
    (if res then next_to_propagate ck' = length (trail ck') else entails F A [])"
  using assms
proof (induction "nat (size_vars ck) - next_to_propagate ck" arbitrary: ck rule: less_induct)
  case less
  show ?case
  proof (cases "next_to_propagate ck < length (trail ck)")
    case True
    from propagate_next_ok[OF less.prems True] obtain res ck1 where p: "propagate_next ck = Some (res, ck1)"
      "core F A ck1" "frame (ck\<lparr>next_to_propagate := next_to_propagate ck + 1\<rparr>) ck1" "\<not> res \<longrightarrow> entails F A []"
      by blast
    have "size_vars ck1 = size_vars ck" "next_to_propagate ck1 = next_to_propagate ck + 1"
      using frameD(1,2)[OF p(3)] by auto
    moreover have "length (trail ck) \<le> nat (size_vars ck)"
      by (rule assign_ok_length[OF coreD(2,1)[OF less.prems]])
    ultimately have "nat (size_vars ck1) - next_to_propagate ck1 < nat (size_vars ck) - next_to_propagate ck"
      using True by simp
    from less.hyps[OF this p(2)] obtain res2 ck2 where r: "ck_propagate ck1 = Some (res2, ck2)" "core F A ck2" "pframe ck1 ck2"
      "if res2 then next_to_propagate ck2 = length (trail ck2) else entails F A []" by blast
    show ?thesis
    proof (cases res)
      case T: True
      then show ?thesis using True p(1) r pframe_trans[OF pframe_step[OF p(3)] r(3)]
        by (subst ck_propagate.simps) simp
    next
      case False
      then show ?thesis using True p pframe_step[OF p(3)]
        by (subst ck_propagate.simps) (auto intro!: exI[of _ False])
    qed
  next
    case False
    then have "next_to_propagate ck = length (trail ck)" using coreD(7)[OF less.prems] by simp
    then show ?thesis using less.prems by (subst ck_propagate.simps) (auto intro!: exI[of _ True])
  qed
qed

section \<open>Checking a clause\<close>

lemma backtrack_loop_ok:
  assumes "assign_ok (size_vars ck) (vals ck) (trail ck)"
  shows "backtrack_loop n ck = Some (ck\<lparr>vals := value_of (take n (trail ck)), trail := take n (trail ck)\<rparr>)"
  using assms
proof (induction n ck rule: backtrack_loop.induct)
  case (1 n ck)
  show ?case
  proof (cases "length (trail ck) > n")
    case True
    then obtain tr l where tr: "trail ck = tr @ [l]" by (cases "trail ck" rule: rev_cases) auto
    let ?ck = "ck\<lparr>vals := (vals ck)(l := 0, - l := 0), trail := tr\<rparr>"
    have "\<bar>l\<bar> < size_vars ck" using 1(2) tr by (auto simp: assign_ok_def lit_ok_def)
    then have u: "unassign_last ck = Some ?ck" using tr by (simp add: unassign_last_def)
    have "assign_ok (size_vars ?ck) (vals ?ck) (trail ?ck)" using 1(2) tr assign_ok_pop by simp
    from "1.IH"[OF True u this] show ?thesis
      using True u tr by (subst backtrack_loop.simps) (simp)
  next
    case False
    then show ?thesis using 1(2) by (subst backtrack_loop.simps) (simp add: assign_ok_def)
  qed
qed

lemma assign_ok_take: "assign_ok sz vs tr \<Longrightarrow> assign_ok sz (value_of (take n tr)) (take n tr)"
  unfolding assign_ok_def by (auto dest: in_set_takeD)

lemma ck_backtrack_ok:
  assumes "core F A ck" "n \<le> length (trail ck)" "trail_implied F B (take n (trail ck))"
  shows "\<exists>ck'. ck_backtrack n ck = Some ck' \<and> core F B ck' \<and> next_to_propagate ck' = n \<and>
    ck' = ck\<lparr>vals := vals ck', trail := take n (trail ck), next_to_propagate := n\<rparr>"
  using assms backtrack_loop_ok[OF coreD(2)[OF assms(1)], of n] assign_ok_take[of "size_vars ck" "vals ck" "trail ck" n]
  by (simp add: ck_backtrack_def core_def)

text \<open>What \<^verbatim>\<open>tautological\<close> leaves in \<^verbatim>\<open>simplified\<close> when it returns false.\<close>

definition clean :: "checker \<Rightarrow> bool" where
  "clean ck \<longleftrightarrow> distinct (simplified ck) \<and>
     (\<forall>l \<in> set (simplified ck). lit_ok (size_vars ck) l \<and> - l \<notin> set (simplified ck) \<and> l \<notin> set (trail ck))"

lemma assume_all_ok:
  assumes "core F A ck" "\<forall>l \<in> set ls. lit_ok (size_vars ck) l \<and> - l \<notin> set ls \<and> l \<notin> set (trail ck) \<and> - l \<in> set A"
  shows "\<exists>ck'. mfold (\<lambda>s lit. ck_assume s (- lit)) ck ls = Some ck' \<and> core F A ck' \<and> frame ck ck'"
  using assms
proof (induction ls arbitrary: ck)
  case (Cons l ls)
  have l: "lit_ok (size_vars ck) (- l)" "- l \<in> set A" "l \<notin> set (trail ck)" using Cons.prems(2) by auto
  show ?case
  proof (cases "vals ck (- l) > 0")
    case True
    then have "ck_assume ck (- l) = Some ck" using l by (simp add: ck_assume_def ck_val_ok)
    then show ?thesis using Cons by auto
  next
    case False
    then have "vals ck (- l) = 0" using l(3) assign_okD(1-3)[OF coreD(2)[OF Cons.prems(1)], of "- l"] by auto
    from assign_core[OF Cons.prems(1) l(1) this entails_assumed[OF l(2)]] obtain ck1 where ck1:
      "ck_assign ck (- l) = Some ck1" "core F A ck1" "frame ck ck1" by blast
    have tr: "trail ck1 = trail ck @ [- l]" using ck1(1) l(1) by (auto simp: ck_assign_def lit_ok_def)
    from ck1 False l(1) have s: "ck_assume ck (- l) = Some ck1" by (simp add: ck_assume_def ck_val_ok)
    from Cons.IH[OF ck1(2)] Cons.prems(2) tr frameD(1)[OF ck1(3)] obtain ck2 where
      "mfold (\<lambda>s lit. ck_assume s (- lit)) ck1 ls = Some ck2" "core F A ck2" "frame ck1 ck2" by fastforce
    then show ?thesis using s frame_trans[OF ck1(3)] by auto
  qed
qed simp

lemma entails_refute: "entails F (map uminus ls) [] \<Longrightarrow> 0 \<notin> set ls \<Longrightarrow> entails F [] ls"
  unfolding entails_def by (auto simp: clause_true_iff) (metis lit_true_uminus)

lemma core_weaken: "core F A ck \<Longrightarrow> set A \<subseteq> set B \<Longrightarrow> core F B ck"
  unfolding core_def trail_implied_def using entails_mono by blast

text \<open>A clause passes only if the original clauses entail it; the state is as before.\<close>

lemma check_clause_ok:
  assumes C: "core F [] ck" and cl: "clean ck" and np: "next_to_propagate ck = length (trail ck)" and inc: "\<not> inconsistent ck"
  shows "\<exists>ok ck'. check_clause ck = Some (ok, ck') \<and> core F [] ck' \<and> trail ck' = trail ck \<and>
    next_to_propagate ck' = next_to_propagate ck \<and> pframe ck ck' \<and> (ok \<longrightarrow> entails F [] (simplified ck))"
proof -
  let ?A = "map uminus (simplified ck)"
  obtain ck1 where ck1: "mfold (\<lambda>s lit. ck_assume s (- lit)) ck (simplified ck) = Some ck1" "core F ?A ck1" "frame ck ck1"
    using assume_all_ok[OF core_weaken[OF C, of ?A], of "simplified ck"] cl by (auto simp: clean_def)
  from ck_propagate_ok[OF ck1(2)] obtain res ck2 where ck2: "ck_propagate ck1 = Some (res, ck2)" "core F ?A ck2" "pframe ck1 ck2"
    "if res then next_to_propagate ck2 = length (trail ck2) else entails F ?A []" by blast
  have "pframe ck ck2" by (rule pframe_trans[OF frame_pframe[OF ck1(3)] ck2(3)])
  then obtain n vs wss tr st where e: "ck2 = ck\<lparr>next_to_propagate := n, vals := vs, watchers := wss, trail := trail ck @ tr, store := st\<rparr>"
    "length wss = length (watchers ck)" "same_clauses (store ck) st" by (auto simp: pframe_def frame_def)
  have tk: "take (next_to_propagate ck) (trail ck2) = trail ck" using e(1) np by simp
  obtain ck3 where ck3: "ck_backtrack (next_to_propagate ck) ck2 = Some ck3" "core F [] ck3" "next_to_propagate ck3 = next_to_propagate ck"
    "ck3 = ck2\<lparr>vals := vals ck3, trail := trail ck, next_to_propagate := next_to_propagate ck\<rparr>"
    using ck_backtrack_ok[OF ck2(2), of "next_to_propagate ck" "[]"] tk coreD(6)[OF C] e(1) np by auto
  have "ck3 = ck\<lparr>vals := vals ck3, watchers := wss, trail := trail ck @ [], store := st\<rparr>"
    by (subst ck3(4), subst e(1), rule checker.equality) simp_all
  then have "frame ck ck3" using frameI[where ck = ck and vs = "vals ck3" and wss = wss and st = st and tr = "[]"] e(2,3) by simp
  moreover have "entails F [] (simplified ck)" if "\<not> res"
    by (rule entails_refute) (use that ck2(4) cl in \<open>auto simp: clean_def lit_ok_def\<close>)
  moreover have "trail ck3 = trail ck" by (subst ck3(4)) simp
  ultimately show ?thesis using ck1(1) ck2(1) ck3(1-3) inc frame_pframe by (auto simp: check_clause_def)
qed


section \<open>Importing a clause\<close>

subsection \<open>Sorting\<close>

definition lit_key :: "int \<Rightarrow> int" where
  "lit_key l = 2 * \<bar>l\<bar> + (if l > 0 then 1 else 0)"

lemma lit_smaller_key: "lit_smaller a b \<longleftrightarrow> lit_key a < lit_key b"
  by (auto simp: lit_smaller_def lit_key_def Let_def)

lemma inj_lit_key: "inj lit_key"
  unfolding inj_def lit_key_def by presburger

lemma sort_lits_key: "sort_lits ls = sort_key lit_key ls"
proof -
  have "insert_lit l ks = insort_key lit_key l ks" for l ks
    by (induction ks) (auto simp: lit_smaller_key)
  then have "insert_lit = insort_key lit_key" by (intro ext)
  then show ?thesis by (simp add: sort_lits_def sort_key_def)
qed

lemma sort_lits_mset: "mset as = mset bs \<Longrightarrow> sort_lits as = sort_lits bs"
  unfolding sort_lits_key by (rule sort_key_inj_key_eq) (auto intro: inj_on_subset[OF inj_lit_key])

lemma sort_lits_sorted: "sorted_wrt (\<lambda>a b. lit_key a < lit_key b) ls \<Longrightarrow> sort_lits ls = ls"
  unfolding sort_lits_key
  by (rule sort_key_inj_key_eq)
    (auto intro: inj_on_subset[OF inj_lit_key] simp: sorted_map elim: sorted_wrt_mono_rel[rotated])

subsection \<open>Duplicates, complementary and satisfied literals\<close>

text \<open>A literal between another one and its negation is one of the two.\<close>

lemma between_complement: "lit_key (- x) \<le> lit_key y \<Longrightarrow> lit_key y \<le> lit_key x \<Longrightarrow> y = x \<or> y = - x"
  unfolding lit_key_def by presburger

definition kept_ok :: "checker \<Rightarrow> int list \<Rightarrow> bool" where
  "kept_ok ck ks \<longleftrightarrow> sorted_wrt (\<lambda>a b. lit_key a < lit_key b) ks \<and> (\<forall>l \<in> set ks. - l \<notin> set ks \<and> vals ck l \<le> 0)"

lemma kept_ok_snoc:
  assumes "kept_ok ck ks" "l \<noteq> 0" "vals ck l \<le> 0" "l \<noteq> (if ks = [] then 0 else last ks)" "l \<noteq> - (if ks = [] then 0 else last ks)"
    "\<forall>k \<in> set ks. lit_key k \<le> lit_key l"
  shows "kept_ok ck (ks @ [l])"
proof -
  have top: "lit_key k \<le> lit_key (last ks)" if "k \<in> set ks" for k
    using assms(1) that by (cases ks rule: rev_cases) (auto simp: kept_ok_def sorted_wrt_append)
  have lt: "lit_key k < lit_key l" if k: "k \<in> set ks" for k
  proof -
    have "lit_key (last ks) \<noteq> lit_key l" using assms(4) k injD[OF inj_lit_key] by (auto split: if_splits)
    moreover have "lit_key (last ks) \<le> lit_key l" using assms(6) k by (metis last_in_set list.set_cases list.discI)
    ultimately show ?thesis using top[OF k] by simp
  qed
  have nc: "- l \<notin> set ks"
  proof
    assume k: "- l \<in> set ks"
    then have "ks \<noteq> []" by auto
    from between_complement[of l "last ks"] top[OF k] lt[of "last ks"] this have "last ks = l \<or> last ks = - l" by auto
    then show False using assms(4,5) \<open>ks \<noteq> []\<close> by auto
  qed
  have "l \<noteq> - l" using assms(2) by simp
  then show ?thesis using assms(1,3) lt nc by (auto simp: kept_ok_def sorted_wrt_append)
qed

definition taut_post :: "checker \<Rightarrow> int set \<Rightarrow> bool \<Rightarrow> int list \<Rightarrow> bool" where
  "taut_post ck S t ks \<longleftrightarrow> (if t then \<exists>l \<in> S. vals ck l > 0 \<or> - l \<in> S else kept_ok ck ks \<and> set ks = S)"

lemma tautological_loop_ok:
  assumes "kept_ok ck ks" "sorted (map lit_key (ks @ ls))" "\<forall>l \<in> set ls. lit_ok (size_vars ck) l"
  shows "\<exists>t ks'. tautological_loop ck (if ks = [] then 0 else last ks) ks ls = Some (t, ks') \<and>
    taut_post ck (set (ks @ ls)) t ks'"
  using assms
proof (induction ls arbitrary: ks)
  case (Cons l ls)
  let ?prev = "if ks = [] then 0 else last ks"
  have ok: "lit_ok (size_vars ck) l" "l \<noteq> 0" using Cons.prems(3) by (auto simp: lit_ok_def)
  consider "l = ?prev" | "l \<noteq> ?prev" "l = - ?prev" | "l \<noteq> ?prev" "l \<noteq> - ?prev" "vals ck l > 0"
    | "l \<noteq> ?prev" "l \<noteq> - ?prev" "vals ck l \<le> 0" by linarith
  then show ?case
  proof cases
    case 1
    then have "l \<in> set ks" using ok(2) by (auto split: if_splits)
    then have "set (ks @ l # ls) = set (ks @ ls)" by auto
    moreover have "sorted (map lit_key (ks @ ls))" using Cons.prems(2) by (simp add: sorted_append)
    moreover have "tautological_loop ck ?prev ks (l # ls) = tautological_loop ck ?prev ks ls" using 1 by simp
    moreover have "\<forall>l \<in> set ls. lit_ok (size_vars ck) l" using Cons.prems(3) by simp
    ultimately show ?thesis using Cons.IH[OF Cons.prems(1)] by presburger
  next
    case 2
    then have "- l \<in> set ks" using ok(2) by (auto split: if_splits)
    then have "taut_post ck (set (ks @ l # ls)) True ks" by (auto simp: taut_post_def intro!: bexI[of _ "- l"])
    moreover have "tautological_loop ck ?prev ks (l # ls) = Some (True, ks)" using 2 by simp
    ultimately show ?thesis by blast
  next
    case 3
    then have "taut_post ck (set (ks @ l # ls)) True ks" by (auto simp: taut_post_def)
    moreover have "tautological_loop ck ?prev ks (l # ls) = Some (True, ks)" using 3 ck_val_ok[OF ok(1)] by simp
    ultimately show ?thesis by blast
  next
    case 4
    have k: "kept_ok ck (ks @ [l])"
      by (rule kept_ok_snoc[OF Cons.prems(1) ok(2) 4(3,1,2)]) (use Cons.prems(2) in \<open>auto simp: sorted_append\<close>)
    have "tautological_loop ck ?prev ks (l # ls) = tautological_loop ck l (ks @ [l]) ls"
      using 4 ck_val_ok[OF ok(1)] by simp
    then show ?thesis using Cons.IH[OF k] Cons.prems(2,3) by simp
  qed
qed (auto simp: taut_post_def)

lemma tautological_ok:
  assumes "\<forall>l \<in> set (simplified ck). lit_ok (size_vars ck) l" "assign_ok (size_vars ck) (vals ck) (trail ck)"
  shows "\<exists>t ls. tautological ck = Some (ck\<lparr>simplified := ls\<rparr>, t) \<and>
    (if t then \<exists>l \<in> set (simplified ck). l \<in> set (trail ck) \<or> - l \<in> set (simplified ck)
     else clean (ck\<lparr>simplified := ls\<rparr>) \<and> set ls = set (simplified ck) \<and> sort_lits ls = ls)"
proof -
  let ?s = "sort_lits (simplified ck)"
  have s: "set ?s = set (simplified ck)" "sorted (map lit_key ?s)" by (simp_all add: sort_lits_key)
  from tautological_loop_ok[of ck "[]" ?s] assms(1) s obtain t ks where t: "tautological_loop ck 0 [] ?s = Some (t, ks)"
    "taut_post ck (set ?s) t ks" by (auto simp: kept_ok_def)
  have "clean (ck\<lparr>simplified := ks\<rparr>) \<and> sort_lits ks = ks" if "kept_ok ck ks" "set ks = set ?s"
  proof
    have "sorted_wrt (\<lambda>a b. a \<noteq> b) ks"
      using that(1) unfolding kept_ok_def by (auto elim: sorted_wrt_mono_rel[rotated])
    then have "distinct ks" by (simp add: distinct_conv_nth sorted_wrt_iff_nth_less) (metis linorder_neqE_nat)
    moreover have "vals ck l \<le> 0 \<Longrightarrow> l \<notin> set (trail ck)" for l using assign_okD(1)[OF assms(2), of l] by auto
    ultimately show "clean (ck\<lparr>simplified := ks\<rparr>)" using that assms(1) s(1) by (auto simp: clean_def kept_ok_def)
    show "sort_lits ks = ks" using that(1) by (intro sort_lits_sorted) (simp add: kept_ok_def)
  qed
  then show ?thesis using t s(1) assign_okD(1)[OF assms(2)] by (cases t) (auto simp: tautological_def taut_post_def)
qed

end
