(* ===== verification/Checker_Table.thy ===== *)
theory Checker_Table
  imports Checker_Sound
begin

text \<open>
  The hash table of the checker with its garbage collection, the three observer operations, and
  the theorems on whole runs.
\<close>

section \<open>The clause table\<close>

lemma in_concat_nth: "p \<in> set (concat xss) \<longleftrightarrow> (\<exists>h < length xss. p \<in> set (xss ! h))"
  using list_ex_length[of "\<lambda>xs. p \<in> set xs" xss] by (simp add: list_ex_iff)

definition entry_ok :: "checker \<Rightarrow> nat \<Rightarrow> nat \<Rightarrow> bool" where
  "entry_ok ck h p \<longleftrightarrow> (\<exists>c. store ck p = Some c \<and> c_size c \<noteq> 0 \<and> reduce_hash (c_hash c) (size_clauses ck) = Some h)"

definition table_ok :: "checker \<Rightarrow> bool" where
  "table_ok ck \<longleftrightarrow> length (clauses ck) = size_clauses ck \<and>
     (\<forall>h < size_clauses ck. \<forall>p \<in> set (clauses ck ! h). entry_ok ck h p) \<and>
     distinct (concat (clauses ck) @ garbage ck) \<and>
     (\<forall>p \<in> set (garbage ck). \<exists>c. store ck p = Some c \<and> c_size c = 0) \<and>
     (\<forall>p c. store ck p = Some c \<longrightarrow> p < fresh ck \<and> hash_from (nonces ck) 0 0 (sort_lits (c_lits c)) = Some (c_hash c)) \<and>
     num_clauses ck = length (concat (clauses ck)) \<and> num_garbage ck = length (garbage ck) \<and>
     marks ck = replicate (nat (2 * size_vars ck)) False \<and> length (nonces ck) = 4"

lemma table_okD:
  assumes "table_ok ck"
  shows "length (clauses ck) = size_clauses ck" "h < size_clauses ck \<Longrightarrow> p \<in> set (clauses ck ! h) \<Longrightarrow> entry_ok ck h p"
    "distinct (concat (clauses ck) @ garbage ck)" "p \<in> set (garbage ck) \<Longrightarrow> \<exists>c. store ck p = Some c \<and> c_size c = 0"
    "store ck p = Some c \<Longrightarrow> p < fresh ck"
    "store ck p = Some c \<Longrightarrow> hash_from (nonces ck) 0 0 (sort_lits (c_lits c)) = Some (c_hash c)"
    "num_clauses ck = length (concat (clauses ck))" "num_garbage ck = length (garbage ck)"
    "marks ck = replicate (nat (2 * size_vars ck)) False" "length (nonces ck) = 4"
  using assms by (auto simp: table_ok_def)

text \<open>The clauses the checker holds, as a multiset of clauses, each a multiset of literals.\<close>

definition database :: "checker \<Rightarrow> int multiset multiset" where
  "database ck = image_mset (\<lambda>p. mset (c_lits (the (store ck p)))) (mset (concat (clauses ck)))"

lemma same_clauses_Some:
  assumes "same_clauses st st'" "st p = Some c"
  shows "\<exists>c'. st' p = Some c' \<and> c_hash c' = c_hash c \<and> c_size c' = c_size c \<and> mset (c_lits c') = mset (c_lits c)"
  using assms(1)[unfolded same_clauses_def, THEN spec, of p] assms(2) by (cases "st' p") auto

lemma table_ok_pframe:
  assumes "table_ok ck" "pframe ck ck'"
  shows "table_ok ck'" "database ck' = database ck"
proof -
  obtain n vs wss tr st where e: "ck' = ck\<lparr>next_to_propagate := n, vals := vs, watchers := wss, trail := trail ck @ tr, store := st\<rparr>"
    "same_clauses (store ck) st" using assms(2) by (auto simp: pframe_def frame_def)
  have en: "entry_ok ck' h p" if "entry_ok ck h p" for h p
  proof -
    from that obtain c where c: "store ck p = Some c" "c_size c \<noteq> 0" "reduce_hash (c_hash c) (size_clauses ck) = Some h"
      by (auto simp: entry_ok_def)
    from same_clauses_Some[OF e(2) c(1)] show ?thesis using c e(1) by (auto simp: entry_ok_def)
  qed
  have hs: "p < fresh ck \<and> hash_from (nonces ck) 0 0 (sort_lits (c_lits c')) = Some (c_hash c')" if "st p = Some c'" for p c'
  proof -
    from same_clausesD[OF e(2) that] obtain c where c: "store ck p = Some c" "c_hash c' = c_hash c"
      "mset (c_lits c') = mset (c_lits c)" by blast
    then show ?thesis using table_okD(5,6)[OF assms(1) c(1)] sort_lits_mset[OF c(3)] by simp
  qed
  have gb: "\<exists>c. st p = Some c \<and> c_size c = 0" if "p \<in> set (garbage ck)" for p
    using table_okD(4)[OF assms(1) that] same_clauses_Some[OF e(2), of p] by fastforce
  show "table_ok ck'" using assms(1) en hs gb by (simp add: table_ok_def e(1))
  have "mset (c_lits (the (st p))) = mset (c_lits (the (store ck p)))" if p: "p \<in> set (concat (clauses ck))" for p
  proof -
    obtain h where "h < size_clauses ck" "p \<in> set (clauses ck ! h)"
      using p table_okD(1)[OF assms(1)] unfolding in_concat_nth by auto
    then obtain c where "store ck p = Some c" using table_okD(2)[OF assms(1)] by (fastforce simp: entry_ok_def)
    from same_clauses_Some[OF e(2) this] show ?thesis using \<open>store ck p = Some c\<close> by auto
  qed
  then show "database ck' = database ck" unfolding database_def e(1) by (auto intro!: image_mset_cong)
qed

subsection \<open>Hashing\<close>

lemma reduce_loop_ends: "0 < sz \<Longrightarrow> \<exists>r. reduce_loop shift res sz = Some r"
proof (induction shift arbitrary: res rule: less_induct)
  case (less shift)
  show ?case
  proof (cases "shift = 0")
    case True
    then show ?thesis using less.prems by (subst reduce_loop.simps) simp
  next
    case False
    then have "shift div 2 < shift" by simp
    from less.IH[OF this less.prems] show ?thesis by (subst reduce_loop.simps) simp
  qed
qed

lemma reduce_hash_ok:
  assumes "0 < sz"
  shows "\<exists>h < sz. reduce_hash hash sz = Some h"
proof -
  obtain r where r: "reduce_loop 32 hash sz = Some r" using reduce_loop_ends[OF assms] by blast
  have "unat (r AND (of_nat sz - 1)) \<le> unat (of_nat sz - 1 :: 64 word)" using word_and_le1[of r] by (simp add: word_le_nat_alt)
  also have "\<dots> = unat (of_nat (sz - 1) :: 64 word)" using assms by simp
  also have "\<dots> \<le> sz - 1" by (simp add: unat_of_nat)
  finally show ?thesis using r assms by (simp add: reduce_hash_def)
qed

lemma hash_from_ok: "length ns = 4 \<Longrightarrow> j < 4 \<Longrightarrow> \<exists>h. hash_from ns j tmp ls = Some h"
  by (induction ls arbitrary: j tmp) auto

section \<open>The invariant of the checker between two events\<close>

definition checker_ok :: "int list list \<Rightarrow> checker \<Rightarrow> bool" where
  "checker_ok F ck \<longleftrightarrow> core F [] ck \<and> table_ok ck \<and> size_vars ck \<le> INT_MAX \<and>
     (inconsistent ck \<longrightarrow> entails F [] []) \<and> (\<not> inconsistent ck \<longrightarrow> next_to_propagate ck = length (trail ck)) \<and>
     simplified ck = [] \<and> unsimplified ck = []"

subsection \<open>Import\<close>

lemma double_until_bounds:
  assumes "0 < n"
  shows "idx < double_until idx n" "n \<le> double_until idx n" "double_until idx n = n \<or> double_until idx n \<le> 2 * idx"
proof -
  have "idx < double_until idx n \<and> n \<le> double_until idx n \<and> (double_until idx n = n \<or> double_until idx n \<le> 2 * idx)"
    using assms
  proof (induction idx n rule: double_until.induct)
    case (1 idx n)
    show ?case
    proof (cases "n \<le> idx")
      case True
      then have e: "double_until idx n = double_until idx (2 * n)" using 1(2) by (subst double_until.simps) simp
      show ?thesis using 1 True unfolding e by auto
    next
      case False
      then have "double_until idx n = n" by (subst double_until.simps) simp
      then show ?thesis using False 1(2) by simp
    qed
  qed
  then show "idx < double_until idx n" "n \<le> double_until idx n" "double_until idx n = n \<or> double_until idx n \<le> 2 * idx"
    by auto
qed

lemma lit_ok_mono: "lit_ok sz l \<Longrightarrow> sz \<le> n \<Longrightarrow> lit_ok n l"
  by (simp add: lit_ok_def)

lemma enlarge_vars_ok:
  assumes "core F A ck" "table_ok ck" "size_vars ck \<le> idx"
  shows "core F A (enlarge_vars ck idx)" "table_ok (enlarge_vars ck idx)" "database (enlarge_vars ck idx) = database ck"
    "idx < size_vars (enlarge_vars ck idx)" "size_vars (enlarge_vars ck idx) \<le> max 2 (2 * idx)"
proof -
  let ?n = "double_until idx (if size_vars ck \<noteq> 0 then 2 * size_vars ck else 2)"
  have sz: "0 \<le> size_vars ck" by (rule coreD(1)[OF assms(1)])
  have n: "idx < ?n" "size_vars ck \<le> ?n" "?n \<le> max 2 (2 * idx)"
    using double_until_bounds[of "if size_vars ck \<noteq> 0 then 2 * size_vars ck else 2" idx] sz assms(3) by (auto split: if_splits)
  have vs: "(\<lambda>l. if - size_vars ck \<le> l \<and> l < size_vars ck then vals ck l else 0) = vals ck"
    using coreD(2)[OF assms(1)] by (auto simp: assign_ok_def value_of_def lit_ok_def fun_eq_iff)
  have W: "watches_ok ?n (store ck) (resize (nat (2 * ?n)) [] (watchers ck))"
    using coreD(4)[OF assms(1)] n(2) by (auto simp: watches_ok_def resize_def nth_append watchlist_ok_def)
  have "store_ok ?n (store ck)" using coreD(3)[OF assms(1)] lit_ok_mono[OF _ n(2)] unfolding store_ok_def by blast
  moreover have "assign_ok ?n (vals ck) (trail ck)"
    using coreD(2)[OF assms(1)] lit_ok_mono[OF _ n(2)] unfolding assign_ok_def by blast
  ultimately show "core F A (enlarge_vars ck idx)"
    using assms(1) W vs n(2) sz by (simp add: core_def enlarge_vars_def Let_def)
  show "table_ok (enlarge_vars ck idx)" using assms(2) n(2) sz
    by (simp add: table_ok_def enlarge_vars_def Let_def entry_ok_def resize_def replicate_add[symmetric])
  show "database (enlarge_vars ck idx) = database ck" by (simp add: database_def enlarge_vars_def Let_def)
  show "idx < size_vars (enlarge_vars ck idx)" "size_vars (enlarge_vars ck idx) \<le> max 2 (2 * idx)"
    using n by (simp_all add: enlarge_vars_def Let_def)
qed


text \<open>The state of the checker while a clause is being processed.\<close>

definition ready :: "int list list \<Rightarrow> checker \<Rightarrow> bool" where
  "ready F ck \<longleftrightarrow> core F [] ck \<and> table_ok ck \<and> size_vars ck \<le> INT_MAX \<and> \<not> inconsistent ck \<and>
     next_to_propagate ck = length (trail ck)"

lemma readyD:
  assumes "ready F ck"
  shows "core F [] ck" "table_ok ck" "size_vars ck \<le> INT_MAX" "\<not> inconsistent ck" "next_to_propagate ck = length (trail ck)"
  using assms by (auto simp: ready_def)

lemma core_buffers [simp]: "core F A (ck\<lparr>simplified := s, unsimplified := u\<rparr>) = core F A ck"
  "core F A (ck\<lparr>simplified := s\<rparr>) = core F A ck"
  by (simp_all add: core_def)

lemma table_ok_buffers [simp]: "table_ok (ck\<lparr>simplified := s, unsimplified := u\<rparr>) = table_ok ck"
  "table_ok (ck\<lparr>simplified := s\<rparr>) = table_ok ck"
  "database (ck\<lparr>simplified := s, unsimplified := u\<rparr>) = database ck" "database (ck\<lparr>simplified := s\<rparr>) = database ck"
  by (simp_all add: table_ok_def entry_ok_def database_def)

text \<open>Literals the interface may pass: below \<open>2^30\<close> the doubled sizes stay in the range of \<^verbatim>\<open>int\<close>.\<close>

definition lits_in_range :: "int list \<Rightarrow> bool" where
  "lits_in_range c \<longleftrightarrow> (\<forall>l \<in> set c. l \<noteq> 0 \<and> \<bar>l\<bar> < 1073741824)"

lemma import_literal_ok:
  assumes "ready F ck" "l \<noteq> 0" "\<bar>l\<bar> < 1073741824" "\<forall>l \<in> set (simplified ck). lit_ok (size_vars ck) l"
  shows "\<exists>ck'. import_literal ck l = Some ck' \<and> ready F ck' \<and> simplified ck' = simplified ck @ [l] \<and>
    (\<forall>l \<in> set (simplified ck'). lit_ok (size_vars ck') l) \<and> database ck' = database ck \<and> trail ck' = trail ck"
proof (cases "\<bar>l\<bar> \<ge> size_vars ck")
  case True
  let ?e = "enlarge_vars ck \<bar>l\<bar>"
  note e = enlarge_vars_ok[OF readyD(1,2)[OF assms(1)] True]
  have s: "simplified ?e = simplified ck" "trail ?e = trail ck" "inconsistent ?e = inconsistent ck"
    "next_to_propagate ?e = next_to_propagate ck" by (simp_all add: enlarge_vars_def Let_def)
  have "\<forall>l \<in> set (simplified ck). lit_ok (size_vars ?e) l"
    using assms(4) lit_ok_mono[of "size_vars ck" _ "size_vars ?e"] True e(4) by auto
  then show ?thesis using True e s assms by (simp add: import_literal_def ready_def lit_ok_def Let_def)
next
  case False
  then show ?thesis using assms by (auto simp: import_literal_def ready_def lit_ok_def Let_def)
qed

lemma import_clause_ok:
  assumes "ready F ck" "lits_in_range c" "\<forall>l \<in> set (simplified ck). lit_ok (size_vars ck) l"
  shows "\<exists>ck'. import_clause ck c = Some ck' \<and> ready F ck' \<and> simplified ck' = simplified ck @ c \<and>
    (\<forall>l \<in> set (simplified ck'). lit_ok (size_vars ck') l) \<and> database ck' = database ck \<and> trail ck' = trail ck"
  using assms unfolding import_clause_def
proof (induction c arbitrary: ck)
  case (Cons l c)
  obtain ck1 where ck1: "import_literal ck l = Some ck1" "ready F ck1" "simplified ck1 = simplified ck @ [l]"
    "\<forall>l \<in> set (simplified ck1). lit_ok (size_vars ck1) l" "database ck1 = database ck" "trail ck1 = trail ck"
    using import_literal_ok[OF Cons.prems(1) _ _ Cons.prems(3), of l] Cons.prems(2) by (auto simp: lits_in_range_def)
  have "lits_in_range c" using Cons.prems(2) by (simp add: lits_in_range_def)
  from Cons.IH[OF ck1(2) this ck1(4)] ck1 show ?case by auto
qed simp

section \<open>Adding a clause\<close>

lemma find_unit_second:
  "\<forall>l \<in> set ls. lit_ok (size_vars ck) l \<Longrightarrow> u \<noteq> 0 \<Longrightarrow>
   find_unit ck u ls = Some (if \<forall>l \<in> set ls. vals ck l < 0 then Inl u else Inr ())"
  by (induction ls) (auto simp: ck_val_ok)

lemma find_unit_ok:
  assumes "\<forall>l \<in> set ls. lit_ok (size_vars ck) l"
  obtains "find_unit ck 0 ls = Some (Inl 0)" "\<forall>l \<in> set ls. vals ck l < 0"
  | u where "find_unit ck 0 ls = Some (Inl u)" "u \<in> set ls" "vals ck u \<ge> 0" "\<forall>l \<in> set ls - {u}. vals ck l < 0"
  | "find_unit ck 0 ls = Some (Inr ())" "2 \<le> length ls"
proof -
  have "(find_unit ck 0 ls = Some (Inl 0) \<and> (\<forall>l \<in> set ls. vals ck l < 0)) \<or>
    (\<exists>u \<in> set ls. find_unit ck 0 ls = Some (Inl u) \<and> vals ck u \<ge> 0 \<and> (\<forall>l \<in> set ls - {u}. vals ck l < 0)) \<or>
    (find_unit ck 0 ls = Some (Inr ()) \<and> 2 \<le> length ls)"
    using assms
  proof (induction ls)
    case (Cons l ls)
    have l: "ck_val ck l = Some (vals ck l)" "l \<noteq> 0" using Cons.prems by (auto simp: ck_val_ok lit_ok_def)
    show ?case
    proof (cases "vals ck l < 0")
      case True
      then show ?thesis using Cons l by auto
    next
      case False
      then have e: "find_unit ck 0 (l # ls) = find_unit ck l ls" using l by simp
      have "2 \<le> length (l # ls)" if "\<not> (\<forall>x \<in> set ls. vals ck x < 0)" using that by (cases ls) auto
      then show ?thesis unfolding e using find_unit_second[of ls ck l] Cons.prems l(2) False by auto
    qed
  qed simp
  then show thesis using that by blast
qed

lemma first_unassigned_ok:
  assumes "\<forall>j \<in> set js. j < length lits" "\<forall>l \<in> set lits. lit_ok (size_vars ck) l"
  shows "\<exists>r. first_unassigned ck lits js = Some r \<and> (case r of None \<Rightarrow> True | Some j \<Rightarrow> j \<in> set js)"
  using assms by (induction js) (auto simp: ck_val_ok split: option.splits)

lemma watch_position_ok:
  assumes "i < length lits" "\<forall>l \<in> set lits. lit_ok (size_vars ck) l"
  shows "\<exists>lits'. watch_position ck lits i = Some lits' \<and> mset lits' = mset lits"
  using first_unassigned_ok[of "[i + 1..<length lits]" lits ck] assms
  by (auto simp: watch_position_def ck_val_ok split: option.splits)

lemma watches_ok_new:
  assumes W: "watches_ok sz st wss" and p: "st p = None" and c: "c_lits c = l0 # l1 # ls" "l0 \<noteq> l1" "lit_ok sz l0" "lit_ok sz l1"
  defines "w0 \<equiv> \<lparr>blit = l1, wsize = length (c_lits c), wclause = p\<rparr>" and "w1 \<equiv> \<lparr>blit = l0, wsize = length (c_lits c), wclause = p\<rparr>"
  shows "watches_ok sz (st(p \<mapsto> c)) ((wss[l2u l0 := wss ! l2u l0 @ [w0]])[l2u l1 := wss ! l2u l1 @ [w1]])"
proof -
  let ?st = "st(p \<mapsto> c)"
  have old: "watchlist_ok ?st l ws \<and> p \<notin> wclause ` set ws" if "watchlist_ok st l ws" for l ws
    using that p by (fastforce simp: watchlist_ok_def watch_ok_def)
  have snoc: "watchlist_ok ?st l (ws @ [w])" if "watchlist_ok st l ws" "watch_ok ?st l w" "wclause w = p" for l ws w
    using old[OF that(1)] that(2,3) by (auto simp: watchlist_ok_def)
  have "watches_ok sz ?st wss" using W old by (auto simp: watches_ok_def)
  moreover have "watchlist_ok ?st l0 (wss ! l2u l0 @ [w0])"
    by (rule snoc[OF watches_okD(2)[OF W c(3)]]) (use c in \<open>auto simp: watch_ok_def w0_def\<close>)
  moreover have "watchlist_ok ?st l1 (wss ! l2u l1 @ [w1])"
    by (rule snoc[OF watches_okD(2)[OF W c(4)]]) (use c in \<open>auto simp: watch_ok_def w1_def\<close>)
  ultimately show ?thesis using c(3,4) by (auto intro!: watches_ok_update simp: lit_ok_def)
qed

lemma new_clause_ok:
  assumes C: "core F [] ck" and fr: "store ck (fresh ck) = None"
    and s: "distinct (simplified ck)" "\<forall>l \<in> set (simplified ck). lit_ok (size_vars ck) l" "2 \<le> length (simplified ck)"
      "entails F [] (simplified ck)"
  shows "\<exists>wss lits. new_clause ck = Some (ck\<lparr>store := (store ck)(fresh ck \<mapsto>
        \<lparr>c_hash = last_hash ck, c_size = length (simplified ck), c_lits = lits\<rparr>),
        fresh := Suc (fresh ck), num_clauses := num_clauses ck + 1, watchers := wss\<rparr>, fresh ck) \<and>
      mset lits = mset (simplified ck) \<and>
      core F [] (ck\<lparr>store := (store ck)(fresh ck \<mapsto>
        \<lparr>c_hash = last_hash ck, c_size = length (simplified ck), c_lits = lits\<rparr>), watchers := wss\<rparr>)"
proof -
  obtain la where la: "watch_position ck (simplified ck) 0 = Some la" "mset la = mset (simplified ck)"
    using watch_position_ok[of 0 "simplified ck" ck] s(2,3) by fastforce
  have la': "length la = length (simplified ck)" "set la = set (simplified ck)"
    using la(2) by (auto dest: mset_eq_length mset_eq_setD)
  obtain lb where lb: "watch_position ck la 1 = Some lb" "mset lb = mset la"
    using watch_position_ok[of 1 la ck] s(2,3) la' by auto
  have ms: "mset lb = mset (simplified ck)" using la lb by simp
  have len: "length lb = length (simplified ck)" using mset_eq_length[OF ms] .
  then obtain l0 l1 ls where lbe: "lb = l0 # l1 # ls" using s(3) by (cases lb rule: remdups_adj.cases) auto
  have sd: "set lb = set (simplified ck)" "distinct lb" using ms s(1) mset_eq_setD mset_eq_imp_distinct_iff by blast+
  let ?c = "\<lparr>c_hash = last_hash ck, c_size = length (simplified ck), c_lits = lb\<rparr>" and ?n = "length (simplified ck)" and ?p = "fresh ck"
  let ?w0 = "\<lparr>blit = l1, wsize = ?n, wclause = ?p\<rparr>" and ?w1 = "\<lparr>blit = l0, wsize = ?n, wclause = ?p\<rparr>"
  let ?wss = "((watchers ck)[l2u l0 := watchers ck ! l2u l0 @ [?w0]])[l2u l1 := watchers ck ! l2u l1 @ [?w1]]"
  have ok: "lit_ok (size_vars ck) l0" "lit_ok (size_vars ck) l1" "l0 \<noteq> l1" using s(2) sd lbe by auto
  then have ne: "l2u l0 \<noteq> l2u l1" using l2u_inj[of l0 l1] by (auto simp: lit_ok_def)
  have lw: "l2u l0 < length (watchers ck)" "l2u l1 < length (watchers ck)"
    using watches_okD(1)[OF coreD(4)[OF C]] l2u_less ok by auto
  have "new_clause ck = Some (ck\<lparr>store := (store ck)(?p \<mapsto> ?c), fresh := Suc ?p, num_clauses := num_clauses ck + 1,
      watchers := ?wss\<rparr>, ?p)"
    unfolding new_clause_def la(1) Option.bind.bind_lunit lb(1) using lw ne lbe
    by (simp add: push_watch_def watcher_def set_watcher_def Let_def)
  moreover have "watches_ok (size_vars ck) ((store ck)(?p \<mapsto> ?c)) ?wss"
    using watches_ok_new[OF coreD(4)[OF C] fr, of ?c l0 l1 ls] lbe ok len by simp
  moreover have "entails F [] lb" by (rule entails_set[OF s(4)]) (use sd in simp)
  ultimately show ?thesis using C s(2,3) ms sd len
    by (intro exI[of _ ?wss] exI[of _ lb]) (auto simp: core_def store_ok_def store_implied_def)
qed

lemma mset_concat_update:
  "h < length tab \<Longrightarrow> mset (concat (tab[h := p # tab ! h])) = add_mset p (mset (concat tab))"
  by (induction tab arbitrary: h) (auto split: nat.split)

lemma rehash_all_ok:
  assumes "\<forall>p \<in> set ps. st p \<noteq> None" "0 < length tab"
    "\<forall>h < length tab. \<forall>p \<in> set (tab ! h). reduce_hash (c_hash (the (st p))) (length tab) = Some h"
  shows "\<exists>tab'. mfold (rehash st) tab ps = Some tab' \<and> length tab' = length tab \<and>
    mset (concat tab') = mset (concat tab) + mset ps \<and>
    (\<forall>h < length tab. \<forall>p \<in> set (tab' ! h). reduce_hash (c_hash (the (st p))) (length tab) = Some h)"
  using assms
proof (induction ps arbitrary: tab)
  case (Cons p ps)
  obtain c where c: "st p = Some c" using Cons.prems(1) by auto
  obtain h where h: "h < length tab" "reduce_hash (c_hash c) (length tab) = Some h"
    using reduce_hash_ok[OF Cons.prems(2)] by blast
  let ?tab = "tab[h := p # tab ! h]"
  have r: "rehash st tab p = Some ?tab" using c h by (simp add: rehash_def)
  have "\<forall>h < length ?tab. \<forall>p \<in> set (?tab ! h). reduce_hash (c_hash (the (st p))) (length ?tab) = Some h"
    using Cons.prems(3) c h by (auto simp: nth_list_update)
  from Cons.IH[OF _ _ this] Cons.prems(1,2) r show ?case by (auto simp: mset_concat_update[OF h(1)])
qed simp

lemma enlarge_clauses_ok:
  assumes "table_ok ck"
  shows "\<exists>ck'. enlarge_clauses ck = Some ck' \<and> table_ok ck' \<and> size_clauses ck' > 0 \<and> database ck' = database ck \<and>
    ck' = ck\<lparr>clauses := clauses ck', size_clauses := size_clauses ck'\<rparr>"
proof -
  define n where "n = (if size_clauses ck \<noteq> 0 then 2 * size_clauses ck else 1)"
  have live: "\<exists>c. store ck p = Some c \<and> c_size c \<noteq> 0" if "p \<in> set (concat (clauses ck))" for p
    using that table_okD(1,2)[OF assms] unfolding in_concat_nth by (fastforce simp: entry_ok_def)
  have "\<exists>tab. mfold (rehash (store ck)) (replicate n []) (concat (clauses ck)) = Some tab \<and> length tab = length (replicate n [] :: nat list list) \<and>
      mset (concat tab) = mset (concat (replicate n [])) + mset (concat (clauses ck)) \<and>
      (\<forall>h < length (replicate n [] :: nat list list). \<forall>p \<in> set (tab ! h).
         reduce_hash (c_hash (the (store ck p))) (length (replicate n [] :: nat list list)) = Some h)"
    by (rule rehash_all_ok) (use live in \<open>auto simp: n_def\<close>)
  then obtain tab where tab: "mfold (rehash (store ck)) (replicate n []) (concat (clauses ck)) = Some tab" "length tab = n"
    "mset (concat tab) = mset (concat (clauses ck))"
    "\<forall>h < n. \<forall>p \<in> set (tab ! h). reduce_hash (c_hash (the (store ck p))) n = Some h" by auto
  let ?ck = "ck\<lparr>clauses := tab, size_clauses := n\<rparr>"
  have "set (concat tab) = set (concat (clauses ck))" "length (concat tab) = length (concat (clauses ck))"
    "distinct (concat tab) = distinct (concat (clauses ck))"
    using tab(3) by (metis mset_eq_setD, metis mset_eq_length, metis mset_eq_imp_distinct_iff)
  moreover have "entry_ok ?ck h p" if h: "h < n" "p \<in> set (tab ! h)" for h p
  proof -
    have "p \<in> set (concat (clauses ck))" using tab(2) h calculation(1) in_concat_nth[of p tab] by auto
    from live[OF this] show ?thesis using tab(4)[rule_format, OF h] by (auto simp: entry_ok_def)
  qed
  ultimately have "table_ok ?ck" using assms tab(2) by (auto simp: table_ok_def simp del: set_concat length_concat)
  then show ?thesis using tab n_def
    by (intro exI[of _ ?ck]) (simp add: enlarge_clauses_def Let_def n_def[symmetric] database_def)
qed

lemma table_insert:
  fixes wss :: "checker_watch list list"
  assumes T: "table_ok ck" and h: "h < size_clauses ck" "reduce_hash hash (size_clauses ck) = Some h"
    and c: "c_hash c = hash" "c_size c \<noteq> 0" "hash_from (nonces ck) 0 0 (sort_lits (c_lits c)) = Some hash"
  defines "ck' \<equiv> ck\<lparr>last_hash := hash, store := (store ck)(fresh ck \<mapsto> c), fresh := Suc (fresh ck),
      num_clauses := num_clauses ck + 1, watchers := wss, clauses := (clauses ck)[h := fresh ck # clauses ck ! h]\<rparr>"
  shows "table_ok ck'" "database ck' = add_mset (mset (c_lits c)) (database ck)"
proof -
  let ?p = "fresh ck" and ?tab = "(clauses ck)[h := fresh ck # clauses ck ! h]"
  have len: "length (clauses ck) = size_clauses ck" by (rule table_okD(1)[OF T])
  have ms: "mset (concat ?tab) = add_mset ?p (mset (concat (clauses ck)))" by (rule mset_concat_update) (use h len in simp)
  have live: "p < ?p" if "p \<in> set (concat (clauses ck) @ garbage ck)" for p
    using that table_okD(1,2)[OF T] table_okD(4)[OF T] table_okD(5)[OF T, of p] in_concat_nth[of p "clauses ck"]
    by (auto simp: entry_ok_def simp del: set_concat)
  have "mset (concat ?tab @ garbage ck) = mset (?p # concat (clauses ck) @ garbage ck)" using ms by simp
  then have d: "distinct (concat ?tab @ garbage ck)"
    using mset_eq_imp_distinct_iff table_okD(3)[OF T] live by (metis distinct.simps(2) less_irrefl)
  have "entry_ok ck' k p" if k: "k < size_clauses ck" "p \<in> set (?tab ! k)" for k p
  proof (cases "p = ?p")
    case True
    then have "k = h" using k len live in_concat_nth[of p "clauses ck"] by (fastforce simp: nth_list_update)
    then show ?thesis using True c h(2) by (simp add: entry_ok_def ck'_def)
  next
    case False
    then have "p \<in> set (clauses ck ! k)" using k len by (cases "k = h") auto
    then show ?thesis using table_okD(2)[OF T k(1)] False by (simp add: entry_ok_def ck'_def)
  qed
  moreover have "length (concat ?tab) = Suc (length (concat (clauses ck)))" using ms by (metis size_add_mset size_mset)
  ultimately show "table_ok ck'" using T d live c
    by (auto simp: table_ok_def ck'_def less_Suc_eq simp del: length_concat set_concat concat.simps) 
  have "image_mset (\<lambda>p. mset (c_lits (the (((store ck)(?p \<mapsto> c)) p)))) (mset (concat (clauses ck))) = database ck"
    unfolding database_def by (rule image_mset_cong) (use live in auto)
  then show "database ck' = add_mset (mset (c_lits c)) (database ck)" using ms by (simp add: database_def ck'_def)
qed

lemma insert_clause_ok:
  assumes R: "ready F ck" and cl: "clean ck" and s: "sort_lits (simplified ck) = simplified ck" "2 \<le> length (simplified ck)"
    "entails F [] (simplified ck)"
  shows "\<exists>ck'. insert_clause ck = Some ck' \<and> ready F ck' \<and> database ck' = add_mset (mset (simplified ck)) (database ck)"
proof -
  obtain ck1 where ck1: "(if num_clauses ck = size_clauses ck then enlarge_clauses ck else Some ck) = Some ck1"
    "table_ok ck1" "size_clauses ck1 > 0" "database ck1 = database ck"
    "ck1 = ck\<lparr>clauses := clauses ck1, size_clauses := size_clauses ck1\<rparr>"
  proof (cases "num_clauses ck = size_clauses ck")
    case True
    then show ?thesis using enlarge_clauses_ok[OF readyD(2)[OF R]] that by auto
  next
    case False
    have "size_clauses ck > 0"
    proof (rule ccontr)
      assume "\<not> size_clauses ck > 0"
      then show False using False table_okD(1,7)[OF readyD(2)[OF R]] by simp
    qed
    then show ?thesis using False that[of ck] readyD(2)[OF R] by simp
  qed
  have R1: "ready F ck1" unfolding ready_def
  proof (intro conjI)
    show "core F [] ck1" using readyD(1)[OF R] by (subst ck1(5)) (simp add: core_def)
    show "size_vars ck1 \<le> INT_MAX" using readyD(3)[OF R] by (subst ck1(5)) simp
    show "\<not> inconsistent ck1" using readyD(4)[OF R] by (subst ck1(5)) simp
    show "next_to_propagate ck1 = length (trail ck1)" using readyD(5)[OF R] by (subst (1 2) ck1(5)) simp
  qed (rule ck1(2))
  have same: "simplified ck1 = simplified ck" "size_vars ck1 = size_vars ck" "trail ck1 = trail ck"
    by (subst ck1(5), simp)+
  obtain hash where hash: "hash_from (nonces ck1) 0 0 (simplified ck1) = Some hash"
    using hash_from_ok table_okD(10)[OF ck1(2)] by fastforce
  obtain h where h: "h < size_clauses ck1" "reduce_hash hash (size_clauses ck1) = Some h"
    using reduce_hash_ok[OF ck1(3)] by blast
  let ?ck = "ck1\<lparr>last_hash := hash\<rparr>"
  have fr: "store ck1 (fresh ck1) = None" using table_okD(5)[OF ck1(2), of "fresh ck1"] by fastforce
  have C: "core F [] ?ck" using readyD(1)[OF R1] by (simp add: core_def)
  obtain wss lits where nc: "new_clause ?ck = Some (?ck\<lparr>store := (store ck1)(fresh ck1 \<mapsto>
        \<lparr>c_hash = hash, c_size = length (simplified ck1), c_lits = lits\<rparr>),
        fresh := Suc (fresh ck1), num_clauses := num_clauses ck1 + 1, watchers := wss\<rparr>, fresh ck1)"
      "mset lits = mset (simplified ck1)"
      "core F [] (?ck\<lparr>store := (store ck1)(fresh ck1 \<mapsto>
        \<lparr>c_hash = hash, c_size = length (simplified ck1), c_lits = lits\<rparr>), watchers := wss\<rparr>)"
    using new_clause_ok[OF C] fr cl s(2,3) same by (auto simp: clean_def)
  let ?c = "\<lparr>c_hash = hash, c_size = length (simplified ck1), c_lits = lits\<rparr>" and ?p = "fresh ck1"
  let ?tab = "(clauses ck1)[h := ?p # clauses ck1 ! h]"
  let ?ck2 = "ck1\<lparr>last_hash := hash, store := (store ck1)(?p \<mapsto> ?c), fresh := Suc ?p, num_clauses := num_clauses ck1 + 1,
    watchers := wss, clauses := ?tab\<rparr>"
  have len: "length (clauses ck1) = size_clauses ck1" by (rule table_okD(1)[OF ck1(2)])
  have ins: "insert_clause ck = Some ?ck2"
    unfolding insert_clause_def ck1(1) Option.bind.bind_lunit compute_hash_def hash using nc(1) h len by (simp add: hash)
  have "sort_lits lits = simplified ck1" using sort_lits_mset[OF nc(2)] s(1) same by simp
  then have "table_ok ?ck2" "database ?ck2 = add_mset (mset lits) (database ck1)"
    using table_insert[OF ck1(2) h, of ?c wss] hash s(2) same by fastforce+
  moreover have "core F [] ?ck2" using nc(3) by (simp add: core_def)
  ultimately show ?thesis using ins R1 nc(2) same ck1(4) by (simp add: ready_def)
qed

lemma entails_all_false:
  assumes "core F A ck" "entails F A ls" "\<forall>l \<in> set ls - set ks. lit_ok (size_vars ck) l \<and> vals ck l < 0"
  shows "entails F A ks"
  by (rule entails_cut[OF assms(2)]) (use assms core_false[OF assms(1)] in \<open>auto simp: lit_ok_def\<close>)

text \<open>Adding an entailed clause keeps everything entailed; only long clauses enter the table.\<close>

lemma add_clause_ok:
  assumes R: "ready F ck" and cl: "clean ck" and s: "sort_lits (simplified ck) = simplified ck" "entails F [] (simplified ck)"
  shows "\<exists>ck'. add_clause ck = Some ck' \<and> core F [] ck' \<and> table_ok ck' \<and> size_vars ck' \<le> INT_MAX \<and>
    (inconsistent ck' \<longrightarrow> entails F [] []) \<and> (\<not> inconsistent ck' \<longrightarrow> next_to_propagate ck' = length (trail ck')) \<and>
    (database ck' = database ck \<or> database ck' = add_mset (mset (simplified ck)) (database ck))"
proof -
  have C: "core F [] ck" and ok: "\<forall>l \<in> set (simplified ck). lit_ok (size_vars ck) l"
    using R cl by (auto simp: ready_def clean_def)
  from ok show ?thesis
  proof (cases rule: find_unit_ok)
    case 1
    then have "entails F [] []" by (intro entails_all_false[OF C s(2)]) (use ok in auto)
    then show ?thesis using 1 R
      by (auto simp: add_clause_def ready_def core_def table_ok_def entry_ok_def database_def)
  next
    case (2 u)
    have u: "lit_ok (size_vars ck) u" "u \<noteq> 0" "u \<notin> set (trail ck)" using 2(2) cl by (auto simp: clean_def lit_ok_def)
    have v0: "vals ck u = 0" using 2(3) u(3) assign_okD(1)[OF coreD(2)[OF C], of u] by linarith
    have "entails F [] [u]" by (rule entails_all_false[OF C s(2)]) (use 2(4) ok in auto)
    from assign_core[OF C u(1) v0 this] obtain ck1 where ck1: "ck_assign ck u = Some ck1" "core F [] ck1" "frame ck ck1" by blast
    from ck_propagate_ok[OF ck1(2)] obtain res ck2 where ck2: "ck_propagate ck1 = Some (res, ck2)" "core F [] ck2" "pframe ck1 ck2"
      "if res then next_to_propagate ck2 = length (trail ck2) else entails F [] []" by blast
    have pf: "pframe ck ck2" by (rule pframe_trans[OF frame_pframe[OF ck1(3)] ck2(3)])
    then have same: "size_vars ck2 = size_vars ck" "inconsistent ck2 = inconsistent ck" by (auto simp: pframe_def frame_def)
    note T = table_ok_pframe[OF readyD(2)[OF R] pf]
    have "add_clause ck = Some (if res then ck2 else ck2\<lparr>inconsistent := True\<rparr>)"
      using 2(1) u(2) ck1(1) ck2(1) by (simp add: add_clause_def)
    then show ?thesis using ck2(2,4) T same R
      by (auto simp: ready_def core_def table_ok_def entry_ok_def database_def)
  next
    case 3
    from insert_clause_ok[OF R cl s(1) 3(2) s(2)] 3(1) show ?thesis by (auto simp: add_clause_def ready_def)
  qed
qed


section \<open>Finding a clause\<close>

lemma store_okD:
  assumes "store_ok sz st" "st p = Some c"
  shows "2 \<le> length (c_lits c)" "distinct (c_lits c)" "l \<in> set (c_lits c) \<Longrightarrow> lit_ok sz l"
    "c_size c = 0 \<or> c_size c = length (c_lits c)"
  using assms unfolding store_ok_def by blast+

lemma set_marks_ok:
  assumes "\<forall>l \<in> set ls. l2u l < length (marks ck)"
  shows "mfold (\<lambda>s. set_mark s b) ck ls =
    Some (ck\<lparr>marks := map (\<lambda>i. if i \<in> l2u ` set ls then b else marks ck ! i) [0..<length (marks ck)]\<rparr>)"
  using assms
proof (induction ls arbitrary: ck)
  case Nil
  have "map (\<lambda>i. marks ck ! i) [0..<length (marks ck)] = marks ck" by (rule map_nth)
  then show ?case by simp
next
  case (Cons l ls)
  let ?ck = "ck\<lparr>marks := (marks ck)[l2u l := b]\<rparr>"
  have s: "set_mark ck b l = Some ?ck" using Cons.prems by (simp add: set_mark_def)
  have "map (\<lambda>i. if i \<in> l2u ` set ls then b else marks ?ck ! i) [0..<length (marks ?ck)] =
      map (\<lambda>i. if i \<in> l2u ` set (l # ls) then b else marks ck ! i) [0..<length (marks ck)]"
    by (rule nth_equalityI) (auto simp: nth_list_update)
  then show ?case using s Cons.IH[of ?ck] Cons.prems by simp
qed

lemma all_marked_ok:
  "\<forall>l \<in> set ls. l2u l < length (marks ck) \<Longrightarrow> all_marked ck ls = Some (\<forall>l \<in> set ls. marks ck ! l2u l)"
  by (induction ls) auto

definition matches :: "checker \<Rightarrow> 64 word \<Rightarrow> int list \<Rightarrow> nat \<Rightarrow> bool" where
  "matches ck hash ls p \<longleftrightarrow> (\<exists>c. store ck p = Some c \<and> c_hash c = hash \<and> c_size c = length ls \<and> set (c_lits c) \<subseteq> set ls)"

lemma find_in_chain_ok:
  assumes "\<forall>p \<in> set ps. \<exists>c. store ck p = Some c \<and> c_size c = length (c_lits c) \<and> (\<forall>l \<in> set (c_lits c). l \<noteq> 0 \<and> l2u l < length (marks ck))"
    "\<And>i. i < length (marks ck) \<Longrightarrow> marks ck ! i \<longleftrightarrow> i \<in> l2u ` set ls" "\<forall>l \<in> set ls. l \<noteq> 0"
  shows "\<exists>r. find_in_chain ck hash (length ls) ps = Some r \<and>
    (case r of None \<Rightarrow> \<forall>p \<in> set ps. \<not> matches ck hash ls p | Some p \<Rightarrow> p \<in> set ps \<and> matches ck hash ls p)"
  using assms(1)
proof (induction ps)
  case (Cons p ps)
  from Cons.prems obtain c where c: "store ck p = Some c" "c_size c = length (c_lits c)"
    "\<forall>l \<in> set (c_lits c). l \<noteq> 0 \<and> l2u l < length (marks ck)" by auto
  have "(\<forall>l \<in> set (c_lits c). marks ck ! l2u l) \<longleftrightarrow> set (c_lits c) \<subseteq> set ls"
    using c(3) assms(2,3) l2u_inj by (fastforce simp: image_iff)
  then have "all_marked ck (c_lits c) = Some (set (c_lits c) \<subseteq> set ls)" using all_marked_ok[of "c_lits c" ck] c(3) by simp
  then have e: "find_in_chain ck hash (length ls) (p # ps) =
      (if matches ck hash ls p then Some (Some p) else find_in_chain ck hash (length ls) ps)"
    using c(1,2) by (auto simp: matches_def)
  from Cons obtain r where r: "find_in_chain ck hash (length ls) ps = Some r"
    "case r of None \<Rightarrow> \<forall>p \<in> set ps. \<not> matches ck hash ls p | Some p \<Rightarrow> p \<in> set ps \<and> matches ck hash ls p" by auto
  show ?case
  proof (cases "matches ck hash ls p")
    case True
    then show ?thesis unfolding e by simp
  next
    case False
    then show ?thesis unfolding e using r by (auto split: option.splits)
  qed
qed simp

lemma mset_eq_subset:
  assumes "distinct as" "distinct bs" "length as = length bs" "set as \<subseteq> set bs"
  shows "mset as = mset bs"
proof -
  have "set as = set bs"
    using card_subset_eq[OF _ assms(4)] distinct_card[OF assms(1)] distinct_card[OF assms(2)] assms(3) by simp
  then show ?thesis using set_eq_iff_mset_eq_distinct[OF assms(1,2)] by simp
qed

lemma find_clause_ok:
  assumes R: "ready F ck" and cl: "clean ck" and s: "sort_lits (simplified ck) = simplified ck" and sz: "0 < size_clauses ck"
  shows "\<exists>hash h r. find_clause ck = Some (ck\<lparr>last_hash := hash\<rparr>, h, r) \<and> h < size_clauses ck \<and>
    (case r of None \<Rightarrow> mset (simplified ck) \<notin># database ck
     | Some p \<Rightarrow> p \<in> set (clauses ck ! h) \<and> mset (c_lits (the (store ck p))) = mset (simplified ck))"
proof -
  note T = readyD(2)[OF R] and C = readyD(1)[OF R]
  let ?ls = "simplified ck"
  obtain hash where hash: "hash_from (nonces ck) 0 0 ?ls = Some hash" using hash_from_ok table_okD(10)[OF T] by fastforce
  obtain h where h: "h < size_clauses ck" "reduce_hash hash (size_clauses ck) = Some h" using reduce_hash_ok[OF sz] by blast
  have len: "length (marks ck) = nat (2 * size_vars ck)" "length (clauses ck) = size_clauses ck"
    using table_okD(9)[OF T] table_okD(1)[OF T] by simp_all
  have ls: "\<forall>l \<in> set ?ls. l \<noteq> 0 \<and> l2u l < length (marks ck)" using cl l2u_less len by (auto simp: clean_def lit_ok_def)
  let ?ck = "ck\<lparr>last_hash := hash\<rparr>"
  let ?ck1 = "?ck\<lparr>marks := map (\<lambda>i. if i \<in> l2u ` set ?ls then True else marks ck ! i) [0..<length (marks ck)]\<rparr>"
  have m1: "mfold (\<lambda>s. set_mark s True) ?ck ?ls = Some ?ck1" using set_marks_ok[of ?ls ?ck True] ls by simp
  have "map (\<lambda>i. if i \<in> l2u ` set ?ls then False else marks ?ck1 ! i) [0..<length (marks ?ck1)] = marks ck"
    using table_okD(9)[OF T] by (intro nth_equalityI) auto
  then have m2: "mfold (\<lambda>s. set_mark s False) ?ck1 ?ls = Some ?ck" using set_marks_ok[of ?ls ?ck1 False] ls by simp
  have ent: "\<exists>c. store ck p = Some c \<and> c_size c = length (c_lits c) \<and> distinct (c_lits c) \<and>
      (\<forall>l \<in> set (c_lits c). l \<noteq> 0 \<and> l2u l < length (marks ck)) \<and> reduce_hash (c_hash c) (size_clauses ck) = Some k \<and>
      hash_from (nonces ck) 0 0 (sort_lits (c_lits c)) = Some (c_hash c)"
    if p: "k < size_clauses ck" "p \<in> set (clauses ck ! k)" for k p
  proof -
    obtain c where c: "store ck p = Some c" "c_size c \<noteq> 0" "reduce_hash (c_hash c) (size_clauses ck) = Some k"
      using table_okD(2)[OF T p] by (auto simp: entry_ok_def)
    moreover have "distinct (c_lits c) \<and> (\<forall>l \<in> set (c_lits c). lit_ok (size_vars ck) l) \<and> c_size c = length (c_lits c)"
      using store_okD[OF coreD(3)[OF C] c(1)] c(2) by auto
    ultimately show ?thesis using table_okD(6)[OF T c(1)] l2u_less[of "size_vars ck"] len(1) by (auto simp: lit_ok_def)
  qed
  obtain r where r: "find_in_chain ?ck1 hash (length ?ls) (clauses ck ! h) = Some r"
    "case r of None \<Rightarrow> \<forall>p \<in> set (clauses ck ! h). \<not> matches ?ck1 hash ?ls p | Some p \<Rightarrow> p \<in> set (clauses ck ! h) \<and> matches ?ck1 hash ?ls p"
  proof -
    have "\<exists>r. find_in_chain ?ck1 hash (length ?ls) (clauses ck ! h) = Some r \<and>
        (case r of None \<Rightarrow> \<forall>p \<in> set (clauses ck ! h). \<not> matches ?ck1 hash ?ls p | Some p \<Rightarrow> p \<in> set (clauses ck ! h) \<and> matches ?ck1 hash ?ls p)"
    proof (rule find_in_chain_ok)
      show "\<forall>p \<in> set (clauses ck ! h). \<exists>c. store ?ck1 p = Some c \<and> c_size c = length (c_lits c) \<and>
          (\<forall>l \<in> set (c_lits c). l \<noteq> 0 \<and> l2u l < length (marks ?ck1))"
      proof
        fix p assume "p \<in> set (clauses ck ! h)"
        from ent[OF h(1) this] obtain c where "store ck p = Some c" "c_size c = length (c_lits c)"
          "\<forall>l \<in> set (c_lits c). l \<noteq> 0 \<and> l2u l < length (marks ck)" by blast
        then show "\<exists>c. store ?ck1 p = Some c \<and> c_size c = length (c_lits c) \<and>
          (\<forall>l \<in> set (c_lits c). l \<noteq> 0 \<and> l2u l < length (marks ?ck1))" by simp
      qed
    qed (use ls table_okD(9)[OF T] in auto)
    then show thesis using that by blast
  qed
  have mt: "matches ?ck1 hash ?ls p \<longleftrightarrow> mset (c_lits (the (store ck p))) = mset ?ls" if p: "p \<in> set (clauses ck ! h)" for p
  proof -
    from ent[OF h(1) p] obtain c where c: "store ck p = Some c" "c_size c = length (c_lits c)" "distinct (c_lits c)"
      "hash_from (nonces ck) 0 0 (sort_lits (c_lits c)) = Some (c_hash c)" by blast
    have "c_hash c = hash \<and> length (c_lits c) = length ?ls \<and> set (c_lits c) \<subseteq> set ?ls" if m: "mset (c_lits c) = mset ?ls"
      using sort_lits_mset[OF m] s c(4) hash mset_eq_length[OF m] mset_eq_setD[OF m] by simp
    moreover have "mset (c_lits c) = mset ?ls" if "length (c_lits c) = length ?ls" "set (c_lits c) \<subseteq> set ?ls"
      by (rule mset_eq_subset[OF c(3) _ that]) (use cl in \<open>simp add: clean_def\<close>)
    ultimately show ?thesis using c(1,2) by (auto simp: matches_def)
  qed
  have "mset ?ls \<notin># database ck" if "\<forall>p \<in> set (clauses ck ! h). \<not> matches ?ck1 hash ?ls p"
  proof
    assume "mset ?ls \<in># database ck"
    then obtain p k where p: "k < size_clauses ck" "p \<in> set (clauses ck ! k)" "mset (c_lits (the (store ck p))) = mset ?ls"
      using in_concat_nth[of _ "clauses ck"] len(2) by (auto simp: database_def simp del: set_concat)
    from ent[OF p(1,2)] obtain c where c: "store ck p = Some c" "reduce_hash (c_hash c) (size_clauses ck) = Some k"
      "hash_from (nonces ck) 0 0 (sort_lits (c_lits c)) = Some (c_hash c)" by blast
    have "c_hash c = hash" using sort_lits_mset[OF p(3)] s c hash by simp
    then have "k = h" using c(2) h(2) by simp
    then show False using that mt p by auto
  qed
  moreover have "find_clause ck = Some (?ck, h, r)"
  proof -
    define ck1 where "ck1 = ?ck1"
    have "clauses ck1 = clauses ck" "simplified ck1 = ?ls" "size_clauses ?ck = size_clauses ck" "simplified ?ck = ?ls"
      by (simp_all add: ck1_def)
    moreover have "vec_at (clauses ck) h = Some (clauses ck ! h)" using h len(2) by simp
    moreover have "compute_hash ck = Some (?ck, hash)" using hash by (simp add: compute_hash_def)
    ultimately show ?thesis
      by (simp only: find_clause_def Option.bind.bind_lunit prod.case h(2) m1[folded ck1_def] m2[folded ck1_def] r(1)[folded ck1_def])
  qed
  moreover have "p \<in> set (clauses ck ! h) \<and> mset (c_lits (the (store ck p))) = mset ?ls" if "r = Some p" for p
    using r(2) mt[of p] that by simp
  moreover have "\<forall>p \<in> set (clauses ck ! h). \<not> matches ?ck1 hash ?ls p" if "r = None"
    using r(2) that by simp
  ultimately show ?thesis using h(1)
    by (intro exI[of _ hash] exI[of _ h] exI[of _ r] conjI) (simp_all split: option.split)
qed


section \<open>Garbage collection\<close>

lemma table_entry:
  assumes "table_ok ck" "p \<in> set (concat (clauses ck))"
  shows "\<exists>c. store ck p = Some c \<and> c_size c \<noteq> 0"
  using assms(2) table_okD(1,2)[OF assms(1)] unfolding in_concat_nth by (fastforce simp: entry_ok_def)

text \<open>Marking the clauses \<open>gs\<close> as garbage.\<close>

definition kill :: "nat list \<Rightarrow> (nat \<rightharpoonup> checker_clause) \<Rightarrow> (nat \<rightharpoonup> checker_clause)" where
  "kill gs st p = (if p \<in> set gs then map_option (\<lambda>c. c\<lparr>c_size := 0\<rparr>) (st p) else st p)"

lemma kill_Nil [simp]: "kill [] st = st"
  by (simp add: kill_def fun_eq_iff)

lemma kill_kill: "kill gs (kill hs st) = kill (gs @ hs) st"
  by (auto simp: kill_def fun_eq_iff option.map_comp o_def)

lemma kill_one: "st p = Some c \<Longrightarrow> st(p \<mapsto> c\<lparr>c_size := 0\<rparr>) = kill [p] st"
  by (auto simp: kill_def fun_eq_iff)

definition trashed :: "checker \<Rightarrow> nat list \<Rightarrow> checker" where
  "trashed ck gs = ck\<lparr>store := kill gs (store ck), garbage := gs @ garbage ck,
     num_garbage := num_garbage ck + length gs, num_clauses := num_clauses ck - length gs\<rparr>"

lemma trashed_Nil [simp]: "trashed ck [] = ck"
  by (simp add: trashed_def)

lemma trashed_trashed: "trashed (trashed ck gs) hs = trashed ck (hs @ gs)"
  by (simp add: trashed_def kill_kill)

lemma make_garbage_ok: "store ck p = Some c \<Longrightarrow> make_garbage ck p = Some (trashed ck [p])"
  by (simp add: make_garbage_def trashed_def kill_one)

lemma core_trashed: "core F A ck \<Longrightarrow> core F A (trashed ck gs)"
proof -
  assume C: "core F A ck"
  have k: "kill gs (store ck) p = Some c' \<Longrightarrow>
      \<exists>c. store ck p = Some c \<and> c_lits c' = c_lits c \<and> (c_size c' = 0 \<or> c_size c' = c_size c)" for p c'
    by (auto simp: kill_def split: if_splits)
  have "watch_ok (kill gs (store ck)) l w" if "watch_ok (store ck) l w" for l w
    using that by (auto simp: watch_ok_def kill_def)
  then have "watches_ok (size_vars ck) (kill gs (store ck)) (watchers ck)"
    using coreD(4)[OF C] by (auto simp: watches_ok_def watchlist_ok_def)
  moreover have "store_ok (size_vars ck) (kill gs (store ck))"
    unfolding store_ok_def using store_okD[OF coreD(3)[OF C]] k by metis
  moreover have "store_implied F (kill gs (store ck))"
    unfolding store_implied_def using coreD(5)[OF C] k by (metis store_implied_def)
  ultimately show ?thesis using C by (simp add: core_def trashed_def)
qed

lemma any_true_ok:
  "\<forall>l \<in> set ls. lit_ok (size_vars ck) l \<Longrightarrow> any_true ck ls = Some (\<exists>l \<in> set ls. vals ck l > 0)"
  by (induction ls) (auto simp: ck_val_ok)

lemma sweep_chain_ok:
  assumes "core F A ck" "\<forall>p \<in> set ps. store ck p \<noteq> None" "distinct ps"
  shows "\<exists>gs qs. sweep_chain ck ps = Some (trashed ck gs, qs) \<and> mset ps = mset qs + mset gs \<and> set qs \<subseteq> set ps"
  using assms
proof (induction ps arbitrary: ck)
  case (Cons p ps)
  obtain c where c: "store ck p = Some c" using Cons.prems(2) by auto
  have "\<forall>l \<in> set (take (c_size c) (c_lits c)). lit_ok (size_vars ck) l"
    using store_okD(3)[OF coreD(3)[OF Cons.prems(1)] c] by (auto dest: in_set_takeD)
  then obtain s where s: "clause_satisfied ck p = Some s" using any_true_ok c by (auto simp: clause_satisfied_def)
  show ?case
  proof (cases s)
    case True
    have "\<forall>q \<in> set ps. store (trashed ck [p]) q \<noteq> None" using Cons.prems(2) by (auto simp: trashed_def kill_def)
    with Cons.IH[OF core_trashed[OF Cons.prems(1)], of "[p]"] Cons.prems(3) obtain gs qs where
      "sweep_chain (trashed ck [p]) ps = Some (trashed (trashed ck [p]) gs, qs)" "mset ps = mset qs + mset gs" "set qs \<subseteq> set ps" by auto
    then show ?thesis using s True make_garbage_ok[OF c]
      by (intro exI[of _ "gs @ [p]"] exI[of _ qs]) (auto simp: trashed_trashed)
  next
    case False
    from Cons.IH[OF Cons.prems(1)] Cons.prems(2,3) obtain gs qs where
      "sweep_chain ck ps = Some (trashed ck gs, qs)" "mset ps = mset qs + mset gs" "set qs \<subseteq> set ps" by auto
    then show ?thesis using s False by (intro exI[of _ gs] exI[of _ "p # qs"]) auto
  qed
qed (auto intro!: exI[of _ "[]"])

lemma sweep_chains_ok:
  assumes "core F A ck" "\<forall>p \<in> set (concat pss). store ck p \<noteq> None" "distinct (concat pss)"
  shows "\<exists>gs qss. sweep_chains ck pss = Some (trashed ck gs, qss) \<and> mset (concat pss) = mset (concat qss) + mset gs \<and>
    length qss = length pss \<and> (\<forall>i < length pss. set (qss ! i) \<subseteq> set (pss ! i))"
  using assms
proof (induction pss arbitrary: ck)
  case (Cons ps pss)
  from sweep_chain_ok[OF Cons.prems(1), of ps] Cons.prems(2,3) obtain gs qs where
    1: "sweep_chain ck ps = Some (trashed ck gs, qs)" "mset ps = mset qs + mset gs" "set qs \<subseteq> set ps" by auto
  have "\<forall>q \<in> set (concat pss). store (trashed ck gs) q \<noteq> None" using Cons.prems(2) by (auto simp: trashed_def kill_def)
  with Cons.IH[OF core_trashed[OF Cons.prems(1)], of gs] Cons.prems(3) obtain hs qss where
    2: "sweep_chains (trashed ck gs) pss = Some (trashed (trashed ck gs) hs, qss)" "mset (concat pss) = mset (concat qss) + mset hs"
    "length qss = length pss" "\<forall>i < length pss. set (qss ! i) \<subseteq> set (pss ! i)" by auto
  have "\<forall>i < length (ps # pss). set ((qs # qss) ! i) \<subseteq> set ((ps # pss) ! i)"
    using 1(3) 2(4) by (simp add: All_less_Suc2)
  then show ?case using 1 2
    by (intro exI[of _ "hs @ gs"] exI[of _ "qs # qss"]) (simp add: trashed_trashed)
qed (auto intro!: exI[of _ "[]"])

lemma live_watches_ok:
  "\<forall>w \<in> set ws. store ck (wclause w) \<noteq> None \<Longrightarrow>
   live_watches ck ws = Some (filter (\<lambda>w. c_size (the (store ck (wclause w))) \<noteq> 0) ws)"
  by (induction ws) auto

definition all_live :: "(nat \<rightharpoonup> checker_clause) \<Rightarrow> checker_watch list \<Rightarrow> bool" where
  "all_live st ws \<longleftrightarrow> (\<forall>w \<in> set ws. c_size (the (st (wclause w))) \<noteq> 0)"

lemma flush_watcher_ok:
  assumes "watches_ok (size_vars ck) (store ck) (watchers ck)" "lit_ok (size_vars ck) l"
  shows "\<exists>ws. flush_watcher ck l = Some (ck\<lparr>watchers := (watchers ck)[l2u l := ws]\<rparr>) \<and> all_live (store ck) ws \<and>
    watches_ok (size_vars ck) (store ck) ((watchers ck)[l2u l := ws])"
proof -
  let ?ws = "filter (\<lambda>w. c_size (the (store ck (wclause w))) \<noteq> 0) (watchers ck ! l2u l)"
  have o: "watchlist_ok (store ck) l (watchers ck ! l2u l)" by (rule watches_okD(2)[OF assms])
  then have "live_watches ck (watchers ck ! l2u l) = Some ?ws"
    by (intro live_watches_ok) (auto simp: watchlist_ok_def watch_ok_def)
  moreover have "watchlist_ok (store ck) l ?ws" using o by (auto simp: watchlist_ok_def distinct_map_filter)
  ultimately show ?thesis using assms watches_ok_update[OF assms(1)] watches_okD(1)[OF assms(1)] l2u_less[OF assms(2)]
    by (intro exI[of _ ?ws]) (auto simp: flush_watcher_def watcher_def set_watcher_def lit_ok_def all_live_def)
qed

lemma flush_all_ok:
  assumes "watches_ok (size_vars ck) (store ck) (watchers ck)" "\<forall>l \<in> set ls. \<bar>l\<bar> < size_vars ck"
    "\<forall>l \<in> D. l \<noteq> 0 \<and> all_live (store ck) (watchers ck ! l2u l)"
  shows "\<exists>wss. mfold flush_watcher ck ls = Some (ck\<lparr>watchers := wss\<rparr>) \<and> watches_ok (size_vars ck) (store ck) wss \<and>
    (\<forall>l \<in> D \<union> (set ls - {0}). all_live (store ck) (wss ! l2u l))"
  using assms
proof (induction ls arbitrary: ck D)
  case (Cons l ls)
  show ?case
  proof (cases "l = 0")
    case True
    then show ?thesis using Cons by (auto simp: flush_watcher_def)
  next
    case False
    then have ok: "lit_ok (size_vars ck) l" using Cons.prems(2) by (simp add: lit_ok_def)
    from flush_watcher_ok[OF Cons.prems(1) ok] obtain ws where ws: "flush_watcher ck l = Some (ck\<lparr>watchers := (watchers ck)[l2u l := ws]\<rparr>)"
      "all_live (store ck) ws" "watches_ok (size_vars ck) (store ck) ((watchers ck)[l2u l := ws])" by blast
    let ?ck = "ck\<lparr>watchers := (watchers ck)[l2u l := ws]\<rparr>"
    have len: "l2u l < length (watchers ck)" using watches_okD(1)[OF Cons.prems(1)] l2u_less[OF ok] by simp
    have "all_live (store ck) ((watchers ck)[l2u l := ws] ! l2u k)" if "k \<in> insert l D" for k
      using that Cons.prems(3) ws(2) len False l2u_inj[of k l] by (cases "k = l") auto
    then have "\<forall>k \<in> insert l D. k \<noteq> 0 \<and> all_live (store ?ck) (watchers ?ck ! l2u k)" using Cons.prems(3) False by auto
    from Cons.IH[OF _ _ this] ws Cons.prems(2) False show ?thesis by auto
  qed
qed (auto intro!: exI[of _ "watchers _"])

lemma free_all_ok:
  assumes "\<forall>p \<in> set gs. \<exists>c. store ck p = Some c \<and> c_size c = 0" "distinct gs"
  shows "mfold free_clause ck gs = Some (ck\<lparr>store := store ck |` (- set gs), num_garbage := num_garbage ck - length gs\<rparr>)"
  using assms
proof (induction gs arbitrary: ck)
  case (Cons p gs)
  let ?ck = "ck\<lparr>num_garbage := num_garbage ck - 1, store := (store ck)(p := None)\<rparr>"
  have "free_clause ck p = Some ?ck" using Cons.prems(1) by (auto simp: free_clause_def)
  moreover have "\<forall>q \<in> set gs. \<exists>c. store ?ck q = Some c \<and> c_size c = 0" using Cons.prems by auto
  moreover have "(\<lambda>a. if a = p then None else store ck a) |` (- set gs) = store ck |` (- insert p (set gs))"
    by (auto simp: fun_eq_iff restrict_map_def)
  ultimately show ?case using Cons.IH[of ?ck] Cons.prems(2) by simp
qed (simp add: restrict_map_def)

text \<open>The table without the clauses \<open>gs\<close>, which are now garbage.\<close>

lemma table_trashed:
  assumes T: "table_ok ck" and tab: "mset (concat (clauses ck)) = mset (concat tab) + mset gs" "length tab = length (clauses ck)"
    "\<forall>i < length tab. set (tab ! i) \<subseteq> set (clauses ck ! i)"
  shows "table_ok (trashed ck gs\<lparr>clauses := tab\<rparr>)"
    "database ck = database (trashed ck gs\<lparr>clauses := tab\<rparr>) + image_mset (\<lambda>p. mset (c_lits (the (store ck p)))) (mset gs)"
proof -
  let ?ck = "trashed ck gs\<lparr>clauses := tab\<rparr>"
  have ms: "mset (concat tab @ gs @ garbage ck) = mset (concat (clauses ck) @ garbage ck)" using tab(1) by simp
  then have d: "distinct (concat tab @ gs @ garbage ck)" using table_okD(3)[OF T] mset_eq_imp_distinct_iff by blast
  have live: "entry_ok ?ck h p" if h: "h < size_clauses ck" "p \<in> set (tab ! h)" for h p
  proof -
    have len: "h < length tab" using h(1) table_okD(1)[OF T] tab(2) by simp
    then have "p \<in> set (clauses ck ! h)" using tab(3) h(2) by blast
    moreover have "p \<notin> set gs" using d h(2) len in_concat_nth[of p tab] by auto
    ultimately show ?thesis using table_okD(2)[OF T h(1)] by (fastforce simp: entry_ok_def trashed_def kill_def)
  qed
  have gs: "\<exists>c. kill gs (store ck) p = Some c \<and> c_size c = 0" if p: "p \<in> set gs \<union> set (garbage ck)" for p
  proof (cases "p \<in> set gs")
    case True
    then have "p \<in> set (concat (clauses ck))" using tab(1) by (metis set_mset_mset set_mset_union UnCI)
    then obtain c where "store ck p = Some c" using table_entry[OF T] by blast
    then show ?thesis using True by (simp add: kill_def)
  next
    case False
    then show ?thesis using p table_okD(4)[OF T, of p] by (simp add: kill_def)
  qed
  have st: "p < fresh ck \<and> hash_from (nonces ck) 0 0 (sort_lits (c_lits c)) = Some (c_hash c)" if "kill gs (store ck) p = Some c" for p c
    using that table_okD(5,6)[OF T, of p] by (auto simp: kill_def split: if_splits)
  have "length (concat (clauses ck)) = length (concat tab) + length gs" using tab(1) by (metis size_mset size_union)
  then show "table_ok ?ck" using T d live gs st tab(2)
    by (auto simp: table_ok_def trashed_def simp del: length_concat set_concat)
  have "mset (c_lits (the (kill gs (store ck) p))) = mset (c_lits (the (store ck p)))" if "p \<in> set (concat tab)" for p
    using that d by (auto simp: kill_def)
  then have "database ?ck = image_mset (\<lambda>p. mset (c_lits (the (store ck p)))) (mset (concat tab))"
    unfolding database_def by (auto simp: trashed_def intro!: image_mset_cong simp del: set_concat)
  then show "database ck = database ?ck + image_mset (\<lambda>p. mset (c_lits (the (store ck p)))) (mset gs)"
    using tab(1) by (simp add: database_def)
qed

lemma watches_ok_freed:
  assumes W: "watches_ok sz st wss" and S: "store_ok sz st" and live: "\<forall>l. lit_ok sz l \<longrightarrow> all_live st (wss ! l2u l)"
    and gs: "\<forall>p \<in> set gs. \<exists>c. st p = Some c \<and> c_size c = 0"
  shows "watches_ok sz (st |` (- set gs)) wss"
proof -
  have "watch_ok (st |` (- set gs)) l w" if w: "l \<noteq> 0" "l2u l < length wss" "w \<in> set (wss ! l2u l)" for l w
  proof -
    have "watch_ok st l w" using watches_okD(3)[OF W w(1,2)] w(3) by (simp add: watchlist_ok_def)
    then obtain c where c: "st (wclause w) = Some c" "wsize w = length (c_lits c)" "l = c_lits c ! 0 \<or> l = c_lits c ! 1"
      "blit w \<in> set (c_lits c)" "blit w \<noteq> l" by (auto simp: watch_ok_def)
    have "l \<in> set (c_lits c)" using c(3) store_okD(1)[OF S c(1)] by (auto intro!: nth_mem)
    then have "lit_ok sz l" by (rule store_okD(3)[OF S c(1)])
    then have "c_size (the (st (wclause w))) \<noteq> 0" using live w(3) unfolding all_live_def by blast
    then have "c_size c \<noteq> 0" using c(1) by simp
    then have "wclause w \<notin> set gs" using gs c(1) by auto
    then show ?thesis using c by (auto simp: watch_ok_def)
  qed
  then show ?thesis using W by (simp add: watches_ok_def watchlist_ok_def)
qed

lemma table_freed:
  fixes wss :: "checker_watch list list"
  assumes T: "table_ok ck"
  defines "ck' \<equiv> ck\<lparr>watchers := wss, store := store ck |` (- set (garbage ck)), num_garbage := 0, garbage := []\<rparr>"
  shows "table_ok ck'" "database ck' = database ck"
proof -
  have keep: "store ck' p = store ck p" if "p \<in> set (concat (clauses ck))" for p
  proof -
    have "p \<notin> set (garbage ck)" using table_okD(3)[OF T] that by auto
    then show ?thesis by (simp add: ck'_def)
  qed
  have "entry_ok ck' h p" if "h < size_clauses ck" "p \<in> set (clauses ck ! h)" for h p
  proof -
    have "p \<in> set (concat (clauses ck))" using that table_okD(1)[OF T] in_concat_nth[of p "clauses ck"] by auto
    moreover have "size_clauses ck' = size_clauses ck" by (simp add: ck'_def)
    ultimately show ?thesis using keep table_okD(2)[OF T that] unfolding entry_ok_def by metis
  qed
  then show "table_ok ck'" using T
    by (auto simp: table_ok_def ck'_def restrict_map_def split: if_splits simp del: length_concat set_concat)
  show "database ck' = database ck" unfolding database_def using keep by (auto simp: ck'_def intro!: image_mset_cong simp del: set_concat)
qed

lemma collect_garbage_clauses_ok:
  assumes R: "ready F ck"
  shows "\<exists>ck'. collect_garbage_clauses ck = Some ck' \<and> ready F ck' \<and> database ck' \<subseteq># database ck"
proof -
  note T = readyD(2)[OF R] and C = readyD(1)[OF R]
  have "\<forall>p \<in> set (concat (clauses ck)). store ck p \<noteq> None" using table_entry[OF T] by fastforce
  then obtain gs tab where sw: "sweep_chains ck (clauses ck) = Some (trashed ck gs, tab)"
    "mset (concat (clauses ck)) = mset (concat tab) + mset gs" "length tab = length (clauses ck)"
    "\<forall>i < length (clauses ck). set (tab ! i) \<subseteq> set (clauses ck ! i)"
    using sweep_chains_ok[OF C, of "clauses ck"] table_okD(3)[OF T] by auto
  define ck2 where "ck2 = trashed ck gs\<lparr>clauses := tab\<rparr>"
  have C2: "core F [] ck2" using core_trashed[OF C, of gs] by (simp add: core_def ck2_def)
  have T2: "table_ok ck2" "database ck2 \<subseteq># database ck"
    using table_trashed[OF T sw(2,3)] sw(3,4) by (auto simp: ck2_def)
  have sz: "size_vars ck2 = size_vars ck" "size_vars ck2 \<le> INT_MAX" using readyD(3)[OF R] by (simp_all add: ck2_def trashed_def)
  obtain wss where fl: "mfold flush_watcher ck2 [- size_vars ck2 + 1..size_vars ck2 - 1] = Some (ck2\<lparr>watchers := wss\<rparr>)"
    "watches_ok (size_vars ck2) (store ck2) wss"
    "\<forall>l \<in> set [- size_vars ck2 + 1..size_vars ck2 - 1] - {0}. all_live (store ck2) (wss ! l2u l)"
  proof -
    have "\<forall>l \<in> set [- size_vars ck2 + 1..size_vars ck2 - 1]. \<bar>l\<bar> < size_vars ck2" by auto
    from flush_all_ok[OF coreD(4)[OF C2] this, of "{}"] that show thesis by auto
  qed
  have g: "\<forall>p \<in> set (garbage ck2). \<exists>c. store ck2 p = Some c \<and> c_size c = 0" "distinct (garbage ck2)"
    using table_okD(3,4)[OF T2(1)] by auto
  let ?st = "store ck2 |` (- set (garbage ck2))"
  let ?ck4 = "ck2\<lparr>watchers := wss, store := ?st, num_garbage := 0, garbage := []\<rparr>"
  have fr: "mfold free_clause (ck2\<lparr>watchers := wss\<rparr>) (garbage ck2) = Some (ck2\<lparr>watchers := wss, store := ?st, num_garbage := 0\<rparr>)"
    using free_all_ok[of "garbage ck2" "ck2\<lparr>watchers := wss\<rparr>"] g table_okD(8)[OF T2(1)] by simp
  have "collect_garbage_clauses ck = Some ?ck4"
    unfolding collect_garbage_clauses_def sw(1) Option.bind.bind_lunit prod.case ck2_def[symmetric] Let_def
    using sz(2) fl(1) fr by simp
  moreover have "watches_ok (size_vars ck2) ?st wss"
    by (rule watches_ok_freed[OF fl(2) coreD(3)[OF C2] _ g(1)]) (use fl(3) in \<open>simp add: lit_ok_def Ball_def abs_less_iff\<close>)
  then have "core F [] ?ck4" using C2
    by (auto simp: core_def store_ok_def store_implied_def restrict_map_def split: if_splits)
  moreover have "table_ok ?ck4" "database ?ck4 = database ck2" using table_freed[OF T2(1)] by blast+
  ultimately show ?thesis using R T2(2) by (auto simp: ready_def ck2_def trashed_def)
qed

section \<open>The observer events\<close>

text \<open>The formula of a run: its original clauses.\<close>

fun originals :: "observer_event list \<Rightarrow> int list list" where
  "originals [] = []"
| "originals (Original c # es) = c # originals es"
| "originals (Derived c # es) = originals es"
| "originals (Deleted c # es) = originals es"

fun event_clause :: "observer_event \<Rightarrow> int list" where
  "event_clause (Original c) = c"
| "event_clause (Derived c) = c"
| "event_clause (Deleted c) = c"

lemma core_mono: "core F [] ck \<Longrightarrow> set F \<subseteq> set G \<Longrightarrow> core G [] ck"
  unfolding core_def store_implied_def trail_implied_def using entails_mono by blast

lemma checker_ok_mono: "checker_ok F ck \<Longrightarrow> set F \<subseteq> set G \<Longrightarrow> checker_ok G ck"
  unfolding checker_ok_def using core_mono entails_mono by blast

lemma checker_ok_ready: "checker_ok F ck \<Longrightarrow> \<not> inconsistent ck \<Longrightarrow> ready F ck"
  by (simp add: checker_ok_def ready_def)

lemma ready_checker_ok: "ready F ck \<Longrightarrow> checker_ok F (clear_buffers ck)"
  by (simp add: checker_ok_def ready_def clear_buffers_def)

lemma import_and_simplify:
  assumes "checker_ok F ck" "\<not> inconsistent ck" "lits_in_range c"
  shows "\<exists>ck1 ck2 t. import_clause ck c = Some ck1 \<and> tautological ck1 = Some (ck2, t) \<and> ready F ck2 \<and> database ck2 = database ck \<and>
    (if t then entails F [] c else clean ck2 \<and> set (simplified ck2) = set c \<and> sort_lits (simplified ck2) = simplified ck2)"
proof -
  have b: "simplified ck = []" using assms(1) by (simp add: checker_ok_def)
  obtain ck1 where ck1: "import_clause ck c = Some ck1" "ready F ck1" "simplified ck1 = c"
    "\<forall>l \<in> set (simplified ck1). lit_ok (size_vars ck1) l" "database ck1 = database ck"
    using import_clause_ok[OF checker_ok_ready[OF assms(1,2)] assms(3)] b by auto
  from tautological_ok[OF ck1(4) coreD(2)[OF readyD(1)[OF ck1(2)]]] obtain t ls where
    t: "tautological ck1 = Some (ck1\<lparr>simplified := ls\<rparr>, t)"
    "if t then \<exists>l \<in> set c. l \<in> set (trail ck1) \<or> - l \<in> set c else clean (ck1\<lparr>simplified := ls\<rparr>) \<and> set ls = set c \<and> sort_lits ls = ls"
    using ck1(3) by auto
  have "entails F [] c" if "l \<in> set c" "l \<in> set (trail ck1) \<or> - l \<in> set c" for l
  proof (cases "- l \<in> set c")
    case True
    then show ?thesis using that(1) assms(3) unfolding entails_def clause_true_iff lits_in_range_def
      by (metis lit_true_uminus)
  next
    case False
    then have "entails F [] [l]" using that coreD(6)[OF readyD(1)[OF ck1(2)]] by (simp add: trail_implied_def)
    then show ?thesis by (rule entails_set) (use that in simp)
  qed
  then show ?thesis using ck1 t by (cases t) (auto simp: ready_def)
qed

lemma add_original_clause_ok:
  assumes "checker_ok F ck" "lits_in_range c"
  shows "\<exists>ck'. add_original_clause ck c = Some (Checked ck') \<and> checker_ok (c # F) ck' \<and>
    (database ck' = database ck \<or> database ck' = add_mset (mset_set (set c)) (database ck))"
proof (cases "inconsistent ck")
  case True
  then show ?thesis using checker_ok_mono[OF assms(1), of "c # F"] by (auto simp: add_original_clause_def)
next
  case False
  have ok: "checker_ok (c # F) ck" by (rule checker_ok_mono[OF assms(1)]) auto
  from import_and_simplify[OF ok False assms(2)] obtain ck1 ck2 t where i: "import_clause ck c = Some ck1"
    "tautological ck1 = Some (ck2, t)" "ready (c # F) ck2" "database ck2 = database ck"
    "if t then entails (c # F) [] c else clean ck2 \<and> set (simplified ck2) = set c \<and> sort_lits (simplified ck2) = simplified ck2" by blast
  show ?thesis
  proof (cases t)
    case True
    then show ?thesis using i(1,2,4) False ready_checker_ok[OF i(3)] by (simp add: add_original_clause_def clear_buffers_def)
  next
    case F: False
    have ms: "mset (simplified ck2) = mset_set (set c)" using F i(5) mset_set_set[of "simplified ck2"] by (simp add: clean_def)
    have "entails (c # F) [] (simplified ck2)" by (rule entails_set[OF entails_member[of c]]) (use F i(5) in auto)
    from add_clause_ok[OF i(3) _ _ this] F i(5) obtain ck3 where "add_clause ck2 = Some ck3" "core (c # F) [] ck3" "table_ok ck3"
      "size_vars ck3 \<le> INT_MAX" "inconsistent ck3 \<longrightarrow> entails (c # F) [] []"
      "\<not> inconsistent ck3 \<longrightarrow> next_to_propagate ck3 = length (trail ck3)"
      "database ck3 = database ck2 \<or> database ck3 = add_mset (mset (simplified ck2)) (database ck2)" by auto
    then show ?thesis using i(1,2,4) F False ms
      by (auto simp: add_original_clause_def clear_buffers_def checker_ok_def)
  qed
qed

lemma add_derived_clause_ok:
  assumes "checker_ok F ck" "lits_in_range c"
  shows "add_derived_clause ck c = Some Fatal \<or>
    (\<exists>ck'. add_derived_clause ck c = Some (Checked ck') \<and> checker_ok F ck' \<and> entails F [] c)"
proof (cases "inconsistent ck")
  case True
  then show ?thesis using assms(1) entails_set[of F "[]" "[]" c] by (auto simp: add_derived_clause_def checker_ok_def)
next
  case False
  from import_and_simplify[OF assms(1) False assms(2)] obtain ck1 ck2 t where i: "import_clause ck c = Some ck1"
    "tautological ck1 = Some (ck2, t)" "ready F ck2"
    "if t then entails F [] c else clean ck2 \<and> set (simplified ck2) = set c \<and> sort_lits (simplified ck2) = simplified ck2" by blast
  show ?thesis
  proof (cases t)
    case True
    then show ?thesis using i False ready_checker_ok[OF i(3)] by (simp add: add_derived_clause_def)
  next
    case F: False
    from check_clause_ok[OF readyD(1)[OF i(3)] _ readyD(5,4)[OF i(3)]] F i(4) obtain ok ck3 where
      ck3: "check_clause ck2 = Some (ok, ck3)" "core F [] ck3" "trail ck3 = trail ck2" "next_to_propagate ck3 = next_to_propagate ck2"
      "pframe ck2 ck3" "ok \<longrightarrow> entails F [] (simplified ck2)" by auto
    show ?thesis
    proof (cases ok)
      case True
      have e: "entails F [] (simplified ck2)" using True ck3(6) by simp
      have same: "simplified ck3 = simplified ck2" "size_vars ck3 = size_vars ck2" "inconsistent ck3 = inconsistent ck2"
        using ck3(5) by (auto simp: pframe_def frame_def)
      have R: "ready F ck3" using i(3) ck3 same table_ok_pframe(1)[OF readyD(2)[OF i(3)] ck3(5)] by (simp add: ready_def)
      have "clean ck2" using F i(4) by simp
      then have "clean ck3" unfolding clean_def same ck3(3) .
      from add_clause_ok[OF R this] e F i(4) same obtain ck4 where "add_clause ck3 = Some ck4" "core F [] ck4" "table_ok ck4"
        "size_vars ck4 \<le> INT_MAX" "inconsistent ck4 \<longrightarrow> entails F [] []"
        "\<not> inconsistent ck4 \<longrightarrow> next_to_propagate ck4 = length (trail ck4)" by auto
      moreover have "entails F [] c" by (rule entails_set[OF e]) (use F i(4) in simp)
      ultimately show ?thesis using i(1,2) F False ck3(1) True
        by (auto simp: add_derived_clause_def clear_buffers_def checker_ok_def)
    qed (use i(1,2) F False ck3(1) in \<open>simp add: add_derived_clause_def\<close>)
  qed
qed

lemma reduce_loop_empty: "reduce_loop shift res 0 = None"
proof -
  have "reduce_loop shift res sz = Some r \<Longrightarrow> sz \<noteq> 0" for shift res sz r
  proof (erule reduce_loop.raw_induct[rotated])
    fix f :: "nat \<Rightarrow> 64 word \<Rightarrow> nat \<Rightarrow> 64 word option" and shift res sz y
    assume "\<And>s r z y. f s r z = Some y \<Longrightarrow> z \<noteq> 0"
      "(if (2 :: int) ^ shift > int sz then f (shift div 2) (res XOR drop_bit shift res) sz else Some res) = Some y"
    then show "sz \<noteq> 0" by (cases "sz = 0") auto
  qed
  then show ?thesis by (cases "reduce_loop shift res 0") auto
qed

lemma find_clause_empty: "size_clauses ck = 0 \<Longrightarrow> find_clause ck = None"
  by (cases "hash_from (nonces ck) 0 0 (simplified ck)")
    (simp_all add: find_clause_def compute_hash_def reduce_hash_def reduce_loop_empty)

lemma mset_remove1_concat:
  "h < length tab \<Longrightarrow> p \<in> set (tab ! h) \<Longrightarrow> mset (concat tab) = add_mset p (mset (concat (tab[h := remove1 p (tab ! h)])))"
  by (induction tab arbitrary: h) (auto split: nat.split)

text \<open>
  Deleting: the clause leaves the table when it is there, up to the order of its literals, and the
  run stops with a message otherwise; with an empty table the search does not end.
\<close>

lemma delete_clause_ok:
  assumes "checker_ok F ck" "lits_in_range c"
  shows "(delete_clause ck c = None \<and> database ck = {#}) \<or>
    (delete_clause ck c = Some Fatal \<and> mset_set (set c) \<notin># database ck) \<or>
    (\<exists>ck'. delete_clause ck c = Some (Checked ck') \<and> checker_ok F ck' \<and> database ck' \<subseteq># database ck)"
proof (cases "inconsistent ck")
  case True
  then show ?thesis using assms(1) by (simp add: delete_clause_def)
next
  case False
  from import_and_simplify[OF assms(1) False assms(2)] obtain ck1 ck2 t where i: "import_clause ck c = Some ck1"
    "tautological ck1 = Some (ck2, t)" "ready F ck2" "database ck2 = database ck"
    "if t then entails F [] c else clean ck2 \<and> set (simplified ck2) = set c \<and> sort_lits (simplified ck2) = simplified ck2" by blast
  consider "t" | "\<not> t" "size_clauses ck2 = 0" | "\<not> t" "0 < size_clauses ck2" by auto
  then show ?thesis
  proof cases
    case 1
    then show ?thesis using i(1,2,4) False ready_checker_ok[OF i(3)] by (simp add: delete_clause_def clear_buffers_def)
  next
    case 2
    then show ?thesis using i(1,2,4) False find_clause_empty[of ck2] table_okD(1)[OF readyD(2)[OF i(3)]]
      by (simp add: delete_clause_def database_def)
  next
    case 3
    note F = 3(1) and sz = 3(2)
    have cl: "clean ck2" "sort_lits (simplified ck2) = simplified ck2" using F i(5) by simp_all
    then have ms: "mset (simplified ck2) = mset_set (set c)" using F i(5) mset_set_set[of "simplified ck2"] by (simp add: clean_def)
    from find_clause_ok[OF i(3) cl sz] obtain hash h r where f: "find_clause ck2 = Some (ck2\<lparr>last_hash := hash\<rparr>, h, r)"
      "h < size_clauses ck2" "case r of None \<Rightarrow> mset (simplified ck2) \<notin># database ck2
       | Some p \<Rightarrow> p \<in> set (clauses ck2 ! h) \<and> mset (c_lits (the (store ck2 p))) = mset (simplified ck2)" by blast
    show ?thesis
    proof (cases r)
      case None
      then show ?thesis using i(1,2,4) F False f ms by (simp add: delete_clause_def)
    next
      case (Some p)
      let ?ck = "ck2\<lparr>last_hash := hash\<rparr>" and ?tab = "(clauses ck2)[h := remove1 p (clauses ck2 ! h)]"
      have R: "ready F ?ck" using i(3) by (simp add: ready_def core_def table_ok_def entry_ok_def)
      have len: "h < length (clauses ck2)" using f(2) table_okD(1)[OF readyD(2)[OF i(3)]] by simp
      have p: "p \<in> set (clauses ck2 ! h)" using f(3) Some by simp
      then obtain c where c: "store ck2 p = Some c" using table_okD(2)[OF readyD(2)[OF i(3)] f(2)] by (auto simp: entry_ok_def)
      have u: "unlink_clause ?ck h p = Some (trashed ?ck [p]\<lparr>clauses := ?tab\<rparr>)"
        using len c by (simp add: unlink_clause_def make_garbage_def trashed_def kill_one)
      have sub: "\<forall>i < length ?tab. set (?tab ! i) \<subseteq> set (clauses ck2 ! i)"
        using len by (auto simp: nth_list_update dest: notin_set_remove1 set_remove1_subset[THEN subsetD])
      then have T: "table_ok (trashed ?ck [p]\<lparr>clauses := ?tab\<rparr>)"
        using table_trashed(1)[OF readyD(2)[OF R], of ?tab "[p]"] mset_remove1_concat[OF len p] by simp
      have C: "core F [] (trashed ?ck [p]\<lparr>clauses := ?tab\<rparr>)" using core_trashed[OF readyD(1)[OF R], of "[p]"] by (simp add: core_def)
      define ck4 where "ck4 = trashed ?ck [p]\<lparr>clauses := ?tab\<rparr>"
      have R4: "ready F ck4" using C T R by (simp add: ready_def ck4_def trashed_def)
      obtain ck5 where "(if 2 * int (num_garbage ck4) > max (int (size_clauses ck4)) (size_vars ck4)
          then collect_garbage_clauses ck4 else Some ck4) = Some ck5" "ready F ck5"
        "database ck5 \<subseteq># database ck4"
        using collect_garbage_clauses_ok[OF R4] R4
        by (cases "2 * int (num_garbage ck4) > max (int (size_clauses ck4)) (size_vars ck4)") auto
      moreover have "database ck4 \<subseteq># database ck"
      proof -
        have "database ?ck = add_mset (mset (c_lits (the (store ?ck p)))) (database ck4)"
          using table_trashed(2)[OF readyD(2)[OF R], of ?tab "[p]"] mset_remove1_concat[OF len p] sub by (simp add: ck4_def)
        moreover have "database ?ck = database ck" using i(4) by (simp add: database_def)
        ultimately show ?thesis by simp
      qed
      ultimately show ?thesis using i(1,2) F False f(1) Some u ready_checker_ok
        by (auto simp: delete_clause_def ck4_def[symmetric] clear_buffers_def)
    qed
  qed
qed

section \<open>Runs of the checker\<close>

lemma mfold_invariant:
  "mfold f s xs = Some s' \<Longrightarrow> P s \<Longrightarrow> (\<And>s x s'. P s \<Longrightarrow> f s x = Some s' \<Longrightarrow> P s') \<Longrightarrow> P s'"
  by (induction xs arbitrary: s) (auto split: bind_splits)

lemma new_checker_ok: "checker_ok [] new_Checker"
proof -
  have "length (draw_nonces n st) = n" for n st by (induction n arbitrary: st) (simp_all add: Let_def)
  then show ?thesis
    by (simp add: checker_ok_def core_def new_Checker_def assign_ok_def value_of_def store_ok_def watches_ok_def
        store_implied_def trail_implied_def table_ok_def fun_eq_iff)
qed

lemma observe_event_ok:
  assumes "checker_ok F ck" "lits_in_range (event_clause e)"
  shows "(observe_event ck e = None \<and> (\<exists>c. e = Deleted c) \<and> database ck = {#}) \<or> observe_event ck e = Some Fatal \<or>
    (\<exists>ck'. observe_event ck e = Some (Checked ck') \<and> checker_ok (originals [e] @ F) ck' \<and> (\<forall>c. e = Derived c \<longrightarrow> entails F [] c))"
proof (cases e)
  case (Original c)
  then show ?thesis using add_original_clause_ok[OF assms(1), of c] assms(2) by auto
next
  case (Derived c)
  then show ?thesis using add_derived_clause_ok[OF assms(1), of c] assms(2) by auto
next
  case (Deleted c)
  then show ?thesis using delete_clause_ok[OF assms(1), of c] assms(2) by auto
qed

lemma originals_append [simp]: "originals (es @ fs) = originals es @ originals fs"
  by (induction es rule: originals.induct) auto

text \<open>
  The interface of a proof observer that checks what it is told: an invariant over the original
  clauses seen so far, which every accepted event keeps and which only lets entailed derived
  clauses pass.
\<close>

locale checking_observer =
  fixes ok :: "int list list \<Rightarrow> 's \<Rightarrow> bool" and notify :: "'s \<Rightarrow> observer_event \<Rightarrow> 's checked option"
    and admissible :: "observer_event \<Rightarrow> bool"
  assumes ok_mono: "ok F s \<Longrightarrow> set F \<subseteq> set G \<Longrightarrow> ok G s"
    and notify_ok: "ok F s \<Longrightarrow> admissible e \<Longrightarrow> notify s e = Some (Checked s') \<Longrightarrow>
      ok (originals [e] @ F) s' \<and> (\<forall>c. e = Derived c \<longrightarrow> entails F [] c)"
begin

lemma run_ok:
  assumes "ok F s" "\<forall>e \<in> set es. admissible e" "run_events notify s es = Some (Checked s')"
  shows "ok (originals es @ F) s' \<and> (\<forall>pre c post. es = pre @ Derived c # post \<longrightarrow> entails (originals pre @ F) [] c)"
  using assms
proof (induction es arbitrary: F s)
  case (Cons e es)
  from Cons.prems(3) obtain s1 where s1: "notify s e = Some (Checked s1)" "run_events notify s1 es = Some (Checked s')"
    by (auto split: bind_splits checked.splits)
  have e1: "ok (originals [e] @ F) s1" "\<forall>c. e = Derived c \<longrightarrow> entails F [] c"
    using notify_ok[OF Cons.prems(1) _ s1(1)] Cons.prems(2) by auto
  have IH: "ok (originals es @ originals [e] @ F) s'"
    "\<And>pre c post. es = pre @ Derived c # post \<Longrightarrow> entails (originals pre @ originals [e] @ F) [] c"
    using Cons.IH[OF e1(1) _ s1(2)] Cons.prems(2) by auto
  have cons: "originals (e # fs) = originals [e] @ originals fs" for fs by (cases e) auto
  have "entails (originals pre @ F) [] c" if e: "e # es = pre @ Derived c # post" for pre c post
  proof (cases pre)
    case Nil
    then show ?thesis using e e1(2) by simp
  next
    case (Cons e' pre')
    then have "es = pre' @ Derived c # post" "e' = e" using e by auto
    from IH(2)[OF this(1)] show ?thesis using Cons \<open>e' = e\<close> cons[of pre'] by (auto elim!: entails_mono)
  qed
  moreover have "ok (originals (e # es) @ F) s'" by (rule ok_mono[OF IH(1)]) (use cons[of es] in auto)
  ultimately show ?case by blast
qed simp

end

interpretation checker: checking_observer checker_ok observe_event "\<lambda>e. lits_in_range (event_clause e)"
proof unfold_locales
  fix F G and ck ck' :: checker and e
  show "checker_ok F ck \<Longrightarrow> set F \<subseteq> set G \<Longrightarrow> checker_ok G ck" by (rule checker_ok_mono)
  show "checker_ok (originals [e] @ F) ck' \<and> (\<forall>c. e = Derived c \<longrightarrow> entails F [] c)"
    if "checker_ok F ck" "lits_in_range (event_clause e)" "observe_event ck e = Some (Checked ck')"
    using observe_event_ok[OF that(1,2)] that(3) by auto
qed

definition ends_with :: "(checker \<Rightarrow> bool) \<Rightarrow> checker checked option \<Rightarrow> bool" where
  "ends_with P r = (case r of Some (Checked ck) \<Rightarrow> P ck | _ \<Rightarrow> False)"

lemma ends_withD: "ends_with P r \<Longrightarrow> \<exists>ck. r = Some (Checked ck) \<and> P ck"
  by (auto simp: ends_with_def split: option.splits checked.splits)

lemma delete_new_checker:
  assumes "lits_in_range c" "\<forall>l \<in> set c. - l \<notin> set c"
  shows "delete_clause new_Checker c = None"
proof -
  have "\<not> inconsistent new_Checker" "database new_Checker = {#}" by (simp_all add: new_Checker_def database_def)
  with import_and_simplify[OF new_checker_ok _ assms(1)] obtain ck1 ck2 t where i: "import_clause new_Checker c = Some ck1"
    "tautological ck1 = Some (ck2, t)" "ready [] ck2" "if t then entails [] [] c else clean ck2" by auto
  have "\<not> clause_true (\<lambda>v. - v \<in> set c) c" using assms(2) by (auto simp: clause_true_iff lit_true_def split: if_splits)
  then have "\<not> t" using i(4) by (auto simp: entails_def models_def)
  moreover have "size_clauses ck2 = 0"
  proof -
    have "size_clauses ck1 = 0"
      by (rule mfold_invariant[OF i(1)[unfolded import_clause_def], where P = "\<lambda>ck. size_clauses ck = 0"])
        (auto simp: new_Checker_def import_literal_def Let_def enlarge_vars_def split: if_splits)
    then show ?thesis using i(2) by (auto simp: tautological_def Let_def split: bind_splits)
  qed
  ultimately show ?thesis using i(1,2) \<open>\<not> inconsistent new_Checker\<close> find_clause_empty[of ck2] by (simp add: delete_clause_def)
qed

text \<open>
  \<^bold>\<open>C33\<close> Soundness of the proof checker: in a run without a fatal message every derived clause
  follows from the original clauses before it, and when the checker has become inconsistent the
  original clauses are unsatisfiable.  This covers the two watched literals with their blocking
  literals, the binary shortcut that may use deleted clauses, hashing, garbage collection and the
  enlarging of all tables.
\<close>

theorem run_checker_sound:
  assumes "\<forall>e \<in> set es. lits_in_range (event_clause e)" "run_checker new_Checker es = Some (Checked ck)"
  shows "(\<forall>pre c post. es = pre @ Derived c # post \<longrightarrow> entails (originals pre) [] c) \<and>
    (inconsistent ck \<longrightarrow> entails (originals es) [] [])"
  using checker.run_ok[OF new_checker_ok assms] by (simp add: checker_ok_def)

theorem run_checker_sound_witness: "entails [[1, 2], [- 1, 2], [1, - 2]] [] [2] \<and> entails [[1, 2], [- 1, 2], [1, - 2], [- 1, - 2]] [] []"
proof -
  let ?es = "[Original [1, 2], Original [- 1, 2], Original [1, - 2], Derived [2], Original [- 1, - 2]]"
  have "ends_with inconsistent (run_checker new_Checker ?es)" by code_simp
  from ends_withD[OF this] obtain ck where ck: "run_checker new_Checker ?es = Some (Checked ck)" "inconsistent ck" by blast
  have r: "\<forall>e \<in> set ?es. lits_in_range (event_clause e)" by (simp add: lits_in_range_def)
  have "?es = [Original [1, 2], Original [- 1, 2], Original [1, - 2]] @ Derived [2] # [Original [- 1, - 2]]" by simp
  with run_checker_sound[OF r ck(1)] ck(2) have "entails (originals [Original [1, 2], Original [- 1, 2], Original [1, - 2]]) [] [2]"
    "entails (originals ?es) [] []" by blast+
  then show ?thesis by simp
qed

text \<open>
  \<^bold>\<open>C34\<close> Totality: no operation of the checker reads or writes out of range, uses freed memory or
  loops, except for one case: a deletion while the clause table is empty.
\<close>

theorem run_checker_returns:
  assumes "\<forall>e \<in> set es. lits_in_range (event_clause e)" "run_checker new_Checker es = None"
  shows "\<exists>pre c post ck. es = pre @ Deleted c # post \<and> run_checker new_Checker pre = Some (Checked ck) \<and> database ck = {#}"
proof -
  have "\<exists>pre c post ck'. es = pre @ Deleted c # post \<and> run_checker ck pre = Some (Checked ck') \<and> database ck' = {#}"
    if "checker_ok F ck" "\<forall>e \<in> set es. lits_in_range (event_clause e)" "run_checker ck es = None" for F ck
    using that
  proof (induction es arbitrary: F ck)
    case (Cons e es)
    have r: "lits_in_range (event_clause e)" using Cons.prems(2) by simp
    from observe_event_ok[OF Cons.prems(1) r] show ?case
    proof (elim disjE exE conjE)
      fix c assume "e = Deleted c" "database ck = {#}"
      then have "e # es = [] @ Deleted c # es \<and> run_checker ck [] = Some (Checked ck) \<and> database ck = {#}" by simp
      then show ?thesis by blast
    next
      fix ck1 assume ck1: "observe_event ck e = Some (Checked ck1)" "checker_ok (originals [e] @ F) ck1"
      have "run_checker ck1 es = None" using Cons.prems(3) ck1(1) by simp
      from Cons.IH[OF ck1(2) _ this] Cons.prems(2) obtain pre c post ck' where
        "es = pre @ Deleted c # post" "run_checker ck1 pre = Some (Checked ck')" "database ck' = {#}" by auto
      then have "e # es = (e # pre) @ Deleted c # post \<and> run_checker ck (e # pre) = Some (Checked ck') \<and> database ck' = {#}"
        using ck1(1) by simp
      then show ?thesis by blast
    qed (use Cons.prems(3) in simp)
  qed simp
  from this[OF new_checker_ok assms] show ?thesis .
qed

theorem run_checker_returns_witness:
  "\<exists>pre c post ck. [Deleted [1, 2]] = pre @ Deleted c # post \<and> run_checker new_Checker pre = Some (Checked ck) \<and> database ck = {#}"
proof (rule run_checker_returns)
  show "run_checker new_Checker [Deleted [1, 2]] = None"
    using delete_new_checker[of "[1, 2]"] by (simp add: lits_in_range_def)
qed (simp add: lits_in_range_def)

text \<open>
  \<^bold>\<open>C35\<close> Round trip through the hash table: a clause that entered the table is found again, so its
  deletion is accepted, however the literals of the deleted clause are ordered or repeated.
\<close>

theorem delete_finds_added:
  assumes "checker_ok F ck" "lits_in_range c" "add_original_clause ck c = Some (Checked ck')" "database ck' \<noteq> database ck"
    "set d = set c"
  shows "\<exists>ck''. delete_clause ck' d = Some (Checked ck'') \<and> checker_ok (c # F) ck''"
proof -
  have "checker_ok (c # F) ck'" "mset_set (set d) \<in># database ck'"
    using add_original_clause_ok[OF assms(1,2)] assms(3-5) by auto
  moreover have "lits_in_range d" using assms(2,5) by (simp add: lits_in_range_def)
  ultimately show ?thesis using delete_clause_ok[of "c # F" ck' d] by auto
qed

theorem delete_finds_added_witness:
  "\<exists>ck ck'. add_original_clause new_Checker [1, 2, 3] = Some (Checked ck) \<and> delete_clause ck [3, 1, 2, 1] = Some (Checked ck')"
proof -
  have r: "lits_in_range [1, 2, 3]" by (simp add: lits_in_range_def)
  have "ends_with (\<lambda>ck. num_clauses ck = 1) (add_original_clause new_Checker [1, 2, 3])" by code_simp
  from ends_withD[OF this] obtain ck where ck: "add_original_clause new_Checker [1, 2, 3] = Some (Checked ck)" "num_clauses ck = 1"
    by blast
  have "table_ok ck" using add_original_clause_ok[OF new_checker_ok r] ck(1) by (auto simp: checker_ok_def)
  then have "length (concat (clauses ck)) = 1" using ck(2) by (simp add: table_ok_def)
  then have "mset (concat (clauses ck)) \<noteq> {#}" by (cases "concat (clauses ck)") auto
  then have "database ck \<noteq> database new_Checker" by (simp add: database_def new_Checker_def)
  from delete_finds_added[OF new_checker_ok r ck(1) this, of "[3, 1, 2, 1]"] ck(1) show ?thesis by auto
qed



end
