(* ===== verification/Extend.thy ===== *)
theory Extend
  imports Sat_Semantics Checker_Sound
begin

text \<open>
  The extension stack of \<^verbatim>\<open>src/extend.cpp\<close> and \<^verbatim>\<open>src/restore.cpp\<close>: clauses that preprocessing removed are
  kept with witness literals, \<^verbatim>\<open>extend\<close> turns a model of the remaining clauses into one of all of
  them, and \<^verbatim>\<open>restore_clauses\<close> moves clauses back when new literals taint their witnesses.  Reading
  before the beginning or behind the end of the stack is \<open>None\<close>.
\<close>

section \<open>State\<close>

record external =
  emax_var :: nat
  evals :: "bool list"
  extension :: "int list"
  ewitness :: "bool list"
  etainted :: "bool list"
  eextended :: bool

record restore_options =
  restoreall :: nat
  restoreflush :: bool

definition elit2ulit :: "int \<Rightarrow> nat" where
  "elit2ulit elit = 2 * nat (\<bar>elit\<bar> - 1) + (if elit < 0 then 1 else 0)"

definition emarked :: "bool list \<Rightarrow> int \<Rightarrow> bool" where
  "emarked m elit = (let ulit = elit2ulit elit in if ulit < length m then m ! ulit else False)"

definition emark :: "bool list \<Rightarrow> int \<Rightarrow> bool list" where
  "emark m elit = (let ulit = elit2ulit elit in (grow ulit False m)[ulit := True])"

definition eunmark :: "bool list \<Rightarrow> int \<Rightarrow> bool list" where
  "eunmark m elit = (let ulit = elit2ulit elit in if ulit < length m then m[ulit := False] else m)"

definition ival :: "external \<Rightarrow> int \<Rightarrow> int" where
  "ival st elit = (let eidx = nat \<bar>elit\<bar>;
       res = (if eidx > emax_var st then -1 else if eidx \<ge> length (evals st) then -1
              else if evals st ! eidx then int eidx else - int eidx)
     in if elit < 0 then - res else res)"

section \<open>Pushing clauses\<close>

text \<open>\<open>xt\<close> is \<^verbatim>\<open>Internal::externalize\<close>.\<close>

definition push_zero_on_extension_stack :: "external \<Rightarrow> external" where
  "push_zero_on_extension_stack st = st\<lparr>extension := extension st @ [0]\<rparr>"

definition push_clause_literal_on_extension_stack :: "(int \<Rightarrow> int) \<Rightarrow> external \<Rightarrow> int \<Rightarrow> external" where
  "push_clause_literal_on_extension_stack xt st ilit = st\<lparr>extension := extension st @ [xt ilit]\<rparr>"

definition push_witness_literal_on_extension_stack :: "(int \<Rightarrow> int) \<Rightarrow> external \<Rightarrow> int \<Rightarrow> external" where
  "push_witness_literal_on_extension_stack xt st ilit = (
     let elit = xt ilit; st1 = st\<lparr>extension := extension st @ [elit]\<rparr>
     in if emarked (ewitness st1) elit then st1 else st1\<lparr>ewitness := emark (ewitness st1) elit\<rparr>)"

definition push_clause_on_extension_stack :: "(int \<Rightarrow> int) \<Rightarrow> external \<Rightarrow> int list \<Rightarrow> external" where
  "push_clause_on_extension_stack xt st c =
     foldl (push_clause_literal_on_extension_stack xt) (push_zero_on_extension_stack st) c"

definition push_clause_and_pivot_on_extension_stack :: "(int \<Rightarrow> int) \<Rightarrow> external \<Rightarrow> int list \<Rightarrow> int \<Rightarrow> external" where
  "push_clause_and_pivot_on_extension_stack xt st c pivot =
     push_clause_on_extension_stack xt
       (push_witness_literal_on_extension_stack xt (push_zero_on_extension_stack st) pivot) c"

definition push_binary_clause_on_extension_stack :: "(int \<Rightarrow> int) \<Rightarrow> external \<Rightarrow> int \<Rightarrow> int \<Rightarrow> external" where
  "push_binary_clause_on_extension_stack xt st pivot other = (
     let st1 = push_witness_literal_on_extension_stack xt (push_zero_on_extension_stack st) pivot;
         st2 = push_clause_literal_on_extension_stack xt (push_zero_on_extension_stack st1) pivot
     in push_clause_literal_on_extension_stack xt st2 other)"

section \<open>Extension of an assignment\<close>

text \<open>The values of the mapped variables; \<open>val\<close> is \<^verbatim>\<open>Internal::val\<close>, \<open>e2i\<close> the map of variables.\<close>

fun map_values :: "(int \<Rightarrow> int) \<Rightarrow> int list \<Rightarrow> external \<Rightarrow> nat list \<Rightarrow> external option" where
  "map_values val e2i st [] = Some st"
| "map_values val e2i st (i # is) = do {
     ilit \<leftarrow> vec_at e2i i;
     map_values val e2i
       (if ilit = 0 then st
        else st\<lparr>evals := (grow i False (evals st))[i := val ilit > 0]\<rparr>) is }"

text \<open>The stack is traversed backwards: these functions take it reversed.\<close>

fun scan_clause :: "external \<Rightarrow> bool \<Rightarrow> int list \<Rightarrow> (bool \<times> int list) option" where
  "scan_clause st sat [] = None"
| "scan_clause st sat (lit # ls) = (if lit = 0 then Some (sat, ls) else scan_clause st (sat \<or> ival st lit > 0) ls)"

fun skip_witness :: "int list \<Rightarrow> int list option" where
  "skip_witness [] = None"
| "skip_witness (lit # ls) = (if lit = 0 then Some ls else skip_witness ls)"

definition flip_value :: "external \<Rightarrow> int \<Rightarrow> external" where
  "flip_value st lit = (let idx = nat \<bar>lit\<bar>; vs = grow idx False (evals st) in st\<lparr>evals := vs[idx := \<not> vs ! idx]\<rparr>)"

fun flip_witness :: "external \<Rightarrow> int list \<Rightarrow> (external \<times> int list) option" where
  "flip_witness st [] = None"
| "flip_witness st (lit # ls) =
     (if lit = 0 then Some (st, ls) else flip_witness (if ival st lit < 0 then flip_value st lit else st) ls)"

lemma scan_clause_shorter: "scan_clause st sat ls = Some (r, ls') \<Longrightarrow> length ls' < length ls"
  by (induction ls arbitrary: sat) (auto split: if_splits simp: less_Suc_eq)

lemma skip_witness_shorter: "skip_witness ls = Some ls' \<Longrightarrow> length ls' < length ls"
  by (induction ls) (auto split: if_splits simp: less_Suc_eq)

lemma flip_witness_shorter: "flip_witness st ls = Some (st', ls') \<Longrightarrow> length ls' < length ls"
  by (induction st ls rule: flip_witness.induct) (auto split: if_splits simp: less_Suc_eq)

function extend_loop :: "external \<Rightarrow> int list \<Rightarrow> external option" where
  "extend_loop st ls = (if ls = [] then Some st else
     case scan_clause st False ls of
       None \<Rightarrow> None
     | Some (sat, ls1) \<Rightarrow>
         if sat then (case skip_witness ls1 of None \<Rightarrow> None | Some ls2 \<Rightarrow> extend_loop st ls2)
         else (case flip_witness st ls1 of None \<Rightarrow> None | Some (st', ls2) \<Rightarrow> extend_loop st' ls2))"
  by pat_completeness auto
termination
  by (relation "measure (\<lambda>(st, ls). length ls)")
    (auto dest!: scan_clause_shorter skip_witness_shorter flip_witness_shorter)

declare extend_loop.simps [simp del]

definition extend :: "(int \<Rightarrow> int) \<Rightarrow> int list \<Rightarrow> external \<Rightarrow> external option" where
  "extend val e2i st = do {
     st1 \<leftarrow> map_values val e2i st [1..<emax_var st + 1];
     st2 \<leftarrow> extend_loop st1 (rev (extension st1));
     Some (st2\<lparr>eextended := True\<rparr>) }"

section \<open>Traversal of the stack\<close>

text \<open>The iterator is a function over a state of its own that says whether to go on.\<close>

fun split_zero :: "int list \<Rightarrow> (int list \<times> int list) option" where
  "split_zero [] = None"
| "split_zero (lit # ls) = (if lit = 0 then Some ([], ls) else do { (xs, r) \<leftarrow> split_zero ls; Some (lit # xs, r) })"

lemma split_zero_shorter: "split_zero ls = Some (xs, r) \<Longrightarrow> length r < length ls"
  by (induction ls arbitrary: xs) (auto split: if_splits bind_splits simp: less_Suc_eq)

fun split_end :: "int list \<Rightarrow> int list \<times> int list" where
  "split_end [] = ([], [])"
| "split_end (lit # ls) = (if lit = 0 then ([], lit # ls) else (case split_end ls of (xs, r) \<Rightarrow> (lit # xs, r)))"

lemma split_end_shorter: "length (snd (split_end ls)) \<le> length ls"
  by (induction ls) (auto split: prod.splits)

function traverse_backward :: "('s \<Rightarrow> int list \<Rightarrow> int list \<Rightarrow> bool \<times> 's) \<Rightarrow> 's \<Rightarrow> int list \<Rightarrow> (bool \<times> 's) option" where
  "traverse_backward it s ls = (if ls = [] then Some (True, s) else
     case split_zero ls of None \<Rightarrow> None
     | Some (c, ls1) \<Rightarrow> (case split_zero ls1 of None \<Rightarrow> None
        | Some (w, ls2) \<Rightarrow> (case it s (rev c) (rev w) of (go, s') \<Rightarrow>
             if go then traverse_backward it s' ls2 else Some (False, s'))))"
  by pat_completeness auto
termination
  by (relation "measure (\<lambda>(it, s, ls). length ls)") (auto dest!: split_zero_shorter)

declare traverse_backward.simps [simp del]

text \<open>
  Forward, \<open>ls\<close> begins behind the zero that starts an entry; the clause ends at the next zero,
  which is consumed, or at the end of the stack.
\<close>

function traverse_forward :: "('s \<Rightarrow> int list \<Rightarrow> int list \<Rightarrow> bool \<times> 's) \<Rightarrow> 's \<Rightarrow> int list \<Rightarrow> (bool \<times> 's) option" where
  "traverse_forward it s ls = (case split_zero ls of None \<Rightarrow> None
     | Some (w, ls1) \<Rightarrow> (case split_end ls1 of (c, ls2) \<Rightarrow>
         (case it s c w of (go, s') \<Rightarrow>
            if go then (if tl ls2 = [] then Some (True, s') else traverse_forward it s' (tl ls2)) else Some (False, s'))))"
  by pat_completeness auto
termination
proof (relation "measure (\<lambda>(it, s, ls). length ls)", goal_cases)
  case (2 it s ls a w ls1 c ls2 go s')
  then have "length ls1 < length ls" using split_zero_shorter[of ls w ls1] by simp
  moreover have "length ls2 \<le> length ls1" using split_end_shorter[of ls1] 2(3) by (metis snd_conv)
  ultimately show ?case by simp
qed simp

declare traverse_forward.simps [simp del]

definition traverse_witnesses_backward ::
  "bool \<Rightarrow> ('s \<Rightarrow> int list \<Rightarrow> int list \<Rightarrow> bool \<times> 's) \<Rightarrow> 's \<Rightarrow> external \<Rightarrow> (bool \<times> 's) option" where
  "traverse_witnesses_backward unsat it s st =
     (if unsat then Some (True, s) else traverse_backward it s (rev (extension st)))"

definition traverse_witnesses_forward ::
  "bool \<Rightarrow> ('s \<Rightarrow> int list \<Rightarrow> int list \<Rightarrow> bool \<times> 's) \<Rightarrow> 's \<Rightarrow> external \<Rightarrow> (bool \<times> 's) option" where
  "traverse_witnesses_forward unsat it s st =
     (if unsat \<or> extension st = [] then Some (True, s) else traverse_forward it s (tl (extension st)))"

section \<open>Restoring clauses\<close>

text \<open>The part of \<^verbatim>\<open>External::internalize\<close> that taints the negations of witness literals.\<close>

definition taint :: "external \<Rightarrow> int \<Rightarrow> external" where
  "taint st elit = (if \<not> emarked (etainted st) elit \<and> emarked (ewitness st) (- elit)
     then st\<lparr>etainted := emark (etainted st) elit\<rparr> else st)"

text \<open>
  The internal solver appears as a state \<open>s\<close> with the operation \<open>add\<close>, the sequence of
  \<^verbatim>\<open>add_original_lit\<close> calls for a clause, and \<open>fixed s\<close>, the root-level value of an external literal.
\<close>

definition restore_clause :: "(int list \<Rightarrow> 's \<Rightarrow> 's option) \<Rightarrow> int list \<Rightarrow> external \<times> 's \<Rightarrow> (external \<times> 's) option" where
  "restore_clause add c = (\<lambda>(st, s). do { s' \<leftarrow> add c s; Some (foldl taint st c, s') })"

fun read_witness :: "external \<Rightarrow> int \<Rightarrow> int list \<Rightarrow> (int list \<times> int \<times> int list) option" where
  "read_witness st tlit [] = None"
| "read_witness st tlit (elit # ls) =
     (if elit = 0 then Some ([], tlit, ls)
      else do {
        (w, t, r) \<leftarrow> read_witness st (if emarked (etainted st) (- elit) then elit else tlit) ls;
        Some (elit # w, t, r) })"

fun find_fixed :: "(int \<Rightarrow> int) \<Rightarrow> int \<Rightarrow> int list \<Rightarrow> int" where
  "find_fixed fixed sat [] = sat"
| "find_fixed fixed sat (elit # ls) = find_fixed fixed (if sat = 0 \<and> fixed elit > 0 then elit else sat) ls"

lemma read_witness_shorter: "read_witness st t ls = Some (w, t', r) \<Longrightarrow> length r < length ls"
  by (induction ls arbitrary: t w) (auto split: if_splits bind_splits simp: less_Suc_eq)

text \<open>\<open>p\<close> is the rest of the old stack, \<open>q\<close> the new stack built so far.\<close>

function restore_loop ::
  "restore_options \<Rightarrow> (int list \<Rightarrow> 's \<Rightarrow> 's option) \<Rightarrow> ('s \<Rightarrow> int \<Rightarrow> int) \<Rightarrow> external \<Rightarrow> 's \<Rightarrow> int list \<Rightarrow> int list \<Rightarrow>
   (external \<times> 's \<times> int list) option" where
  "restore_loop opts add fixed st s q [] = Some (st, s, q)"
| "restore_loop opts add fixed st s q (z # p) =
     (case read_witness st 0 p of None \<Rightarrow> None
      | Some (w, tlit, p1) \<Rightarrow>
          (case split_end p1 of (c, p2) \<Rightarrow>
            (let satisfied = (if restoreflush opts then find_fixed (fixed s) 0 c else 0)
             in if satisfied \<noteq> 0 then restore_loop opts add fixed st s q p2
                else if tlit \<noteq> 0 \<or> restoreall opts \<noteq> 0
                then (case restore_clause add c (st, s) of None \<Rightarrow> None
                      | Some (st', s') \<Rightarrow> restore_loop opts add fixed st' s' q p2)
                else restore_loop opts add fixed st s (q @ z # w @ 0 # c) p2)))"
  by pat_completeness auto
termination
proof (relation "measure (\<lambda>(opts, add, fixed, st, s, q, p). length p)", goal_cases)
  case (2 opts add fixed st s q z p a w b tlit p1 c p2 x)
  then have "length p1 < length p" using read_witness_shorter[of st 0 p w tlit p1] by simp
  moreover have "length p2 \<le> length p1" using split_end_shorter[of p1] 2(4) by (metis snd_conv)
  ultimately show ?case by simp
next
  case (3 opts add fixed st s q z p a w b tlit p1 c p2 x y st' s')
  then have "length p1 < length p" using read_witness_shorter[of st 0 p w tlit p1] by simp
  moreover have "length p2 \<le> length p1" using split_end_shorter[of p1] 3(4) by (metis snd_conv)
  ultimately show ?case by simp
next
  case (4 opts add fixed st s q z p a w b tlit p1 c p2 x)
  then have "length p1 < length p" using read_witness_shorter[of st 0 p w tlit p1] by simp
  moreover have "length p2 \<le> length p1" using split_end_shorter[of p1] 4(4) by (metis snd_conv)
  ultimately show ?case by simp
qed simp

text \<open>Recomputing the witness bits goes backwards over the new stack.\<close>

function remark_witnesses :: "bool list \<Rightarrow> int list \<Rightarrow> bool list option" where
  "remark_witnesses m ls = (if ls = [] then Some m else
     case split_zero ls of None \<Rightarrow> None
     | Some (c, ls1) \<Rightarrow> (case split_zero ls1 of None \<Rightarrow> None
        | Some (w, ls2) \<Rightarrow> remark_witnesses (foldl emark m w) ls2))"
  by pat_completeness auto
termination
  by (relation "measure (\<lambda>(m, ls). length ls)") (auto dest!: split_zero_shorter)

declare remark_witnesses.simps [simp del]

definition restore_clauses ::
  "restore_options \<Rightarrow> (int list \<Rightarrow> 's \<Rightarrow> 's option) \<Rightarrow> ('s \<Rightarrow> int \<Rightarrow> int) \<Rightarrow> external \<Rightarrow> 's \<Rightarrow> (external \<times> 's) option" where
  "restore_clauses opts add fixed st s = do {
     (st1, s1, q) \<leftarrow> restore_loop opts add fixed st s [] (extension st);
     m \<leftarrow> remark_witnesses [] (rev q);
     Some (st1\<lparr>extension := q, etainted := [], ewitness := m\<rparr>, s1) }"

end
