(* ===== verification/Reconstruct.thy ===== *)
theory Reconstruct
  imports Extend
begin

text \<open>
  What the extension stack is for.  A stack encodes a list of entries, each a witness and a clause;
  \<open>stack_ok\<close> is the condition under which preprocessing may remove the clauses, and the properties
  say that \<^verbatim>\<open>extend\<close> then yields a model of all removed clauses and that \<^verbatim>\<open>restore_clauses\<close>
  re-establishes the condition after new clauses were added.
\<close>

section \<open>The stack as a list of entries\<close>

type_synonym entry = "int list \<times> int list"

definition enc :: "entry list \<Rightarrow> int list" where
  "enc es = concat (map (\<lambda>(w, c). 0 # w @ 0 # c) es)"

definition entries_ok :: "nat \<Rightarrow> entry list \<Rightarrow> bool" where
  "entries_ok n es \<longleftrightarrow> (\<forall>(w, c) \<in> set es. \<forall>l \<in> set w \<union> set c. l \<noteq> 0 \<and> \<bar>l\<bar> \<le> int n)"

lemma enc_simps [simp]: "enc [] = []" "enc ((w, c) # es) = 0 # w @ 0 # c @ enc es"
    "enc (es @ es') = enc es @ enc es'"
  by (simp_all add: enc_def)

lemma entries_ok_Cons [simp]:
  "entries_ok n ((w, c) # es) \<longleftrightarrow> (\<forall>l \<in> set w \<union> set c. l \<noteq> 0 \<and> \<bar>l\<bar> \<le> int n) \<and> entries_ok n es"
  by (auto simp: entries_ok_def)

lemma entries_ok_nonzero: "entries_ok n es \<Longrightarrow> (w, c) \<in> set es \<Longrightarrow> 0 \<notin> set w \<and> 0 \<notin> set c"
  unfolding entries_ok_def by force

lemma entries_ok_append [simp]: "entries_ok n (es @ fs) \<longleftrightarrow> entries_ok n es \<and> entries_ok n fs"
  by (auto simp: entries_ok_def)

lemma split_zero_app [simp]: "0 \<notin> set xs \<Longrightarrow> split_zero (xs @ 0 # r) = Some (xs, r)"
  by (induction xs) auto

lemma split_end_app: "0 \<notin> set xs \<Longrightarrow> r = [] \<or> hd r = 0 \<Longrightarrow> split_end (xs @ r) = (xs, r)"
  by (induction xs) (cases r; auto)+

lemma enc_hd: "enc es = [] \<or> hd (enc es) = 0"
  by (cases es) auto

lemma split_end_enc [simp]: "0 \<notin> set c \<Longrightarrow> split_end (c @ enc es) = (c, enc es)"
  by (rule split_end_app) (use enc_hd in auto)

lemma rev_enc_snoc: "rev (enc (es @ [(w, c)])) = rev c @ 0 # rev w @ 0 # rev (enc es)"
  by simp

section \<open>Semantics of entries\<close>

definition ext_assign :: "external \<Rightarrow> assignment" where
  "ext_assign st v \<longleftrightarrow> 0 \<le> v \<and> nat v \<le> emax_var st \<and> nat v < length (evals st) \<and> evals st ! nat v"

definition make_true :: "int list \<Rightarrow> assignment \<Rightarrow> assignment" where
  "make_true w \<tau> = foldl (\<lambda>\<tau> l. if lit_true \<tau> l then \<tau> else \<tau>(\<bar>l\<bar> := \<not> \<tau> \<bar>l\<bar>)) \<tau> w"

definition repair :: "entry \<Rightarrow> assignment \<Rightarrow> assignment" where
  "repair e \<tau> = (if clause_true \<tau> (snd e) then \<tau> else make_true (rev (fst e)) \<tau>)"

lemma ival_pos: "l \<noteq> 0 \<Longrightarrow> \<bar>l\<bar> \<le> int (emax_var st) \<Longrightarrow> ival st l > 0 \<longleftrightarrow> lit_true (ext_assign st) l"
  by (auto simp: ival_def Let_def lit_true_def ext_assign_def)

lemma ival_neg: "l \<noteq> 0 \<Longrightarrow> \<bar>l\<bar> \<le> int (emax_var st) \<Longrightarrow> ival st l < 0 \<longleftrightarrow> \<not> lit_true (ext_assign st) l"
  by (auto simp: ival_def Let_def lit_true_def ext_assign_def)

lemma flip_value_assign:
  assumes "l \<noteq> 0" "\<bar>l\<bar> \<le> int (emax_var st)"
  shows "ext_assign (flip_value st l) = (ext_assign st)(\<bar>l\<bar> := \<not> ext_assign st \<bar>l\<bar>)"
proof
  fix v
  show "ext_assign (flip_value st l) v = ((ext_assign st)(\<bar>l\<bar> := \<not> ext_assign st \<bar>l\<bar>)) v"
  proof (cases "v = \<bar>l\<bar>")
    case True
    with assms show ?thesis
      by (auto simp: ext_assign_def flip_value_def Let_def nth_grow nat_le_iff)
  next
    case False
    then have "0 \<le> v \<Longrightarrow> nat v \<noteq> nat \<bar>l\<bar>" by auto
    moreover have "i < length xs \<Longrightarrow> grow n False xs ! i = xs ! i" for i n and xs :: "bool list"
      by (simp add: nth_grow)
    ultimately show ?thesis using False
      by (auto simp: ext_assign_def flip_value_def Let_def nth_list_update nth_grow max_def split: if_splits)
  qed
qed

lemma flip_value_simps [simp]:
  "emax_var (flip_value st l) = emax_var st" "extension (flip_value st l) = extension st"
  by (simp_all add: flip_value_def Let_def)

lemma scan_clause_app:
  "\<forall>l \<in> set c. l \<noteq> 0 \<and> \<bar>l\<bar> \<le> int (emax_var st) \<Longrightarrow>
   scan_clause st b (c @ 0 # r) = Some (b \<or> clause_true (ext_assign st) c, r)"
  by (induction c arbitrary: b) (auto simp: ival_pos)

lemma skip_witness_app: "0 \<notin> set w \<Longrightarrow> skip_witness (w @ 0 # r) = Some r"
  by (induction w) auto

lemma flip_witness_app:
  "\<forall>l \<in> set w. l \<noteq> 0 \<and> \<bar>l\<bar> \<le> int (emax_var st) \<Longrightarrow>
   \<exists>st'. flip_witness st (w @ 0 # r) = Some (st', r) \<and> ext_assign st' = make_true w (ext_assign st) \<and>
     emax_var st' = emax_var st \<and> extension st' = extension st"
proof (induction w arbitrary: st)
  case Nil
  then show ?case by (simp add: make_true_def)
next
  case (Cons l w)
  let ?st = "if ival st l < 0 then flip_value st l else st"
  have "\<forall>k \<in> set w. k \<noteq> 0 \<and> \<bar>k\<bar> \<le> int (emax_var ?st)" using Cons.prems by auto
  from Cons.IH[OF this] obtain st' where st': "flip_witness ?st (w @ 0 # r) = Some (st', r)"
    "ext_assign st' = make_true w (ext_assign ?st)" "emax_var st' = emax_var ?st" "extension st' = extension ?st"
    by blast
  have "ext_assign ?st = (if lit_true (ext_assign st) l then ext_assign st
          else (ext_assign st)(\<bar>l\<bar> := \<not> ext_assign st \<bar>l\<bar>))"
    using Cons.prems by (simp add: ival_neg flip_value_assign)
  then have "make_true w (ext_assign ?st) = make_true (l # w) (ext_assign st)"
    by (simp add: make_true_def)
  with st' Cons.prems show ?case by auto
qed

text \<open>The loop on the encoded stack repairs the assignment entry by entry, the last entry first.\<close>

lemma extend_loop_repairs:
  "entries_ok (emax_var st) es \<Longrightarrow>
   \<exists>st'. extend_loop st (rev (enc es)) = Some st' \<and> ext_assign st' = foldr repair es (ext_assign st) \<and>
     emax_var st' = emax_var st \<and> extension st' = extension st"
proof (induction es arbitrary: st rule: rev_induct)
  case Nil
  then show ?case by (simp add: extend_loop.simps)
next
  case (snoc e es)
  obtain w c where e: "e = (w, c)" by force
  from snoc.prems have ok: "\<forall>l \<in> set (rev w). l \<noteq> 0 \<and> \<bar>l\<bar> \<le> int (emax_var st)"
    "\<forall>l \<in> set (rev c). l \<noteq> 0 \<and> \<bar>l\<bar> \<le> int (emax_var st)" and oks: "entries_ok (emax_var st) es"
    by (auto simp: e)
  have scan: "scan_clause st False (rev (enc (es @ [e]))) = Some (clause_true (ext_assign st) c, rev w @ 0 # rev (enc es))"
    using scan_clause_app[OF ok(2), of False "rev w @ 0 # rev (enc es)"]
    by (simp add: e clause_true_iff)
  have ne: "rev (enc (es @ [e])) \<noteq> []" by (simp add: e)
  show ?case
  proof (cases "clause_true (ext_assign st) c")
    case True
    have "skip_witness (rev w @ 0 # rev (enc es)) = Some (rev (enc es))"
      using ok(1) by (auto intro!: skip_witness_app)
    then have "extend_loop st (rev (enc (es @ [e]))) = extend_loop st (rev (enc es))"
      using True scan ne by (subst extend_loop.simps) (simp only: if_False option.case prod.case if_True)
    moreover have "repair e (ext_assign st) = ext_assign st" using True by (simp add: e repair_def)
    ultimately show ?thesis using snoc.IH[OF oks] by simp
  next
    case False
    from flip_witness_app[OF ok(1)] obtain st1 where st1: "flip_witness st (rev w @ 0 # rev (enc es)) = Some (st1, rev (enc es))"
      "ext_assign st1 = make_true (rev w) (ext_assign st)" "emax_var st1 = emax_var st" "extension st1 = extension st"
      by blast
    from snoc.IH[of st1] st1 oks obtain st2 where "extend_loop st1 (rev (enc es)) = Some st2"
      "ext_assign st2 = foldr repair es (ext_assign st1)" "emax_var st2 = emax_var st1" "extension st2 = extension st1"
      by auto
    moreover have "repair e (ext_assign st) = ext_assign st1" using False st1 by (simp add: e repair_def)
    moreover have "extend_loop st (rev (enc (es @ [e]))) = extend_loop st1 (rev (enc es))"
      using False scan ne st1 by (subst extend_loop.simps) (simp only: if_False option.case prod.case)
    ultimately show ?thesis using st1 by simp
  qed
qed

section \<open>The condition on the witnesses\<close>

text \<open>
  An entry may be on the stack above the formula \<open>G\<close> when its witness satisfies the clause and every
  clause of \<open>G\<close> that contains the negation of a witness literal contains another witness literal or
  the negation of a literal of the entry's clause that is not touched.  Blocked and eliminated
  clauses, with the witness one literal, have this property.
\<close>

definition witness_ok :: "int list list \<Rightarrow> entry \<Rightarrow> bool" where
  "witness_ok G = (\<lambda>(w, c). (\<exists>l \<in> set w. l \<in> set c) \<and> (\<forall>l \<in> set w. - l \<notin> set w) \<and>
     (\<forall>D \<in> set G. (\<exists>l \<in> set w. - l \<in> set D) \<longrightarrow>
        (\<exists>l \<in> set w. l \<in> set D) \<or> (\<exists>k \<in> set c. - k \<in> set D \<and> k \<notin> set w \<and> - k \<notin> set w)))"

fun stack_ok :: "int list list \<Rightarrow> entry list \<Rightarrow> bool" where
  "stack_ok G [] = True"
| "stack_ok G (e # es) \<longleftrightarrow> witness_ok (G @ map snd es) e \<and> stack_ok G es"

lemma make_true_other: "\<forall>k \<in> set w. k \<noteq> l \<and> k \<noteq> - l \<Longrightarrow> lit_true (make_true w \<tau>) l = lit_true \<tau> l"
proof (induction w arbitrary: \<tau>)
  case Nil
  then show ?case by (simp add: make_true_def)
next
  case (Cons k w)
  let ?\<tau> = "if lit_true \<tau> k then \<tau> else \<tau>(\<bar>k\<bar> := \<not> \<tau> \<bar>k\<bar>)"
  have "make_true (k # w) \<tau> = make_true w ?\<tau>" by (simp add: make_true_def)
  moreover have "lit_true ?\<tau> l = lit_true \<tau> l" using Cons.prems by (auto simp: lit_true_def)
  moreover have "lit_true (make_true w ?\<tau>) l = lit_true ?\<tau> l" using Cons by simp
  ultimately show ?case by simp
qed

lemma make_true_witness:
  "l \<in> set w \<Longrightarrow> 0 \<notin> set w \<Longrightarrow> \<forall>k \<in> set w. - k \<notin> set w \<Longrightarrow> lit_true (make_true w \<tau>) l"
proof (induction w arbitrary: \<tau> rule: rev_induct)
  case Nil
  then show ?case by simp
next
  case (snoc k w)
  let ?\<tau> = "make_true w \<tau>"
  have step: "make_true (w @ [k]) \<tau> = (if lit_true ?\<tau> k then ?\<tau> else ?\<tau>(\<bar>k\<bar> := \<not> ?\<tau> \<bar>k\<bar>))"
    by (simp add: make_true_def)
  have k: "k \<noteq> 0" using snoc.prems by auto
  show ?case
  proof (cases "l = k")
    case True
    with step k show ?thesis by (auto simp: lit_true_def)
  next
    case False
    with snoc have "lit_true ?\<tau> l" by auto
    moreover from snoc.prems False have "l \<noteq> - k" by auto
    ultimately show ?thesis using step False by (auto simp: lit_true_def)
  qed
qed

lemma repair_models:
  assumes "witness_ok G (w, c)" and "models G \<tau>" and nz: "0 \<notin> set w" "0 \<notin> set c"
  shows "models (c # G) (repair (w, c) \<tau>)"
proof (cases "clause_true \<tau> c")
  case True
  then show ?thesis using assms by (simp add: repair_def models_def)
next
  case False
  let ?\<tau> = "make_true (rev w) \<tau>"
  have cons: "\<forall>k \<in> set (rev w). - k \<notin> set (rev w)" using assms(1) by (auto simp: witness_ok_def)
  have wt: "lit_true ?\<tau> l" if "l \<in> set w" for l
    using make_true_witness[of l "rev w"] cons nz that by simp
  have "clause_true ?\<tau> D" if D: "D \<in> set G" for D
  proof (cases "\<exists>l \<in> set w. - l \<in> set D")
    case True
    with assms(1) D consider "\<exists>l \<in> set w. l \<in> set D" | k where "k \<in> set c" "- k \<in> set D" "k \<notin> set w" "- k \<notin> set w"
      unfolding witness_ok_def by blast
    then show ?thesis
    proof cases
      case 1
      then show ?thesis using wt by (auto simp: clause_true_iff)
    next
      case 2
      have "\<not> lit_true \<tau> k" using False 2 by (auto simp: clause_true_iff)
      moreover have "k \<noteq> 0" using 2 nz by auto
      moreover have "lit_true ?\<tau> (- k) = lit_true \<tau> (- k)"
        by (rule make_true_other) (use 2 in auto)
      ultimately have "lit_true ?\<tau> (- k)" by simp
      then show ?thesis using 2 unfolding clause_true_iff by blast
    qed
  next
    case untouched: False
    from assms(2) D obtain l where l: "l \<in> set D" "lit_true \<tau> l" by (auto simp: models_def clause_true_iff)
    have "lit_true ?\<tau> l"
    proof (cases "l \<in> set w")
      case False
      with untouched l have "\<forall>k \<in> set (rev w). k \<noteq> l \<and> k \<noteq> - l" by auto
      then show ?thesis using make_true_other l by blast
    qed (rule wt)
    with l show ?thesis by (auto simp: clause_true_iff)
  qed
  moreover have "clause_true ?\<tau> c" using assms(1) wt by (auto simp: witness_ok_def clause_true_iff)
  ultimately show ?thesis using False by (simp add: repair_def models_def)
qed

lemma repairs_model:
  "stack_ok G es \<Longrightarrow> entries_ok n es \<Longrightarrow> models G \<tau> \<Longrightarrow> models (G @ map snd es) (foldr repair es \<tau>)"
proof (induction es)
  case (Cons e es)
  obtain w c where e: "e = (w, c)" by force
  have "models (c # G @ map snd es) (repair (w, c) (foldr repair es \<tau>))"
    by (rule repair_models) (use Cons e entries_ok_nonzero[of n "e # es" w c] in auto)
  then show ?case by (auto simp: e models_def)
qed simp

section \<open>Mapping the internal values\<close>

definition mapped_assign :: "(int \<Rightarrow> int) \<Rightarrow> int list \<Rightarrow> external \<Rightarrow> assignment" where
  "mapped_assign val e2i st v = (if 1 \<le> v \<and> v \<le> int (emax_var st) \<and> e2i ! nat v \<noteq> 0
     then val (e2i ! nat v) > 0 else ext_assign st v)"

lemma set_value_assign:
  assumes "i \<le> emax_var st"
  shows "ext_assign (st\<lparr>evals := (grow i False (evals st))[i := b]\<rparr>) = (ext_assign st)(int i := b)"
proof
  fix v
  show "ext_assign (st\<lparr>evals := (grow i False (evals st))[i := b]\<rparr>) v = ((ext_assign st)(int i := b)) v"
  proof (cases "v = int i")
    case True
    then show ?thesis using assms by (simp add: ext_assign_def less_max_iff_disj)
  next
    case False
    then have "0 \<le> v \<Longrightarrow> nat v \<noteq> i" by auto
    with False show ?thesis
      by (auto simp: ext_assign_def nth_list_update nth_grow max_def split: if_splits)
  qed
qed

lemma map_values_assign:
  "\<forall>i \<in> set is. i < length e2i \<and> i \<le> emax_var st \<Longrightarrow>
   \<exists>st'. map_values val e2i st is = Some st' \<and> emax_var st' = emax_var st \<and> extension st' = extension st \<and>
     ext_assign st' = (\<lambda>v. if 0 \<le> v \<and> nat v \<in> set is \<and> e2i ! nat v \<noteq> 0 then val (e2i ! nat v) > 0 else ext_assign st v)"
proof (induction "is" arbitrary: st)
  case (Cons i "is")
  let ?st = "if e2i ! i = 0 then st else st\<lparr>evals := (grow i False (evals st))[i := val (e2i ! i) > 0]\<rparr>"
  have "\<forall>k \<in> set is. k < length e2i \<and> k \<le> emax_var ?st" using Cons.prems by simp
  from Cons.IH[OF this] obtain st' where st': "map_values val e2i ?st is = Some st'" "emax_var st' = emax_var ?st"
    "extension st' = extension ?st"
    "ext_assign st' = (\<lambda>v. if 0 \<le> v \<and> nat v \<in> set is \<and> e2i ! nat v \<noteq> 0 then val (e2i ! nat v) > 0 else ext_assign ?st v)"
    by blast
  have "ext_assign ?st = (\<lambda>v. if v = int i \<and> e2i ! i \<noteq> 0 then val (e2i ! i) > 0 else ext_assign st v)"
    using Cons.prems by (auto simp: set_value_assign fun_eq_iff)
  then have "ext_assign st' v = (if 0 \<le> v \<and> nat v \<in> set (i # is) \<and> e2i ! nat v \<noteq> 0
      then val (e2i ! nat v) > 0 else ext_assign st v)" for v
    unfolding st'(4) by (cases "v = int i") auto
  moreover have "map_values val e2i st (i # is) = Some st'" using st'(1) Cons.prems by simp
  ultimately show ?case using st'(2,3) by (auto simp: fun_eq_iff)
qed simp

text \<open>
  \<^bold>\<open>C28\<close>  \<^verbatim>\<open>extend\<close> reconstructs a model.  If the internal assignment satisfies the clauses \<open>G\<close> that are left and
  the entries of the extension stack satisfy the witness condition above \<open>G\<close>, then \<^verbatim>\<open>extend\<close> ends
  without leaving the stack, and its assignment satisfies \<open>G\<close> and every clause on the stack.
\<close>

theorem extend_reconstructs:
  assumes "extension st = enc es" and "entries_ok (emax_var st) es" and "stack_ok G es"
    and "emax_var st < length e2i" and "models G (mapped_assign val e2i st)"
  shows "\<exists>st'. extend val e2i st = Some st' \<and> extension st' = enc es \<and> eextended st' \<and>
    models (G @ map snd es) (ext_assign st')"
proof -
  have "\<forall>i \<in> set [1..<emax_var st + 1]. i < length e2i \<and> i \<le> emax_var st" using assms(4) by auto
  from map_values_assign[OF this, of val] obtain st1 where st1:
    "map_values val e2i st [1..<emax_var st + 1] = Some st1" "emax_var st1 = emax_var st" "extension st1 = extension st"
    and asg: "ext_assign st1 = (\<lambda>v. if 0 \<le> v \<and> nat v \<in> set [1..<emax_var st + 1] \<and> e2i ! nat v \<noteq> 0
      then val (e2i ! nat v) > 0 else ext_assign st v)"
    by blast
  have mapped: "ext_assign st1 = mapped_assign val e2i st"
    unfolding asg by (rule ext) (auto simp: mapped_assign_def)
  from extend_loop_repairs[of st1 es] assms(2) st1 mapped obtain st2 where st2:
    "extend_loop st1 (rev (enc es)) = Some st2" "ext_assign st2 = foldr repair es (mapped_assign val e2i st)"
    "extension st2 = extension st1"
    by auto
  have "models (G @ map snd es) (ext_assign st2)"
    unfolding st2(2) by (rule repairs_model[OF assms(3,2,5)])
  moreover have "ext_assign (st2\<lparr>eextended := True\<rparr>) = ext_assign st2"
    by (simp add: fun_eq_iff ext_assign_def)
  ultimately show ?thesis using st1 st2 assms(1) by (simp add: extend_def)
qed

text \<open>
  A stack with the blocked clause \<open>1 \<or> 2\<close> and then the clause \<open>3 \<or> 1\<close> of the eliminated variable 3,
  above the clause \<open>\<not> 1 \<or> \<not> 2\<close>: the variables 1 and 2 are false, 3 has no internal variable.
\<close>

definition demo_external :: external where
  "demo_external = \<lparr>emax_var = 3, evals = [], extension = [0, 1, 0, 1, 2, 0, 3, 0, 3, 1], ewitness = [True, False, False, False, True],
     etainted = [], eextended = False\<rparr>"

theorem extend_reconstructs_witness:
  "\<exists>st'. extend (\<lambda>l. -1) [0, 1, 2, 0] demo_external = Some st' \<and>
     models [[-1, -2], [1, 2], [3, 1]] (ext_assign st')"
proof -
  have "\<exists>st'. extend (\<lambda>l. -1) [0, 1, 2, 0] demo_external = Some st' \<and>
      extension st' = enc [([1], [1, 2]), ([3], [3, 1])] \<and> eextended st' \<and>
      models ([[-1, -2]] @ map snd [([1 :: int], [1, 2]), ([3], [3, 1])]) (ext_assign st')"
    by (rule extend_reconstructs)
      (simp_all add: demo_external_def entries_ok_def witness_ok_def models_def mapped_assign_def)
  then show ?thesis by auto
qed

section \<open>Pushing and traversing\<close>

fun iterate :: "('s \<Rightarrow> int list \<Rightarrow> int list \<Rightarrow> bool \<times> 's) \<Rightarrow> 's \<Rightarrow> entry list \<Rightarrow> bool \<times> 's" where
  "iterate it s [] = (True, s)"
| "iterate it s ((w, c) # es) = (case it s c w of (go, s') \<Rightarrow> if go then iterate it s' es else (False, s'))"

lemma traverse_backward_enc:
  "\<forall>(w, c) \<in> set es. 0 \<notin> set w \<and> 0 \<notin> set c \<Longrightarrow> traverse_backward it s (rev (enc es)) = Some (iterate it s (rev es))"
proof (induction es arbitrary: s rule: rev_induct)
  case Nil
  then show ?case by (simp add: traverse_backward.simps)
next
  case (snoc e es)
  obtain w c where e: "e = (w, c)" by force
  have nz: "0 \<notin> set (rev c)" "0 \<notin> set (rev w)" using snoc.prems by (auto simp: e)
  have "rev (enc (es @ [e])) = rev c @ 0 # rev w @ 0 # rev (enc es)" by (simp add: e)
  then show ?case using snoc nz
    by (subst traverse_backward.simps) (simp add: e split: prod.split)
qed

lemma traverse_forward_enc:
  "\<forall>(w, c) \<in> set ((w, c) # es). 0 \<notin> set w \<and> 0 \<notin> set c \<Longrightarrow>
   traverse_forward it s (w @ 0 # c @ enc es) = Some (iterate it s ((w, c) # es))"
proof (induction es arbitrary: s w c)
  case Nil
  then have "0 \<notin> set w" "split_end c = (c, [])" using split_end_app[of c "[]"] by auto
  then show ?case by (subst traverse_forward.simps) (simp split: prod.split)
next
  case (Cons e es)
  obtain w' c' where e: "e = (w', c')" by force
  have "0 \<notin> set w" "split_end (c @ enc (e # es)) = (c, enc (e # es))"
    using Cons.prems enc_hd by (auto intro!: split_end_app)
  moreover have "traverse_forward it s (w' @ 0 # c' @ enc es) = Some (iterate it s (e # es))" for s
    using Cons.IH[of w' c'] Cons.prems by (simp add: e)
  ultimately show ?case by (subst traverse_forward.simps) (simp add: e split: prod.split)
qed

lemma foldl_push_literals:
  "foldl (push_clause_literal_on_extension_stack xt) st c = st\<lparr>extension := extension st @ map xt c\<rparr>"
  by (induction c arbitrary: st) (simp_all add: push_clause_literal_on_extension_stack_def)

lemma push_pivot_extension:
  "extension (push_clause_and_pivot_on_extension_stack xt st c p) = extension st @ enc [([xt p], map xt c)]"
  by (simp add: push_clause_and_pivot_on_extension_stack_def push_clause_on_extension_stack_def foldl_push_literals
      push_witness_literal_on_extension_stack_def push_zero_on_extension_stack_def Let_def)

lemma push_binary_extension:
  "push_binary_clause_on_extension_stack xt st p q = push_clause_and_pivot_on_extension_stack xt st [p, q] p"
  by (simp add: push_clause_and_pivot_on_extension_stack_def push_clause_on_extension_stack_def foldl_push_literals
      push_witness_literal_on_extension_stack_def push_zero_on_extension_stack_def Let_def
      push_binary_clause_on_extension_stack_def push_clause_literal_on_extension_stack_def)

lemma pushes_extension:
  "extension (foldl (\<lambda>st (p, c). push_clause_and_pivot_on_extension_stack xt st c p) st ps) =
   extension st @ enc (map (\<lambda>(p, c). ([xt p], map xt c)) ps)"
  by (induction ps arbitrary: st) (auto simp: push_pivot_extension)

text \<open>
  \<^bold>\<open>C30\<close>  Clauses pushed with their pivots are read back: a forward traversal visits them in the order
  they were pushed, a backward traversal in the opposite order, each with its witness, until the
  iterator stops.
\<close>

theorem pushed_clauses_traversed:
  assumes "extension st\<^sub>0 = []" and "\<forall>(p, c) \<in> set ps. \<forall>l \<in> insert p (set c). xt l \<noteq> 0"
    and "st = foldl (\<lambda>st (p, c). push_clause_and_pivot_on_extension_stack xt st c p) st\<^sub>0 ps"
    and "es = map (\<lambda>(p, c). ([xt p], map xt c)) ps"
  shows "traverse_witnesses_forward False it s st = Some (iterate it s es) \<and>
    traverse_witnesses_backward False it s st = Some (iterate it s (rev es))"
proof -
  have ex: "extension st = enc es" using assms(1,3,4) by (simp add: pushes_extension)
  have nz: "\<forall>(w, c) \<in> set es. 0 \<notin> set w \<and> 0 \<notin> set c" using assms(2) unfolding assms(4) by fastforce
  have "traverse_witnesses_forward False it s st = Some (iterate it s es)"
  proof (cases es)
    case (Cons e es')
    then show ?thesis using traverse_forward_enc[of "fst e" "snd e" es' it s] nz
      by (cases e) (simp add: traverse_witnesses_forward_def ex)
  qed (simp add: traverse_witnesses_forward_def ex)
  then show ?thesis using traverse_backward_enc[OF nz] by (simp add: traverse_witnesses_backward_def ex)
qed

theorem pushed_clauses_traversed_witness:
  "traverse_witnesses_forward False (\<lambda>s c w. (True, s @ [(w, c)])) []
     (push_clause_and_pivot_on_extension_stack (\<lambda>l. l) (push_clause_and_pivot_on_extension_stack (\<lambda>l. l)
        (demo_external\<lparr>extension := []\<rparr>) [1, 2] 1) [3, 1] 3) =
   Some (True, [([1], [1, 2]), ([3], [3, 1])])"
  using pushed_clauses_traversed[where ps = "[(1, [1, 2]), (3, [3, 1])]" and xt = "\<lambda>l. l" and
      st\<^sub>0 = "demo_external\<lparr>extension := []\<rparr>" and it = "\<lambda>s c w. (True, s @ [(w, c)])" and s = "[]", OF _ _ refl refl]
  by simp

section \<open>Restoring\<close>

lemma elit2ulit_inj: "k \<noteq> 0 \<Longrightarrow> l \<noteq> 0 \<Longrightarrow> elit2ulit k = elit2ulit l \<longleftrightarrow> k = l"
  unfolding elit2ulit_def by (auto split: if_splits dest: arg_cong[where f = even])

lemma emarked_emark: "k \<noteq> 0 \<Longrightarrow> l \<noteq> 0 \<Longrightarrow> emarked (emark m k) l \<longleftrightarrow> l = k \<or> emarked m l"
  using elit2ulit_inj[of l k]
  by (auto simp: emarked_def emark_def Let_def nth_list_update nth_grow max_def split: if_splits)

lemma emarked_foldl_emark:
  "0 \<notin> set w \<Longrightarrow> l \<noteq> 0 \<Longrightarrow> emarked (foldl emark m w) l \<longleftrightarrow> l \<in> set w \<or> emarked m l"
  by (induction w arbitrary: m) (auto simp: emarked_emark)

lemma emarked_Nil [simp]: "\<not> emarked [] l"
  by (simp add: emarked_def Let_def)

text \<open>Every literal of the clauses \<open>N\<close> whose negation is a witness is tainted.\<close>

definition tainted_covers :: "external \<Rightarrow> int list list \<Rightarrow> bool" where
  "tainted_covers st N \<longleftrightarrow> (\<forall>D \<in> set N. \<forall>l \<in> set D. emarked (ewitness st) (- l) \<longrightarrow> emarked (etainted st) l)"

definition witnesses_marked :: "external \<Rightarrow> entry list \<Rightarrow> bool" where
  "witnesses_marked st es \<longleftrightarrow> (\<forall>(w, c) \<in> set es. \<forall>l \<in> set w. emarked (ewitness st) l)"

lemma taint_frame [simp]: "ewitness (taint st l) = ewitness st" "extension (taint st l) = extension st" "emax_var (taint st l) = emax_var st"
  by (simp_all add: taint_def)

lemma foldl_taint_frame [simp]:
  "ewitness (foldl taint st c) = ewitness st" "extension (foldl taint st c) = extension st" "emax_var (foldl taint st c) = emax_var st"
  by (induction c arbitrary: st) simp_all

lemma emarked_taint:
  "l \<noteq> 0 \<Longrightarrow> k \<noteq> 0 \<Longrightarrow> emarked (etainted (taint st l)) k \<longleftrightarrow>
   emarked (etainted st) k \<or> k = l \<and> emarked (ewitness st) (- l)"
  by (auto simp: taint_def emarked_emark)

lemma emarked_foldl_taint:
  "0 \<notin> set c \<Longrightarrow> k \<noteq> 0 \<Longrightarrow> emarked (etainted (foldl taint st c)) k \<longleftrightarrow>
   emarked (etainted st) k \<or> k \<in> set c \<and> emarked (ewitness st) (- k)"
  by (induction c arbitrary: st) (auto simp: emarked_taint)

lemma tainted_covers_restored:
  "tainted_covers st N \<Longrightarrow> 0 \<notin> set c \<Longrightarrow> \<forall>D \<in> set N. 0 \<notin> set D \<Longrightarrow> tainted_covers (foldl taint st c) (N @ [c])"
  unfolding tainted_covers_def by (auto simp: emarked_foldl_taint) (metis emarked_foldl_taint)+

lemma read_witness_app:
  "0 \<notin> set w \<Longrightarrow> \<exists>t'. read_witness st t (w @ 0 # r) = Some (w, t', r) \<and>
     (t' = 0 \<longleftrightarrow> t = 0 \<and> (\<forall>l \<in> set w. \<not> emarked (etainted st) (- l)))"
proof (induction w arbitrary: t)
  case (Cons l w)
  let ?t = "if emarked (etainted st) (- l) then l else t"
  have "0 \<notin> set w" using Cons.prems by simp
  from Cons.IH[OF this, of ?t] obtain t' where "read_witness st ?t (w @ 0 # r) = Some (w, t', r)"
    "t' = 0 \<longleftrightarrow> ?t = 0 \<and> (\<forall>l \<in> set w. \<not> emarked (etainted st) (- l))" by blast
  then show ?case using Cons.prems by (intro exI[of _ t']) auto
qed simp

lemma find_fixed_found: "find_fixed f s c \<noteq> 0 \<Longrightarrow> s \<noteq> 0 \<or> (\<exists>l \<in> set c. f l > 0)"
  by (induction c arbitrary: s) (auto split: if_splits)

lemma witness_ok_untouched:
  assumes "witness_ok G e" and "\<forall>D \<in> set H. D \<in> set G \<or> (\<forall>l \<in> set (fst e). - l \<notin> set D)"
  shows "witness_ok H e"
  using assms unfolding witness_ok_def by (cases e) fastforce

text \<open>
  The old entry is still on the stack, was restored, or contains a literal that was fixed to true when
  it was looked at, after the clauses \<open>R\<^sub>1\<close> had been restored.
\<close>

definition accounted ::
  "(int list \<Rightarrow> 's \<Rightarrow> 's option) \<Rightarrow> ('s \<Rightarrow> int \<Rightarrow> int) \<Rightarrow> 's \<Rightarrow> entry list \<Rightarrow> int list list \<Rightarrow> entry \<Rightarrow> bool" where
  "accounted add fixed s K R e \<longleftrightarrow> e \<in> set K \<or> snd e \<in> set R \<or>
     (\<exists>R\<^sub>1 R\<^sub>2 s\<^sub>1. R = R\<^sub>1 @ R\<^sub>2 \<and> mfold (\<lambda>s c. add c s) s R\<^sub>1 = Some s\<^sub>1 \<and> (\<exists>l \<in> set (snd e). fixed s\<^sub>1 l > 0))"

lemma accounted_restored:
  "add c s = Some s' \<Longrightarrow> accounted add fixed s' K R e \<Longrightarrow> accounted add fixed s K (c # R) e"
proof -
  assume add: "add c s = Some s'" and "accounted add fixed s' K R e"
  then consider "e \<in> set K \<or> snd e \<in> set R" | R\<^sub>1 R\<^sub>2 s\<^sub>1 l where "R = R\<^sub>1 @ R\<^sub>2"
    "mfold (\<lambda>s c. add c s) s' R\<^sub>1 = Some s\<^sub>1" "l \<in> set (snd e)" "fixed s\<^sub>1 l > 0"
    unfolding accounted_def by blast
  then show ?thesis
  proof cases
    case 2
    then have "c # R = (c # R\<^sub>1) @ R\<^sub>2 \<and> mfold (\<lambda>s c. add c s) s (c # R\<^sub>1) = Some s\<^sub>1"
      using add by simp
    with 2 show ?thesis unfolding accounted_def by blast
  qed (auto simp: accounted_def)
qed

definition restored ::
  "(int list \<Rightarrow> 's \<Rightarrow> 's option) \<Rightarrow> ('s \<Rightarrow> int \<Rightarrow> int) \<Rightarrow> 's \<Rightarrow> 's \<Rightarrow> int list list \<Rightarrow> entry list \<Rightarrow> entry list \<Rightarrow> int list list \<Rightarrow> bool" where
  "restored add fixed s s' G es K R \<longleftrightarrow> set K \<subseteq> set es \<and> set R \<subseteq> snd ` set es \<and> stack_ok (G @ R) K \<and>
     mfold (\<lambda>s c. add c s) s R = Some s' \<and> (\<forall>e \<in> set es. accounted add fixed s K R e)"

lemma restored_Nil: "restored add fixed s s G [] [] []"
  by (simp add: restored_def)

lemma restored_flush:
  assumes "restored add fixed s s' G es K R" and "\<exists>l \<in> set c. fixed s l > 0"
  shows "restored add fixed s s' G ((w, c) # es) K R"
proof -
  have "accounted add fixed s K R (w, c)"
    unfolding accounted_def using assms(2) by (intro disjI2 exI[of _ "[]"] exI[of _ R]) auto
  with assms(1) show ?thesis by (auto simp: restored_def)
qed

lemma restored_restore:
  assumes "restored add fixed s1 s' (G @ [c]) es K R" and "add c s = Some s1"
  shows "restored add fixed s s' G ((w, c) # es) K (c # R)"
  using assms accounted_restored[of add c s s1 fixed K R] by (auto simp: restored_def accounted_def[of _ _ _ _ _ "(w, c)"])

lemma restored_keep:
  assumes "restored add fixed s s' (G @ N) es K R" and "witness_ok (G @ map snd es) (w, c)"
    and "\<forall>D \<in> set N. \<forall>l \<in> set w. - l \<notin> set D"
  shows "restored add fixed s s' (G @ N) ((w, c) # es) ((w, c) # K) R"
proof -
  have "witness_ok ((G @ N @ R) @ map snd K) (w, c)"
    by (rule witness_ok_untouched[OF assms(2)]) (use assms(1,3) in \<open>auto simp: restored_def\<close>)
  with assms(1) show ?thesis by (auto simp: restored_def accounted_def)
qed

lemma restore_loop_enc:
  assumes add: "\<forall>c s. add c s \<noteq> None"
  shows "\<lbrakk>entries_ok n es; stack_ok G es; \<forall>D \<in> set N. 0 \<notin> set D; tainted_covers st N; witnesses_marked st es\<rbrakk> \<Longrightarrow>
   \<exists>st' s' K R. restore_loop opts add fixed st s q (enc es) = Some (st', s', q @ enc K) \<and>
     restored add fixed s s' (G @ N) es K R \<and> emax_var st' = emax_var st"
proof (induction es arbitrary: N st s q)
  case Nil
  then show ?case using restored_Nil[of add fixed s "G @ N"]
    by (intro exI[of _ st] exI[of _ s] exI[of _ "[]"]) simp
next
  case (Cons e es)
  obtain w c where e: "e = (w, c)" by force
  have nz: "0 \<notin> set w" "0 \<notin> set c" and ok: "entries_ok n es" "stack_ok G es" "witnesses_marked st es"
    using Cons.prems by (auto simp: e witnesses_marked_def)
  from read_witness_app[OF nz(1), of st 0 "c @ enc es"] obtain t where
    t: "read_witness st 0 (w @ 0 # c @ enc es) = Some (w, t, c @ enc es)"
    "t = 0 \<longleftrightarrow> (\<forall>l \<in> set w. \<not> emarked (etainted st) (- l))" by auto
  define sat where "sat = (if restoreflush opts then find_fixed (fixed s) 0 c else 0)"
  consider (flush) "sat \<noteq> 0" | (restore) "sat = 0" "t \<noteq> 0 \<or> restoreall opts \<noteq> 0" | (keep) "sat = 0" "t = 0" "restoreall opts = 0"
    by blast
  then show ?case
  proof cases
    case flush
    then have "\<exists>l \<in> set c. fixed s l > 0"
      using find_fixed_found[of "fixed s" 0 c] by (auto simp: sat_def split: if_splits)
    moreover have "restore_loop opts add fixed st s q (enc (e # es)) = restore_loop opts add fixed st s q (enc es)"
      using flush t nz by (simp add: e sat_def)
    ultimately show ?thesis using Cons.IH[OF ok(1,2) Cons.prems(3,4) ok(3), of s q] restored_flush
      unfolding e by metis
  next
    case restore
    from add obtain s1 where s1: "add c s = Some s1" by blast
    let ?st = "foldl taint st c"
    have step: "restore_loop opts add fixed st s q (enc (e # es)) = restore_loop opts add fixed ?st s1 q (enc es)"
      using restore t nz s1 by (auto simp: e sat_def restore_clause_def)
    have "tainted_covers ?st (N @ [c])" "\<forall>D \<in> set (N @ [c]). 0 \<notin> set D" "witnesses_marked ?st es"
      using Cons.prems nz ok(3) by (auto intro!: tainted_covers_restored simp: witnesses_marked_def)
    from Cons.IH[OF ok(1,2) this(2,1,3), of s1 q] obtain st' s' K R where
      "restore_loop opts add fixed ?st s1 q (enc es) = Some (st', s', q @ enc K)"
      "restored add fixed s1 s' ((G @ N) @ [c]) es K R" "emax_var st' = emax_var st"
      by auto
    then show ?thesis using step restored_restore[of add fixed s1 s' "G @ N" c es K R s w] s1 unfolding e by metis
  next
    case keep
    have untouched: "\<forall>D \<in> set N. \<forall>l \<in> set w. - l \<notin> set D"
    proof (intro ballI notI)
      fix D l assume D: "D \<in> set N" "l \<in> set w" "- l \<in> set D"
      then have "emarked (ewitness st) l" using Cons.prems(5) by (auto simp: witnesses_marked_def e)
      then have "emarked (etainted st) (- l)" using Cons.prems(4) D by (force simp: tainted_covers_def)
      then show False using keep t D by simp
    qed
    have step: "restore_loop opts add fixed st s q (enc (e # es)) =
        restore_loop opts add fixed st s (q @ 0 # w @ 0 # c) (enc es)"
      using keep t nz by (simp add: e sat_def)
    from Cons.IH[OF ok(1,2) Cons.prems(3,4) ok(3), of s "q @ 0 # w @ 0 # c"] obtain st' s' K R where IH:
      "restore_loop opts add fixed st s (q @ 0 # w @ 0 # c) (enc es) = Some (st', s', (q @ 0 # w @ 0 # c) @ enc K)"
      "restored add fixed s s' (G @ N) es K R" "emax_var st' = emax_var st" by auto
    have "witness_ok (G @ map snd es) (w, c)" using Cons.prems(2) by (simp add: e)
    from restored_keep[OF IH(2) this untouched] show ?thesis
      using step IH(1,3) by (intro exI[of _ st'] exI[of _ s'] exI[of _ "(w, c) # K"] exI[of _ R]) (simp add: e)
  qed
qed

lemma remark_witnesses_enc:
  "\<forall>(w, c) \<in> set es. 0 \<notin> set w \<and> 0 \<notin> set c \<Longrightarrow>
   \<exists>m'. remark_witnesses m (rev (enc es)) = Some m' \<and>
     (\<forall>l. l \<noteq> 0 \<longrightarrow> emarked m' l = (emarked m l \<or> (\<exists>(w, c) \<in> set es. l \<in> set w)))"
proof (induction es arbitrary: m rule: rev_induct)
  case Nil
  then show ?case by (simp add: remark_witnesses.simps)
next
  case (snoc e es)
  obtain w c where e: "e = (w, c)" by force
  have nz: "0 \<notin> set (rev c)" "0 \<notin> set (rev w)" using snoc.prems by (auto simp: e)
  have "rev (enc (es @ [e])) = rev c @ 0 # rev w @ 0 # rev (enc es)" by (simp add: e)
  then have "remark_witnesses m (rev (enc (es @ [e]))) = remark_witnesses (foldl emark m (rev w)) (rev (enc es))"
    using nz by (subst remark_witnesses.simps) simp
  with snoc.IH[of "foldl emark m (rev w)"] snoc.prems show ?case
    by (auto simp: e emarked_foldl_emark)
qed

text \<open>
  \<^bold>\<open>C29\<close>  \<^verbatim>\<open>restore_clauses\<close> keeps reconstruction possible.  New clauses \<open>N\<close> were added above a stack that was
  in order for \<open>G\<close>, and their literals tainted.  Then the function returns with a sub-list \<open>K\<close> of
  the entries that is in order for \<open>G\<close>, \<open>N\<close> and the restored clauses \<open>R\<close>, with exactly the witnesses
  of \<open>K\<close> marked and nothing tainted; every clause that left the stack was restored or had a literal
  fixed to true.
\<close>

theorem restore_clauses_reconstructible:
  assumes "\<forall>c s. add c s \<noteq> None" and "extension st = enc es" and "entries_ok (emax_var st) es" and "stack_ok G es"
    and "\<forall>D \<in> set N. 0 \<notin> set D" and "tainted_covers st N" and "witnesses_marked st es"
  shows "\<exists>st' s' K R. restore_clauses opts add fixed st s = Some (st', s') \<and> extension st' = enc K \<and>
    etainted st' = [] \<and> (\<forall>l. l \<noteq> 0 \<longrightarrow> emarked (ewitness st') l = (\<exists>(w, c) \<in> set K. l \<in> set w)) \<and>
    restored add fixed s s' (G @ N) es K R"
proof -
  from restore_loop_enc[OF assms(1,3-7), of opts fixed s "[]"] obtain st1 s' K R where loop:
    "restore_loop opts add fixed st s [] (enc es) = Some (st1, s', enc K)"
    "restored add fixed s s' (G @ N) es K R" by auto
  have "\<forall>(w, c) \<in> set K. 0 \<notin> set w \<and> 0 \<notin> set c"
    using loop(2) assms(3) entries_ok_nonzero unfolding restored_def by fast
  from remark_witnesses_enc[OF this, of "[]"] obtain m where
    "remark_witnesses [] (rev (enc K)) = Some m" "\<forall>l. l \<noteq> 0 \<longrightarrow> emarked m l = (\<exists>(w, c) \<in> set K. l \<in> set w)"
    by auto
  with loop show ?thesis by (auto simp: restore_clauses_def assms(2))
qed

theorem restore_clauses_reconstructible_witness:
  "\<exists>st' s' K R. restore_clauses \<lparr>restoreall = 0, restoreflush = True\<rparr> (\<lambda>c s. Some (s @ [c])) (\<lambda>s l. 0)
       (demo_external\<lparr>etainted := [False, True]\<rparr>) [] = Some (st', s') \<and> extension st' = enc K \<and>
     restored (\<lambda>c s. Some (s @ [c])) (\<lambda>s l. 0) [] s' [[-1, -2], [-1]] [([1], [1, 2]), ([3], [3, 1])] K R"
proof -
  have e: "extension (demo_external\<lparr>etainted := [False, True]\<rparr>) = enc [([1], [1, 2]), ([3], [3, 1])]"
    by (simp add: demo_external_def)
  have "\<exists>st' s' K R. restore_clauses \<lparr>restoreall = 0, restoreflush = True\<rparr> (\<lambda>c s. Some (s @ [c])) (\<lambda>s l. 0)
       (demo_external\<lparr>etainted := [False, True]\<rparr>) [] = Some (st', s') \<and> extension st' = enc K \<and> etainted st' = [] \<and>
     (\<forall>l. l \<noteq> 0 \<longrightarrow> emarked (ewitness st') l = (\<exists>(w, c) \<in> set K. l \<in> set w)) \<and>
     restored (\<lambda>c s. Some (s @ [c])) (\<lambda>s l. 0) [] s' ([[-1, -2]] @ [[-1]]) [([1], [1, 2]), ([3], [3, 1])] K R"
    by (rule restore_clauses_reconstructible[OF _ e])
      (simp_all add: entries_ok_def witness_ok_def tainted_covers_def witnesses_marked_def demo_external_def
        emarked_def elit2ulit_def)
  then show ?thesis by auto
qed

end
