(* ===== verification/Solver_State.thy ===== *)
theory Solver_State
  imports Checker Extend Reluctant
begin

text \<open>
  The state of the solver's search engine and its basic operations, from \<^verbatim>\<open>src/internal.hpp\<close>,
  \<^verbatim>\<open>var.hpp\<close>, \<^verbatim>\<open>level.hpp\<close>, \<^verbatim>\<open>watch.hpp\<close>, \<^verbatim>\<open>clause.hpp\<close>, \<^verbatim>\<open>flags.cpp\<close>, \<^verbatim>\<open>clause.cpp\<close>, and the search for external
  clauses of \<^verbatim>\<open>external_propagate.cpp\<close> that assigning a literal may call.

  Tables indexed by literals or variables are functions that are read and written only for
  indices up to \<^verbatim>\<open>max_var\<close>.  Clauses have addresses in \<open>istore\<close>.  \<open>None\<close> is undefined behaviour or a
  loop that does not end.  The connected propagator is a parameter: a record of its callbacks
  over a state of its own.  Decision heuristics (saved phases, scores, queue), flags for
  inprocessing and statistics are left out here.
\<close>

unbundle bit_operations_syntax

section \<open>Data\<close>

record clause_data =
  cl_redundant :: bool
  cl_garbage :: bool
  cl_keep :: bool
  cl_hyper :: bool
  cl_used :: nat
  cl_glue :: nat
  cl_pos :: nat
  cl_lits :: "int list"

record watch =
  w_clause :: nat
  w_blit :: int
  w_size :: nat

definition binary :: "watch \<Rightarrow> bool" where
  "binary w \<longleftrightarrow> w_size w = 2"

record level_info =
  lv_decision :: int
  lv_trail :: nat
  lv_seen_count :: nat
  lv_seen_trail :: int

definition INT_MAX :: int where
  "INT_MAX = 2147483647"

definition new_level_info :: "int \<Rightarrow> nat \<Rightarrow> level_info" where
  "new_level_info d t = \<lparr>lv_decision = d, lv_trail = t, lv_seen_count = 0, lv_seen_trail = INT_MAX\<rparr>"

datatype reason = No_Reason | Decision_Reason | External_Reason | Reason_Clause nat

record ('p, 'h) internal =
  imax_var :: int
  ivals :: "int \<Rightarrow> int"
  ivar_level :: "int \<Rightarrow> nat"
  ivar_trail :: "int \<Rightarrow> nat"
  ivar_reason :: "int \<Rightarrow> reason"
  itrail :: "int list"
  icontrol :: "level_info list"
  ilevel :: nat
  ipropagated :: nat
  ipropergated :: nat
  ipropagated2 :: nat
  inotified :: nat
  ino_conflict_until :: nat
  iconflict :: "nat option"
  iunsat :: bool
  istore :: "nat \<rightharpoonup> clause_data"
  iclauses :: "nat list"
  ifresh :: nat
  iwatches :: "int \<Rightarrow> watch list"
  imarks :: "int \<Rightarrow> int"
  iseen :: "int \<Rightarrow> bool"
  iclause :: "int list"
  ioriginal :: "int list"
  iassumptions :: "int list"
  iconstraint :: "int list"
  iunsat_constraint :: bool
  imarked_failed :: bool
  irelevant :: "int \<Rightarrow> nat"
  ieobserved :: "int \<Rightarrow> bool"
  ie2i :: "int list"
  iext :: external
  ii2e :: "int \<Rightarrow> int"
  isaved :: "int \<Rightarrow> int"
  iforced :: "int \<Rightarrow> int"
  itarget :: "int \<Rightarrow> int"
  ibest :: "int \<Rightarrow> int"
  itarget_assigned :: nat
  ibest_assigned :: nat
  irephased :: "char option"
  iconflicts :: nat
  irephase_conflicts :: nat
  istable :: bool
  iforce_saved_phase :: bool
  isearching_lucky_phases :: bool
  ilevels :: "nat list"
  ianalyzed :: "int list"
  iminimized :: "int list"
  ikeep :: "int \<Rightarrow> bool"
  ipoison :: "int \<Rightarrow> bool"
  iremovable :: "int \<Rightarrow> bool"
  igtab :: "nat \<Rightarrow> nat"
  irecomputed :: nat
  ieagertried :: nat
  iiterating :: bool
  ireluctant :: reluctant
  iproof :: "observer_event list"
  iprop :: 'p
  iheur :: 'h

text \<open>The options the search depends on; \<open>connected\<close> and \<open>is_lazy\<close> describe the external propagator.\<close>

record options =
  chrono :: nat
  reducetier1glue :: nat
  opt_phase :: bool
  forcephase :: bool
  opt_target :: nat
  reducetier2glue :: nat
  chronoalways :: bool
  chronolevelim :: nat
  chronoreusetrail :: bool
  opt_minimize :: bool
  minimizedepth :: nat
  opt_shrink :: nat
  shrinkreap :: bool
  opt_bump :: bool
  bumpreason :: bool
  bumpreasondepth :: nat
  eagersubsume :: bool
  eagersubsumelim :: nat
  connected :: bool
  is_lazy :: bool

text \<open>The callbacks of \<^verbatim>\<open>ExternalPropagator\<close> (\<^verbatim>\<open>cadical.hpp\<close>).\<close>

record 'p propagator_ops =
  on_assignment :: "int \<Rightarrow> bool \<Rightarrow> 'p \<Rightarrow> 'p option"
  on_new_level :: "'p \<Rightarrow> 'p option"
  on_backtrack :: "nat \<Rightarrow> 'p \<Rightarrow> 'p option"
  ask_propagate :: "'p \<Rightarrow> (int \<times> 'p) option"
  ask_reason_lit :: "int \<Rightarrow> 'p \<Rightarrow> (int \<times> 'p) option"
  ask_has_clause :: "'p \<Rightarrow> (bool \<times> 'p) option"
  ask_clause_lit :: "'p \<Rightarrow> (int \<times> 'p) option"
  ask_decide :: "'p \<Rightarrow> (int \<times> 'p) option"
  ask_check_model :: "int list \<Rightarrow> 'p \<Rightarrow> (bool \<times> 'p) option"

text \<open>
  What the search calls of the decision heuristics: the updates in \<^verbatim>\<open>unassign\<close>,
  \<^verbatim>\<open>next_decision_variable\<close>, the bumping of the analyzed variables, and whether the best variable
  found so far on the trail gives way to another one.  The theories on scores and the queue provide them.
\<close>

record 'h heuristic_ops =
  heur_unassign :: "int \<Rightarrow> 'h \<Rightarrow> 'h option"
  heur_next :: "(int \<Rightarrow> int) \<Rightarrow> 'h \<Rightarrow> (int \<times> 'h) option"
  heur_bump :: "(int \<Rightarrow> int) \<Rightarrow> int list \<Rightarrow> 'h \<Rightarrow> 'h option"
  heur_better :: "int \<Rightarrow> int \<Rightarrow> 'h \<Rightarrow> bool"

record ('p, 'h) config =
  opts :: options
  pops :: "'p propagator_ops"
  hops :: "'h heuristic_ops"

definition eager :: "('p, 'h) config \<Rightarrow> bool" where
  "eager E \<longleftrightarrow> connected (opts E) \<and> \<not> is_lazy (opts E)"

section \<open>Literals and variables\<close>

definition ilit_ok :: "('p, 'h) internal \<Rightarrow> int \<Rightarrow> bool" where
  "ilit_ok s lit \<longleftrightarrow> lit \<noteq> 0 \<and> \<bar>lit\<bar> \<le> imax_var s"

definition val :: "('p, 'h) internal \<Rightarrow> int \<Rightarrow> int option" where
  "val s lit = (if ilit_ok s lit then Some (ivals s lit) else None)"

definition var_level :: "('p, 'h) internal \<Rightarrow> int \<Rightarrow> nat option" where
  "var_level s lit = (if ilit_ok s lit then Some (ivar_level s \<bar>lit\<bar>) else None)"

definition fixed :: "('p, 'h) internal \<Rightarrow> int \<Rightarrow> int option" where
  "fixed s lit = (if ilit_ok s lit
     then (let res = (if ivals s \<bar>lit\<bar> \<noteq> 0 \<and> ivar_level s \<bar>lit\<bar> \<noteq> 0 then 0 else ivals s \<bar>lit\<bar>)
           in Some (if lit < 0 then - res else res))
     else None)"

definition marked :: "('p, 'h) internal \<Rightarrow> int \<Rightarrow> int option" where
  "marked s lit = (if ilit_ok s lit
     then Some (if lit < 0 then - imarks s \<bar>lit\<bar> else imarks s \<bar>lit\<bar>) else None)"

definition mark :: "('p, 'h) internal \<Rightarrow> int \<Rightarrow> ('p, 'h) internal option" where
  "mark s lit = (if ilit_ok s lit then Some (s\<lparr>imarks := (imarks s)(\<bar>lit\<bar> := sgn lit)\<rparr>) else None)"

definition unmark :: "('p, 'h) internal \<Rightarrow> int \<Rightarrow> ('p, 'h) internal option" where
  "unmark s lit = (if ilit_ok s lit then Some (s\<lparr>imarks := (imarks s)(\<bar>lit\<bar> := 0)\<rparr>) else None)"

definition observed :: "('p, 'h) internal \<Rightarrow> int \<Rightarrow> bool" where
  "observed s lit \<longleftrightarrow> irelevant s \<bar>lit\<bar> > 0"

definition externalize :: "('p, 'h) internal \<Rightarrow> int \<Rightarrow> int" where
  "externalize s lit = (if lit < 0 then - ii2e s \<bar>lit\<bar> else ii2e s \<bar>lit\<bar>)"

text \<open>
  \<^verbatim>\<open>External::internalize\<close> for an external variable that has an internal one, as all observed
  variables have; the cases that create or reactivate variables are outside the contract of the
  callbacks and are \<open>None\<close>.
\<close>

definition internalize :: "('p, 'h) internal \<Rightarrow> int \<Rightarrow> (int \<times> ('p, 'h) internal) option" where
  "internalize s elit = do {
     l \<leftarrow> vec_at (ie2i s) (nat \<bar>elit\<bar>);
     let ilit = (if elit < 0 then - l else l);
     if ilit_ok s ilit then Some (ilit, s\<lparr>iext := taint (iext s) elit\<rparr>) else None }"

definition UINT_MAX :: nat where
  "UINT_MAX = 4294967295"

definition add_observed_var :: "('p, 'h) internal \<Rightarrow> int \<Rightarrow> ('p, 'h) internal option" where
  "add_observed_var s ilit = (if ilit_ok s ilit
     then Some (if irelevant s \<bar>ilit\<bar> < UINT_MAX
                then s\<lparr>irelevant := (irelevant s)(\<bar>ilit\<bar> := irelevant s \<bar>ilit\<bar> + 1)\<rparr> else s)
     else None)"

definition is_decision :: "('p, 'h) internal \<Rightarrow> int \<Rightarrow> bool option" where
  "is_decision s ilit = do {
     f \<leftarrow> fixed s ilit;
     v \<leftarrow> val s ilit;
     if ilevel s = 0 \<or> f \<noteq> 0 \<or> v = 0 then Some False
     else if ivar_level s \<bar>ilit\<bar> = 0 \<or> ivar_reason s \<bar>ilit\<bar> \<noteq> No_Reason then Some False
     else Some True }"

section \<open>Notifications\<close>

definition notify_one :: "('p, 'h) config \<Rightarrow> ('p, 'h) internal \<Rightarrow> int \<Rightarrow> ('p, 'h) internal option" where
  "notify_one E s ilit = do {
     f \<leftarrow> fixed s ilit;
     if f \<noteq> 0 \<or> \<not> observed s ilit then Some s
     else do { p \<leftarrow> on_assignment (pops E) (externalize s ilit) False (iprop s); Some (s\<lparr>iprop := p\<rparr>) } }"

definition notify_assignments :: "('p, 'h) config \<Rightarrow> ('p, 'h) internal \<Rightarrow> ('p, 'h) internal option" where
  "notify_assignments E s = (if \<not> eager E then Some s else do {
     s' \<leftarrow> mfold (notify_one E) s (drop (inotified s) (itrail s));
     Some (s'\<lparr>inotified := max (inotified s) (length (itrail s))\<rparr>) })"

definition notify_decision :: "('p, 'h) config \<Rightarrow> ('p, 'h) internal \<Rightarrow> ('p, 'h) internal option" where
  "notify_decision E s = (if \<not> eager E then Some s else do {
     p \<leftarrow> on_new_level (pops E) (iprop s); Some (s\<lparr>iprop := p\<rparr>) })"

definition notify_backtrack_to :: "('p, 'h) config \<Rightarrow> ('p, 'h) internal \<Rightarrow> nat \<Rightarrow> ('p, 'h) internal option" where
  "notify_backtrack_to E s new_level = (if \<not> eager E then Some s else do {
     p \<leftarrow> on_backtrack (pops E) new_level (iprop s); Some (s\<lparr>iprop := p\<rparr>) })"

section \<open>Units and the empty clause\<close>

definition trace :: "('p, 'h) internal \<Rightarrow> observer_event \<Rightarrow> ('p, 'h) internal" where
  "trace s e = s\<lparr>iproof := iproof s @ [e]\<rparr>"

definition mark_fixed :: "('p, 'h) config \<Rightarrow> ('p, 'h) internal \<Rightarrow> int \<Rightarrow> ('p, 'h) internal option" where
  "mark_fixed E s lit = (if eager E \<and> observed s lit
     then do { p \<leftarrow> on_assignment (pops E) (externalize s lit) True (iprop s); Some (s\<lparr>iprop := p\<rparr>) }
     else Some s)"

definition learn_empty_clause :: "('p, 'h) internal \<Rightarrow> ('p, 'h) internal" where
  "learn_empty_clause s = (trace s (Derived []))\<lparr>iunsat := True\<rparr>"

definition learn_unit_clause :: "('p, 'h) config \<Rightarrow> ('p, 'h) internal \<Rightarrow> int \<Rightarrow> ('p, 'h) internal option" where
  "learn_unit_clause E s lit = mark_fixed E (trace s (Derived [lit])) lit"

section \<open>Clauses\<close>

definition watch_literal :: "('p, 'h) internal \<Rightarrow> int \<Rightarrow> int \<Rightarrow> nat \<Rightarrow> ('p, 'h) internal option" where
  "watch_literal s lit b p = (if ilit_ok s lit then do {
     c \<leftarrow> istore s p;
     Some (s\<lparr>iwatches := (iwatches s)(lit :=
       iwatches s lit @ [\<lparr>w_clause = p, w_blit = b, w_size = length (cl_lits c)\<rparr>])\<rparr>) } else None)"

definition watch_clause :: "('p, 'h) internal \<Rightarrow> nat \<Rightarrow> ('p, 'h) internal option" where
  "watch_clause s p = do {
     c \<leftarrow> istore s p;
     l0 \<leftarrow> vec_at (cl_lits c) 0;
     l1 \<leftarrow> vec_at (cl_lits c) 1;
     s1 \<leftarrow> watch_literal s l0 l1 p;
     watch_literal s1 l1 l0 p }"

text \<open>\<^verbatim>\<open>new_clause\<close>: the literals are those of the vector \<^verbatim>\<open>clause\<close>.\<close>

definition new_solver_clause :: "('p, 'h) config \<Rightarrow> ('p, 'h) internal \<Rightarrow> bool \<Rightarrow> nat \<Rightarrow> ('p, 'h) internal \<times> nat" where
  "new_solver_clause E s red glue0 = (
     let size = length (iclause s); glue = min glue0 size; p = ifresh s;
         c = \<lparr>cl_redundant = red, cl_garbage = False, cl_keep = (\<not> red \<or> glue \<le> reducetier1glue (opts E)),
              cl_hyper = False, cl_used = 0,
              cl_glue = glue, cl_pos = 2, cl_lits = iclause s\<rparr>
     in (s\<lparr>istore := (istore s)(p \<mapsto> c), iclauses := iclauses s @ [p], ifresh := p + 1\<rparr>, p))"

section \<open>External clauses\<close>

subsection \<open>Choice of the watches\<close>

record watch_candidate =
  hi_position :: nat
  hi_level :: nat
  hi_value :: int

definition better_watch :: "('p, 'h) internal \<Rightarrow> watch_candidate \<Rightarrow> nat \<Rightarrow> int \<Rightarrow> watch_candidate option" where
  "better_watch s hi j other = do {
     other_level \<leftarrow> var_level s other;
     other_value \<leftarrow> val s other;
     let new = \<lparr>hi_position = j, hi_level = other_level, hi_value = other_value\<rparr>;
     if other_value < 0 then
       Some (if hi_value hi \<ge> 0 then hi else if other_level \<le> hi_level hi then hi else new)
     else if other_value > 0 then
       Some (if hi_value hi > 0 \<and> other_level \<ge> hi_level hi then hi else new)
     else Some (if hi_value hi \<ge> 0 then hi else new) }"

fun best_watch :: "('p, 'h) internal \<Rightarrow> int list \<Rightarrow> watch_candidate \<Rightarrow> nat list \<Rightarrow> watch_candidate option" where
  "best_watch s lits hi [] = Some hi"
| "best_watch s lits hi (j # js) = do { hi' \<leftarrow> better_watch s hi j (lits ! j); best_watch s lits hi' js }"

definition move_literal_to_watch :: "('p, 'h) internal \<Rightarrow> bool \<Rightarrow> ('p, 'h) internal option" where
  "move_literal_to_watch s other_watch = (let lits = iclause s in
     if length lits < 2 then Some s else do {
       let i = (if other_watch then 1 else 0);
       l \<leftarrow> var_level s (lits ! i);
       v \<leftarrow> val s (lits ! i);
       hi \<leftarrow> best_watch s lits \<lparr>hi_position = i, hi_level = l, hi_value = v\<rparr> [i + 1..<length lits];
       Some (if hi_position hi = i then s else s\<lparr>iclause := swap_lits lits i (hi_position hi)\<rparr>) })"

text \<open>The assertions of \<^verbatim>\<open>check_watched_literals\<close>.\<close>

definition check_watched_literals :: "('p, 'h) internal \<Rightarrow> bool" where
  "check_watched_literals s = (
     let c = iclause s; v = ivals s; lv = (\<lambda>l. ivar_level s \<bar>l\<bar>); rest = drop 2 c;
         c0 = c ! 0; c1 = c ! 1
     in sgn (v c0) \<ge> sgn (v c1) \<and>
       (if v c0 > 0 then
          (if v c1 > 0 then lv c0 \<le> lv c1 \<and> (\<forall>l \<in> set rest. v l \<le> 0 \<or> lv c1 \<le> lv l)
           else if v c1 = 0 then \<forall>l \<in> set rest. v l \<le> 0
           else \<forall>l \<in> set rest. v l < 0 \<and> lv c1 \<ge> lv l)
        else if v c0 = 0 then
          (if v c1 = 0 then \<forall>l \<in> set rest. v l \<le> 0
           else \<forall>l \<in> set rest. v l < 0 \<and> lv c1 \<ge> lv l)
        else v c0 < 0 \<and> v c1 < 0 \<and> lv c0 \<ge> lv c1 \<and> (\<forall>l \<in> set rest. v l < 0 \<and> lv c1 \<ge> lv l)))"

subsection \<open>Reading a clause from the propagator\<close>

record ext_acc =
  ea_skip :: bool
  ea_levels :: "nat list"
  ea_unassigned :: nat
  ea_original_size :: nat
  ea_lemma_size :: nat

definition next_external_lit :: "('p, 'h) config \<Rightarrow> int \<Rightarrow> ('p, 'h) internal \<Rightarrow> (int \<times> ('p, 'h) internal) option" where
  "next_external_lit E propagated_elit s = do {
     (elit, p) \<leftarrow> (if propagated_elit \<noteq> 0 then ask_reason_lit (pops E) propagated_elit (iprop s) else ask_clause_lit (pops E) (iprop s));
     Some (elit, s\<lparr>iprop := p\<rparr>) }"

definition take_external_lit :: "('p, 'h) internal \<Rightarrow> int \<Rightarrow> ext_acc \<Rightarrow> (('p, 'h) internal \<times> ext_acc) option" where
  "take_external_lit s0 elit acc0 = do {
     (ilit, s1) \<leftarrow> internalize s0 elit;
     let s = s1\<lparr>ioriginal := ioriginal s1 @ [ilit]\<rparr>;
     let acc = acc0\<lparr>ea_original_size := ea_original_size acc0 + 1\<rparr>;
     tmp \<leftarrow> marked s ilit;
     if tmp > 0 then Some (s, acc)
     else if tmp < 0 then Some (s, acc\<lparr>ea_skip := True\<rparr>)
     else do {
       f \<leftarrow> fixed s ilit;
       if f > 0 then Some (s, acc\<lparr>ea_skip := True\<rparr>)
       else if f < 0 then Some (s, acc)
       else do {
         s2 \<leftarrow> mark s ilit;
         v \<leftarrow> val s2 ilit;
         let acc1 = (if v \<noteq> 0 then acc\<lparr>ea_levels := List.insert (ivar_level s2 \<bar>ilit\<bar>) (ea_levels acc)\<rparr>
                     else acc\<lparr>ea_unassigned := ea_unassigned acc + 1\<rparr>);
         Some (s2\<lparr>iclause := iclause s2 @ [ilit]\<rparr>, acc1\<lparr>ea_lemma_size := ea_lemma_size acc1 + 1\<rparr>) } } }"

partial_function (option) read_external_clause ::
  "('p, 'h) config \<Rightarrow> int \<Rightarrow> ('p, 'h) internal \<Rightarrow> int \<Rightarrow> ext_acc \<Rightarrow> (('p, 'h) internal \<times> ext_acc) option" where
  "read_external_clause E propagated_elit s elit acc =
     (if elit = 0 then Some (s, acc)
      else do {
        (s1, acc1) \<leftarrow> take_external_lit s elit acc;
        (elit', s2) \<leftarrow> next_external_lit E propagated_elit s1;
        read_external_clause E propagated_elit s2 elit' acc1 })"

declare read_external_clause.simps [code]

definition empty_ext_acc :: ext_acc where
  "empty_ext_acc = \<lparr>ea_skip = False, ea_levels = [], ea_unassigned = 0, ea_original_size = 0, ea_lemma_size = 0\<rparr>"

definition finish_external_clause ::
  "('p, 'h) config \<Rightarrow> bool \<Rightarrow> ('p, 'h) internal \<Rightarrow> ext_acc \<Rightarrow> (('p, 'h) internal \<times> nat option) option" where
  "finish_external_clause E as_redundant s0 acc = do {
     s1 \<leftarrow> mfold unmark (trace s0 (Original (ioriginal s0))) (iclause s0);
     if ea_skip acc then
       Some ((trace s1 (Deleted (ioriginal s1)))\<lparr>ioriginal := [], iclause := []\<rparr>, None)
     else do {
       let s2 = (if ea_original_size acc > ea_lemma_size acc
                 then trace (trace s1 (Derived (iclause s1))) (Deleted (ioriginal s1)) else s1);
       let s3 = s2\<lparr>ioriginal := []\<rparr>;
       let glue = length (ea_levels acc) + ea_unassigned acc;
       if ea_lemma_size acc > 1 then do {
         s4 \<leftarrow> move_literal_to_watch s3 False;
         s5 \<leftarrow> move_literal_to_watch s4 True;
         let (s6, p) = new_solver_clause E s5 as_redundant glue;
         s7 \<leftarrow> watch_clause s6 p;
         Some (s7\<lparr>iclause := []\<rparr>, Some p) }
       else Some (if iclause s3 = [] then s3\<lparr>iunsat := True\<rparr> else s3, None) } }"

definition add_external_clause ::
  "('p, 'h) config \<Rightarrow> ('p, 'h) internal \<Rightarrow> bool \<Rightarrow> int \<Rightarrow> (('p, 'h) internal \<times> nat option) option" where
  "add_external_clause E s as_redundant propagated_elit = do {
     (elit, s1) \<leftarrow> next_external_lit E propagated_elit s;
     (s2, acc) \<leftarrow> read_external_clause E propagated_elit s1 elit empty_ext_acc;
     finish_external_clause E as_redundant s2 acc }"

definition learn_external_reason_clause ::
  "('p, 'h) config \<Rightarrow> ('p, 'h) internal \<Rightarrow> int \<Rightarrow> int \<Rightarrow> (('p, 'h) internal \<times> nat option) option" where
  "learn_external_reason_clause E s ilit falsified_elit = do {
     let elit = (if falsified_elit = 0 then externalize s ilit else falsified_elit);
     (s1, res) \<leftarrow> add_external_clause E s False elit;
     (case res of
        Some p \<Rightarrow> Some (s1, Some p)
      | None \<Rightarrow> Some (if length (iclause s1) = 1 \<and> falsified_elit = 0 then s1\<lparr>iclause := []\<rparr> else s1, None)) }"

end
