(* ===== verification/Solver_Search.thy ===== *)
theory Solver_Search
  imports Solver_State
begin

text \<open>
  Assignment, unit propagation with watched literals, backtracking and decisions, from
  \<^verbatim>\<open>src/propagate.cpp\<close>, \<^verbatim>\<open>backtrack.cpp\<close>, \<^verbatim>\<open>decide.cpp\<close> and \<^verbatim>\<open>phases.cpp\<close>, with the clause functions of
  \<^verbatim>\<open>clause.cpp\<close> that propagate.
\<close>

section \<open>Assignment\<close>

fun max_level_except :: "('p, 'h) internal \<Rightarrow> int \<Rightarrow> int list \<Rightarrow> nat \<Rightarrow> nat option" where
  "max_level_except s lit [] res = Some res"
| "max_level_except s lit (other # os) res =
     (if other = lit then max_level_except s lit os res
      else do { tmp \<leftarrow> var_level s other; max_level_except s lit os (if tmp > res then tmp else res) })"

fun assignment_level :: "('p, 'h) internal \<Rightarrow> int \<Rightarrow> reason \<Rightarrow> nat option" where
  "assignment_level s lit (Reason_Clause p) = do { c \<leftarrow> istore s p; max_level_except s lit (cl_lits c) 0 }"
| "assignment_level s lit reason = Some (ilevel s)"

text \<open>The reason that is stored, with the external reasons of pseudo decision levels explained.\<close>

definition eager_reason :: "('p, 'h) config \<Rightarrow> ('p, 'h) internal \<Rightarrow> int \<Rightarrow> reason \<Rightarrow> (('p, 'h) internal \<times> reason) option" where
  "eager_reason E s lit reason =
     (if reason = External_Reason \<and> ilevel s \<le> length (iassumptions s) + (if iconstraint s \<noteq> [] then 1 else 0)
      then do {
        (s', res) \<leftarrow> learn_external_reason_clause E s lit 0;
        Some (s', case res of None \<Rightarrow> No_Reason | Some p \<Rightarrow> Reason_Clause p) }
      else Some (s, reason))"

definition literal_level :: "('p, 'h) config \<Rightarrow> ('p, 'h) internal \<Rightarrow> int \<Rightarrow> reason \<Rightarrow> nat option" where
  "literal_level E s lit reason =
     (if reason = No_Reason then Some 0
      else if reason = Decision_Reason then Some (ilevel s)
      else if chrono (opts E) \<noteq> 0 then assignment_level s lit reason
      else Some (ilevel s))"

definition set_val :: "('p, 'h) internal \<Rightarrow> int \<Rightarrow> ('p, 'h) internal" where
  "set_val s lit = s\<lparr>ivals := (ivals s)(\<bar>lit\<bar> := sgn lit, - \<bar>lit\<bar> := - sgn lit)\<rparr>"

definition search_assign :: "('p, 'h) config \<Rightarrow> ('p, 'h) internal \<Rightarrow> int \<Rightarrow> reason \<Rightarrow> ('p, 'h) internal option" where
  "search_assign E s0 lit reason0 = (if \<not> ilit_ok s0 lit then None else do {
     let idx = \<bar>lit\<bar>;
     (s, reason1) \<leftarrow> eager_reason E s0 lit reason0;
     lit_level \<leftarrow> literal_level E s lit reason1;
     let reason = (if reason1 = Decision_Reason \<or> lit_level = 0 then No_Reason else reason1);
     let s1 = s\<lparr>ivar_level := (ivar_level s)(idx := lit_level),
                ivar_trail := (ivar_trail s)(idx := length (itrail s)),
                ivar_reason := (ivar_reason s)(idx := reason)\<rparr>;
     s2 \<leftarrow> (if lit_level = 0 then learn_unit_clause E s1 lit else Some s1);
     let s3 = set_val s2 lit;
     let s4 = (if isearching_lucky_phases s3 then s3 else s3\<lparr>isaved := (isaved s3)(idx := sgn lit)\<rparr>);
     Some (s4\<lparr>itrail := itrail s4 @ [lit]\<rparr>) })"

definition assign_unit :: "('p, 'h) config \<Rightarrow> ('p, 'h) internal \<Rightarrow> int \<Rightarrow> ('p, 'h) internal option" where
  "assign_unit E s lit = search_assign E s lit No_Reason"

definition push_level :: "('p, 'h) internal \<Rightarrow> int \<Rightarrow> ('p, 'h) internal" where
  "push_level s lit = s\<lparr>ilevel := ilevel s + 1,
     icontrol := icontrol s @ [new_level_info lit (length (itrail s))]\<rparr>"

definition search_assume_decision :: "('p, 'h) config \<Rightarrow> ('p, 'h) internal \<Rightarrow> int \<Rightarrow> ('p, 'h) internal option" where
  "search_assume_decision E s lit = do {
     s1 \<leftarrow> notify_decision E (push_level s lit);
     search_assign E s1 lit Decision_Reason }"

definition search_assign_driving :: "('p, 'h) config \<Rightarrow> ('p, 'h) internal \<Rightarrow> int \<Rightarrow> reason \<Rightarrow> ('p, 'h) internal option" where
  "search_assign_driving E s lit c = do { s1 \<leftarrow> search_assign E s lit c; notify_assignments E s1 }"

definition search_assign_external :: "('p, 'h) config \<Rightarrow> ('p, 'h) internal \<Rightarrow> int \<Rightarrow> ('p, 'h) internal option" where
  "search_assign_external E s lit = do { s1 \<leftarrow> search_assign E s lit External_Reason; notify_assignments E s1 }"

section \<open>Propagation\<close>

text \<open>
  The search for a replacement watch: positions \<open>ks\<close> of the clause, the result the position where it
  stops (the end of the range when all literals are false) and the last value read.
\<close>

fun scan_false :: "('p, 'h) internal \<Rightarrow> int list \<Rightarrow> nat list \<Rightarrow> nat \<Rightarrow> (nat \<times> int) option" where
  "scan_false s lits [] stop = Some (stop, -1)"
| "scan_false s lits (k # ks) stop = do {
     r \<leftarrow> vec_at lits k;
     v \<leftarrow> val s r;
     if v < 0 then scan_false s lits ks stop else Some (k, v) }"

definition find_replacement :: "('p, 'h) internal \<Rightarrow> clause_data \<Rightarrow> (nat \<times> int) option" where
  "find_replacement s c = (let size = length (cl_lits c); middle = cl_pos c in
     if middle > size then None
     else do {
       (k, v) \<leftarrow> scan_false s (cl_lits c) [middle..<size] size;
       if v < 0 then scan_false s (cl_lits c) [2..<middle] middle else Some (k, v) })"

fun find_level :: "('p, 'h) internal \<Rightarrow> nat \<Rightarrow> int list \<Rightarrow> nat list \<Rightarrow> nat option" where
  "find_level s lv lits [] = None"
| "find_level s lv lits (pos # ps) = do {
     l \<leftarrow> var_level s (lits ! pos);
     if l = lv then Some pos else find_level s lv lits ps }"

definition store_lits :: "('p, 'h) internal \<Rightarrow> nat \<Rightarrow> int list \<Rightarrow> nat \<Rightarrow> ('p, 'h) internal option" where
  "store_lits s p lits pos = do { c \<leftarrow> istore s p; Some (s\<lparr>istore := (istore s)(p \<mapsto> c\<lparr>cl_lits := lits, cl_pos := pos\<rparr>)\<rparr>) }"

text \<open>The watch of \<open>lit\<close> is moved to \<open>r\<close>; appending to the list that is traversed would be undefined.\<close>

definition rewatch :: "('p, 'h) internal \<Rightarrow> int \<Rightarrow> int \<Rightarrow> int \<Rightarrow> nat \<Rightarrow> ('p, 'h) internal option" where
  "rewatch s lit r b p = (if r = lit then None else watch_literal s r b p)"

text \<open>
  A clause of more than two literals in the watch list of \<open>lit\<close>.  The result holds the entries kept
  for this watch and whether the traversal stops with a conflict.
\<close>

definition prop_long ::
  "('p, 'h) config \<Rightarrow> ('p, 'h) internal \<Rightarrow> int \<Rightarrow> watch \<Rightarrow> clause_data \<Rightarrow> (('p, 'h) internal \<times> watch list \<times> bool) option" where
  "prop_long E s lit w c = do {
     let p = w_clause w;
     let lits = cl_lits c;
     l0 \<leftarrow> vec_at lits 0;
     l1 \<leftarrow> vec_at lits 1;
     let other = l0 XOR l1 XOR lit;
     u \<leftarrow> val s other;
     if u > 0 then Some (s, [w\<lparr>w_blit := other\<rparr>], False)
     else do {
       (k, v) \<leftarrow> find_replacement s c;
       s1 \<leftarrow> store_lits s p lits k;
       if v > 0 then Some (s1, [w\<lparr>w_blit := lits ! k\<rparr>], False)
       else if v = 0 then do {
         let r = lits ! k;
         s2 \<leftarrow> store_lits s1 p (lits[0 := other, 1 := r, k := lit]) k;
         s3 \<leftarrow> rewatch s2 lit r lit p;
         Some (s3, [], False) }
       else if u = 0 then do {
         s2 \<leftarrow> search_assign E s1 other (Reason_Clause p);
         if chrono (opts E) > 1 then do {
           other_level \<leftarrow> var_level s2 other;
           lit_level \<leftarrow> var_level s2 lit;
           if other_level > lit_level then do {
             pos \<leftarrow> find_level s2 other_level lits [2..<length lits];
             let r = lits ! pos;
             s3 \<leftarrow> store_lits s2 p (lits[pos := lit, 0 := other, 1 := r]) k;
             s4 \<leftarrow> rewatch s3 lit r other p;
             Some (s4, [], False) }
           else Some (s2, [w], False) }
         else Some (s2, [w], False) }
       else Some (s1\<lparr>iconflict := Some p\<rparr>, [w], True) } }"

text \<open>The traversal of a watch list; the second component of the result is the new list.\<close>

fun prop_watches ::
  "('p, 'h) config \<Rightarrow> ('p, 'h) internal \<Rightarrow> int \<Rightarrow> watch list \<Rightarrow> watch list \<Rightarrow> (('p, 'h) internal \<times> watch list) option" where
  "prop_watches E s lit kept [] = Some (s, kept)"
| "prop_watches E s lit kept (w # ws) = do {
     b \<leftarrow> val s (w_blit w);
     if b > 0 then prop_watches E s lit (kept @ [w]) ws
     else if binary w then
       (if b < 0 then prop_watches E (s\<lparr>iconflict := Some (w_clause w)\<rparr>) lit (kept @ [w]) ws
        else do {
          s1 \<leftarrow> search_assign E s (w_blit w) (Reason_Clause (w_clause w));
          prop_watches E s1 lit (kept @ [w]) ws })
     else if iconflict s \<noteq> None then Some (s, kept @ w # ws)
     else do {
       c \<leftarrow> istore s (w_clause w);
       if cl_garbage c then prop_watches E s lit kept ws
       else do {
         (s1, ks, stop) \<leftarrow> prop_long E s lit w c;
         if stop then Some (s1, kept @ ks @ ws) else prop_watches E s1 lit (kept @ ks) ws } } }"

definition propagate_lit :: "('p, 'h) config \<Rightarrow> ('p, 'h) internal \<Rightarrow> ('p, 'h) internal option" where
  "propagate_lit E s = do {
     l \<leftarrow> vec_at (itrail s) (ipropagated s);
     let lit = - l;
     let s1 = s\<lparr>ipropagated := ipropagated s + 1\<rparr>;
     (s2, ws) \<leftarrow> prop_watches E s1 lit [] (iwatches s1 lit);
     Some (s2\<lparr>iwatches := (iwatches s2)(lit := ws)\<rparr>) }"

partial_function (option) propagate_loop :: "('p, 'h) config \<Rightarrow> ('p, 'h) internal \<Rightarrow> ('p, 'h) internal option" where
  "propagate_loop E s =
     (if iconflict s = None \<and> ipropagated s \<noteq> length (itrail s)
      then do { s1 \<leftarrow> propagate_lit E s; propagate_loop E s1 }
      else Some s)"

declare propagate_loop.simps [code]

definition finish_propagate :: "('p, 'h) internal \<Rightarrow> ('p, 'h) internal option" where
  "finish_propagate s =
     (if isearching_lucky_phases s then Some s
      else if iconflict s = None then Some (s\<lparr>ino_conflict_until := ipropagated s\<rparr>)
      else do { l \<leftarrow> vec_at (icontrol s) (ilevel s);
                Some (s\<lparr>iconflicts := iconflicts s + 1, ino_conflict_until := lv_trail l\<rparr>) })"

definition propagate :: "('p, 'h) config \<Rightarrow> ('p, 'h) internal \<Rightarrow> (bool \<times> ('p, 'h) internal) option" where
  "propagate E s = do {
     s1 \<leftarrow> propagate_loop E s;
     s2 \<leftarrow> finish_propagate s1;
     Some (iconflict s2 = None, s2) }"

section \<open>Backtracking\<close>

definition unassign :: "('p, 'h) config \<Rightarrow> ('p, 'h) internal \<Rightarrow> int \<Rightarrow> ('p, 'h) internal option" where
  "unassign E s lit = (if \<not> ilit_ok s lit then None else do {
     let idx = \<bar>lit\<bar>;
     h \<leftarrow> heur_unassign (hops E) idx (iheur s);
     Some (s\<lparr>ivals := (ivals s)(idx := 0, - idx := 0), iheur := h\<rparr>) })"

definition copy_phases :: "('p, 'h) internal \<Rightarrow> (int \<Rightarrow> int) \<Rightarrow> int \<Rightarrow> int" where
  "copy_phases s dst = (\<lambda>i. if 1 \<le> i \<and> i \<le> imax_var s then isaved s i else dst i)"

definition update_target_and_best :: "('p, 'h) internal \<Rightarrow> ('p, 'h) internal" where
  "update_target_and_best s = (
     let reset = (irephased s \<noteq> None \<and> iconflicts s > irephase_conflicts s);
         s1 = (if reset then s\<lparr>itarget_assigned := 0,
                 ibest_assigned := (if irephased s = Some (CHR ''B'') then 0 else ibest_assigned s)\<rparr> else s);
         s2 = (if ino_conflict_until s1 > itarget_assigned s1
               then s1\<lparr>itarget := copy_phases s1 (itarget s1), itarget_assigned := ino_conflict_until s1\<rparr> else s1);
         s3 = (if ino_conflict_until s2 > ibest_assigned s2
               then s2\<lparr>ibest := copy_phases s2 (ibest s2), ibest_assigned := ino_conflict_until s2\<rparr> else s2)
     in if reset then s3\<lparr>irephased := None\<rparr> else s3)"

text \<open>The loop over the trail beyond \<open>assigned\<close>; \<open>kept\<close> are the literals moved down so far.\<close>

fun backtrack_trail ::
  "('p, 'h) config \<Rightarrow> nat \<Rightarrow> nat \<Rightarrow> ('p, 'h) internal \<Rightarrow> int list \<Rightarrow> int list \<Rightarrow> (('p, 'h) internal \<times> int list) option" where
  "backtrack_trail E new_level assigned s kept [] = Some (s, kept)"
| "backtrack_trail E new_level assigned s kept (lit # ls) = do {
     l \<leftarrow> var_level s lit;
     if l > new_level then do {
       s1 \<leftarrow> unassign E s lit;
       backtrack_trail E new_level assigned s1 kept ls }
     else backtrack_trail E new_level assigned
            (s\<lparr>ivar_trail := (ivar_trail s)(\<bar>lit\<bar> := assigned + length kept)\<rparr>) (kept @ [lit]) ls }"

definition backtrack :: "('p, 'h) config \<Rightarrow> ('p, 'h) internal \<Rightarrow> nat \<Rightarrow> ('p, 'h) internal option" where
  "backtrack E s0 new_level = (if new_level = ilevel s0 then Some s0 else do {
     let s1 = update_target_and_best s0;
     l \<leftarrow> vec_at (icontrol s1) (new_level + 1);
     let assigned = lv_trail l;
     s2 \<leftarrow> notify_backtrack_to E s1 new_level;
     let s3 = (if eager E \<and> inotified s2 > assigned then s2\<lparr>inotified := assigned\<rparr> else s2);
     (s4, kept) \<leftarrow> backtrack_trail E new_level assigned s3 [] (drop assigned (itrail s3));
     let s5 = s4\<lparr>itrail := take assigned (itrail s4) @ kept,
                 ipropagated := min (ipropagated s4) assigned,
                 ipropagated2 := min (ipropagated2 s4) assigned,
                 ino_conflict_until := min (ino_conflict_until s4) assigned,
                 ipropergated := 0\<rparr>;
     s6 \<leftarrow> (if kept \<noteq> [] then notify_assignments E s5 else Some s5);
     Some (s6\<lparr>icontrol := take (new_level + 1) (icontrol s6), ilevel := new_level\<rparr>) })"

section \<open>Decisions\<close>

definition set_forced_phase :: "('p, 'h) internal \<Rightarrow> int \<Rightarrow> ('p, 'h) internal option" where
  "set_forced_phase s lit = (if ilit_ok s lit then Some (s\<lparr>iforced := (iforced s)(\<bar>lit\<bar> := sgn lit)\<rparr>) else None)"

definition unphase :: "('p, 'h) internal \<Rightarrow> int \<Rightarrow> ('p, 'h) internal option" where
  "unphase s lit = (if ilit_ok s lit then Some (s\<lparr>iforced := (iforced s)(\<bar>lit\<bar> := 0)\<rparr>) else None)"

definition decide_phase :: "('p, 'h) config \<Rightarrow> ('p, 'h) internal \<Rightarrow> int \<Rightarrow> bool \<Rightarrow> int" where
  "decide_phase E s idx target = (
     let initial_phase = (if opt_phase (opts E) then 1 else -1);
         p0 = (if iforce_saved_phase s then isaved s idx else 0);
         p1 = (if p0 = 0 then iforced s idx else p0);
         p2 = (if p1 = 0 \<and> forcephase (opts E) then initial_phase else p1);
         p3 = (if p2 = 0 \<and> target then itarget s idx else p2);
         p4 = (if p3 = 0 then isaved s idx else p3);
         p5 = (if p4 = 0 then initial_phase else p4)
     in p5 * idx)"

definition likely_phase :: "('p, 'h) config \<Rightarrow> ('p, 'h) internal \<Rightarrow> int \<Rightarrow> int" where
  "likely_phase E s idx = decide_phase E s idx False"

definition constraint_levels :: "('p, 'h) internal \<Rightarrow> nat" where
  "constraint_levels s = (if iconstraint s \<noteq> [] then 1 else 0)"

definition satisfied :: "('p, 'h) internal \<Rightarrow> bool" where
  "satisfied s \<longleftrightarrow> \<not> ipropagated s < length (itrail s) \<and>
     \<not> ilevel s < length (iassumptions s) + constraint_levels s \<and> int (length (itrail s)) = imax_var s"

definition ask_decision :: "('p, 'h) config \<Rightarrow> ('p, 'h) internal \<Rightarrow> (int \<times> ('p, 'h) internal) option" where
  "ask_decision E s = (if \<not> eager E then Some (0, s) else do {
     (elit, p) \<leftarrow> ask_decide (pops E) (iprop s);
     let s1 = s\<lparr>iprop := p\<rparr>;
     if elit = 0 \<or> \<not> ieobserved s1 \<bar>elit\<bar> then Some (0, s1)
     else do {
       (ilit, s2) \<leftarrow> internalize s1 elit;
       f \<leftarrow> fixed s2 ilit;
       v \<leftarrow> val s2 ilit;
       Some (if f \<noteq> 0 \<or> v \<noteq> 0 then 0 else ilit, s2) } })"

fun constraint_scan :: "('p, 'h) internal \<Rightarrow> int list \<Rightarrow> int \<Rightarrow> (int option \<times> int) option" where
  "constraint_scan s [] un = Some (None, un)"
| "constraint_scan s (lit # ls) un = do {
     tmp \<leftarrow> val s lit;
     if tmp < 0 then constraint_scan s ls un
     else if tmp > 0 then Some (Some lit, un)
     else constraint_scan s ls (if un = 0 then lit else un) }"

definition pseudo_level :: "('p, 'h) config \<Rightarrow> ('p, 'h) internal \<Rightarrow> ('p, 'h) internal option" where
  "pseudo_level E s = notify_decision E (push_level s 0)"

definition decide_assumption :: "('p, 'h) config \<Rightarrow> ('p, 'h) internal \<Rightarrow> (nat \<times> ('p, 'h) internal) option" where
  "decide_assumption E s = do {
     lit \<leftarrow> vec_at (iassumptions s) (ilevel s);
     tmp \<leftarrow> val s lit;
     if tmp < 0 then Some (20, s)
     else if tmp > 0 then do { s1 \<leftarrow> pseudo_level E s; Some (0, s1) }
     else do { s1 \<leftarrow> search_assume_decision E s lit; Some (0, s1) } }"

definition decide_constraint :: "('p, 'h) config \<Rightarrow> ('p, 'h) internal \<Rightarrow> (nat \<times> ('p, 'h) internal) option" where
  "decide_constraint E s = do {
     (sat, un) \<leftarrow> constraint_scan s (iconstraint s) 0;
     if sat \<noteq> None then do { s1 \<leftarrow> pseudo_level E s; Some (0, s1) }
     else if un \<noteq> 0 then do { s1 \<leftarrow> search_assume_decision E s un; Some (0, s1) }
     else Some (20, s\<lparr>iunsat_constraint := True\<rparr>) }"

definition decide_variable :: "('p, 'h) config \<Rightarrow> ('p, 'h) internal \<Rightarrow> (nat \<times> ('p, 'h) internal) option" where
  "decide_variable E s = do {
     (d, s1) \<leftarrow> ask_decision E s;
     (decision, s2) \<leftarrow> (if d \<noteq> 0 then Some (d, s1) else do {
        (idx, h) \<leftarrow> heur_next (hops E) (ivals s1) (iheur s1);
        let target = (opt_target (opts E) > 1 \<or> (istable s1 \<and> opt_target (opts E) \<noteq> 0));
        Some (decide_phase E s1 idx target, s1\<lparr>iheur := h\<rparr>) });
     s3 \<leftarrow> search_assume_decision E s2 decision;
     Some (0, s3) }"

definition decide :: "('p, 'h) config \<Rightarrow> ('p, 'h) internal \<Rightarrow> (nat \<times> ('p, 'h) internal) option" where
  "decide E s = do {
     (res, s1) \<leftarrow> (if ilevel s < length (iassumptions s) then decide_assumption E s
                   else if ilevel s = length (iassumptions s) \<and> iconstraint s \<noteq> [] then decide_constraint E s
                   else decide_variable E s);
     Some (res, if res \<noteq> 0 then s1\<lparr>imarked_failed := False\<rparr> else s1) }"

section \<open>Original and learned clauses\<close>

definition assign_original_unit :: "('p, 'h) config \<Rightarrow> ('p, 'h) internal \<Rightarrow> int \<Rightarrow> ('p, 'h) internal option" where
  "assign_original_unit E s lit = (if \<not> ilit_ok s lit then None else do {
     let idx = \<bar>lit\<bar>;
     let s1 = s\<lparr>ivar_level := (ivar_level s)(idx := ilevel s),
                ivar_trail := (ivar_trail s)(idx := length (itrail s)),
                ivar_reason := (ivar_reason s)(idx := No_Reason)\<rparr>;
     let s2 = set_val s1 lit;
     s3 \<leftarrow> mark_fixed E (s2\<lparr>itrail := itrail s2 @ [lit]\<rparr>) lit;
     (ok, s4) \<leftarrow> propagate E s3;
     Some (if ok then s4 else learn_empty_clause s4) })"

definition take_original_lit :: "('p, 'h) internal \<times> bool \<Rightarrow> int \<Rightarrow> (('p, 'h) internal \<times> bool) option" where
  "take_original_lit = (\<lambda>(s, skip) lit. do {
     tmp \<leftarrow> marked s lit;
     if tmp > 0 then Some (s, skip)
     else if tmp < 0 then Some (s, True)
     else do {
       s1 \<leftarrow> mark s lit;
       v \<leftarrow> val s1 lit;
       if v < 0 then Some (s1, skip)
       else if v > 0 then Some (s1, True)
       else Some (s1\<lparr>iclause := iclause s1 @ [lit]\<rparr>, skip) } })"

definition use_original_clause :: "('p, 'h) config \<Rightarrow> ('p, 'h) internal \<Rightarrow> ('p, 'h) internal option" where
  "use_original_clause E s = (case iclause s of
     [] \<Rightarrow> Some (s\<lparr>iunsat := True\<rparr>)
   | [lit] \<Rightarrow> assign_original_unit E s lit
   | _ \<Rightarrow> (case new_solver_clause E s False 0 of (s1, p) \<Rightarrow> watch_clause s1 p))"

definition add_new_original_clause :: "('p, 'h) config \<Rightarrow> ('p, 'h) internal \<Rightarrow> ('p, 'h) internal option" where
  "add_new_original_clause E s0 = do {
     s \<leftarrow> (if ilevel s0 \<noteq> 0 then backtrack E s0 0 else Some s0);
     (s1, skip) \<leftarrow> (if iunsat s then Some (s, True)
                    else do {
                      (s', sk) \<leftarrow> mfold take_original_lit (s, False) (ioriginal s);
                      s'' \<leftarrow> mfold unmark s' (ioriginal s');
                      Some (s'', sk) });
     s2 \<leftarrow> (if skip then Some (trace s1 (Deleted (ioriginal s1)))
            else do {
              s' \<leftarrow> use_original_clause E s1;
              Some (if length (ioriginal s') > length (iclause s')
                    then trace (trace s' (Derived (iclause s'))) (Deleted (ioriginal s')) else s') });
     Some (s2\<lparr>iclause := []\<rparr>) }"

definition new_learned_redundant_clause :: "('p, 'h) config \<Rightarrow> ('p, 'h) internal \<Rightarrow> nat \<Rightarrow> (('p, 'h) internal \<times> nat) option" where
  "new_learned_redundant_clause E s glue = (case new_solver_clause E s True glue of (s1, p) \<Rightarrow> do {
     s2 \<leftarrow> watch_clause (trace s1 (Derived (iclause s1))) p;
     Some (s2, p) })"

end
