(* ===== verification/Solver_External.thy ===== *)
theory Solver_External
  imports Solver_Search
begin

text \<open>
  External propagation, external clauses, lazy explanation and the check of a found model, from
  \<^verbatim>\<open>src/external_propagate.cpp\<close>.  Loops that end when a callback says so are partial.
\<close>

section \<open>Observed variables\<close>

definition remove_observed_var :: "('p, 'h) config \<Rightarrow> ('p, 'h) internal \<Rightarrow> int \<Rightarrow> ('p, 'h) internal option" where
  "remove_observed_var E s ilit = do {
     f \<leftarrow> fixed s ilit;
     s1 \<leftarrow> (if f = 0 \<and> ilevel s \<noteq> 0 then backtrack E s 0 else Some s);
     f1 \<leftarrow> fixed s1 ilit;
     let idx = \<bar>ilit\<bar>;
     let ref = irelevant s1 idx;
     Some (if f1 \<noteq> 0 then s1\<lparr>irelevant := (irelevant s1)(idx := 0)\<rparr>
           else if ref < UINT_MAX
           then s1\<lparr>irelevant := (irelevant s1)(idx := (if ref = 0 then UINT_MAX else ref - 1))\<rparr>
           else s1) }"

section \<open>A clause from the propagator\<close>

text \<open>
  \<^verbatim>\<open>handle_external_clause\<close>: with no clause constructed, the vector \<^verbatim>\<open>clause\<close> holds a unit or is empty.
\<close>

definition handle_no_clause :: "('p, 'h) config \<Rightarrow> ('p, 'h) internal \<Rightarrow> (bool \<times> ('p, 'h) internal) option" where
  "handle_no_clause E s = (case iclause s of
     [] \<Rightarrow> Some (False, s)
   | [lit] \<Rightarrow> do {
       s1 \<leftarrow> (if ilevel s \<noteq> 0 then backtrack E s 0 else Some s);
       s2 \<leftarrow> assign_original_unit E s1 lit;
       Some (True, s2\<lparr>iclause := []\<rparr>) }
   | _ \<Rightarrow> Some (False, s))"

definition handle_external_clause ::
  "('p, 'h) config \<Rightarrow> ('p, 'h) internal \<Rightarrow> nat option \<Rightarrow> (bool \<times> ('p, 'h) internal) option" where
  "handle_external_clause E s res = (case res of
     None \<Rightarrow> handle_no_clause E s
   | Some p \<Rightarrow> do {
       c \<leftarrow> istore s p;
       l0 \<leftarrow> vec_at (cl_lits c) 0;
       l1 \<leftarrow> vec_at (cl_lits c) 1;
       v0 \<leftarrow> val s l0;
       v1 \<leftarrow> val s l1;
       if v0 < 0 \<and> v1 < 0 then do {
         conflict_level \<leftarrow> var_level s l0;
         let back = (chrono (opts E) = 0 \<and> conflict_level \<noteq> ilevel s);
         s1 \<leftarrow> (if back then backtrack E s conflict_level else Some s);
         Some (back, s1\<lparr>iconflict := Some p\<rparr>) }
       else if v0 = 0 \<and> v1 < 0 then do {
         last_assignment_level \<leftarrow> var_level s l1;
         s1 \<leftarrow> (if chrono (opts E) = 0 \<and> last_assignment_level \<noteq> ilevel s
                then backtrack E s last_assignment_level else Some s);
         s2 \<leftarrow> search_assign_driving E s1 l0 (Reason_Clause p);
         Some (True, s2) }
       else Some (False, s) })"

abbreviation stopped :: "('p, 'h) internal \<Rightarrow> bool" where
  "stopped s \<equiv> iunsat s \<or> iconflict s \<noteq> None"

section \<open>External propagation\<close>

definition next_propagation :: "('p, 'h) config \<Rightarrow> ('p, 'h) internal \<Rightarrow> (int \<times> ('p, 'h) internal) option" where
  "next_propagation E s = do { (elit, p) \<leftarrow> ask_propagate (pops E) (iprop s); Some (elit, s\<lparr>iprop := p\<rparr>) }"

text \<open>One round of the first loop; the result says whether the loop is left.\<close>

definition external_lit :: "('p, 'h) config \<Rightarrow> ('p, 'h) internal \<Rightarrow> int \<Rightarrow> (bool \<times> ('p, 'h) internal) option" where
  "external_lit E s0 elit = do {
     (ilit, s) \<leftarrow> internalize s0 elit;
     tmp \<leftarrow> val s ilit;
     if tmp = 0 then do {
       s1 \<leftarrow> search_assign_external E s ilit;
       if stopped s1 then Some (True, s1) else do {
         (ok, s2) \<leftarrow> propagate E s1;
         if stopped s2 then Some (True, s2) else do {
           s3 \<leftarrow> notify_assignments E s2;
           Some (False, s3) } } }
     else if tmp < 0 then do {
       (s1, res) \<leftarrow> learn_external_reason_clause E s ilit elit;
       (changed, s2) \<leftarrow> handle_external_clause E s1 res;
       let trail_changed = (changed \<or> ilevel s2 \<noteq> ilevel s);
       if stopped s2 then Some (True, s2)
       else if trail_changed then do {
         (ok, s3) \<leftarrow> propagate E s2;
         if \<not> stopped s3 then Some (True, s3) else do {
           s4 \<leftarrow> notify_assignments E s3;
           Some (False, s4) } }
       else Some (False, s2) }
     else Some (False, s) }"

partial_function (option) external_lits :: "('p, 'h) config \<Rightarrow> ('p, 'h) internal \<Rightarrow> int \<Rightarrow> ('p, 'h) internal option" where
  "external_lits E s elit =
     (if elit = 0 then Some s
      else do {
        (leave, s1) \<leftarrow> external_lit E s elit;
        if leave then Some s1 else do {
          (elit', s2) \<leftarrow> next_propagation E s1;
          external_lits E s2 elit' } })"

declare external_lits.simps [code]

definition has_external_clause :: "('p, 'h) config \<Rightarrow> ('p, 'h) internal \<Rightarrow> (bool \<times> ('p, 'h) internal) option" where
  "has_external_clause E s = do { (b, p) \<leftarrow> ask_has_clause (pops E) (iprop s); Some (b, s\<lparr>iprop := p\<rparr>) }"

definition external_clause :: "('p, 'h) config \<Rightarrow> ('p, 'h) internal \<Rightarrow> (bool \<times> ('p, 'h) internal) option" where
  "external_clause E s = do {
     (s1, res) \<leftarrow> add_external_clause E s False 0;
     (changed, s2) \<leftarrow> handle_external_clause E s1 res;
     let trail_changed = (changed \<or> ilevel s2 \<noteq> ilevel s);
     if stopped s2 then Some (True, s2)
     else if trail_changed then do {
       (ok, s3) \<leftarrow> propagate E s2;
       if stopped s3 then Some (True, s3) else do {
         s4 \<leftarrow> notify_assignments E s3;
         Some (False, s4) } }
     else Some (False, s2) }"

partial_function (option) external_clauses :: "('p, 'h) config \<Rightarrow> ('p, 'h) internal \<Rightarrow> bool \<Rightarrow> ('p, 'h) internal option" where
  "external_clauses E s has =
     (if \<not> has then Some s
      else do {
        (leave, s1) \<leftarrow> external_clause E s;
        if leave then Some s1 else do {
          (has', s2) \<leftarrow> has_external_clause E s1;
          external_clauses E s2 has' } })"

declare external_clauses.simps [code]

definition external_propagate :: "('p, 'h) config \<Rightarrow> ('p, 'h) internal \<Rightarrow> (bool \<times> ('p, 'h) internal) option" where
  "external_propagate E s = do {
     s' \<leftarrow> (if iconflict s = None \<and> eager E then do {
              s1 \<leftarrow> notify_assignments E s;
              (elit, s2) \<leftarrow> next_propagation E s1;
              s3 \<leftarrow> external_lits E s2 elit;
              if stopped s3 then Some s3 else do {
                (has, s4) \<leftarrow> has_external_clause E s3;
                external_clauses E s4 has } }
            else Some s);
     Some (iconflict s' = None, s') }"

section \<open>Lazy explanation\<close>

text \<open>The state and the number of open literals are threaded through the literals of the reason.\<close>

definition explain_lit :: "('p, 'h) config \<Rightarrow> int \<Rightarrow> ('p, 'h) internal \<times> int \<Rightarrow> int \<Rightarrow> (('p, 'h) internal \<times> int) option" where
  "explain_lit E ilit = (\<lambda>(s, open_lits) other. (if \<not> ilit_ok s other then None
     else if other = ilit \<or> iseen s \<bar>other\<bar> \<or> ivar_level s \<bar>other\<bar> = 0 then Some (s, open_lits)
     else do {
       s1 \<leftarrow> (if ivar_reason s \<bar>other\<bar> = External_Reason then do {
                (s', res) \<leftarrow> learn_external_reason_clause E s (- other) 0;
                (case res of
                   Some p \<Rightarrow> Some (s'\<lparr>ivar_reason := (ivar_reason s')(\<bar>other\<bar> := Reason_Clause p)\<rparr>)
                 | None \<Rightarrow> learn_unit_clause E (s'\<lparr>ivar_reason := (ivar_reason s')(\<bar>other\<bar> := No_Reason),
                     ivar_level := (ivar_level s')(\<bar>other\<bar> := 0)\<rparr>) (- other)) }
              else Some s);
       Some (if ivar_level s1 \<bar>other\<bar> \<noteq> 0 \<and> ivar_reason s1 \<bar>other\<bar> \<noteq> No_Reason
             then (s1\<lparr>iseen := (iseen s1)(\<bar>other\<bar> := True)\<rparr>, open_lits + 1) else (s1, open_lits)) }))"

definition explain_reason ::
  "('p, 'h) config \<Rightarrow> ('p, 'h) internal \<Rightarrow> int \<Rightarrow> nat \<Rightarrow> int \<Rightarrow> (('p, 'h) internal \<times> int) option" where
  "explain_reason E s ilit p open_lits = do {
     c \<leftarrow> istore s p;
     mfold (explain_lit E ilit) (s, open_lits) (cl_lits c) }"

text \<open>The trail is traversed from its end; \<open>seen_lits\<close> in the order they are pushed.\<close>

fun explain_trail ::
  "('p, 'h) config \<Rightarrow> ('p, 'h) internal \<Rightarrow> int list \<Rightarrow> int \<Rightarrow> int list \<Rightarrow> (('p, 'h) internal \<times> int list) option" where
  "explain_trail E s [] open_lits seen_lits = Some (s, seen_lits)"
| "explain_trail E s (lit # ls) open_lits seen_lits =
     (if \<not> iseen s \<bar>lit\<bar> then explain_trail E s ls open_lits seen_lits
      else if ivar_level s \<bar>lit\<bar> = 0 then explain_trail E s ls open_lits (seen_lits @ [lit])
      else do {
        (s1, open1) \<leftarrow> (case ivar_reason s \<bar>lit\<bar> of
           Reason_Clause p \<Rightarrow> explain_reason E s lit p (open_lits - 1)
         | No_Reason \<Rightarrow> Some (s, open_lits)
         | _ \<Rightarrow> None);
        if open1 = 0 then Some (s1, seen_lits @ [lit])
        else explain_trail E s1 ls open1 (seen_lits @ [lit]) })"

definition recompute_level :: "('p, 'h) config \<Rightarrow> ('p, 'h) internal \<Rightarrow> int \<Rightarrow> ('p, 'h) internal option" where
  "recompute_level E s lit = do {
     s1 \<leftarrow> (case ivar_reason s \<bar>lit\<bar> of
        Reason_Clause p \<Rightarrow> do {
          c \<leftarrow> istore s p;
          real_level \<leftarrow> max_level_except s lit (cl_lits c) 0;
          s' \<leftarrow> (if ivar_level s \<bar>lit\<bar> \<noteq> 0 \<and> real_level = 0 then learn_unit_clause E s lit else Some s);
          Some (s'\<lparr>ivar_level := (ivar_level s')(\<bar>lit\<bar> := real_level)\<rparr>) }
      | No_Reason \<Rightarrow> Some s
      | _ \<Rightarrow> None);
     Some (s1\<lparr>iseen := (iseen s1)(\<bar>lit\<bar> := False)\<rparr>) }"

definition explain_external_propagations :: "('p, 'h) config \<Rightarrow> ('p, 'h) internal \<Rightarrow> ('p, 'h) internal option" where
  "explain_external_propagations E s = do {
     conflict \<leftarrow> iconflict s;
     (s1, open_lits) \<leftarrow> explain_reason E s 0 conflict 0;
     (s2, seen_lits) \<leftarrow> explain_trail E s1 (rev (itrail s1)) open_lits [];
     mfold (recompute_level E) s2 (rev seen_lits) }"

section \<open>Checking a found model\<close>

definition external_model :: "('p, 'h) internal \<Rightarrow> int list" where
  "external_model s = map (\<lambda>i. if ival (iext s) (int i) > 0 then int i else - int i)
     (List.filter (\<lambda>i. ieobserved s (int i)) [1..<emax_var (iext s) + 1])"

text \<open>The inner loop: clauses are added until one changes the trail or stops the search.\<close>

partial_function (option) check_clauses ::
  "('p, 'h) config \<Rightarrow> ('p, 'h) internal \<Rightarrow> bool \<Rightarrow> bool \<Rightarrow> bool \<Rightarrow> (bool \<times> bool \<times> ('p, 'h) internal) option" where
  "check_clauses E s has trail_changed added =
     (if \<not> has then Some (trail_changed, added, s)
      else do {
        (s1, res) \<leftarrow> add_external_clause E s False 0;
        (changed, s2) \<leftarrow> handle_external_clause E s1 res;
        if stopped s2 \<or> changed then Some (changed, True, s2)
        else do {
          (has', s3) \<leftarrow> has_external_clause E s2;
          check_clauses E s3 has' changed True } })"

declare check_clauses.simps [code]

text \<open>The outer loop; the result says whether the propagator approved the model.\<close>

partial_function (option) check_rounds ::
  "('p, 'h) config \<Rightarrow> ('p, 'h) internal \<Rightarrow> bool \<Rightarrow> bool \<Rightarrow> (bool \<times> ('p, 'h) internal) option" where
  "check_rounds E s trail_changed added =
     (if \<not> trail_changed \<and> \<not> added then Some (False, s)
      else do {
        s1 \<leftarrow> notify_assignments E s;
        if \<not> satisfied s1 then Some (False, s1)
        else do {
          ext \<leftarrow> Extend.extend (ivals s1) (ie2i s1) (iext s1);
          let s2 = s1\<lparr>iext := ext\<rparr>;
          (ok, p) \<leftarrow> ask_check_model (pops E) (external_model s2) (iprop s2);
          let s3 = s2\<lparr>iprop := p\<rparr>;
          if ok then Some (True, s3)
          else do {
            (has, s4) \<leftarrow> has_external_clause E s3;
            (changed, add, s5) \<leftarrow> check_clauses E s4 has False False;
            if stopped s5 then Some (False, s5) else check_rounds E s5 changed add } } })"

declare check_rounds.simps [code]

definition external_check_solution :: "('p, 'h) config \<Rightarrow> ('p, 'h) internal \<Rightarrow> (bool \<times> ('p, 'h) internal) option" where
  "external_check_solution E s = (if \<not> connected (opts E) then Some (True, s) else do {
     (approved, s1) \<leftarrow> check_rounds E s True False;
     if approved then Some (True, s1)
     else do {
       s2 \<leftarrow> (case iconflict s1 of
          None \<Rightarrow> Some s1
        | Some p \<Rightarrow> if iunsat s1 then Some s1 else do {
            c \<leftarrow> istore s1 p;
            l0 \<leftarrow> vec_at (cl_lits c) 0;
            conflict_level \<leftarrow> var_level s1 l0;
            if conflict_level \<noteq> ilevel s1 then backtrack E s1 conflict_level else Some s1 });
       Some (iconflict s2 = None, s2) } })"

end
