(* ===== verification/Solver_Invariant.thy ===== *)
theory Solver_Invariant
  imports Solver_External Checker_Sound
begin

text \<open>
  The invariant of the search: the trail agrees with values, levels and the control stack, clauses
  are watched by their first two literals, and a clause whose watches are both false and processed
  contains a true literal of a level low enough to outlive the watches when the solver backtracks.
  The last part holds for every setting of chronological backtracking.
\<close>

section \<open>The invariant\<close>

definition trail_start :: "('p, 'h) internal \<Rightarrow> nat \<Rightarrow> nat" where
  "trail_start s d = lv_trail (icontrol s ! d)"

definition trail_ok :: "('p, 'h) internal \<Rightarrow> bool" where
  "trail_ok s \<longleftrightarrow> (\<forall>l \<in> set (itrail s). ilit_ok s l) \<and> distinct (map abs (itrail s)) \<and>
     (\<forall>l. ilit_ok s l \<longrightarrow> ivals s l = (if l \<in> set (itrail s) then 1 else if - l \<in> set (itrail s) then -1 else 0)) \<and>
     (\<forall>i < length (itrail s). ivar_trail s \<bar>itrail s ! i\<bar> = i) \<and>
     (\<forall>l \<in> set (itrail s). ivar_level s \<bar>l\<bar> \<le> ilevel s)"

definition control_ok :: "('p, 'h) internal \<Rightarrow> bool" where
  "control_ok s \<longleftrightarrow> length (icontrol s) = ilevel s + 1 \<and>
     (\<forall>d \<le> ilevel s. \<forall>e \<le> d. trail_start s e \<le> trail_start s d) \<and>
     trail_start s (ilevel s) \<le> ipropagated s \<and> ipropagated s \<le> length (itrail s) \<and>
     (\<forall>d \<le> ilevel s. \<forall>i < trail_start s d. ivar_level s \<bar>itrail s ! i\<bar> < d)"

definition clause_ok :: "('p, 'h) internal \<Rightarrow> clause_data \<Rightarrow> bool" where
  "clause_ok s c \<longleftrightarrow> 2 \<le> length (cl_lits c) \<and> distinct (map abs (cl_lits c)) \<and> (\<forall>l \<in> set (cl_lits c). ilit_ok s l) \<and>
     2 \<le> cl_pos c \<and> cl_pos c \<le> length (cl_lits c)"

definition clauses_ok :: "('p, 'h) internal \<Rightarrow> bool" where
  "clauses_ok s \<longleftrightarrow> (\<forall>p c. istore s p = Some c \<longrightarrow> p < ifresh s \<and> clause_ok s c)"

definition watch_entry_ok :: "(nat \<rightharpoonup> clause_data) \<Rightarrow> int \<Rightarrow> watch \<Rightarrow> bool" where
  "watch_entry_ok st lit w \<longleftrightarrow> (\<exists>c. st (w_clause w) = Some c \<and> w_size w = length (cl_lits c) \<and>
     (lit = cl_lits c ! 0 \<or> lit = cl_lits c ! 1) \<and> w_blit w \<in> set (cl_lits c) \<and> w_blit w \<noteq> lit)"

definition watching_ok :: "(nat \<rightharpoonup> clause_data) \<Rightarrow> (int \<Rightarrow> watch list) \<Rightarrow> bool" where
  "watching_ok st W \<longleftrightarrow>
     (\<forall>lit. distinct (map w_clause (W lit)) \<and> (\<forall>w \<in> set (W lit). watch_entry_ok st lit w)) \<and>
     (\<forall>p c. st p = Some c \<and> \<not> cl_garbage c \<longrightarrow>
        p \<in> w_clause ` set (W (cl_lits c ! 0)) \<and> p \<in> w_clause ` set (W (cl_lits c ! 1)))"

text \<open>The later trail position of the two watches.\<close>

definition watch_height :: "('p, 'h) internal \<Rightarrow> clause_data \<Rightarrow> nat" where
  "watch_height s c = max (ivar_trail s \<bar>cl_lits c ! 0\<bar>) (ivar_trail s \<bar>cl_lits c ! 1\<bar>)"

definition both_processed :: "('p, 'h) internal \<Rightarrow> clause_data \<Rightarrow> bool" where
  "both_processed s c \<longleftrightarrow> ivals s (cl_lits c ! 0) < 0 \<and> ivals s (cl_lits c ! 1) < 0 \<and> watch_height s c < ipropagated s"

definition rescued :: "('p, 'h) internal \<Rightarrow> clause_data \<Rightarrow> bool" where
  "rescued s c \<longleftrightarrow> (\<exists>k \<in> set (cl_lits c). ivals s k > 0 \<and>
     (\<forall>d \<le> ilevel s. watch_height s c < trail_start s d \<longrightarrow> ivar_level s \<bar>k\<bar> < d))"

text \<open>All clauses but those in \<open>R\<close> are fine.\<close>

definition claims :: "nat set \<Rightarrow> ('p, 'h) internal \<Rightarrow> bool" where
  "claims R s \<longleftrightarrow> (\<forall>p c. istore s p = Some c \<and> \<not> cl_garbage c \<and> p \<notin> R \<and> both_processed s c \<longrightarrow> rescued s c)"

text \<open>With a conflict, only clauses whose watches lie below the current decision level are required to be fine.\<close>

definition exempt :: "('p, 'h) internal \<Rightarrow> nat set" where
  "exempt s = (case iconflict s of None \<Rightarrow> {}
     | Some q \<Rightarrow> insert q {p. \<exists>c. istore s p = Some c \<and> trail_start s (ilevel s) \<le> watch_height s c})"

definition search_ok :: "('p, 'h) internal \<Rightarrow> bool" where
  "search_ok s \<longleftrightarrow> trail_ok s \<and> control_ok s \<and> clauses_ok s \<and> watching_ok (istore s) (iwatches s) \<and> claims (exempt s) s"

lemmas search_ok_defs = trail_ok_def control_ok_def clauses_ok_def claims_def both_processed_def rescued_def
  watch_height_def trail_start_def clause_ok_def ilit_ok_def

section \<open>Values and the trail\<close>

lemma ilit_ok_uminus [simp]: "ilit_ok s (- l) = ilit_ok s l"
  by (simp add: ilit_ok_def)

lemma trail_ok_val: "trail_ok s \<Longrightarrow> ilit_ok s l \<Longrightarrow> val s l = Some (if l \<in> set (itrail s) then 1 else if - l \<in> set (itrail s) then -1 else 0)"
  by (simp add: trail_ok_def val_def)

lemma trail_ok_ivals:
  assumes "trail_ok s" "ilit_ok s l"
  shows "ivals s l > 0 \<longleftrightarrow> l \<in> set (itrail s)" "ivals s l < 0 \<longleftrightarrow> - l \<in> set (itrail s)"
    "ivals s l = 0 \<longleftrightarrow> l \<notin> set (itrail s) \<and> - l \<notin> set (itrail s)"
proof -
  have "\<not> (l \<in> set (itrail s) \<and> - l \<in> set (itrail s))"
  proof
    assume "l \<in> set (itrail s) \<and> - l \<in> set (itrail s)"
    moreover have "distinct (map abs (itrail s))" using assms by (simp add: trail_ok_def)
    ultimately have "l = - l" unfolding distinct_map inj_on_def by (metis abs_minus_cancel)
    then show False using assms(2) by (simp add: ilit_ok_def)
  qed
  moreover have "ivals s l = (if l \<in> set (itrail s) then 1 else if - l \<in> set (itrail s) then -1 else 0)"
    using assms by (auto simp: trail_ok_def)
  ultimately show "ivals s l > 0 \<longleftrightarrow> l \<in> set (itrail s)" "ivals s l < 0 \<longleftrightarrow> - l \<in> set (itrail s)"
    "ivals s l = 0 \<longleftrightarrow> l \<notin> set (itrail s) \<and> - l \<notin> set (itrail s)"
    by auto
qed

lemma trail_ok_position:
  assumes "trail_ok s" "l \<in> set (itrail s)"
  shows "ivar_trail s \<bar>l\<bar> < length (itrail s)" "itrail s ! ivar_trail s \<bar>l\<bar> = l"
  using assms by (auto simp: trail_ok_def in_set_conv_nth)

text \<open>A full trail assigns every variable.\<close>

lemma trail_bound: "trail_ok s \<Longrightarrow> int (length (itrail s)) \<le> max 0 (imax_var s)"
proof -
  assume ok: "trail_ok s"
  have "set (map abs (itrail s)) \<subseteq> {1..imax_var s}"
    using ok by (auto simp: trail_ok_def ilit_ok_def)
  then have "card (set (map abs (itrail s))) \<le> card {1..imax_var s}" by (intro card_mono) auto
  moreover have "card (set (map abs (itrail s))) = length (itrail s)"
    using ok distinct_card[of "map abs (itrail s)"] by (simp add: trail_ok_def)
  ultimately show ?thesis by simp
qed

lemma trail_full:
  assumes "trail_ok s" "int (length (itrail s)) = imax_var s" "ilit_ok s l"
  shows "l \<in> set (itrail s) \<or> - l \<in> set (itrail s)"
proof -
  have sub: "set (map abs (itrail s)) \<subseteq> {1..imax_var s}"
    using assms(1) by (auto simp: trail_ok_def ilit_ok_def)
  have "card (set (map abs (itrail s))) = card {1..imax_var s}"
    using assms(1,2) distinct_card[of "map abs (itrail s)"] by (simp add: trail_ok_def)
  with sub have "set (map abs (itrail s)) = {1..imax_var s}" by (intro card_subset_eq) auto
  moreover have "\<bar>l\<bar> \<in> {1..imax_var s}" using assms(3) by (auto simp: ilit_ok_def)
  ultimately obtain k where "k \<in> set (itrail s)" "\<bar>k\<bar> = \<bar>l\<bar>" by (metis image_iff list.set_map)
  then show ?thesis by (auto simp: abs_eq_iff)
qed

lemma clause_ok_watches:
  assumes "clause_ok s c"
  shows "cl_lits c ! 0 \<in> set (cl_lits c)" "cl_lits c ! 1 \<in> set (cl_lits c)" "\<bar>cl_lits c ! 0\<bar> \<noteq> \<bar>cl_lits c ! 1\<bar>"
    "cl_lits c ! 0 \<noteq> cl_lits c ! 1" "ilit_ok s (cl_lits c ! 0)" "ilit_ok s (cl_lits c ! 1)"
    "0 < length (cl_lits c)" "1 < length (cl_lits c)"
proof -
  obtain a b r where "cl_lits c = a # b # r"
    using assms by (cases "cl_lits c"; cases "tl (cl_lits c)") (auto simp: clause_ok_def)
  then show "cl_lits c ! 0 \<in> set (cl_lits c)" "cl_lits c ! 1 \<in> set (cl_lits c)" "\<bar>cl_lits c ! 0\<bar> \<noteq> \<bar>cl_lits c ! 1\<bar>"
    "cl_lits c ! 0 \<noteq> cl_lits c ! 1" "ilit_ok s (cl_lits c ! 0)" "ilit_ok s (cl_lits c ! 1)"
    "0 < length (cl_lits c)" "1 < length (cl_lits c)"
    using assms by (auto simp: clause_ok_def)
qed

text \<open>At a leaf of the search every clause is true.\<close>

lemma leaf_satisfies:
  assumes ok: "search_ok s" and leaf: "satisfied s" "iconflict s = None"
    and c: "istore s p = Some c" "\<not> cl_garbage c"
  shows "\<exists>k \<in> set (cl_lits c). ivals s k > 0"
proof (rule ccontr)
  assume none: "\<not> (\<exists>k \<in> set (cl_lits c). ivals s k > 0)"
  have ok': "trail_ok s" "control_ok s" "clause_ok s c" "claims {} s"
    using ok c leaf(2) by (auto simp: search_ok_def clauses_ok_def exempt_def)
  have full: "int (length (itrail s)) = imax_var s" and pr: "ipropagated s = length (itrail s)"
    using leaf(1) ok'(2) by (auto simp: satisfied_def control_ok_def)
  have false: "ivals s l < 0" "ivar_trail s \<bar>l\<bar> < ipropagated s" if "l \<in> set (cl_lits c)" for l
  proof -
    have l: "ilit_ok s l" using that ok'(3) by (auto simp: clause_ok_def)
    have "\<not> ivals s l > 0" using none that by blast
    with trail_full[OF ok'(1) full l] trail_ok_ivals[OF ok'(1) l] have t: "- l \<in> set (itrail s)" by auto
    then show "ivals s l < 0" using trail_ok_ivals[OF ok'(1) l] by simp
    show "ivar_trail s \<bar>l\<bar> < ipropagated s" using trail_ok_position(1)[OF ok'(1) t] pr by simp
  qed
  from clause_ok_watches(1,2)[OF ok'(3)] false have "both_processed s c" by (simp add: both_processed_def watch_height_def)
  then have "rescued s c" using ok'(4) c by (auto simp: claims_def)
  with none show False by (auto simp: rescued_def)
qed

section \<open>Assignment\<close>

text \<open>The callbacks and the heuristics return.\<close>

definition responsive :: "('p, 'h) config \<Rightarrow> bool" where
  "responsive E \<longleftrightarrow> (\<forall>l b p. on_assignment (pops E) l b p \<noteq> None) \<and> (\<forall>p. on_new_level (pops E) p \<noteq> None) \<and>
     (\<forall>n p. on_backtrack (pops E) n p \<noteq> None) \<and> (\<forall>i h. heur_unassign (hops E) i h \<noteq> None)"

text \<open>What assigning, notifying and tracing leave alone.\<close>

definition same_base :: "('p, 'h) internal \<Rightarrow> ('p, 'h) internal \<Rightarrow> bool" where
  "same_base s s' \<longleftrightarrow> imax_var s' = imax_var s \<and> icontrol s' = icontrol s \<and> ilevel s' = ilevel s \<and>
     ipropagated s' = ipropagated s \<and> iconflict s' = iconflict s \<and> istore s' = istore s \<and> ifresh s' = ifresh s \<and>
     iwatches s' = iwatches s \<and> iunsat s' = iunsat s \<and> iassumptions s' = iassumptions s \<and> iconstraint s' = iconstraint s \<and>
     iclause s' = iclause s \<and> isearching_lucky_phases s' = isearching_lucky_phases s \<and>
     iclauses s' = iclauses s \<and> iseen s' = iseen s \<and> ianalyzed s' = ianalyzed s \<and> iminimized s' = iminimized s \<and>
     ikeep s' = ikeep s \<and> ipoison s' = ipoison s \<and> iremovable s' = iremovable s \<and> imarks s' = imarks s \<and> ioriginal s' = ioriginal s"

definition same_trail :: "('p, 'h) internal \<Rightarrow> ('p, 'h) internal \<Rightarrow> bool" where
  "same_trail s s' \<longleftrightarrow> itrail s' = itrail s \<and> ivals s' = ivals s \<and> ivar_level s' = ivar_level s \<and>
     ivar_trail s' = ivar_trail s \<and> ivar_reason s' = ivar_reason s"

definition extended_by :: "int \<Rightarrow> nat \<Rightarrow> ('p, 'h) internal \<Rightarrow> ('p, 'h) internal \<Rightarrow> bool" where
  "extended_by lit lv s s' \<longleftrightarrow> itrail s' = itrail s @ [lit] \<and>
     ivals s' = (ivals s)(\<bar>lit\<bar> := sgn lit, - \<bar>lit\<bar> := - sgn lit) \<and>
     ivar_level s' = (ivar_level s)(\<bar>lit\<bar> := lv) \<and> ivar_trail s' = (ivar_trail s)(\<bar>lit\<bar> := length (itrail s))"

lemma same_base_trans: "same_base s s' \<Longrightarrow> same_base s' s'' \<Longrightarrow> same_base s s''"
  by (simp add: same_base_def)

lemma mark_fixed_returns:
  "responsive E \<Longrightarrow> \<exists>s'. mark_fixed E s lit = Some s' \<and> same_base s s' \<and> same_trail s s'"
proof (cases "eager E \<and> observed s lit")
  case True
  assume "responsive E"
  then obtain p where "on_assignment (pops E) (externalize s lit) True (iprop s) = Some p"
    unfolding responsive_def by blast
  with True show ?thesis by (simp add: mark_fixed_def same_base_def same_trail_def)
qed (auto simp: mark_fixed_def same_base_def same_trail_def)

lemma learn_unit_returns:
  "responsive E \<Longrightarrow> \<exists>s'. learn_unit_clause E s lit = Some s' \<and> same_base s s' \<and> same_trail s s'"
  using mark_fixed_returns[of E "trace s (Derived [lit])" lit]
  by (auto simp: learn_unit_clause_def trace_def same_base_def same_trail_def)

lemma search_assign_effect:
  assumes E: "responsive E" and lit: "ilit_ok s lit" and lv: "literal_level E s lit reason = Some lv"
    and nr: "reason \<noteq> External_Reason"
  shows "\<exists>s'. search_assign E s lit reason = Some s' \<and> same_base s s' \<and> extended_by lit lv s s' \<and>
    ivar_reason s' = (ivar_reason s)(\<bar>lit\<bar> := if reason = Decision_Reason \<or> lv = 0 then No_Reason else reason)"
proof -
  let ?s1 = "s\<lparr>ivar_level := (ivar_level s)(\<bar>lit\<bar> := lv), ivar_trail := (ivar_trail s)(\<bar>lit\<bar> := length (itrail s)),
      ivar_reason := (ivar_reason s)(\<bar>lit\<bar> := if reason = Decision_Reason \<or> lv = 0 then No_Reason else reason)\<rparr>"
  obtain s2 where s2: "(if lv = 0 then learn_unit_clause E ?s1 lit else Some ?s1) = Some s2" "same_base ?s1 s2" "same_trail ?s1 s2"
    using learn_unit_returns[OF E, of ?s1 lit] by (cases "lv = 0") (auto simp: same_base_def same_trail_def)
  define s3 where "s3 = (if isearching_lucky_phases (set_val s2 lit) then set_val s2 lit
      else (set_val s2 lit)\<lparr>isaved := (isaved (set_val s2 lit))(\<bar>lit\<bar> := sgn lit)\<rparr>)"
  have "search_assign E s lit reason = Some (s3\<lparr>itrail := itrail s3 @ [lit]\<rparr>)"
    using lit lv s2(1) nr by (simp add: search_assign_def eager_reason_def Let_def s3_def)
  moreover have "same_base s (s3\<lparr>itrail := itrail s3 @ [lit]\<rparr>)" "extended_by lit lv s (s3\<lparr>itrail := itrail s3 @ [lit]\<rparr>)"
    "ivar_reason (s3\<lparr>itrail := itrail s3 @ [lit]\<rparr>) = (ivar_reason s)(\<bar>lit\<bar> := if reason = Decision_Reason \<or> lv = 0 then No_Reason else reason)"
    using s2(2,3) by (auto simp: s3_def set_val_def same_base_def same_trail_def extended_by_def)
  ultimately show ?thesis by blast
qed

lemma max_level_except_bound:
  "\<forall>l \<in> set ls. ilit_ok s l \<Longrightarrow> \<forall>l \<in> set ls. l \<noteq> lit \<longrightarrow> ivar_level s \<bar>l\<bar> \<le> n \<Longrightarrow> m \<le> n \<Longrightarrow>
   \<exists>lv. max_level_except s lit ls m = Some lv \<and> lv \<le> n"
  by (induction ls arbitrary: m) (auto simp: var_level_def)

lemma max_level_except_upper:
  "max_level_except s lit ls m = Some lv \<Longrightarrow> m \<le> lv \<and> (\<forall>l \<in> set ls. l \<noteq> lit \<longrightarrow> ivar_level s \<bar>l\<bar> \<le> lv)"
proof (induction ls arbitrary: m)
  case (Cons l ls)
  show ?case
  proof (cases "l = lit")
    case False
    then have "max_level_except s lit ls (if ivar_level s \<bar>l\<bar> > m then ivar_level s \<bar>l\<bar> else m) = Some lv"
      using Cons.prems by (auto simp: var_level_def split: if_splits)
    from Cons.IH[OF this] show ?thesis by (auto split: if_splits)
  qed (use Cons in auto)
qed simp

lemma search_assign_clause:
  assumes E: "responsive E" and ok: "trail_ok s" and lit: "ilit_ok s lit" and c: "istore s p = Some c" "clause_ok s c"
    and others: "\<forall>l \<in> set (cl_lits c). l \<noteq> lit \<longrightarrow> ivals s l \<noteq> 0"
  shows "\<exists>s' lv. search_assign E s lit (Reason_Clause p) = Some s' \<and> lv \<le> ilevel s \<and> same_base s s' \<and> extended_by lit lv s s' \<and>
    literal_level E s lit (Reason_Clause p) = Some lv \<and>
    ivar_reason s' = (ivar_reason s)(\<bar>lit\<bar> := if lv = 0 then No_Reason else Reason_Clause p) \<and>
    (\<forall>l \<in> set (cl_lits c). l \<noteq> lit \<longrightarrow> ivar_level s \<bar>l\<bar> \<le> lv)"
proof -
  have lev: "ivar_level s \<bar>l\<bar> \<le> ilevel s" if "l \<in> set (cl_lits c)" "l \<noteq> lit" for l
  proof -
    have "ilit_ok s l" "ivals s l \<noteq> 0" using that c(2) others by (auto simp: clause_ok_def)
    then have "l \<in> set (itrail s) \<or> - l \<in> set (itrail s)" using trail_ok_ivals[OF ok] by auto
    then show ?thesis using ok unfolding trail_ok_def by (metis abs_minus_cancel)
  qed
  with c(2) obtain m where m: "max_level_except s lit (cl_lits c) 0 = Some m" "m \<le> ilevel s"
    using max_level_except_bound[of "cl_lits c" s lit "ilevel s" 0] by (auto simp: clause_ok_def)
  then have "\<exists>lv. literal_level E s lit (Reason_Clause p) = Some lv \<and> lv \<le> ilevel s \<and>
      (\<forall>l \<in> set (cl_lits c). l \<noteq> lit \<longrightarrow> ivar_level s \<bar>l\<bar> \<le> lv)"
    using c(1) max_level_except_upper[OF m(1)] lev by (auto simp: literal_level_def)
  then obtain lv where lv: "literal_level E s lit (Reason_Clause p) = Some lv" "lv \<le> ilevel s"
    "\<forall>l \<in> set (cl_lits c). l \<noteq> lit \<longrightarrow> ivar_level s \<bar>l\<bar> \<le> lv" by blast
  from search_assign_effect[OF E lit lv(1)] lv show ?thesis by fastforce
qed

lemma extended_by_vals:
  assumes "extended_by lit lv s s'" "lit \<noteq> 0"
  shows "ivals s' lit = 1" "ivals s' (- lit) = -1" "\<bar>l\<bar> \<noteq> \<bar>lit\<bar> \<Longrightarrow> ivals s' l = ivals s l"
  using assms by (auto simp: extended_by_def sgn_if abs_if split: if_splits)

lemma trail_ok_extended:
  assumes ok: "trail_ok s" and lit: "ilit_ok s lit" "ivals s lit = 0" and ext: "extended_by lit lv s s'"
    and lv: "lv \<le> ilevel s'" and base: "imax_var s' = imax_var s" "ilevel s \<le> ilevel s'"
  shows "trail_ok s'"
proof -
  have ok': "ilit_ok s' l = ilit_ok s l" for l using base by (simp add: ilit_ok_def)
  have new: "lit \<notin> set (itrail s)" "- lit \<notin> set (itrail s)" using trail_ok_ivals(3)[OF ok lit(1)] lit(2) by auto
  have abs_new: "\<bar>l\<bar> \<noteq> \<bar>lit\<bar>" if "l \<in> set (itrail s)" for l using new that by (auto simp: abs_eq_iff)
  have tr: "itrail s' = itrail s @ [lit]" using ext by (simp add: extended_by_def)
  have nz: "lit \<noteq> 0" using lit by (simp add: ilit_ok_def)
  show ?thesis
    unfolding trail_ok_def
  proof (intro conjI)
    show "\<forall>l \<in> set (itrail s'). ilit_ok s' l" using ok lit by (auto simp: ok' tr trail_ok_def)
    have "\<bar>lit\<bar> \<notin> abs ` set (itrail s)" using abs_new by (metis imageE)
    then show "distinct (map abs (itrail s'))" using ok by (simp add: trail_ok_def tr)
    show "\<forall>l. ilit_ok s' l \<longrightarrow> ivals s' l = (if l \<in> set (itrail s') then 1 else if - l \<in> set (itrail s') then -1 else 0)"
    proof (intro allI impI)
      fix l assume "ilit_ok s' l"
      then have l: "ilit_ok s l" by (simp add: ok')
      consider "l = lit" | "l = - lit" | "\<bar>l\<bar> \<noteq> \<bar>lit\<bar>" by (auto simp: abs_eq_iff)
      then show "ivals s' l = (if l \<in> set (itrail s') then 1 else if - l \<in> set (itrail s') then -1 else 0)"
      proof cases
        case 3
        then have "l \<noteq> lit" "- l \<noteq> lit" by auto
        moreover have "ivals s l = (if l \<in> set (itrail s) then 1 else if - l \<in> set (itrail s) then -1 else 0)"
          using ok l by (auto simp: trail_ok_def)
        ultimately show ?thesis using extended_by_vals(3)[OF ext nz 3] by (simp add: tr)
      qed (use extended_by_vals[OF ext nz] nz new in \<open>auto simp: tr\<close>)
    qed
    show "\<forall>i < length (itrail s'). ivar_trail s' \<bar>itrail s' ! i\<bar> = i"
      using ok ext abs_new by (auto simp: trail_ok_def extended_by_def nth_append less_Suc_eq)
    show "\<forall>l \<in> set (itrail s'). ivar_level s' \<bar>l\<bar> \<le> ilevel s'"
      using ok ext lv abs_new base(2) by (fastforce simp: trail_ok_def extended_by_def)
  qed
qed

lemma control_ok_extended:
  assumes ok: "control_ok s" and ext: "extended_by lit lv s s'" and base: "same_base s s'"
    and new: "lit \<notin> set (itrail s)" "- lit \<notin> set (itrail s)"
  shows "control_ok s'"
proof -
  have ts: "trail_start s' d = trail_start s d" for d using base by (simp add: same_base_def trail_start_def)
  have bound: "trail_start s d \<le> length (itrail s)" if "d \<le> ilevel s" for d
    using ok that unfolding control_ok_def by (meson le_refl le_trans)
  have "ivar_level s' \<bar>itrail s' ! i\<bar> < d" if "d \<le> ilevel s" "i < trail_start s d" for d i
  proof -
    have i: "i < length (itrail s)" using bound that by fastforce
    then have "\<bar>itrail s ! i\<bar> \<noteq> \<bar>lit\<bar>" using new by (metis abs_eq_iff nth_mem)
    then show ?thesis using ok that ext i by (simp add: control_ok_def extended_by_def nth_append)
  qed
  then show ?thesis using ok ext base by (auto simp: control_ok_def ts same_base_def extended_by_def)
qed

lemma claims_extended:
  assumes "claims R s" and ok: "trail_ok s" "control_ok s" "clauses_ok s" and ext: "extended_by lit lv s s'" and base: "same_base s s'"
    and lit: "ilit_ok s lit" "ivals s lit = 0"
  shows "claims R s'"
  unfolding claims_def
proof (intro allI impI, elim conjE)
  fix p c assume c: "istore s' p = Some c" "\<not> cl_garbage c" "p \<notin> R" and b: "both_processed s' c"
  have st: "istore s p = Some c" and cok: "clause_ok s c" using c(1) ok(3) base by (auto simp: same_base_def clauses_ok_def)
  have nz: "lit \<noteq> 0" using lit by (simp add: ilit_ok_def)
  have le: "ipropagated s \<le> length (itrail s)" using ok(2) by (simp add: control_ok_def)
  have w: "\<bar>cl_lits c ! i\<bar> \<noteq> \<bar>lit\<bar>" if "i = 0 \<or> i = 1" for i
  proof
    assume "\<bar>cl_lits c ! i\<bar> = \<bar>lit\<bar>"
    then have "ivar_trail s' \<bar>cl_lits c ! i\<bar> = length (itrail s)" using ext by (simp add: extended_by_def)
    then show False using b that le base by (auto simp: both_processed_def watch_height_def same_base_def)
  qed
  have same: "ivals s' (cl_lits c ! i) = ivals s (cl_lits c ! i)" "ivar_trail s' \<bar>cl_lits c ! i\<bar> = ivar_trail s \<bar>cl_lits c ! i\<bar>"
    if "i = 0 \<or> i = 1" for i
    using extended_by_vals(3)[OF ext nz w[OF that]] w[OF that] ext by (auto simp: extended_by_def)
  have h: "watch_height s' c = watch_height s c" using same by (simp add: watch_height_def)
  have "both_processed s c" using b same h base by (simp add: both_processed_def same_base_def)
  then obtain k where k: "k \<in> set (cl_lits c)" "ivals s k > 0"
    "\<forall>d \<le> ilevel s. watch_height s c < trail_start s d \<longrightarrow> ivar_level s \<bar>k\<bar> < d"
    using assms(1) st c unfolding claims_def rescued_def by blast
  have "ivals s (- lit) = 0" using trail_ok_ivals(3)[OF ok(1)] lit by (metis add.inverse_inverse ilit_ok_uminus)
  with k(2) lit(2) have "\<bar>k\<bar> \<noteq> \<bar>lit\<bar>" by (auto simp: abs_eq_iff)
  then have "ivals s' k > 0" "ivar_level s' \<bar>k\<bar> = ivar_level s \<bar>k\<bar>"
    using k(2) extended_by_vals(3)[OF ext nz] ext by (auto simp: extended_by_def)
  moreover have "trail_start s' d = trail_start s d" "ilevel s' = ilevel s" for d
    using base by (simp_all add: same_base_def trail_start_def)
  ultimately show "rescued s' c" using k h by (auto simp: rescued_def)
qed

end
