(* ===== verification/Solver_Propagate.thy ===== *)
theory Solver_Propagate
  imports Solver_Invariant
begin

text \<open>
  Unit propagation returns, keeps the invariant of the search and only permutes clauses.
\<close>

section \<open>Watch lists\<close>

lemma watching_ok_entry:
  assumes "watching_ok st W" "w \<in> set (W lit)"
  obtains c where "st (w_clause w) = Some c" "w_size w = length (cl_lits c)" "lit = cl_lits c ! 0 \<or> lit = cl_lits c ! 1"
    "w_blit w \<in> set (cl_lits c)" "w_blit w \<noteq> lit"
  using assms unfolding watching_ok_def watch_entry_ok_def by blast

lemma watching_ok_distinct: "watching_ok st W \<Longrightarrow> distinct (map w_clause (W lit))"
  by (simp add: watching_ok_def)

lemma watching_ok_watched:
  "watching_ok st W \<Longrightarrow> st p = Some c \<Longrightarrow> \<not> cl_garbage c \<Longrightarrow> i = 0 \<or> i = 1 \<Longrightarrow> p \<in> w_clause ` set (W (cl_lits c ! i))"
  unfolding watching_ok_def by auto

lemma watching_okI:
  assumes "\<And>lit. distinct (map w_clause (W lit))" and "\<And>lit w. w \<in> set (W lit) \<Longrightarrow> watch_entry_ok st lit w"
    and "\<And>p c i. st p = Some c \<Longrightarrow> \<not> cl_garbage c \<Longrightarrow> i = 0 \<or> i = 1 \<Longrightarrow> p \<in> w_clause ` set (W (cl_lits c ! i))"
  shows "watching_ok st W"
  using assms unfolding watching_ok_def by blast

lemma watching_ok_blit:
  assumes ok: "watching_ok st W" and W: "W lit = kept @ w # ws" and c: "st (w_clause w) = Some c"
    and b: "b \<in> set (cl_lits c)" "b \<noteq> lit"
  shows "watching_ok st (W(lit := kept @ (w\<lparr>w_blit := b\<rparr>) # ws))"
proof (rule watching_okI)
  let ?W = "W(lit := kept @ (w\<lparr>w_blit := b\<rparr>) # ws)"
  have ids: "map w_clause (?W l) = map w_clause (W l)" for l using W by simp
  show "distinct (map w_clause (?W l))" for l using watching_ok_distinct[OF ok] ids by simp
  have sets: "w_clause ` set (?W l) = w_clause ` set (W l)" for l using ids by (metis set_map)
  show "p \<in> w_clause ` set (?W (cl_lits d ! i))" if "st p = Some d" "\<not> cl_garbage d" "i = 0 \<or> i = 1" for p d i
    using watching_ok_watched[OF ok that] sets by simp
  have w: "watch_entry_ok st lit w" using ok W by (simp add: watching_ok_def)
  then have "watch_entry_ok st lit (w\<lparr>w_blit := b\<rparr>)" using c b by (auto simp: watch_entry_ok_def)
  then show "watch_entry_ok st l x" if "x \<in> set (?W l)" for l x
    using that ok W by (auto simp: watching_ok_def split: if_splits)
qed

lemma watching_ok_drop_garbage:
  assumes ok: "watching_ok st W" and W: "W lit = kept @ w # ws" and c: "st (w_clause w) = Some c" "cl_garbage c"
  shows "watching_ok st (W(lit := kept @ ws))"
proof (rule watching_okI)
  let ?W = "W(lit := kept @ ws)"
  show "distinct (map w_clause (?W l))" for l
    using watching_ok_distinct[OF ok, of l] W by (cases "l = lit") (simp_all add: disjoint_iff)
  show "watch_entry_ok st l x" if "x \<in> set (?W l)" for l x
    using that ok W by (auto simp: watching_ok_def split: if_splits)
  show "p \<in> w_clause ` set (?W (cl_lits d ! i))" if "st p = Some d" "\<not> cl_garbage d" "i = 0 \<or> i = 1" for p d i
    using watching_ok_watched[OF ok that] that c W by auto
qed

text \<open>The two watches may change places.\<close>

lemma watching_ok_same_watches:
  assumes ok: "watching_ok st W" and c: "st p = Some c" and c': "{cl_lits c' ! 0, cl_lits c' ! 1} = {cl_lits c ! 0, cl_lits c ! 1}"
    "set (cl_lits c') = set (cl_lits c)" "length (cl_lits c') = length (cl_lits c)" "cl_garbage c' = cl_garbage c"
  shows "watching_ok (st(p \<mapsto> c')) W"
proof (rule watching_okI)
  show "distinct (map w_clause (W l))" for l by (rule watching_ok_distinct[OF ok])
  show "watch_entry_ok (st(p \<mapsto> c')) l w" if "w \<in> set (W l)" for l w
  proof (rule watching_ok_entry[OF ok that])
    fix d assume d: "st (w_clause w) = Some d" "w_size w = length (cl_lits d)" "l = cl_lits d ! 0 \<or> l = cl_lits d ! 1"
      "w_blit w \<in> set (cl_lits d)" "w_blit w \<noteq> l"
    show ?thesis
    proof (cases "w_clause w = p")
      case True
      then have "d = c" using c d(1) by simp
      then have "l \<in> {cl_lits c' ! 0, cl_lits c' ! 1}" using d(3) c'(1) by simp
      then show ?thesis using True d \<open>d = c\<close> c' by (auto simp: watch_entry_ok_def)
    qed (use d in \<open>simp add: watch_entry_ok_def\<close>)
  qed
  show "q \<in> w_clause ` set (W (cl_lits d ! i))" if "(st(p \<mapsto> c')) q = Some d" "\<not> cl_garbage d" "i = 0 \<or> i = 1" for q d i
  proof (cases "q = p")
    case True
    then have "d = c'" "\<not> cl_garbage c" using that c'(4) by auto
    moreover have "cl_lits c' ! i \<in> {cl_lits c ! 0, cl_lits c ! 1}" using c'(1) that(3) by blast
    ultimately show ?thesis using True watching_ok_watched[OF ok c, of 0] watching_ok_watched[OF ok c, of 1] by auto
  qed (use that watching_ok_watched[OF ok, of q d i] in simp)
qed

lemma watching_ok_same_lits:
  assumes ok: "watching_ok st W" and c: "st p = Some c" and c': "cl_lits c' = cl_lits c" "cl_garbage c' = cl_garbage c"
  shows "watching_ok (st(p \<mapsto> c')) W"
  by (rule watching_ok_same_watches[OF ok c]) (simp_all add: c')

text \<open>The watch moves from \<open>lit\<close> to \<open>r\<close>, which was no watch of the clause before.\<close>

lemma watching_ok_rewatch:
  assumes ok: "watching_ok st W" and c: "st p = Some c"
    and r: "r \<noteq> cl_lits c ! 0" "r \<noteq> cl_lits c ! 1" and b: "b \<in> set (cl_lits c)" "b \<noteq> r"
    and c': "{cl_lits c' ! 0, cl_lits c' ! 1} = {other, r}" "set (cl_lits c') = set (cl_lits c)"
      "length (cl_lits c') = length (cl_lits c)" "cl_garbage c' = cl_garbage c"
    and other: "{cl_lits c ! 0, cl_lits c ! 1} = {lit, other}" "other \<noteq> lit"
    and n: "n = length (cl_lits c)"
  shows "watching_ok (st(p \<mapsto> c'))
    (W(lit := List.filter (\<lambda>w. w_clause w \<noteq> p) (W lit), r := W r @ [\<lparr>w_clause = p, w_blit = b, w_size = n\<rparr>]))"
    (is "watching_ok ?st ?W")
proof (rule watching_okI)
  have rl: "r \<noteq> lit" "r \<noteq> other" using r other by (auto simp: doubleton_eq_iff)
  have notin: "p \<notin> w_clause ` set (W l)" if "l \<noteq> lit" "l \<noteq> other" for l
  proof
    assume "p \<in> w_clause ` set (W l)"
    then obtain x where x: "x \<in> set (W l)" "w_clause x = p" by auto
    have "l \<in> {cl_lits c ! 0, cl_lits c ! 1}" by (rule watching_ok_entry[OF ok x(1)]) (use c x(2) in simp)
    then have "l \<in> {lit, other}" using other(1) by (simp only:)
    then show False using that by simp
  qed
  have d: "distinct (map w_clause (W l))" for l by (rule watching_ok_distinct[OF ok])
  show "distinct (map w_clause (?W l))" for l
    using d[of l] d[of lit] notin[of r] rl by (cases "l = lit"; cases "l = r") (simp_all add: distinct_map_filter)
  show "watch_entry_ok ?st l x" if x: "x \<in> set (?W l)" for l x
  proof (cases "w_clause x = p")
    case False
    then have "x \<in> set (W l)" using x by (auto split: if_splits)
    then have "watch_entry_ok st l x" using ok by (simp add: watching_ok_def)
    then show ?thesis using False by (simp add: watch_entry_ok_def)
  next
    case True
    have "l \<noteq> lit" using x True rl by auto
    show ?thesis
    proof (cases "l = r")
      case True
      then have "x = \<lparr>w_clause = p, w_blit = b, w_size = n\<rparr>"
        using x notin[of r] rl \<open>w_clause x = p\<close> by auto
      then show ?thesis using True b c' n by (auto simp: watch_entry_ok_def doubleton_eq_iff)
    next
      case False
      with x \<open>l \<noteq> lit\<close> have xl: "x \<in> set (W l)" by simp
      with notin[of l] \<open>l \<noteq> lit\<close> True have "l = other" by auto
      moreover have "w_size x = length (cl_lits c) \<and> w_blit x \<in> set (cl_lits c) \<and> w_blit x \<noteq> l"
        by (rule watching_ok_entry[OF ok xl]) (use True c in simp)
      ultimately show ?thesis unfolding watch_entry_ok_def using True c' by (intro exI[of _ c']) (auto simp: doubleton_eq_iff)
    qed
  qed
  show "q \<in> w_clause ` set (?W (cl_lits e ! i))" if e: "?st q = Some e" "\<not> cl_garbage e" "i = 0 \<or> i = 1" for q e i
  proof (cases "q = p")
    case True
    then have "e = c'" using e by simp
    have "p \<in> w_clause ` set (W other)"
      using watching_ok_watched[OF ok c, of 0] watching_ok_watched[OF ok c, of 1] other e(2) c'(4) \<open>e = c'\<close>
      by (auto simp: doubleton_eq_iff)
    moreover have "cl_lits e ! i \<in> {other, r}" using c'(1) e(3) \<open>e = c'\<close> by blast
    ultimately show ?thesis using True rl other(2) by auto
  next
    case False
    then have "q \<in> w_clause ` set (W (cl_lits e ! i))" using watching_ok_watched[OF ok] e by simp
    then show ?thesis using False by auto
  qed
qed

lemma watching_ok_move:
  assumes ok: "watching_ok st W" and W: "W lit = kept @ w # ws" and p: "w_clause w = p" and c: "st p = Some c"
    and r: "r \<noteq> cl_lits c ! 0" "r \<noteq> cl_lits c ! 1" and b: "b \<in> set (cl_lits c)" "b \<noteq> r"
    and c': "cl_lits c' ! 0 = other" "cl_lits c' ! 1 = r" "set (cl_lits c') = set (cl_lits c)"
      "length (cl_lits c') = length (cl_lits c)" "cl_garbage c' = cl_garbage c"
    and other: "{cl_lits c ! 0, cl_lits c ! 1} = {lit, other}" "other \<noteq> lit"
    and n: "n = length (cl_lits c)"
  shows "watching_ok (st(p \<mapsto> c')) (W(lit := kept @ ws, r := W r @ [\<lparr>w_clause = p, w_blit = b, w_size = n\<rparr>]))"
proof -
  have "p \<notin> w_clause ` set (kept @ ws)" using watching_ok_distinct[OF ok, of lit] W p by auto
  then have "List.filter (\<lambda>w. w_clause w \<noteq> p) kept = kept" "List.filter (\<lambda>w. w_clause w \<noteq> p) ws = ws"
    by (auto simp: filter_id_conv)
  then have "List.filter (\<lambda>w. w_clause w \<noteq> p) (W lit) = kept @ ws" using W p by simp
  then show ?thesis using watching_ok_rewatch[OF ok c r b _ c'(3-5) other n] c'(1,2) by (simp add: insert_commute)
qed

section \<open>Steps of the propagation\<close>

text \<open>What a step keeps: levels, control and the assigned literals; clauses may be permuted.\<close>

definition same_clause :: "clause_data \<Rightarrow> clause_data \<Rightarrow> bool" where
  "same_clause c c' \<longleftrightarrow> mset (cl_lits c') = mset (cl_lits c) \<and> cl_garbage c' = cl_garbage c \<and> cl_redundant c' = cl_redundant c"

definition permuted :: "(nat \<rightharpoonup> clause_data) \<Rightarrow> (nat \<rightharpoonup> clause_data) \<Rightarrow> bool" where
  "permuted st st' \<longleftrightarrow> (\<forall>p. rel_option same_clause (st p) (st' p))"

text \<open>Every assignment that satisfies all clauses and the literals on the trail satisfies \<open>lit\<close>.\<close>

definition implied :: "('p, 'h) internal \<Rightarrow> int \<Rightarrow> bool" where
  "implied s lit \<longleftrightarrow> (\<forall>\<tau>. (\<forall>p c. istore s p = Some c \<longrightarrow> clause_true \<tau> (cl_lits c)) \<longrightarrow>
     (\<forall>l \<in> set (itrail s). lit_true \<tau> l) \<longrightarrow> lit_true \<tau> lit)"

text \<open>Every assignment that satisfies all clauses and the root-level literals satisfies \<open>lit\<close>.\<close>

definition root_implied :: "('p, 'h) internal \<Rightarrow> int \<Rightarrow> bool" where
  "root_implied s lit \<longleftrightarrow> (\<forall>\<tau>. (\<forall>p c. istore s p = Some c \<longrightarrow> clause_true \<tau> (cl_lits c)) \<longrightarrow>
     (\<forall>l \<in> set (itrail s). ivar_level s \<bar>l\<bar> = 0 \<longrightarrow> lit_true \<tau> l) \<longrightarrow> lit_true \<tau> lit)"

text \<open>
  A literal that was not decided has a reason: a clause whose other literals are false since
  earlier on the trail and on levels not above its own.
\<close>

definition justified :: "('p, 'h) internal \<Rightarrow> int \<Rightarrow> bool" where
  "justified s l \<longleftrightarrow> (if ivar_level s \<bar>l\<bar> = 0 then ivar_reason s \<bar>l\<bar> = No_Reason
     else \<exists>p c. ivar_reason s \<bar>l\<bar> = Reason_Clause p \<and> istore s p = Some c \<and> l \<in> set (cl_lits c) \<and>
       (\<forall>k \<in> set (cl_lits c). k \<noteq> l \<longrightarrow> - k \<in> set (itrail s) \<and> ivar_trail s \<bar>k\<bar> < ivar_trail s \<bar>l\<bar> \<and>
          ivar_level s \<bar>k\<bar> \<le> ivar_level s \<bar>l\<bar>))"

definition prop_frame :: "('p, 'h) internal \<Rightarrow> ('p, 'h) internal \<Rightarrow> bool" where
  "prop_frame s s' \<longleftrightarrow> imax_var s' = imax_var s \<and> icontrol s' = icontrol s \<and> ilevel s' = ilevel s \<and>
     ipropagated s' = ipropagated s \<and> ifresh s' = ifresh s \<and> iunsat s' = iunsat s \<and> iassumptions s' = iassumptions s \<and>
     iconstraint s' = iconstraint s \<and> iclause s' = iclause s \<and> isearching_lucky_phases s' = isearching_lucky_phases s \<and>
     iclauses s' = iclauses s \<and> iseen s' = iseen s \<and> ianalyzed s' = ianalyzed s \<and> iminimized s' = iminimized s \<and>
     ikeep s' = ikeep s \<and> ipoison s' = ipoison s \<and> iremovable s' = iremovable s \<and> imarks s' = imarks s \<and>
     permuted (istore s) (istore s') \<and> (\<exists>ls. itrail s' = itrail s @ ls) \<and>
     (\<forall>l \<in> set (itrail s'). implied s l) \<and>
     (\<forall>l \<in> set (itrail s'). ivar_level s' \<bar>l\<bar> = 0 \<longrightarrow> root_implied s l) \<and>
     (\<forall>l \<in> set (itrail s'). l \<notin> set (itrail s) \<longrightarrow> justified s' l) \<and>
     (\<forall>l. ivals s l \<noteq> 0 \<longrightarrow> ivals s' l = ivals s l \<and> ivar_level s' \<bar>l\<bar> = ivar_level s \<bar>l\<bar> \<and> ivar_trail s' \<bar>l\<bar> = ivar_trail s \<bar>l\<bar>) \<and>
     (\<forall>l \<in> set (itrail s). ivar_level s' \<bar>l\<bar> = ivar_level s \<bar>l\<bar> \<and> ivar_trail s' \<bar>l\<bar> = ivar_trail s \<bar>l\<bar> \<and>
        ivar_reason s' \<bar>l\<bar> = ivar_reason s \<bar>l\<bar>)"

lemma justified_updates [simp]:
  "justified (s\<lparr>iconflict := x0\<rparr>) l = justified s l"
  "justified (s\<lparr>ipropagated := x1\<rparr>) l = justified s l"
  "justified (s\<lparr>iwatches := x2\<rparr>) l = justified s l"
  "justified (s\<lparr>iconflicts := x3\<rparr>) l = justified s l"
  "justified (s\<lparr>ino_conflict_until := x4\<rparr>) l = justified s l"
  by (simp_all add: justified_def)

lemma root_implied_updates [simp]:
  "root_implied (s\<lparr>iconflict := x0\<rparr>) l = root_implied s l"
  "root_implied (s\<lparr>ipropagated := x1\<rparr>) l = root_implied s l"
  "root_implied (s\<lparr>iwatches := x2\<rparr>) l = root_implied s l"
  "root_implied (s\<lparr>iconflicts := x3\<rparr>) l = root_implied s l"
  "root_implied (s\<lparr>ino_conflict_until := x4\<rparr>) l = root_implied s l"
  by (simp_all add: root_implied_def)

lemma implied_updates [simp]:
  "implied (s\<lparr>iconflict := x0\<rparr>) l = implied s l"
  "implied (s\<lparr>ipropagated := x1\<rparr>) l = implied s l"
  "implied (s\<lparr>iwatches := x2\<rparr>) l = implied s l"
  "implied (s\<lparr>iconflicts := x3\<rparr>) l = implied s l"
  "implied (s\<lparr>ino_conflict_until := x4\<rparr>) l = implied s l"
  by (simp_all add: implied_def)

lemma permuted_refl [simp]: "permuted st st"
  by (auto simp: permuted_def same_clause_def intro: option.rel_refl)

lemma permuted_trans: "permuted a b \<Longrightarrow> permuted b c \<Longrightarrow> permuted a c"
proof -
  assume ab: "permuted a b" and bc: "permuted b c"
  have "rel_option same_clause (a p) (c p)" for p
    using ab[unfolded permuted_def, rule_format, of p] bc[unfolded permuted_def, rule_format, of p]
    by (cases "a p"; cases "b p"; cases "c p") (auto simp: same_clause_def)
  then show ?thesis by (simp add: permuted_def)
qed

lemma permuted_update: "st p = Some c \<Longrightarrow> same_clause c c' \<Longrightarrow> permuted st (st(p \<mapsto> c'))"
  using permuted_refl[of st] unfolding permuted_def by (metis fun_upd_apply option_rel_Some1)

lemma permutedD: "permuted st st' \<Longrightarrow> st p = Some c \<Longrightarrow> \<exists>c'. st' p = Some c' \<and> same_clause c c'"
  unfolding permuted_def by (metis option_rel_Some1)

lemma permutedD2: "permuted st st' \<Longrightarrow> st' p = Some c' \<Longrightarrow> \<exists>c. st p = Some c \<and> same_clause c c'"
  unfolding permuted_def by (metis option_rel_Some2)

lemma implied_trail [simp]: "l \<in> set (itrail s) \<Longrightarrow> implied s l"
  by (simp add: implied_def)

lemma implied_trans:
  assumes "implied s1 l" "\<forall>k \<in> set (itrail s1). implied s k" "permuted (istore s) (istore s1)"
  shows "implied s l"
  unfolding implied_def
proof (intro allI impI)
  fix \<tau> assume st: "\<forall>p c. istore s p = Some c \<longrightarrow> clause_true \<tau> (cl_lits c)" and tr: "\<forall>l \<in> set (itrail s). lit_true \<tau> l"
  have "clause_true \<tau> (cl_lits c)" if "istore s1 p = Some c" for p c
  proof -
    obtain c0 where c0: "istore s p = Some c0" "same_clause c0 c" using permutedD2[OF assms(3) \<open>istore s1 p = Some c\<close>] by blast
    then have "set (cl_lits c0) = set (cl_lits c)" unfolding same_clause_def by (metis mset_eq_setD)
    moreover have "clause_true \<tau> (cl_lits c0)" using st c0 by blast
    ultimately show ?thesis by (simp add: clause_true_iff)
  qed
  moreover have "\<forall>k \<in> set (itrail s1). lit_true \<tau> k" using assms(2) st tr by (auto simp: implied_def)
  ultimately show "lit_true \<tau> l" using assms(1) by (auto simp: implied_def)
qed

lemma permuted_models:
  assumes "permuted st st'" "\<forall>p c. st p = Some c \<longrightarrow> clause_true \<tau> (cl_lits c)" "st' p = Some c"
  shows "clause_true \<tau> (cl_lits c)"
proof -
  obtain c0 where c0: "st p = Some c0" "same_clause c0 c" using permutedD2[OF assms(1,3)] by blast
  then have "set (cl_lits c0) = set (cl_lits c)" unfolding same_clause_def by (metis mset_eq_setD)
  moreover have "clause_true \<tau> (cl_lits c0)" using assms(2) c0 by blast
  ultimately show ?thesis by (simp add: clause_true_iff)
qed

lemma root_implied_trail [simp]: "l \<in> set (itrail s) \<Longrightarrow> ivar_level s \<bar>l\<bar> = 0 \<Longrightarrow> root_implied s l"
  by (simp add: root_implied_def)

lemma root_implied_trans:
  assumes "root_implied s1 l" "\<forall>k \<in> set (itrail s1). ivar_level s1 \<bar>k\<bar> = 0 \<longrightarrow> root_implied s k" "permuted (istore s) (istore s1)"
  shows "root_implied s l"
  unfolding root_implied_def
proof (intro allI impI)
  fix \<tau> assume st: "\<forall>p c. istore s p = Some c \<longrightarrow> clause_true \<tau> (cl_lits c)"
    and tr: "\<forall>l \<in> set (itrail s). ivar_level s \<bar>l\<bar> = 0 \<longrightarrow> lit_true \<tau> l"
  have "\<forall>p c. istore s1 p = Some c \<longrightarrow> clause_true \<tau> (cl_lits c)" using permuted_models[OF assms(3) st] by blast
  moreover have "\<forall>k \<in> set (itrail s1). ivar_level s1 \<bar>k\<bar> = 0 \<longrightarrow> lit_true \<tau> k" using assms(2) st tr by (auto simp: root_implied_def)
  ultimately show "lit_true \<tau> l" using assms(1) by (auto simp: root_implied_def)
qed

text \<open>Justifications survive when assigned literals keep their data and clauses are permuted.\<close>

lemma justified_kept:
  assumes "justified s l" "l \<in> set (itrail s)" "permuted (istore s) (istore s')" "set (itrail s) \<subseteq> set (itrail s')"
    and same: "\<forall>l \<in> set (itrail s). ivar_level s' \<bar>l\<bar> = ivar_level s \<bar>l\<bar> \<and> ivar_trail s' \<bar>l\<bar> = ivar_trail s \<bar>l\<bar> \<and>
        ivar_reason s' \<bar>l\<bar> = ivar_reason s \<bar>l\<bar>"
  shows "justified s' l"
proof (cases "ivar_level s \<bar>l\<bar> = 0")
  case False
  then obtain p c where c: "ivar_reason s \<bar>l\<bar> = Reason_Clause p" "istore s p = Some c" "l \<in> set (cl_lits c)"
    "\<forall>k \<in> set (cl_lits c). k \<noteq> l \<longrightarrow> - k \<in> set (itrail s) \<and> ivar_trail s \<bar>k\<bar> < ivar_trail s \<bar>l\<bar> \<and> ivar_level s \<bar>k\<bar> \<le> ivar_level s \<bar>l\<bar>"
    using assms(1) unfolding justified_def by auto
  from permutedD[OF assms(3) c(2)] obtain c' where c': "istore s' p = Some c'" "same_clause c c'" by blast
  then have "set (cl_lits c') = set (cl_lits c)" unfolding same_clause_def by (metis mset_eq_setD)
  moreover have "- k \<in> set (itrail s') \<and> ivar_trail s' \<bar>k\<bar> < ivar_trail s' \<bar>l\<bar> \<and> ivar_level s' \<bar>k\<bar> \<le> ivar_level s' \<bar>l\<bar>"
    if "k \<in> set (cl_lits c)" "k \<noteq> l" for k
  proof -
    have k: "- k \<in> set (itrail s)" "ivar_trail s \<bar>k\<bar> < ivar_trail s \<bar>l\<bar>" "ivar_level s \<bar>k\<bar> \<le> ivar_level s \<bar>l\<bar>" using c(4) that by auto
    then show ?thesis using same[rule_format, OF k(1)] same[rule_format, OF assms(2)] assms(4) by auto
  qed
  ultimately show ?thesis using same assms(2) False c(1,3) c'(1) unfolding justified_def by auto
qed (use assms in \<open>simp add: justified_def\<close>)

lemma clause_implied:
  assumes "trail_ok s" "istore s p = Some c" "clause_ok s c" "\<forall>l \<in> set (cl_lits c). l \<noteq> lit \<longrightarrow> ivals s l < 0"
  shows "implied s lit"
  unfolding implied_def
proof (intro allI impI)
  fix \<tau> assume st: "\<forall>p c. istore s p = Some c \<longrightarrow> clause_true \<tau> (cl_lits c)" and tr: "\<forall>l \<in> set (itrail s). lit_true \<tau> l"
  from st assms(2) obtain l where l: "l \<in> set (cl_lits c)" "lit_true \<tau> l" by (auto simp: clause_true_iff)
  have "l = lit"
  proof (rule ccontr)
    assume "l \<noteq> lit"
    have ok: "ilit_ok s l" using l assms(3) by (auto simp: clause_ok_def)
    then have "- l \<in> set (itrail s)" using assms(4) l \<open>l \<noteq> lit\<close> trail_ok_ivals(2)[OF assms(1) ok] by auto
    then show False using tr l ok by (auto simp: ilit_ok_def)
  qed
  with l show "lit_true \<tau> lit" by simp
qed

lemma prop_frame_refl [simp]: "prop_frame s s"
  by (simp add: prop_frame_def)

lemma prop_frame_trans:
  assumes a: "prop_frame s s1" and b: "prop_frame s1 s2"
  shows "prop_frame s s2"
proof -
  have "permuted (istore s) (istore s2)" using a b permuted_trans unfolding prop_frame_def by blast
  moreover have "\<exists>ls. itrail s2 = itrail s @ ls" using a b by (auto simp: prop_frame_def)
  moreover have "implied s l" if "l \<in> set (itrail s2)" for l
    using implied_trans[of s1 l s] a b that by (simp add: prop_frame_def)
  moreover have "ivals s2 l = ivals s l \<and> ivar_level s2 \<bar>l\<bar> = ivar_level s \<bar>l\<bar> \<and> ivar_trail s2 \<bar>l\<bar> = ivar_trail s \<bar>l\<bar>"
    if "ivals s l \<noteq> 0" for l using a b that by (simp add: prop_frame_def)
  moreover have "root_implied s l" if "l \<in> set (itrail s2)" "ivar_level s2 \<bar>l\<bar> = 0" for l
    using root_implied_trans[of s1 l s] a b that by (simp add: prop_frame_def)
  moreover have "justified s2 l" if "l \<in> set (itrail s2)" "l \<notin> set (itrail s)" for l
  proof (cases "l \<in> set (itrail s1)")
    case True
    have j: "justified s1 l" using a True that(2) by (simp add: prop_frame_def)
    show ?thesis by (rule justified_kept[OF j True]) (use b in \<open>auto simp: prop_frame_def\<close>)
  qed (use b that in \<open>simp add: prop_frame_def\<close>)
  ultimately show ?thesis using a b unfolding prop_frame_def by auto
qed

lemma extended_by_frame:
  assumes "extended_by lit lv s s'" "same_base s s'" "trail_ok s" "ilit_ok s lit" "ivals s lit = 0" "implied s lit"
    and "lv = 0 \<longrightarrow> root_implied s lit" "justified s' lit" "ivar_reason s' = (ivar_reason s)(\<bar>lit\<bar> := r)"
  shows "prop_frame s s'"
proof -
  have nz: "lit \<noteq> 0" using assms(4) by (simp add: ilit_ok_def)
  have "ivals s (- lit) = 0" using trail_ok_ivals(3)[OF assms(3)] assms(4,5) by (metis add.inverse_inverse ilit_ok_uminus)
  then have "\<bar>l\<bar> \<noteq> \<bar>lit\<bar>" if "ivals s l \<noteq> 0" for l using that assms(5) by (auto simp: abs_eq_iff)
  moreover have "\<bar>l\<bar> \<noteq> \<bar>lit\<bar>" if "l \<in> set (itrail s)" for l
    using that trail_ok_ivals(3)[OF assms(3,4)] assms(5) by (auto simp: abs_eq_iff)
  ultimately show ?thesis using assms(1,2,6-) extended_by_vals(3)[OF assms(1) nz]
    by (auto simp: prop_frame_def same_base_def extended_by_def)
qed

lemma clause_justified:
  assumes ok: "trail_ok s" "istore s p = Some c" "clause_ok s c" "lit \<in> set (cl_lits c)" "ivals s lit = 0"
    and false: "\<forall>l \<in> set (cl_lits c). l \<noteq> lit \<longrightarrow> ivals s l < 0"
    and ext: "extended_by lit lv s s'" "same_base s s'"
    and reason: "ivar_reason s' = (ivar_reason s)(\<bar>lit\<bar> := if lv = 0 then No_Reason else Reason_Clause p)"
    and lev: "\<forall>l \<in> set (cl_lits c). l \<noteq> lit \<longrightarrow> ivar_level s \<bar>l\<bar> \<le> lv"
  shows "justified s' lit" "lv = 0 \<longrightarrow> root_implied s lit"
proof -
  have other: "- k \<in> set (itrail s)" "\<bar>k\<bar> \<noteq> \<bar>lit\<bar>" "ivar_trail s \<bar>k\<bar> < length (itrail s)" if "k \<in> set (cl_lits c)" "k \<noteq> lit" for k
  proof -
    have "ilit_ok s k" "ilit_ok s lit" using that ok(3,4) by (auto simp: clause_ok_def)
    then show t: "- k \<in> set (itrail s)" using false that trail_ok_ivals(2)[OF ok(1)] by auto
    show "\<bar>k\<bar> \<noteq> \<bar>lit\<bar>" using t trail_ok_ivals(3)[OF ok(1) \<open>ilit_ok s lit\<close>] ok(5) by (auto simp: abs_eq_iff)
    show "ivar_trail s \<bar>k\<bar> < length (itrail s)" using trail_ok_position(1)[OF ok(1) t] by simp
  qed
  show "justified s' lit"
  proof (cases "lv = 0")
    case False
    then show ?thesis using reason ext ok(2,4) other lev
      by (auto simp: justified_def extended_by_def same_base_def intro!: exI[of _ p])
  qed (use reason ext in \<open>auto simp: justified_def extended_by_def\<close>)
  show "lv = 0 \<longrightarrow> root_implied s lit"
    unfolding root_implied_def
  proof (intro impI allI)
    fix \<tau> assume z: "lv = 0" and st: "\<forall>p c. istore s p = Some c \<longrightarrow> clause_true \<tau> (cl_lits c)"
      and tr: "\<forall>l \<in> set (itrail s). ivar_level s \<bar>l\<bar> = 0 \<longrightarrow> lit_true \<tau> l"
    from st ok(2) obtain l where l: "l \<in> set (cl_lits c)" "lit_true \<tau> l" by (auto simp: clause_true_iff)
    have "l = lit"
    proof (rule ccontr)
      assume n: "l \<noteq> lit"
      then have "lit_true \<tau> (- l)" using tr other(1)[OF l(1) n] lev l(1) z by auto
      then show False using l(2) lit_true_nonzero[OF l(2)] by simp
    qed
    with l show "lit_true \<tau> lit" by simp
  qed
qed

section \<open>Searching a replacement\<close>

lemma scan_false_spec:
  assumes "\<forall>l \<in> set lits. ilit_ok s l" "\<forall>k \<in> set ks. k < length lits"
  shows "\<exists>k v. scan_false s lits ks stop = Some (k, v) \<and>
    (v < 0 \<and> k = stop \<and> (\<forall>i \<in> set ks. ivals s (lits ! i) < 0) \<or> v \<ge> 0 \<and> k \<in> set ks \<and> v = ivals s (lits ! k))"
  using assms(2)
proof (induction ks)
  case (Cons i ks)
  then have "val s (lits ! i) = Some (ivals s (lits ! i))" using assms(1) by (simp add: val_def)
  with Cons show ?case by (cases "ivals s (lits ! i) < 0") auto
qed simp

lemma find_replacement_spec:
  assumes "clause_ok s c"
  shows "\<exists>k v. find_replacement s c = Some (k, v) \<and> 2 \<le> k \<and> k \<le> length (cl_lits c) \<and>
    (v < 0 \<and> (\<forall>i. 2 \<le> i \<and> i < length (cl_lits c) \<longrightarrow> ivals s (cl_lits c ! i) < 0) \<or>
     v \<ge> 0 \<and> k < length (cl_lits c) \<and> v = ivals s (cl_lits c ! k))"
proof -
  let ?ls = "cl_lits c" and ?n = "length (cl_lits c)" and ?m = "cl_pos c"
  have c: "\<forall>l \<in> set ?ls. ilit_ok s l" "2 \<le> ?m" "?m \<le> ?n" using assms by (auto simp: clause_ok_def)
  obtain k v where 1: "scan_false s ?ls [?m..<?n] ?n = Some (k, v)"
    "v < 0 \<and> k = ?n \<and> (\<forall>i \<in> {?m..<?n}. ivals s (?ls ! i) < 0) \<or> v \<ge> 0 \<and> k \<in> {?m..<?n} \<and> v = ivals s (?ls ! k)"
    using scan_false_spec[OF c(1), of "[?m..<?n]" ?n] by auto
  obtain k' v' where 2: "scan_false s ?ls [2..<?m] ?m = Some (k', v')"
    "v' < 0 \<and> k' = ?m \<and> (\<forall>i \<in> {2..<?m}. ivals s (?ls ! i) < 0) \<or> v' \<ge> 0 \<and> k' \<in> {2..<?m} \<and> v' = ivals s (?ls ! k')"
    using scan_false_spec[OF c(1), of "[2..<?m]" ?m] c(3) by auto
  show ?thesis
  proof (cases "v < 0")
    case True
    then have "find_replacement s c = Some (k', v')" using 1 2 c by (simp add: find_replacement_def)
    moreover have "ivals s (?ls ! i) < 0" if "v' < 0" "2 \<le> i" "i < ?n" for i
      using that 1 2 True by (cases "i < ?m") auto
    ultimately show ?thesis using 2 c by (intro exI[of _ k'] exI[of _ v']) auto
  next
    case False
    then have "find_replacement s c = Some (k, v)" using 1 c by (simp add: find_replacement_def)
    then show ?thesis using 1 c False by (intro exI[of _ k] exI[of _ v]) auto
  qed
qed

section \<open>Visiting a clause\<close>

text \<open>The state while the watch list of \<open>L\<close> is traversed: \<open>kept\<close> is done, \<open>ws\<close> is left.\<close>

definition mid_ok :: "int \<Rightarrow> watch list \<Rightarrow> watch list \<Rightarrow> nat set \<Rightarrow> ('p, 'h) internal \<Rightarrow> bool" where
  "mid_ok L kept ws R s \<longleftrightarrow> trail_ok s \<and> control_ok s \<and> clauses_ok s \<and>
     watching_ok (istore s) ((iwatches s)(L := kept @ ws)) \<and> claims R s \<and>
     ivals s L < 0 \<and> trail_start s (ilevel s) \<le> ivar_trail s \<bar>L\<bar>"

lemma mid_ok_conflict: "mid_ok L kept ws R (s\<lparr>iconflict := x\<rparr>) = mid_ok L kept ws R s"
  by (simp add: mid_ok_def search_ok_defs)

lemma mid_ok_snoc: "mid_ok L (kept @ [w]) ws R s = mid_ok L kept (w # ws) R s"
  by (simp add: mid_ok_def)

lemma rescued_now:
  assumes "control_ok s" "k \<in> set (cl_lits c)" "ivals s k > 0" "L = cl_lits c ! 0 \<or> L = cl_lits c ! 1"
    "trail_start s (ilevel s) \<le> ivar_trail s \<bar>L\<bar>"
  shows "rescued s c"
proof -
  have "\<not> watch_height s c < trail_start s d" if "d \<le> ilevel s" for d
  proof -
    have "trail_start s d \<le> trail_start s (ilevel s)" using assms(1) that by (auto simp: control_ok_def)
    also have "\<dots> \<le> watch_height s c" using assms(4,5) by (auto simp: watch_height_def)
    finally show ?thesis by simp
  qed
  then show ?thesis using assms(2,3) by (auto simp: rescued_def)
qed

lemma claims_remove:
  "claims R s \<Longrightarrow> istore s p = Some c \<Longrightarrow> (both_processed s c \<Longrightarrow> rescued s c) \<Longrightarrow> claims (R - {p}) s"
  unfolding claims_def by (metis DiffI option.inject singletonD)

lemma claims_mono: "claims R s \<Longrightarrow> R \<subseteq> R' \<Longrightarrow> claims R' s"
  unfolding claims_def by blast

lemma claims_update:
  assumes "claims R s" "p \<in> R"
  shows "claims R (s\<lparr>istore := (istore s)(p \<mapsto> c'), iwatches := W\<rparr>)"
  using assms by (auto simp: claims_def both_processed_def rescued_def watch_height_def trail_start_def)

lemma state_ok_update:
  assumes "trail_ok s" "control_ok s" "clauses_ok s" "istore s p = Some c" "clause_ok s c'"
  shows "trail_ok (s\<lparr>istore := (istore s)(p \<mapsto> c'), iwatches := W\<rparr>)"
    "control_ok (s\<lparr>istore := (istore s)(p \<mapsto> c'), iwatches := W\<rparr>)"
    "clauses_ok (s\<lparr>istore := (istore s)(p \<mapsto> c'), iwatches := W\<rparr>)"
  using assms by (auto simp: search_ok_defs)

lemma frame_update:
  "istore s p = Some c \<Longrightarrow> same_clause c c' \<Longrightarrow> prop_frame s (s\<lparr>istore := (istore s)(p \<mapsto> c'), iwatches := W\<rparr>)"
  by (simp add: prop_frame_def permuted_update)

lemma mset_moved:
  assumes "k < length xs" "2 \<le> k" "{xs ! 0, xs ! 1} = {L, other}" "other \<noteq> L"
  shows "mset (xs[0 := other, 1 := xs ! k, k := L]) = mset xs" "xs[0 := other, 1 := xs ! k, k := L] ! 0 = other"
    "xs[0 := other, 1 := xs ! k, k := L] ! 1 = xs ! k"
proof -
  obtain a b r where xs: "xs = a # b # r" using assms(1,2) by (cases xs; cases "tl xs") auto
  obtain j where k: "k = Suc (Suc j)" using assms(2) by (metis Suc_le_D numeral_2_eq_2 le_Suc_ex plus_nat.simps)
  have j: "j < length r" using assms(1) by (simp add: xs k)
  let ?M = "mset r - {#r ! j#}"
  have r: "mset (r[j := L]) = {#L#} + ?M" "mset r = {#r ! j#} + ?M"
    using j by (simp_all add: mset_update)
  have "mset (xs[0 := other, 1 := xs ! k, k := L]) = {#other#} + {#r ! j#} + mset (r[j := L])"
    by (simp add: xs k)
  also have "\<dots> = {#other, L#} + ({#r ! j#} + ?M)" by (simp add: r(1))
  also have "{#other, L#} = {#a, b#}" using assms(3,4) by (auto simp: xs doubleton_eq_iff)
  also have "{#a, b#} + ({#r ! j#} + ?M) = mset xs" using r(2) by (simp add: xs)
  finally show "mset (xs[0 := other, 1 := xs ! k, k := L]) = mset xs" .
  show "xs[0 := other, 1 := xs ! k, k := L] ! 0 = other" "xs[0 := other, 1 := xs ! k, k := L] ! 1 = xs ! k"
    by (simp_all add: xs k)
qed

lemma clause_ok_permuted:
  assumes "clause_ok s c" "mset ls = mset (cl_lits c)" "2 \<le> k" "k \<le> length (cl_lits c)"
  shows "clause_ok s (c\<lparr>cl_lits := ls, cl_pos := k\<rparr>)"
proof -
  have "length ls = length (cl_lits c)" "set ls = set (cl_lits c)" using assms(2) by (metis mset_eq_length mset_eq_setD)+
  moreover have "mset (map abs ls) = mset (map abs (cl_lits c))" using assms(2) by simp
  then have "distinct (map abs ls) = distinct (map abs (cl_lits c))" using mset_eq_imp_distinct_iff by blast
  ultimately show ?thesis using assms by (simp add: clause_ok_def)
qed

lemma max_level_except_attained:
  "max_level_except s lit ls m = Some lv \<Longrightarrow> lv = m \<or> (\<exists>l \<in> set ls. l \<noteq> lit \<and> ivar_level s \<bar>l\<bar> = lv)"
  by (induction ls arbitrary: m) (auto simp: var_level_def split: if_splits bind_splits)

lemma find_level_found:
  "\<forall>l \<in> set ls. ilit_ok s l \<Longrightarrow> \<forall>i \<in> set ps. i < length ls \<Longrightarrow> \<exists>i \<in> set ps. ivar_level s \<bar>ls ! i\<bar> = lv \<Longrightarrow>
   \<exists>i. find_level s lv ls ps = Some i \<and> i \<in> set ps"
  by (induction ps) (auto simp: var_level_def)

lemma mid_ok_entry:
  assumes "mid_ok L kept (w # ws) R s" "istore s (w_clause w) = Some c"
  shows "clause_ok s c" "w_size w = length (cl_lits c)" "L = cl_lits c ! 0 \<or> L = cl_lits c ! 1"
    "w_blit w \<in> set (cl_lits c)" "w_blit w \<noteq> L"
    "w_clause w \<notin> w_clause ` set kept" "w_clause w \<notin> w_clause ` set ws"
proof -
  have ok: "watching_ok (istore s) ((iwatches s)(L := kept @ w # ws))" using assms(1) by (simp add: mid_ok_def)
  have "w \<in> set (((iwatches s)(L := kept @ w # ws)) L)" by simp
  from watching_ok_entry[OF ok this] assms(2)
  show "w_size w = length (cl_lits c)" "L = cl_lits c ! 0 \<or> L = cl_lits c ! 1" "w_blit w \<in> set (cl_lits c)" "w_blit w \<noteq> L"
    by auto
  show "clause_ok s c" using assms by (auto simp: mid_ok_def clauses_ok_def)
  show "w_clause w \<notin> w_clause ` set kept" "w_clause w \<notin> w_clause ` set ws"
    using watching_ok_distinct[OF ok, of L] by auto
qed

lemma mid_ok_kept:
  assumes "mid_ok L kept (w # ws) R s" "claims R' s"
  shows "mid_ok L (kept @ [w]) ws R' s"
  using assms by (simp add: mid_ok_def)

lemma mid_ok_blit:
  assumes "mid_ok L kept (w # ws) R s" "istore s (w_clause w) = Some c" "b \<in> set (cl_lits c)" "b \<noteq> L" "claims R' s"
  shows "mid_ok L (kept @ [w\<lparr>w_blit := b\<rparr>]) ws R' s"
  using assms watching_ok_blit[of "istore s" "(iwatches s)(L := kept @ w # ws)" L kept w ws c b]
  by (simp add: mid_ok_def)

lemma mid_ok_pos:
  assumes "mid_ok L kept ws R s" "istore s p = Some c" "p \<in> R" "clause_ok s (c\<lparr>cl_pos := k\<rparr>)"
  shows "mid_ok L kept ws R (s\<lparr>istore := (istore s)(p \<mapsto> c\<lparr>cl_pos := k\<rparr>)\<rparr>)"
proof -
  let ?s = "s\<lparr>istore := (istore s)(p \<mapsto> c\<lparr>cl_pos := k\<rparr>), iwatches := iwatches s\<rparr>"
  have s: "?s = s\<lparr>istore := (istore s)(p \<mapsto> c\<lparr>cl_pos := k\<rparr>)\<rparr>" by simp
  have "watching_ok (istore ?s) ((iwatches ?s)(L := kept @ ws))"
    using assms watching_ok_same_lits[of "istore s" "(iwatches s)(L := kept @ ws)" p c "c\<lparr>cl_pos := k\<rparr>"]
    by (simp add: mid_ok_def)
  moreover have "trail_ok s" "control_ok s" "clauses_ok s" "claims R s" using assms(1) by (simp_all add: mid_ok_def)
  then have "trail_ok ?s" "control_ok ?s" "clauses_ok ?s" "claims R ?s"
    using state_ok_update[OF _ _ _ assms(2,4)] claims_update[OF _ assms(3)] by blast+
  ultimately show ?thesis using assms unfolding s by (simp add: mid_ok_def trail_start_def)
qed

text \<open>The clause is watched at \<open>r\<close> instead of \<open>L\<close>.\<close>

lemma mid_ok_move:
  assumes mid: "mid_ok L kept (w # ws) R s" and p: "w_clause w = p" "p \<in> R" and c: "istore s p = Some c"
    and i: "2 \<le> i" "i < length (cl_lits c)" and pos: "2 \<le> k" "k \<le> length (cl_lits c)"
    and other: "{cl_lits c ! 0, cl_lits c ! 1} = {L, other}" "other \<noteq> L" and b: "b \<in> set (cl_lits c)" "b \<noteq> cl_lits c ! i"
    and ls: "ls = (cl_lits c)[0 := other, 1 := cl_lits c ! i, i := L]"
    and both: "both_processed s (c\<lparr>cl_lits := ls, cl_pos := k\<rparr>) \<Longrightarrow> False"
  shows "\<exists>s'. (do { s1 \<leftarrow> store_lits s p ls k; rewatch s1 L (cl_lits c ! i) b p }) = Some s' \<and>
    mid_ok L kept ws (R - {p}) s' \<and> prop_frame s s' \<and> iconflict s' = iconflict s"
proof -
  let ?r = "cl_lits c ! i" and ?c = "c\<lparr>cl_lits := ls, cl_pos := k\<rparr>"
  let ?W = "(iwatches s)(?r := iwatches s ?r @ [\<lparr>w_clause = p, w_blit = b, w_size = length (cl_lits c)\<rparr>])"
  let ?s = "s\<lparr>istore := (istore s)(p \<mapsto> ?c), iwatches := ?W\<rparr>"
  note m = mset_moved[OF i(2,1) other, folded ls]
  have cok: "clause_ok s c" using mid c p by (auto simp: mid_ok_def clauses_ok_def)
  have cok': "clause_ok s ?c" by (rule clause_ok_permuted[OF cok m(1) pos])
  have "distinct (cl_lits c)" using cok by (auto simp: clause_ok_def distinct_map)
  then have r: "?r \<noteq> cl_lits c ! 0" "?r \<noteq> cl_lits c ! 1" using i clause_ok_watches(7,8)[OF cok]
    by (metis distinct_conv_nth not_numeral_le_zero, metis distinct_conv_nth one_less_numeral_iff not_le semiring_norm(76))
  then have rL: "?r \<noteq> L" using other by (auto simp: doubleton_eq_iff)
  have len: "length ls = length (cl_lits c)" "set ls = set (cl_lits c)" using m(1) by (metis mset_eq_length mset_eq_setD)+
  have "ilit_ok s ?r" using cok i by (auto simp: clause_ok_def)
  then have run: "(do { s1 \<leftarrow> store_lits s p ls k; rewatch s1 L ?r b p }) = Some ?s"
    using c rL len by (simp add: store_lits_def rewatch_def watch_literal_def ilit_ok_def)
  have "watching_ok ((istore s)(p \<mapsto> ?c)) (((iwatches s)(L := kept @ w # ws))(L := kept @ ws,
      ?r := ((iwatches s)(L := kept @ w # ws)) ?r @ [\<lparr>w_clause = p, w_blit = b, w_size = length (cl_lits c)\<rparr>]))"
    by (rule watching_ok_move[where st = "istore s" and W = "(iwatches s)(L := kept @ w # ws)" and w = w and c = c and other = other])
      (use mid m len p c r b other in \<open>simp_all add: mid_ok_def\<close>)
  moreover have "((iwatches s)(L := kept @ w # ws))(L := kept @ ws,
      ?r := ((iwatches s)(L := kept @ w # ws)) ?r @ [\<lparr>w_clause = p, w_blit = b, w_size = length (cl_lits c)\<rparr>])
      = (iwatches ?s)(L := kept @ ws)"
    using rL by (auto simp: fun_eq_iff)
  ultimately have W: "watching_ok (istore ?s) ((iwatches ?s)(L := kept @ ws))" by simp
  have st: "trail_ok ?s" "control_ok ?s" "clauses_ok ?s" "claims R ?s"
    using mid state_ok_update[where s = s and p = p and c = c and c' = ?c and W = ?W]
      claims_update[where R = R and s = s and p = p and c' = ?c and W = ?W] c p cok' by (auto simp: mid_ok_def)
  have "\<not> both_processed ?s ?c" using both by (auto simp: both_processed_def watch_height_def)
  then have "claims (R - {p}) ?s" using claims_remove[OF st(4), of p ?c] by simp
  then have "mid_ok L kept ws (R - {p}) ?s" using st W mid by (simp add: mid_ok_def trail_start_def)
  moreover have "prop_frame s ?s" by (rule frame_update[OF c]) (simp add: same_clause_def m)
  ultimately show ?thesis using run by (intro exI[of _ ?s]) simp
qed

lemma mid_ok_extended:
  assumes mid: "mid_ok L kept ws R s" and ext: "extended_by lit lv s s'" and base: "same_base s s'"
    and lit: "ilit_ok s lit" "ivals s lit = 0" and lv: "lv \<le> ilevel s" and imp: "implied s lit"
    and jus: "lv = 0 \<longrightarrow> root_implied s lit" "justified s' lit" "ivar_reason s' = (ivar_reason s)(\<bar>lit\<bar> := r)"
  shows "mid_ok L kept ws R s'" "prop_frame s s'" "iconflict s' = iconflict s" "ivals s' lit > 0"
proof -
  have ok: "trail_ok s" "control_ok s" "clauses_ok s" "claims R s" using mid by (simp_all add: mid_ok_def)
  show fr: "prop_frame s s'" by (rule extended_by_frame[OF ext base ok(1) lit imp jus])
  have new: "lit \<notin> set (itrail s)" "- lit \<notin> set (itrail s)" using trail_ok_ivals(3)[OF ok(1) lit(1)] lit(2) by auto
  have "trail_ok s'" using trail_ok_extended[OF ok(1) lit ext] lv base by (simp add: same_base_def)
  moreover have "control_ok s'" by (rule control_ok_extended[OF ok(2) ext base new])
  moreover have "claims R s'" by (rule claims_extended[OF ok(4,1,2,3) ext base lit])
  moreover have "clauses_ok s'" using ok(3) base by (auto simp: search_ok_defs same_base_def)
  ultimately show "mid_ok L kept ws R s'"
    using mid fr base by (auto simp: mid_ok_def prop_frame_def same_base_def trail_start_def)
  show "iconflict s' = iconflict s" using base by (simp add: same_base_def)
  show "ivals s' lit > 0" using extended_by_vals(1)[OF ext] lit by (simp add: ilit_ok_def)
qed

lemma not_both_true: "ivals s l > 0 \<Longrightarrow> l = cl_lits c ! 0 \<or> l = cl_lits c ! 1 \<Longrightarrow> \<not> both_processed s c"
  by (auto simp: both_processed_def)

text \<open>A unit clause: \<open>other\<close> is assigned, and with \<open>chrono > 1\<close> the watch may move to its level.\<close>

lemma unit_clause_ok:
  assumes E: "responsive E" and mid: "mid_ok L kept (w # ws) R s" and p: "w_clause w = p" "p \<in> R"
    and c: "istore s p = Some c" and other: "{cl_lits c ! 0, cl_lits c ! 1} = {L, other}" "other \<noteq> L"
    and u: "ivals s other = 0" and rest: "\<forall>i. 2 \<le> i \<and> i < length (cl_lits c) \<longrightarrow> ivals s (cl_lits c ! i) < 0"
    and k: "k = cl_pos c"
  shows "\<exists>s' ks. (do {
         s2 \<leftarrow> search_assign E s other (Reason_Clause p);
         if chrono (opts E) > 1 then do {
           other_level \<leftarrow> var_level s2 other;
           lit_level \<leftarrow> var_level s2 L;
           if other_level > lit_level then do {
             pos \<leftarrow> find_level s2 other_level (cl_lits c) [2..<length (cl_lits c)];
             let r = cl_lits c ! pos;
             s3 \<leftarrow> store_lits s2 p ((cl_lits c)[pos := L, 0 := other, 1 := r]) k;
             s4 \<leftarrow> rewatch s3 L r other p;
             Some (s4, [], False) }
           else Some (s2, [w], False) }
         else Some (s2, [w], False) }) = Some (s', ks, False) \<and> mid_ok L (kept @ ks) ws (R - {p}) s' \<and> prop_frame s s' \<and>
    iconflict s' = iconflict s"
proof -
  have ok: "trail_ok s" "clause_ok s c" using mid c by (auto simp: mid_ok_def clauses_ok_def)
  have ook: "ilit_ok s other" and inset: "other \<in> set (cl_lits c)" "L \<in> set (cl_lits c)"
    using clause_ok_watches(1,2,5,6)[OF ok(2)] other by (auto simp: doubleton_eq_iff)
  have pos01: "l = L \<or> l = other \<or> (\<exists>i. 2 \<le> i \<and> i < length (cl_lits c) \<and> l = cl_lits c ! i)" if l: "l \<in> set (cl_lits c)" for l
  proof -
    from l obtain i where i: "i < length (cl_lits c)" "l = cl_lits c ! i" by (auto simp: in_set_conv_nth)
    consider "i = 0" | "i = 1" | "2 \<le> i" by linarith
    then show ?thesis using i other by cases (auto simp: doubleton_eq_iff)
  qed
  have false: "ivals s l < 0" if "l \<in> set (cl_lits c)" "l \<noteq> other" for l
    using pos01[OF that(1)] that mid rest by (auto simp: mid_ok_def)
  obtain s2 lv where s2: "search_assign E s other (Reason_Clause p) = Some s2" "lv \<le> ilevel s" "same_base s s2"
    "extended_by other lv s s2" "literal_level E s other (Reason_Clause p) = Some lv"
    "ivar_reason s2 = (ivar_reason s)(\<bar>other\<bar> := if lv = 0 then No_Reason else Reason_Clause p)"
    "\<forall>l \<in> set (cl_lits c). l \<noteq> other \<longrightarrow> ivar_level s \<bar>l\<bar> \<le> lv"
    using search_assign_clause[OF E ok(1) ook c ok(2)] false by fastforce
  have "implied s other" using clause_implied[OF ok(1) c ok(2)] false by blast
  moreover have "\<forall>l \<in> set (cl_lits c). l \<noteq> other \<longrightarrow> ivals s l < 0" using false by blast
  note j = clause_justified[OF ok(1) c ok(2) inset(1) u this s2(4,3,6,7)]
  ultimately have m: "mid_ok L kept (w # ws) R s2" "prop_frame s s2" "iconflict s2 = iconflict s" "ivals s2 other > 0"
    using mid_ok_extended[OF mid s2(4,3) ook u s2(2) _ j(2,1) s2(6)] by blast+
  have c2: "istore s2 p = Some c" using c s2(3) by (simp add: same_base_def)
  have watch: "other = cl_lits c ! 0 \<or> other = cl_lits c ! 1" using other by (auto simp: doubleton_eq_iff)
  have "claims (R - {p}) s2"
    using claims_remove[of R s2 p c] m(1) c2 not_both_true[OF m(4) watch] by (auto simp: mid_ok_def)
  then have keep: "mid_ok L (kept @ [w]) ws (R - {p}) s2" by (rule mid_ok_kept[OF m(1)])
  have lok: "\<forall>l \<in> set (cl_lits c). ilit_ok s2 l" using ok(2) s2(3) by (simp add: clause_ok_def same_base_def ilit_ok_def)
  show ?thesis
  proof (cases "chrono (opts E) > 1 \<and> ivar_level s2 \<bar>L\<bar> < ivar_level s2 \<bar>other\<bar>")
    case False
    then show ?thesis using s2(1) keep m lok inset
      by (intro exI[of _ s2] exI[of _ "[w]"]) (auto simp: var_level_def)
  next
    case True
    have lev: "ivar_level s2 \<bar>other\<bar> = lv" using s2(4) by (simp add: extended_by_def)
    have same: "ivar_level s2 \<bar>l\<bar> = ivar_level s \<bar>l\<bar>" if "l \<in> set (cl_lits c)" "l \<noteq> other" for l
      using m(2) false[OF that] by (auto simp: prop_frame_def)
    have "max_level_except s other (cl_lits c) 0 = Some lv" using s2(5) c True by (auto simp: literal_level_def)
    from max_level_except_attained[OF this] True lev obtain l where l: "l \<in> set (cl_lits c)" "l \<noteq> other" "ivar_level s \<bar>l\<bar> = lv"
      by auto
    with True lev same have "l \<noteq> L" by auto
    with pos01[OF l(1)] l obtain i where i: "2 \<le> i" "i < length (cl_lits c)" "ivar_level s2 \<bar>cl_lits c ! i\<bar> = lv"
      using same[OF l(1,2)] by auto
    have "\<exists>i \<in> set [2..<length (cl_lits c)]. ivar_level s2 \<bar>cl_lits c ! i\<bar> = lv" using i by auto
    from find_level_found[OF lok _ this] obtain j where
      j: "find_level s2 lv (cl_lits c) [2..<length (cl_lits c)] = Some j" "2 \<le> j" "j < length (cl_lits c)" by auto
    let ?ls = "(cl_lits c)[0 := other, 1 := cl_lits c ! j, j := L]"
    have ls: "(cl_lits c)[j := L, 0 := other, 1 := cl_lits c ! j] = ?ls"
      using j by (metis list_update_swap not_numeral_le_zero numeral_le_one_iff semiring_norm(69))
    have d: "distinct (cl_lits c)" using ok(2) by (auto simp: clause_ok_def distinct_map)
    have ne: "other \<noteq> cl_lits c ! j"
      using d watch j clause_ok_watches(7,8)[OF ok(2)]
      by (metis distinct_conv_nth not_numeral_le_zero one_less_numeral_iff not_le semiring_norm(76))
    have nb: "\<not> both_processed s2 (c\<lparr>cl_lits := ?ls, cl_pos := k\<rparr>)"
      using mset_moved(2)[OF j(3,2) other] m(4) by (intro not_both_true[of s2 other]) auto
    have kk: "2 \<le> k" "k \<le> length (cl_lits c)" using ok(2) k by (auto simp: clause_ok_def)
    from mid_ok_move[OF m(1) p c2 j(2,3) kk other inset(1) ne refl] nb obtain s4 where
      s4: "(do { s3 \<leftarrow> store_lits s2 p ?ls k; rewatch s3 L (cl_lits c ! j) other p }) = Some s4"
      "mid_ok L kept ws (R - {p}) s4" "prop_frame s2 s4" "iconflict s4 = iconflict s2" by blast
    then have "(do { s3 \<leftarrow> store_lits s2 p ?ls k; s4 \<leftarrow> rewatch s3 L (cl_lits c ! j) other p; Some (s4, [] :: watch list, False) }) =
        Some (s4, [], False)"
      by (auto split: bind_splits)
    then show ?thesis using s2(1) True lev lok inset j(1) s4 m prop_frame_trans[OF m(2) s4(3)]
      by (intro exI[of _ s4] exI[of _ "[]"]) (simp add: var_level_def ls[unfolded One_nat_def] Let_def)
  qed
qed

definition conflict_false :: "('p, 'h) internal \<Rightarrow> bool" where
  "conflict_false s \<longleftrightarrow> (\<forall>p. iconflict s = Some p \<longrightarrow> (\<exists>c. istore s p = Some c \<and> (\<forall>l \<in> set (cl_lits c). ivals s l < 0)))"

lemma conflict_false_frame:
  assumes "conflict_false s" "prop_frame s s'" "iconflict s' = iconflict s"
  shows "conflict_false s'"
  unfolding conflict_false_def
proof (intro allI impI)
  fix p assume "iconflict s' = Some p"
  then obtain c where c: "istore s p = Some c" "\<forall>l \<in> set (cl_lits c). ivals s l < 0"
    using assms(1,3) by (auto simp: conflict_false_def)
  have fr: "permuted (istore s) (istore s')" "\<forall>l. ivals s l \<noteq> 0 \<longrightarrow> ivals s' l = ivals s l"
    using assms(2) unfolding prop_frame_def by blast+
  obtain c' where "istore s' p = Some c'" "same_clause c c'" using permutedD[OF fr(1) c(1)] by blast
  moreover from this have "set (cl_lits c') = set (cl_lits c)" unfolding same_clause_def by (metis mset_eq_setD)
  ultimately show "\<exists>c. istore s' p = Some c \<and> (\<forall>l \<in> set (cl_lits c). ivals s' l < 0)"
    using c(2) fr(2) by (metis less_irrefl)
qed

lemma prop_long_ok:
  assumes E: "responsive E" and mid: "mid_ok L kept (w # ws) R s" and p: "w_clause w = p" "p \<in> R"
    and c: "istore s p = Some c"
  shows "\<exists>s' ks stop. prop_long E s L w c = Some (s', ks, stop) \<and> mid_ok L (kept @ ks) ws (if stop then R else R - {p}) s' \<and>
    prop_frame s s' \<and> iconflict s' = (if stop then Some p else iconflict s) \<and> (stop \<longrightarrow> ks = [w]) \<and>
    (stop \<longrightarrow> (\<forall>l \<in> set (cl_lits c). ivals s l < 0))"
proof -
  note entry = mid_ok_entry[OF mid, unfolded p(1), OF c]
  have ctrl: "control_ok s" and cl: "claims R s" and at: "trail_start s (ilevel s) \<le> ivar_trail s \<bar>L\<bar>"
    using mid by (simp_all add: mid_ok_def)
  note cw = clause_ok_watches[OF entry(1)]
  define other where "other = cl_lits c ! 0 XOR cl_lits c ! 1 XOR L"
  have other: "{cl_lits c ! 0, cl_lits c ! 1} = {L, other}" "other \<noteq> L"
    using entry(3) cw(4) xor_other[where a = "cl_lits c ! 0" and b = "cl_lits c ! 1" and x = L] unfolding other_def by auto
  have ook: "ilit_ok s other" and inset: "other \<in> set (cl_lits c)" "L \<in> set (cl_lits c)"
    using cw(1,2,5,6) other by (auto simp: doubleton_eq_iff)
  have watch: "other = cl_lits c ! 0 \<or> other = cl_lits c ! 1" using other by (auto simp: doubleton_eq_iff)
  have remove: "claims (R - {p}) s" if "k \<in> set (cl_lits c)" "ivals s k > 0" for k
    by (rule claims_remove[OF cl c]) (rule rescued_now[OF ctrl that entry(3) at])
  obtain k v where kv: "find_replacement s c = Some (k, v)" "2 \<le> k" "k \<le> length (cl_lits c)"
    "v < 0 \<and> (\<forall>i. 2 \<le> i \<and> i < length (cl_lits c) \<longrightarrow> ivals s (cl_lits c ! i) < 0) \<or>
     v \<ge> 0 \<and> k < length (cl_lits c) \<and> v = ivals s (cl_lits c ! k)"
    using find_replacement_spec[OF entry(1)] by blast
  let ?c1 = "c\<lparr>cl_pos := k\<rparr>" let ?s1 = "s\<lparr>istore := (istore s)(p \<mapsto> ?c1)\<rparr>"
  have c1eq: "c\<lparr>cl_lits := cl_lits c, cl_pos := k\<rparr> = ?c1" by simp
  have cok1: "clause_ok s ?c1" using clause_ok_permuted[OF entry(1) refl kv(2,3)] by simp
  have mid1: "mid_ok L kept (w # ws) R ?s1" by (rule mid_ok_pos[OF mid c p(2) cok1])
  have fr1: "prop_frame s ?s1" using frame_update[OF c, of ?c1 "iwatches s"] by (simp add: same_clause_def)
  have st1: "store_lits s p (cl_lits c) k = Some ?s1" using c by (simp add: store_lits_def)
  have start: "prop_long E s L w c = (if ivals s other > 0 then Some (s, [w\<lparr>w_blit := other\<rparr>], False)
      else if v > 0 then Some (?s1, [w\<lparr>w_blit := cl_lits c ! k\<rparr>], False)
      else if v = 0 then do {
         s2 \<leftarrow> store_lits ?s1 p ((cl_lits c)[0 := other, 1 := cl_lits c ! k, k := L]) k;
         s3 \<leftarrow> rewatch s2 L (cl_lits c ! k) L p;
         Some (s3, [], False) }
      else if ivals s other = 0 then do {
         s2 \<leftarrow> search_assign E ?s1 other (Reason_Clause p);
         if chrono (opts E) > 1 then do {
           other_level \<leftarrow> var_level s2 other;
           lit_level \<leftarrow> var_level s2 L;
           if other_level > lit_level then do {
             pos \<leftarrow> find_level s2 other_level (cl_lits c) [2..<length (cl_lits c)];
             let r = cl_lits c ! pos;
             s3 \<leftarrow> store_lits s2 p ((cl_lits c)[pos := L, 0 := other, 1 := r]) k;
             s4 \<leftarrow> rewatch s3 L r other p;
             Some (s4, [], False) }
           else Some (s2, [w], False) }
         else Some (s2, [w], False) }
      else Some (?s1\<lparr>iconflict := Some p\<rparr>, [w], True))"
  proof -
    have "vec_at (cl_lits c) 0 = Some (cl_lits c ! 0)" "vec_at (cl_lits c) 1 = Some (cl_lits c ! 1)"
      "val s other = Some (ivals s other)" using cw(7,8) ook by (simp_all add: val_def)
    then show ?thesis unfolding prop_long_def p(1) Let_def
      by (simp only: Option.bind.bind_lunit other_def[symmetric] kv(1) st1 prod.case)
  qed
  have c1: "istore ?s1 p = Some ?c1" by simp
  consider (blit) "ivals s other > 0" | (sat) "\<not> ivals s other > 0" "v > 0" | (new) "\<not> ivals s other > 0" "v = 0"
    | (one) "ivals s other = 0" "v < 0" | (confl) "ivals s other < 0" "v < 0" by linarith
  then show ?thesis
  proof cases
    case blit
    have "mid_ok L (kept @ [w\<lparr>w_blit := other\<rparr>]) ws (R - {p}) s"
      by (rule mid_ok_blit[OF mid]) (use c p(1) inset other remove[OF inset(1) blit] in auto)
    with blit start show ?thesis by (intro exI[of _ s] exI[of _ "[w\<lparr>w_blit := other\<rparr>]"] exI[of _ False]) simp
  next
    case sat
    then have k: "cl_lits c ! k \<in> set (cl_lits c)" "ivals s (cl_lits c ! k) > 0" using kv by auto
    have "claims (R - {p}) ?s1"
    proof (rule claims_remove[OF _ c1])
      show "claims R ?s1" using mid1 by (simp add: mid_ok_def)
      show "rescued ?s1 ?c1" using rescued_now[OF ctrl k entry(3) at]
        by (simp add: rescued_def watch_height_def trail_start_def)
    qed
    moreover have "cl_lits c ! k \<noteq> L" using k mid by (auto simp: mid_ok_def)
    ultimately have "mid_ok L (kept @ [w\<lparr>w_blit := cl_lits c ! k\<rparr>]) ws (R - {p}) ?s1"
      using mid_ok_blit[OF mid1, unfolded p(1), OF c1] k by simp
    with sat start fr1 show ?thesis
      by (intro exI[of _ ?s1] exI[of _ "[w\<lparr>w_blit := cl_lits c ! k\<rparr>]"] exI[of _ False]) simp
  next
    case new
    then have k: "k < length (cl_lits c)" "ivals s (cl_lits c ! k) = 0" using kv by auto
    then have ne: "L \<noteq> cl_lits c ! k" using mid by (auto simp: mid_ok_def)
    have nb: "\<not> both_processed ?s1 (?c1\<lparr>cl_lits := (cl_lits ?c1)[0 := other, 1 := cl_lits ?c1 ! k, k := L], cl_pos := k\<rparr>)"
      using mset_moved(3)[OF k(1) kv(2) other] k(2) by (simp add: both_processed_def)
    have "\<exists>s'. (do { s1 \<leftarrow> store_lits ?s1 p ((cl_lits ?c1)[0 := other, 1 := cl_lits ?c1 ! k, k := L]) k;
          rewatch s1 L (cl_lits ?c1 ! k) L p }) = Some s' \<and>
        mid_ok L kept ws (R - {p}) s' \<and> prop_frame ?s1 s' \<and> iconflict s' = iconflict ?s1"
      by (rule mid_ok_move[OF mid1 p c1, where other = other]) (use k kv(2,3) other inset ne nb in simp_all)
    then obtain s3 where s3: "(do { s1 \<leftarrow> store_lits ?s1 p ((cl_lits c)[0 := other, 1 := cl_lits c ! k, k := L]) k;
          rewatch s1 L (cl_lits c ! k) L p }) = Some s3"
      "mid_ok L kept ws (R - {p}) s3" "prop_frame ?s1 s3" "iconflict s3 = iconflict s" by auto
    then have "prop_long E s L w c = Some (s3, [], False)" unfolding start using new
      by (auto split: bind_splits)
    then show ?thesis using s3 prop_frame_trans[OF fr1 s3(3)] by (intro exI[of _ s3] exI[of _ "[]"] exI[of _ False]) simp
  next
    case one
    have "\<exists>s' ks. (do {
         s2 \<leftarrow> search_assign E ?s1 other (Reason_Clause p);
         if chrono (opts E) > 1 then do {
           other_level \<leftarrow> var_level s2 other;
           lit_level \<leftarrow> var_level s2 L;
           if other_level > lit_level then do {
             pos \<leftarrow> find_level s2 other_level (cl_lits ?c1) [2..<length (cl_lits ?c1)];
             let r = cl_lits ?c1 ! pos;
             s3 \<leftarrow> store_lits s2 p ((cl_lits ?c1)[pos := L, 0 := other, 1 := r]) k;
             s4 \<leftarrow> rewatch s3 L r other p;
             Some (s4, [], False) }
           else Some (s2, [w], False) }
         else Some (s2, [w], False) }) = Some (s', ks, False) \<and> mid_ok L (kept @ ks) ws (R - {p}) s' \<and> prop_frame ?s1 s' \<and>
       iconflict s' = iconflict ?s1"
      by (rule unit_clause_ok[OF E mid1 p c1]) (use other one kv in auto)
    moreover have "cl_lits ?c1 = cl_lits c" "iconflict ?s1 = iconflict s" by simp_all
    moreover have "\<not> 0 < v" "v \<noteq> 0" using one by auto
    ultimately obtain s' ks where "prop_long E s L w c = Some (s', ks, False)" "mid_ok L (kept @ ks) ws (R - {p}) s'"
      "prop_frame ?s1 s'" "iconflict s' = iconflict s"
      unfolding start using one by (simp only: if_True if_False simp_thms less_irrefl order_less_imp_not_less less_imp_neq) blast
    then show ?thesis using prop_frame_trans[OF fr1] by (intro exI[of _ s'] exI[of _ ks] exI[of _ False]) simp
  next
    case confl
    have "mid_ok L (kept @ [w]) ws R (?s1\<lparr>iconflict := Some p\<rparr>)"
      using mid1 by (simp add: mid_ok_conflict mid_ok_snoc)
    moreover have "prop_frame s (?s1\<lparr>iconflict := Some p\<rparr>)" using fr1 by (simp add: prop_frame_def)
    moreover have "ivals s l < 0" if l: "l \<in> set (cl_lits c)" for l
    proof -
      from l obtain i where i: "i < length (cl_lits c)" "l = cl_lits c ! i" by (auto simp: in_set_conv_nth)
      consider "i = 0" | "i = 1" | "2 \<le> i" by linarith
      then show ?thesis
      proof cases
        case 3
        then show ?thesis using kv(4) confl i by auto
      qed (use i other confl mid in \<open>auto simp: doubleton_eq_iff mid_ok_def\<close>)
    qed
    ultimately show ?thesis using confl start
      by (intro exI[of _ "?s1\<lparr>iconflict := Some p\<rparr>"] exI[of _ "[w]"] exI[of _ True]) simp
  qed
qed

section \<open>Traversing a watch list\<close>

text \<open>
  \<open>Q\<close> are the clauses in \<open>kept\<close> that are in conflict; they and the clauses not visited yet are exempt.
\<close>

lemma binary_entry:
  assumes "mid_ok L kept (w # ws) R s" "istore s (w_clause w) = Some c" "binary w"
  shows "set (cl_lits c) = {L, w_blit w}" "w_blit w = cl_lits c ! 0 \<or> w_blit w = cl_lits c ! 1"
proof -
  note e = mid_ok_entry[OF assms(1,2)]
  have "length (cl_lits c) = 2" using e(2) assms(3) by (simp add: binary_def)
  then obtain a b where "cl_lits c = [a, b]" by (auto simp: numeral_2_eq_2 length_Suc_conv)
  then show "set (cl_lits c) = {L, w_blit w}" "w_blit w = cl_lits c ! 0 \<or> w_blit w = cl_lits c ! 1"
    using e(3-5) by auto
qed

lemma prop_watches_ok:
  assumes E: "responsive E"
  shows "\<lbrakk>mid_ok L kept ws (Q \<union> w_clause ` set ws) s; Q \<subseteq> w_clause ` set kept; iconflict s = None \<longrightarrow> Q = {};
     iconflict s \<noteq> None \<longrightarrow> the (iconflict s) \<in> Q; conflict_false s\<rbrakk> \<Longrightarrow>
   \<exists>s' out R. prop_watches E s L kept ws = Some (s', out) \<and> mid_ok L out [] R s' \<and> prop_frame s s' \<and>
     R \<subseteq> w_clause ` set out \<and> (iconflict s' = None \<longrightarrow> R = {}) \<and> (iconflict s' \<noteq> None \<longrightarrow> the (iconflict s') \<in> R) \<and> conflict_false s'"
proof (induction ws arbitrary: kept Q s)
  case Nil
  then show ?case by (intro exI[of _ s] exI[of _ kept] exI[of _ Q]) simp
next
  case (Cons w ws)
  let ?p = "w_clause w" and ?R = "Q \<union> w_clause ` set (w # ws)"
  have mid: "mid_ok L kept (w # ws) ?R s" by (rule Cons.prems(1))
  have "w \<in> set (((iwatches s)(L := kept @ w # ws)) L)" by simp
  moreover have "watching_ok (istore s) ((iwatches s)(L := kept @ w # ws))" using mid by (simp add: mid_ok_def)
  ultimately obtain c where c: "istore s ?p = Some c" using watching_ok_entry by blast
  note entry = mid_ok_entry[OF mid c]
  have blit: "val s (w_blit w) = Some (ivals s (w_blit w))" "ilit_ok s (w_blit w)"
    using entry(1,4) by (auto simp: val_def clause_ok_def)
  have ctrl: "control_ok s" "trail_ok s" "claims ?R s" "trail_start s (ilevel s) \<le> ivar_trail s \<bar>L\<bar>"
    using mid by (simp_all add: mid_ok_def)
  have notQ: "?p \<notin> Q" using Cons.prems(2) entry(6) by blast
  then have R: "?R - {?p} = Q \<union> w_clause ` set ws" using entry(7) by auto
  have step: "?case" if "prop_watches E s L kept (w # ws) = prop_watches E s1 L kept1 ws"
      "mid_ok L kept1 ws (Q1 \<union> w_clause ` set ws) s1" "Q1 \<subseteq> w_clause ` set kept1" "iconflict s1 = None \<longrightarrow> Q1 = {}"
      "iconflict s1 \<noteq> None \<longrightarrow> the (iconflict s1) \<in> Q1" "prop_frame s s1" "conflict_false s1" for s1 kept1 Q1
    using Cons.IH[OF that(2-5,7)] that(1,6) prop_frame_trans by (metis (no_types, lifting))
  have Qk: "Q \<subseteq> w_clause ` set (kept @ xs)" for xs using Cons.prems(2) by auto
  show ?case
  proof (cases "ivals s (w_blit w) > 0")
    case True
    have "claims (?R - {?p}) s"
      by (rule claims_remove[OF ctrl(3) c]) (rule rescued_now[OF ctrl(1) entry(4) True entry(3) ctrl(4)])
    then have "mid_ok L (kept @ [w]) ws (Q \<union> w_clause ` set ws) s" using mid_ok_kept[OF mid] R by simp
    then show ?thesis by (rule step[rotated]) (use True blit Qk[of "[w]"] Cons.prems in simp_all)
  next
    case notsat: False
    show ?thesis
    proof (cases "binary w")
      case bin: True
      note b = binary_entry[OF mid c bin]
      show ?thesis
      proof (cases "ivals s (w_blit w) < 0")
        case True
        have "insert ?p Q \<union> w_clause ` set ws = ?R" by auto
        then have "mid_ok L (kept @ [w]) ws (insert ?p Q \<union> w_clause ` set ws) (s\<lparr>iconflict := Some ?p\<rparr>)"
          using mid by (simp add: mid_ok_conflict mid_ok_snoc)
        then show ?thesis by (rule step[rotated])
            (use True bin blit notsat Qk[of "[w]"] c b(1) mid in \<open>simp_all add: prop_frame_def conflict_false_def mid_ok_def\<close>)
      next
        case False
        then have u: "ivals s (w_blit w) = 0" using notsat by simp
        have "\<forall>l \<in> set (cl_lits c). l \<noteq> w_blit w \<longrightarrow> ivals s l \<noteq> 0" using b(1) mid by (auto simp: mid_ok_def)
        from search_assign_clause[OF E ctrl(2) blit(2) c entry(1) this] obtain s1 lv where
          s1: "search_assign E s (w_blit w) (Reason_Clause ?p) = Some s1" "lv \<le> ilevel s" "same_base s s1"
          "extended_by (w_blit w) lv s s1" "ivar_reason s1 = (ivar_reason s)(\<bar>w_blit w\<bar> := if lv = 0 then No_Reason else Reason_Clause ?p)"
          "\<forall>l \<in> set (cl_lits c). l \<noteq> w_blit w \<longrightarrow> ivar_level s \<bar>l\<bar> \<le> lv" by blast
        have false: "\<forall>l \<in> set (cl_lits c). l \<noteq> w_blit w \<longrightarrow> ivals s l < 0" using b(1) mid by (auto simp: mid_ok_def)
        note j = clause_justified[OF ctrl(2) c entry(1,4) u false s1(4,3,5,6)]
        have "implied s (w_blit w)" by (rule clause_implied[OF ctrl(2) c entry(1) false])
        note m = mid_ok_extended[OF mid s1(4,3) blit(2) u s1(2) this j(2,1) s1(5)]
        have c1: "istore s1 ?p = Some c" using c s1(3) by (simp add: same_base_def)
        have "claims (?R - {?p}) s1"
          by (rule claims_remove[OF _ c1]) (use m(1) not_both_true[OF m(4) b(2)] in \<open>auto simp: mid_ok_def\<close>)
        then have "mid_ok L (kept @ [w]) ws (Q \<union> w_clause ` set ws) s1" using mid_ok_kept[OF m(1)] R by simp
        moreover have "conflict_false s1" by (rule conflict_false_frame[OF Cons.prems(5) m(2,3)])
        ultimately show ?thesis by (intro step[rotated])
            (use False u s1 bin blit notsat Qk[of "[w]"] m Cons.prems in simp_all)
      qed
    next
      case long: False
      show ?thesis
      proof (cases "iconflict s = None")
        case False
        then have "prop_watches E s L kept (w # ws) = Some (s, kept @ w # ws)" using long blit notsat by simp
        moreover have "mid_ok L (kept @ w # ws) [] ?R s" using mid by (simp add: mid_ok_def)
        moreover have "?R \<subseteq> w_clause ` set (kept @ w # ws)" using Cons.prems(2) by auto
        ultimately show ?thesis using False Cons.prems(4,5)
          by (intro exI[of _ s] exI[of _ "kept @ w # ws"] exI[of _ ?R]) simp
      next
        case none: True
        then have Q: "Q = {}" using Cons.prems(3) by simp
        show ?thesis
        proof (cases "cl_garbage c")
          case True
          have "claims (?R - {?p}) s" using ctrl(3) c True unfolding claims_def by (metis DiffI option.inject singletonD)
          then have "mid_ok L kept ws (Q \<union> w_clause ` set ws) s"
            using mid R watching_ok_drop_garbage[of "istore s" "(iwatches s)(L := kept @ w # ws)" L kept w ws c] c True
            by (simp add: mid_ok_def)
          then show ?thesis by (rule step[rotated]) (use True none long blit notsat Cons.prems c in simp_all)
        next
          case False
          from prop_long_ok[OF E mid refl _ c] obtain s1 ks stop where s1: "prop_long E s L w c = Some (s1, ks, stop)"
            "mid_ok L (kept @ ks) ws (if stop then ?R else ?R - {?p}) s1" "prop_frame s s1"
            "iconflict s1 = (if stop then Some ?p else iconflict s)" "stop \<longrightarrow> ks = [w]"
            "stop \<longrightarrow> (\<forall>l \<in> set (cl_lits c). ivals s l < 0)" by auto
          have cf: "conflict_false s1"
          proof (cases stop)
            case True
            have "conflict_false (s\<lparr>iconflict := Some ?p\<rparr>)" using True s1(6) c by (simp add: conflict_false_def)
            moreover have "prop_frame (s\<lparr>iconflict := Some ?p\<rparr>) s1" using s1(3) by (simp add: prop_frame_def)
            ultimately show ?thesis by (rule conflict_false_frame) (use s1(4) True in simp)
          qed (use conflict_false_frame[OF Cons.prems(5) s1(3)] s1(4) in simp)
          show ?thesis
          proof (cases stop)
            case True
            have "prop_watches E s L kept (w # ws) = Some (s1, kept @ ks @ ws)"
              using s1(1) True False none long blit notsat c by simp
            moreover have "mid_ok L (kept @ ks @ ws) [] ?R s1" using s1(2) True by (simp add: mid_ok_def)
            ultimately show ?thesis using s1 True Q cf by (intro exI[of _ s1] exI[of _ "kept @ ks @ ws"] exI[of _ ?R]) auto
          next
            case go: False
            then have "mid_ok L (kept @ ks) ws (Q \<union> w_clause ` set ws) s1" using s1(2) R by simp
            then show ?thesis by (rule step[rotated]) (use s1 cf go False none long blit notsat c Qk[of ks] Q in simp_all)
          qed
        qed
      qed
    qed
  qed
qed

section \<open>The propagation loop\<close>

lemma mid_ok_start:
  assumes ok: "search_ok s" "iconflict s = None" and q: "ipropagated s < length (itrail s)" and L: "L = - (itrail s ! ipropagated s)"
  shows "mid_ok L [] (iwatches s L) (w_clause ` set (iwatches s L)) (s\<lparr>ipropagated := ipropagated s + 1\<rparr>)"
proof -
  let ?q = "ipropagated s" and ?s = "s\<lparr>ipropagated := ipropagated s + 1\<rparr>"
  have parts: "trail_ok s" "control_ok s" "clauses_ok s" "watching_ok (istore s) (iwatches s)" "claims {} s"
    using ok by (simp_all add: search_ok_def exempt_def)
  have lq: "- L \<in> set (itrail s)" using q L by simp
  have Lok: "ilit_ok s L" using parts(1) lq by (auto simp: trail_ok_def)
  have pos: "ivar_trail s \<bar>L\<bar> = ?q" using parts(1) q L by (simp add: trail_ok_def)
  have "trail_ok ?s" using parts(1) by (simp add: search_ok_defs)
  moreover have "control_ok ?s" using parts(2) q by (simp add: control_ok_def trail_start_def)
  moreover have "clauses_ok ?s" using parts(3) by (simp add: search_ok_defs)
  moreover have "claims (w_clause ` set (iwatches s L)) ?s"
    unfolding claims_def
  proof (intro allI impI, elim conjE)
    fix p c assume c: "istore ?s p = Some c" "\<not> cl_garbage c" "p \<notin> w_clause ` set (iwatches s L)" and b: "both_processed ?s c"
    have st: "istore s p = Some c" and cok: "clause_ok s c" using c(1) parts(3) by (auto simp: clauses_ok_def)
    have "ivar_trail s \<bar>cl_lits c ! i\<bar> < ?q" if i: "i = 0 \<or> i = 1" for i
    proof -
      have l: "ilit_ok s (cl_lits c ! i)" using clause_ok_watches(5,6)[OF cok] i by auto
      have "ivals s (cl_lits c ! i) < 0" "ivar_trail s \<bar>cl_lits c ! i\<bar> \<le> ?q"
        using b i by (auto simp: both_processed_def watch_height_def)
      then have "- (cl_lits c ! i) \<in> set (itrail s)" using trail_ok_ivals(2)[OF parts(1) l] by simp
      from trail_ok_position(2)[OF parts(1) this] have "itrail s ! ivar_trail s \<bar>cl_lits c ! i\<bar> = - (cl_lits c ! i)" by simp
      moreover have "cl_lits c ! i \<noteq> L" using watching_ok_watched[OF parts(4) st c(2) i] c(3) by auto
      ultimately have "ivar_trail s \<bar>cl_lits c ! i\<bar> \<noteq> ?q" using L by auto
      with \<open>ivar_trail s \<bar>cl_lits c ! i\<bar> \<le> ?q\<close> show ?thesis by simp
    qed
    then have "both_processed s c" using b by (auto simp: both_processed_def watch_height_def)
    then have "rescued s c" using parts(5) st c(2) by (auto simp: claims_def)
    then show "rescued ?s c" by (simp add: rescued_def watch_height_def trail_start_def)
  qed
  moreover have "ivals ?s L < 0" using trail_ok_ivals(2)[OF parts(1) Lok] lq by simp
  moreover have "trail_start ?s (ilevel ?s) \<le> ivar_trail ?s \<bar>L\<bar>"
    using parts(2) pos by (simp add: control_ok_def trail_start_def)
  ultimately show ?thesis using parts(4) by (simp add: mid_ok_def)
qed

lemma search_ok_finish:
  assumes mid: "mid_ok L out [] R s" and R: "R \<subseteq> w_clause ` set out" "iconflict s = None \<longrightarrow> R = {}"
    "iconflict s \<noteq> None \<longrightarrow> the (iconflict s) \<in> R"
  shows "search_ok (s\<lparr>iwatches := (iwatches s)(L := out)\<rparr>)"
proof -
  let ?s = "s\<lparr>iwatches := (iwatches s)(L := out)\<rparr>"
  have W: "watching_ok (istore s) ((iwatches s)(L := out))" using mid by (simp add: mid_ok_def)
  have "R \<subseteq> exempt ?s"
  proof
    fix p assume p: "p \<in> R"
    then obtain w where w: "w \<in> set (((iwatches s)(L := out)) L)" "w_clause w = p" using R(1) by auto
    from watching_ok_entry[OF W w(1)] w(2) obtain c where c: "istore s p = Some c" "L = cl_lits c ! 0 \<or> L = cl_lits c ! 1"
      by metis
    then have "trail_start s (ilevel s) \<le> watch_height s c" using mid by (auto simp: mid_ok_def watch_height_def)
    with c(1) p R(2) show "p \<in> exempt ?s"
      by (auto simp: exempt_def watch_height_def trail_start_def split: option.split)
  qed
  then have "claims (exempt ?s) s" using mid claims_mono by (auto simp: mid_ok_def)
  then have "claims (exempt ?s) ?s" by (simp add: claims_def both_processed_def rescued_def watch_height_def trail_start_def)
  then show ?thesis using mid W by (simp add: search_ok_def mid_ok_def search_ok_defs)
qed

text \<open>The frame of whole rounds: the position \<^verbatim>\<open>propagated\<close> advances.\<close>

abbreviation at_start :: "('p, 'h) internal \<Rightarrow> ('p, 'h) internal \<Rightarrow> ('p, 'h) internal" where
  "at_start s s' \<equiv> s'\<lparr>ipropagated := ipropagated s\<rparr>"

lemma prop_frame_at_start: "prop_frame (s\<lparr>ipropagated := n\<rparr>) s' \<Longrightarrow> prop_frame s (s'\<lparr>ipropagated := ipropagated s\<rparr>)"
  by (simp add: prop_frame_def)

lemma propagate_lit_ok:
  assumes E: "responsive E" and ok: "search_ok s" "iconflict s = None" and q: "ipropagated s \<noteq> length (itrail s)"
  shows "\<exists>s'. propagate_lit E s = Some s' \<and> search_ok s' \<and> prop_frame s (at_start s s') \<and>
    ipropagated s' = ipropagated s + 1 \<and> conflict_false s'"
proof -
  let ?L = "- (itrail s ! ipropagated s)" and ?s = "s\<lparr>ipropagated := ipropagated s + 1\<rparr>"
  have lt: "ipropagated s < length (itrail s)" using ok(1) q by (simp add: search_ok_def control_ok_def)
  have "\<exists>s' out R. prop_watches E ?s ?L [] (iwatches s ?L) = Some (s', out) \<and> mid_ok ?L out [] R s' \<and> prop_frame ?s s' \<and>
     R \<subseteq> w_clause ` set out \<and> (iconflict s' = None \<longrightarrow> R = {}) \<and> (iconflict s' \<noteq> None \<longrightarrow> the (iconflict s') \<in> R) \<and> conflict_false s'"
    by (rule prop_watches_ok[OF E, where Q = "{}"])
      (use mid_ok_start[OF ok lt refl] ok(2) in \<open>simp_all add: conflict_false_def\<close>)
  then obtain s' out R where s': "prop_watches E ?s ?L [] (iwatches s ?L) = Some (s', out)" "mid_ok ?L out [] R s'" "prop_frame ?s s'"
    "R \<subseteq> w_clause ` set out" "iconflict s' = None \<longrightarrow> R = {}" "iconflict s' \<noteq> None \<longrightarrow> the (iconflict s') \<in> R" "conflict_false s'"
    by (elim exE conjE) (rule that; assumption)
  let ?s' = "s'\<lparr>iwatches := (iwatches s')(?L := out)\<rparr>"
  have "propagate_lit E s = Some ?s'" using s'(1) lt by (simp add: propagate_lit_def)
  moreover have "prop_frame s (at_start s ?s')" using prop_frame_at_start[OF s'(3)] by (simp add: prop_frame_def)
  moreover have "ipropagated ?s' = ipropagated s + 1" using s'(3) by (simp add: prop_frame_def)
  moreover have "conflict_false ?s'" using s'(7) by (simp add: conflict_false_def)
  ultimately show ?thesis using search_ok_finish[OF s'(2,4-6)] by blast
qed

lemma prop_frame_rounds:
  "prop_frame s (at_start s s1) \<Longrightarrow> prop_frame s1 (at_start s1 s2) \<Longrightarrow> prop_frame s (at_start s s2)"
  using prop_frame_trans[of s "at_start s s1" "at_start s s2"] by (simp add: prop_frame_def)

lemma propagate_loop_ok:
  assumes E: "responsive E"
  shows "search_ok s \<Longrightarrow> conflict_false s \<Longrightarrow>
    \<exists>s'. propagate_loop E s = Some s' \<and> search_ok s' \<and> prop_frame s (at_start s s') \<and> conflict_false s' \<and>
      (iconflict s' = None \<longrightarrow> ipropagated s' = length (itrail s'))"
proof (induction "nat (max 0 (imax_var s)) - ipropagated s" arbitrary: s rule: less_induct)
  case less
  show ?case
  proof (cases "iconflict s = None \<and> ipropagated s \<noteq> length (itrail s)")
    case False
    have "at_start s s = s" by simp
    then show ?thesis using less.prems False by (subst propagate_loop.simps) (auto simp: prop_frame_def)
  next
    case True
    from propagate_lit_ok[OF E less.prems(1) conjunct1[OF True] conjunct2[OF True]] obtain s1 where s1: "propagate_lit E s = Some s1" "search_ok s1"
      "prop_frame s (at_start s s1)" "ipropagated s1 = ipropagated s + 1" "conflict_false s1"
      by (elim exE conjE) (rule that; assumption)
    have "int (length (itrail s1)) \<le> max 0 (imax_var s)" "ipropagated s1 \<le> length (itrail s1)"
      using trail_bound[of s1] s1(2,3) by (simp_all add: search_ok_def control_ok_def prop_frame_def)
    then have "nat (max 0 (imax_var s1)) - ipropagated s1 < nat (max 0 (imax_var s)) - ipropagated s"
      using s1(3,4) by (simp add: prop_frame_def)
    from less.hyps[OF this s1(2,5)] obtain s' where "propagate_loop E s1 = Some s'" "search_ok s'" "prop_frame s1 (at_start s1 s')"
      "conflict_false s'" "iconflict s' = None \<longrightarrow> ipropagated s' = length (itrail s')"
      by (elim exE conjE) (rule that; assumption)
    then show ?thesis using True s1 prop_frame_rounds[OF s1(3)] by (subst propagate_loop.simps) auto
  qed
qed

lemma finish_propagate_ok:
  assumes "search_ok s"
  shows "\<exists>s' n k. finish_propagate s = Some s' \<and> s' = s\<lparr>iconflicts := n, ino_conflict_until := k\<rparr>"
proof -
  have "ilevel s < length (icontrol s)" using assms by (simp add: search_ok_def control_ok_def)
  then have "finish_propagate s = Some (s\<lparr>iconflicts := (if isearching_lucky_phases s \<or> iconflict s = None then iconflicts s else iconflicts s + 1),
      ino_conflict_until := (if isearching_lucky_phases s then ino_conflict_until s
        else if iconflict s = None then ipropagated s else trail_start s (ilevel s))\<rparr>)"
    by (auto simp: finish_propagate_def trail_start_def intro!: internal.equality)
  then show ?thesis by blast
qed

lemma search_ok_statistics [simp]: "search_ok (s\<lparr>iconflicts := n, ino_conflict_until := k\<rparr>) = search_ok s"
proof -
  have "exempt (s\<lparr>iconflicts := n, ino_conflict_until := k\<rparr>) = exempt s"
    by (simp add: exempt_def watch_height_def trail_start_def split: option.split)
  then show ?thesis by (simp add: search_ok_def search_ok_defs)
qed

lemma propagate_ok:
  assumes "responsive E" "search_ok s" "iconflict s = None"
  shows "\<exists>s'. propagate E s = Some (iconflict s' = None, s') \<and> search_ok s' \<and> prop_frame s (at_start s s') \<and> conflict_false s' \<and>
    (iconflict s' = None \<longrightarrow> ipropagated s' = length (itrail s'))"
proof -
  have "conflict_false s" using assms(3) by (simp add: conflict_false_def)
  from propagate_loop_ok[OF assms(1,2) this] obtain s1 where s1: "propagate_loop E s = Some s1" "search_ok s1"
    "prop_frame s (at_start s s1)" "conflict_false s1" "iconflict s1 = None \<longrightarrow> ipropagated s1 = length (itrail s1)"
    by (elim exE conjE) (rule that; assumption)
  from finish_propagate_ok[OF s1(2)] obtain s2 n k where s2: "finish_propagate s1 = Some s2" "s2 = s1\<lparr>iconflicts := n, ino_conflict_until := k\<rparr>"
    by blast
  have "propagate E s = Some (iconflict s2 = None, s2)" using s1(1) s2(1) by (simp add: propagate_def)
  moreover have "search_ok s2" "conflict_false s2" "prop_frame s (at_start s s2)"
    using s1 by (simp_all add: s2(2) conflict_false_def prop_frame_def)
  ultimately show ?thesis using s1(5) by (auto simp: s2(2))
qed


section \<open>Properties\<close>

text \<open>
  \<^bold>\<open>C37\<close>  \<^verbatim>\<open>propagate\<close> returns and keeps the invariant of the search.  From a state in order without a conflict,
  for every setting of chronological backtracking, the loops end without undefined behaviour; the
  watched literals are again in order, and without a conflict every literal on the trail has been
  processed.
\<close>

theorem propagate_returns:
  assumes "responsive E" and "search_ok s" and "iconflict s = None"
  shows "\<exists>ok s'. propagate E s = Some (ok, s') \<and> search_ok s' \<and> ok = (iconflict s' = None) \<and>
    (ok \<longrightarrow> ipropagated s' = length (itrail s'))"
  using propagate_ok[OF assms] by auto

text \<open>
  \<^bold>\<open>C38\<close>  \<^verbatim>\<open>propagate\<close> is sound.  Every literal it assigns is implied by the clauses and the trail before, a
  clause it reports as conflict is false under the new trail, no literal is unassigned, and clauses
  are only permuted.
\<close>

theorem propagate_sound:
  assumes "responsive E" and "search_ok s" and "iconflict s = None" and "propagate E s = Some (ok, s')"
  shows "(\<exists>ls. itrail s' = itrail s @ ls) \<and> (\<forall>l \<in> set (itrail s'). implied s l) \<and> permuted (istore s) (istore s') \<and>
    (\<forall>p. iconflict s' = Some p \<longrightarrow> (\<exists>c. istore s' p = Some c \<and> (\<forall>l \<in> set (cl_lits c). - l \<in> set (itrail s'))))"
proof -
  from propagate_ok[OF assms(1-3)] assms(4) have s': "search_ok s'" "prop_frame s (at_start s s')" "conflict_false s'"
    by auto
  have "- l \<in> set (itrail s')" if "istore s' p = Some c" "l \<in> set (cl_lits c)" "ivals s' l < 0" for p c l
  proof -
    have "ilit_ok s' l" "trail_ok s'" using s'(1) that by (auto simp: search_ok_def clauses_ok_def clause_ok_def)
    then show ?thesis using trail_ok_ivals(2) that(3) by blast
  qed
  then have "\<forall>p. iconflict s' = Some p \<longrightarrow> (\<exists>c. istore s' p = Some c \<and> (\<forall>l \<in> set (cl_lits c). - l \<in> set (itrail s')))"
    using s'(3) unfolding conflict_false_def by blast
  then show ?thesis using s'(2) by (simp add: prop_frame_def)
qed

text \<open>
  \<^bold>\<open>C39\<close>  A leaf of the search is a model: when \<^verbatim>\<open>satisfied\<close> holds without a conflict, every clause that is not
  garbage contains a true literal.
\<close>

theorem satisfied_is_model:
  assumes "search_ok s" and "satisfied s" and "iconflict s = None"
  shows "\<forall>p c. istore s p = Some c \<and> \<not> cl_garbage c \<longrightarrow> (\<exists>l \<in> set (cl_lits c). l \<in> set (itrail s))"
proof (intro allI impI, elim conjE)
  fix p c assume c: "istore s p = Some c" "\<not> cl_garbage c"
  obtain l where l: "l \<in> set (cl_lits c)" "ivals s l > 0" using leaf_satisfies[OF assms c] by blast
  have "trail_ok s" "ilit_ok s l" using assms(1) c l by (auto simp: search_ok_def clauses_ok_def clause_ok_def)
  then show "\<exists>l \<in> set (cl_lits c). l \<in> set (itrail s)" using trail_ok_ivals(1) l by blast
qed

text \<open>Three variables, the clauses \<open>2 \<or> \<not> 1\<close> and \<open>3 \<or> \<not> 1 \<or> \<not> 2\<close>, and the decision \<open>1\<close> not propagated yet.\<close>

definition demo_clause :: "int list \<Rightarrow> clause_data" where
  "demo_clause ls = \<lparr>cl_redundant = False, cl_garbage = False, cl_keep = True, cl_hyper = False, cl_used = 0, cl_glue = 0, cl_pos = 2, cl_lits = ls\<rparr>"

definition demo_reluctant :: reluctant where [code del]:
  "demo_reluctant = enable 1024 1048576 \<lparr>ru = 0, rv = 0, rlimit = 0, rperiod = 0, rcountdown = 0, rtrigger = False, rlimited = False\<rparr>"

definition demo_internal :: "(nat, nat) internal" where
  "demo_internal = \<lparr>imax_var = 3, ivals = (\<lambda>l. 0)(1 := 1, -1 := -1), ivar_level = (\<lambda>v. 0)(1 := 1), ivar_trail = (\<lambda>v. 0),
     ivar_reason = (\<lambda>v. No_Reason), itrail = [1], icontrol = [new_level_info 0 0, new_level_info 1 0],
     ilevel = 1, ipropagated = 0, ipropergated = 0, ipropagated2 = 0, inotified = 0, ino_conflict_until = 0, iconflict = None,
     iunsat = False, istore = (\<lambda>p. None)(0 \<mapsto> demo_clause [2, -1], 1 \<mapsto> demo_clause [3, -1, -2]), iclauses = [0, 1], ifresh = 2,
     iwatches = (\<lambda>l. [])(2 := [\<lparr>w_clause = 0, w_blit = -1, w_size = 2\<rparr>], 3 := [\<lparr>w_clause = 1, w_blit = -1, w_size = 3\<rparr>],
       -1 := [\<lparr>w_clause = 0, w_blit = 2, w_size = 2\<rparr>, \<lparr>w_clause = 1, w_blit = 3, w_size = 3\<rparr>]),
     imarks = (\<lambda>v. 0), iseen = (\<lambda>v. False), iclause = [], ioriginal = [], iassumptions = [], iconstraint = [],
     iunsat_constraint = False, imarked_failed = False, irelevant = (\<lambda>v. 0), ieobserved = (\<lambda>v. False), ie2i = [0, 1, 2, 3], 
     iext = \<lparr>emax_var = 3, evals = [], extension = [], ewitness = [], etainted = [], eextended = False\<rparr>,
     ii2e = (\<lambda>v. v), isaved = (\<lambda>v. 1), iforced = (\<lambda>v. 0), itarget = (\<lambda>v. 0), ibest = (\<lambda>v. 0), itarget_assigned = 0,
     ibest_assigned = 0, irephased = None, iconflicts = 0, irephase_conflicts = 0, istable = False, iforce_saved_phase = False,
     isearching_lucky_phases = False,
     ilevels = [], ianalyzed = [], iminimized = [], ikeep = (\<lambda>v. False), ipoison = (\<lambda>v. False), iremovable = (\<lambda>v. False),
     igtab = (\<lambda>d. 0), irecomputed = 0, ieagertried = 0, iiterating = False,
     ireluctant = demo_reluctant,
     iproof = [], iprop = 0, iheur = 0\<rparr>"

text \<open>A propagator and heuristics that only count.\<close>

definition demo_config :: "nat \<Rightarrow> (nat, nat) config" where
  "demo_config ch = \<lparr>opts = \<lparr>chrono = ch, reducetier1glue = 2, opt_phase = True, forcephase = False, opt_target = 1,
       reducetier2glue = 6, chronoalways = False, chronolevelim = 5, chronoreusetrail = False, opt_minimize = True, minimizedepth = 3, opt_shrink = 3, shrinkreap = True,
       opt_bump = True, bumpreason = True, bumpreasondepth = 1, eagersubsume = True, eagersubsumelim = 20, connected = True, is_lazy = False\<rparr>,
     pops = \<lparr>on_assignment = \<lambda>l b p. Some (p + 1), on_new_level = \<lambda>p. Some p, on_backtrack = \<lambda>n p. Some p, ask_propagate = \<lambda>p. Some (0, p),
       ask_reason_lit = \<lambda>l p. Some (0, p), ask_has_clause = \<lambda>p. Some (False, p), ask_clause_lit = \<lambda>p. Some (0, p),
       ask_decide = \<lambda>p. Some (0, p), ask_check_model = \<lambda>m p. Some (True, p)\<rparr>,
     hops = \<lparr>heur_unassign = \<lambda>v h. Some h, heur_next = \<lambda>vals h. Some (if vals 1 = 0 then 1 else if vals 2 = 0 then 2 else 3, h),
       heur_bump = \<lambda>vals ls h. Some (h + length ls), heur_better = \<lambda>i j h. i < j\<rparr>\<rparr>"

lemma demo_config_responsive: "responsive (demo_config ch)"
  by (simp add: responsive_def demo_config_def)

lemma demo_internal_ok: "search_ok demo_internal"
proof -
  have "trail_ok demo_internal" "control_ok demo_internal"
    by (auto simp: search_ok_defs demo_internal_def new_level_info_def less_Suc_eq le_Suc_eq)
  moreover have "clauses_ok demo_internal"
    by (auto simp: search_ok_defs demo_internal_def demo_clause_def)
  moreover have "watching_ok (istore demo_internal) (iwatches demo_internal)"
    by (rule watching_okI) (auto simp: demo_internal_def demo_clause_def watch_entry_ok_def split: if_splits)
  moreover have "claims (exempt demo_internal) demo_internal"
    by (auto simp: search_ok_defs demo_internal_def demo_clause_def split: if_splits)
  ultimately show ?thesis by (simp add: search_ok_def)
qed

definition demo_done :: "(nat, nat) internal" where
  "demo_done = snd (the (propagate (demo_config 2) demo_internal))"

lemma demo_done_trail: "itrail demo_done = [1, 2, 3]"
  by code_simp

lemma demo_done_satisfied: "satisfied demo_done" "iconflict demo_done = None"
  by code_simp+

lemma demo_done_ok: "propagate (demo_config 2) demo_internal = Some (True, demo_done)" "search_ok demo_done"
proof -
  have "iconflict demo_internal = None" by (simp add: demo_internal_def)
  from propagate_ok[OF demo_config_responsive demo_internal_ok this, of 2]
  obtain s' where s': "propagate (demo_config 2) demo_internal = Some (iconflict s' = None, s')" "search_ok s'" by auto
  then have "demo_done = s'" by (simp add: demo_done_def)
  with s' demo_done_satisfied(2) show "propagate (demo_config 2) demo_internal = Some (True, demo_done)" "search_ok demo_done"
    by simp_all
qed

theorem propagate_returns_witness:
  "\<exists>s'. propagate (demo_config 2) demo_internal = Some (True, s') \<and> search_ok s' \<and> ipropagated s' = length (itrail s')"
  using propagate_returns[OF demo_config_responsive[of 2] demo_internal_ok] demo_done_ok(1) by (auto simp: demo_internal_def)

theorem propagate_sound_witness:
  "itrail demo_done = [1, 2, 3] \<and> implied demo_internal 2 \<and> implied demo_internal 3 \<and>
   permuted (istore demo_internal) (istore demo_done)"
  using propagate_sound[OF demo_config_responsive demo_internal_ok _ demo_done_ok(1)] demo_done_trail
  by (simp add: demo_internal_def)

lemma demo_done_clause: "map_option cl_garbage (istore demo_done 1) = Some False"
  by code_simp

theorem satisfied_is_model_witness: "\<exists>c l. istore demo_done 1 = Some c \<and> l \<in> set (cl_lits c) \<and> (l = 1 \<or> l = 2 \<or> l = 3)"
proof -
  obtain c where c: "istore demo_done 1 = Some c" "\<not> cl_garbage c" using demo_done_clause by auto
  then obtain l where "l \<in> set (cl_lits c)" "l \<in> set (itrail demo_done)"
    using satisfied_is_model[OF demo_done_ok(2) demo_done_satisfied] by blast
  with c show ?thesis by (auto simp: demo_done_trail)
qed

end
