(* ===== verification/Solver_Backtrack.thy ===== *)
theory Solver_Backtrack
  imports Solver_Propagate
begin

text \<open>
  Backtracking and decisions keep the invariant of the search; backtracking keeps exactly the
  literals assigned at levels up to the new one, in their order.
\<close>

section \<open>Notifications\<close>

text \<open>What notifications leave alone: all but the propagator's state and the count of notified literals.\<close>

definition same_search :: "('p, 'h) internal \<Rightarrow> ('p, 'h) internal \<Rightarrow> bool" where
  "same_search s s' \<longleftrightarrow> same_base s s' \<and> same_trail s s'"

lemma same_search_refl [simp]: "same_search s s"
  by (simp add: same_search_def same_base_def same_trail_def)

lemma same_search_trans: "same_search s s' \<Longrightarrow> same_search s' s'' \<Longrightarrow> same_search s s''"
  by (simp add: same_search_def same_base_def same_trail_def)

lemma same_search_claims: "same_search s s' \<Longrightarrow> claims R s' = claims R s"
  by (simp add: same_search_def same_base_def same_trail_def claims_def both_processed_def rescued_def watch_height_def trail_start_def)

lemma same_search_parts:
  assumes "same_search s s'"
  shows "trail_ok s' = trail_ok s" "control_ok s' = control_ok s" "clauses_ok s' = clauses_ok s" "exempt s' = exempt s"
  using assms by (simp_all add: same_search_def same_base_def same_trail_def search_ok_defs exempt_def split: option.split)

lemma same_search_ok: "same_search s s' \<Longrightarrow> search_ok s' = search_ok s"
  using same_search_parts[of s s'] same_search_claims[of s s']
  by (simp add: search_ok_def same_search_def same_base_def)

lemma notify_one_returns:
  assumes "responsive E" "ilit_ok s l"
  shows "\<exists>s'. notify_one E s l = Some s' \<and> same_search s s'"
proof -
  obtain p where "on_assignment (pops E) (externalize s l) False (iprop s) = Some p" using assms(1) unfolding responsive_def by blast
  then show ?thesis using assms(2)
    by (auto simp: notify_one_def fixed_def Let_def same_search_def same_base_def same_trail_def)
qed

lemma notify_all_return:
  "responsive E \<Longrightarrow> \<forall>l \<in> set ls. ilit_ok s l \<Longrightarrow> \<exists>s'. mfold (notify_one E) s ls = Some s' \<and> same_search s s'"
proof (induction ls arbitrary: s)
  case (Cons l ls)
  from Cons.prems obtain s1 where s1: "notify_one E s l = Some s1" "same_search s s1" using notify_one_returns by fastforce
  then have "\<forall>k \<in> set ls. ilit_ok s1 k" using Cons.prems by (simp add: same_search_def same_base_def ilit_ok_def)
  with Cons.IH[OF Cons.prems(1)] obtain s2 where "mfold (notify_one E) s1 ls = Some s2" "same_search s1 s2" by blast
  then show ?case using s1 same_search_trans[OF s1(2)] by auto
qed simp

lemma notify_assignments_return:
  assumes "responsive E" "\<forall>l \<in> set (itrail s). ilit_ok s l"
  shows "\<exists>s'. notify_assignments E s = Some s' \<and> same_search s s'"
proof -
  have "\<forall>l \<in> set (drop (inotified s) (itrail s)). ilit_ok s l" using assms(2) by (meson in_set_dropD)
  from notify_all_return[OF assms(1) this] obtain s' where
    "mfold (notify_one E) s (drop (inotified s) (itrail s)) = Some s'" "same_search s s'" by blast
  then show ?thesis by (auto simp: notify_assignments_def same_search_def same_base_def same_trail_def)
qed

section \<open>Backtracking\<close>

definition kept_lits :: "('p, 'h) internal \<Rightarrow> nat \<Rightarrow> int list \<Rightarrow> int list" where
  "kept_lits s n ls = List.filter (\<lambda>l. ivar_level s \<bar>l\<bar> \<le> n) ls"

lemma kept_lits_simps [simp]:
  "kept_lits s n [] = []" "kept_lits s n (l # ls) = (if ivar_level s \<bar>l\<bar> \<le> n then l # kept_lits s n ls else kept_lits s n ls)"
  "kept_lits s n (ls @ ks) = kept_lits s n ls @ kept_lits s n ks"
  by (simp_all add: kept_lits_def)

lemma set_kept_lits: "set (kept_lits s n ls) = {l \<in> set ls. ivar_level s \<bar>l\<bar> \<le> n}"
  by (auto simp: kept_lits_def)

lemma backtrack_trail_effect:
  assumes E: "responsive E"
  shows "\<forall>l \<in> set ls. ilit_ok s l \<Longrightarrow> distinct (map abs ls) \<Longrightarrow>
   \<exists>s'. backtrack_trail E n a s kept ls = Some (s', kept @ kept_lits s n ls) \<and> same_base s s' \<and>
     itrail s' = itrail s \<and> ivar_level s' = ivar_level s \<and> ivar_reason s' = ivar_reason s \<and>
     ipropergated s' = ipropergated s \<and> inotified s' = inotified s \<and> ino_conflict_until s' = ino_conflict_until s \<and>
     ivals s' = (\<lambda>l. if \<exists>k \<in> set ls. \<bar>k\<bar> = \<bar>l\<bar> \<and> n < ivar_level s \<bar>k\<bar> then 0 else ivals s l) \<and>
     (\<forall>i < length (kept_lits s n ls). ivar_trail s' \<bar>kept_lits s n ls ! i\<bar> = a + length kept + i) \<and>
     (\<forall>v. v \<notin> abs ` set ls \<longrightarrow> ivar_trail s' v = ivar_trail s v)"
proof (induction ls arbitrary: s kept)
  case Nil
  then show ?case by (simp add: same_base_def)
next
  case (Cons l ls)
  have l: "ilit_ok s l" "\<bar>l\<bar> \<notin> abs ` set ls" "l \<noteq> 0" using Cons.prems by (auto simp: ilit_ok_def)
  show ?case
  proof (cases "n < ivar_level s \<bar>l\<bar>")
    case True
    obtain h where h: "heur_unassign (hops E) \<bar>l\<bar> (iheur s) = Some h" using E unfolding responsive_def by blast
    let ?s = "s\<lparr>ivals := (ivals s)(\<bar>l\<bar> := 0, - \<bar>l\<bar> := 0), iheur := h\<rparr>"
    have step: "backtrack_trail E n a s kept (l # ls) = backtrack_trail E n a ?s kept ls"
      using True l h by (simp add: var_level_def unassign_def Let_def)
    have kl: "kept_lits ?s n ls = kept_lits s n ls" by (simp add: kept_lits_def)
    have vals: "ivals ?s = (\<lambda>k. if \<bar>k\<bar> = \<bar>l\<bar> then 0 else ivals s k)" by (auto simp: fun_eq_iff abs_if)
    have "\<forall>k \<in> set ls. ilit_ok ?s k" "distinct (map abs ls)" using Cons.prems by (simp_all add: ilit_ok_def)
    from Cons.IH[OF this, of kept] obtain s' where s': "backtrack_trail E n a ?s kept ls = Some (s', kept @ kept_lits s n ls)"
      "same_base ?s s'" "itrail s' = itrail s" "ivar_level s' = ivar_level s" "ivar_reason s' = ivar_reason s"
      "ipropergated s' = ipropergated s" "inotified s' = inotified s" "ino_conflict_until s' = ino_conflict_until s"
      "ivals s' = (\<lambda>k. if \<exists>j \<in> set ls. \<bar>j\<bar> = \<bar>k\<bar> \<and> n < ivar_level s \<bar>j\<bar> then 0 else ivals ?s k)"
      "\<forall>i < length (kept_lits s n ls). ivar_trail s' \<bar>kept_lits s n ls ! i\<bar> = a + length kept + i"
      "\<forall>v. v \<notin> abs ` set ls \<longrightarrow> ivar_trail s' v = ivar_trail s v"
      unfolding kl by auto
    have "ivals s' = (\<lambda>k. if \<exists>j \<in> set (l # ls). \<bar>j\<bar> = \<bar>k\<bar> \<and> n < ivar_level s \<bar>j\<bar> then 0 else ivals s k)"
      unfolding s'(9) vals using True by (auto simp: fun_eq_iff)
    moreover have "same_base s s'" using s'(2) by (simp add: same_base_def)
    ultimately show ?thesis using step s' True by (intro exI[of _ s']) simp
  next
    case False
    let ?s = "s\<lparr>ivar_trail := (ivar_trail s)(\<bar>l\<bar> := a + length kept)\<rparr>"
    have step: "backtrack_trail E n a s kept (l # ls) = backtrack_trail E n a ?s (kept @ [l]) ls"
      using False l by (simp add: var_level_def)
    have kl: "kept_lits ?s n ls = kept_lits s n ls" by (simp add: kept_lits_def)
    have "\<forall>k \<in> set ls. ilit_ok ?s k" "distinct (map abs ls)" using Cons.prems by (simp_all add: ilit_ok_def)
    from Cons.IH[OF this, of "kept @ [l]"] obtain s' where s': "backtrack_trail E n a ?s (kept @ [l]) ls = Some (s', (kept @ [l]) @ kept_lits s n ls)"
      "same_base ?s s'" "itrail s' = itrail s" "ivar_level s' = ivar_level s" "ivar_reason s' = ivar_reason s"
      "ipropergated s' = ipropergated s" "inotified s' = inotified s" "ino_conflict_until s' = ino_conflict_until s"
      "ivals s' = (\<lambda>k. if \<exists>j \<in> set ls. \<bar>j\<bar> = \<bar>k\<bar> \<and> n < ivar_level s \<bar>j\<bar> then 0 else ivals ?s k)"
      "\<forall>i < length (kept_lits s n ls). ivar_trail s' \<bar>kept_lits s n ls ! i\<bar> = a + length (kept @ [l]) + i"
      "\<forall>v. v \<notin> abs ` set ls \<longrightarrow> ivar_trail s' v = ivar_trail ?s v"
      unfolding kl by auto
    have "ivals s' = (\<lambda>k. if \<exists>j \<in> set (l # ls). \<bar>j\<bar> = \<bar>k\<bar> \<and> n < ivar_level s \<bar>j\<bar> then 0 else ivals s k)"
      unfolding s'(9) using False by (auto simp: fun_eq_iff)
    moreover have "same_base s s'" using s'(2) by (simp add: same_base_def)
    moreover have "\<forall>i < length (kept_lits s n (l # ls)). ivar_trail s' \<bar>kept_lits s n (l # ls) ! i\<bar> = a + length kept + i"
      using s'(10,11) l(2) False by (auto simp: nth_Cons split: nat.split)
    ultimately show ?thesis using step s' False by (intro exI[of _ s']) simp
  qed
qed

lemma update_target_and_best_frame:
  "same_search s (update_target_and_best s)" "inotified (update_target_and_best s) = inotified s"
  by (simp_all add: update_target_and_best_def Let_def same_search_def same_base_def same_trail_def)

text \<open>The state after \<^verbatim>\<open>backtrack\<close>, as far as the search depends on it.\<close>

definition backtracked :: "nat \<Rightarrow> ('p, 'h) internal \<Rightarrow> ('p, 'h) internal \<Rightarrow> bool" where
  "backtracked n s s' \<longleftrightarrow> (let a = trail_start s (n + 1) in
     itrail s' = take a (itrail s) @ kept_lits s n (drop a (itrail s)) \<and>
     ivals s' = (\<lambda>l. if \<exists>k \<in> set (drop a (itrail s)). \<bar>k\<bar> = \<bar>l\<bar> \<and> n < ivar_level s \<bar>k\<bar> then 0 else ivals s l) \<and>
     ivar_level s' = ivar_level s \<and> ivar_reason s' = ivar_reason s \<and> icontrol s' = take (n + 1) (icontrol s) \<and> ilevel s' = n \<and>
     ipropagated s' = min (ipropagated s) a \<and> imax_var s' = imax_var s \<and> iconflict s' = iconflict s \<and> iunsat s' = iunsat s \<and>
     istore s' = istore s \<and> ifresh s' = ifresh s \<and> iwatches s' = iwatches s \<and> iassumptions s' = iassumptions s \<and>
     iconstraint s' = iconstraint s \<and> iclause s' = iclause s \<and> isearching_lucky_phases s' = isearching_lucky_phases s \<and>
     iclauses s' = iclauses s \<and> iseen s' = iseen s \<and> ianalyzed s' = ianalyzed s \<and> iminimized s' = iminimized s \<and>
     ikeep s' = ikeep s \<and> ipoison s' = ipoison s \<and> iremovable s' = iremovable s \<and> imarks s' = imarks s \<and> ioriginal s' = ioriginal s \<and>
     (\<forall>i < length (kept_lits s n (drop a (itrail s))). ivar_trail s' \<bar>kept_lits s n (drop a (itrail s)) ! i\<bar> = a + i) \<and>
     (\<forall>v. v \<notin> abs ` set (drop a (itrail s)) \<longrightarrow> ivar_trail s' v = ivar_trail s v))"

lemma backtrack_effect:
  assumes E: "responsive E" and ok: "trail_ok s" "control_ok s" and n: "n < ilevel s"
  shows "\<exists>s'. backtrack E s n = Some s' \<and> backtracked n s s'"
proof -
  let ?s1 = "update_target_and_best s" and ?a = "trail_start s (n + 1)"
  have f1: "same_search s ?s1" by (rule update_target_and_best_frame)
  then have len: "n + 1 < length (icontrol ?s1)" using ok(2) n by (simp add: control_ok_def same_search_def same_base_def)
  have a: "lv_trail (icontrol ?s1 ! (n + 1)) = ?a" using f1 by (simp add: trail_start_def same_search_def same_base_def)
  obtain p where p: "on_backtrack (pops E) n (iprop ?s1) = Some p" using E unfolding responsive_def by blast
  obtain s2 where s2: "notify_backtrack_to E ?s1 n = Some s2" "same_search ?s1 s2"
    using p by (cases "eager E") (simp_all add: notify_backtrack_to_def same_search_def same_base_def same_trail_def)
  define s3 where "s3 = (if eager E \<and> inotified s2 > ?a then s2\<lparr>inotified := ?a\<rparr> else s2)"
  have "same_search s2 s3" by (simp add: s3_def same_search_def same_base_def same_trail_def)
  then have f3: "same_search s s3" using f1 s2(2) same_search_trans by blast
  have lits: "\<forall>l \<in> set (drop ?a (itrail s)). ilit_ok s3 l"
    using ok(1) f3 by (auto simp: trail_ok_def same_search_def same_base_def ilit_ok_def dest: in_set_dropD)
  have dist: "distinct (map abs (drop ?a (itrail s)))"
    using ok(1) distinct_drop[of "map abs (itrail s)" ?a] by (simp add: trail_ok_def drop_map)
  have kl: "kept_lits s3 n ls = kept_lits s n ls" for ls using f3 by (simp add: kept_lits_def same_search_def same_trail_def)
  from backtrack_trail_effect[OF E lits dist, of n ?a "[]"] obtain s4 where
    s4: "backtrack_trail E n ?a s3 [] (drop ?a (itrail s)) = Some (s4, kept_lits s n (drop ?a (itrail s)))" and
    f4: "same_base s3 s4" "itrail s4 = itrail s3" "ivar_level s4 = ivar_level s3" "ivar_reason s4 = ivar_reason s3"
      "ivals s4 = (\<lambda>l. if \<exists>k \<in> set (drop ?a (itrail s)). \<bar>k\<bar> = \<bar>l\<bar> \<and> n < ivar_level s3 \<bar>k\<bar> then 0 else ivals s3 l)"
      "\<forall>i < length (kept_lits s n (drop ?a (itrail s))). ivar_trail s4 \<bar>kept_lits s n (drop ?a (itrail s)) ! i\<bar> = ?a + i"
      "\<forall>v. v \<notin> abs ` set (drop ?a (itrail s)) \<longrightarrow> ivar_trail s4 v = ivar_trail s3 v"
    unfolding kl by auto
  define s5 where "s5 = s4\<lparr>itrail := take ?a (itrail s4) @ kept_lits s n (drop ?a (itrail s)), ipropagated := min (ipropagated s4) ?a,
      ipropagated2 := min (ipropagated2 s4) ?a, ino_conflict_until := min (ino_conflict_until s4) ?a, ipropergated := 0\<rparr>"
  have "\<forall>l \<in> set (itrail s5). ilit_ok s5 l"
    using ok(1) f3 f4 by (auto simp: s5_def trail_ok_def ilit_ok_def same_search_def same_base_def same_trail_def set_kept_lits
        dest: in_set_takeD in_set_dropD)
  from notify_assignments_return[OF E this] obtain s6 where
    s6: "(if kept_lits s n (drop ?a (itrail s)) \<noteq> [] then notify_assignments E s5 else Some s5) = Some s6" "same_search s5 s6"
    by (cases "kept_lits s n (drop ?a (itrail s)) \<noteq> []") auto
  have tr: "itrail s3 = itrail s" and v3: "ivals s3 = ivals s" "ivar_level s3 = ivar_level s"
    using f3 by (simp_all add: same_search_def same_trail_def)
  have "backtrack E s n = Some (s6\<lparr>icontrol := take (n + 1) (icontrol s6), ilevel := n\<rparr>)"
  proof -
    have v: "vec_at (icontrol ?s1) (n + 1) = Some (icontrol ?s1 ! (n + 1))" "(n = ilevel s) = False" using len n by simp_all
    show ?thesis unfolding backtrack_def Let_def
      by (simp only: v Option.bind.bind_lunit a s2(1) s3_def[symmetric] tr s4 prod.case s5_def[symmetric] s6(1) if_False)
  qed
  moreover have "backtracked n s (s6\<lparr>icontrol := take (n + 1) (icontrol s6), ilevel := n\<rparr>)"
    using s6(2) f3 f4[unfolded v3] unfolding backtracked_def s5_def Let_def
    by (simp add: same_search_def same_base_def same_trail_def)
  ultimately show ?thesis by blast
qed

lemma backtracked_trail:
  assumes ok: "trail_ok s" "control_ok s" and n: "n < ilevel s" and b: "backtracked n s s'"
  shows "itrail s' = kept_lits s n (itrail s)" "trail_start s (n + 1) \<le> length (itrail s)" "trail_start s (n + 1) \<le> ipropagated s"
    "ipropagated s' = trail_start s (n + 1)" "\<forall>l \<in> set (take (trail_start s (n + 1)) (itrail s)). ivar_level s \<bar>l\<bar> \<le> n"
proof -
  let ?a = "trail_start s (n + 1)"
  have mono: "?a \<le> trail_start s (ilevel s)" "trail_start s (ilevel s) \<le> ipropagated s" "ipropagated s \<le> length (itrail s)"
    using ok(2) n unfolding control_ok_def by (auto simp: Suc_le_eq)
  then show le: "?a \<le> length (itrail s)" "?a \<le> ipropagated s" "ipropagated s' = ?a" using b by (auto simp: backtracked_def Let_def)
  have "ivar_level s \<bar>itrail s ! i\<bar> < n + 1" if "i < ?a" for i
    using ok(2) n that unfolding control_ok_def by (metis Suc_eq_plus1 Suc_leI)
  then show low: "\<forall>l \<in> set (take ?a (itrail s)). ivar_level s \<bar>l\<bar> \<le> n"
    using le(1) by (auto simp: in_set_conv_nth less_Suc_eq_le)
  then have "kept_lits s n (take ?a (itrail s)) = take ?a (itrail s)" by (simp add: kept_lits_def)
  moreover have "kept_lits s n (itrail s) = kept_lits s n (take ?a (itrail s)) @ kept_lits s n (drop ?a (itrail s))"
    by (metis append_take_drop_id kept_lits_simps(3))
  ultimately show "itrail s' = kept_lits s n (itrail s)" using b by (simp add: backtracked_def Let_def)
qed

lemma backtracked_vals:
  assumes ok: "trail_ok s" "control_ok s" and n: "n < ilevel s" and b: "backtracked n s s'" and l: "ilit_ok s l"
  shows "ivals s' l = (if ivar_level s \<bar>l\<bar> \<le> n then ivals s l else 0)"
proof -
  let ?a = "trail_start s (n + 1)"
  have vals: "ivals s' l = (if \<exists>k \<in> set (drop ?a (itrail s)). \<bar>k\<bar> = \<bar>l\<bar> \<and> n < ivar_level s \<bar>k\<bar> then 0 else ivals s l)"
    using b by (simp add: backtracked_def Let_def)
  show ?thesis
  proof (cases "ivar_level s \<bar>l\<bar> \<le> n")
    case True
    then show ?thesis using vals by (simp add: not_less) (metis not_le)
  next
    case False
    have "\<exists>k \<in> set (drop ?a (itrail s)). \<bar>k\<bar> = \<bar>l\<bar> \<and> n < ivar_level s \<bar>k\<bar>" if nz: "ivals s l \<noteq> 0"
    proof -
      have "l \<in> set (itrail s) \<or> - l \<in> set (itrail s)" using nz trail_ok_ivals[OF ok(1) l] by auto
      then obtain k where k: "k \<in> set (itrail s)" "\<bar>k\<bar> = \<bar>l\<bar>" by auto
      have "k \<notin> set (take ?a (itrail s))" using backtracked_trail(5)[OF ok n b] False k(2) by auto
      then have "k \<in> set (drop ?a (itrail s))" using k(1) by (metis Un_iff append_take_drop_id set_append)
      then show ?thesis using k False by auto
    qed
    then show ?thesis using vals False by auto
  qed
qed

lemma backtracked_positions:
  assumes ok: "trail_ok s" "control_ok s" and n: "n < ilevel s" and b: "backtracked n s s'"
  shows "\<forall>i < length (itrail s'). ivar_trail s' \<bar>itrail s' ! i\<bar> = i"
    "\<forall>l \<in> set (itrail s). ivar_trail s \<bar>l\<bar> < trail_start s (n + 1) \<longrightarrow> ivar_trail s' \<bar>l\<bar> = ivar_trail s \<bar>l\<bar>"
    "\<forall>l \<in> set (itrail s'). ivar_trail s' \<bar>l\<bar> < trail_start s (n + 1) \<longrightarrow> ivar_trail s \<bar>l\<bar> = ivar_trail s' \<bar>l\<bar>"
proof -
  let ?a = "trail_start s (n + 1)" and ?k = "kept_lits s n (drop (trail_start s (n + 1)) (itrail s))"
  note t = backtracked_trail[OF ok n b]
  have tr: "itrail s' = take ?a (itrail s) @ ?k" and pk: "\<forall>i < length ?k. ivar_trail s' \<bar>?k ! i\<bar> = ?a + i"
    and po: "\<forall>v. v \<notin> abs ` set (drop ?a (itrail s)) \<longrightarrow> ivar_trail s' v = ivar_trail s v"
    using b by (auto simp: backtracked_def Let_def)
  have d: "distinct (map abs (itrail s))" and pos: "\<forall>i < length (itrail s). ivar_trail s \<bar>itrail s ! i\<bar> = i"
    using ok(1) by (auto simp: trail_ok_def)
  have low: "ivar_trail s' \<bar>itrail s ! i\<bar> = i" if i: "i < ?a" for i
  proof -
    have il: "i < length (itrail s)" using i t(2) by simp
    have "\<bar>itrail s ! i\<bar> \<notin> abs ` set (drop ?a (itrail s))"
    proof
      assume "\<bar>itrail s ! i\<bar> \<in> abs ` set (drop ?a (itrail s))"
      then obtain j where j: "j < length (drop ?a (itrail s))" "\<bar>itrail s ! i\<bar> = \<bar>drop ?a (itrail s) ! j\<bar>" by (auto simp: in_set_conv_nth)
      then have "\<bar>itrail s ! i\<bar> = \<bar>itrail s ! (?a + j)\<bar>" "?a + j < length (itrail s)" by auto
      then have "ivar_trail s \<bar>itrail s ! i\<bar> = ?a + j" using pos by metis
      then show False using pos il i by simp
    qed
    then show ?thesis using po pos il by simp
  qed
  show "\<forall>i < length (itrail s'). ivar_trail s' \<bar>itrail s' ! i\<bar> = i"
  proof (intro allI impI)
    fix i assume i: "i < length (itrail s')"
    show "ivar_trail s' \<bar>itrail s' ! i\<bar> = i"
    proof (cases "i < ?a")
      case True
      then show ?thesis using low[OF True] t(2) by (simp add: tr nth_append)
    next
      case False
      then have "itrail s' ! i = ?k ! (i - ?a)" "i - ?a < length ?k" using t(2) i by (auto simp: tr nth_append)
      then show ?thesis using pk False by simp
    qed
  qed
  show "\<forall>l \<in> set (itrail s). ivar_trail s \<bar>l\<bar> < ?a \<longrightarrow> ivar_trail s' \<bar>l\<bar> = ivar_trail s \<bar>l\<bar>"
    using low pos by (auto simp: in_set_conv_nth)
  show "\<forall>l \<in> set (itrail s'). ivar_trail s' \<bar>l\<bar> < ?a \<longrightarrow> ivar_trail s \<bar>l\<bar> = ivar_trail s' \<bar>l\<bar>"
  proof (intro ballI impI)
    fix l assume "l \<in> set (itrail s')" and lt: "ivar_trail s' \<bar>l\<bar> < ?a"
    then consider i where "i < ?a" "l = itrail s ! i" | i where "i < length ?k" "l = ?k ! i"
      using t(2) by (auto simp: tr in_set_conv_nth)
    then show "ivar_trail s \<bar>l\<bar> = ivar_trail s' \<bar>l\<bar>"
    proof cases
      case 1
      then show ?thesis using low pos t(2) by simp
    next
      case 2
      then show ?thesis using pk lt by simp
    qed
  qed
qed

lemma backtracked_start: "control_ok s \<Longrightarrow> n < ilevel s \<Longrightarrow> backtracked n s s' \<Longrightarrow> d \<le> n \<Longrightarrow> trail_start s' d = trail_start s d"
  by (simp add: backtracked_def Let_def trail_start_def control_ok_def)

lemma backtracked_trail_ok:
  assumes ok: "trail_ok s" "control_ok s" and n: "n < ilevel s" and b: "backtracked n s s'"
  shows "trail_ok s'"
proof -
  have same: "ilit_ok s' l = ilit_ok s l" "ivar_level s' = ivar_level s" "ilevel s' = n" for l
    using b by (simp_all add: backtracked_def Let_def ilit_ok_def)
  have tr: "itrail s' = kept_lits s n (itrail s)" by (rule backtracked_trail[OF ok n b])
  then have mem: "l \<in> set (itrail s') \<longleftrightarrow> l \<in> set (itrail s) \<and> ivar_level s \<bar>l\<bar> \<le> n" for l by (simp add: set_kept_lits)
  have "distinct (map abs (itrail s'))" unfolding tr kept_lits_def by (rule distinct_map_filter) (use ok(1) in \<open>simp add: trail_ok_def\<close>)
  moreover have "ivals s' l = (if l \<in> set (itrail s') then 1 else if - l \<in> set (itrail s') then -1 else 0)" if "ilit_ok s l" for l
    using backtracked_vals[OF ok n b that] ok(1) that by (auto simp: mem trail_ok_def)
  ultimately show ?thesis using ok(1) backtracked_positions(1)[OF ok n b] unfolding trail_ok_def by (auto simp: same mem)
qed

lemma backtracked_control_ok:
  assumes ok: "trail_ok s" "control_ok s" and n: "n < ilevel s" and b: "backtracked n s s'"
  shows "control_ok s'"
proof -
  let ?a = "trail_start s (n + 1)"
  note t = backtracked_trail[OF ok n b] and st = backtracked_start[OF ok(2) n b]
  have eqs: "icontrol s' = take (n + 1) (icontrol s)" "ivar_level s' = ivar_level s" "ilevel s' = n"
    "itrail s' = take ?a (itrail s) @ kept_lits s n (drop ?a (itrail s))" using b by (simp_all add: backtracked_def Let_def)
  have mono: "trail_start s e \<le> trail_start s d" if "e \<le> d" "d \<le> n + 1" for d e
    using ok(2) n that by (auto simp: control_ok_def)
  have "ivar_level s' \<bar>itrail s' ! i\<bar> < d" if "d \<le> n" "i < trail_start s' d" for d i
  proof -
    have "i < ?a" using mono[of d "n + 1"] that st by simp
    then have "itrail s' ! i = itrail s ! i" using t(2) by (simp add: eqs nth_append)
    then show ?thesis using ok(2) n that st[of d] by (simp add: control_ok_def eqs)
  qed
  moreover have "?a \<le> length (itrail s')" using t(2) by (simp add: eqs)
  ultimately show ?thesis using ok(2) n t(4) mono st by (simp add: control_ok_def eqs)
qed

text \<open>Clauses out of order with a watch on the current level are in order again.\<close>

lemma backtracked_claims:
  assumes parts: "trail_ok s" "control_ok s" "clauses_ok s" "claims R s" and n: "n < ilevel s" and b: "backtracked n s s'"
    and out: "\<And>p c. istore s p = Some c \<Longrightarrow> p \<in> R \<Longrightarrow> p \<notin> Q \<Longrightarrow> trail_start s (ilevel s) \<le> watch_height s c"
  shows "claims Q s'"
  unfolding claims_def
proof (intro allI impI, elim conjE)
  let ?a = "trail_start s (n + 1)"
  note t = backtracked_trail[OF parts(1,2) n b]
  fix p c assume c: "istore s' p = Some c" "\<not> cl_garbage c" "p \<notin> Q" and bp: "both_processed s' c"
  have same: "istore s p = Some c" "ivar_level s' = ivar_level s" "ilevel s' = n" using c(1) b by (simp_all add: backtracked_def Let_def)
  have cok: "clause_ok s c" using parts(3) same(1) by (auto simp: clauses_ok_def)
  have w: "ivals s (cl_lits c ! i) < 0 \<and> ivar_trail s \<bar>cl_lits c ! i\<bar> = ivar_trail s' \<bar>cl_lits c ! i\<bar> \<and> ivar_trail s' \<bar>cl_lits c ! i\<bar> < ?a"
    if i: "i = 0 \<or> i = 1" for i
  proof -
    let ?l = "cl_lits c ! i"
    have l: "ilit_ok s ?l" "ilit_ok s' ?l" using clause_ok_watches(5,6)[OF cok] i b by (auto simp: backtracked_def Let_def ilit_ok_def)
    have neg: "ivals s' ?l < 0" and lt: "ivar_trail s' \<bar>?l\<bar> < ?a"
      using bp i t(4) by (auto simp: both_processed_def watch_height_def)
    then have "- ?l \<in> set (itrail s')" using trail_ok_ivals(2)[OF backtracked_trail_ok[OF parts(1,2) n b] l(2)] by simp
    then have "ivar_trail s \<bar>?l\<bar> = ivar_trail s' \<bar>?l\<bar>"
      using backtracked_positions(3)[OF parts(1,2) n b] lt by force
    moreover have "ivals s ?l < 0" using neg backtracked_vals[OF parts(1,2) n b l(1)] by (auto split: if_splits)
    ultimately show ?thesis using lt by simp
  qed
  have h: "watch_height s c = watch_height s' c" "watch_height s c < ?a" using w by (auto simp: watch_height_def)
  have "both_processed s c" using w h t(3) by (auto simp: both_processed_def)
  moreover have "?a \<le> trail_start s (ilevel s)" using parts(2) n by (auto simp: control_ok_def)
  then have "p \<notin> R" using out[OF same(1) _ c(3)] h(2) by auto
  ultimately have "rescued s c" using parts(4) same(1) c(2) by (auto simp: claims_def)
  then obtain k where k: "k \<in> set (cl_lits c)" "ivals s k > 0"
    "\<forall>d \<le> ilevel s. watch_height s c < trail_start s d \<longrightarrow> ivar_level s \<bar>k\<bar> < d" by (auto simp: rescued_def)
  have "ivar_level s \<bar>k\<bar> < n + 1" using k(3)[rule_format, of "n + 1"] n h(2) by simp
  moreover have "ilit_ok s k" using k(1) cok by (auto simp: clause_ok_def)
  ultimately have "ivals s' k > 0" using backtracked_vals[OF parts(1,2) n b] k(2) by simp
  then show "rescued s' c" using k h n backtracked_start[OF parts(2) n b] same by (auto simp: rescued_def)
qed

text \<open>
  A state after backtracking with the conflict still recorded: everything is in order but perhaps
  the conflict clause.
\<close>

lemma backtracked_search_ok:
  assumes ok: "search_ok s" and n: "n < ilevel s" and b: "backtracked n s s'"
  shows "search_ok s'"
proof -
  have parts: "trail_ok s" "control_ok s" "clauses_ok s" "watching_ok (istore s) (iwatches s)" using ok by (simp_all add: search_ok_def)
  have eqs: "istore s' = istore s" "iwatches s' = iwatches s" "ifresh s' = ifresh s" "iconflict s' = iconflict s" "imax_var s' = imax_var s"
    using b by (simp_all add: backtracked_def Let_def)
  have "claims (set_option (iconflict s)) s'"
    by (rule backtracked_claims[where R = "exempt s", OF parts(1-3) _ n b])
      (use ok in \<open>auto simp: search_ok_def exempt_def split: option.splits\<close>)
  moreover have "set_option (iconflict s) \<subseteq> exempt s'" by (auto simp: exempt_def eqs)
  ultimately have "claims (exempt s') s'" using claims_mono by blast
  moreover have "clauses_ok s'" using parts(3) by (simp add: clauses_ok_def clause_ok_def ilit_ok_def eqs)
  ultimately show ?thesis
    using backtracked_trail_ok[OF parts(1,2) n b] backtracked_control_ok[OF parts(1,2) n b] parts(4)
    by (simp add: search_ok_def eqs)
qed



end
