(* ===== verification/Solver_Reasons.thy ===== *)
theory Solver_Reasons
  imports Solver_Backtrack
begin

text \<open>
  The implication graph and what it stands for: every literal on the trail is a decision at the
  start of its level or has a reason clause, every clause of the solver and every root-level
  literal follows from the formula, and the irredundant clauses still demand the whole formula.
  Propagation, backtracking and assignment keep this.
\<close>

section \<open>The invariant\<close>

definition decided :: "('p, 'h) internal \<Rightarrow> int \<Rightarrow> bool" where
  "decided s l \<longleftrightarrow> 0 < ivar_level s \<bar>l\<bar> \<and> ivar_reason s \<bar>l\<bar> = No_Reason \<and> ivar_trail s \<bar>l\<bar> = trail_start s (ivar_level s \<bar>l\<bar>) \<and>
     (\<forall>e \<le> ilevel s. ivar_level s \<bar>l\<bar> < e \<longrightarrow> ivar_trail s \<bar>l\<bar> < trail_start s e)"

definition reasons_ok :: "('p, 'h) internal \<Rightarrow> bool" where
  "reasons_ok s \<longleftrightarrow> (\<forall>l \<in> set (itrail s). justified s l \<or> decided s l)"

text \<open>What the solver holds follows from the clauses \<open>F\<close>.\<close>

definition follows :: "int list list \<Rightarrow> ('p, 'h) internal \<Rightarrow> bool" where
  "follows F s \<longleftrightarrow> (\<forall>p c. istore s p = Some c \<longrightarrow> entails F [] (cl_lits c)) \<and>
     (\<forall>l \<in> set (itrail s). ivar_level s \<bar>l\<bar> = 0 \<longrightarrow> entails F [] [l]) \<and> (iunsat s \<longrightarrow> entails F [] [])"

text \<open>The irredundant clauses and the root-level literals demand all of \<open>F\<close>.\<close>

definition demands :: "('p, 'h) internal \<Rightarrow> int list list \<Rightarrow> bool" where
  "demands s F \<longleftrightarrow> (\<forall>\<tau>. (\<forall>p c. istore s p = Some c \<and> \<not> cl_garbage c \<and> \<not> cl_redundant c \<longrightarrow> clause_true \<tau> (cl_lits c)) \<longrightarrow>
     (\<forall>l \<in> set (itrail s). ivar_level s \<bar>l\<bar> = 0 \<longrightarrow> lit_true \<tau> l) \<longrightarrow> models F \<tau>)"

text \<open>No analysis is in progress.\<close>

definition idle :: "('p, 'h) internal \<Rightarrow> bool" where
  "idle s \<longleftrightarrow> iclause s = [] \<and> iseen s = (\<lambda>v. False) \<and> ianalyzed s = [] \<and> iminimized s = [] \<and>
     ikeep s = (\<lambda>v. False) \<and> ipoison s = (\<lambda>v. False) \<and> iremovable s = (\<lambda>v. False) \<and> imarks s = (\<lambda>v. 0)"

definition solver_ok :: "int list list \<Rightarrow> ('p, 'h) internal \<Rightarrow> bool" where
  "solver_ok F s \<longleftrightarrow> search_ok s \<and> reasons_ok s \<and> follows F s \<and> demands s F \<and> imax_var s \<le> INT_MAX \<and>
     set (iclauses s) \<subseteq> dom (istore s)"

lemma models_clause_true: "entails F [] c \<Longrightarrow> models F \<tau> \<Longrightarrow> clause_true \<tau> c"
  by (simp add: entails_def)

lemma entails_same_set: "set c = set d \<Longrightarrow> entails F A c = entails F A d"
  by (auto simp: entails_def clause_true_iff)

section \<open>Propagation\<close>

lemma decided_kept:
  assumes "decided s l" "icontrol s' = icontrol s" "ilevel s' = ilevel s" "ivar_level s' \<bar>l\<bar> = ivar_level s \<bar>l\<bar>"
    "ivar_trail s' \<bar>l\<bar> = ivar_trail s \<bar>l\<bar>" "ivar_reason s' \<bar>l\<bar> = ivar_reason s \<bar>l\<bar>"
  shows "decided s' l"
  using assms(1) unfolding decided_def trail_start_def assms(2-) .

lemma prop_frame_reasons:
  assumes "prop_frame s (at_start s s')" "reasons_ok s"
  shows "reasons_ok s'"
  unfolding reasons_ok_def
proof
  fix l assume l: "l \<in> set (itrail s')"
  have fr: "icontrol s' = icontrol s" "ilevel s' = ilevel s" "permuted (istore s) (istore s')" "set (itrail s) \<subseteq> set (itrail s')"
    "\<forall>l \<in> set (itrail s). ivar_level s' \<bar>l\<bar> = ivar_level s \<bar>l\<bar> \<and> ivar_trail s' \<bar>l\<bar> = ivar_trail s \<bar>l\<bar> \<and> ivar_reason s' \<bar>l\<bar> = ivar_reason s \<bar>l\<bar>"
    using assms(1) by (auto simp: prop_frame_def)
  show "justified s' l \<or> decided s' l"
  proof (cases "l \<in> set (itrail s)")
    case True
    then consider "justified s l" | "decided s l" using assms(2) by (auto simp: reasons_ok_def)
    then show ?thesis
    proof cases
      case 1
      then show ?thesis using justified_kept[OF 1 True fr(3-5)] by simp
    next
      case 2
      then show ?thesis using decided_kept[OF 2 fr(1,2)] fr(5) True by simp
    qed
  qed (use assms(1) l in \<open>simp add: prop_frame_def\<close>)
qed

lemma prop_frame_follows:
  assumes fr: "prop_frame s (at_start s s')" and fo: "follows F s"
  shows "follows F s'"
proof -
  have p: "permuted (istore s) (istore s')" using fr by (simp add: prop_frame_def)
  have "entails F [] (cl_lits c)" if "istore s' q = Some c" for q c
  proof -
    obtain c0 where c0: "istore s q = Some c0" "same_clause c0 c" using permutedD2[OF p \<open>istore s' q = Some c\<close>] by blast
    then have "set (cl_lits c0) = set (cl_lits c)" unfolding same_clause_def by (metis mset_eq_setD)
    moreover have "entails F [] (cl_lits c0)" using fo c0 by (auto simp: follows_def)
    ultimately show ?thesis using entails_same_set by metis
  qed
  moreover have "entails F [] [l]" if "l \<in> set (itrail s')" "ivar_level s' \<bar>l\<bar> = 0" for l
  proof -
    have "root_implied s l" using fr that by (simp add: prop_frame_def)
    moreover have "clause_true \<tau> (cl_lits c)" if "models F \<tau>" "istore s q = Some c" for \<tau> q c
      using fo that models_clause_true unfolding follows_def by blast
    moreover have "lit_true \<tau> k" if "models F \<tau>" "k \<in> set (itrail s)" "ivar_level s \<bar>k\<bar> = 0" for \<tau> k
      using fo that models_clause_true[of F "[k]" \<tau>] by (auto simp: follows_def)
    ultimately show ?thesis by (auto simp: entails_def root_implied_def)
  qed
  ultimately show ?thesis using fo fr by (auto simp: follows_def prop_frame_def)
qed

lemma prop_frame_demands:
  assumes fr: "prop_frame s (at_start s s')" and de: "demands s F"
  shows "demands s' F"
  unfolding demands_def
proof (intro allI impI)
  fix \<tau> assume st: "\<forall>p c. istore s' p = Some c \<and> \<not> cl_garbage c \<and> \<not> cl_redundant c \<longrightarrow> clause_true \<tau> (cl_lits c)"
    and tr: "\<forall>l \<in> set (itrail s'). ivar_level s' \<bar>l\<bar> = 0 \<longrightarrow> lit_true \<tau> l"
  have p: "permuted (istore s) (istore s')" using fr by (simp add: prop_frame_def)
  have "clause_true \<tau> (cl_lits c)" if c: "istore s q = Some c" "\<not> cl_garbage c" "\<not> cl_redundant c" for q c
  proof -
    obtain c' where c': "istore s' q = Some c'" "same_clause c c'" using permutedD[OF p c(1)] by blast
    then have "set (cl_lits c) = set (cl_lits c')" unfolding same_clause_def by (metis mset_eq_setD)
    moreover have "clause_true \<tau> (cl_lits c')" using st c' c(2,3) by (auto simp: same_clause_def)
    ultimately show ?thesis by (simp add: clause_true_iff)
  qed
  moreover have "lit_true \<tau> l" if "l \<in> set (itrail s)" "ivar_level s \<bar>l\<bar> = 0" for l
  proof -
    have "l \<in> set (itrail s')" "ivar_level s' \<bar>l\<bar> = 0" using fr that by (auto simp: prop_frame_def)
    then show ?thesis using tr by blast
  qed
  ultimately show "models F \<tau>" using de unfolding demands_def by blast
qed

lemma permuted_dom: "permuted st st' \<Longrightarrow> dom st' = dom st"
proof -
  assume p: "permuted st st'"
  have "(st' q = None) = (st q = None)" for q using p[unfolded permuted_def, rule_format, of q] by (cases "st q"; cases "st' q") auto
  then show ?thesis by (auto simp: dom_def)
qed

lemma propagate_solver_ok:
  assumes "responsive E" "solver_ok F s" "iconflict s = None"
  shows "\<exists>s'. propagate E s = Some (iconflict s' = None, s') \<and> solver_ok F s' \<and> conflict_false s' \<and> prop_frame s (at_start s s') \<and>
    (iconflict s' = None \<longrightarrow> ipropagated s' = length (itrail s'))"
proof -
  have ok: "search_ok s" "reasons_ok s" "follows F s" "demands s F" "imax_var s \<le> INT_MAX" "set (iclauses s) \<subseteq> dom (istore s)"
    using assms(2) by (simp_all add: solver_ok_def)
  from propagate_ok[OF assms(1) ok(1) assms(3)] obtain s' where s': "propagate E s = Some (iconflict s' = None, s')" "search_ok s'"
    "prop_frame s (at_start s s')" "conflict_false s'" "iconflict s' = None \<longrightarrow> ipropagated s' = length (itrail s')"
    by (elim exE conjE) (rule that; assumption)
  have "solver_ok F s'" using s'(2,3) prop_frame_reasons[OF s'(3) ok(2)] prop_frame_follows[OF s'(3) ok(3)]
    prop_frame_demands[OF s'(3) ok(4)] ok(5,6) permuted_dom[of "istore s" "istore s'"] by (simp add: solver_ok_def prop_frame_def)
  then show ?thesis using s' by (intro exI[of _ s'] conjI)
qed

section \<open>Backtracking\<close>

lemma filter_nth_index:
  "i < length xs \<Longrightarrow> P (xs ! i) \<Longrightarrow> length (List.filter P (take i xs)) < length (List.filter P xs) \<and>
     List.filter P xs ! length (List.filter P (take i xs)) = xs ! i"
proof -
  assume i: "i < length xs" "P (xs ! i)"
  then have "xs = take i xs @ xs ! i # drop (Suc i) xs" by (simp add: id_take_nth_drop)
  then have "List.filter P xs = List.filter P (take i xs) @ xs ! i # List.filter P (drop (Suc i) xs)"
    using i(2) by (metis filter.simps(2) filter_append)
  then show ?thesis by (simp add: nth_append)
qed

lemma filter_take_mono: "i < j \<Longrightarrow> j \<le> length xs \<Longrightarrow> P (xs ! i) \<Longrightarrow> length (List.filter P (take i xs)) < length (List.filter P (take j xs))"
proof -
  assume a: "i < j" "j \<le> length xs" "P (xs ! i)"
  have "i < length (take j xs)" "P (take j xs ! i)" using a by auto
  from filter_nth_index[where P = P, OF this] show ?thesis using a by (simp add: min_def)
qed

lemma backtracked_order:
  assumes ok: "trail_ok s" "control_ok s" and n: "n < ilevel s" and b: "backtracked n s s'"
    and k: "k \<in> set (itrail s)" "ivar_level s \<bar>k\<bar> \<le> n" and l: "l \<in> set (itrail s)" "ivar_level s \<bar>l\<bar> \<le> n"
    and lt: "ivar_trail s \<bar>k\<bar> < ivar_trail s \<bar>l\<bar>"
  shows "ivar_trail s' \<bar>k\<bar> < ivar_trail s' \<bar>l\<bar>"
proof -
  let ?P = "\<lambda>l. ivar_level s \<bar>l\<bar> \<le> n"
  have tr: "itrail s' = List.filter ?P (itrail s)" using backtracked_trail(1)[OF ok n b] by (simp add: kept_lits_def)
  have pos: "ivar_trail s' \<bar>x\<bar> = length (List.filter ?P (take (ivar_trail s \<bar>x\<bar>) (itrail s)))"
    if "x \<in> set (itrail s)" "?P x" for x
  proof -
    note p = trail_ok_position[OF ok(1) that(1)]
    from filter_nth_index[where P = ?P, OF p(1)] p(2) that(2)
    have "length (List.filter ?P (take (ivar_trail s \<bar>x\<bar>) (itrail s))) < length (itrail s')"
      "itrail s' ! length (List.filter ?P (take (ivar_trail s \<bar>x\<bar>) (itrail s))) = x" by (simp_all add: tr)
    then show ?thesis using backtracked_positions(1)[OF ok n b] by metis
  qed
  have "ivar_trail s \<bar>l\<bar> \<le> length (itrail s)" "?P (itrail s ! ivar_trail s \<bar>k\<bar>)"
    using trail_ok_position[OF ok(1) l(1)] trail_ok_position[OF ok(1) k(1)] k(2) by auto
  from filter_take_mono[where P = ?P, OF lt this] show ?thesis using pos[OF k] pos[OF l] by simp
qed

lemma backtracked_reasons:
  assumes ok: "trail_ok s" "control_ok s" "reasons_ok s" and n: "n < ilevel s" and b: "backtracked n s s'"
  shows "reasons_ok s'"
  unfolding reasons_ok_def
proof
  fix l assume "l \<in> set (itrail s')"
  then have l: "l \<in> set (itrail s)" "ivar_level s \<bar>l\<bar> \<le> n"
    using backtracked_trail(1)[OF ok(1,2) n b] by (auto simp: set_kept_lits)
  have eqs: "ivar_level s' = ivar_level s" "ivar_reason s' = ivar_reason s" "istore s' = istore s" "ilevel s' = n"
    using b by (simp_all add: backtracked_def Let_def)
  have mem: "x \<in> set (itrail s')" if "x \<in> set (itrail s)" "ivar_level s \<bar>x\<bar> \<le> n" for x
    using that backtracked_trail(1)[OF ok(1,2) n b] by (simp add: set_kept_lits)
  from l(1) ok(3) consider "justified s l" | "decided s l" by (auto simp: reasons_ok_def)
  then show "justified s' l \<or> decided s' l"
  proof cases
    case 1
    have "justified s' l"
    proof (cases "ivar_level s \<bar>l\<bar> = 0")
      case False
      with 1 obtain p c where c: "ivar_reason s \<bar>l\<bar> = Reason_Clause p" "istore s p = Some c" "l \<in> set (cl_lits c)"
        and o: "\<forall>k \<in> set (cl_lits c). k \<noteq> l \<longrightarrow> - k \<in> set (itrail s) \<and> ivar_trail s \<bar>k\<bar> < ivar_trail s \<bar>l\<bar> \<and> ivar_level s \<bar>k\<bar> \<le> ivar_level s \<bar>l\<bar>"
        unfolding justified_def by auto
      have "- k \<in> set (itrail s') \<and> ivar_trail s' \<bar>k\<bar> < ivar_trail s' \<bar>l\<bar>" if "k \<in> set (cl_lits c)" "k \<noteq> l" for k
      proof -
        have k: "- k \<in> set (itrail s)" "ivar_trail s \<bar>k\<bar> < ivar_trail s \<bar>l\<bar>" "ivar_level s \<bar>k\<bar> \<le> n" using o that l(2) by auto
        then show ?thesis using mem[OF k(1)] backtracked_order[OF ok(1,2) n b k(1) _ l] by simp
      qed
      then show ?thesis using False c o unfolding justified_def eqs by auto
    qed (use 1 in \<open>simp add: justified_def eqs\<close>)
    then show ?thesis ..
  next
    case 2
    have st: "trail_start s' d = trail_start s d" if "d \<le> n" for d using backtracked_start[OF ok(2) n b that] .
    have "ivar_trail s \<bar>l\<bar> < trail_start s (n + 1)" using 2 l(2) n by (auto simp: decided_def)
    then have "ivar_trail s' \<bar>l\<bar> = ivar_trail s \<bar>l\<bar>" using backtracked_positions(2)[OF ok(1,2) n b] l(1) by blast
    then have "decided s' l" using 2 l(2) n st by (auto simp: decided_def eqs)
    then show ?thesis ..
  qed
qed

section \<open>Assignment\<close>

text \<open>The two halves of the invariant, the first with a set of clauses that may be out of order.\<close>

definition core_ok :: "nat set \<Rightarrow> ('p, 'h) internal \<Rightarrow> bool" where
  "core_ok R s \<longleftrightarrow> trail_ok s \<and> control_ok s \<and> clauses_ok s \<and> watching_ok (istore s) (iwatches s) \<and> claims R s"

definition graph_ok :: "int list list \<Rightarrow> ('p, 'h) internal \<Rightarrow> bool" where
  "graph_ok F s \<longleftrightarrow> reasons_ok s \<and> follows F s \<and> demands s F \<and> imax_var s \<le> INT_MAX \<and> set (iclauses s) \<subseteq> dom (istore s)"

lemma solver_ok_halves: "solver_ok F s \<longleftrightarrow> core_ok (exempt s) s \<and> graph_ok F s"
  by (auto simp: solver_ok_def search_ok_def core_ok_def graph_ok_def)

lemma backtracked_graph:
  assumes core: "trail_ok s" "control_ok s" and g: "graph_ok F s" and n: "n < ilevel s" and b: "backtracked n s s'"
  shows "graph_ok F s'"
proof -
  have parts: "reasons_ok s" "follows F s" "demands s F" using g by (simp_all add: graph_ok_def)
  have mem: "l \<in> set (itrail s') \<longleftrightarrow> l \<in> set (itrail s) \<and> ivar_level s \<bar>l\<bar> \<le> n" for l
    using backtracked_trail(1)[OF core n b] by (simp add: set_kept_lits)
  have eqs: "ivar_level s' = ivar_level s" "istore s' = istore s" "iunsat s' = iunsat s" "imax_var s' = imax_var s"
    "iclauses s' = iclauses s" using b by (simp_all add: backtracked_def Let_def)
  have "follows F s'" using parts(2) by (simp add: follows_def mem eqs)
  moreover have "demands s' F"
    unfolding demands_def
  proof (intro allI impI)
    fix \<tau> assume "\<forall>p c. istore s' p = Some c \<and> \<not> cl_garbage c \<and> \<not> cl_redundant c \<longrightarrow> clause_true \<tau> (cl_lits c)"
      "\<forall>l \<in> set (itrail s'). ivar_level s' \<bar>l\<bar> = 0 \<longrightarrow> lit_true \<tau> l"
    moreover from this(2) have "\<forall>l \<in> set (itrail s). ivar_level s \<bar>l\<bar> = 0 \<longrightarrow> lit_true \<tau> l" by (simp add: mem eqs)
    ultimately show "models F \<tau>" using parts(3) unfolding demands_def eqs by blast
  qed
  ultimately show ?thesis using backtracked_reasons[OF core parts(1) n b] g by (simp add: graph_ok_def eqs)
qed

lemma core_ok_mono: "core_ok R s \<Longrightarrow> R \<subseteq> R' \<Longrightarrow> core_ok R' s"
  using claims_mono by (auto simp: core_ok_def)

lemma same_search_core: "same_search s s' \<Longrightarrow> core_ok R s' = core_ok R s"
  using same_search_parts[of s s'] same_search_claims[of s s' R] by (auto simp: core_ok_def same_search_def same_base_def)

lemma same_search_justified: "same_search s s' \<Longrightarrow> justified s' l = justified s l"
  by (simp add: same_search_def same_base_def same_trail_def justified_def)

lemma same_search_graph:
  assumes "same_search s s'"
  shows "graph_ok F s' = graph_ok F s"
proof -
  have eqs: "itrail s' = itrail s" "istore s' = istore s" "ivar_level s' = ivar_level s" "iunsat s' = iunsat s" "imax_var s' = imax_var s"
    "ivar_trail s' = ivar_trail s" "ivar_reason s' = ivar_reason s" "icontrol s' = icontrol s" "ilevel s' = ilevel s" "iclauses s' = iclauses s"
    using assms by (simp_all add: same_search_def same_base_def same_trail_def)
  have "decided s' l = decided s l" for l by (simp add: decided_def trail_start_def eqs)
  then have "reasons_ok s' = reasons_ok s" using same_search_justified[OF assms] by (simp add: reasons_ok_def eqs)
  moreover have "follows F s' = follows F s" "demands s' F = demands s F" by (simp_all add: follows_def demands_def eqs)
  ultimately show ?thesis by (simp add: graph_ok_def eqs)
qed

lemma core_ok_extended:
  assumes core: "core_ok R s" and ext: "extended_by lit lv s s'" and base: "same_base s s'"
    and lit: "ilit_ok s lit" "ivals s lit = 0" and lv: "lv \<le> ilevel s"
  shows "core_ok R s'"
proof -
  have ok: "trail_ok s" "control_ok s" "clauses_ok s" "claims R s" using core by (simp_all add: core_ok_def)
  have new: "lit \<notin> set (itrail s)" "- lit \<notin> set (itrail s)" using trail_ok_ivals(3)[OF ok(1) lit(1)] lit(2) by auto
  have "trail_ok s'" using trail_ok_extended[OF ok(1) lit ext] lv base by (simp add: same_base_def)
  moreover have "control_ok s'" by (rule control_ok_extended[OF ok(2) ext base new])
  moreover have "claims R s'" by (rule claims_extended[OF ok(4,1,2,3) ext base lit])
  moreover have "clauses_ok s'" using ok(3) base by (auto simp: search_ok_defs same_base_def)
  ultimately show ?thesis using core base by (auto simp: core_ok_def same_base_def)
qed

lemma prop_frame_graph:
  "prop_frame s s' \<Longrightarrow> graph_ok F s \<Longrightarrow> graph_ok F s'"
proof -
  assume fr: "prop_frame s s'" and g: "graph_ok F s"
  have "at_start s s' = s'" using fr by (cases s') (simp add: prop_frame_def)
  then show ?thesis using prop_frame_reasons[of s s'] prop_frame_follows[of s s' F] prop_frame_demands[of s s' F] fr g
      permuted_dom[of "istore s" "istore s'"] by (simp add: graph_ok_def prop_frame_def)
qed

lemma search_assign_reason:
  assumes E: "responsive E" and core: "core_ok R s" and g: "graph_ok F s" and c: "istore s p = Some c" "lit \<in> set (cl_lits c)"
    and u: "ivals s lit = 0" and false: "\<forall>l \<in> set (cl_lits c). l \<noteq> lit \<longrightarrow> ivals s l < 0"
  shows "\<exists>s'. search_assign E s lit (Reason_Clause p) = Some s' \<and> core_ok R s' \<and> graph_ok F s' \<and> same_base s s' \<and>
    ivals s' lit > 0 \<and> itrail s' = itrail s @ [lit]"
proof -
  have ok: "trail_ok s" "clause_ok s c" using core c by (auto simp: core_ok_def clauses_ok_def)
  have lok: "ilit_ok s lit" using ok(2) c(2) by (auto simp: clause_ok_def)
  have "\<forall>l \<in> set (cl_lits c). l \<noteq> lit \<longrightarrow> ivals s l \<noteq> 0" using false by fastforce
  from search_assign_clause[OF E ok(1) lok c(1) ok(2) this] obtain s' lv where
    s': "search_assign E s lit (Reason_Clause p) = Some s'" "lv \<le> ilevel s" "same_base s s'" "extended_by lit lv s s'"
    "ivar_reason s' = (ivar_reason s)(\<bar>lit\<bar> := if lv = 0 then No_Reason else Reason_Clause p)"
    "\<forall>l \<in> set (cl_lits c). l \<noteq> lit \<longrightarrow> ivar_level s \<bar>l\<bar> \<le> lv" by (elim exE conjE) (rule that; assumption)
  note j = clause_justified[OF ok(1) c(1) ok(2) c(2) u false s'(4,3,5,6)]
  have "implied s lit" by (rule clause_implied[OF ok(1) c(1) ok(2) false])
  then have "prop_frame s s'" by (rule extended_by_frame[OF s'(4,3) ok(1) lok u _ j(2,1) s'(5)])
  then have "graph_ok F s'" using prop_frame_graph g by blast
  moreover have "core_ok R s'" by (rule core_ok_extended[OF core s'(4,3) lok u s'(2)])
  moreover have "ivals s' lit > 0" using extended_by_vals(1)[OF s'(4)] lok by (simp add: ilit_ok_def)
  ultimately show ?thesis using s'(1,3,4) by (auto simp: extended_by_def)
qed

text \<open>
  A root-level literal is assigned.  The formula may grow from \<open>F\<close> to \<open>G\<close> with it, if it demands what
  is new in \<open>G\<close>.
\<close>

lemma unit_graph:
  assumes ok: "trail_ok s" and g: "graph_ok F s" and lit: "ilit_ok s lit" "ivals s lit = 0" and base: "same_base s s'"
    and ext: "extended_by lit 0 s s'" "ivar_reason s' = (ivar_reason s)(\<bar>lit\<bar> := No_Reason)"
    and G: "\<And>\<tau>. models G \<tau> \<Longrightarrow> models F \<tau>" "entails G [] [lit]"
      "\<And>\<tau>. models F \<tau> \<Longrightarrow> \<forall>l \<in> set (itrail s). ivar_level s \<bar>l\<bar> = 0 \<longrightarrow> lit_true \<tau> l \<Longrightarrow> lit_true \<tau> lit \<Longrightarrow> models G \<tau>"
  shows "graph_ok G s'"
proof -
  have ab: "\<bar>l\<bar> \<noteq> \<bar>lit\<bar>" if "l \<in> set (itrail s)" for l
    using that trail_ok_ivals(3)[OF ok lit(1)] lit(2) by (auto simp: abs_eq_iff)
  have old: "ivar_level s' \<bar>l\<bar> = ivar_level s \<bar>l\<bar> \<and> ivar_trail s' \<bar>l\<bar> = ivar_trail s \<bar>l\<bar> \<and> ivar_reason s' \<bar>l\<bar> = ivar_reason s \<bar>l\<bar>"
    if "l \<in> set (itrail s)" for l using ext ab[OF that] by (simp add: extended_by_def)
  have tr: "itrail s' = itrail s @ [lit]" "ivar_level s' \<bar>lit\<bar> = 0" "ivar_reason s' \<bar>lit\<bar> = No_Reason"
    using ext by (simp_all add: extended_by_def)
  have eqs: "istore s' = istore s" "icontrol s' = icontrol s" "ilevel s' = ilevel s" "iunsat s' = iunsat s" "imax_var s' = imax_var s" "iclauses s' = iclauses s"
    using base by (simp_all add: same_base_def)
  have "justified s' l \<or> decided s' l" if "l \<in> set (itrail s')" for l
  proof (cases "l \<in> set (itrail s)")
    case True
    then consider "justified s l" | "decided s l" using g by (auto simp: graph_ok_def reasons_ok_def)
    then show ?thesis
    proof cases
      case 1
      have "justified s' l" by (rule justified_kept[OF 1 True]) (use old in \<open>auto simp: eqs tr\<close>)
      then show ?thesis ..
    next
      case 2
      then show ?thesis using decided_kept[OF 2 eqs(2,3)] old[OF True] by simp
    qed
  next
    case False
    then have "l = lit" using that tr(1) by simp
    then show ?thesis using tr by (simp add: justified_def)
  qed
  then have "reasons_ok s'" by (simp add: reasons_ok_def)
  moreover have "follows G s'"
  proof -
    have fo: "entails F [] c \<Longrightarrow> entails G [] c" for c using G(1) by (simp add: entails_def)
    show ?thesis using g G(2) old fo by (auto simp: graph_ok_def follows_def eqs tr)
  qed
  moreover have "demands s' G"
    unfolding demands_def
  proof (intro allI impI)
    fix \<tau> assume st: "\<forall>p c. istore s' p = Some c \<and> \<not> cl_garbage c \<and> \<not> cl_redundant c \<longrightarrow> clause_true \<tau> (cl_lits c)"
      and root: "\<forall>l \<in> set (itrail s'). ivar_level s' \<bar>l\<bar> = 0 \<longrightarrow> lit_true \<tau> l"
    from root have r: "\<forall>l \<in> set (itrail s). ivar_level s \<bar>l\<bar> = 0 \<longrightarrow> lit_true \<tau> l" "lit_true \<tau> lit" using old tr by simp_all
    then have "models F \<tau>" using g st unfolding graph_ok_def demands_def eqs by blast
    then show "models G \<tau>" using G(3) r by blast
  qed
  ultimately show ?thesis using g by (simp add: graph_ok_def eqs)
qed

text \<open>A unit clause that follows from the formula is assigned on the root level, wherever the search is.\<close>

lemma search_assign_learned_unit:
  assumes E: "responsive E" and core: "core_ok R s" and g: "graph_ok F s" and lit: "ilit_ok s lit" "ivals s lit = 0"
    and ent: "entails F [] [lit]"
  shows "\<exists>s'. search_assign E s lit No_Reason = Some s' \<and> core_ok R s' \<and> graph_ok F s' \<and> same_base s s' \<and>
    ivals s' lit > 0 \<and> itrail s' = itrail s @ [lit]"
proof -
  have "literal_level E s lit No_Reason = Some 0" by (simp add: literal_level_def)
  from search_assign_effect[OF E lit(1) this] obtain s' where
    s': "search_assign E s lit No_Reason = Some s'" "same_base s s'" "extended_by lit 0 s s'"
    "ivar_reason s' = (ivar_reason s)(\<bar>lit\<bar> := No_Reason)" by auto
  have ok: "trail_ok s" using core by (simp add: core_ok_def)
  have "graph_ok F s'" by (rule unit_graph[OF ok g lit s'(2-4)]) (use ent in simp_all)
  moreover have "core_ok R s'" by (rule core_ok_extended[OF core s'(3,2) lit]) simp
  moreover have "ivals s' lit > 0" using extended_by_vals(1)[OF s'(3)] lit by (simp add: ilit_ok_def)
  ultimately show ?thesis using s'(1-3) by (auto simp: extended_by_def)
qed

section \<open>Decisions\<close>

lemma push_level_start:
  assumes "control_ok s"
  shows "trail_start (push_level s d) e = (if e \<le> ilevel s then trail_start s e else if e = ilevel s + 1 then length (itrail s) else trail_start (push_level s d) e)"
  using assms by (auto simp: trail_start_def push_level_def nth_append control_ok_def new_level_info_def less_Suc_eq_le)

lemma push_level_ok:
  assumes core: "core_ok {} s" and g: "graph_ok F s" and pdone: "ipropagated s = length (itrail s)"
  shows "core_ok {} (push_level s d)" "graph_ok F (push_level s d)"
proof -
  let ?s = "push_level s d"
  have ok: "trail_ok s" "control_ok s" "clauses_ok s" "claims {} s" "watching_ok (istore s) (iwatches s)"
    using core by (simp_all add: core_ok_def)
  have eqs: "itrail ?s = itrail s" "istore ?s = istore s" "ivar_level ?s = ivar_level s" "ivar_trail ?s = ivar_trail s" "ivals ?s = ivals s"
    "ivar_reason ?s = ivar_reason s" "ilevel ?s = ilevel s + 1" "iunsat ?s = iunsat s" "imax_var ?s = imax_var s" "ifresh ?s = ifresh s"
    "ipropagated ?s = ipropagated s" "iwatches ?s = iwatches s" "length (icontrol ?s) = length (icontrol s) + 1"
    "iclauses ?s = iclauses s" by (simp_all add: push_level_def)
  have low: "trail_start ?s e = trail_start s e" if "e \<le> ilevel s" for e using push_level_start[OF ok(2), of d e] that by simp
  have top: "trail_start ?s (ilevel s + 1) = length (itrail s)" using push_level_start[OF ok(2), of d "ilevel s + 1"] by simp
  have le: "trail_start s e \<le> length (itrail s)" if "e \<le> ilevel s" for e
    using ok(2) that unfolding control_ok_def by (meson le_refl le_trans)
  have lev: "ivar_level s \<bar>l\<bar> \<le> ilevel s" if "l \<in> set (itrail s)" for l using ok(1) that by (simp add: trail_ok_def)
  have "trail_ok ?s" using ok(1) by (simp add: trail_ok_def eqs ilit_ok_def le_SucI)
  moreover have "control_ok ?s"
    using ok(2) pdone lev le by (auto simp: control_ok_def eqs top[simplified] low le_Suc_eq less_Suc_eq_le)
  moreover have "clauses_ok ?s" using ok(3) by (simp add: clauses_ok_def clause_ok_def ilit_ok_def eqs)
  moreover have "claims {} ?s"
    unfolding claims_def
  proof (intro allI impI, elim conjE)
    fix p c assume c: "istore ?s p = Some c" "\<not> cl_garbage c" and b: "both_processed ?s c"
    have "both_processed s c" using b by (simp add: both_processed_def watch_height_def eqs)
    then obtain k where k: "k \<in> set (cl_lits c)" "ivals s k > 0"
      "\<forall>d \<le> ilevel s. watch_height s c < trail_start s d \<longrightarrow> ivar_level s \<bar>k\<bar> < d"
      using ok(4) c unfolding claims_def rescued_def eqs by blast
    have "clause_ok s c" using ok(3) c(1) by (auto simp: clauses_ok_def eqs)
    then have "k \<in> set (itrail s)" using trail_ok_ivals(1)[OF ok(1)] k by (auto simp: clause_ok_def)
    then have "ivar_level s \<bar>k\<bar> < ilevel s + 1" using lev by (simp add: less_Suc_eq_le)
    with k low show "rescued ?s c" by (auto simp: rescued_def eqs watch_height_def le_Suc_eq)
  qed
  ultimately show "core_ok {} ?s" using ok(5) by (simp add: core_ok_def eqs)
  have "justified ?s l = justified s l" for l by (simp add: justified_def eqs)
  moreover have "decided ?s l" if "decided s l" "l \<in> set (itrail s)" for l
  proof -
    have "ivar_trail s \<bar>l\<bar> < length (itrail s)" using trail_ok_position(1)[OF ok(1) that(2)] .
    then show ?thesis using that(1) low top[simplified] lev[OF that(2)] by (auto simp: decided_def eqs le_Suc_eq)
  qed
  ultimately have "reasons_ok ?s" using g by (auto simp: graph_ok_def reasons_ok_def eqs)
  moreover have "follows F ?s = follows F s" "demands ?s F = demands s F" by (simp_all add: follows_def demands_def eqs)
  ultimately show "graph_ok F ?s" using g by (simp add: graph_ok_def eqs)
qed

lemma notify_decision_returns:
  assumes "responsive E"
  shows "\<exists>s'. notify_decision E s = Some s' \<and> same_search s s'"
proof -
  obtain p where "on_new_level (pops E) (iprop s) = Some p" using assms unfolding responsive_def by blast
  then show ?thesis by (simp add: notify_decision_def same_search_def same_base_def same_trail_def)
qed

lemma pseudo_level_ok:
  assumes E: "responsive E" and core: "core_ok {} s" and g: "graph_ok F s" and pdone: "ipropagated s = length (itrail s)"
  shows "\<exists>s'. pseudo_level E s = Some s' \<and> core_ok {} s' \<and> graph_ok F s' \<and> same_search (push_level s 0) s'"
proof -
  obtain s' where s': "notify_decision E (push_level s 0) = Some s'" "same_search (push_level s 0) s'"
    using notify_decision_returns[OF E] by blast
  then show ?thesis using push_level_ok[OF core g pdone, of 0] same_search_core[OF s'(2)] same_search_graph[OF s'(2)]
    by (simp add: pseudo_level_def)
qed

lemma search_assume_decision_ok:
  assumes E: "responsive E" and core: "core_ok {} s" and g: "graph_ok F s" and pdone: "ipropagated s = length (itrail s)"
    and lit: "ilit_ok s lit" "ivals s lit = 0"
  shows "\<exists>s'. search_assume_decision E s lit = Some s' \<and> core_ok {} s' \<and> graph_ok F s' \<and> same_base (push_level s lit) s' \<and>
    itrail s' = itrail s @ [lit] \<and> ilevel s' = ilevel s + 1"
proof -
  obtain s1 where s1: "notify_decision E (push_level s lit) = Some s1" "same_search (push_level s lit) s1"
    using notify_decision_returns[OF E] by blast
  have ok: "core_ok {} s1" "graph_ok F s1"
    using push_level_ok[OF core g pdone, of lit] same_search_core[OF s1(2)] same_search_graph[OF s1(2)] by simp_all
  have tr1: "itrail s1 = itrail s" "ilevel s1 = ilevel s + 1" "ivals s1 = ivals s" "imax_var s1 = imax_var s"
    "trail_start s1 (ilevel s + 1) = length (itrail s)"
    using s1(2) push_level_start[of s lit "ilevel s + 1"] core
    by (simp_all add: same_search_def same_base_def same_trail_def push_level_def core_ok_def trail_start_def)
  have lit1: "ilit_ok s1 lit" "ivals s1 lit = 0" using lit tr1 by (simp_all add: ilit_ok_def)
  have "literal_level E s1 lit Decision_Reason = Some (ilevel s1)" by (simp add: literal_level_def)
  from search_assign_effect[OF E lit1(1) this] obtain s' where
    s': "search_assign E s1 lit Decision_Reason = Some s'" "same_base s1 s'" "extended_by lit (ilevel s1) s1 s'"
    "ivar_reason s' = (ivar_reason s1)(\<bar>lit\<bar> := No_Reason)" by auto
  have t1: "trail_ok s1" using ok(1) by (simp add: core_ok_def)
  have old: "ivar_level s' \<bar>l\<bar> = ivar_level s1 \<bar>l\<bar> \<and> ivar_trail s' \<bar>l\<bar> = ivar_trail s1 \<bar>l\<bar> \<and> ivar_reason s' \<bar>l\<bar> = ivar_reason s1 \<bar>l\<bar>"
    if "l \<in> set (itrail s1)" for l
  proof -
    have "\<bar>l\<bar> \<noteq> \<bar>lit\<bar>" using that trail_ok_ivals(3)[OF t1 lit1(1)] lit1(2) by (auto simp: abs_eq_iff)
    then show ?thesis using s'(3,4) by (simp add: extended_by_def)
  qed
  have eqs: "istore s' = istore s1" "icontrol s' = icontrol s1" "ilevel s' = ilevel s1" "iunsat s' = iunsat s1" "imax_var s' = imax_var s1"
    "itrail s' = itrail s1 @ [lit]" "iclauses s' = iclauses s1" using s'(2,3) by (simp_all add: same_base_def extended_by_def)
  have "justified s' l \<or> decided s' l" if "l \<in> set (itrail s1)" for l
  proof -
    from that ok(2) consider "justified s1 l" | "decided s1 l" by (auto simp: graph_ok_def reasons_ok_def)
    then show ?thesis
    proof cases
      case 1
      have "justified s' l" by (rule justified_kept[OF 1 that]) (use old in \<open>auto simp: eqs\<close>)
      then show ?thesis ..
    next
      case 2
      then show ?thesis using decided_kept[OF 2 eqs(2,3)] old[OF that] by simp
    qed
  qed
  moreover have "decided s' lit"
    using s'(3,4) tr1 eqs(2) by (auto simp: decided_def extended_by_def trail_start_def eqs(3))
  ultimately have "reasons_ok s'" by (auto simp: reasons_ok_def eqs)
  moreover have lev: "ivar_level s' \<bar>lit\<bar> \<noteq> 0" using s'(3) tr1 by (simp add: extended_by_def)
  then have "follows F s'" using ok(2) old by (auto simp: graph_ok_def follows_def eqs)
  moreover have "demands s' F" using ok(2) old lev by (simp add: graph_ok_def demands_def eqs)
  ultimately have "graph_ok F s'" using ok(2) by (simp add: graph_ok_def eqs)
  moreover have "core_ok {} s'" by (rule core_ok_extended[OF ok(1) s'(3,2) lit1]) simp
  moreover have "same_base (push_level s lit) s'" using s1(2) s'(2) by (simp add: same_search_def same_base_def)
  ultimately show ?thesis using s1(1) s'(1) tr1 eqs by (simp add: search_assume_decision_def)
qed

end
