(* ===== verification/Reap.thy ===== *)
theory Reap
  imports Prelude "HOL-Library.Monad_Syntax"
begin

text \<open>
  The radix heap of \<^verbatim>\<open>src/reap.hpp\<close> and \<^verbatim>\<open>src/reap.cpp\<close>: a priority queue of 32-bit numbers for
  callers that never push less than what they popped last.  An element is in the bucket of the
  highest bit in which it differs from the last element popped.  The sizes of vectors and the indices of
  buckets are natural numbers.
\<close>

unbundle bit_operations_syntax

section \<open>The class\<close>

record reap =
  num_elements :: nat
  last_deleted :: "32 word"
  min_bucket :: nat
  max_bucket :: nat
  buckets :: "32 word list list"

definition new_reap :: reap where
  "new_reap = \<lparr>num_elements = 0, last_deleted = 0, min_bucket = 32, max_bucket = 0, buckets = replicate 33 []\<rparr>"

definition reap_init :: "reap \<Rightarrow> reap" where
  "reap_init r = r\<lparr>buckets := map (\<lambda>b. [0]) (buckets r), min_bucket := 32\<rparr>"

definition reap_release :: "reap \<Rightarrow> reap" where
  "reap_release r = r\<lparr>num_elements := 0, last_deleted := 0, min_bucket := 32, max_bucket := 0\<rparr>"

definition reap_size :: "reap \<Rightarrow> nat" where
  "reap_size r = num_elements r"

definition reap_empty :: "reap \<Rightarrow> bool" where
  "reap_empty r \<longleftrightarrow> num_elements r = 0"

text \<open>\<^verbatim>\<open>__builtin_clz\<close> counts the zero bits above the highest bit that is set.\<close>

definition leading_zeroes_of_unsigned :: "32 word \<Rightarrow> nat" where
  "leading_zeroes_of_unsigned x = (if x \<noteq> 0 then length (takeWhile (\<lambda>i. \<not> bit x i) (rev [0..<32])) else 32)"

definition bucket_of :: "32 word \<Rightarrow> 32 word \<Rightarrow> nat" where
  "bucket_of e l = 32 - leading_zeroes_of_unsigned (e XOR l)"

definition put_bucket :: "nat \<Rightarrow> 32 word \<Rightarrow> reap \<Rightarrow> reap option" where
  "put_bucket b e r = do { s \<leftarrow> vec_at (buckets r) b; Some (r\<lparr>buckets := (buckets r)[b := s @ [e]]\<rparr>) }"

definition reap_push :: "reap \<Rightarrow> 32 word \<Rightarrow> reap option" where
  "reap_push r e = do {
     let b = bucket_of e (last_deleted r);
     r1 \<leftarrow> put_bucket b e r;
     let r2 = (if min_bucket r1 > b then r1\<lparr>min_bucket := b\<rparr> else r1);
     let r3 = (if max_bucket r2 < b then r2\<lparr>max_bucket := b\<rparr> else r2);
     Some (r3\<lparr>num_elements := num_elements r3 + 1\<rparr>) }"

text \<open>The loop over the buckets up to the first one that is not empty.\<close>

function reap_seek :: "reap \<Rightarrow> nat \<Rightarrow> (nat \<times> reap) option" where
  "reap_seek r i =
     (if i < length (buckets r)
      then if buckets r ! i = [] then reap_seek (r\<lparr>min_bucket := i + 1\<rparr>) (i + 1) else Some (i, r)
      else None)"
  by pat_completeness auto
termination by (relation "measure (\<lambda>(r, i). length (buckets r) - i)") auto

declare reap_seek.simps [simp del]

text \<open>The smallest element of a bucket and its position.\<close>

fun scan_min :: "nat \<Rightarrow> 32 word \<Rightarrow> nat \<Rightarrow> 32 word list \<Rightarrow> 32 word \<times> nat" where
  "scan_min p res q [] = (res, q)"
| "scan_min p res q (tmp # s) = (if tmp \<ge> res then scan_min (p + 1) res q s else scan_min (p + 1) tmp p s)"

text \<open>The other elements move to the buckets of their distance to the smallest one.\<close>

fun redistribute :: "32 word \<Rightarrow> reap \<Rightarrow> 32 word list \<Rightarrow> reap option" where
  "redistribute res r [] = Some r"
| "redistribute res r (e # es) = do {
     let j = bucket_of e res;
     r1 \<leftarrow> put_bucket j e r;
     redistribute res (if min_bucket r1 > j then r1\<lparr>min_bucket := j\<rparr> else r1) es }"

definition reap_pop :: "reap \<Rightarrow> (32 word \<times> reap) option" where
  "reap_pop r0 = do {
     (i, r) \<leftarrow> reap_seek r0 (min_bucket r0);
     let s = buckets r ! i;
     (res, r1) \<leftarrow> (if i \<noteq> 0 then do {
          let (res, q) = scan_min 0 (- 1) 0 s;
          r' \<leftarrow> redistribute res r (take q s @ drop (q + 1) s);
          let r'' = r'\<lparr>buckets := (buckets r')[i := []]\<rparr>;
          Some (res, if max_bucket r'' = i then r''\<lparr>max_bucket := i - 1\<rparr> else r'') }
        else Some (last_deleted r, r\<lparr>buckets := (buckets r)[0 := butlast s]\<rparr>));
     let r2 = (if min_bucket r1 = i \<and> buckets r1 ! i = [] then r1\<lparr>min_bucket := min (i + 1) 32\<rparr> else r1);
     Some (res, r2\<lparr>num_elements := num_elements r2 - 1, last_deleted := res\<rparr>) }"

definition reap_clear :: "reap \<Rightarrow> reap" where
  "reap_clear r = r\<lparr>buckets := map (\<lambda>b. []) (buckets r), num_elements := 0, last_deleted := 0, min_bucket := 32, max_bucket := 0\<rparr>"

section \<open>The bucket of an element\<close>

lemma takeWhile_rev_upt:
  "\<exists>k \<le> n. length (takeWhile P (rev [0..<n])) = n - k \<and> (\<forall>i. k \<le> i \<and> i < n \<longrightarrow> P i) \<and> (0 < k \<longrightarrow> \<not> P (k - 1))"
proof (induction n)
  case (Suc n)
  show ?case
  proof (cases "P n")
    case True
    from Suc obtain k where "k \<le> n" "length (takeWhile P (rev [0..<n])) = n - k" "\<forall>i. k \<le> i \<and> i < n \<longrightarrow> P i" "0 < k \<longrightarrow> \<not> P (k - 1)" by blast
    with True show ?thesis by (intro exI[of _ k]) (auto simp: less_Suc_eq)
  qed (auto intro: exI[of _ "Suc n"])
qed simp

lemma bucket_of_le: "bucket_of e l \<le> 32"
  by (simp add: bucket_of_def)

text \<open>It is the least number of low bits to forget to make the element equal to the last one popped.\<close>

lemma bucket_of_le_iff: "bucket_of e l \<le> k \<longleftrightarrow> unat e div 2 ^ k = unat l div 2 ^ k"
proof -
  let ?x = "e XOR l"
  have agree: "unat e div 2 ^ k = unat l div 2 ^ k \<longleftrightarrow> (\<forall>i \<ge> k. \<not> bit ?x i)"
  proof -
    have "unat e div 2 ^ k = unat l div 2 ^ k \<longleftrightarrow> drop_bit k e = drop_bit k l"
      by (metis drop_bit_eq_div unat_drop_bit_eq word_unat_eq_iff)
    also have "\<dots> \<longleftrightarrow> (\<forall>i. bit e (k + i) = bit l (k + i))"
    proof
      assume "drop_bit k e = drop_bit k l"
      then show "\<forall>i. bit e (k + i) = bit l (k + i)" by (metis bit_drop_bit_eq comp_apply)
    qed (rule bit_word_eqI; simp add: bit_drop_bit_eq)
    also have "\<dots> \<longleftrightarrow> (\<forall>i \<ge> k. \<not> bit ?x i)" by (auto simp: bit_simps le_iff_add)
    finally show ?thesis .
  qed
  obtain m where m: "m \<le> 32" "length (takeWhile (\<lambda>i. \<not> bit ?x i) (rev [0..<32])) = 32 - m"
    "\<And>i. m \<le> i \<Longrightarrow> i < 32 \<Longrightarrow> \<not> bit ?x i" "0 < m \<Longrightarrow> bit ?x (m - 1)"
    using takeWhile_rev_upt[of 32 "\<lambda>i. \<not> bit ?x i"] by auto
  have hi: "\<not> bit ?x i" if "m \<le> i" for i
    using m(3)[OF that] bit_imp_le_length[of ?x i] by fastforce
  have b: "bucket_of e l = m"
  proof (cases "?x = 0")
    case True
    then have "m = 0" using m(4) by (cases m) auto
    then show ?thesis using True by (simp add: bucket_of_def leading_zeroes_of_unsigned_def)
  qed (use m(1,2) in \<open>simp add: bucket_of_def leading_zeroes_of_unsigned_def\<close>)
  have "m \<le> k" if "\<forall>i \<ge> k. \<not> bit ?x i"
  proof (rule ccontr)
    assume "\<not> m \<le> k"
    then have "0 < m" "k \<le> m - 1" by auto
    then show False using m(4) that by blast
  qed
  then show ?thesis unfolding agree b using hi by (meson order_trans)
qed

text \<open>Buckets are ordered, and the elements of a bucket are close to each other.\<close>

lemma bucket_order:
  assumes "l \<le> y" "bucket_of x l < bucket_of y l"
  shows "x < y"
proof -
  let ?k = "bucket_of x l"
  have "unat x div 2 ^ ?k = unat l div 2 ^ ?k" using bucket_of_le_iff[of x l ?k] by simp
  moreover have "unat y div 2 ^ ?k \<noteq> unat l div 2 ^ ?k" using bucket_of_le_iff[of y l ?k] assms(2) by simp
  moreover have "unat l div 2 ^ ?k \<le> unat y div 2 ^ ?k" using assms(1) by (simp add: word_le_nat_alt div_le_mono)
  ultimately have "unat x div 2 ^ ?k < unat y div 2 ^ ?k" by simp
  then show ?thesis using div_le_mono[of "unat y" "unat x" "2 ^ ?k"] by (fastforce simp: word_less_nat_alt)
qed

lemma bucket_close:
  assumes "l \<le> x" "l \<le> y" "bucket_of x l = i" "bucket_of y l = i" "0 < i"
  shows "bucket_of x y < i"
proof -
  obtain k where k: "i = Suc k" using assms(5) by (cases i) auto
  have split: "n div 2 ^ k = 2 * (n div 2 ^ i) + n div 2 ^ k mod 2" for n :: nat
    by (simp add: k div_mult2_eq mult.commute[of 2 "2 ^ k"])
  have half: "unat z div 2 ^ k = 2 * (unat l div 2 ^ i) + 1" if "l \<le> z" "bucket_of z l = i" for z
  proof -
    have "unat z div 2 ^ i = unat l div 2 ^ i" "unat z div 2 ^ k \<noteq> unat l div 2 ^ k"
      using bucket_of_le_iff[of z l i] bucket_of_le_iff[of z l k] that(2) k by simp_all
    moreover have "unat l div 2 ^ k \<le> unat z div 2 ^ k" using that(1) by (simp add: word_le_nat_alt div_le_mono)
    ultimately show ?thesis using split[of "unat z"] split[of "unat l"] by linarith
  qed
  have "bucket_of x y \<le> k" using half[OF assms(1,3)] half[OF assms(2,4)] by (simp add: bucket_of_le_iff)
  then show ?thesis using k by simp
qed

lemma bucket_stays:
  assumes "bucket_of m l < bucket_of x l"
  shows "bucket_of x m = bucket_of x l"
proof -
  have "bucket_of x m \<le> k \<longleftrightarrow> bucket_of x l \<le> k" if "bucket_of m l \<le> k" for k
    using that by (simp add: bucket_of_le_iff)
  moreover have "bucket_of m l \<le> bucket_of x m"
  proof (rule ccontr)
    assume "\<not> bucket_of m l \<le> bucket_of x m"
    then have "bucket_of x l \<le> bucket_of m l" using bucket_of_le_iff[of x m "bucket_of m l"] bucket_of_le_iff[of m l "bucket_of m l"]
        bucket_of_le_iff[of x l "bucket_of m l"] by simp
    then show False using assms by simp
  qed
  ultimately show ?thesis using assms by (meson le_antisym less_imp_le order_refl)
qed

lemma bucket_of_self: "bucket_of x l = 0 \<longleftrightarrow> x = l"
  using bucket_of_le_iff[of x l 0] by (simp add: word_unat_eq_iff)

section \<open>The invariant\<close>

definition reap_elems :: "reap \<Rightarrow> 32 word multiset" where
  "reap_elems r = mset (concat (buckets r))"

text \<open>Every element is where its distance to \<open>l\<close> puts it.\<close>

definition placed :: "32 word \<Rightarrow> 32 word list list \<Rightarrow> bool" where
  "placed l bs \<longleftrightarrow> length bs = 33 \<and> (\<forall>i < 33. \<forall>x \<in> set (bs ! i). l \<le> x \<and> bucket_of x l = i)"

lemma placedD: "placed l bs \<Longrightarrow> i < 33 \<Longrightarrow> x \<in> set (bs ! i) \<Longrightarrow> l \<le> x \<and> bucket_of x l = i"
  unfolding placed_def by blast

lemma placedI: "length bs = 33 \<Longrightarrow> (\<And>i x. i < 33 \<Longrightarrow> x \<in> set (bs ! i) \<Longrightarrow> l \<le> x \<and> bucket_of x l = i) \<Longrightarrow> placed l bs"
  unfolding placed_def by blast

definition reap_ok :: "reap \<Rightarrow> bool" where
  "reap_ok r \<longleftrightarrow> placed (last_deleted r) (buckets r) \<and> num_elements r = size (reap_elems r) \<and> min_bucket r \<le> 32 \<and>
     (\<forall>i < min_bucket r. buckets r ! i = []) \<and> (\<forall>i < 33. max_bucket r < i \<longrightarrow> buckets r ! i = [])"

lemma mset_concat_exchange:
  "i < length bs \<Longrightarrow> mset (concat (bs[i := b])) + mset (bs ! i) = mset (concat bs) + mset b"
  by (induction bs arbitrary: i) (auto split: nat.splits simp: ac_simps)

lemma mset_concat_snoc: "i < length bs \<Longrightarrow> mset (concat (bs[i := bs ! i @ [x]])) = add_mset x (mset (concat bs))"
  using mset_concat_exchange[of i bs "bs ! i @ [x]"] by (simp add: union_assoc[symmetric] add.commute)

lemma new_reap_ok: "reap_ok new_reap" "reap_elems new_reap = {#}" "last_deleted new_reap = 0"
proof -
  have "concat (replicate n []) = []" for n by (induction n) simp_all
  then show "reap_ok new_reap" "reap_elems new_reap = {#}" "last_deleted new_reap = 0"
    by (simp_all add: reap_ok_def placed_def new_reap_def reap_elems_def)
qed

lemma reap_clear_ok:
  assumes "length (buckets r) = 33"
  shows "reap_clear r = new_reap"
  using assms by (simp add: reap_clear_def new_reap_def map_replicate_const)

lemma reap_empty_iff: "reap_ok r \<Longrightarrow> reap_empty r \<longleftrightarrow> reap_elems r = {#}"
  by (simp add: reap_ok_def reap_empty_def)

lemma reap_push_ok:
  assumes ok: "reap_ok r" and e: "last_deleted r \<le> e"
  shows "\<exists>r'. reap_push r e = Some r' \<and> reap_ok r' \<and> reap_elems r' = add_mset e (reap_elems r) \<and> last_deleted r' = last_deleted r"
proof -
  let ?b = "bucket_of e (last_deleted r)" let ?bs = "(buckets r)[?b := buckets r ! ?b @ [e]]"
  have pl: "placed (last_deleted r) (buckets r)" using ok by (simp add: reap_ok_def)
  have b: "?b < 33" "length (buckets r) = 33" using bucket_of_le[of e "last_deleted r"] pl by (simp_all add: placed_def)
  have "last_deleted r \<le> x \<and> bucket_of x (last_deleted r) = i" if "i < 33" "x \<in> set (?bs ! i)" for i x
  proof (cases "i = ?b \<and> x = e")
    case False
    then have "x \<in> set (buckets r ! i)" using that b by (cases "i = ?b") auto
    then show ?thesis by (rule placedD[OF pl that(1)])
  qed (use e in blast)
  moreover have "length ?bs = 33" unfolding length_list_update by (rule b(2))
  ultimately have pl': "placed (last_deleted r) ?bs" by (intro placedI)
  have mn: "?bs ! i = []" if "i < min ?b (min_bucket r)" for i using that ok by (simp add: reap_ok_def)
  have mx: "?bs ! i = []" if "i < 33" "max ?b (max_bucket r) < i" for i using that ok by (simp add: reap_ok_def)
  let ?r = "r\<lparr>buckets := ?bs, min_bucket := min ?b (min_bucket r), max_bucket := max ?b (max_bucket r), num_elements := num_elements r + 1\<rparr>"
  have "reap_push r e = Some ?r" using b by (auto simp: reap_push_def put_bucket_def Let_def)
  moreover have "reap_ok ?r" using pl' mn mx ok mset_concat_snoc[of ?b "buckets r" e] b
    by (auto simp: reap_ok_def reap_elems_def)
  moreover have "reap_elems ?r = add_mset e (reap_elems r)" using mset_concat_snoc[of ?b "buckets r" e] b by (simp add: reap_elems_def)
  ultimately show ?thesis by (intro exI[of _ ?r]) simp
qed

section \<open>Popping the smallest element\<close>

lemma reap_seek_ok:
  assumes "length (buckets r) = 33" "\<forall>j < i. buckets r ! j = []" "\<exists>j < 33. buckets r ! j \<noteq> []" "min_bucket r = i"
  shows "\<exists>k. reap_seek r i = Some (k, r\<lparr>min_bucket := k\<rparr>) \<and> k < 33 \<and> (\<forall>j < k. buckets r ! j = []) \<and> buckets r ! k \<noteq> []"
  using assms
proof (induction r i rule: reap_seek.induct)
  case (1 r i)
  from "1.prems"(2,3) obtain j where j: "j < 33" "buckets r ! j \<noteq> []" "i \<le> j" by (meson not_le)
  then have i: "i < length (buckets r)" using "1.prems"(1) by simp
  show ?case
  proof (cases "buckets r ! i = []")
    case True
    let ?r = "r\<lparr>min_bucket := i + 1\<rparr>"
    have "\<forall>j < i + 1. buckets ?r ! j = []" using True "1.prems"(2) by (simp add: less_Suc_eq)
    moreover have "\<exists>j < 33. buckets ?r ! j \<noteq> []" using j by auto
    ultimately obtain k where "reap_seek ?r (i + 1) = Some (k, ?r\<lparr>min_bucket := k\<rparr>)" "k < 33" "\<forall>j < k. buckets ?r ! j = []" "buckets ?r ! k \<noteq> []"
      using "1.IH"[OF i True] "1.prems"(1) by auto
    then show ?thesis using True i by (subst reap_seek.simps) auto
  next
    case False
    then show ?thesis using "1.prems" i by (subst reap_seek.simps) auto
  qed
qed

lemma scan_min_ok:
  assumes "scan_min p res q s = (m, k)"
  shows "m \<le> res \<and> (\<forall>x \<in> set s. m \<le> x) \<and> (m = res \<and> k = q \<or> p \<le> k \<and> k < p + length s \<and> s ! (k - p) = m)"
  using assms
proof (induction p res q s rule: scan_min.induct)
  case (2 p res q x s)
  show ?case
  proof (cases "res \<le> x")
    case True
    then show ?thesis using 2(1)[OF True] 2(3) by (auto simp: nth_Cons')
  next
    case False
    then show ?thesis using 2(2)[OF False] 2(3) by (auto simp: nth_Cons')
  qed
qed simp

text \<open>The position found splits the bucket, also when all its elements are the greatest number.\<close>

lemma scan_min_split:
  assumes "s \<noteq> []" "scan_min 0 (- 1) 0 s = (m, q)"
  shows "mset s = add_mset m (mset (take q s @ drop (q + 1) s))" "\<forall>x \<in> set s. m \<le> x"
proof -
  note * = scan_min_ok[OF assms(2)]
  have "q < length s \<and> s ! q = m"
  proof (cases "m = - 1 \<and> q = 0")
    case True
    then have "s ! 0 = - 1" using * assms(1) by (metis length_greater_0_conv nth_mem word_order.extremum_uniqueI)
    then show ?thesis using True assms(1) by simp
  qed (use * in auto)
  then have "s = take q s @ m # drop (q + 1) s" using id_take_nth_drop[of q s] by simp
  then have "mset s = mset (take q s @ m # drop (q + 1) s)" by simp
  then show "mset s = add_mset m (mset (take q s @ drop (q + 1) s))" by simp
  show "\<forall>x \<in> set s. m \<le> x" using * by simp
qed

lemma redistribute_ok:
  assumes "length (buckets r) = 33" "\<forall>x \<in> set es. bucket_of x m < i" "i < 33"
    "\<forall>j < min_bucket r. buckets r ! j = []" "min_bucket r \<le> i"
  shows "\<exists>r'. redistribute m r es = Some r' \<and> length (buckets r') = 33 \<and> mset (concat (buckets r')) = mset (concat (buckets r)) + mset es \<and>
    (\<forall>j < 33. set (buckets r' ! j) \<subseteq> set (buckets r ! j) \<union> {x \<in> set es. bucket_of x m = j}) \<and>
    buckets r' ! i = buckets r ! i \<and> last_deleted r' = last_deleted r \<and> max_bucket r' = max_bucket r \<and> num_elements r' = num_elements r \<and>
    (\<forall>j < min_bucket r'. buckets r' ! j = []) \<and> min_bucket r' \<le> i"
  using assms
proof (induction es arbitrary: r)
  case (Cons e es)
  let ?j = "bucket_of e m" let ?bs = "(buckets r)[?j := buckets r ! ?j @ [e]]"
  let ?r = "r\<lparr>buckets := ?bs, min_bucket := min ?j (min_bucket r)\<rparr>"
  have j: "?j < i" "?j < 33" using Cons.prems by auto
  have step: "redistribute m r (e # es) = redistribute m ?r es" using j Cons.prems(1)
    by (auto simp: put_bucket_def Let_def min_def)
  have "\<forall>k < min_bucket ?r. buckets ?r ! k = []" using Cons.prems(4) by simp
  moreover have "length (buckets ?r) = 33" "\<forall>x \<in> set es. bucket_of x m < i" "min_bucket ?r \<le> i" using Cons.prems j by auto
  ultimately obtain r' where
    r': "redistribute m ?r es = Some r'" "length (buckets r') = 33" "mset (concat (buckets r')) = mset (concat ?bs) + mset es"
    "\<forall>k < 33. set (buckets r' ! k) \<subseteq> set (?bs ! k) \<union> {x \<in> set es. bucket_of x m = k}"
    "buckets r' ! i = ?bs ! i" "last_deleted r' = last_deleted r" "max_bucket r' = max_bucket r" "num_elements r' = num_elements r"
    "\<forall>k < min_bucket r'. buckets r' ! k = []" "min_bucket r' \<le> i" using Cons.IH[of ?r] Cons.prems(3) by auto
  have "set (buckets r' ! k) \<subseteq> set (buckets r ! k) \<union> {x \<in> set (e # es). bucket_of x m = k}" if k: "k < 33" for k
  proof (cases "k = ?j")
    case True
    then show ?thesis using r'(4)[rule_format, OF k] j Cons.prems(1) by auto
  next
    case False
    then show ?thesis using r'(4)[rule_format, OF k] by auto
  qed
  moreover have "mset (concat (buckets r')) = mset (concat (buckets r)) + mset (e # es)"
    using r'(3) mset_concat_snoc[of ?j "buckets r" e] j Cons.prems(1) by simp
  ultimately show ?case using r' j step by auto
qed auto

lemma placed_order:
  assumes "placed l bs" "i \<le> j" "j < 33" "x \<in> set (bs ! i)" "y \<in> set (bs ! j)" "i = j \<Longrightarrow> x \<le> y"
  shows "x \<le> y"
proof (cases "i = j")
  case False
  have "bucket_of x l = i" "bucket_of y l = j" "l \<le> y" using placedD[OF assms(1)] assms(2-5) by (simp_all add: le_less_trans)
  then have "x < y" using bucket_order[of l y x] False assms(2) by simp
  then show ?thesis by simp
qed (use assms(6) in simp)

text \<open>When the bucket of the smallest element is spread, all other elements stay where they belong.\<close>

lemma placed_redistributed:
  assumes pl: "placed l bs" and i: "0 < i" "i < 33" and low: "\<forall>j < i. bs ! j = []" and m: "m \<in> set (bs ! i)" "\<forall>x \<in> set (bs ! i). m \<le> x"
    and len: "length bs' = 33" "bs' ! i = []" and sub: "\<forall>j < 33. j \<noteq> i \<longrightarrow> set (bs' ! j) \<subseteq> set (bs ! j) \<union> {x \<in> set (bs ! i). bucket_of x m = j}"
  shows "placed m bs'"
proof (rule placedI[OF len(1)])
  fix j x assume j: "j < 33" "x \<in> set (bs' ! j)"
  then have "j \<noteq> i" using len(2) by auto
  with sub j consider "x \<in> set (bs ! j)" | "x \<in> set (bs ! i)" "bucket_of x m = j" by blast
  then show "m \<le> x \<and> bucket_of x m = j"
  proof cases
    case 1
    then have "i < j" using low \<open>j \<noteq> i\<close> by (metis empty_iff empty_set linorder_neqE_nat)
    moreover have "bucket_of x l = j" "bucket_of m l = i" using placedD[OF pl j(1) 1] placedD[OF pl i(2) m(1)] by simp_all
    ultimately show ?thesis using bucket_stays[of m l x] placed_order[OF pl _ j(1) m(1) 1] by simp
  qed (use m(2) in simp)
qed

lemma reap_pop_ok:
  assumes ok: "reap_ok r" and ne: "reap_elems r \<noteq> {#}"
  shows "\<exists>x r'. reap_pop r = Some (x, r') \<and> reap_ok r' \<and> reap_elems r = add_mset x (reap_elems r') \<and> (\<forall>y \<in># reap_elems r. x \<le> y) \<and>
    last_deleted r' = x"
proof -
  let ?bs = "buckets r"
  have pl: "placed (last_deleted r) ?bs" and len: "length ?bs = 33" and num: "num_elements r = size (reap_elems r)"
    and hi: "\<And>i. i < 33 \<Longrightarrow> max_bucket r < i \<Longrightarrow> ?bs ! i = []" and lo: "\<forall>j < min_bucket r. ?bs ! j = []"
    using ok by (simp_all add: reap_ok_def placed_def)
  have "\<exists>j < 33. ?bs ! j \<noteq> []" using ne len by (auto simp: reap_elems_def in_set_conv_nth)
  from reap_seek_ok[OF len lo this refl] obtain i where
    i: "reap_seek r (min_bucket r) = Some (i, r\<lparr>min_bucket := i\<rparr>)" "i < 33" "\<forall>j < i. ?bs ! j = []" "?bs ! i \<noteq> []" by blast
  have elem: "\<exists>j. i \<le> j \<and> j < 33 \<and> y \<in> set (?bs ! j)" if "y \<in># reap_elems r" for y
  proof -
    have "\<exists>b \<in> set ?bs. y \<in> set b" using that by (simp add: reap_elems_def)
    then obtain j where j: "j < 33" "y \<in> set (?bs ! j)" using len by (metis in_set_conv_nth)
    then have "i \<le> j" using i(3) by (metis empty_iff empty_set not_le)
    then show ?thesis using j by blast
  qed
  have least: "\<forall>y \<in># reap_elems r. m \<le> y" if m: "m \<in> set (?bs ! i)" "\<forall>x \<in> set (?bs ! i). m \<le> x" for m
  proof
    fix y assume "y \<in># reap_elems r"
    from elem[OF this] obtain j where j: "i \<le> j" "j < 33" "y \<in> set (?bs ! j)" by blast
    show "m \<le> y" by (rule placed_order[OF pl j(1,2) m(1) j(3)]) (use m(2) j(3) in blast)
  qed
  show ?thesis
  proof (cases "i = 0")
    case True
    let ?s = "?bs ! 0" let ?bs' = "?bs[0 := butlast ?s]"
    have eq: "x = last_deleted r" if "x \<in> set ?s" for x using placedD[OF pl _ that] bucket_of_self by simp
    have s: "?s = butlast ?s @ [last_deleted r]" using i(4) True eq[of "last ?s"] append_butlast_last_id[of ?s] by (metis last_in_set)
    have mem: "last_deleted r \<in> set (?bs ! i)" using s True by (metis in_set_conv_decomp)
    have elems: "mset (concat ?bs) = add_mset (last_deleted r) (mset (concat ?bs'))"
      using mset_concat_exchange[of 0 ?bs "butlast ?s"] arg_cong[OF s, of mset] len by simp
    have sub: "set (?bs' ! j) \<subseteq> set (?bs ! j)" if "j < 33" for j using that len by (cases "j = 0") (auto dest: in_set_butlastD)
    let ?r = "r\<lparr>buckets := ?bs', min_bucket := (if butlast ?s = [] then 1 else 0), num_elements := num_elements r - 1\<rparr>"
    have "reap_pop r = Some (last_deleted r, ?r)" using i(1) True len by (simp add: reap_pop_def Let_def)
    moreover have "placed (last_deleted r) ?bs'" by (rule placedI) (use len placedD[OF pl] sub in \<open>simp, blast\<close>)
    then have "reap_ok ?r" using num elems hi len sub unfolding reap_ok_def reap_elems_def by (auto simp: nth_list_update)
    ultimately show ?thesis using elems least[OF mem] eq True by (intro exI[of _ "last_deleted r"] exI[of _ ?r]) (simp add: reap_elems_def)
  next
    case False
    let ?s = "?bs ! i"
    obtain m q where mq: "scan_min 0 (- 1) 0 ?s = (m, q)" by fastforce
    let ?es = "take q ?s @ drop (q + 1) ?s"
    note sp = scan_min_split[OF i(4) mq]
    have m: "m \<in> set ?s" "set ?es \<subseteq> set ?s" using sp(1) by (metis set_mset_mset union_single_eq_member add_mset_add_single, metis set_mset_add_mset_insert set_mset_mset subset_insertI)
    have close: "\<forall>x \<in> set ?es. bucket_of x m < i"
      using bucket_close[of "last_deleted r" _ m i] placedD[OF pl i(2)] m False by blast
    from redistribute_ok[of "r\<lparr>min_bucket := i\<rparr>" ?es m i] len close i(2,3) obtain r1 where
      r1: "redistribute m (r\<lparr>min_bucket := i\<rparr>) ?es = Some r1" "length (buckets r1) = 33" "mset (concat (buckets r1)) = mset (concat ?bs) + mset ?es"
      "\<forall>j < 33. set (buckets r1 ! j) \<subseteq> set (?bs ! j) \<union> {x \<in> set ?es. bucket_of x m = j}" "buckets r1 ! i = ?s"
      "max_bucket r1 = max_bucket r" "num_elements r1 = num_elements r" "\<forall>j < min_bucket r1. buckets r1 ! j = []" "min_bucket r1 \<le> i" by auto
    let ?bs' = "(buckets r1)[i := []]"
    have elems: "mset (concat ?bs) = add_mset m (mset (concat ?bs'))"
      using mset_concat_exchange[of i "buckets r1" "[]"] r1(2,3,5) i(2) sp(1) by simp
    have sub: "set (?bs' ! j) \<subseteq> set (?bs ! j) \<union> {x \<in> set ?s. bucket_of x m = j}" if "j < 33" "j \<noteq> i" for j
      using r1(4)[rule_format, OF that(1)] that(2) m(2) by auto
    have pl': "placed m ?bs'"
      by (rule placed_redistributed[OF pl _ i(2,3) m(1) sp(2)]) (use False r1(2) i(2) sub in simp_all)
    define r2 where "r2 = r1\<lparr>buckets := ?bs', max_bucket := (if max_bucket r = i then i - 1 else max_bucket r),
      min_bucket := (if min_bucket r1 = i then min (i + 1) 32 else min_bucket r1), num_elements := num_elements r - 1, last_deleted := m\<rparr>"
    have "reap_pop r = Some (m, r2)"
      using i(1,2) False mq r1(1,2,6,7) by (simp add: reap_pop_def Let_def r2_def)
    moreover have "?bs' ! j = []" if "j < min_bucket r2" for j
      using that r1(8,9) r1(2) i(2) by (auto simp: r2_def nth_list_update less_Suc_eq split: if_splits)
    moreover have "?bs' ! j = []" if j: "j < 33" "max_bucket r2 < j" for j
    proof (cases "j = i")
      case False
      have mx: "i \<le> max_bucket r" using hi[OF i(2)] i(4) by (meson not_le)
      then have "i < j" using j(2) False by (auto simp: r2_def split: if_splits)
      then have "max_bucket r < j" using j(2) by (auto simp: r2_def split: if_splits)
      then have "?bs ! j = []" using hi j(1) by simp
      moreover have "{x \<in> set ?s. bucket_of x m = j} = {}"
      proof -
        have "bucket_of x m \<noteq> j" if "x \<in> set ?s" for x
          using bucket_close[of "last_deleted r" x m i] placedD[OF pl i(2) that] placedD[OF pl i(2) m(1)] \<open>i < j\<close> \<open>i \<noteq> 0\<close> by simp
        then show ?thesis by blast
      qed
      ultimately have "set (?bs' ! j) \<subseteq> {}" using sub[OF j(1) False] by (metis empty_set sup_bot.right_neutral)
      then show ?thesis by simp
    qed (use r1(2) i(2) in simp)
    ultimately have "reap_pop r = Some (m, r2) \<and> reap_ok r2 \<and> reap_elems r = add_mset m (reap_elems r2) \<and> last_deleted r2 = m"
      using pl' num elems r1(9) i(2) by (simp add: reap_ok_def reap_elems_def r2_def)
    then show ?thesis using least[OF m(1) sp(2)] by blast
  qed
qed

section \<open>The contract of a monotone priority queue\<close>

text \<open>
  The operations and what they promise as long as no element is pushed that is smaller than the last
  one popped.  A run of such a queue behaves like the multiset of its elements: every pop returns
  the smallest one.
\<close>

datatype queue_event = Push "32 word" | Pop

fun run_queue :: "('q \<Rightarrow> 32 word \<Rightarrow> 'q option) \<Rightarrow> ('q \<Rightarrow> (32 word \<times> 'q) option) \<Rightarrow> 'q \<Rightarrow> queue_event list \<Rightarrow> (32 word list \<times> 'q) option" where
  "run_queue push pop q [] = Some ([], q)"
| "run_queue push pop q (Push e # evs) = do { q' \<leftarrow> push q e; run_queue push pop q' evs }"
| "run_queue push pop q (Pop # evs) = do { (x, q') \<leftarrow> pop q; (xs, q'') \<leftarrow> run_queue push pop q' evs; Some (x # xs, q'') }"

text \<open>The reference: a multiset and the last element popped.  \<open>None\<close> is a use outside of the contract.\<close>

fun run_mset :: "32 word multiset \<Rightarrow> 32 word \<Rightarrow> queue_event list \<Rightarrow> 32 word list option" where
  "run_mset M l [] = Some []"
| "run_mset M l (Push e # evs) = (if l \<le> e then run_mset (add_mset e M) l evs else None)"
| "run_mset M l (Pop # evs) = (if M = {#} then None else map_option (\<lambda>xs. Min_mset M # xs) (run_mset (M - {#Min_mset M#}) (Min_mset M) evs))"

locale monotone_queue =
  fixes ok :: "'q \<Rightarrow> bool" and elems :: "'q \<Rightarrow> 32 word multiset" and last :: "'q \<Rightarrow> 32 word"
    and push :: "'q \<Rightarrow> 32 word \<Rightarrow> 'q option" and pop :: "'q \<Rightarrow> (32 word \<times> 'q) option"
  assumes push_law: "ok q \<Longrightarrow> last q \<le> e \<Longrightarrow> \<exists>q'. push q e = Some q' \<and> ok q' \<and> elems q' = add_mset e (elems q) \<and> last q' = last q"
    and pop_law: "ok q \<Longrightarrow> elems q \<noteq> {#} \<Longrightarrow> \<exists>x q'. pop q = Some (x, q') \<and> ok q' \<and> elems q = add_mset x (elems q') \<and>
      (\<forall>y \<in># elems q. x \<le> y) \<and> last q' = x"
begin

lemma pop_min:
  assumes "ok q" "elems q \<noteq> {#}"
  shows "\<exists>q'. pop q = Some (Min_mset (elems q), q') \<and> ok q' \<and> elems q' = elems q - {#Min_mset (elems q)#} \<and> last q' = Min_mset (elems q)"
proof -
  obtain x q' where x: "pop q = Some (x, q')" "ok q'" "elems q = add_mset x (elems q')" "\<forall>y \<in># elems q. x \<le> y" "last q' = x"
    using pop_law[OF assms] by blast
  then have "Min_mset (elems q) = x" by (intro Min_eqI) auto
  then show ?thesis using x by auto
qed

lemma run_refines:
  "ok q \<Longrightarrow> run_mset (elems q) (last q) evs = Some out \<Longrightarrow> \<exists>q'. run_queue push pop q evs = Some (out, q') \<and> ok q'"
proof (induction evs arbitrary: q out)
  case (Cons ev evs)
  show ?case
  proof (cases ev)
    case (Push e)
    then have "last q \<le> e" "run_mset (add_mset e (elems q)) (last q) evs = Some out" using Cons.prems(2) by (auto split: if_splits)
    then show ?thesis using push_law[OF Cons.prems(1), of e] Cons.IH[of _ out] Push by fastforce
  next
    case Pop
    let ?m = "Min_mset (elems q)"
    have ne: "elems q \<noteq> {#}" using Cons.prems(2) Pop by (auto split: if_splits)
    then obtain xs where xs: "run_mset (elems q - {#?m#}) ?m evs = Some xs" "out = ?m # xs" using Cons.prems(2) Pop by auto
    obtain q1 where q1: "pop q = Some (?m, q1)" "ok q1" "elems q1 = elems q - {#?m#}" "last q1 = ?m" using pop_min[OF Cons.prems(1) ne] by blast
    from Cons.IH[OF q1(2), of xs] xs(1) q1(3,4) obtain q' where "run_queue push pop q1 evs = Some (xs, q')" "ok q'" by auto
    then show ?thesis using Pop q1(1) xs(2) by simp
  qed
qed simp

end

interpretation radix_heap: monotone_queue reap_ok reap_elems last_deleted reap_push reap_pop
  by unfold_locales (blast intro: reap_push_ok, blast intro: reap_pop_ok)

section \<open>Properties\<close>

text \<open>
  \<^bold>\<open>C8\<close>  The radix heap is a priority queue: from the state of the constructor, any sequence of pushes and
  pops that pushes nothing smaller than the last element popped and pops only what was pushed runs
  without undefined behaviour, and the elements popped are those of the reference, each the minimum
  of the elements then in the queue.
\<close>

theorem reap_refines_multiset:
  assumes "run_mset {#} 0 evs = Some out"
  shows "\<exists>r. run_queue reap_push reap_pop new_reap evs = Some (out, r)"
  using radix_heap.run_refines[OF new_reap_ok(1), of evs out] assms new_reap_ok(2,3) by auto

theorem reap_refines_multiset_witness:
  "\<exists>r. run_queue reap_push reap_pop new_reap [Push 9, Push 3, Push 12, Pop, Push 3, Push 7, Pop, Pop, Pop, Pop] = Some ([3, 3, 7, 9, 12], r)"
  by (rule reap_refines_multiset) simp


end
