(* ===== verification/Solver_Minimize.thy ===== *)
theory Solver_Minimize
  imports Solver_External Reap
begin

text \<open>
  The simplification of learned clauses: recursive minimization, \<^verbatim>\<open>src/minimize.cpp\<close>, and shrinking,
  \<^verbatim>\<open>src/shrink.cpp\<close>, which tries to replace the literals of a level by a single one that implies them.
  The sort \<^verbatim>\<open>MSORT\<close> is a stable sort by the rank it is given.
\<close>

section \<open>Minimization\<close>

text \<open>
  \<^verbatim>\<open>minimize_literal\<close> recurses at most \<^verbatim>\<open>minimizedepth + 1\<close> levels deep; the first argument bounds the
  recursion.  \<open>all_removable\<close> is its loop over the other literals of the reason.
\<close>

fun all_removable :: "('s \<Rightarrow> int \<Rightarrow> (bool \<times> 's) option) \<Rightarrow> 's \<Rightarrow> int \<Rightarrow> int list \<Rightarrow> (bool \<times> 's) option" where
  "all_removable f s lit [] = Some (True, s)"
| "all_removable f s lit (other # os) =
     (if other = lit then all_removable f s lit os
      else do { (res, s1) \<leftarrow> f s (- other); if res then all_removable f s1 lit os else Some (False, s1) })"

primrec minimize_literal ::
  "nat \<Rightarrow> ('p, 'h) config \<Rightarrow> nat \<Rightarrow> ('p, 'h) internal \<Rightarrow> int \<Rightarrow> (bool \<times> ('p, 'h) internal) option" where
  "minimize_literal 0 E depth s lit = None"
| "minimize_literal (Suc n) E depth s lit = (if \<not> ilit_ok s lit then None else
     let idx = \<bar>lit\<bar> in
     if ivar_level s idx = 0 \<or> iremovable s idx \<or> ikeep s idx then Some (True, s)
     else if ivar_reason s idx = No_Reason \<or> ipoison s idx \<or> ivar_level s idx = ilevel s then Some (False, s)
     else do {
       l \<leftarrow> vec_at (icontrol s) (ivar_level s idx);
       if depth = 0 \<and> lv_seen_count l < 2 then Some (False, s)
       else if int (ivar_trail s idx) \<le> lv_seen_trail l then Some (False, s)
       else if depth > minimizedepth (opts E) then Some (False, s)
       else case ivar_reason s idx of
         Reason_Clause p \<Rightarrow> do {
           c \<leftarrow> istore s p;
           (res, s1) \<leftarrow> all_removable (minimize_literal n E (depth + 1)) s lit (cl_lits c);
           let s2 = (if res then s1\<lparr>iremovable := (iremovable s1)(idx := True)\<rparr>
                     else s1\<lparr>ipoison := (ipoison s1)(idx := True)\<rparr>);
           Some (res, s2\<lparr>iminimized := iminimized s2 @ [lit]\<rparr>) }
       | _ \<Rightarrow> None })"

definition minimize_trail_positive_rank :: "('p, 'h) internal \<Rightarrow> int \<Rightarrow> nat" where
  "minimize_trail_positive_rank s a = ivar_trail s \<bar>a\<bar>"

definition minimize_sort_clause :: "('p, 'h) internal \<Rightarrow> ('p, 'h) internal" where
  "minimize_sort_clause s = s\<lparr>iclause := sort_key (minimize_trail_positive_rank s) (iclause s)\<rparr>"

definition clear_minimized_literals :: "('p, 'h) internal \<Rightarrow> ('p, 'h) internal" where
  "clear_minimized_literals s = (
     let clear = (\<lambda>f ls v. if v \<in> abs ` set ls then False else f v)
     in s\<lparr>ipoison := clear (ipoison s) (iminimized s), iremovable := clear (iremovable s) (iminimized s),
          ikeep := clear (ikeep s) (iclause s), iminimized := []\<rparr>)"

text \<open>The loop of \<^verbatim>\<open>minimize_clause\<close>; \<open>kept\<close> are the literals kept so far.\<close>

fun minimize_lits ::
  "('p, 'h) config \<Rightarrow> ('p, 'h) internal \<Rightarrow> int list \<Rightarrow> int list \<Rightarrow> (('p, 'h) internal \<times> int list) option" where
  "minimize_lits E s kept [] = Some (s, kept)"
| "minimize_lits E s kept (lit # ls) = do {
     (res, s1) \<leftarrow> minimize_literal (minimizedepth (opts E) + 2) E 0 s (- lit);
     if res then minimize_lits E s1 kept ls
     else minimize_lits E (s1\<lparr>ikeep := (ikeep s1)(\<bar>lit\<bar> := True)\<rparr>) (kept @ [lit]) ls }"

definition minimize_clause :: "('p, 'h) config \<Rightarrow> ('p, 'h) internal \<Rightarrow> ('p, 'h) internal option" where
  "minimize_clause E s = do {
     let s1 = minimize_sort_clause s;
     (s2, kept) \<leftarrow> minimize_lits E s1 [] (iclause s1);
     Some (clear_minimized_literals (s2\<lparr>iclause := kept\<rparr>)) }"

section \<open>Shrinking\<close>

text \<open>
  The members \<^verbatim>\<open>shrinkable\<close> and \<^verbatim>\<open>reap\<close> and the flag \<^verbatim>\<open>shrinkable\<close> of the variables, which only \<^verbatim>\<open>shrink.cpp\<close> uses; they
  are clear before and after every block of literals.
\<close>

record ('p, 'h) shrinker =
  sh_internal :: "('p, 'h) internal"
  sh_flag :: "int \<Rightarrow> bool"
  sh_lits :: "int list"
  sh_reap :: reap

definition new_shrinker :: "('p, 'h) internal \<Rightarrow> ('p, 'h) shrinker" where
  "new_shrinker s = \<lparr>sh_internal = s, sh_flag = (\<lambda>v. False), sh_lits = [], sh_reap = new_reap\<rparr>"

definition reset_shrinkable :: "('p, 'h) shrinker \<Rightarrow> ('p, 'h) shrinker" where
  "reset_shrinkable sh = sh\<lparr>sh_flag := (\<lambda>v. if v \<in> abs ` set (sh_lits sh) then False else sh_flag sh v)\<rparr>"

fun mark_removable_lits :: "('p, 'h) internal \<Rightarrow> int list \<Rightarrow> ('p, 'h) internal" where
  "mark_removable_lits s [] = s"
| "mark_removable_lits s (lit # ls) =
     mark_removable_lits (if iremovable s \<bar>lit\<bar> then s
       else s\<lparr>iremovable := (iremovable s)(\<bar>lit\<bar> := True), iminimized := iminimized s @ [lit]\<rparr>) ls"

definition mark_shrinkable_as_removable :: "('p, 'h) shrinker \<Rightarrow> ('p, 'h) shrinker" where
  "mark_shrinkable_as_removable sh =
     (reset_shrinkable sh)\<lparr>sh_internal := mark_removable_lits (sh_internal sh) (sh_lits sh)\<rparr>"

text \<open>The result is 0 for a literal that needs no attention, -1 for one that cannot be resolved, 1 for one that is marked.\<close>

definition shrink_literal :: "('p, 'h) config \<Rightarrow> nat \<Rightarrow> nat \<Rightarrow> ('p, 'h) shrinker \<Rightarrow> int \<Rightarrow> (int \<times> ('p, 'h) shrinker) option" where
  "shrink_literal E blevel max_trail sh lit = (
     let s = sh_internal sh; idx = \<bar>lit\<bar> in
     if \<not> ilit_ok s lit then None
     else if ivar_level s idx = 0 then Some (0, sh)
     else if sh_flag sh idx then Some (0, sh)
     else if ivar_level s idx < blevel then
       (if iremovable s idx then Some (0, sh)
        else if opt_shrink (opts E) > 2 then do {
          (res, s1) \<leftarrow> minimize_literal (minimizedepth (opts E) + 2) E 1 s (- lit);
          Some (if res then 0 else - 1, sh\<lparr>sh_internal := s1\<rparr>) }
        else Some (- 1, sh))
     else do {
       let sh1 = sh\<lparr>sh_internal := s\<lparr>ipoison := (ipoison s)(idx := False)\<rparr>, sh_flag := (sh_flag sh)(idx := True), sh_lits := sh_lits sh @ [lit]\<rparr>;
       if shrinkreap (opts E) then do {
         r \<leftarrow> reap_push (sh_reap sh1) (word_of_int (int max_trail - int (ivar_trail s idx)));
         Some (1, sh1\<lparr>sh_reap := r\<rparr>) }
       else Some (1, sh1) })"

definition shrunken_block_uip :: "('p, 'h) shrinker \<Rightarrow> int \<Rightarrow> int list \<Rightarrow> int \<Rightarrow> (int list \<times> ('p, 'h) shrinker) option" where
  "shrunken_block_uip sh uip block uip0 = do {
     let s = sh_internal sh;
     let idx = \<bar>uip\<bar>;
     lv \<leftarrow> var_level s (- uip);
     l \<leftarrow> vec_at (icontrol s) lv;
     let s1 = s\<lparr>icontrol := (icontrol s)[lv := l\<lparr>lv_seen_trail := int (ivar_trail s idx), lv_seen_count := 1\<rparr>]\<rparr>;
     let s2 = (if iseen s1 idx then s1 else s1\<lparr>ianalyzed := ianalyzed s1 @ [- uip], iseen := (iseen s1)(idx := True)\<rparr>);
     let s3 = s2\<lparr>ikeep := (ikeep s2)(idx := True)\<rparr>;
     let block1 = (- uip) # map (\<lambda>lit. if lit = - uip0 then lit else uip0) (tl block);
     Some (block1, mark_shrinkable_as_removable (sh\<lparr>sh_internal := s3\<rparr>)) }"

text \<open>The literals of a block that could not be shrunken are minimized one by one; a removed one is overwritten by the UIP.\<close>

fun shrunken_block_no_uip :: "('p, 'h) config \<Rightarrow> int \<Rightarrow> ('p, 'h) internal \<Rightarrow> int list \<Rightarrow> (int list \<times> ('p, 'h) internal) option" where
  "shrunken_block_no_uip E uip0 s [] = Some ([], s)"
| "shrunken_block_no_uip E uip0 s (lit # ls) = do {
     (res, s1) \<leftarrow> (if opt_minimize (opts E) then minimize_literal (minimizedepth (opts E) + 2) E 0 s (- lit) else Some (False, s));
     (ls1, s2) \<leftarrow> shrunken_block_no_uip E uip0 (if res then s1 else s1\<lparr>ikeep := (ikeep s1)(\<bar>lit\<bar> := True)\<rparr>) ls;
     Some ((if res then uip0 else lit) # ls1, s2) }"

definition push_literals_of_block :: "('p, 'h) config \<Rightarrow> nat \<Rightarrow> nat \<Rightarrow> ('p, 'h) shrinker \<Rightarrow> int list \<Rightarrow> ('p, 'h) shrinker option" where
  "push_literals_of_block E blevel max_trail = mfold (\<lambda>sh lit. map_option snd (shrink_literal E blevel max_trail sh lit))"

text \<open>Without the radix heap the trail is searched downwards; the position is unsigned and wraps around below zero.\<close>

fun next_shrinkable :: "int list \<Rightarrow> (int \<Rightarrow> bool) \<Rightarrow> nat \<Rightarrow> (int \<times> nat) option" where
  "next_shrinkable trl flag 0 = do { uip \<leftarrow> vec_at trl 0; if flag \<bar>uip\<bar> then Some (uip, UINT_MAX) else None }"
| "next_shrinkable trl flag (Suc n) = do { uip \<leftarrow> vec_at trl (Suc n); if flag \<bar>uip\<bar> then Some (uip, n) else next_shrinkable trl flag n }"

definition shrink_next :: "('p, 'h) config \<Rightarrow> ('p, 'h) shrinker \<Rightarrow> nat \<Rightarrow> (int \<times> nat \<times> ('p, 'h) shrinker) option" where
  "shrink_next E sh max_trail = (
     if shrinkreap (opts E) then do {
       (dist, r) \<leftarrow> reap_pop (sh_reap sh);
       uip \<leftarrow> vec_at (itrail (sh_internal sh)) (unat (word_of_nat max_trail - dist));
       Some (uip, max_trail, sh\<lparr>sh_reap := r\<rparr>) }
     else do {
       (uip, max_trail1) \<leftarrow> next_shrinkable (itrail (sh_internal sh)) (sh_flag sh) max_trail;
       Some (uip, max_trail1, sh) })"

text \<open>The loop over the reason: the number of literals marked and whether it failed.\<close>

fun shrink_reason_lits ::
  "('p, 'h) config \<Rightarrow> nat \<Rightarrow> nat \<Rightarrow> int \<Rightarrow> ('p, 'h) shrinker \<Rightarrow> int \<Rightarrow> int list \<Rightarrow> (int \<times> bool \<times> ('p, 'h) shrinker) option" where
  "shrink_reason_lits E blevel max_trail uip sh opn [] = Some (opn, False, sh)"
| "shrink_reason_lits E blevel max_trail uip sh opn (lit # ls) =
     (if lit = uip then shrink_reason_lits E blevel max_trail uip sh opn ls
      else do {
        (tmp, sh1) \<leftarrow> shrink_literal E blevel max_trail sh lit;
        if tmp < 0 then Some (opn, True, sh1)
        else shrink_reason_lits E blevel max_trail uip sh1 (if tmp > 0 then opn + 1 else opn) ls })"

definition shrink_along_reason ::
  "('p, 'h) config \<Rightarrow> nat \<Rightarrow> nat \<Rightarrow> ('p, 'h) shrinker \<Rightarrow> int \<Rightarrow> (int \<times> bool \<times> ('p, 'h) shrinker) option" where
  "shrink_along_reason E blevel max_trail sh uip = (case ivar_reason (sh_internal sh) \<bar>uip\<bar> of
     Reason_Clause p \<Rightarrow> do {
       c \<leftarrow> istore (sh_internal sh) p;
       if opt_shrink (opts E) > 2 \<or> length (cl_lits c) = 2
       then shrink_reason_lits E blevel max_trail uip sh 0 (cl_lits c)
       else Some (0, True, sh) }
   | _ \<Rightarrow> None)"

text \<open>The loop of \<^verbatim>\<open>shrink_block\<close>: whether it failed, and the last literal visited.\<close>

partial_function (option) shrink_loop ::
  "('p, 'h) config \<Rightarrow> nat \<Rightarrow> nat \<Rightarrow> ('p, 'h) shrinker \<Rightarrow> int \<Rightarrow> nat \<Rightarrow> (bool \<times> int \<times> ('p, 'h) shrinker) option" where
  "shrink_loop E blevel max_trail2 sh opn max_trail = do {
     (uip, max_trail1, sh1) \<leftarrow> shrink_next E sh max_trail;
     if opn - 1 = 0 then Some (False, uip, sh1)
     else do {
       (k, failed, sh2) \<leftarrow> shrink_along_reason E blevel max_trail2 sh1 uip;
       if failed then Some (True, uip, sh2)
       else shrink_loop E blevel max_trail2 sh2 (opn - 1 + k) max_trail1 } }"

declare shrink_loop.simps [code]

definition shrink_block ::
  "('p, 'h) config \<Rightarrow> ('p, 'h) shrinker \<Rightarrow> int list \<Rightarrow> nat \<Rightarrow> int \<Rightarrow> nat \<Rightarrow> (int list \<times> ('p, 'h) shrinker) option" where
  "shrink_block E sh block blevel uip0 max_trail = do {
     (failed, uip, sh1) \<leftarrow> (if opt_shrink (opts E) = 0 then Some (True, uip0, sh)
        else do {
          sh' \<leftarrow> push_literals_of_block E blevel max_trail sh block;
          shrink_loop E blevel max_trail sh' (int (length block)) max_trail });
     (block1, sh2) \<leftarrow> (if failed then do {
          let sh' = reset_shrinkable sh1;
          (b, s) \<leftarrow> shrunken_block_no_uip E uip0 (sh_internal sh') block;
          Some (b, sh'\<lparr>sh_internal := s\<rparr>) }
        else shrunken_block_uip sh1 uip block uip0);
     let sh3 = (if shrinkreap (opts E) then sh2\<lparr>sh_reap := reap_clear (sh_reap sh2)\<rparr> else sh2);
     Some (block1, sh3\<lparr>sh_lits := []\<rparr>) }"

definition shrink_trail_negative_rank :: "('p, 'h) internal \<Rightarrow> int \<Rightarrow> int" where
  "shrink_trail_negative_rank s a = 2 ^ 64 - 1 - (int (ivar_level s \<bar>a\<bar>) * 2 ^ 32 + int (ivar_trail s \<bar>a\<bar>))"

text \<open>The clause is visited from its end.  A block ends before the first literal of another level, which exists.\<close>

fun find_block :: "('p, 'h) internal \<Rightarrow> nat \<Rightarrow> nat \<Rightarrow> int list \<Rightarrow> (int list \<times> nat \<times> int list) option" where
  "find_block s blevel max_trail [] = None"
| "find_block s blevel max_trail (lit # ls) =
     (if \<not> ilit_ok s lit then None
      else if ivar_level s \<bar>lit\<bar> \<noteq> blevel then Some ([], max_trail, lit # ls)
      else do {
        (block, m, rest) \<leftarrow> find_block s blevel (max max_trail (ivar_trail s \<bar>lit\<bar>)) ls;
        Some (lit # block, m, rest) })"

fun minimize_and_shrink_block ::
  "('p, 'h) config \<Rightarrow> int \<Rightarrow> ('p, 'h) shrinker \<Rightarrow> int list \<Rightarrow> (int list \<times> int list \<times> ('p, 'h) shrinker) option" where
  "minimize_and_shrink_block E uip0 sh [] = None"
| "minimize_and_shrink_block E uip0 sh (lit # ls) = do {
     let s = sh_internal sh;
     blevel \<leftarrow> var_level s lit;
     (b, max_trail, rest) \<leftarrow> find_block s blevel (ivar_trail s \<bar>lit\<bar>) ls;
     if b = [] then
       Some ([lit], rest, sh\<lparr>sh_internal := s\<lparr>ikeep := (ikeep s)(\<bar>lit\<bar> := True), iminimized := iminimized s @ [lit]\<rparr>\<rparr>)
     else do {
       (block1, sh1) \<leftarrow> shrink_block E sh (lit # b) blevel uip0 max_trail;
       Some (block1, rest, sh1) } }"

lemma find_block_split: "find_block s d m ls = Some (b, m', r) \<Longrightarrow> ls = b @ r"
  by (induction ls arbitrary: m b) (auto split: if_splits bind_splits)

lemma minimize_and_shrink_block_shorter:
  "minimize_and_shrink_block E uip0 sh ls = Some (b, r, sh') \<Longrightarrow> length r < length ls"
  by (cases ls) (auto simp: Let_def split: if_splits bind_splits dest!: find_block_split)

text \<open>The loop over the blocks; the last literal of the list is the UIP.\<close>

function shrink_blocks :: "('p, 'h) config \<Rightarrow> int \<Rightarrow> ('p, 'h) shrinker \<Rightarrow> int list \<Rightarrow> (int list \<times> ('p, 'h) shrinker) option" where
  "shrink_blocks E uip0 sh ls =
     (if length ls = 1 then Some ([], sh)
      else case minimize_and_shrink_block E uip0 sh ls of
        None \<Rightarrow> None
      | Some (b, rest, sh1) \<Rightarrow> (case shrink_blocks E uip0 sh1 rest of None \<Rightarrow> None | Some (bs, sh2) \<Rightarrow> Some (b @ bs, sh2)))"
  by pat_completeness auto
termination
  by (relation "measure (\<lambda>(E, uip0, sh, ls). length ls)") (auto dest: minimize_and_shrink_block_shorter)

declare shrink_blocks.simps [simp del]

definition shrink_and_minimize_clause :: "('p, 'h) config \<Rightarrow> ('p, 'h) internal \<Rightarrow> ('p, 'h) internal option" where
  "shrink_and_minimize_clause E s = do {
     let c = sort_key (shrink_trail_negative_rank s) (iclause s);
     uip0 \<leftarrow> vec_at c 0;
     (ls, sh) \<leftarrow> shrink_blocks E uip0 (new_shrinker (s\<lparr>iclause := c\<rparr>)) (rev c);
     let c1 = uip0 # List.filter (\<lambda>lit. lit \<noteq> uip0) (rev ls);
     Some (clear_minimized_literals ((sh_internal sh)\<lparr>iclause := c1\<rparr>)) }"

end
