(* ===== verification/Solver_Analyze.thy ===== *)
theory Solver_Analyze
  imports Solver_Minimize
begin

text \<open>
  Conflict analysis: \<^verbatim>\<open>src/analyze.cpp\<close>.  A conflict is turned into the first UIP
  clause, which is minimized, learned and made the reason of the flipped UIP after backtracking;
  with chronological backtracking a conflict with a single literal of its highest level is reused
  as driving clause instead.

  The 64-bit sort keys are integers, with the complement written out.  Averages, statistics,
  profiling and the export of learned clauses to a connected learner are left out.
\<close>

section \<open>Bumping of clauses\<close>

text \<open>\<^verbatim>\<open>recompute_glue\<close>: levels whose time stamp is current have been counted.\<close>

definition recompute_step ::
  "('p, 'h) internal \<Rightarrow> nat \<Rightarrow> (nat \<Rightarrow> nat) \<times> nat \<Rightarrow> int \<Rightarrow> ((nat \<Rightarrow> nat) \<times> nat) option" where
  "recompute_step s stamp = (\<lambda>(gtab, res) lit. do {
     level \<leftarrow> var_level s lit;
     Some (if gtab level = stamp then (gtab, res) else (gtab(level := stamp), res + 1)) })"

definition recompute_glue :: "('p, 'h) internal \<Rightarrow> clause_data \<Rightarrow> (nat \<times> ('p, 'h) internal) option" where
  "recompute_glue s c = do {
     let stamp = irecomputed s + 1;
     (gtab, res) \<leftarrow> mfold (recompute_step s stamp) (igtab s, 0) (cl_lits c);
     Some (res, s\<lparr>igtab := gtab, irecomputed := stamp\<rparr>) }"

definition promote_clause :: "('p, 'h) config \<Rightarrow> clause_data \<Rightarrow> nat \<Rightarrow> clause_data" where
  "promote_clause E c new_glue = (
     if cl_keep c then c else if cl_hyper c then c
     else if new_glue \<ge> cl_glue c then c
     else let c1 = (if new_glue \<le> reducetier1glue (opts E) then c\<lparr>cl_keep := True\<rparr>
                    else if cl_glue c > reducetier2glue (opts E) \<and> new_glue \<le> reducetier2glue (opts E) then c\<lparr>cl_used := 2\<rparr>
                    else c)
          in c1\<lparr>cl_glue := new_glue\<rparr>)"

definition bump_clause :: "('p, 'h) config \<Rightarrow> ('p, 'h) internal \<Rightarrow> nat \<Rightarrow> ('p, 'h) internal option" where
  "bump_clause E s p = do {
     c \<leftarrow> istore s p;
     let used = cl_used c;
     let c1 = c\<lparr>cl_used := 1\<rparr>;
     let s1 = s\<lparr>istore := (istore s)(p \<mapsto> c1)\<rparr>;
     if cl_keep c1 \<or> cl_hyper c1 \<or> \<not> cl_redundant c1 then Some s1
     else do {
       (new_glue, s2) \<leftarrow> recompute_glue s1 c1;
       let c2 = (if new_glue < cl_glue c1 then promote_clause E c1 new_glue
                 else if used \<noteq> 0 \<and> cl_glue c1 \<le> reducetier2glue (opts E) then c1\<lparr>cl_used := 2\<rparr> else c1);
       Some (s2\<lparr>istore := (istore s2)(p \<mapsto> c2)\<rparr>) } }"

section \<open>The first UIP clause\<close>

definition see_level :: "('p, 'h) internal \<Rightarrow> nat \<Rightarrow> nat \<Rightarrow> ('p, 'h) internal option" where
  "see_level s lv pos = do {
     l \<leftarrow> vec_at (icontrol s) lv;
     let s1 = (if lv_seen_count l = 0 then s\<lparr>ilevels := ilevels s @ [lv]\<rparr> else s);
     let l1 = l\<lparr>lv_seen_count := lv_seen_count l + 1\<rparr>;
     let l2 = (if int pos < lv_seen_trail l1 then l1\<lparr>lv_seen_trail := int pos\<rparr> else l1);
     Some (s1\<lparr>icontrol := (icontrol s1)[lv := l2]\<rparr>) }"

definition analyze_literal :: "('p, 'h) internal \<times> int \<Rightarrow> int \<Rightarrow> (('p, 'h) internal \<times> int) option" where
  "analyze_literal = (\<lambda>(s, open_lits) lit. (if \<not> ilit_ok s lit then None
     else if iseen s \<bar>lit\<bar> then Some (s, open_lits)
     else let lv = ivar_level s \<bar>lit\<bar> in
       if lv = 0 then Some (s, open_lits)
       else do {
         let s1 = (if lv < ilevel s then s\<lparr>iclause := iclause s @ [lit]\<rparr> else s);
         s2 \<leftarrow> see_level s1 lv (ivar_trail s \<bar>lit\<bar>);
         Some (s2\<lparr>iseen := (iseen s2)(\<bar>lit\<bar> := True), ianalyzed := ianalyzed s2 @ [lit]\<rparr>,
               if lv = ilevel s then open_lits + 1 else open_lits) }))"

definition analyze_reason ::
  "('p, 'h) config \<Rightarrow> ('p, 'h) internal \<Rightarrow> int \<Rightarrow> nat \<Rightarrow> int \<Rightarrow> (('p, 'h) internal \<times> int) option" where
  "analyze_reason E s lit p open_lits = do {
     s1 \<leftarrow> bump_clause E s p;
     c \<leftarrow> istore s1 p;
     mfold analyze_literal (s1, open_lits) (List.filter (\<lambda>other. other \<noteq> lit) (cl_lits c)) }"

text \<open>The inner loop walks down the trail to the next seen literal of the current level.\<close>

fun next_seen :: "('p, 'h) internal \<Rightarrow> int list \<Rightarrow> (int \<times> int list) option" where
  "next_seen s [] = None"
| "next_seen s (lit # ls) =
     (if iseen s \<bar>lit\<bar> \<and> ivar_level s \<bar>lit\<bar> = ilevel s then Some (lit, ls) else next_seen s ls)"

lemma next_seen_shorter: "next_seen s ls = Some (u, r) \<Longrightarrow> length r < length ls"
  by (induction ls) (auto split: if_splits)

text \<open>The arguments are the UIP candidate, the address of its reason, \<^verbatim>\<open>open\<close> and the unvisited part of the trail, last literal first.\<close>

function analyze_loop ::
  "('p, 'h) config \<Rightarrow> ('p, 'h) internal \<Rightarrow> int \<Rightarrow> nat \<Rightarrow> int \<Rightarrow> int list \<Rightarrow> (('p, 'h) internal \<times> int) option" where
  "analyze_loop E s uip p open_lits ls =
     (case analyze_reason E s uip p open_lits of
        None \<Rightarrow> None
      | Some (s1, open1) \<Rightarrow>
          (case next_seen s1 ls of
             None \<Rightarrow> None
           | Some (u, r) \<Rightarrow>
               if open1 - 1 = 0 then Some (s1, u)
               else (case ivar_reason s1 \<bar>u\<bar> of
                       Reason_Clause q \<Rightarrow> analyze_loop E s1 u q (open1 - 1) r
                     | _ \<Rightarrow> None)))"
  by pat_completeness auto
termination by (relation "measure (\<lambda>(E, s, uip, p, open_lits, ls). length ls)") (auto dest: next_seen_shorter)

declare analyze_loop.simps [simp del]

section \<open>Bumping of variables\<close>

definition bump_also_reason_literal :: "('p, 'h) internal \<Rightarrow> int \<Rightarrow> (bool \<times> ('p, 'h) internal) option" where
  "bump_also_reason_literal s lit = (if \<not> ilit_ok s lit then None
     else if iseen s \<bar>lit\<bar> \<or> ivar_level s \<bar>lit\<bar> = 0 then Some (False, s)
     else Some (True, s\<lparr>iseen := (iseen s)(\<bar>lit\<bar> := True), ianalyzed := ianalyzed s @ [lit]\<rparr>))"

primrec bump_also_reason_literals :: "nat \<Rightarrow> ('p, 'h) internal \<Rightarrow> int \<Rightarrow> ('p, 'h) internal option" where
  "bump_also_reason_literals 0 s lit = None"
| "bump_also_reason_literals (Suc n) s lit = (if \<not> ilit_ok s lit then None
     else if ivar_level s \<bar>lit\<bar> = 0 then Some s
     else case ivar_reason s \<bar>lit\<bar> of
       Reason_Clause p \<Rightarrow> do {
         c \<leftarrow> istore s p;
         mfold (\<lambda>s other. if other = lit then Some s else do {
             (new, s1) \<leftarrow> bump_also_reason_literal s other;
             if \<not> new \<or> n = 0 then Some s1 else bump_also_reason_literals n s1 (- other) }) s (cl_lits c) }
     | _ \<Rightarrow> Some s)"

definition bump_also_all_reason_literals :: "('p, 'h) config \<Rightarrow> ('p, 'h) internal \<Rightarrow> ('p, 'h) internal option" where
  "bump_also_all_reason_literals E s =
     mfold (\<lambda>s lit. bump_also_reason_literals (bumpreasondepth (opts E) + (if istable s then 1 else 0)) s (- lit)) s (iclause s)"

definition bump_variables :: "('p, 'h) config \<Rightarrow> ('p, 'h) internal \<Rightarrow> ('p, 'h) internal option" where
  "bump_variables E s = do {
     s1 \<leftarrow> (if bumpreason (opts E) then bump_also_all_reason_literals E s else Some s);
     h \<leftarrow> heur_bump (hops E) (ivals s1) (ianalyzed s1) (iheur s1);
     Some (s1\<lparr>iheur := h\<rparr>) }"

definition clear_analyzed_literals :: "('p, 'h) internal \<Rightarrow> ('p, 'h) internal" where
  "clear_analyzed_literals s = s\<lparr>iseen := (\<lambda>v. if v \<in> abs ` set (ianalyzed s) then False else iseen s v), ianalyzed := []\<rparr>"

definition reset_seen :: "level_info \<Rightarrow> level_info" where
  "reset_seen l = l\<lparr>lv_seen_count := 0, lv_seen_trail := INT_MAX\<rparr>"

definition clear_analyzed_levels :: "('p, 'h) internal \<Rightarrow> ('p, 'h) internal" where
  "clear_analyzed_levels s =
     s\<lparr>icontrol := foldl (\<lambda>ctl l. if l < length ctl then ctl[l := reset_seen (ctl ! l)] else ctl) (icontrol s) (ilevels s), ilevels := []\<rparr>"

section \<open>The driving clause\<close>

text \<open>The complement of the 64-bit word that has the level in its upper and the trail position in its lower half.\<close>

definition analyze_trail_negative_rank :: "('p, 'h) internal \<Rightarrow> int \<Rightarrow> int" where
  "analyze_trail_negative_rank s a = 2 ^ 64 - 1 - (int (ivar_level s \<bar>a\<bar>) * 2 ^ 32 + int (ivar_trail s \<bar>a\<bar>))"

definition new_driving_clause :: "('p, 'h) config \<Rightarrow> ('p, 'h) internal \<Rightarrow> nat \<Rightarrow> (('p, 'h) internal \<times> nat option \<times> nat) option" where
  "new_driving_clause E s glue = (case iclause s of
     [] \<Rightarrow> Some (s, None, 0)
   | [lit] \<Rightarrow> Some (s\<lparr>iiterating := True\<rparr>, None, 0)
   | _ \<Rightarrow> do {
       let s1 = s\<lparr>iclause := sort_key (analyze_trail_negative_rank s) (iclause s)\<rparr>;
       jump \<leftarrow> var_level s1 (iclause s1 ! 1);
       (s2, p) \<leftarrow> new_learned_redundant_clause E s1 glue;
       c \<leftarrow> istore s2 p;
       Some (s2\<lparr>istore := (istore s2)(p \<mapsto> c\<lparr>cl_used := 1 + (if glue \<le> reducetier2glue (opts E) then 1 else 0)\<rparr>)\<rparr>, Some p, jump) })"

subsection \<open>The actual conflict level\<close>

fun conflict_scan :: "('p, 'h) internal \<Rightarrow> int list \<Rightarrow> nat \<Rightarrow> int \<Rightarrow> nat \<Rightarrow> (nat \<times> int \<times> nat) option" where
  "conflict_scan s [] res forced cnt = Some (res, forced, cnt)"
| "conflict_scan s (lit # ls) res forced cnt = do {
     tmp \<leftarrow> var_level s lit;
     if tmp > res then conflict_scan s ls tmp lit 1
     else if tmp = res then
       (if res = ilevel s \<and> cnt + 1 > 1 then Some (res, forced, cnt + 1) else conflict_scan s ls res forced (cnt + 1))
     else conflict_scan s ls res forced cnt }"

fun highest_literal :: "('p, 'h) internal \<Rightarrow> nat \<Rightarrow> int list \<Rightarrow> nat \<Rightarrow> nat \<Rightarrow> nat list \<Rightarrow> nat option" where
  "highest_literal s res lits pos lv [] = Some pos"
| "highest_literal s res lits pos lv (j # js) = do {
     tmp \<leftarrow> var_level s (lits ! j);
     if lv \<ge> tmp then highest_literal s res lits pos lv js
     else if tmp = res then Some j
     else highest_literal s res lits j tmp js }"

definition remove_watch :: "watch list \<Rightarrow> nat \<Rightarrow> watch list" where
  "remove_watch ws p = List.filter (\<lambda>w. w_clause w \<noteq> p) ws"

definition watch_highest :: "nat \<Rightarrow> nat \<Rightarrow> ('p, 'h) internal \<Rightarrow> nat \<Rightarrow> ('p, 'h) internal option" where
  "watch_highest p res s i = do {
     c \<leftarrow> istore s p;
     let lits = cl_lits c;
     lit \<leftarrow> vec_at lits i;
     lv \<leftarrow> var_level s lit;
     pos \<leftarrow> highest_literal s res lits i lv [i + 1..<length lits];
     if pos = i then Some s
     else do {
       let s1 = (if pos > 1 then s\<lparr>iwatches := (iwatches s)(lit := remove_watch (iwatches s lit) p)\<rparr> else s);
       let lits1 = lits[pos := lit, i := lits ! pos];
       let s2 = s1\<lparr>istore := (istore s1)(p \<mapsto> c\<lparr>cl_lits := lits1\<rparr>)\<rparr>;
       other \<leftarrow> vec_at lits1 (1 - i);
       if pos > 1 then watch_literal s2 (lits ! pos) other p else Some s2 } }"

definition find_conflict_level :: "('p, 'h) internal \<Rightarrow> nat \<Rightarrow> (('p, 'h) internal \<times> nat \<times> int) option" where
  "find_conflict_level s p = do {
     c \<leftarrow> istore s p;
     (res, forced, cnt) \<leftarrow> conflict_scan s (cl_lits c) 0 0 0;
     s1 \<leftarrow> mfold (watch_highest p res) s [0, 1];
     Some (s1, res, if cnt \<noteq> 1 then 0 else forced) }"

subsection \<open>The backtrack level\<close>

fun best_on_trail :: "('p, 'h) config \<Rightarrow> 'h \<Rightarrow> (nat \<times> int) list \<Rightarrow> int \<Rightarrow> nat \<Rightarrow> nat" where
  "best_on_trail E h [] best_idx best_pos = best_pos"
| "best_on_trail E h ((i, lit) # ls) best_idx best_pos =
     (if best_idx \<noteq> 0 \<and> \<not> heur_better (hops E) best_idx \<bar>lit\<bar> h then best_on_trail E h ls best_idx best_pos
      else best_on_trail E h ls \<bar>lit\<bar> i)"

fun reuse_level :: "('p, 'h) internal \<Rightarrow> nat \<Rightarrow> nat \<Rightarrow> nat \<Rightarrow> nat" where
  "reuse_level s best_pos 0 res = res"
| "reuse_level s best_pos (Suc n) res =
     (if lv_trail (icontrol s ! (res + 1)) \<le> best_pos then reuse_level s best_pos n (res + 1) else res)"

definition determine_actual_backtrack_level :: "('p, 'h) config \<Rightarrow> ('p, 'h) internal \<Rightarrow> nat \<Rightarrow> nat option" where
  "determine_actual_backtrack_level E s jump = (
     if chrono (opts E) = 0 \<and> \<not> connected (opts E) then Some jump
     else if chronoalways (opts E) then Some (ilevel s - 1)
     else if jump \<ge> ilevel s - 1 then Some jump
     else if jump < length (iassumptions s) then Some jump
     else if ilevel s - jump > chronolevelim (opts E) then Some (ilevel s - 1)
     else if chronoreusetrail (opts E) then do {
       l \<leftarrow> vec_at (icontrol s) (jump + 1);
       let from = lv_trail l;
       let best_pos = best_on_trail E (iheur s) (zip [from..<length (itrail s)] (drop from (itrail s))) 0 0;
       Some (reuse_level s best_pos (ilevel s - 1 - jump) jump) }
     else Some jump)"

section \<open>Eager subsumption\<close>

fun subsumed_by_marks :: "('p, 'h) internal \<Rightarrow> nat \<Rightarrow> int list \<Rightarrow> bool option" where
  "subsumed_by_marks s needed [] = Some (needed = 0)"
| "subsumed_by_marks s needed (lit # ls) = do {
     m \<leftarrow> marked s lit;
     if m \<le> 0 then subsumed_by_marks s needed ls
     else if needed - 1 = 0 then Some True
     else subsumed_by_marks s (needed - 1) ls }"

definition mark_garbage :: "('p, 'h) internal \<Rightarrow> nat \<Rightarrow> clause_data \<Rightarrow> ('p, 'h) internal" where
  "mark_garbage s p c = (
     let s1 = (if length (cl_lits c) \<noteq> 2 then trace s (Deleted (cl_lits c)) else s)
     in s1\<lparr>istore := (istore s1)(p \<mapsto> c\<lparr>cl_garbage := True, cl_used := 0\<rparr>)\<rparr>)"

text \<open>The clauses are visited from the last one; the counter is incremented by each test of the loop condition.\<close>

fun eager_loop :: "nat \<Rightarrow> nat \<Rightarrow> nat \<Rightarrow> ('p, 'h) internal \<Rightarrow> nat list \<Rightarrow> ('p, 'h) internal option" where
  "eager_loop p sz lim s [] = Some s"
| "eager_loop p sz lim s (q # qs) =
     (let s1 = s\<lparr>ieagertried := ieagertried s + 1\<rparr> in
      if \<not> ieagertried s \<le> lim then Some s1
      else if q = p then eager_loop p sz lim s1 qs
      else do {
        d \<leftarrow> istore s1 q;
        if cl_garbage d \<or> \<not> cl_redundant d then eager_loop p sz lim s1 qs
        else do {
          sub \<leftarrow> subsumed_by_marks s1 sz (cl_lits d);
          eager_loop p sz lim (if sub then mark_garbage s1 q d else s1) qs } })"

definition eagerly_subsume_recently_learned_clauses ::
  "('p, 'h) config \<Rightarrow> ('p, 'h) internal \<Rightarrow> nat \<Rightarrow> ('p, 'h) internal option" where
  "eagerly_subsume_recently_learned_clauses E s p = do {
     c \<leftarrow> istore s p;
     s1 \<leftarrow> mfold mark s (cl_lits c);
     s2 \<leftarrow> eager_loop p (length (cl_lits c)) (ieagertried s1 + eagersubsumelim (opts E)) s1 (rev (iclauses s1));
     mfold unmark s2 (cl_lits c) }"

section \<open>Conflict analysis\<close>

text \<open>From the first UIP clause to the assignment of the flipped UIP; \<open>shrink\<close> is the simplification of the clause.\<close>

definition learn_and_backjump ::
  "(('p, 'h) internal \<Rightarrow> ('p, 'h) internal option) \<Rightarrow> ('p, 'h) config \<Rightarrow> ('p, 'h) internal \<Rightarrow> int \<Rightarrow> ('p, 'h) internal option" where
  "learn_and_backjump shrink E s0 uip = do {
     let s = s0\<lparr>iclause := iclause s0 @ [- uip]\<rparr>;
     let glue = length (ilevels s) - 1;
     s1 \<leftarrow> (if length (iclause s) > 1
             then do { s' \<leftarrow> shrink s; if opt_bump (opts E) then bump_variables E s' else Some s' }
             else Some s);
     (s2, driving, jump) \<leftarrow> new_driving_clause E s1 glue;
     new_level \<leftarrow> determine_actual_backtrack_level E s2 jump;
     s3 \<leftarrow> backtrack E s2 new_level;
     s4 \<leftarrow> (if uip \<noteq> 0
             then search_assign_driving E s3 (- uip) (case driving of None \<Rightarrow> No_Reason | Some p \<Rightarrow> Reason_Clause p)
             else Some (learn_empty_clause s3));
     let s5 = (if istable s4 then s4\<lparr>ireluctant := tick (ireluctant s4)\<rparr> else s4);
     let s6 = (clear_analyzed_levels (clear_analyzed_literals s5))\<lparr>iclause := [], iconflict := None\<rparr>;
     (case driving of
        Some p \<Rightarrow> if eagersubsume (opts E) then eagerly_subsume_recently_learned_clauses E s6 p else Some s6
      | None \<Rightarrow> Some s6) }"

text \<open>The branch of \<^verbatim>\<open>analyze\<close> on the options \<^verbatim>\<open>shrink\<close> and \<^verbatim>\<open>minimize\<close>.\<close>

definition simplify_learned :: "('p, 'h) config \<Rightarrow> ('p, 'h) internal \<Rightarrow> ('p, 'h) internal option" where
  "simplify_learned E s =
     (if opt_shrink (opts E) \<noteq> 0 then shrink_and_minimize_clause E s
      else if opt_minimize (opts E) then minimize_clause E s else Some s)"

definition derive_and_learn :: "('p, 'h) config \<Rightarrow> ('p, 'h) internal \<Rightarrow> nat \<Rightarrow> ('p, 'h) internal option" where
  "derive_and_learn E s conflict =
     (if ilevel s = 0 then Some (learn_empty_clause s)
      else do {
        (s1, uip) \<leftarrow> analyze_loop E s 0 conflict 0 (rev (itrail s));
        learn_and_backjump (simplify_learned E) E s1 uip })"

definition analyze :: "('p, 'h) config \<Rightarrow> ('p, 'h) internal \<Rightarrow> ('p, 'h) internal option" where
  "analyze E s0 = do {
     s \<leftarrow> (if eager E then explain_external_propagations E s0 else Some s0);
     conflict \<leftarrow> iconflict s;
     if chrono (opts E) \<noteq> 0 \<or> connected (opts E) then do {
       (s1, conflict_level, forced) \<leftarrow> find_conflict_level s conflict;
       if forced \<noteq> 0 then do {
         s2 \<leftarrow> backtrack E s1 (conflict_level - 1);
         s3 \<leftarrow> search_assign_driving E s2 forced (Reason_Clause conflict);
         Some (s3\<lparr>iconflict := None\<rparr>) }
       else do {
         s2 \<leftarrow> backtrack E s1 conflict_level;
         derive_and_learn E s2 conflict } }
     else derive_and_learn E s conflict }"

end
