(* ===== verification/Solver_Learn.thy ===== *)
theory Solver_Learn
  imports Solver_Reasons Solver_Analyze
begin

text \<open>
  Correctness of conflict analysis: the loop over the trail ends with a first UIP clause that
  follows from the formula, and minimization keeps this.
\<close>

section \<open>What analysis leaves alone\<close>

text \<open>Literals are kept, and only redundant clauses become garbage.\<close>

definition same_lits :: "clause_data \<Rightarrow> clause_data \<Rightarrow> bool" where
  "same_lits c c' \<longleftrightarrow> cl_lits c' = cl_lits c \<and> (cl_garbage c' = cl_garbage c \<or> cl_redundant c \<and> cl_garbage c') \<and>
     cl_redundant c' = cl_redundant c \<and> cl_pos c' = cl_pos c"

definition quiet :: "('p, 'h) internal \<Rightarrow> ('p, 'h) internal \<Rightarrow> bool" where
  "quiet s s' \<longleftrightarrow> imax_var s' = imax_var s \<and> ivals s' = ivals s \<and> ivar_level s' = ivar_level s \<and> ivar_trail s' = ivar_trail s \<and>
     ivar_reason s' = ivar_reason s \<and> itrail s' = itrail s \<and> ilevel s' = ilevel s \<and> ipropagated s' = ipropagated s \<and>
     iconflict s' = iconflict s \<and> iunsat s' = iunsat s \<and> ifresh s' = ifresh s \<and> iwatches s' = iwatches s \<and>
     iassumptions s' = iassumptions s \<and> iconstraint s' = iconstraint s \<and> iclauses s' = iclauses s \<and>
     isearching_lucky_phases s' = isearching_lucky_phases s \<and> imarks s' = imarks s \<and>
     map lv_trail (icontrol s') = map lv_trail (icontrol s) \<and> (\<forall>p. rel_option same_lits (istore s p) (istore s' p))"

definition same_marks :: "('p, 'h) internal \<Rightarrow> ('p, 'h) internal \<Rightarrow> bool" where
  "same_marks s s' \<longleftrightarrow> iseen s' = iseen s \<and> iclause s' = iclause s \<and> ianalyzed s' = ianalyzed s \<and> iminimized s' = iminimized s \<and>
     ikeep s' = ikeep s \<and> ipoison s' = ipoison s \<and> iremovable s' = iremovable s \<and> imarks s' = imarks s"

lemma same_lits_refl [simp]: "same_lits c c"
  by (simp add: same_lits_def)

lemma rel_same_lits_refl [simp]: "rel_option same_lits x x"
  by (cases x) simp_all

lemma quiet_refl [simp]: "quiet s s"
  by (simp add: quiet_def)

lemma same_marks_refl [simp]: "same_marks s s"
  by (simp add: same_marks_def)

lemma quiet_trans:
  assumes "quiet s s1" "quiet s1 s2"
  shows "quiet s s2"
proof -
  have "rel_option same_lits (istore s p) (istore s2 p)" for p
    using assms[unfolded quiet_def] by (cases "istore s p"; cases "istore s1 p"; cases "istore s2 p")
      (auto dest!: spec[of _ p] simp: same_lits_def)
  then show ?thesis using assms by (simp add: quiet_def)
qed

lemma quiet_store:
  assumes "quiet s s'" "istore s p = Some c"
  shows "\<exists>c'. istore s' p = Some c' \<and> same_lits c c'"
  using assms unfolding quiet_def by (metis option_rel_Some1)

lemma quiet_store2:
  assumes "quiet s s'" "istore s' p = Some c'"
  shows "\<exists>c. istore s p = Some c \<and> same_lits c c'"
  using assms unfolding quiet_def by (metis option_rel_Some2)

lemma quiet_eqs:
  assumes "quiet s s'"
  shows "imax_var s' = imax_var s" "ivals s' = ivals s" "ivar_level s' = ivar_level s" "ivar_trail s' = ivar_trail s"
    "ivar_reason s' = ivar_reason s" "itrail s' = itrail s" "ilevel s' = ilevel s" "ipropagated s' = ipropagated s"
    "iconflict s' = iconflict s" "iunsat s' = iunsat s" "ifresh s' = ifresh s" "iwatches s' = iwatches s"
    "iassumptions s' = iassumptions s" "ilit_ok s' l = ilit_ok s l"
    "length (icontrol s') = length (icontrol s)"
  using assms map_eq_imp_length_eq[of lv_trail "icontrol s'" lv_trail "icontrol s"] by (simp_all add: quiet_def ilit_ok_def)

lemma quiet_imarks: "quiet s s' \<Longrightarrow> imarks s' = imarks s"
  by (simp add: quiet_def)

lemma quiet_start: "quiet s s' \<Longrightarrow> d < length (icontrol s) \<Longrightarrow> trail_start s' d = trail_start s d"
  using quiet_eqs(15)[of s s'] unfolding quiet_def trail_start_def by (metis nth_map)

text \<open>Both halves of the invariant are kept.\<close>

lemma quiet_core:
  assumes q: "quiet s s'" and core: "core_ok R s"
  shows "core_ok R s'"
proof -
  note e = quiet_eqs[OF q]
  have ok: "trail_ok s" "control_ok s" "clauses_ok s" "watching_ok (istore s) (iwatches s)" "claims R s"
    using core by (simp_all add: core_ok_def)
  have st: "trail_start s' d = trail_start s d" if "d \<le> ilevel s" for d
    using quiet_start[OF q, of d] ok(2) that by (simp add: control_ok_def)
  have "trail_ok s'" using ok(1) by (simp add: trail_ok_def e)
  moreover have "control_ok s'" using ok(2) st by (simp add: control_ok_def e)
  moreover have "clauses_ok s'"
    unfolding clauses_ok_def
  proof (intro allI impI)
    fix p c' assume "istore s' p = Some c'"
    from quiet_store2[OF q this] obtain c where "istore s p = Some c" "same_lits c c'" by blast
    then show "p < ifresh s' \<and> clause_ok s' c'" using ok(3) by (auto simp: clauses_ok_def clause_ok_def same_lits_def e)
  qed
  moreover have "watching_ok (istore s') (iwatches s')"
  proof (rule watching_okI)
    show "distinct (map w_clause (iwatches s' lit))" for lit using watching_ok_distinct[OF ok(4)] by (simp add: e)
  next
    fix lit w assume "w \<in> set (iwatches s' lit)"
    then have "watch_entry_ok (istore s) lit w" using ok(4) by (auto simp: watching_ok_def e)
    then obtain c where c: "istore s (w_clause w) = Some c" "w_size w = length (cl_lits c)"
      "lit = cl_lits c ! 0 \<or> lit = cl_lits c ! 1" "w_blit w \<in> set (cl_lits c)" "w_blit w \<noteq> lit" by (auto simp: watch_entry_ok_def)
    from quiet_store[OF q c(1)] c show "watch_entry_ok (istore s') lit w" by (auto simp: watch_entry_ok_def same_lits_def)
  next
    fix p c' i assume c': "istore s' p = Some c'" "\<not> cl_garbage c'" "i = 0 \<or> i = (1::nat)"
    from quiet_store2[OF q c'(1)] obtain c where c: "istore s p = Some c" "same_lits c c'" by blast
    then show "p \<in> w_clause ` set (iwatches s' (cl_lits c' ! i))"
      using watching_ok_watched[OF ok(4) c(1) _ c'(3)] c'(2) by (auto simp: same_lits_def e)
  qed
  moreover have "claims R s'"
    unfolding claims_def
  proof (intro allI impI, elim conjE)
    fix p c' assume c': "istore s' p = Some c'" "\<not> cl_garbage c'" "p \<notin> R" "both_processed s' c'"
    from quiet_store2[OF q c'(1)] obtain c where c: "istore s p = Some c" "cl_lits c' = cl_lits c" "\<not> cl_garbage c"
      using c'(2) by (auto simp: same_lits_def)
    have "both_processed s c" using c'(4) c(2) by (simp add: both_processed_def watch_height_def e)
    then have "rescued s c" using ok(5) c c' by (auto simp: claims_def)
    then show "rescued s' c'" using st by (auto simp: rescued_def watch_height_def e c(2))
  qed
  ultimately show ?thesis by (simp add: core_ok_def)
qed

lemma quiet_graph:
  assumes q: "quiet s s'" and core: "core_ok R s" and g: "graph_ok F s"
  shows "graph_ok F s'"
proof -
  note e = quiet_eqs[OF q]
  have ctl: "control_ok s" and tok: "trail_ok s" using core by (simp_all add: core_ok_def)
  have st: "trail_start s' d = trail_start s d" if "d \<le> ilevel s" for d
    using quiet_start[OF q, of d] ctl that by (simp add: control_ok_def)
  have "justified s' l \<or> decided s' l" if l: "l \<in> set (itrail s)" for l
  proof -
    from g l consider "justified s l" | "decided s l" by (auto simp: graph_ok_def reasons_ok_def)
    then show ?thesis
    proof cases
      case 1
      then show ?thesis unfolding justified_def using quiet_store[OF q] by (auto simp: e same_lits_def split: if_splits) metis
    next
      case 2
      have "ivar_level s \<bar>l\<bar> \<le> ilevel s" using tok l by (simp add: trail_ok_def)
      then show ?thesis using 2 st by (auto simp: decided_def e)
    qed
  qed
  then have "reasons_ok s'" by (simp add: reasons_ok_def e)
  moreover have "follows F s'" using g quiet_store2[OF q] unfolding graph_ok_def follows_def same_lits_def e by metis
  moreover have "demands s' F"
    using g quiet_store[OF q] unfolding graph_ok_def demands_def same_lits_def e by metis
  moreover have "set (iclauses s') \<subseteq> dom (istore s')"
  proof
    fix p assume "p \<in> set (iclauses s')"
    then have "p \<in> dom (istore s)" using g q by (auto simp: graph_ok_def quiet_def)
    then show "p \<in> dom (istore s')" using quiet_store[OF q] by blast
  qed
  ultimately show ?thesis using g by (simp add: graph_ok_def e)
qed


section \<open>The steps of the derivation\<close>

lemma recompute_steps:
  "\<forall>l \<in> set ls. ilit_ok s l \<Longrightarrow> \<exists>g. mfold (recompute_step s stamp) g0 ls = Some g"
  by (induction ls arbitrary: g0) (auto simp: recompute_step_def var_level_def split: prod.splits)

lemma promote_same_lits: "same_lits c (promote_clause E c g)"
  by (simp add: promote_clause_def same_lits_def Let_def)

lemma quiet_set_clause:
  assumes "istore s p = Some c" "same_lits c c'"
  shows "quiet s (s\<lparr>istore := (istore s)(p \<mapsto> c')\<rparr>)"
  using assms by (auto simp: quiet_def)

lemma bump_clause_quiet:
  assumes c: "istore s p = Some c" "\<forall>l \<in> set (cl_lits c). ilit_ok s l"
  shows "\<exists>s'. bump_clause E s p = Some s' \<and> quiet s s' \<and> same_marks s s'"
proof -
  let ?c = "c\<lparr>cl_used := 1\<rparr>" let ?s = "s\<lparr>istore := (istore s)(p \<mapsto> ?c)\<rparr>"
  have q: "quiet s ?s" by (rule quiet_set_clause[OF c(1)]) (simp add: same_lits_def)
  show ?thesis
  proof (cases "cl_keep c \<or> cl_hyper c \<or> \<not> cl_redundant c")
    case True
    then have "bump_clause E s p = Some ?s" using c by (simp add: bump_clause_def)
    then show ?thesis using q by (simp add: same_marks_def)
  next
    case False
    have "\<forall>l \<in> set (cl_lits ?c). ilit_ok ?s l" using c(2) by (simp add: ilit_ok_def)
    from recompute_steps[OF this] obtain g r where
      g: "mfold (recompute_step ?s (irecomputed s + 1)) (igtab s, 0) (cl_lits ?c) = Some (g, r)" by fast
    let ?s2 = "?s\<lparr>igtab := g, irecomputed := irecomputed s + 1\<rparr>"
    have r: "recompute_glue ?s ?c = Some (r, ?s2)" using g by (simp add: recompute_glue_def)
    define c2 where "c2 = (if r < cl_glue ?c then promote_clause E ?c r
        else if cl_used c \<noteq> 0 \<and> cl_glue ?c \<le> reducetier2glue (opts E) then ?c\<lparr>cl_used := 2\<rparr> else ?c)"
    have "bump_clause E s p = Some (?s2\<lparr>istore := (istore ?s2)(p \<mapsto> c2)\<rparr>)"
      using False c r by (simp add: bump_clause_def Let_def c2_def)
    moreover have "same_lits ?c c2" using promote_same_lits[of ?c E r] by (auto simp: c2_def same_lits_def)
    then have "quiet ?s2 (?s2\<lparr>istore := (istore ?s2)(p \<mapsto> c2)\<rparr>)" by (intro quiet_set_clause[of _ _ ?c]) simp
    moreover have "quiet ?s ?s2" by (simp add: quiet_def)
    ultimately show ?thesis using quiet_trans[OF q] quiet_trans by (fastforce simp: same_marks_def)
  qed
qed

lemma see_level_quiet:
  assumes "lv < length (icontrol s)"
  shows "\<exists>s'. see_level s lv pos = Some s' \<and> quiet s s' \<and> same_marks s s'"
proof -
  let ?l = "icontrol s ! lv"
  define s1 where "s1 = (if lv_seen_count ?l = 0 then s\<lparr>ilevels := ilevels s @ [lv]\<rparr> else s)"
  define l2 where "l2 = (if int pos < lv_seen_trail ?l then ?l\<lparr>lv_seen_count := lv_seen_count ?l + 1, lv_seen_trail := int pos\<rparr>
    else ?l\<lparr>lv_seen_count := lv_seen_count ?l + 1\<rparr>)"
  have "see_level s lv pos = Some (s1\<lparr>icontrol := (icontrol s1)[lv := l2]\<rparr>)"
    using assms by (simp add: see_level_def Let_def vec_at_def s1_def l2_def)
  moreover have "icontrol s1 = icontrol s" "lv_trail l2 = lv_trail ?l" by (simp_all add: s1_def l2_def)
  then have "map lv_trail ((icontrol s1)[lv := l2]) = map lv_trail (icontrol s)"
    using assms by (simp add: map_update list_update_same_conv)
  then have "quiet s (s1\<lparr>icontrol := (icontrol s1)[lv := l2]\<rparr>)" "same_marks s (s1\<lparr>icontrol := (icontrol s1)[lv := l2]\<rparr>)"
    by (simp_all add: quiet_def same_marks_def s1_def)
  ultimately show ?thesis by blast
qed

definition new_lit :: "('p, 'h) internal \<Rightarrow> int \<Rightarrow> bool" where
  "new_lit s lit \<longleftrightarrow> \<not> iseen s \<bar>lit\<bar> \<and> ivar_level s \<bar>lit\<bar> \<noteq> 0"

lemma analyze_literal_effect:
  assumes lit: "ilit_ok s lit" and lv: "ivar_level s \<bar>lit\<bar> < length (icontrol s)"
  shows "\<exists>s'. analyze_literal (s, k) lit = Some (s', k + (if new_lit s lit \<and> ivar_level s \<bar>lit\<bar> = ilevel s then 1 else 0)) \<and> quiet s s' \<and>
    iseen s' = (iseen s)(\<bar>lit\<bar> := iseen s \<bar>lit\<bar> \<or> new_lit s lit) \<and>
    iclause s' = iclause s @ (if new_lit s lit \<and> ivar_level s \<bar>lit\<bar> < ilevel s then [lit] else []) \<and>
    ianalyzed s' = ianalyzed s @ (if new_lit s lit then [lit] else []) \<and>
    iminimized s' = iminimized s \<and> ikeep s' = ikeep s \<and> ipoison s' = ipoison s \<and> iremovable s' = iremovable s \<and> imarks s' = imarks s"
proof (cases "new_lit s lit")
  case False
  then have "analyze_literal (s, k) lit = Some (s, k)" using lit by (auto simp: analyze_literal_def new_lit_def Let_def)
  then show ?thesis using False by (auto simp: fun_eq_iff)
next
  case True
  let ?s1 = "if ivar_level s \<bar>lit\<bar> < ilevel s then s\<lparr>iclause := iclause s @ [lit]\<rparr> else s"
  have q1: "quiet s ?s1" by (simp add: quiet_def)
  have "ivar_level s \<bar>lit\<bar> < length (icontrol ?s1)" using lv by simp
  from see_level_quiet[OF this] obtain s2 where s2: "see_level ?s1 (ivar_level s \<bar>lit\<bar>) (ivar_trail s \<bar>lit\<bar>) = Some s2"
    "quiet ?s1 s2" "same_marks ?s1 s2" by blast
  let ?s3 = "s2\<lparr>iseen := (iseen s2)(\<bar>lit\<bar> := True), ianalyzed := ianalyzed s2 @ [lit]\<rparr>"
  have "analyze_literal (s, k) lit = Some (?s3, if ivar_level s \<bar>lit\<bar> = ilevel s then k + 1 else k)"
    using True lit s2(1) by (simp add: analyze_literal_def new_lit_def Let_def)
  moreover have "quiet s2 ?s3" by (simp add: quiet_def)
  then have "quiet s ?s3" using quiet_trans[OF quiet_trans[OF q1 s2(2)]] by blast
  ultimately show ?thesis using True s2(3) by (auto simp: same_marks_def split: if_splits)
qed


text \<open>The seen literals: those below the current level are in the clause.\<close>

definition marks_ok :: "('p, 'h) internal \<Rightarrow> bool" where
  "marks_ok s \<longleftrightarrow> (\<forall>v. iseen s v \<longrightarrow> 0 < ivar_level s v \<and> (\<exists>l \<in> set (itrail s). \<bar>l\<bar> = v)) \<and>
     set (iclause s) = uminus ` {l \<in> set (itrail s). iseen s \<bar>l\<bar> \<and> ivar_level s \<bar>l\<bar> < ilevel s} \<and> distinct (iclause s) \<and>
     abs ` set (ianalyzed s) = {v. iseen s v} \<and>
     iminimized s = [] \<and> ikeep s = (\<lambda>v. False) \<and> ipoison s = (\<lambda>v. False) \<and> iremovable s = (\<lambda>v. False) \<and> imarks s = (\<lambda>v. 0)"

definition open_set :: "('p, 'h) internal \<Rightarrow> int list \<Rightarrow> int set" where
  "open_set s ls = {l \<in> set ls. iseen s \<bar>l\<bar> \<and> ivar_level s \<bar>l\<bar> = ilevel s}"

lemma finite_open_set [simp]: "finite (open_set s ls)"
  by (simp add: open_set_def)

lemma idle_marks_ok: "idle s \<Longrightarrow> marks_ok s \<and> open_set s ls = {}"
  by (auto simp: idle_def marks_ok_def open_set_def)

lemma trail_same_abs: "trail_ok s \<Longrightarrow> k \<in> set (itrail s) \<Longrightarrow> l \<in> set (itrail s) \<Longrightarrow> \<bar>k\<bar> = \<bar>l\<bar> \<Longrightarrow> k = l"
  unfolding trail_ok_def distinct_map inj_on_def by blast

lemma analyze_literal_ok:
  assumes tok: "trail_ok s" and ctl: "length (icontrol s) = ilevel s + 1" and m: "marks_ok s"
    and lit: "- lit \<in> set (itrail s)" "ivar_level s \<bar>lit\<bar> = ilevel s \<longrightarrow> - lit \<in> set ls" and ls: "set ls \<subseteq> set (itrail s)"
  shows "\<exists>s'. analyze_literal (s, int (card (open_set s ls))) lit = Some (s', int (card (open_set s' ls))) \<and> quiet s s' \<and> marks_ok s' \<and>
    iseen s' = (\<lambda>v. iseen s v \<or> v = \<bar>lit\<bar> \<and> ivar_level s v \<noteq> 0)"
proof -
  have "ilit_ok s (- lit)" using tok lit(1) unfolding trail_ok_def by blast
  then have lok: "ilit_ok s lit" by simp
  have lv: "ivar_level s \<bar>lit\<bar> \<le> ilevel s" using tok lit(1) unfolding trail_ok_def by (metis abs_minus_cancel)
  then have "ivar_level s \<bar>lit\<bar> < length (icontrol s)" using ctl by simp
  from analyze_literal_effect[OF lok this, of "int (card (open_set s ls))"] obtain s' where
    s': "analyze_literal (s, int (card (open_set s ls))) lit =
      Some (s', int (card (open_set s ls)) + (if new_lit s lit \<and> ivar_level s \<bar>lit\<bar> = ilevel s then 1 else 0))"
    "quiet s s'" "iseen s' = (iseen s)(\<bar>lit\<bar> := iseen s \<bar>lit\<bar> \<or> new_lit s lit)"
    "iclause s' = iclause s @ (if new_lit s lit \<and> ivar_level s \<bar>lit\<bar> < ilevel s then [lit] else [])"
    "ianalyzed s' = ianalyzed s @ (if new_lit s lit then [lit] else [])"
    "iminimized s' = iminimized s" "ikeep s' = ikeep s" "ipoison s' = ipoison s" "iremovable s' = iremovable s" by blast
  note e = quiet_eqs[OF s'(2)]
  have seen: "iseen s' = (\<lambda>v. iseen s v \<or> v = \<bar>lit\<bar> \<and> ivar_level s v \<noteq> 0)" using s'(3) by (auto simp: new_lit_def fun_eq_iff)
  have same: "l = - lit" if "l \<in> set (itrail s)" "\<bar>l\<bar> = \<bar>lit\<bar>" for l
    using trail_same_abs[OF tok that(1) lit(1)] that(2) by simp
  have open': "open_set s' ls = (if new_lit s lit \<and> ivar_level s \<bar>lit\<bar> = ilevel s then insert (- lit) (open_set s ls) else open_set s ls)"
  proof -
    have ab: "\<bar>l\<bar> = \<bar>lit\<bar> \<longleftrightarrow> l = - lit" if "l \<in> set ls" for l using same[of l] that ls by auto
    show ?thesis
    proof (cases "new_lit s lit \<and> ivar_level s \<bar>lit\<bar> = ilevel s")
      case True
      then have "- lit \<in> set ls" "ivar_level s \<bar>lit\<bar> = ilevel s" "ilevel s \<noteq> 0" using lit(2) by (auto simp: new_lit_def)
      then show ?thesis unfolding open_set_def seen e using True ab by (simp add: set_eq_iff) (metis abs_minus_cancel)
    next
      case False
      then show ?thesis unfolding open_set_def seen e using ab by (auto simp: new_lit_def)
    qed
  qed
  have "- lit \<notin> open_set s ls" if "new_lit s lit" using that by (auto simp: open_set_def new_lit_def)
  then have card: "int (card (open_set s' ls)) = int (card (open_set s ls)) + (if new_lit s lit \<and> ivar_level s \<bar>lit\<bar> = ilevel s then 1 else 0)"
    by (simp add: open')
  have "{l \<in> set (itrail s). iseen s' \<bar>l\<bar> \<and> ivar_level s \<bar>l\<bar> < ilevel s} =
      {l \<in> set (itrail s). iseen s \<bar>l\<bar> \<and> ivar_level s \<bar>l\<bar> < ilevel s} \<union> (if new_lit s lit \<and> ivar_level s \<bar>lit\<bar> < ilevel s then {- lit} else {})"
  proof -
    have abt: "\<bar>l\<bar> = \<bar>lit\<bar> \<longleftrightarrow> l = - lit" if "l \<in> set (itrail s)" for l using same[of l] that by auto
    show ?thesis
    proof (cases "new_lit s lit \<and> ivar_level s \<bar>lit\<bar> < ilevel s")
      case True
      then show ?thesis unfolding seen using abt lit(1) by (simp add: set_eq_iff new_lit_def) (metis abs_minus_cancel)
    next
      case False
      then show ?thesis unfolding seen using abt by (auto simp: new_lit_def)
    qed
  qed
  then have "set (iclause s') = uminus ` {l \<in> set (itrail s). iseen s' \<bar>l\<bar> \<and> ivar_level s \<bar>l\<bar> < ilevel s}"
    using m by (cases "new_lit s lit \<and> ivar_level s \<bar>lit\<bar> < ilevel s") (auto simp: s'(4) marks_ok_def)
  moreover have "lit \<notin> set (iclause s)" if "new_lit s lit" using that m by (auto simp: marks_ok_def new_lit_def)
  then have "distinct (iclause s')" using m by (auto simp: s'(4) marks_ok_def)
  moreover have "0 < ivar_level s v \<and> (\<exists>l \<in> set (itrail s). \<bar>l\<bar> = v)" if "iseen s' v" for v
  proof -
    from that consider "iseen s v" | "v = \<bar>lit\<bar>" "ivar_level s v \<noteq> 0" by (auto simp: seen)
    then show ?thesis
    proof cases
      case 2
      then show ?thesis using lit(1) by (auto intro!: bexI[of _ "- lit"])
    qed (use m in \<open>auto simp: marks_ok_def\<close>)
  qed
  moreover have "abs ` set (ianalyzed s') = {v. iseen s' v}" using m by (auto simp: s'(5) seen marks_ok_def new_lit_def)
  ultimately have "marks_ok s'" using m s'(6-9) unfolding marks_ok_def e quiet_imarks[OF s'(2)] by simp
  then show ?thesis using s'(1,2) seen card by (intro exI[of _ s']) simp
qed

lemma analyze_literals_ok:
  assumes "trail_ok s" "length (icontrol s) = ilevel s + 1" "marks_ok s" "set ls \<subseteq> set (itrail s)"
    "\<forall>k \<in> set os. - k \<in> set (itrail s) \<and> (ivar_level s \<bar>k\<bar> = ilevel s \<longrightarrow> - k \<in> set ls)"
  shows "\<exists>s'. mfold analyze_literal (s, int (card (open_set s ls))) os = Some (s', int (card (open_set s' ls))) \<and> quiet s s' \<and> marks_ok s' \<and>
    iseen s' = (\<lambda>v. iseen s v \<or> v \<in> abs ` set os \<and> ivar_level s v \<noteq> 0)"
  using assms
proof (induction os arbitrary: s)
  case (Cons k os)
  from analyze_literal_ok[OF Cons.prems(1-3), of k ls] Cons.prems(4,5) obtain s1 where
    s1: "analyze_literal (s, int (card (open_set s ls))) k = Some (s1, int (card (open_set s1 ls)))" "quiet s s1" "marks_ok s1"
    "iseen s1 = (\<lambda>v. iseen s v \<or> v = \<bar>k\<bar> \<and> ivar_level s v \<noteq> 0)" by auto
  note e = quiet_eqs[OF s1(2)]
  have "trail_ok s1" using Cons.prems(1) by (simp add: trail_ok_def e)
  moreover have "length (icontrol s1) = ilevel s1 + 1" using Cons.prems(2) by (simp add: e)
  ultimately obtain s2 where "mfold analyze_literal (s1, int (card (open_set s1 ls))) os = Some (s2, int (card (open_set s2 ls)))" "quiet s1 s2"
    "marks_ok s2" "iseen s2 = (\<lambda>v. iseen s1 v \<or> v \<in> abs ` set os \<and> ivar_level s1 v \<noteq> 0)"
    using Cons.IH[of s1] s1(3) Cons.prems(4,5) by (auto simp: e)
  then show ?case using s1 quiet_trans[OF s1(2)] by (intro exI[of _ s2]) (auto simp: e fun_eq_iff)
qed simp

lemma analyze_reason_ok:
  assumes core: "core_ok R s" and m: "marks_ok s" and c: "istore s p = Some c"
    and ls: "set ls \<subseteq> set (itrail s)"
    and others: "\<forall>k \<in> set (cl_lits c). k \<noteq> u \<longrightarrow> - k \<in> set (itrail s) \<and> (ivar_level s \<bar>k\<bar> = ilevel s \<longrightarrow> - k \<in> set ls)"
  shows "\<exists>s'. analyze_reason E s u p (int (card (open_set s ls))) = Some (s', int (card (open_set s' ls))) \<and> quiet s s' \<and> marks_ok s' \<and>
    iseen s' = (\<lambda>v. iseen s v \<or> v \<in> abs ` (set (cl_lits c) - {u}) \<and> ivar_level s v \<noteq> 0)"
proof -
  have ok: "trail_ok s" "length (icontrol s) = ilevel s + 1" "clause_ok s c" using core c by (auto simp: core_ok_def control_ok_def clauses_ok_def)
  obtain s1 where s1: "bump_clause E s p = Some s1" "quiet s s1" "same_marks s s1"
    using bump_clause_quiet[OF c] ok(3) by (auto simp: clause_ok_def)
  note e = quiet_eqs[OF s1(2)]
  obtain c1 where c1: "istore s1 p = Some c1" "cl_lits c1 = cl_lits c" using quiet_store[OF s1(2) c] by (auto simp: same_lits_def)
  have sm: "iseen s1 = iseen s" using s1(3) by (simp add: same_marks_def)
  have os: "open_set s1 ls = open_set s ls" by (simp add: open_set_def e sm)
  have "trail_ok s1" using ok(1) by (simp add: trail_ok_def e)
  moreover have "marks_ok s1" using m s1(3) by (simp add: marks_ok_def same_marks_def e)
  moreover have "length (icontrol s1) = ilevel s1 + 1" using ok(2) by (simp add: e)
  ultimately obtain s' where s': "mfold analyze_literal (s1, int (card (open_set s1 ls))) (List.filter (\<lambda>k. k \<noteq> u) (cl_lits c)) = Some (s', int (card (open_set s' ls)))"
    "quiet s1 s'" "marks_ok s'" "iseen s' = (\<lambda>v. iseen s1 v \<or> v \<in> abs ` set (List.filter (\<lambda>k. k \<noteq> u) (cl_lits c)) \<and> ivar_level s1 v \<noteq> 0)"
    using analyze_literals_ok[of s1 ls "List.filter (\<lambda>k. k \<noteq> u) (cl_lits c)"] ls others by (auto simp: e)
  have "set (List.filter (\<lambda>k. k \<noteq> u) (cl_lits c)) = set (cl_lits c) - {u}" by auto
  then show ?thesis using s1 c1 s' quiet_trans[OF s1(2) s'(2)] by (auto simp: analyze_reason_def os sm e)
qed


section \<open>The loop over the trail\<close>

lemma next_seen_found:
  "open_set s ls \<noteq> {} \<Longrightarrow> \<exists>pre u r. next_seen s ls = Some (u, r) \<and> ls = pre @ u # r \<and> u \<in> open_set s ls \<and> (\<forall>l \<in> set pre. l \<notin> open_set s ls)"
proof (induction ls)
  case (Cons l ls)
  show ?case
  proof (cases "iseen s \<bar>l\<bar> \<and> ivar_level s \<bar>l\<bar> = ilevel s")
    case True
    then show ?thesis by (intro exI[of _ "[]"] exI[of _ l] exI[of _ ls]) (simp add: open_set_def)
  next
    case False
    then have o: "open_set s (l # ls) = open_set s ls" "l \<notin> open_set s ls" by (auto simp: open_set_def)
    then obtain pre u r where "next_seen s ls = Some (u, r)" "ls = pre @ u # r" "u \<in> open_set s ls" "\<forall>l \<in> set pre. l \<notin> open_set s ls"
      using Cons by auto
    then show ?thesis unfolding o(1) using False o(2) by (intro exI[of _ "l # pre"] exI[of _ u] exI[of _ r]) simp
  qed
qed (simp add: open_set_def)

lemma open_set_rest:
  assumes "ls = pre @ u # r" "distinct ls" "\<forall>l \<in> set pre. l \<notin> open_set s ls"
  shows "open_set s r = open_set s ls - {u}"
  using assms by (auto simp: open_set_def)

text \<open>A literal of the current level that is not the last one open has a reason.\<close>

lemma open_has_reason:
  assumes core: "core_ok R s" and g: "graph_ok F s" and L: "0 < ilevel s"
    and u: "u \<in> set (itrail s)" "ivar_level s \<bar>u\<bar> = ilevel s"
    and l: "l \<in> set (itrail s)" "ivar_level s \<bar>l\<bar> = ilevel s" "ivar_trail s \<bar>l\<bar> < ivar_trail s \<bar>u\<bar>"
  shows "\<exists>p c. ivar_reason s \<bar>u\<bar> = Reason_Clause p \<and> istore s p = Some c \<and> u \<in> set (cl_lits c) \<and>
    (\<forall>k \<in> set (cl_lits c). k \<noteq> u \<longrightarrow> - k \<in> set (itrail s) \<and> ivar_trail s \<bar>k\<bar> < ivar_trail s \<bar>u\<bar>)"
proof -
  have ok: "trail_ok s" "control_ok s" using core by (simp_all add: core_ok_def)
  have "\<not> decided s u"
  proof
    assume "decided s u"
    then have "ivar_trail s \<bar>u\<bar> = trail_start s (ilevel s)" using u(2) by (simp add: decided_def)
    then have "ivar_level s \<bar>itrail s ! ivar_trail s \<bar>l\<bar>\<bar> < ilevel s" using ok(2) l(3) by (simp add: control_ok_def)
    then show False using trail_ok_position(2)[OF ok(1) l(1)] l(2) by simp
  qed
  then have "justified s u" using g u(1) by (auto simp: graph_ok_def reasons_ok_def)
  then show ?thesis using u(2) L unfolding justified_def by auto
qed

lemma rev_take_split:
  assumes "rev (take n xs) = pre @ u # r"
  shows "\<exists>m < n. r = rev (take m xs) \<and> m < length xs \<and> xs ! m = u"
proof -
  have t: "take n xs = rev r @ u # rev pre" using assms by (metis append.assoc append_Cons append_Nil rev.simps(2) rev_append rev_rev_ident)
  let ?m = "length r"
  have len: "?m < length (take n xs)" unfolding t by simp
  then have "?m < n" "?m < length xs" by auto
  moreover have "take ?m (take n xs) = rev r" unfolding t by simp
  then have "take ?m xs = rev r" using \<open>?m < n\<close> by (simp add: min_def)
  then have "r = rev (take ?m xs)" by simp
  moreover have "take n xs ! ?m = u" unfolding t by (simp add: nth_append)
  then have "xs ! ?m = u" using \<open>?m < n\<close> by simp
  ultimately show ?thesis by blast
qed

lemma in_take_position:
  assumes "trail_ok s" "m \<le> length (itrail s)"
  shows "l \<in> set (take m (itrail s)) \<longleftrightarrow> l \<in> set (itrail s) \<and> ivar_trail s \<bar>l\<bar> < m"
proof
  assume "l \<in> set (take m (itrail s))"
  then obtain i where "i < m" "i < length (itrail s)" "l = itrail s ! i" by (auto simp: in_set_conv_nth)
  then show "l \<in> set (itrail s) \<and> ivar_trail s \<bar>l\<bar> < m" using assms by (auto simp: trail_ok_def)
next
  assume l: "l \<in> set (itrail s) \<and> ivar_trail s \<bar>l\<bar> < m"
  then have "itrail s ! ivar_trail s \<bar>l\<bar> = l" using trail_ok_position[OF assms(1)] by blast
  then show "l \<in> set (take m (itrail s))" using l assms(2) by (metis in_set_conv_nth length_take min.absorb2 nth_take)
qed

text \<open>The resolvent of the clauses visited so far: its literals are the seen ones that are not resolved yet.\<close>

definition resolvent_entailed :: "int list list \<Rightarrow> ('p, 'h) internal \<Rightarrow> int list \<Rightarrow> int set \<Rightarrow> bool" where
  "resolvent_entailed F s ls C \<longleftrightarrow> (\<forall>\<tau>. models F \<tau> \<longrightarrow> (\<exists>k \<in> C. lit_true \<tau> k) \<or>
     (\<exists>l \<in> set (itrail s). iseen s \<bar>l\<bar> \<and> (ivar_level s \<bar>l\<bar> < ilevel s \<or> l \<in> set ls) \<and> \<not> lit_true \<tau> l))"

lemma resolvent_after_reason:
  assumes q: "quiet s s'" and g: "graph_ok F s" and ent: "resolvent_entailed F s ls (set (cl_lits c) - {u})" and tok: "trail_ok s"
    and others: "\<forall>k \<in> set (cl_lits c). k \<noteq> u \<longrightarrow> - k \<in> set (itrail s) \<and> (ivar_level s \<bar>k\<bar> = ilevel s \<longrightarrow> - k \<in> set ls)"
    and seen: "iseen s' = (\<lambda>v. iseen s v \<or> v \<in> abs ` (set (cl_lits c) - {u}) \<and> ivar_level s v \<noteq> 0)"
  shows "resolvent_entailed F s' ls {}"
  unfolding resolvent_entailed_def
proof (intro allI impI disjI2)
  note e = quiet_eqs[OF q]
  fix \<tau> assume mod: "models F \<tau>"
  with ent consider k where "k \<in> set (cl_lits c)" "k \<noteq> u" "lit_true \<tau> k"
    | l where "l \<in> set (itrail s)" "iseen s \<bar>l\<bar>" "ivar_level s \<bar>l\<bar> < ilevel s \<or> l \<in> set ls" "\<not> lit_true \<tau> l"
    unfolding resolvent_entailed_def by blast
  then show "\<exists>l \<in> set (itrail s'). iseen s' \<bar>l\<bar> \<and> (ivar_level s' \<bar>l\<bar> < ilevel s' \<or> l \<in> set ls) \<and> \<not> lit_true \<tau> l"
  proof cases
    case 1
    have k: "- k \<in> set (itrail s)" "ivar_level s \<bar>k\<bar> = ilevel s \<longrightarrow> - k \<in> set ls" using others 1 by auto
    have f: "\<not> lit_true \<tau> (- k)" using 1(3) lit_true_nonzero[OF 1(3)] by simp
    have "ivar_level s \<bar>k\<bar> \<noteq> 0"
    proof
      assume "ivar_level s \<bar>k\<bar> = 0"
      then have "entails F [] [- k]" using g k(1) by (simp add: graph_ok_def follows_def)
      then show False using models_clause_true[OF _ mod] f by fastforce
    qed
    moreover have "ivar_level s \<bar>k\<bar> \<le> ilevel s" using tok k(1) unfolding trail_ok_def by (metis abs_minus_cancel)
    then have "ivar_level s \<bar>- k\<bar> < ilevel s \<or> - k \<in> set ls" using k(2) by auto
    ultimately show ?thesis using k(1) f 1(1,2) by (intro bexI[of _ "- k"]) (auto simp: seen e)
  next
    case 2
    then show ?thesis by (auto simp: seen e)
  qed
qed

lemma analyze_loop_ok:
  assumes "core_ok R s" "graph_ok F s" "marks_ok s" "0 < ilevel s" "ls = rev (take n (itrail s))" "istore s p = Some c"
    "\<forall>k \<in> set (cl_lits c). k \<noteq> u \<longrightarrow> - k \<in> set (itrail s) \<and> (ivar_level s \<bar>k\<bar> = ilevel s \<longrightarrow> - k \<in> set ls)"
    "resolvent_entailed F s ls (set (cl_lits c) - {u})"
    "open_set s ls \<noteq> {} \<or> (\<exists>k \<in> set (cl_lits c). k \<noteq> u \<and> ivar_level s \<bar>k\<bar> = ilevel s)"
  shows "\<exists>s' uip. analyze_loop E s u p (int (card (open_set s ls))) ls = Some (s', uip) \<and> quiet s s' \<and> marks_ok s' \<and>
    uip \<in> set (itrail s) \<and> ivar_level s \<bar>uip\<bar> = ilevel s \<and> entails F [] (iclause s' @ [- uip])"
  using assms
proof (induction "length ls" arbitrary: s u p c ls n rule: less_induct)
  case less
  note core = less.prems(1) and g = less.prems(2) and c = less.prems(6) and others = less.prems(7)
  have ls: "set ls \<subseteq> set (itrail s)" using less.prems(5) by (auto dest: in_set_takeD)
  have tok: "trail_ok s" using core by (simp add: core_ok_def)
  then have "distinct (itrail s)" by (auto simp: trail_ok_def distinct_map)
  then have dls: "distinct ls" using less.prems(5) by simp
  from analyze_reason_ok[OF core less.prems(3) c ls others, of E] obtain s1 where
    s1: "analyze_reason E s u p (int (card (open_set s ls))) = Some (s1, int (card (open_set s1 ls)))" "quiet s s1" "marks_ok s1"
    "iseen s1 = (\<lambda>v. iseen s v \<or> v \<in> abs ` (set (cl_lits c) - {u}) \<and> ivar_level s v \<noteq> 0)" by (elim exE conjE) (rule that; assumption)
  note e = quiet_eqs[OF s1(2)]
  have ok1: "core_ok R s1" "graph_ok F s1" using quiet_core[OF s1(2) core] quiet_graph[OF s1(2) core g] by blast+
  have tok1: "trail_ok s1" using ok1 by (simp add: core_ok_def)
  have "open_set s1 ls \<noteq> {}"
  proof (cases "open_set s ls = {}")
    case True
    then obtain k where k: "k \<in> set (cl_lits c)" "k \<noteq> u" "ivar_level s \<bar>k\<bar> = ilevel s" using less.prems(9) by blast
    then have "- k \<in> open_set s1 ls" using others less.prems(4) by (auto simp: open_set_def s1(4) e)
    then show ?thesis by blast
  qed (auto simp: open_set_def s1(4) e)
  from next_seen_found[OF this] obtain pre v r where
    v: "next_seen s1 ls = Some (v, r)" "ls = pre @ v # r" "v \<in> open_set s1 ls" "\<forall>l \<in> set pre. l \<notin> open_set s1 ls" by blast
  have vt: "v \<in> set (itrail s)" "ivar_level s \<bar>v\<bar> = ilevel s" "iseen s1 \<bar>v\<bar>" using v(3) ls by (auto simp: open_set_def e)
  note rest = open_set_rest[OF v(2) dls v(4)]
  have card: "int (card (open_set s1 ls)) - 1 = int (card (open_set s1 r))"
    using v(3) card_Suc_Diff1[of "open_set s1 ls" v] unfolding rest by simp
  note ent1 = resolvent_after_reason[OF s1(2) g less.prems(8) tok others s1(4)]
  have lsplit: "ivar_level s1 \<bar>l\<bar> < ilevel s1 \<or> l \<in> open_set s1 ls" if "l \<in> set (itrail s1)" "iseen s1 \<bar>l\<bar>" "ivar_level s1 \<bar>l\<bar> < ilevel s1 \<or> l \<in> set ls" for l
    using that tok1 by (auto simp: open_set_def trail_ok_def le_less)
  show ?case
  proof (cases "open_set s1 r = {}")
    case True
    then have one: "open_set s1 ls = {v}" using v(3) unfolding rest by auto
    have "clause_true \<tau> (iclause s1 @ [- v])" if mod: "models F \<tau>" for \<tau>
    proof -
      from ent1 mod obtain l where l: "l \<in> set (itrail s1)" "iseen s1 \<bar>l\<bar>" "ivar_level s1 \<bar>l\<bar> < ilevel s1 \<or> l \<in> set ls" "\<not> lit_true \<tau> l"
        unfolding resolvent_entailed_def by blast
      have "l \<noteq> 0" using l(1) tok1 by (auto simp: trail_ok_def ilit_ok_def)
      then have "lit_true \<tau> (- l)" using l(4) by simp
      moreover have "- l \<in> set (iclause s1) \<or> l = v" using lsplit[OF l(1-3)] one s1(3) l(1,2) by (auto simp: marks_ok_def)
      ultimately show ?thesis by (auto simp: clause_true_iff)
    qed
    then have "entails F [] (iclause s1 @ [- v])" by (simp add: entails_def)
    moreover have "analyze_loop E s u p (int (card (open_set s ls))) ls = Some (s1, v)"
      using s1(1) v(1) card True by (subst analyze_loop.simps) simp
    ultimately show ?thesis using s1 vt by blast
  next
    case False
    then obtain l where l: "l \<in> set r" "ivar_level s1 \<bar>l\<bar> = ilevel s1" by (auto simp: open_set_def)
    from rev_take_split[of n "itrail s" pre v r] less.prems(5) v(2) obtain m where
      m: "r = rev (take m (itrail s1))" "m < length (itrail s1)" "itrail s1 ! m = v" by (auto simp: e)
    have mem: "x \<in> set r \<longleftrightarrow> x \<in> set (itrail s1) \<and> ivar_trail s1 \<bar>x\<bar> < m" for x
      using in_take_position[OF tok1, of m x] m by simp
    have vm: "ivar_trail s1 \<bar>v\<bar> = m" using m(2,3) tok1 by (auto simp: trail_ok_def)
    have L1: "0 < ilevel s1" using less.prems(4) by (simp add: e)
    have v1: "v \<in> set (itrail s1)" "ivar_level s1 \<bar>v\<bar> = ilevel s1" using vt by (simp_all add: e)
    from open_has_reason[OF ok1 L1 v1, of l] l mem vm obtain q c' where
      q: "ivar_reason s1 \<bar>v\<bar> = Reason_Clause q" "istore s1 q = Some c'" "v \<in> set (cl_lits c')"
      "\<forall>k \<in> set (cl_lits c'). k \<noteq> v \<longrightarrow> - k \<in> set (itrail s1) \<and> ivar_trail s1 \<bar>k\<bar> < ivar_trail s1 \<bar>v\<bar>" by auto
    have o1: "\<forall>k \<in> set (cl_lits c'). k \<noteq> v \<longrightarrow> - k \<in> set (itrail s1) \<and> (ivar_level s1 \<bar>k\<bar> = ilevel s1 \<longrightarrow> - k \<in> set r)"
      using q(4) mem vm by auto
    have "resolvent_entailed F s1 r (set (cl_lits c') - {v})"
      unfolding resolvent_entailed_def
    proof (intro allI impI)
      fix \<tau> assume mod: "models F \<tau>"
      from ent1 mod obtain l where l: "l \<in> set (itrail s1)" "iseen s1 \<bar>l\<bar>" "ivar_level s1 \<bar>l\<bar> < ilevel s1 \<or> l \<in> set ls" "\<not> lit_true \<tau> l"
        unfolding resolvent_entailed_def by blast
      show "(\<exists>k \<in> set (cl_lits c') - {v}. lit_true \<tau> k) \<or>
        (\<exists>l \<in> set (itrail s1). iseen s1 \<bar>l\<bar> \<and> (ivar_level s1 \<bar>l\<bar> < ilevel s1 \<or> l \<in> set r) \<and> \<not> lit_true \<tau> l)"
      proof (cases "l = v")
        case True
        have "clause_true \<tau> (cl_lits c')" using ok1(2) q(2) models_clause_true[OF _ mod] unfolding graph_ok_def follows_def by blast
        then show ?thesis using True l(4) by (auto simp: clause_true_iff)
      next
        case False
        have "ivar_level s1 \<bar>l\<bar> < ilevel s1 \<or> l \<in> set r" using lsplit[OF l(1-3)] False rest by (auto simp: open_set_def)
        then show ?thesis using l by blast
      qed
    qed
    moreover have "length r < length ls" using v(2) by simp
    ultimately obtain s' uip where r': "analyze_loop E s1 v q (int (card (open_set s1 r))) r = Some (s', uip)" "quiet s1 s'" "marks_ok s'"
      "uip \<in> set (itrail s1)" "ivar_level s1 \<bar>uip\<bar> = ilevel s1" "entails F [] (iclause s' @ [- uip])"
      using less.hyps[OF _ ok1 s1(3) L1 m(1) q(2) o1] False by blast
    have "card (open_set s1 r) \<noteq> 0" using False by simp
    then have "card (open_set s1 ls) \<noteq> Suc 0" using card by linarith
    then have "analyze_loop E s u p (int (card (open_set s ls))) ls = Some (s', uip)"
      using s1(1) v(1) card q(1) r'(1) by (subst analyze_loop.simps) simp
    then show ?thesis using r' quiet_trans[OF s1(2) r'(2)] by (auto simp: e)
  qed
qed


section \<open>Minimization\<close>

text \<open>The formula and the literals marked as kept imply \<open>l\<close>.\<close>

definition kept_implies :: "int list list \<Rightarrow> ('p, 'h) internal \<Rightarrow> int \<Rightarrow> bool" where
  "kept_implies F s l \<longleftrightarrow> (\<forall>\<tau>. models F \<tau> \<longrightarrow> (\<forall>k \<in> set (itrail s). ikeep s \<bar>k\<bar> \<longrightarrow> lit_true \<tau> k) \<longrightarrow> lit_true \<tau> l)"

definition removal_ok :: "int list list \<Rightarrow> ('p, 'h) internal \<Rightarrow> bool" where
  "removal_ok F s \<longleftrightarrow> (\<forall>l \<in> set (itrail s). iremovable s \<bar>l\<bar> \<longrightarrow> kept_implies F s l \<and> ivar_level s \<bar>l\<bar> \<noteq> ilevel s) \<and>
     (\<forall>v. ipoison s v \<or> iremovable s v \<longrightarrow> v \<in> abs ` set (iminimized s))"

definition min_frame :: "('p, 'h) internal \<Rightarrow> ('p, 'h) internal \<Rightarrow> bool" where
  "min_frame s s' \<longleftrightarrow> quiet s s' \<and> iseen s' = iseen s \<and> iclause s' = iclause s \<and> ianalyzed s' = ianalyzed s \<and> ikeep s' = ikeep s"

lemma min_frame_refl [simp]: "min_frame s s"
  by (simp add: min_frame_def)

lemma min_frame_trans: "min_frame s s1 \<Longrightarrow> min_frame s1 s2 \<Longrightarrow> min_frame s s2"
  using quiet_trans by (auto simp: min_frame_def)

lemma min_frame_kept: "min_frame s s' \<Longrightarrow> kept_implies F s' l = kept_implies F s l"
  by (simp add: min_frame_def kept_implies_def quiet_def)

lemma all_removable_ok:
  assumes step: "\<And>s l. core_ok R s \<Longrightarrow> graph_ok F s \<Longrightarrow> removal_ok F s \<Longrightarrow> l \<in> set (itrail s) \<Longrightarrow>
      \<exists>res s'. f s l = Some (res, s') \<and> min_frame s s' \<and> removal_ok F s' \<and> (res \<longrightarrow> kept_implies F s l)"
  shows "core_ok R s \<Longrightarrow> graph_ok F s \<Longrightarrow> removal_ok F s \<Longrightarrow> \<forall>k \<in> set os. k \<noteq> lit \<longrightarrow> - k \<in> set (itrail s) \<Longrightarrow>
    \<exists>res s'. all_removable f s lit os = Some (res, s') \<and> min_frame s s' \<and> removal_ok F s' \<and>
      (res \<longrightarrow> (\<forall>k \<in> set os. k \<noteq> lit \<longrightarrow> kept_implies F s (- k)))"
proof (induction os arbitrary: s)
  case (Cons k os)
  show ?case
  proof (cases "k = lit")
    case True
    then show ?thesis using Cons by simp
  next
    case False
    then have "- k \<in> set (itrail s)" using Cons.prems(4) by simp
    from step[OF Cons.prems(1-3) this] obtain res s1 where
      s1: "f s (- k) = Some (res, s1)" "min_frame s s1" "removal_ok F s1" "res \<longrightarrow> kept_implies F s (- k)" by blast
    have q: "quiet s s1" using s1(2) by (simp add: min_frame_def)
    show ?thesis
    proof (cases res)
      case True
      have "\<forall>k \<in> set os. k \<noteq> lit \<longrightarrow> - k \<in> set (itrail s1)" using Cons.prems(4) by (simp add: quiet_eqs[OF q])
      from Cons.IH[OF quiet_core[OF q Cons.prems(1)] quiet_graph[OF q Cons.prems(1,2)] s1(3) this] obtain res' s2 where
        "all_removable f s1 lit os = Some (res', s2)" "min_frame s1 s2" "removal_ok F s2"
        "res' \<longrightarrow> (\<forall>k \<in> set os. k \<noteq> lit \<longrightarrow> kept_implies F s1 (- k))" by blast
      then show ?thesis using False True s1 min_frame_trans[OF s1(2)] min_frame_kept[OF s1(2)]
        by (intro exI[of _ res'] exI[of _ s2]) auto
    next
      case False
      then show ?thesis using \<open>k \<noteq> lit\<close> s1 by (intro exI[of _ False] exI[of _ s1]) simp
    qed
  qed
qed auto

lemma kept_implies_fixed:
  assumes "graph_ok F s" "l \<in> set (itrail s)" "ivar_level s \<bar>l\<bar> = 0"
  shows "kept_implies F s l"
proof -
  have "entails F [] [l]" using assms by (simp add: graph_ok_def follows_def)
  then show ?thesis using models_clause_true unfolding kept_implies_def by fastforce
qed

lemma kept_implies_clause:
  assumes "graph_ok F s" "istore s p = Some c" "\<forall>k \<in> set (cl_lits c). k \<noteq> l \<longrightarrow> kept_implies F s (- k)"
  shows "kept_implies F s l"
  unfolding kept_implies_def
proof (intro allI impI)
  fix \<tau> assume mod: "models F \<tau>" and k: "\<forall>k \<in> set (itrail s). ikeep s \<bar>k\<bar> \<longrightarrow> lit_true \<tau> k"
  have "clause_true \<tau> (cl_lits c)" using assms(1,2) models_clause_true[OF _ mod] unfolding graph_ok_def follows_def by blast
  then obtain x where x: "x \<in> set (cl_lits c)" "lit_true \<tau> x" by (auto simp: clause_true_iff)
  have "x = l"
  proof (rule ccontr)
    assume "x \<noteq> l"
    then have "lit_true \<tau> (- x)" using assms(3) x(1) mod k by (auto simp: kept_implies_def)
    then show False using x(2) lit_true_nonzero[OF x(2)] by simp
  qed
  then show "lit_true \<tau> l" using x(2) by simp
qed

lemma minimize_literal_ok:
  assumes "core_ok R s" "graph_ok F s" "removal_ok F s" "lit \<in> set (itrail s)" "minimizedepth (opts E) + 2 \<le> n + depth" "depth \<le> minimizedepth (opts E) + 1"
  shows "\<exists>res s'. minimize_literal n E depth s lit = Some (res, s') \<and> min_frame s s' \<and> removal_ok F s' \<and> (res \<longrightarrow> kept_implies F s lit) \<and>
    (res \<longrightarrow> ivar_level s \<bar>lit\<bar> \<noteq> ilevel s \<or> ikeep s \<bar>lit\<bar> \<or> ivar_level s \<bar>lit\<bar> = 0)"
  using assms
proof (induction n arbitrary: depth s lit)
  case (Suc n)
  let ?v = "\<bar>lit\<bar>"
  have tok: "trail_ok s" and ctl: "control_ok s" using Suc.prems(1) by (simp_all add: core_ok_def)
  have lok: "ilit_ok s lit" using tok Suc.prems(4) by (auto simp: trail_ok_def)
  have lv: "ivar_level s ?v < length (icontrol s)" using tok ctl Suc.prems(4) by (auto simp: trail_ok_def control_ok_def less_Suc_eq_le)
  show ?case
  proof (cases "ivar_level s ?v = 0 \<or> iremovable s ?v \<or> ikeep s ?v")
    case True
    then have "kept_implies F s lit"
    proof (elim disjE)
      assume "ikeep s ?v"
      then show ?thesis using Suc.prems(4) by (auto simp: kept_implies_def)
    qed (use kept_implies_fixed[OF Suc.prems(2,4)] Suc.prems(3,4) in \<open>auto simp: removal_ok_def\<close>)
    moreover have "minimize_literal (Suc n) E depth s lit = Some (True, s)" using True lok by (simp add: Let_def)
    moreover have "ivar_level s ?v \<noteq> ilevel s \<or> ikeep s ?v \<or> ivar_level s ?v = 0"
      using True conjunct1[OF Suc.prems(3)[unfolded removal_ok_def], rule_format, OF Suc.prems(4)] by metis
    ultimately show ?thesis using Suc.prems(3) by (intro exI[of _ True] exI[of _ s]) (simp del: minimize_literal.simps)
  next
    case a: False
    let ?l = "icontrol s ! ivar_level s ?v"
    show ?thesis
    proof (cases "ivar_reason s ?v = No_Reason \<or> ipoison s ?v \<or> ivar_level s ?v = ilevel s \<or> depth = 0 \<and> lv_seen_count ?l < 2 \<or>
        int (ivar_trail s ?v) \<le> lv_seen_trail ?l \<or> depth > minimizedepth (opts E)")
      case True
      then have "minimize_literal (Suc n) E depth s lit = Some (False, s)" using a lok lv by (auto simp: Let_def vec_at_def)
      then show ?thesis using Suc.prems(3) by (intro exI[of _ False] exI[of _ s]) (simp del: minimize_literal.simps)
    next
      case b: False
      have "justified s lit" using Suc.prems(2,4) b by (auto simp: graph_ok_def reasons_ok_def decided_def)
      then obtain p c where c: "ivar_reason s ?v = Reason_Clause p" "istore s p = Some c" "lit \<in> set (cl_lits c)"
        "\<forall>k \<in> set (cl_lits c). k \<noteq> lit \<longrightarrow> - k \<in> set (itrail s)" using a unfolding justified_def by auto
      have step: "\<exists>res s'. minimize_literal n E (depth + 1) s l = Some (res, s') \<and> min_frame s s' \<and> removal_ok F s' \<and> (res \<longrightarrow> kept_implies F s l)"
        if "core_ok R s" "graph_ok F s" "removal_ok F s" "l \<in> set (itrail s)" for s l
        using Suc.IH[OF that, of "depth + 1"] Suc.prems(5,6) b by (simp add: not_less) blast
      from all_removable_ok[where f = "minimize_literal n E (depth + 1)", OF step Suc.prems(1-3) c(4)] obtain res s1 where
        s1: "all_removable (minimize_literal n E (depth + 1)) s lit (cl_lits c) = Some (res, s1)" "min_frame s s1" "removal_ok F s1"
        "res \<longrightarrow> (\<forall>k \<in> set (cl_lits c). k \<noteq> lit \<longrightarrow> kept_implies F s (- k))" by blast
      define s2 where "s2 = (if res then s1\<lparr>iremovable := (iremovable s1)(?v := True)\<rparr> else s1\<lparr>ipoison := (ipoison s1)(?v := True)\<rparr>)"
      have run: "minimize_literal (Suc n) E depth s lit = Some (res, s2\<lparr>iminimized := iminimized s2 @ [lit]\<rparr>)"
      proof -
        have "(depth = 0 \<and> lv_seen_count ?l < 2) = False" using b by blast
        then show ?thesis using a b lok lv c(1,2) s1(1) by (simp add: Let_def vec_at_def s2_def del: de_Morgan_conj)
      qed
      have imp: "kept_implies F s lit" if res using kept_implies_clause[OF Suc.prems(2) c(2)] s1(4) that by blast
      let ?s' = "s2\<lparr>iminimized := iminimized s2 @ [lit]\<rparr>"
      have f2: "min_frame s1 ?s'" by (simp add: min_frame_def quiet_def s2_def)
      then have fr: "min_frame s ?s'" using min_frame_trans[OF s1(2)] by blast
      note e = quiet_eqs[of s ?s'] and e1 = quiet_eqs[of s s1]
      have "removal_ok F ?s'"
        unfolding removal_ok_def
      proof (intro conjI ballI impI allI)
        fix l assume l: "l \<in> set (itrail ?s')" "iremovable ?s' \<bar>l\<bar>"
        have q: "quiet s ?s'" "quiet s s1" using fr s1(2) by (simp_all add: min_frame_def)
        show "kept_implies F ?s' l" "ivar_level ?s' \<bar>l\<bar> \<noteq> ilevel ?s'"
        proof -
          have lt: "l \<in> set (itrail s)" "l \<in> set (itrail s1)" using l(1) e(6)[OF q(1)] e1(6)[OF q(2)] by simp_all
          have "kept_implies F s l \<and> ivar_level s \<bar>l\<bar> \<noteq> ilevel s"
          proof (cases "res \<and> \<bar>l\<bar> = ?v")
            case True
            then have "l = lit" using trail_same_abs[OF tok lt(1) Suc.prems(4)] by simp
            then show ?thesis using imp True b by simp
          next
            case False
            then have "iremovable s1 \<bar>l\<bar>" using l(2) by (auto simp: s2_def split: if_splits)
            then show ?thesis using s1(3) lt(2) min_frame_kept[OF s1(2)] e1(3,7)[OF q(2)] by (simp add: removal_ok_def)
          qed
          then show "kept_implies F ?s' l" "ivar_level ?s' \<bar>l\<bar> \<noteq> ilevel ?s'" using min_frame_kept[OF fr] e(3,7)[OF q(1)] by simp_all
        qed
      next
        fix v assume "ipoison ?s' v \<or> iremovable ?s' v"
        then show "v \<in> abs ` set (iminimized ?s')" using s1(3) by (auto simp: s2_def removal_ok_def split: if_splits)
      qed
      then show ?thesis using run fr imp b by (intro exI[of _ res] exI[of _ ?s']) (simp del: minimize_literal.simps)
    qed
  qed
qed simp


lemma kept_implies_more:
  "kept_implies F s l \<Longrightarrow> itrail s' = itrail s \<Longrightarrow> \<forall>v. ikeep s v \<longrightarrow> ikeep s' v \<Longrightarrow> kept_implies F s' l"
  by (simp add: kept_implies_def)

text \<open>The loop over the clause: what is removed is implied by what is kept, and a literal of the current level is never removed.\<close>

lemma minimize_lits_ok:
  assumes "core_ok R s" "graph_ok F s" "removal_ok F s" "ikeep s = (\<lambda>v. v \<in> abs ` set kept)"
    "\<forall>l \<in> set ls. - l \<in> set (itrail s)" "distinct (map abs (kept @ ls))" "0 < ilevel s"
  shows "\<exists>s' more. minimize_lits E s kept ls = Some (s', kept @ more) \<and> quiet s s' \<and> iseen s' = iseen s \<and> iclause s' = iclause s \<and>
    ianalyzed s' = ianalyzed s \<and> removal_ok F s' \<and> ikeep s' = (\<lambda>v. v \<in> abs ` set (kept @ more)) \<and> set more \<subseteq> set ls \<and> distinct more \<and>
    (\<forall>l \<in> set ls. l \<in> set more \<or> kept_implies F s' (- l) \<and> ivar_level s \<bar>l\<bar> \<noteq> ilevel s)"
  using assms
proof (induction ls arbitrary: s kept)
  case (Cons l ls)
  have lt: "- l \<in> set (itrail s)" using Cons.prems(5) by simp
  have nk: "\<not> ikeep s \<bar>l\<bar>" using Cons.prems(4,6) by auto
  from minimize_literal_ok[OF Cons.prems(1-3) lt, of E "minimizedepth (opts E) + 2" 0] obtain res s1 where
    s1: "minimize_literal (minimizedepth (opts E) + 2) E 0 s (- l) = Some (res, s1)" "min_frame s s1" "removal_ok F s1"
    "res \<longrightarrow> kept_implies F s (- l)" "res \<longrightarrow> ivar_level s \<bar>l\<bar> \<noteq> ilevel s"
    using nk Cons.prems(7) by auto
  have q: "quiet s s1" "ikeep s1 = ikeep s" using s1(2) by (simp_all add: min_frame_def)
  note e = quiet_eqs[OF q(1)]
  have ok1: "core_ok R s1" "graph_ok F s1" using quiet_core[OF q(1) Cons.prems(1)] quiet_graph[OF q(1) Cons.prems(1,2)] by blast+
  have dl: "distinct ls" "\<bar>l\<bar> \<notin> abs ` set ls" using Cons.prems(6) distinct_map[of abs ls] by auto
  show ?case
  proof (cases res)
    case True
    have "\<exists>s' more. minimize_lits E s1 kept ls = Some (s', kept @ more) \<and> quiet s1 s' \<and> iseen s' = iseen s1 \<and> iclause s' = iclause s1 \<and>
      ianalyzed s' = ianalyzed s1 \<and> removal_ok F s' \<and> ikeep s' = (\<lambda>v. v \<in> abs ` set (kept @ more)) \<and> set more \<subseteq> set ls \<and> distinct more \<and>
      (\<forall>l \<in> set ls. l \<in> set more \<or> kept_implies F s' (- l) \<and> ivar_level s1 \<bar>l\<bar> \<noteq> ilevel s1)"
      by (rule Cons.IH[OF ok1 s1(3)]) (use Cons.prems q(2) in \<open>auto simp: e\<close>)
    then obtain s' more where s': "minimize_lits E s1 kept ls = Some (s', kept @ more)" "quiet s1 s'" "iseen s' = iseen s1" "iclause s' = iclause s1"
      "ianalyzed s' = ianalyzed s1" "removal_ok F s'" "ikeep s' = (\<lambda>v. v \<in> abs ` set (kept @ more))" "set more \<subseteq> set ls" "distinct more"
      "\<forall>l \<in> set ls. l \<in> set more \<or> kept_implies F s' (- l) \<and> ivar_level s1 \<bar>l\<bar> \<noteq> ilevel s1" by (elim exE conjE) (rule that; assumption)
    have "kept_implies F s' (- l)"
      by (rule kept_implies_more[where s = s]) (use True s1(4) Cons.prems(4) s'(7) quiet_eqs(6)[OF s'(2)] in \<open>auto simp: e\<close>)
    then show ?thesis using s1 s' True quiet_trans[OF q(1) s'(2)] by (intro exI[of _ s'] exI[of _ more]) (auto simp: e min_frame_def)
  next
    case False
    let ?s = "s1\<lparr>ikeep := (ikeep s1)(\<bar>l\<bar> := True)\<rparr>"
    have q2: "quiet s1 ?s" by (simp add: quiet_def)
    note e2 = quiet_eqs[OF q2]
    have keep: "ikeep ?s = (\<lambda>v. v \<in> abs ` set (kept @ [l]))" using q(2) Cons.prems(4) by (auto simp: fun_eq_iff)
    have "kept_implies F ?s k" if "kept_implies F s1 k" for k by (rule kept_implies_more[OF that]) simp_all
    then have "removal_ok F ?s" using s1(3) by (auto simp: removal_ok_def)
    then have "\<exists>s' more. minimize_lits E ?s (kept @ [l]) ls = Some (s', (kept @ [l]) @ more) \<and> quiet ?s s' \<and> iseen s' = iseen ?s \<and> iclause s' = iclause ?s \<and>
      ianalyzed s' = ianalyzed ?s \<and> removal_ok F s' \<and> ikeep s' = (\<lambda>v. v \<in> abs ` set ((kept @ [l]) @ more)) \<and> set more \<subseteq> set ls \<and> distinct more \<and>
      (\<forall>l \<in> set ls. l \<in> set more \<or> kept_implies F s' (- l) \<and> ivar_level ?s \<bar>l\<bar> \<noteq> ilevel ?s)"
      by (intro Cons.IH[OF quiet_core[OF q2 ok1(1)] quiet_graph[OF q2 ok1]]) (use Cons.prems keep in \<open>auto simp: e\<close>)
    then obtain s' more where s': "minimize_lits E ?s (kept @ [l]) ls = Some (s', (kept @ [l]) @ more)" "quiet ?s s'" "iseen s' = iseen ?s" "iclause s' = iclause ?s"
      "ianalyzed s' = ianalyzed ?s" "removal_ok F s'" "ikeep s' = (\<lambda>v. v \<in> abs ` set ((kept @ [l]) @ more))" "set more \<subseteq> set ls" "distinct more"
      "\<forall>l \<in> set ls. l \<in> set more \<or> kept_implies F s' (- l) \<and> ivar_level ?s \<bar>l\<bar> \<noteq> ilevel ?s" by (elim exE conjE) (rule that; assumption)
    have "l \<notin> set more" using s'(8) dl(2) by auto
    then show ?thesis using s1 s' False quiet_trans[OF quiet_trans[OF q(1) q2] s'(2)]
      by (intro exI[of _ s'] exI[of _ "l # more"]) (auto simp: e min_frame_def)
  qed
qed (auto intro: exI[of _ "[]"])

text \<open>
  What the simplification of a learned clause has to establish: the new clause follows, its literals are
  false, those of the current level are kept, and new ones are from lower levels.
\<close>

definition simplifies :: "int list list \<Rightarrow> ('p, 'h) internal \<Rightarrow> ('p, 'h) internal \<Rightarrow> bool" where
  "simplifies F s s' \<longleftrightarrow> quiet s s' \<and> (abs ` set (ianalyzed s) = {v. iseen s v} \<longrightarrow> abs ` set (ianalyzed s') = {v. iseen s' v}) \<and>
     (\<forall>l \<in> set (iclause s'). - l \<in> set (itrail s) \<and> (l \<in> set (iclause s) \<or> 0 < ivar_level s \<bar>l\<bar> \<and> ivar_level s \<bar>l\<bar> < ilevel s)) \<and>
     distinct (iclause s') \<and> entails F [] (iclause s') \<and> (\<forall>l \<in> set (iclause s). ivar_level s \<bar>l\<bar> = ilevel s \<longrightarrow> l \<in> set (iclause s')) \<and>
     iminimized s' = [] \<and> ikeep s' = (\<lambda>v. False) \<and> ipoison s' = (\<lambda>v. False) \<and> iremovable s' = (\<lambda>v. False)"

text \<open>If what is missing in \<open>d\<close> is implied by kept literals, all of which are in \<open>d\<close>, then \<open>d\<close> follows.\<close>

lemma kept_entailed:
  assumes tok: "trail_ok s" and ent: "entails F [] c" and d: "\<forall>l \<in> set d. - l \<in> set (itrail s)" "\<forall>v. ikeep s v \<longrightarrow> v \<in> abs ` set d"
    and c: "\<forall>l \<in> set c. l \<in> set d \<or> kept_implies F s (- l)"
  shows "entails F [] d"
  unfolding entails_def
proof (intro allI impI)
  fix \<tau> assume mod: "models F \<tau>"
  show "clause_true \<tau> d"
  proof (rule ccontr)
    assume no: "\<not> clause_true \<tau> d"
    have keep: "lit_true \<tau> k" if k: "k \<in> set (itrail s)" "ikeep s \<bar>k\<bar>" for k
    proof -
      obtain l where l: "l \<in> set d" "\<bar>l\<bar> = \<bar>k\<bar>" using k(2) d(2) by (metis imageE)
      have lt: "- l \<in> set (itrail s)" using l(1) d(1) by blast
      have "k = - l" using trail_same_abs[OF tok k(1) lt] l(2) by simp
      moreover have "\<not> lit_true \<tau> l" using no l(1) by (auto simp: clause_true_iff)
      moreover have "l \<noteq> 0" using tok lt by (auto simp: trail_ok_def ilit_ok_def)
      ultimately show ?thesis by simp
    qed
    have "clause_true \<tau> c" using ent mod by (simp add: entails_def)
    then obtain l where l: "l \<in> set c" "lit_true \<tau> l" by (auto simp: clause_true_iff)
    then have "l \<notin> set d" using no by (auto simp: clause_true_iff)
    then have "lit_true \<tau> (- l)" using c l(1) mod keep by (auto simp: kept_implies_def)
    then show False using l(2) lit_true_nonzero[OF l(2)] by simp
  qed
qed

text \<open>Clearing the flags is complete when they are recorded.\<close>

lemma clear_minimized_ok:
  assumes "removal_ok F s" "\<forall>v. ikeep s v \<longrightarrow> v \<in> abs ` set (iclause s)"
  shows "quiet s (clear_minimized_literals s)" "ipoison (clear_minimized_literals s) = (\<lambda>v. False)"
    "iremovable (clear_minimized_literals s) = (\<lambda>v. False)" "ikeep (clear_minimized_literals s) = (\<lambda>v. False)"
    "iminimized (clear_minimized_literals s) = []" "iclause (clear_minimized_literals s) = iclause s"
    "iseen (clear_minimized_literals s) = iseen s" "ianalyzed (clear_minimized_literals s) = ianalyzed s"
  using assms by (auto simp: clear_minimized_literals_def Let_def fun_eq_iff removal_ok_def quiet_def)

lemma minimize_clause_ok:
  assumes ok: "core_ok R s" "graph_ok F s" and L: "0 < ilevel s" and ent: "entails F [] (iclause s)"
    and lits: "\<forall>l \<in> set (iclause s). - l \<in> set (itrail s)" "distinct (map abs (iclause s))"
    and flags: "iminimized s = []" "ikeep s = (\<lambda>v. False)" "ipoison s = (\<lambda>v. False)" "iremovable s = (\<lambda>v. False)"
  shows "\<exists>s'. minimize_clause E s = Some s' \<and> simplifies F s s'"
proof -
  let ?s = "minimize_sort_clause s" let ?c = "sort_key (minimize_trail_positive_rank s) (iclause s)"
  have q1: "quiet s ?s" by (simp add: quiet_def minimize_sort_clause_def)
  note e1 = quiet_eqs[OF q1]
  have f: "iclause ?s = ?c" "iseen ?s = iseen s" "ianalyzed ?s = ianalyzed s" "iminimized ?s = []" "ikeep ?s = (\<lambda>v. False)"
    "ipoison ?s = (\<lambda>v. False)" "iremovable ?s = (\<lambda>v. False)" using flags by (simp_all add: minimize_sort_clause_def)
  have "mset (map abs ?c) = mset (map abs (iclause s))" by simp
  then have dc: "distinct (map abs ?c)" using lits(2) by (metis mset_eq_imp_distinct_iff)
  have "\<exists>s' more. minimize_lits E ?s [] ?c = Some (s', [] @ more) \<and> quiet ?s s' \<and> iseen s' = iseen ?s \<and> iclause s' = iclause ?s \<and>
    ianalyzed s' = ianalyzed ?s \<and> removal_ok F s' \<and> ikeep s' = (\<lambda>v. v \<in> abs ` set ([] @ more)) \<and> set more \<subseteq> set ?c \<and> distinct more \<and>
    (\<forall>l \<in> set ?c. l \<in> set more \<or> kept_implies F s' (- l) \<and> ivar_level ?s \<bar>l\<bar> \<noteq> ilevel ?s)"
    by (rule minimize_lits_ok[OF quiet_core[OF q1 ok(1)] quiet_graph[OF q1 ok]])
      (use lits L dc f in \<open>auto simp: e1 removal_ok_def\<close>)
  then obtain s' more where s': "minimize_lits E ?s [] ?c = Some (s', more)" "quiet ?s s'" "iseen s' = iseen s"
    "ianalyzed s' = ianalyzed s" "removal_ok F s'" "ikeep s' = (\<lambda>v. v \<in> abs ` set more)" "set more \<subseteq> set (iclause s)" "distinct more"
    "\<forall>l \<in> set (iclause s). l \<in> set more \<or> kept_implies F s' (- l) \<and> ivar_level s \<bar>l\<bar> \<noteq> ilevel s" by (auto simp: f e1)
  let ?s2 = "clear_minimized_literals (s'\<lparr>iclause := more\<rparr>)"
  have q2: "quiet s s'" using quiet_trans[OF q1 s'(2)] .
  note e2 = quiet_eqs[OF q2]
  have lt: "\<forall>l \<in> set more. - l \<in> set (itrail s)" using s'(7) lits(1) by blast
  have "trail_ok s" using ok(1) by (simp add: core_ok_def)
  then have "trail_ok s'" by (simp add: trail_ok_def e2)
  then have ent': "entails F [] more" using kept_entailed[OF _ ent, of s' more] lt s'(6,9) by (auto simp: e2)
  have q3: "quiet s' (s'\<lparr>iclause := more\<rparr>)" by (simp add: quiet_def)
  have "removal_ok F (s'\<lparr>iclause := more\<rparr>)" using s'(5) by (simp add: removal_ok_def kept_implies_def)
  note clear = clear_minimized_ok[OF this]
  have keep: "\<forall>v. ikeep (s'\<lparr>iclause := more\<rparr>) v \<longrightarrow> v \<in> abs ` set (iclause (s'\<lparr>iclause := more\<rparr>))" using s'(6) by simp
  note clear = clear[OF keep]
  have qs: "quiet s ?s2" by (rule quiet_trans[OF q2 quiet_trans[OF q3 clear(1)]])
  have "\<forall>l \<in> set more. - l \<in> set (itrail s) \<and> l \<in> set (iclause s)" using lt s'(7) by blast
  moreover have "\<forall>l \<in> set (iclause s). ivar_level s \<bar>l\<bar> = ilevel s \<longrightarrow> l \<in> set more" using s'(9) by blast
  ultimately have "simplifies F s ?s2" using qs ent' s'(3,4,8) clear(2-8) by (simp add: simplifies_def)
  moreover have "minimize_clause E s = Some ?s2" using s'(1) f(1) by (simp add: minimize_clause_def)
  ultimately show ?thesis by blast
qed

end
