(* ===== verification/Solver_Backjump.thy ===== *)
theory Solver_Backjump
  imports Solver_Learn
begin

text \<open>
  From the learned clause to the next state of the search: bumping, the driving clause, the
  backtrack level, the assignment of the flipped UIP and the clean-up keep the invariant.
\<close>

section \<open>Bumping\<close>

definition mark_frame :: "('p, 'h) internal \<Rightarrow> ('p, 'h) internal \<Rightarrow> bool" where
  "mark_frame s s' \<longleftrightarrow> quiet s s' \<and> iclause s' = iclause s \<and> iminimized s' = iminimized s \<and> ikeep s' = ikeep s \<and>
     ipoison s' = ipoison s \<and> iremovable s' = iremovable s \<and>
     (abs ` set (ianalyzed s) = {v. iseen s v} \<longrightarrow> abs ` set (ianalyzed s') = {v. iseen s' v})"

lemma mark_frame_refl [simp]: "mark_frame s s"
  by (simp add: mark_frame_def)

lemma mark_frame_trans: "mark_frame s s1 \<Longrightarrow> mark_frame s1 s2 \<Longrightarrow> mark_frame s s2"
  using quiet_trans by (auto simp: mark_frame_def)

lemma bump_also_reason_literal_ok:
  "ilit_ok s l \<Longrightarrow> \<exists>new s'. bump_also_reason_literal s l = Some (new, s') \<and> mark_frame s s'"
  by (auto simp: bump_also_reason_literal_def mark_frame_def quiet_def)

lemma mfold_total:
  assumes "\<And>s x. I s \<Longrightarrow> x \<in> set xs \<Longrightarrow> \<exists>s'. f s x = Some s' \<and> I s'" "I s"
  shows "\<exists>s'. mfold f s xs = Some s' \<and> I s'"
  using assms
proof (induction xs arbitrary: s)
  case (Cons x xs)
  from Cons.prems obtain s1 where "f s x = Some s1" "I s1" by auto
  with Cons.IH[of s1] Cons.prems(1) show ?case by auto
qed simp

text \<open>The literals of a reason are on the trail, negated but for the implied one.\<close>

lemma reason_lits_ok:
  assumes "core_ok R s" "graph_ok F s" "l \<in> set (itrail s)" "ivar_level s \<bar>l\<bar> \<noteq> 0" "ivar_reason s \<bar>l\<bar> = Reason_Clause p"
  shows "\<exists>c. istore s p = Some c \<and> (\<forall>k \<in> set (cl_lits c). ilit_ok s k \<and> (k \<noteq> l \<longrightarrow> - k \<in> set (itrail s)))"
proof -
  have "justified s l" using assms(2,3,5) by (auto simp: graph_ok_def reasons_ok_def decided_def)
  then obtain c where c: "istore s p = Some c" "\<forall>k \<in> set (cl_lits c). k \<noteq> l \<longrightarrow> - k \<in> set (itrail s)"
    using assms(4,5) unfolding justified_def by auto
  moreover have "clause_ok s c" using assms(1) c(1) by (auto simp: core_ok_def clauses_ok_def)
  ultimately show ?thesis by (auto simp: clause_ok_def)
qed

lemma bump_also_reason_literals_ok:
  assumes "core_ok R s" "graph_ok F s" "l \<in> set (itrail s)"
  shows "\<exists>s'. bump_also_reason_literals (Suc n) s l = Some s' \<and> mark_frame s s'"
  using assms
proof (induction n arbitrary: s l)
  case (0 s l)
  have lok: "ilit_ok s l" using 0 by (auto simp: core_ok_def trail_ok_def)
  show ?case
  proof (cases "ivar_level s \<bar>l\<bar> \<noteq> 0 \<and> (\<exists>p. ivar_reason s \<bar>l\<bar> = Reason_Clause p)")
    case True
    then obtain p where p: "ivar_reason s \<bar>l\<bar> = Reason_Clause p" by blast
    from reason_lits_ok[OF 0 _ p] True obtain c where c: "istore s p = Some c" "\<forall>k \<in> set (cl_lits c). ilit_ok s k" by blast
    let ?f = "\<lambda>s other. if other = l then Some s else do {
        (new, s1) \<leftarrow> bump_also_reason_literal s other;
        if \<not> new \<or> (0::nat) = 0 then Some s1 else bump_also_reason_literals 0 s1 (- other) }"
    have "\<exists>s'. mfold ?f s (cl_lits c) = Some s' \<and> mark_frame s s'"
    proof (rule mfold_total[where I = "mark_frame s"])
      fix t k assume t: "mark_frame s t" "k \<in> set (cl_lits c)"
      have "ilit_ok t k" using t c(2) quiet_eqs(14)[of s t k] by (simp add: mark_frame_def)
      from bump_also_reason_literal_ok[OF this] show "\<exists>s'. ?f t k = Some s' \<and> mark_frame s s'"
        using t(1) mark_frame_trans by (cases "k = l") force+
    qed simp
    then show ?thesis using lok True p c by simp
  next
    case False
    then show ?thesis using lok by (auto split: reason.splits)
  qed
next
  case (Suc n s l)
  have lok: "ilit_ok s l" using Suc.prems by (auto simp: core_ok_def trail_ok_def)
  show ?case
  proof (cases "ivar_level s \<bar>l\<bar> \<noteq> 0 \<and> (\<exists>p. ivar_reason s \<bar>l\<bar> = Reason_Clause p)")
    case True
    then obtain p where p: "ivar_reason s \<bar>l\<bar> = Reason_Clause p" by blast
    from reason_lits_ok[OF Suc.prems _ p] True obtain c where
      c: "istore s p = Some c" "\<forall>k \<in> set (cl_lits c). ilit_ok s k \<and> (k \<noteq> l \<longrightarrow> - k \<in> set (itrail s))" by blast
    let ?f = "\<lambda>s other. if other = l then Some s else do {
        (new, s1) \<leftarrow> bump_also_reason_literal s other;
        if \<not> new \<or> Suc n = 0 then Some s1 else bump_also_reason_literals (Suc n) s1 (- other) }"
    have "\<exists>s'. mfold ?f s (cl_lits c) = Some s' \<and> mark_frame s s'"
    proof (rule mfold_total[where I = "mark_frame s"])
      fix t k assume t: "mark_frame s t" "k \<in> set (cl_lits c)"
      show "\<exists>s'. ?f t k = Some s' \<and> mark_frame s s'"
      proof (cases "k = l")
        case False
        have q: "quiet s t" using t(1) by (simp add: mark_frame_def)
        have k: "ilit_ok t k" "- k \<in> set (itrail t)" using t c(2) False by (simp_all add: quiet_eqs[OF q])
        from bump_also_reason_literal_ok[OF k(1)] obtain new t1 where
          t1: "bump_also_reason_literal t k = Some (new, t1)" "mark_frame t t1" by blast
        have q1: "quiet s t1" using t1(2) quiet_trans[OF q] by (simp add: mark_frame_def)
        have "- k \<in> set (itrail t1)" using c(2) t(2) False by (simp add: quiet_eqs[OF q1])
        from Suc.IH[OF quiet_core[OF q1 Suc.prems(1)] quiet_graph[OF q1 Suc.prems(1,2)] this] obtain t2 where
          "bump_also_reason_literals (Suc n) t1 (- k) = Some t2" "mark_frame t1 t2" by blast
        then show ?thesis using False t1 mark_frame_trans[OF t(1)] mark_frame_trans[OF t1(2)]
          by (cases new) (auto simp del: bump_also_reason_literals.simps)
      qed (use t in simp)
    qed simp
    then show ?thesis using lok True p c by simp
  next
    case False
    then show ?thesis using lok by (auto split: reason.splits)
  qed
qed

definition bumps :: "('p, 'h) config \<Rightarrow> bool" where
  "bumps E \<longleftrightarrow> (\<forall>v ls h. heur_bump (hops E) v ls h \<noteq> None) \<and> 0 < bumpreasondepth (opts E)"

lemma bump_variables_ok:
  assumes E: "bumps E" and ok: "core_ok R s" "graph_ok F s" and lits: "\<forall>l \<in> set (iclause s). - l \<in> set (itrail s)"
  shows "\<exists>s'. bump_variables E s = Some s' \<and> mark_frame s s'"
proof -
  have "\<exists>s'. (if bumpreason (opts E) then bump_also_all_reason_literals E s else Some s) = Some s' \<and> mark_frame s s'"
  proof (cases "bumpreason (opts E)")
    case True
    have "\<exists>s'. bump_also_all_reason_literals E s = Some s' \<and> mark_frame s s'"
      unfolding bump_also_all_reason_literals_def
    proof (rule mfold_total[where I = "mark_frame s"])
      fix t l assume t: "mark_frame s t" "l \<in> set (iclause s)"
      have q: "quiet s t" using t(1) by (simp add: mark_frame_def)
      have "- l \<in> set (itrail t)" using lits t(2) by (simp add: quiet_eqs[OF q])
      moreover obtain n where "bumpreasondepth (opts E) + (if istable t then 1 else 0) = Suc n"
        using E by (cases "bumpreasondepth (opts E)") (auto simp: bumps_def)
      ultimately show "\<exists>s'. bump_also_reason_literals (bumpreasondepth (opts E) + (if istable t then 1 else 0)) t (- l) = Some s' \<and> mark_frame s s'"
        using bump_also_reason_literals_ok[OF quiet_core[OF q ok(1)] quiet_graph[OF q ok], of "- l" n] mark_frame_trans[OF t(1)]
        by (auto simp del: bump_also_reason_literals.simps)
    qed simp
    then show ?thesis using True by simp
  qed simp
  then obtain s1 where s1: "(if bumpreason (opts E) then bump_also_all_reason_literals E s else Some s) = Some s1" "mark_frame s s1" by blast
  obtain h where h: "heur_bump (hops E) (ivals s1) (ianalyzed s1) (iheur s1) = Some h" using E unfolding bumps_def by blast
  have "bump_variables E s = Some (s1\<lparr>iheur := h\<rparr>)" using s1(1) h by (simp add: bump_variables_def)
  moreover have "mark_frame s1 (s1\<lparr>iheur := h\<rparr>)" by (simp add: mark_frame_def quiet_def)
  ultimately show ?thesis using mark_frame_trans[OF s1(2)] by blast
qed


section \<open>A new clause\<close>

text \<open>What the search depends on after a clause has been added and watched.\<close>

definition added :: "clause_data \<Rightarrow> ('p, 'h) internal \<Rightarrow> ('p, 'h) internal \<Rightarrow> bool" where
  "added c s s' \<longleftrightarrow> same_trail s s' \<and> imax_var s' = imax_var s \<and> icontrol s' = icontrol s \<and> ilevel s' = ilevel s \<and>
     ipropagated s' = ipropagated s \<and> iconflict s' = iconflict s \<and> iunsat s' = iunsat s \<and> iassumptions s' = iassumptions s \<and>
     iconstraint s' = iconstraint s \<and> istore s' = (istore s)(ifresh s \<mapsto> c) \<and> ifresh s' = ifresh s + 1 \<and>
     iclauses s' = iclauses s @ [ifresh s] \<and> isearching_lucky_phases s' = isearching_lucky_phases s \<and>
     (\<exists>w0 w1. w_clause w0 = ifresh s \<and> w_clause w1 = ifresh s \<and> w_blit w0 = cl_lits c ! 1 \<and> w_blit w1 = cl_lits c ! 0 \<and>
        w_size w0 = length (cl_lits c) \<and> w_size w1 = length (cl_lits c) \<and>
        iwatches s' = (iwatches s)(cl_lits c ! 0 := iwatches s (cl_lits c ! 0) @ [w0], cl_lits c ! 1 := iwatches s (cl_lits c ! 1) @ [w1]))"

lemma added_watching:
  assumes ok: "watching_ok st W" and fresh: "st p = None" and c: "cl_lits c ! 0 \<noteq> cl_lits c ! 1" "cl_lits c ! 0 \<in> set (cl_lits c)" "cl_lits c ! 1 \<in> set (cl_lits c)"
    and w: "w_clause w0 = p" "w_clause w1 = p" "w_blit w0 = cl_lits c ! 1" "w_blit w1 = cl_lits c ! 0"
      "w_size w0 = length (cl_lits c)" "w_size w1 = length (cl_lits c)"
  shows "watching_ok (st(p \<mapsto> c)) (W(cl_lits c ! 0 := W (cl_lits c ! 0) @ [w0], cl_lits c ! 1 := W (cl_lits c ! 1) @ [w1]))"
    (is "watching_ok ?st ?W")
proof (rule watching_okI)
  have old: "watch_entry_ok ?st l x \<and> w_clause x \<noteq> p" if "x \<in> set (W l)" for l x
  proof -
    have "watch_entry_ok st l x" using ok that by (simp add: watching_ok_def)
    then show ?thesis using fresh by (cases "w_clause x = p") (auto simp: watch_entry_ok_def)
  qed
  have d: "distinct (map w_clause (W l))" for l by (rule watching_ok_distinct[OF ok])
  have notin: "p \<notin> w_clause ` set (W l)" for l using old by blast
  show "distinct (map w_clause (?W l))" for l using d[of l] notin[of l] w(1,2) c(1) by auto
  have new: "watch_entry_ok ?st (cl_lits c ! 0) w0" "watch_entry_ok ?st (cl_lits c ! 1) w1"
    using c w by (auto simp: watch_entry_ok_def)
  show "watch_entry_ok ?st l x" if x: "x \<in> set (?W l)" for l x
  proof (cases "x \<in> set (W l)")
    case False
    then have "l = cl_lits c ! 0 \<and> x = w0 \<or> l = cl_lits c ! 1 \<and> x = w1" using x by (auto split: if_splits)
    then show ?thesis using new by blast
  qed (use old in blast)
  show "q \<in> w_clause ` set (?W (cl_lits e ! i))" if e: "?st q = Some e" "\<not> cl_garbage e" "i = 0 \<or> i = 1" for q e i
  proof (cases "q = p")
    case True
    then show ?thesis using e w c(1) by auto
  next
    case False
    then have "q \<in> w_clause ` set (W (cl_lits e ! i))" using watching_ok_watched[OF ok] e by simp
    then show ?thesis by auto
  qed
qed

lemma added_core:
  assumes core: "core_ok R s" and c: "clause_ok s c" and a: "added c s s'"
  shows "core_ok (insert (ifresh s) R) s'"
proof -
  have ok: "trail_ok s" "control_ok s" "clauses_ok s" "watching_ok (istore s) (iwatches s)" "claims R s" using core by (simp_all add: core_ok_def)
  have fresh: "istore s (ifresh s) = None" using ok(3) by (cases "istore s (ifresh s)") (auto simp: clauses_ok_def)
  have e: "itrail s' = itrail s" "ivals s' = ivals s" "ivar_level s' = ivar_level s" "ivar_trail s' = ivar_trail s" "imax_var s' = imax_var s"
    "icontrol s' = icontrol s" "ilevel s' = ilevel s" "ipropagated s' = ipropagated s" "istore s' = (istore s)(ifresh s \<mapsto> c)" "ifresh s' = ifresh s + 1"
    using a by (simp_all add: added_def same_trail_def)
  note cw = clause_ok_watches[OF c]
  from a obtain w0 w1 where w: "w_clause w0 = ifresh s" "w_clause w1 = ifresh s" "w_blit w0 = cl_lits c ! 1" "w_blit w1 = cl_lits c ! 0"
    "w_size w0 = length (cl_lits c)" "w_size w1 = length (cl_lits c)"
    "iwatches s' = (iwatches s)(cl_lits c ! 0 := iwatches s (cl_lits c ! 0) @ [w0], cl_lits c ! 1 := iwatches s (cl_lits c ! 1) @ [w1])"
    unfolding added_def by blast
  have "watching_ok (istore s') (iwatches s')" unfolding w(7) e(9) by (rule added_watching[OF ok(4) fresh cw(4,1,2) w(1-6)])
  moreover have "trail_ok s'" using ok(1) by (simp add: trail_ok_def e ilit_ok_def)
  moreover have "control_ok s'" using ok(2) by (simp add: control_ok_def e trail_start_def)
  moreover have "clauses_ok s'" using ok(3) c by (auto simp: clauses_ok_def clause_ok_def e ilit_ok_def less_Suc_eq)
  moreover have "claims (insert (ifresh s) R) s'"
    using ok(5) by (auto simp: claims_def both_processed_def rescued_def watch_height_def trail_start_def e)
  ultimately show ?thesis by (simp add: core_ok_def)
qed

text \<open>The formula may grow from \<open>F\<close> to \<open>G\<close> with the clause, if it demands what is new in \<open>G\<close>.\<close>

lemma added_graph_grow:
  assumes core: "core_ok R s" and g: "graph_ok F s" and a: "added c s s'" and ent: "entails G [] (cl_lits c)" and G: "\<And>\<tau>. models G \<tau> \<Longrightarrow> models F \<tau>"
    "\<And>\<tau>. models F \<tau> \<Longrightarrow> \<forall>l \<in> set (itrail s). ivar_level s \<bar>l\<bar> = 0 \<longrightarrow> lit_true \<tau> l \<Longrightarrow>
       \<not> cl_garbage c \<and> \<not> cl_redundant c \<longrightarrow> clause_true \<tau> (cl_lits c) \<Longrightarrow> models G \<tau>"
  shows "graph_ok G s'"
proof -
  have ok: "clauses_ok s" using core by (simp add: core_ok_def)
  have fresh: "istore s (ifresh s) = None" using ok by (cases "istore s (ifresh s)") (auto simp: clauses_ok_def)
  have e: "itrail s' = itrail s" "ivals s' = ivals s" "ivar_level s' = ivar_level s" "ivar_trail s' = ivar_trail s" "imax_var s' = imax_var s"
    "icontrol s' = icontrol s" "ilevel s' = ilevel s" "istore s' = (istore s)(ifresh s \<mapsto> c)" "iunsat s' = iunsat s" "ivar_reason s' = ivar_reason s"
    "iclauses s' = iclauses s @ [ifresh s]" using a by (simp_all add: added_def same_trail_def)
  have "justified s' l" if "justified s l" for l
  proof (cases "ivar_level s \<bar>l\<bar> = 0")
    case False
    with that obtain p d where d: "ivar_reason s \<bar>l\<bar> = Reason_Clause p" "istore s p = Some d" "l \<in> set (cl_lits d)"
      "\<forall>k \<in> set (cl_lits d). k \<noteq> l \<longrightarrow> - k \<in> set (itrail s) \<and> ivar_trail s \<bar>k\<bar> < ivar_trail s \<bar>l\<bar> \<and> ivar_level s \<bar>k\<bar> \<le> ivar_level s \<bar>l\<bar>"
      unfolding justified_def by auto
    moreover have "p \<noteq> ifresh s" using d(2) fresh by auto
    ultimately show ?thesis using False unfolding justified_def e by auto
  qed (use that in \<open>simp add: justified_def e\<close>)
  moreover have "decided s' l = decided s l" for l by (simp add: decided_def trail_start_def e)
  ultimately have "reasons_ok s'" using g by (auto simp: graph_ok_def reasons_ok_def e)
  moreover have "follows G s'"
  proof -
    have fo: "entails F [] d \<Longrightarrow> entails G [] d" for d using G(1) by (simp add: entails_def)
    show ?thesis using g ent fo by (auto simp: graph_ok_def follows_def e)
  qed
  moreover have "demands s' G"
    unfolding demands_def
  proof (intro allI impI)
    fix \<tau> assume st: "\<forall>p c. istore s' p = Some c \<and> \<not> cl_garbage c \<and> \<not> cl_redundant c \<longrightarrow> clause_true \<tau> (cl_lits c)"
      and tr: "\<forall>l \<in> set (itrail s'). ivar_level s' \<bar>l\<bar> = 0 \<longrightarrow> lit_true \<tau> l"
    have "clause_true \<tau> (cl_lits d)" if "istore s p = Some d" "\<not> cl_garbage d" "\<not> cl_redundant d" for p d
      using st[rule_format, of p d] that fresh by (cases "p = ifresh s") (auto simp: e)
    then have "models F \<tau>" using g tr unfolding graph_ok_def demands_def e by blast
    moreover have "\<not> cl_garbage c \<and> \<not> cl_redundant c \<longrightarrow> clause_true \<tau> (cl_lits c)" using st[rule_format, of "ifresh s" c] by (simp add: e)
    ultimately show "models G \<tau>" using G(2)[of \<tau>] tr unfolding e by blast
  qed
  ultimately show ?thesis using g by (auto simp: graph_ok_def e)
qed

lemma added_graph: "core_ok R s \<Longrightarrow> graph_ok F s \<Longrightarrow> added c s s' \<Longrightarrow> entails F [] (cl_lits c) \<Longrightarrow> graph_ok F s'"
  by (rule added_graph_grow)

text \<open>\<^verbatim>\<open>new_clause\<close> followed by \<^verbatim>\<open>watch_clause\<close>.\<close>

lemma watch_new_clause:
  assumes c: "2 \<le> length (iclause s)" "distinct (map abs (iclause s))" "\<forall>l \<in> set (iclause s). ilit_ok s l"
    and new: "new_solver_clause E s red glue = (s1, p)" and t: "s2 = s1 \<or> s2 = trace s1 ev"
  shows "\<exists>s' c. watch_clause s2 p = Some s' \<and> p = ifresh s \<and> added c s s' \<and> clause_ok s c \<and> cl_lits c = iclause s \<and>
    cl_redundant c = red \<and> \<not> cl_garbage c \<and> same_marks s s' \<and> istable s' = istable s \<and> iheur s' = iheur s"
proof -
  obtain a b r where abr: "iclause s = a # b # r" using c(1) by (cases "iclause s"; cases "tl (iclause s)") auto
  have ab: "a \<noteq> b" "ilit_ok s a" "ilit_ok s b" using c(2,3) abr by auto
  define d where "d = \<lparr>cl_redundant = red, cl_garbage = False, cl_keep = (\<not> red \<or> min glue (length (iclause s)) \<le> reducetier1glue (opts E)),
    cl_hyper = False, cl_used = 0, cl_glue = min glue (length (iclause s)), cl_pos = 2, cl_lits = iclause s\<rparr>"
  have s1: "s1 = s\<lparr>istore := (istore s)(ifresh s \<mapsto> d), iclauses := iclauses s @ [ifresh s], ifresh := ifresh s + 1\<rparr>" "p = ifresh s"
    using new by (auto simp: new_solver_clause_def Let_def d_def)
  have dl: "cl_lits d = a # b # r" "clause_ok s d" using c abr by (simp_all add: d_def clause_ok_def)
  define w0 w1 where "w0 = \<lparr>w_clause = p, w_blit = b, w_size = length (iclause s)\<rparr>" and "w1 = \<lparr>w_clause = p, w_blit = a, w_size = length (iclause s)\<rparr>"
  have s2: "istore s2 p = Some d" "ilit_ok s2 a" "ilit_ok s2 b" "iwatches s2 = iwatches s" using t ab s1 by (auto simp: trace_def ilit_ok_def)
  have run: "watch_clause s2 p = Some (s2\<lparr>iwatches := (iwatches s)(a := iwatches s a @ [w0], b := iwatches s b @ [w1])\<rparr>)"
    using s2 ab(1) dl(1) abr by (simp add: watch_clause_def watch_literal_def vec_at_def ilit_ok_def w0_def w1_def)
  let ?s = "s2\<lparr>iwatches := (iwatches s)(a := iwatches s a @ [w0], b := iwatches s b @ [w1])\<rparr>"
  have "\<exists>w0 w1. w_clause w0 = ifresh s \<and> w_clause w1 = ifresh s \<and> w_blit w0 = cl_lits d ! 1 \<and> w_blit w1 = cl_lits d ! 0 \<and>
      w_size w0 = length (cl_lits d) \<and> w_size w1 = length (cl_lits d) \<and>
      iwatches ?s = (iwatches s)(cl_lits d ! 0 := iwatches s (cl_lits d ! 0) @ [w0], cl_lits d ! 1 := iwatches s (cl_lits d ! 1) @ [w1])"
    using s1(2) dl(1) abr by (intro exI[of _ w0] exI[of _ w1]) (simp add: w0_def w1_def)
  then have "added d s ?s" unfolding added_def using t s1 by (auto simp: trace_def same_trail_def)
  moreover have "same_marks s ?s" "istable ?s = istable s" "iheur ?s = iheur s" using t s1 by (auto simp: same_marks_def trace_def)
  ultimately show ?thesis using run s1(2) dl abr by (intro exI[of _ ?s] exI[of _ d]) (simp add: d_def)
qed


section \<open>Clauses watched on the current level\<close>

definition high :: "('p, 'h) internal \<Rightarrow> nat set" where
  "high s = {p. \<exists>c. istore s p = Some c \<and> trail_start s (ilevel s) \<le> watch_height s c}"

lemma level_position:
  assumes "trail_ok s" "control_ok s" "l \<in> set (itrail s)" "ivar_level s \<bar>l\<bar> = ilevel s"
  shows "trail_start s (ilevel s) \<le> ivar_trail s \<bar>l\<bar>"
proof (rule ccontr)
  assume "\<not> trail_start s (ilevel s) \<le> ivar_trail s \<bar>l\<bar>"
  then have "ivar_level s \<bar>itrail s ! ivar_trail s \<bar>l\<bar>\<bar> < ilevel s" using assms(2) by (simp add: control_ok_def)
  then show False using trail_ok_position(2)[OF assms(1,3)] assms(4) by simp
qed

lemma high_watch:
  assumes "trail_ok s" "control_ok s" "istore s p = Some c" "i = 0 \<or> i = 1"
    "- (cl_lits c ! i) \<in> set (itrail s)" "ivar_level s \<bar>cl_lits c ! i\<bar> = ilevel s"
  shows "p \<in> high s"
  using level_position[OF assms(1,2,5)] assms(3,4,6) by (auto simp: high_def watch_height_def)

lemma backtracked_core_except:
  assumes core: "core_ok R s" and R: "R \<subseteq> Q \<union> high s" and n: "n < ilevel s" and b: "backtracked n s s'"
  shows "core_ok Q s'"
proof -
  have parts: "trail_ok s" "control_ok s" "clauses_ok s" "claims R s" "watching_ok (istore s) (iwatches s)"
    using core by (simp_all add: core_ok_def)
  have "claims Q s'" by (rule backtracked_claims[OF parts(1-4) n b]) (use R in \<open>auto simp: high_def\<close>)
  moreover have "clauses_ok s'" using parts(3) b by (simp add: backtracked_def Let_def clauses_ok_def clause_ok_def ilit_ok_def)
  ultimately show ?thesis using backtracked_trail_ok[OF parts(1,2) n b] backtracked_control_ok[OF parts(1,2) n b] parts(5) b
    by (simp add: core_ok_def backtracked_def Let_def)
qed

lemmas backtracked_core = backtracked_core_except[where Q = "{}", unfolded Un_empty_left]

section \<open>The driving clause\<close>

lemma rank_levels:
  assumes "analyze_trail_negative_rank s a \<le> analyze_trail_negative_rank s b" "ivar_trail s \<bar>a\<bar> < 2 ^ 32"
  shows "ivar_level s \<bar>b\<bar> \<le> ivar_level s \<bar>a\<bar>"
proof (rule ccontr)
  assume "\<not> ?thesis"
  then have "int (ivar_level s \<bar>a\<bar>) + 1 \<le> int (ivar_level s \<bar>b\<bar>)" by simp
  then have "(int (ivar_level s \<bar>a\<bar>) + 1) * 2 ^ 32 \<le> int (ivar_level s \<bar>b\<bar>) * 2 ^ 32" by simp
  then show False using assms by (simp add: analyze_trail_negative_rank_def)
qed

lemma trail_positions_small:
  assumes "trail_ok s" "imax_var s \<le> INT_MAX" "l \<in> set (itrail s)"
  shows "ivar_trail s \<bar>l\<bar> < 2 ^ 32"
proof -
  have "int (ivar_trail s \<bar>l\<bar>) < max 0 (imax_var s)" using trail_ok_position(1)[OF assms(1,3)] trail_bound[OF assms(1)] by linarith
  then show ?thesis using assms(2) by (simp add: INT_MAX_def)
qed

text \<open>The flipped UIP comes first, then a literal of the highest level among the others.\<close>

lemma driving_order:
  fixes s :: "('p, 'h) internal"
  defines "cs \<equiv> sort_key (analyze_trail_negative_rank s) (iclause s)"
  assumes ok: "trail_ok s" "imax_var s \<le> INT_MAX" and len: "2 \<le> length (iclause s)" and d: "distinct (iclause s)"
    and lits: "\<forall>l \<in> set (iclause s). - l \<in> set (itrail s)"
    and u: "u \<in> set (iclause s)" "ivar_level s \<bar>u\<bar> = ilevel s" "\<forall>l \<in> set (iclause s). l \<noteq> u \<longrightarrow> ivar_level s \<bar>l\<bar> < ilevel s"
  shows "cs ! 0 = u" "\<forall>l \<in> set cs. l \<noteq> u \<longrightarrow> ivar_level s \<bar>l\<bar> \<le> ivar_level s \<bar>cs ! 1\<bar>" "ivar_level s \<bar>cs ! 1\<bar> < ilevel s" "cs ! 1 \<noteq> u"
proof -
  have cs: "set cs = set (iclause s)" "length cs = length (iclause s)" "distinct cs" "sorted (map (analyze_trail_negative_rank s) cs)"
    using d by (simp_all add: cs_def)
  obtain a b r where abr: "cs = a # b # r" using len cs(2) by (cases cs; cases "tl cs") auto
  have small: "ivar_trail s \<bar>l\<bar> < 2 ^ 32" if "l \<in> set cs" for l
    using trail_positions_small[OF ok, of "- l"] lits that cs(1) by simp
  have "ivar_level s \<bar>l\<bar> \<le> ivar_level s \<bar>a\<bar>" if "l \<in> set cs" for l
    using rank_levels[of s a l] cs(4) that small[of a] unfolding abr by auto
  then have "\<not> ivar_level s \<bar>a\<bar> < ilevel s" using u(1,2) cs(1) by fastforce
  then have a: "a = u" using u(3) abr cs(1) by auto
  then show "cs ! 0 = u" using abr by simp
  have "b \<noteq> u" using cs(3) abr a by auto
  then show "cs ! 1 \<noteq> u" "ivar_level s \<bar>cs ! 1\<bar> < ilevel s" using u(3) abr cs(1) by auto
  show "\<forall>l \<in> set cs. l \<noteq> u \<longrightarrow> ivar_level s \<bar>l\<bar> \<le> ivar_level s \<bar>cs ! 1\<bar>"
    using rank_levels[of s b] cs(4) small[of b] a unfolding abr by auto
qed

text \<open>The state with which backjumping starts: the simplified first UIP clause with the flipped UIP \<open>u\<close>.\<close>

definition uip_clause :: "int list list \<Rightarrow> ('p, 'h) internal \<Rightarrow> int \<Rightarrow> bool" where
  "uip_clause F s u \<longleftrightarrow> 0 < ilevel s \<and> distinct (iclause s) \<and> (\<forall>l \<in> set (iclause s). - l \<in> set (itrail s) \<and> 0 < ivar_level s \<bar>l\<bar>) \<and> entails F [] (iclause s) \<and>
     u \<in> set (iclause s) \<and> ivar_level s \<bar>u\<bar> = ilevel s \<and> (\<forall>l \<in> set (iclause s). l \<noteq> u \<longrightarrow> ivar_level s \<bar>l\<bar> < ilevel s)"

lemma trail_lits_distinct:
  assumes "trail_ok s" "distinct c" "\<forall>l \<in> set c. - l \<in> set (itrail s)"
  shows "distinct (map abs c)" "\<forall>l \<in> set c. ilit_ok s l"
proof -
  have "inj_on abs (set c)"
    by (rule inj_onI) (use trail_same_abs[OF assms(1)] assms(3) in \<open>metis abs_minus_cancel neg_equal_iff_equal\<close>)
  then show "distinct (map abs c)" using assms(2) by (simp add: distinct_map)
  show "\<forall>l \<in> set c. ilit_ok s l" using assms(1,3) unfolding trail_ok_def by (metis ilit_ok_uminus)
qed

lemma new_driving_clause_unit:
  "iclause s = [u] \<Longrightarrow> new_driving_clause E s glue = Some (s\<lparr>iiterating := True\<rparr>, None, 0)"
  by (simp add: new_driving_clause_def)

lemma new_driving_clause_ok:
  assumes core: "core_ok R s" and g: "graph_ok F s" and R: "R \<subseteq> high s" and u: "uip_clause F s u" and len: "2 \<le> length (iclause s)"
  shows "\<exists>s' p c jump. new_driving_clause E s glue = Some (s', Some p, jump) \<and> core_ok (insert p R) s' \<and> graph_ok F s' \<and> insert p R \<subseteq> high s' \<and>
    istore s' p = Some c \<and> set (cl_lits c) = set (iclause s) \<and> cl_lits c ! 0 = u \<and> jump < ilevel s \<and>
    (\<forall>l \<in> set (cl_lits c). l \<noteq> u \<longrightarrow> ivar_level s \<bar>l\<bar> \<le> jump) \<and> same_trail s s' \<and> ilevel s' = ilevel s \<and>
    iunsat s' = iunsat s \<and> iseen s' = iseen s \<and> ianalyzed s' = ianalyzed s \<and> iminimized s' = iminimized s \<and> ikeep s' = ikeep s \<and>
    ipoison s' = ipoison s \<and> iremovable s' = iremovable s \<and> imax_var s' = imax_var s \<and> iconflict s' = iconflict s \<and>
    iassumptions s' = iassumptions s \<and> iconstraint s' = iconstraint s \<and> imarks s' = imarks s"
proof -
  let ?s1 = "s\<lparr>iclause := sort_key (analyze_trail_negative_rank s) (iclause s)\<rparr>"
  have ok: "trail_ok s" "control_ok s" "clauses_ok s" "imax_var s \<le> INT_MAX" using core g by (simp_all add: core_ok_def graph_ok_def)
  have uc: "distinct (iclause s)" "\<forall>l \<in> set (iclause s). - l \<in> set (itrail s)" "u \<in> set (iclause s)" "ivar_level s \<bar>u\<bar> = ilevel s"
    "\<forall>l \<in> set (iclause s). l \<noteq> u \<longrightarrow> ivar_level s \<bar>l\<bar> < ilevel s" "entails F [] (iclause s)" using u by (simp_all add: uip_clause_def)
  note o = driving_order[OF ok(1,4) len uc(1-5)]
  have q1: "quiet s ?s1" by (simp add: quiet_def)
  have c1: "core_ok R ?s1" "graph_ok F ?s1" using quiet_core[OF q1 core] quiet_graph[OF q1 core g] by blast+
  have ic: "set (iclause ?s1) = set (iclause s)" "2 \<le> length (iclause ?s1)" "distinct (iclause ?s1)" "entails F [] (iclause ?s1)"
    using len uc(1,6) entails_same_set[of "iclause ?s1" "iclause s" F "[]"] by simp_all
  have t1: "trail_ok ?s1" using c1(1) by (simp add: core_ok_def)
  note dl = trail_lits_distinct[OF t1 ic(3)]
  have lits1: "\<forall>l \<in> set (iclause ?s1). - l \<in> set (itrail ?s1)" using uc(2) by simp
  obtain s2 p where new: "new_solver_clause E ?s1 True glue = (s2, p)" by fastforce
  from watch_new_clause[OF ic(2) dl(1,2)[OF lits1] new, of "trace s2 (Derived (iclause s2))"] obtain s3 c where
    s3: "watch_clause (trace s2 (Derived (iclause s2))) p = Some s3" "p = ifresh ?s1" "added c ?s1 s3" "clause_ok ?s1 c"
    "cl_lits c = iclause ?s1" "same_marks ?s1 s3" by blast
  let ?c = "c\<lparr>cl_used := 1 + (if glue \<le> reducetier2glue (opts E) then 1 else 0)\<rparr>" let ?s = "s3\<lparr>istore := (istore s3)(p \<mapsto> ?c)\<rparr>"
  have core3: "core_ok (insert p R) s3" using added_core[OF c1(1) s3(4,3)] s3(2) by simp
  have ent: "entails F [] (cl_lits c)" unfolding s3(5) by (rule ic(4))
  have g3: "graph_ok F s3" by (rule added_graph[OF c1 s3(3) ent])
  have p3: "istore s3 p = Some c" using s3(2,3) by (simp add: added_def)
  have q: "quiet s3 ?s" by (rule quiet_set_clause[OF p3]) (simp add: same_lits_def)
  have okk: "core_ok (insert p R) ?s" "graph_ok F ?s" using quiet_core[OF q core3] quiet_graph[OF q core3 g3] by blast+
  have eqs: "same_trail s ?s" "ilevel ?s = ilevel s" "iunsat ?s = iunsat s" "imax_var ?s = imax_var s" "iconflict ?s = iconflict s"
    "iassumptions ?s = iassumptions s" "iconstraint ?s = iconstraint s" "icontrol ?s = icontrol s"
    using s3(3) by (simp_all add: added_def same_trail_def)
  have u0: "cl_lits ?c ! 0 = u" using o(1) s3(5) by simp
  have "p \<in> high ?s"
  proof (rule high_watch[where i = 0])
    show "trail_ok ?s" "control_ok ?s" using okk(1) by (simp_all add: core_ok_def)
    show "istore ?s p = Some ?c" by simp
    show "- (cl_lits ?c ! 0) \<in> set (itrail ?s)" "ivar_level ?s \<bar>cl_lits ?c ! 0\<bar> = ilevel ?s"
      unfolding u0 using uc(2,3,4) eqs(1,2) by (simp_all add: same_trail_def)
  qed simp
  moreover have "R \<subseteq> high ?s"
  proof
    fix r assume "r \<in> R"
    then obtain d where d: "istore s r = Some d" "trail_start s (ilevel s) \<le> watch_height s d" using R by (auto simp: high_def)
    then have "r \<noteq> ifresh s" using ok(3) by (auto simp: clauses_ok_def)
    then have "istore ?s r = Some d" using d(1) s3(2,3) by (simp add: added_def)
    then show "r \<in> high ?s" using d(2) eqs by (simp add: high_def watch_height_def trail_start_def same_trail_def)
  qed
  ultimately have "insert p R \<subseteq> high ?s" by simp
  moreover have run: "new_driving_clause E s glue = Some (?s, Some p, ivar_level s \<bar>iclause ?s1 ! 1\<bar>)"
  proof -
    obtain a b r where abr: "iclause s = a # b # r" using len by (cases "iclause s"; cases "tl (iclause s)") auto
    have "iclause ?s1 ! 1 \<in> set (iclause ?s1)" using ic(2) by (intro nth_mem) simp
    then have "var_level ?s1 (iclause ?s1 ! 1) = Some (ivar_level s \<bar>iclause ?s1 ! 1\<bar>)" using dl(2)[OF lits1] by (simp add: var_level_def)
    moreover have "new_learned_redundant_clause E ?s1 glue = Some (s3, p)" using s3(1) new by (simp add: new_learned_redundant_clause_def)
    ultimately show ?thesis using p3 unfolding new_driving_clause_def abr list.case by (simp add: Let_def abr[symmetric])
  qed
  moreover have "\<forall>l \<in> set (cl_lits ?c). l \<noteq> u \<longrightarrow> ivar_level s \<bar>l\<bar> \<le> ivar_level s \<bar>iclause ?s1 ! 1\<bar>"
    using o(2) s3(5) by simp
  moreover have "set (cl_lits ?c) = set (iclause s)" using s3(5) ic(1) by simp
  moreover have "iseen ?s = iseen s" "ianalyzed ?s = ianalyzed s" "iminimized ?s = iminimized s" "ikeep ?s = ikeep s"
    "ipoison ?s = ipoison s" "iremovable ?s = iremovable s" "imarks ?s = imarks s" using s3(6) by (simp_all add: same_marks_def)
  ultimately show ?thesis using okk eqs u0 o(3)
    by (intro exI[of _ ?s] exI[of _ p] exI[of _ ?c] exI[of _ "ivar_level s \<bar>iclause ?s1 ! 1\<bar>"]) simp
qed

end
