(* ===== verification/Solver_Shrink.thy ===== *)
theory Solver_Shrink
  imports Solver_Backjump
begin

text \<open>
  Shrinking of learned clauses is correct: the literals of a level are replaced by one that implies
  them, or minimized, and the resulting clause follows from the formula.
\<close>

section \<open>Literals that are resolved\<close>

text \<open>The reason of a literal that is not the decision of its level.\<close>

lemma reason_at_level:
  assumes core: "core_ok R s" and g: "graph_ok F s" and d: "0 < d"
    and u: "u \<in> set (itrail s)" "ivar_level s \<bar>u\<bar> = d"
    and l: "l \<in> set (itrail s)" "ivar_level s \<bar>l\<bar> = d" "ivar_trail s \<bar>l\<bar> < ivar_trail s \<bar>u\<bar>"
  shows "\<exists>p c. ivar_reason s \<bar>u\<bar> = Reason_Clause p \<and> istore s p = Some c \<and> u \<in> set (cl_lits c) \<and>
    (\<forall>k \<in> set (cl_lits c). k \<noteq> u \<longrightarrow> - k \<in> set (itrail s) \<and> ivar_trail s \<bar>k\<bar> < ivar_trail s \<bar>u\<bar> \<and> ivar_level s \<bar>k\<bar> \<le> d)"
proof -
  have ok: "trail_ok s" "control_ok s" using core by (simp_all add: core_ok_def)
  have le: "d \<le> ilevel s" using ok(1) u by (auto simp: trail_ok_def)
  have "\<not> decided s u"
  proof
    assume "decided s u"
    then have "ivar_trail s \<bar>u\<bar> = trail_start s d" using u(2) by (simp add: decided_def)
    then have "ivar_level s \<bar>itrail s ! ivar_trail s \<bar>l\<bar>\<bar> < d" using ok(2) l(3) le d by (simp add: control_ok_def)
    then show False using trail_ok_position(2)[OF ok(1) l(1)] l(2) by simp
  qed
  then have "justified s u" using g u(1) by (auto simp: graph_ok_def reasons_ok_def)
  then show ?thesis using u(2) d unfolding justified_def by auto
qed

text \<open>The negation of \<open>l\<close> follows by a clause whose other literals are false for kept literals or are in \<open>M\<close>.\<close>

definition supported :: "int list list \<Rightarrow> ('p, 'h) internal \<Rightarrow> int set \<Rightarrow> int \<Rightarrow> bool" where
  "supported F s M l \<longleftrightarrow> (\<exists>p c. istore s p = Some c \<and>
     (\<forall>k \<in> set (cl_lits c). k \<noteq> - l \<longrightarrow> kept_implies F s (- k) \<or> k \<in> M \<and> ivar_trail s \<bar>k\<bar> < ivar_trail s \<bar>l\<bar>))"

lemma supported_mono: "supported F s M l \<Longrightarrow> M \<subseteq> M' \<Longrightarrow> supported F s M' l"
  unfolding supported_def by blast

text \<open>When all but one are supported, this one implies the others.\<close>

lemma supported_implied:
  assumes g: "graph_ok F s" and u: "kept_implies F s (- u)" and M: "\<forall>l \<in> M. l = u \<or> supported F s M l"
  shows "l \<in> M \<Longrightarrow> kept_implies F s (- l)"
proof (induction "ivar_trail s \<bar>l\<bar>" arbitrary: l rule: less_induct)
  case less
  show ?case
  proof (cases "l = u")
    case False
    then obtain p c where c: "istore s p = Some c"
      "\<forall>k \<in> set (cl_lits c). k \<noteq> - l \<longrightarrow> kept_implies F s (- k) \<or> k \<in> M \<and> ivar_trail s \<bar>k\<bar> < ivar_trail s \<bar>l\<bar>"
      using M less.prems unfolding supported_def by blast
    show ?thesis by (rule kept_implies_clause[OF g c(1)]) (use c(2) less.hyps in blast)
  qed (use u in simp)
qed

lemma supported_kept:
  assumes sup: "supported F s M l" and q: "quiet s s'" and keep: "\<forall>v. ikeep s v \<longrightarrow> ikeep s' v"
  shows "supported F s' M l"
proof -
  note e = quiet_eqs[OF q]
  obtain p c where c: "istore s p = Some c"
    "\<forall>k \<in> set (cl_lits c). k \<noteq> - l \<longrightarrow> kept_implies F s (- k) \<or> k \<in> M \<and> ivar_trail s \<bar>k\<bar> < ivar_trail s \<bar>l\<bar>"
    using sup unfolding supported_def by blast
  obtain c' where "istore s' p = Some c'" "cl_lits c' = cl_lits c" using quiet_store[OF q c(1)] by (auto simp: same_lits_def)
  then show ?thesis unfolding supported_def e using c(2) kept_implies_more[OF _ e(6) keep] by metis
qed

section \<open>The marked literals and the open ones\<close>

definition shrinking :: "int list list \<Rightarrow> ('p, 'h) internal \<Rightarrow> nat \<Rightarrow> ('p, 'h) shrinker \<Rightarrow> bool" where
  "shrinking F s0 d sh \<longleftrightarrow> min_frame s0 (sh_internal sh) \<and> removal_ok F (sh_internal sh) \<and>
     sh_flag sh = (\<lambda>v. v \<in> abs ` set (sh_lits sh)) \<and> (\<forall>l \<in> set (sh_lits sh). - l \<in> set (itrail s0) \<and> ivar_level s0 \<bar>l\<bar> = d)"

text \<open>\<open>Q\<close> are the marked literals that are open: those in the radix heap, or those not yet passed on the way down the trail.\<close>

definition distance :: "('p, 'h) internal \<Rightarrow> nat \<Rightarrow> int \<Rightarrow> 32 word" where
  "distance s m l = word_of_nat (m - ivar_trail s \<bar>l\<bar>)"

definition reap_clean :: "('p, 'h) config \<Rightarrow> reap \<Rightarrow> bool" where
  "reap_clean E r \<longleftrightarrow> (if shrinkreap (opts E) then reap_ok r else r = new_reap)"

definition queue_ok :: "('p, 'h) config \<Rightarrow> ('p, 'h) internal \<Rightarrow> nat \<Rightarrow> int list \<Rightarrow> reap \<Rightarrow> nat \<Rightarrow> int set \<Rightarrow> bool" where
  "queue_ok E s m2 ls r m Q \<longleftrightarrow> reap_clean E r \<and> Q \<subseteq> set ls \<and> m < length (itrail s) \<and> m2 < length (itrail s) \<and>
     (if shrinkreap (opts E) then reap_elems r = image_mset (distance s m2) (mset_set Q) \<and> m = m2 \<and> (\<forall>l \<in> Q. ivar_trail s \<bar>l\<bar> \<le> m2)
      else Q = {l \<in> set ls. ivar_trail s \<bar>l\<bar> \<le> m})"

text \<open>The trail positions that may still be pushed.\<close>

definition room :: "('p, 'h) config \<Rightarrow> nat \<Rightarrow> reap \<Rightarrow> nat \<Rightarrow> nat \<Rightarrow> bool" where
  "room E m2 r m pos \<longleftrightarrow> (if shrinkreap (opts E) then pos \<le> m2 \<and> last_deleted r \<le> word_of_nat (m2 - pos) else pos \<le> m)"

lemma queue_ok_finite: "queue_ok E s m2 ls r m Q \<Longrightarrow> finite Q"
  using finite_subset[of Q "set ls"] by (simp add: queue_ok_def)

lemma queue_ok_subset: "queue_ok E s m2 ls r m Q \<Longrightarrow> Q \<subseteq> set ls"
  by (simp add: queue_ok_def)

lemma unat_below_32: "n < 2 ^ 32 \<Longrightarrow> unat (word_of_nat n :: 32 word) = n"
  by (simp add: unat_of_nat)

lemma trail_small:
  assumes "trail_ok s" "imax_var s \<le> INT_MAX"
  shows "length (itrail s) < 2 ^ 32"
  using trail_bound[OF assms(1)] assms(2) by (simp add: INT_MAX_def)

lemma queue_push:
  assumes q: "queue_ok E s m2 ls r m Q" and lit: "lit \<notin> set ls" and rm: "room E m2 r m (ivar_trail s \<bar>lit\<bar>)"
  shows "if shrinkreap (opts E)
    then \<exists>r'. reap_push r (word_of_int (int m2 - int (ivar_trail s \<bar>lit\<bar>))) = Some r' \<and> queue_ok E s m2 (ls @ [lit]) r' m (insert lit Q) \<and>
      last_deleted r' = last_deleted r
    else queue_ok E s m2 (ls @ [lit]) r m (insert lit Q)"
proof (cases "shrinkreap (opts E)")
  case True
  have le: "ivar_trail s \<bar>lit\<bar> \<le> m2" "last_deleted r \<le> distance s m2 lit" using rm[unfolded room_def if_P[OF True]] unfolding distance_def by blast+
  have w: "word_of_int (int m2 - int (ivar_trail s \<bar>lit\<bar>)) = distance s m2 lit" using le(1) by (simp add: distance_def of_nat_diff)
  have ok: "reap_ok r" "finite Q" "lit \<notin> Q" using q True lit queue_ok_finite[OF q] by (auto simp: queue_ok_def reap_clean_def)
  from radix_heap.push_law[OF ok(1) le(2)] obtain r' where
    r': "reap_push r (distance s m2 lit) = Some r'" "reap_ok r'" "reap_elems r' = add_mset (distance s m2 lit) (reap_elems r)" "last_deleted r' = last_deleted r" by blast
  have "queue_ok E s m2 (ls @ [lit]) r' m (insert lit Q)" using q True r' le(1) ok(2,3) by (auto simp: queue_ok_def reap_clean_def)
  then show ?thesis using True r'(1,4) unfolding w by simp
next
  case False
  then show ?thesis using q rm lit by (auto simp: queue_ok_def room_def)
qed

text \<open>The next literal is the open one that was assigned last.\<close>

lemma next_shrinkable_ok:
  assumes "n < length trl" "i \<le> n" "flag \<bar>trl ! i\<bar>"
  shows "\<exists>k \<le> n. next_shrinkable trl flag n = Some (trl ! k, if k = 0 then UINT_MAX else k - 1) \<and> flag \<bar>trl ! k\<bar> \<and>
    (\<forall>i. k < i \<and> i \<le> n \<longrightarrow> \<not> flag \<bar>trl ! i\<bar>)"
  using assms
proof (induction n)
  case (Suc n)
  show ?case
  proof (cases "flag \<bar>trl ! Suc n\<bar>")
    case True
    then show ?thesis using Suc.prems by (intro exI[of _ "Suc n"]) auto
  next
    case False
    then have "i \<le> n" using Suc.prems by (metis le_Suc_eq)
    then obtain k where "k \<le> n" "next_shrinkable trl flag n = Some (trl ! k, if k = 0 then UINT_MAX else k - 1)" "flag \<bar>trl ! k\<bar>"
      "\<forall>i. k < i \<and> i \<le> n \<longrightarrow> \<not> flag \<bar>trl ! i\<bar>" using Suc by auto
    then show ?thesis using False Suc.prems(1) by (intro exI[of _ k]) (auto simp: le_Suc_eq)
  qed
qed simp

lemma trail_inj:
  assumes "trail_ok s" "- k \<in> set (itrail s)" "- l \<in> set (itrail s)" "ivar_trail s \<bar>k\<bar> = ivar_trail s \<bar>l\<bar>"
  shows "k = l"
  using trail_ok_position(2)[OF assms(1,2)] trail_ok_position(2)[OF assms(1,3)] assms(4) by simp

lemma shrink_next_ok:
  assumes tok: "trail_ok s" and small: "length (itrail s) < 2 ^ 32" and tr: "itrail (sh_internal sh) = itrail s"
    and fl: "sh_flag sh = (\<lambda>v. v \<in> abs ` set (sh_lits sh))" and M: "\<forall>l \<in> set (sh_lits sh). - l \<in> set (itrail s)"
    and q: "queue_ok E s m2 (sh_lits sh) (sh_reap sh) m Q" and ne: "Q \<noteq> {}"
  shows "\<exists>u m' r. shrink_next E sh m = Some (- u, m', sh\<lparr>sh_reap := r\<rparr>) \<and> u \<in> Q \<and> reap_clean E r \<and> (\<forall>l \<in> Q - {u}. ivar_trail s \<bar>l\<bar> < ivar_trail s \<bar>u\<bar>) \<and>
    (Q - {u} \<noteq> {} \<longrightarrow> queue_ok E s m2 (sh_lits sh) r m' (Q - {u}) \<and> (\<forall>pos < ivar_trail s \<bar>u\<bar>. room E m2 r m' pos))"
proof (cases "shrinkreap (opts E)")
  case True
  have Q: "finite Q" "Q \<subseteq> set (sh_lits sh)" "reap_ok (sh_reap sh)" "reap_elems (sh_reap sh) = image_mset (distance s m2) (mset_set Q)" "m = m2"
    "\<forall>l \<in> Q. ivar_trail s \<bar>l\<bar> \<le> m2" "m2 < 2 ^ 32" "m2 < length (itrail s)" using q True small queue_ok_finite[OF q] by (auto simp: queue_ok_def reap_clean_def)
  have "reap_elems (sh_reap sh) \<noteq> {#}" using Q(1,4) ne by (simp add: mset_set_empty_iff)
  from radix_heap.pop_law[OF Q(3) this] obtain x r where
    r: "reap_pop (sh_reap sh) = Some (x, r)" "reap_ok r" "reap_elems (sh_reap sh) = add_mset x (reap_elems r)" "\<forall>y \<in># reap_elems (sh_reap sh). x \<le> y" "last_deleted r = x" by blast
  have "x \<in># image_mset (distance s m2) (mset_set Q)" using r(3) Q(4) by (metis union_single_eq_member add_mset_add_single)
  then obtain u where u: "u \<in> Q" "x = distance s m2 u" using Q(1) by auto
  have tu: "ivar_trail s \<bar>u\<bar> \<le> m2" "- u \<in> set (itrail s)" using u(1) Q(2,6) M by auto
  have d: "unat (distance s m2 l) = m2 - ivar_trail s \<bar>l\<bar>" for l unfolding distance_def by (rule unat_below_32) (use Q(7) in simp)
  have top: "ivar_trail s \<bar>l\<bar> \<le> ivar_trail s \<bar>u\<bar>" if l: "l \<in> Q" for l
  proof -
    have "distance s m2 u \<le> distance s m2 l" using r(4) Q(1,4) u(2) l by simp
    then have "m2 - ivar_trail s \<bar>u\<bar> \<le> m2 - ivar_trail s \<bar>l\<bar>" by (simp add: word_le_nat_alt d)
    then show ?thesis using tu(1) Q(6) l by fastforce
  qed
  have "unat (word_of_nat m2 - x) = ivar_trail s \<bar>u\<bar>"
  proof -
    have "word_of_nat m2 - x = (word_of_nat (ivar_trail s \<bar>u\<bar>) :: 32 word)" using tu(1) by (simp add: u(2) distance_def of_nat_diff)
    then show ?thesis using unat_below_32[of "ivar_trail s \<bar>u\<bar>"] tu(1) Q(7) by simp
  qed
  then have run: "shrink_next E sh m = Some (- u, m2, sh\<lparr>sh_reap := r\<rparr>)"
    using True r(1) Q(5) trail_ok_position[OF tok tu(2)] by (simp add: shrink_next_def tr)
  have elems: "reap_elems r = image_mset (distance s m2) (mset_set (Q - {u}))"
    using r(3) u Q(1,4) by (simp add: mset_set.remove[OF Q(1) u(1)])
  have "ivar_trail s \<bar>l\<bar> < ivar_trail s \<bar>u\<bar>" if "l \<in> Q - {u}" for l
    using top[of l] trail_inj[OF tok _ tu(2), of l] that Q(2) M by fastforce
  moreover have "room E m2 r m2 pos" if "pos < ivar_trail s \<bar>u\<bar>" for pos
  proof -
    have "unat (word_of_nat (m2 - pos) :: 32 word) = m2 - pos" by (rule unat_below_32) (use Q(7) in simp)
    then have "x \<le> word_of_nat (m2 - pos)" using that tu(1) unfolding u(2) word_le_nat_alt d by simp
    then show ?thesis using True r(5) that tu(1) by (simp only: room_def if_True) simp
  qed
  moreover have "queue_ok E s m2 (sh_lits sh) r m2 (Q - {u})" using Q elems r(2) True by (auto simp: queue_ok_def reap_clean_def)
  ultimately show ?thesis using run u(1) r(2) True by (intro exI[of _ u] exI[of _ m2] exI[of _ r]) (simp add: reap_clean_def)
next
  case False
  have Q: "Q = {l \<in> set (sh_lits sh). ivar_trail s \<bar>l\<bar> \<le> m}" "m < length (itrail s)" "sh_reap sh = new_reap" "m2 < length (itrail s)"
    using q False by (simp_all add: queue_ok_def reap_clean_def)
  have pos: "itrail s ! ivar_trail s \<bar>l\<bar> = - l" "ivar_trail s \<bar>l\<bar> < length (itrail s)" if "l \<in> set (sh_lits sh)" for l
    using trail_ok_position[OF tok, of "- l"] M that by auto
  obtain l0 where l0: "l0 \<in> set (sh_lits sh)" "ivar_trail s \<bar>l0\<bar> \<le> m" using ne Q(1) by auto
  then have "sh_flag sh \<bar>itrail s ! ivar_trail s \<bar>l0\<bar>\<bar>" using pos by (simp add: fl)
  from next_shrinkable_ok[of m "itrail s" _ "sh_flag sh", OF Q(2) l0(2) this] obtain k where
    k: "k \<le> m" "next_shrinkable (itrail s) (sh_flag sh) m = Some (itrail s ! k, if k = 0 then UINT_MAX else k - 1)" "sh_flag sh \<bar>itrail s ! k\<bar>"
    "\<forall>i. k < i \<and> i \<le> m \<longrightarrow> \<not> sh_flag sh \<bar>itrail s ! i\<bar>" by blast
  from k(3) obtain u where u: "u \<in> set (sh_lits sh)" "\<bar>itrail s ! k\<bar> = \<bar>u\<bar>" by (auto simp: fl)
  have "k < length (itrail s)" using k(1) Q(2) by simp
  then have uk: "itrail s ! k = - u" using trail_same_abs[OF tok, of "itrail s ! k" "- u"] u M by simp
  then have tu: "ivar_trail s \<bar>u\<bar> = k" using tok \<open>k < length (itrail s)\<close> unfolding trail_ok_def by (metis abs_minus_cancel)
  have le: "ivar_trail s \<bar>l\<bar> \<le> k" if "l \<in> Q" for l
  proof (rule ccontr)
    assume "\<not> ?thesis"
    then have "\<not> sh_flag sh \<bar>itrail s ! ivar_trail s \<bar>l\<bar>\<bar>" using k(4) that Q(1) by auto
    then show False using pos(1)[of l] that Q(1) by (simp add: fl)
  qed
  have lt: "ivar_trail s \<bar>l\<bar> < k" if "l \<in> Q - {u}" for l
    using le[of l] trail_inj[OF tok, of l u] that Q(1) M u(1) tu by fastforce
  have run: "shrink_next E sh m = Some (- u, if k = 0 then UINT_MAX else k - 1, sh\<lparr>sh_reap := new_reap\<rparr>)"
    using False k(2) Q(3) by (simp add: shrink_next_def tr uk)
  have "queue_ok E s m2 (sh_lits sh) new_reap (k - 1) (Q - {u}) \<and> (\<forall>pos < k. room E m2 new_reap (k - 1) pos)" if "k \<noteq> 0"
  proof -
    have "l \<in> Q - {u} \<longleftrightarrow> l \<in> set (sh_lits sh) \<and> ivar_trail s \<bar>l\<bar> \<le> k - 1" for l
      using lt[of l] Q(1) k(1) tu that by auto
    then have "Q - {u} = {l \<in> set (sh_lits sh). ivar_trail s \<bar>l\<bar> \<le> k - 1}" by blast
    moreover have "k - 1 < length (itrail s)" using k(1) Q(2) by simp
    moreover have "Q - {u} \<subseteq> set (sh_lits sh)" using Q(1) by blast
    moreover have "\<forall>pos < k. pos \<le> k - 1" by auto
    ultimately show ?thesis using False Q(4) unfolding queue_ok_def reap_clean_def room_def by simp
  qed
  moreover have "k \<noteq> 0" if "Q - {u} \<noteq> {}" using that lt by fastforce
  ultimately have rest: "Q - {u} \<noteq> {} \<longrightarrow> queue_ok E s m2 (sh_lits sh) new_reap (if k = 0 then UINT_MAX else k - 1) (Q - {u}) \<and>
    (\<forall>pos < ivar_trail s \<bar>u\<bar>. room E m2 new_reap (if k = 0 then UINT_MAX else k - 1) pos)" unfolding tu by (cases "k = 0") auto
  have "u \<in> Q" "reap_clean E new_reap" "\<forall>l \<in> Q - {u}. ivar_trail s \<bar>l\<bar> < ivar_trail s \<bar>u\<bar>"
    using u(1) tu k(1) Q(1) lt False by (auto simp: reap_clean_def)
  then show ?thesis using run rest by blast
qed

section \<open>Marking literals\<close>

lemma queue_last:
  assumes "\<forall>pos < n. room E m2 r m pos" "last_deleted r' = last_deleted r"
  shows "\<forall>pos < n. room E m2 r' m pos"
  using assms(1) unfolding room_def assms(2) .

lemma shrink_literal_ok:
  assumes core: "core_ok R s0" and g: "graph_ok F s0" and sh: "shrinking F s0 d sh" and q: "queue_ok E s0 m2 (sh_lits sh) (sh_reap sh) m Q"
    and lit: "- lit \<in> set (itrail s0)" "ivar_level s0 \<bar>lit\<bar> \<le> d" and rm: "room E m2 (sh_reap sh) m (ivar_trail s0 \<bar>lit\<bar>)"
  shows "\<exists>tmp sh'. shrink_literal E d m2 sh lit = Some (tmp, sh') \<and> shrinking F s0 d sh' \<and>
    (if tmp = 1 then lit \<notin> set (sh_lits sh) \<and> sh_lits sh' = sh_lits sh @ [lit] \<and> queue_ok E s0 m2 (sh_lits sh') (sh_reap sh') m (insert lit Q) \<and>
        last_deleted (sh_reap sh') = last_deleted (sh_reap sh)
     else (tmp = 0 \<or> tmp = - 1) \<and> sh_lits sh' = sh_lits sh \<and> sh_reap sh' = sh_reap sh \<and>
        (tmp = 0 \<longrightarrow> kept_implies F s0 (- lit) \<or> lit \<in> set (sh_lits sh))) \<and>
    (0 < d \<and> ivar_level s0 \<bar>lit\<bar> = d \<longrightarrow> lit \<in> set (sh_lits sh'))"
proof -
  let ?s = "sh_internal sh" and ?v = "\<bar>lit\<bar>"
  have fr: "min_frame s0 ?s" and rem: "removal_ok F ?s" and fl: "sh_flag sh = (\<lambda>v. v \<in> abs ` set (sh_lits sh))"
    and M: "\<forall>l \<in> set (sh_lits sh). - l \<in> set (itrail s0) \<and> ivar_level s0 \<bar>l\<bar> = d" using sh by (simp_all add: shrinking_def)
  have qs: "quiet s0 ?s" using fr by (simp add: min_frame_def)
  note e = quiet_eqs[OF qs] and kept = min_frame_kept[OF fr]
  have tok: "trail_ok s0" using core by (simp add: core_ok_def)
  have "ilit_ok s0 (- lit)" using tok lit(1) unfolding trail_ok_def by blast
  then have lok: "ilit_ok ?s lit" by (simp add: e)
  have mem: "sh_flag sh ?v \<longleftrightarrow> lit \<in> set (sh_lits sh)"
  proof
    assume "sh_flag sh ?v"
    then obtain l where "l \<in> set (sh_lits sh)" "\<bar>l\<bar> = ?v" by (auto simp: fl)
    then show "lit \<in> set (sh_lits sh)" using trail_same_abs[OF tok lit(1), of "- l"] M by auto
  qed (simp add: fl)
  consider (zero) "ivar_level s0 ?v = 0" | (flagged) "ivar_level s0 ?v \<noteq> 0" "sh_flag sh ?v"
    | (lower) "ivar_level s0 ?v \<noteq> 0" "\<not> sh_flag sh ?v" "ivar_level s0 ?v < d" | (mark) "ivar_level s0 ?v \<noteq> 0" "\<not> sh_flag sh ?v" "ivar_level s0 ?v = d"
    using lit(2) by linarith
  then show ?thesis
  proof cases
    case zero
    then have "shrink_literal E d m2 sh lit = Some (0, sh)" using lok by (simp add: shrink_literal_def e)
    then show ?thesis using sh zero kept_implies_fixed[OF g lit(1)] by auto
  next
    case flagged
    then have "shrink_literal E d m2 sh lit = Some (0, sh)" using lok by (simp add: shrink_literal_def e)
    then show ?thesis using sh mem flagged(2) by auto
  next
    case lower
    show ?thesis
    proof (cases "iremovable ?s ?v")
      case True
      then have "shrink_literal E d m2 sh lit = Some (0, sh)" using lok lower by (simp add: shrink_literal_def e)
      moreover have "- lit \<in> set (itrail ?s)" "iremovable ?s \<bar>- lit\<bar>" using lit(1) True by (simp_all add: e)
      then have "kept_implies F ?s (- lit)" using rem unfolding removal_ok_def by blast
      ultimately show ?thesis using sh lower(3) by (auto simp: kept)
    next
      case nr: False
      show ?thesis
      proof (cases "opt_shrink (opts E) > 2")
        case True
        have lt: "- lit \<in> set (itrail ?s)" using lit(1) by (simp add: e)
        have dep: "minimizedepth (opts E) + 2 \<le> (minimizedepth (opts E) + 2) + 1" "1 \<le> minimizedepth (opts E) + 1" by simp_all
        from minimize_literal_ok[OF quiet_core[OF qs core] quiet_graph[OF qs core g] rem lt dep] obtain res s' where
          s': "minimize_literal (minimizedepth (opts E) + 2) E 1 ?s (- lit) = Some (res, s')" "min_frame ?s s'" "removal_ok F s'" "res \<longrightarrow> kept_implies F ?s (- lit)" by blast
        have "shrink_literal E d m2 sh lit = Some (if res then 0 else - 1, sh\<lparr>sh_internal := s'\<rparr>)"
          using lok lower nr True s'(1) by (simp add: shrink_literal_def e Let_def del: minimize_literal.simps)
        moreover have "shrinking F s0 d (sh\<lparr>sh_internal := s'\<rparr>)" using sh min_frame_trans[OF fr s'(2)] s'(3) by (simp add: shrinking_def)
        ultimately show ?thesis using lower(3) s'(4) by (auto simp: kept)
      next
        case False
        then have "shrink_literal E d m2 sh lit = Some (- 1, sh)" using lok lower nr by (simp add: shrink_literal_def e Let_def)
        then show ?thesis using sh lower(3) by auto
      qed
    qed
  next
    case mark
    let ?s1 = "?s\<lparr>ipoison := (ipoison ?s)(?v := False)\<rparr>"
    have nm: "lit \<notin> set (sh_lits sh)" using mark(2) mem by simp
    have f1: "min_frame ?s ?s1" by (simp add: min_frame_def quiet_def)
    have rem1: "removal_ok F ?s1" using rem min_frame_kept[OF f1, of F] by (simp add: removal_ok_def)
    have flag1: "(sh_flag sh)(?v := True) = (\<lambda>v. v \<in> abs ` set (sh_lits sh @ [lit]))" by (auto simp: fl fun_eq_iff)
    have ok1: "shrinking F s0 d (sh\<lparr>sh_internal := ?s1, sh_flag := (sh_flag sh)(?v := True), sh_lits := sh_lits sh @ [lit], sh_reap := r\<rparr>)" for r
      using min_frame_trans[OF fr f1] rem1 flag1 M lit(1) mark(3) unfolding shrinking_def by auto
    note push = queue_push[OF q nm rm]
    show ?thesis
    proof (cases "shrinkreap (opts E)")
      case True
      then obtain r where r: "reap_push (sh_reap sh) (word_of_int (int m2 - int (ivar_trail s0 ?v))) = Some r"
        "queue_ok E s0 m2 (sh_lits sh @ [lit]) r m (insert lit Q)" "last_deleted r = last_deleted (sh_reap sh)" using push by auto
      have "shrink_literal E d m2 sh lit = Some (1, sh\<lparr>sh_internal := ?s1, sh_flag := (sh_flag sh)(?v := True), sh_lits := sh_lits sh @ [lit], sh_reap := r\<rparr>)"
        using lok mark True r(1) by (simp add: shrink_literal_def e Let_def)
      then show ?thesis using ok1[of r] r(2,3) nm by auto
    next
      case False
      have "shrink_literal E d m2 sh lit = Some (1, sh\<lparr>sh_internal := ?s1, sh_flag := (sh_flag sh)(?v := True), sh_lits := sh_lits sh @ [lit], sh_reap := sh_reap sh\<rparr>)"
        using lok mark False by (simp add: shrink_literal_def e Let_def)
      then show ?thesis using ok1[of "sh_reap sh"] push False nm by auto
    qed
  qed
qed

text \<open>All literals of a block are marked and open.\<close>

lemma push_literals_of_block_ok:
  assumes core: "core_ok R s0" and g: "graph_ok F s0" and d: "0 < d"
  shows "shrinking F s0 d sh \<Longrightarrow> queue_ok E s0 m2 (sh_lits sh) (sh_reap sh) m2 (set (sh_lits sh)) \<Longrightarrow> last_deleted (sh_reap sh) = 0 \<Longrightarrow>
    \<forall>l \<in> set b. - l \<in> set (itrail s0) \<and> ivar_level s0 \<bar>l\<bar> = d \<and> ivar_trail s0 \<bar>l\<bar> \<le> m2 \<Longrightarrow>
    \<exists>sh'. push_literals_of_block E d m2 sh b = Some sh' \<and> shrinking F s0 d sh' \<and> set (sh_lits sh') = set (sh_lits sh) \<union> set b \<and>
      queue_ok E s0 m2 (sh_lits sh') (sh_reap sh') m2 (set (sh_lits sh'))"
proof (induction b arbitrary: sh)
  case (Cons lit b)
  have lit: "- lit \<in> set (itrail s0)" "ivar_level s0 \<bar>lit\<bar> = d" "ivar_trail s0 \<bar>lit\<bar> \<le> m2" using Cons.prems(4) by simp_all
  have rm: "room E m2 (sh_reap sh) m2 (ivar_trail s0 \<bar>lit\<bar>)" using Cons.prems(3) lit(3) by (simp add: room_def)
  from shrink_literal_ok[OF core g Cons.prems(1,2) lit(1) eq_refl[OF lit(2)] rm] obtain tmp sh1 where
    s1: "shrink_literal E d m2 sh lit = Some (tmp, sh1)" "shrinking F s0 d sh1" "lit \<in> set (sh_lits sh1)"
    and c: "if tmp = 1 then lit \<notin> set (sh_lits sh) \<and> sh_lits sh1 = sh_lits sh @ [lit] \<and> queue_ok E s0 m2 (sh_lits sh1) (sh_reap sh1) m2 (insert lit (set (sh_lits sh))) \<and>
        last_deleted (sh_reap sh1) = last_deleted (sh_reap sh)
     else (tmp = 0 \<or> tmp = - 1) \<and> sh_lits sh1 = sh_lits sh \<and> sh_reap sh1 = sh_reap sh \<and> (tmp = 0 \<longrightarrow> kept_implies F s0 (- lit) \<or> lit \<in> set (sh_lits sh))"
    using d lit(2) by blast
  have q1: "queue_ok E s0 m2 (sh_lits sh1) (sh_reap sh1) m2 (set (sh_lits sh1))" "last_deleted (sh_reap sh1) = 0" "set (sh_lits sh1) = insert lit (set (sh_lits sh))"
    using c Cons.prems(2,3) s1(3) by (auto split: if_splits)
  from Cons.IH[OF s1(2) q1(1,2)] Cons.prems(4) obtain sh' where
    "push_literals_of_block E d m2 sh1 b = Some sh'" "shrinking F s0 d sh'" "set (sh_lits sh') = set (sh_lits sh1) \<union> set b"
    "queue_ok E s0 m2 (sh_lits sh') (sh_reap sh') m2 (set (sh_lits sh'))" by auto
  then show ?case using s1(1) q1(3) by (auto simp: push_literals_of_block_def)
qed (simp add: push_literals_of_block_def)

lemma shrink_reason_lits_ok:
  assumes core: "core_ok R s0" and g: "graph_ok F s0"
  shows "shrinking F s0 d sh \<Longrightarrow> queue_ok E s0 m2 (sh_lits sh) (sh_reap sh) m Q \<Longrightarrow> \<forall>pos < n. room E m2 (sh_reap sh) m pos \<Longrightarrow>
    \<forall>k \<in> set ls. k \<noteq> uip \<longrightarrow> - k \<in> set (itrail s0) \<and> ivar_level s0 \<bar>k\<bar> \<le> d \<and> ivar_trail s0 \<bar>k\<bar> < n \<Longrightarrow>
    \<exists>opn' failed sh'. shrink_reason_lits E d m2 uip sh opn ls = Some (opn', failed, sh') \<and> shrinking F s0 d sh' \<and> set (sh_lits sh) \<subseteq> set (sh_lits sh') \<and>
      (\<exists>Q'. queue_ok E s0 m2 (sh_lits sh') (sh_reap sh') m Q' \<and> Q \<subseteq> Q' \<and> set (sh_lits sh') - Q' = set (sh_lits sh) - Q \<and>
        (\<not> failed \<longrightarrow> opn' = opn + int (card Q') - int (card Q) \<and> (\<forall>k \<in> set ls. k \<noteq> uip \<longrightarrow> kept_implies F s0 (- k) \<or> k \<in> set (sh_lits sh'))))"
proof (induction ls arbitrary: sh opn Q)
  case Nil
  then show ?case by (intro exI[of _ opn] exI[of _ False] exI[of _ sh]) auto
next
  case (Cons lit ls)
  show ?case
  proof (cases "lit = uip")
    case True
    then show ?thesis using Cons.IH[OF Cons.prems(1-3), of opn] Cons.prems(4) by simp
  next
    case False
    then have lit: "- lit \<in> set (itrail s0)" "ivar_level s0 \<bar>lit\<bar> \<le> d" "ivar_trail s0 \<bar>lit\<bar> < n" using Cons.prems(4) by simp_all
    from shrink_literal_ok[OF core g Cons.prems(1,2) lit(1,2)] Cons.prems(3) lit(3) obtain tmp sh1 where
      s1: "shrink_literal E d m2 sh lit = Some (tmp, sh1)" "shrinking F s0 d sh1"
      and c: "if tmp = 1 then lit \<notin> set (sh_lits sh) \<and> sh_lits sh1 = sh_lits sh @ [lit] \<and> queue_ok E s0 m2 (sh_lits sh1) (sh_reap sh1) m (insert lit Q) \<and>
          last_deleted (sh_reap sh1) = last_deleted (sh_reap sh)
       else (tmp = 0 \<or> tmp = - 1) \<and> sh_lits sh1 = sh_lits sh \<and> sh_reap sh1 = sh_reap sh \<and> (tmp = 0 \<longrightarrow> kept_implies F s0 (- lit) \<or> lit \<in> set (sh_lits sh))"
      by blast
    let ?Q = "if tmp = 1 then insert lit Q else Q" and ?opn = "if tmp > 0 then opn + 1 else opn"
    have sub: "Q \<subseteq> set (sh_lits sh)" "finite Q" by (rule queue_ok_subset[OF Cons.prems(2)], rule queue_ok_finite[OF Cons.prems(2)])
    have q1: "queue_ok E s0 m2 (sh_lits sh1) (sh_reap sh1) m ?Q" "set (sh_lits sh) \<subseteq> set (sh_lits sh1)"
      "set (sh_lits sh1) - ?Q = set (sh_lits sh) - Q" "last_deleted (sh_reap sh1) = last_deleted (sh_reap sh)"
      using c Cons.prems(2) by (auto split: if_splits)
    have "lit \<notin> Q" if "tmp = 1" using c sub(1) that by auto
    then have cardQ: "?opn = opn + int (card ?Q) - int (card Q)" using c sub(2) by (auto split: if_splits)
    show ?thesis
    proof (cases "tmp < 0")
      case True
      then have "shrink_reason_lits E d m2 uip sh opn (lit # ls) = Some (opn, True, sh1)" using False s1(1) by simp
      moreover have "Q \<subseteq> ?Q" by auto
      ultimately show ?thesis using s1(2) q1 by blast
    next
      case nf: False
      have lit1: "kept_implies F s0 (- lit) \<or> lit \<in> set (sh_lits sh1)" using c nf by (auto split: if_splits)
      have ls: "\<forall>k \<in> set ls. k \<noteq> uip \<longrightarrow> - k \<in> set (itrail s0) \<and> ivar_level s0 \<bar>k\<bar> \<le> d \<and> ivar_trail s0 \<bar>k\<bar> < n" using Cons.prems(4) by simp
      from Cons.IH[OF s1(2) q1(1) queue_last[OF Cons.prems(3) q1(4)] ls, of ?opn] obtain opn' failed sh' Q' where
        r: "shrink_reason_lits E d m2 uip sh1 ?opn ls = Some (opn', failed, sh')" "shrinking F s0 d sh'" "set (sh_lits sh1) \<subseteq> set (sh_lits sh')"
        "queue_ok E s0 m2 (sh_lits sh') (sh_reap sh') m Q'" "?Q \<subseteq> Q'" "set (sh_lits sh') - Q' = set (sh_lits sh1) - ?Q"
        "\<not> failed \<Longrightarrow> opn' = ?opn + int (card Q') - int (card ?Q)" "\<not> failed \<Longrightarrow> \<forall>k \<in> set ls. k \<noteq> uip \<longrightarrow> kept_implies F s0 (- k) \<or> k \<in> set (sh_lits sh')"
        by blast
      have "shrink_reason_lits E d m2 uip sh opn (lit # ls) = Some (opn', failed, sh')" using False nf s1(1) r(1) by simp
      moreover have "set (sh_lits sh) \<subseteq> set (sh_lits sh')" "Q \<subseteq> Q'" "set (sh_lits sh') - Q' = set (sh_lits sh) - Q" using r(3,5,6) q1(2,3) by auto
      moreover have "opn' = opn + int (card Q') - int (card Q)" if "\<not> failed" using r(7)[OF that] cardQ by linarith
      moreover have "\<forall>k \<in> set (lit # ls). k \<noteq> uip \<longrightarrow> kept_implies F s0 (- k) \<or> k \<in> set (sh_lits sh')" if "\<not> failed"
        using r(8)[OF that] lit1 r(3) by auto
      ultimately show ?thesis using r(2,4) by blast
    qed
  qed
qed

text \<open>The loop ends with a literal that implies all marked ones, or fails.\<close>

lemma shrink_loop_ok:
  assumes core: "core_ok R s0" and g: "graph_ok F s0" and d: "0 < d"
  shows "shrinking F s0 d sh \<Longrightarrow> queue_ok E s0 m2 (sh_lits sh) (sh_reap sh) m Q \<Longrightarrow> Q \<noteq> {} \<Longrightarrow>
    \<forall>l \<in> set (sh_lits sh) - Q. supported F s0 (set (sh_lits sh)) l \<Longrightarrow>
    \<exists>failed uip sh'. shrink_loop E d m2 sh (int (card Q)) m = Some (failed, uip, sh') \<and> shrinking F s0 d sh' \<and> reap_clean E (sh_reap sh') \<and>
      set (sh_lits sh) \<subseteq> set (sh_lits sh') \<and>
      (\<not> failed \<longrightarrow> - uip \<in> set (sh_lits sh') \<and> (\<forall>l \<in> set (sh_lits sh'). l = - uip \<or> supported F s0 (set (sh_lits sh')) l))"
proof (induction "card (uminus ` set (itrail s0) - (set (sh_lits sh) - Q))" arbitrary: sh m Q rule: less_induct)
  case less
  have tok: "trail_ok s0" and mx: "imax_var s0 \<le> INT_MAX" using core g by (simp_all add: core_ok_def graph_ok_def)
  have fr: "min_frame s0 (sh_internal sh)" and fl: "sh_flag sh = (\<lambda>v. v \<in> abs ` set (sh_lits sh))"
    and M: "\<forall>l \<in> set (sh_lits sh). - l \<in> set (itrail s0) \<and> ivar_level s0 \<bar>l\<bar> = d" using less.prems(1) by (simp_all add: shrinking_def)
  have qs: "quiet s0 (sh_internal sh)" using fr by (simp add: min_frame_def)
  note e = quiet_eqs[OF qs]
  have Q: "Q \<subseteq> set (sh_lits sh)" "finite Q" by (rule queue_ok_subset[OF less.prems(2)], rule queue_ok_finite[OF less.prems(2)])
  have M1: "\<forall>l \<in> set (sh_lits sh). - l \<in> set (itrail s0)" using M by blast
  from shrink_next_ok[OF tok trail_small[OF tok mx] e(6) fl M1 less.prems(2,3)] obtain u m1 r where
    n: "shrink_next E sh m = Some (- u, m1, sh\<lparr>sh_reap := r\<rparr>)" "u \<in> Q" "reap_clean E r" "\<forall>l \<in> Q - {u}. ivar_trail s0 \<bar>l\<bar> < ivar_trail s0 \<bar>u\<bar>"
    "Q - {u} \<noteq> {} \<longrightarrow> queue_ok E s0 m2 (sh_lits sh) r m1 (Q - {u}) \<and> (\<forall>pos < ivar_trail s0 \<bar>u\<bar>. room E m2 r m1 pos)" by blast
  let ?sh = "sh\<lparr>sh_reap := r\<rparr>"
  have card: "int (card Q) - 1 = int (card (Q - {u}))" using card_Suc_Diff1[OF Q(2) n(2)] by linarith
  have sh1: "shrinking F s0 d ?sh" using less.prems(1) by (simp add: shrinking_def)
  show ?case
  proof (cases "Q - {u} = {}")
    case True
    have "int (card Q) - 1 = 0" unfolding card True by simp
    then have "shrink_loop E d m2 sh (int (card Q)) m = Some (False, - u, ?sh)" using n(1) by (subst shrink_loop.simps) simp
    moreover have "\<forall>l \<in> set (sh_lits sh). l = u \<or> supported F s0 (set (sh_lits sh)) l" using less.prems(4) True n(2) by blast
    ultimately show ?thesis using sh1 n(2,3) Q(1) by auto
  next
    case False
    then obtain l where l: "l \<in> Q" "l \<noteq> u" by blast
    have u: "- u \<in> set (itrail s0)" "ivar_level s0 \<bar>- u\<bar> = d" and l': "- l \<in> set (itrail s0)" "ivar_level s0 \<bar>- l\<bar> = d" "ivar_trail s0 \<bar>- l\<bar> < ivar_trail s0 \<bar>- u\<bar>"
      using n(2,4) l Q(1) M by auto
    from reason_at_level[OF core g d u l'] obtain p c where
      c: "ivar_reason s0 \<bar>u\<bar> = Reason_Clause p" "istore s0 p = Some c"
      "\<forall>k \<in> set (cl_lits c). k \<noteq> - u \<longrightarrow> - k \<in> set (itrail s0) \<and> ivar_level s0 \<bar>k\<bar> \<le> d \<and> ivar_trail s0 \<bar>k\<bar> < ivar_trail s0 \<bar>u\<bar>" by auto
    obtain c' where c': "istore (sh_internal sh) p = Some c'" "cl_lits c' = cl_lits c" using quiet_store[OF qs c(2)] by (auto simp: same_lits_def)
    have q1: "queue_ok E s0 m2 (sh_lits ?sh) (sh_reap ?sh) m1 (Q - {u})" "\<forall>pos < ivar_trail s0 \<bar>u\<bar>. room E m2 (sh_reap ?sh) m1 pos" using n(5) False by simp_all
    have one: "int (card Q) - 1 \<noteq> 0" using card False Q(2) by simp
    show ?thesis
    proof (cases "opt_shrink (opts E) > 2 \<or> length (cl_lits c) = 2")
      case False
      then have "shrink_loop E d m2 sh (int (card Q)) m = Some (True, - u, ?sh)"
        using n(1) one c(1) c' by (subst shrink_loop.simps) (simp add: shrink_along_reason_def e)
      then show ?thesis using sh1 n(3) by auto
    next
      case True
      from shrink_reason_lits_ok[OF core g sh1 q1 c(3), of 0] obtain k failed sh2 Q' where
        r: "shrink_reason_lits E d m2 (- u) ?sh 0 (cl_lits c) = Some (k, failed, sh2)" "shrinking F s0 d sh2" "set (sh_lits ?sh) \<subseteq> set (sh_lits sh2)"
        "queue_ok E s0 m2 (sh_lits sh2) (sh_reap sh2) m1 Q'" "Q - {u} \<subseteq> Q'" "set (sh_lits sh2) - Q' = set (sh_lits ?sh) - (Q - {u})"
        "\<not> failed \<Longrightarrow> k = 0 + int (card Q') - int (card (Q - {u}))"
        "\<not> failed \<Longrightarrow> \<forall>k \<in> set (cl_lits c). k \<noteq> - u \<longrightarrow> kept_implies F s0 (- k) \<or> k \<in> set (sh_lits sh2)" by blast
      have along: "shrink_along_reason E d m2 ?sh (- u) = Some (k, failed, sh2)" using True c(1) c' r(1) by (simp add: shrink_along_reason_def e)
      show ?thesis
      proof (cases failed)
        case True
        then have "shrink_loop E d m2 sh (int (card Q)) m = Some (True, - u, sh2)" using n(1) one along by (subst shrink_loop.simps) simp
        then show ?thesis using r(2-4) by (auto simp: queue_ok_def)
      next
        case False
        have step: "shrink_loop E d m2 sh (int (card Q)) m = shrink_loop E d m2 sh2 (int (card Q')) m1"
          using n(1) one along False r(7)[OF False] card by (subst shrink_loop.simps) simp
        have P: "set (sh_lits sh2) - Q' = insert u (set (sh_lits sh) - Q)" using r(6) n(2) Q(1) by auto
        have "supported F s0 (set (sh_lits sh2)) u" using c(2,3) r(8)[OF False] unfolding supported_def by blast
        moreover have "set (sh_lits sh) \<subseteq> set (sh_lits sh2)" using r(3) by simp
        ultimately have sup: "\<forall>l \<in> set (sh_lits sh2) - Q'. supported F s0 (set (sh_lits sh2)) l"
          unfolding P using less.prems(4) supported_mono by blast
        have "u \<in> uminus ` set (itrail s0)" "u \<notin> set (sh_lits sh) - Q" using u(1) n(2) by (auto intro: image_eqI[of _ _ "- u"])
        then have dec: "card (uminus ` set (itrail s0) - (set (sh_lits sh2) - Q')) < card (uminus ` set (itrail s0) - (set (sh_lits sh) - Q))"
          unfolding P by (intro psubset_card_mono) auto
        have "Q' \<noteq> {}" using r(5) \<open>Q - {u} \<noteq> {}\<close> by blast
        from less.hyps[OF dec r(2,4) this sup] r(3) show ?thesis unfolding step by (auto 0 3)
      qed
    qed
  qed
qed

section \<open>A block of literals\<close>

text \<open>The state in which a block starts and ends.\<close>

definition sh_clean :: "('p, 'h) shrinker \<Rightarrow> bool" where
  "sh_clean sh \<longleftrightarrow> sh_flag sh = (\<lambda>v. False) \<and> sh_lits sh = [] \<and> sh_reap sh = new_reap"

text \<open>The literals \<open>b\<close> of level \<open>d\<close> are replaced by the kept literals \<open>K\<close> of the same level, which imply the negations of the others.\<close>

definition reduced :: "int list list \<Rightarrow> ('p, 'h) internal \<Rightarrow> nat \<Rightarrow> int list \<Rightarrow> int list \<Rightarrow> ('p, 'h) internal \<Rightarrow> bool" where
  "reduced F s d b K s' \<longleftrightarrow> quiet s s' \<and> removal_ok F s' \<and> ikeep s' = (\<lambda>v. ikeep s v \<or> v \<in> abs ` set K) \<and>
     (\<forall>l \<in> set K. - l \<in> set (itrail s) \<and> ivar_level s \<bar>l\<bar> = d) \<and> distinct K \<and> length K \<le> length b \<and>
     (\<forall>l \<in> set b. l \<in> set K \<or> kept_implies F s' (- l)) \<and>
     (abs ` set (ianalyzed s) = {v. iseen s v} \<longrightarrow> abs ` set (ianalyzed s') = {v. iseen s' v})"

lemma reduced_from:
  assumes "min_frame s s1" "reduced F s1 d b K s2"
  shows "reduced F s d b K s2"
proof -
  have q: "quiet s s1" using assms(1) by (simp add: min_frame_def)
  show ?thesis using assms quiet_trans[OF q] unfolding reduced_def min_frame_def by (simp add: quiet_eqs[OF q])
qed

lemma keep_literal_ok:
  assumes "removal_ok F s"
  shows "quiet s (s\<lparr>ikeep := (ikeep s)(v := True)\<rparr>)" "removal_ok F (s\<lparr>ikeep := (ikeep s)(v := True)\<rparr>)"
proof -
  show "quiet s (s\<lparr>ikeep := (ikeep s)(v := True)\<rparr>)" by (simp add: quiet_def)
  have "kept_implies F (s\<lparr>ikeep := (ikeep s)(v := True)\<rparr>) l" if "kept_implies F s l" for l
    by (rule kept_implies_more[OF that]) simp_all
  then show "removal_ok F (s\<lparr>ikeep := (ikeep s)(v := True)\<rparr>)" using assms by (simp add: removal_ok_def)
qed

lemma shrunken_block_no_uip_ok:
  assumes "core_ok R s" "graph_ok F s" "removal_ok F s" "distinct b" "\<forall>l \<in> set b. - l \<in> set (itrail s) \<and> ivar_level s \<bar>l\<bar> = d \<and> l \<noteq> uip0"
  shows "\<exists>b' s'. shrunken_block_no_uip E uip0 s b = Some (b', s') \<and> reduced F s d b (List.filter (\<lambda>l. l \<noteq> uip0) b') s' \<and>
    set (List.filter (\<lambda>l. l \<noteq> uip0) b') \<subseteq> set b"
  using assms
proof (induction b arbitrary: s)
  case Nil
  then show ?case by (simp add: reduced_def)
next
  case (Cons l b)
  have l: "- l \<in> set (itrail s)" "ivar_level s \<bar>l\<bar> = d" "l \<noteq> uip0" using Cons.prems(5) by simp_all
  have "\<exists>res s1. (if opt_minimize (opts E) then minimize_literal (minimizedepth (opts E) + 2) E 0 s (- l) else Some (False, s)) = Some (res, s1) \<and>
    min_frame s s1 \<and> removal_ok F s1 \<and> (res \<longrightarrow> kept_implies F s (- l))"
    using minimize_literal_ok[OF Cons.prems(1-3) l(1), of E "minimizedepth (opts E) + 2" 0] Cons.prems(3)
    by (cases "opt_minimize (opts E)") (auto simp del: minimize_literal.simps)
  then obtain res s1 where s1: "(if opt_minimize (opts E) then minimize_literal (minimizedepth (opts E) + 2) E 0 s (- l) else Some (False, s)) = Some (res, s1)"
    "min_frame s s1" "removal_ok F s1" "res \<longrightarrow> kept_implies F s (- l)" by blast
  have q1: "quiet s s1" using s1(2) by (simp add: min_frame_def)
  define s2 where "s2 = (if res then s1 else s1\<lparr>ikeep := (ikeep s1)(\<bar>l\<bar> := True)\<rparr>)"
  have s2: "quiet s1 s2" "removal_ok F s2" using keep_literal_ok[OF s1(3), of "\<bar>l\<bar>"] s1(3) by (simp_all add: s2_def)
  note q2 = quiet_trans[OF q1 s2(1)] and e = quiet_eqs[OF quiet_trans[OF q1 s2(1)]]
  from Cons.IH[OF quiet_core[OF q2 Cons.prems(1)] quiet_graph[OF q2 Cons.prems(1,2)] s2(2)] Cons.prems(4,5) obtain b' s' where
    b': "shrunken_block_no_uip E uip0 s2 b = Some (b', s')" "reduced F s2 d b (List.filter (\<lambda>l. l \<noteq> uip0) b') s'"
    "set (List.filter (\<lambda>l. l \<noteq> uip0) b') \<subseteq> set b" by (auto simp: e)
  let ?K = "List.filter (\<lambda>l. l \<noteq> uip0) b'" and ?K' = "List.filter (\<lambda>l. l \<noteq> uip0) ((if res then uip0 else l) # b')"
  have K': "?K' = (if res then ?K else l # ?K)" using l(3) by simp
  have r: "quiet s2 s'" "removal_ok F s'" "ikeep s' = (\<lambda>v. ikeep s2 v \<or> v \<in> abs ` set ?K)" "\<forall>k \<in> set ?K. - k \<in> set (itrail s2) \<and> ivar_level s2 \<bar>k\<bar> = d"
    "distinct ?K" "\<forall>k \<in> set b. k \<in> set ?K \<or> kept_implies F s' (- k)" and len: "length ?K \<le> length b" and r7:
    "abs ` set (ianalyzed s2) = {v. iseen s2 v} \<longrightarrow> abs ` set (ianalyzed s') = {v. iseen s' v}" using b'(2) by (simp_all add: reduced_def)
  have keep: "ikeep s' = (\<lambda>v. ikeep s v \<or> v \<in> abs ` set ?K')" using r(3) s1(2) unfolding K' by (auto simp: s2_def min_frame_def fun_eq_iff)
  have "kept_implies F s' (- l)" if res
    by (rule kept_implies_more[where s = s]) (use that s1(4) keep quiet_eqs(6)[OF quiet_trans[OF q2 r(1)]] in auto)
  then have "\<forall>k \<in> set (l # b). k \<in> set ?K' \<or> kept_implies F s' (- k)" using r(6) unfolding K' by (cases res) auto
  moreover have "distinct ?K'" "set ?K' \<subseteq> set (l # b)" using r(5) b'(3) Cons.prems(4) unfolding K' by (cases res; auto)+
  moreover have "\<forall>k \<in> set ?K'. - k \<in> set (itrail s) \<and> ivar_level s \<bar>k\<bar> = d" using r(4) l(1,2) unfolding K' by (auto simp: e split: if_splits)
  moreover have "abs ` set (ianalyzed s) = {v. iseen s v} \<longrightarrow> abs ` set (ianalyzed s') = {v. iseen s' v}"
    using r7 s1(2) by (simp add: s2_def min_frame_def split: if_splits)
  moreover have "length ?K' \<le> length (l # b)" using len unfolding K' by simp
  ultimately have "reduced F s d (l # b) ?K' s'" using quiet_trans[OF q2 r(1)] r(2) keep unfolding reduced_def by blast
  moreover have "shrunken_block_no_uip E uip0 s (l # b) = Some ((if res then uip0 else l) # b', s')"
    using s1(1) b'(1) by (simp add: s2_def[symmetric] del: minimize_literal.simps)
  ultimately show ?case using \<open>set ?K' \<subseteq> set (l # b)\<close> by blast
qed

lemma mark_removable_lits_ok:
  assumes "trail_ok s" "removal_ok F s" "\<forall>l \<in> set ls. - l \<in> set (itrail s) \<and> kept_implies F s (- l) \<and> ivar_level s \<bar>l\<bar> \<noteq> ilevel s"
  shows "min_frame s (mark_removable_lits s ls) \<and> removal_ok F (mark_removable_lits s ls)"
  using assms
proof (induction ls arbitrary: s)
  case (Cons l ls)
  define s1 where "s1 = (if iremovable s \<bar>l\<bar> then s else s\<lparr>iremovable := (iremovable s)(\<bar>l\<bar> := True), iminimized := iminimized s @ [l]\<rparr>)"
  have f: "min_frame s s1" by (simp add: s1_def min_frame_def quiet_def)
  then have q: "quiet s s1" by (simp add: min_frame_def)
  note e = quiet_eqs[OF q] and kept = min_frame_kept[OF f]
  have l: "- l \<in> set (itrail s)" "kept_implies F s (- l)" "ivar_level s \<bar>l\<bar> \<noteq> ilevel s" using Cons.prems(3) by simp_all
  have "removal_ok F s1"
    unfolding removal_ok_def
  proof (intro conjI ballI impI allI)
    fix k assume k: "k \<in> set (itrail s1)" "iremovable s1 \<bar>k\<bar>"
    then have "iremovable s \<bar>k\<bar> \<or> k = - l" using trail_same_abs[OF Cons.prems(1) _ l(1), of k] by (auto simp: s1_def split: if_splits)
    then show "kept_implies F s1 k" "ivar_level s1 \<bar>k\<bar> \<noteq> ilevel s1" using l Cons.prems(2) k(1) by (auto simp: removal_ok_def kept e)
  qed (use Cons.prems(2) in \<open>auto simp: removal_ok_def s1_def split: if_splits\<close>)
  moreover have "trail_ok s1" using Cons.prems(1) by (simp add: trail_ok_def e)
  ultimately have "min_frame s1 (mark_removable_lits s1 ls) \<and> removal_ok F (mark_removable_lits s1 ls)"
    using Cons.IH[of s1] Cons.prems(3) by (auto simp: e kept)
  then show ?case using min_frame_trans[OF f] by (simp add: s1_def)
qed simp

lemma shrunken_block_uip_ok:
  assumes core: "core_ok R s" and g: "graph_ok F s" and sh: "shrinking F s d sh" and d: "0 < d" "d < ilevel s"
    and u: "- uip \<in> set (sh_lits sh)" "\<forall>l \<in> set (sh_lits sh). l = - uip \<or> supported F s (set (sh_lits sh)) l" and b: "set b \<subseteq> set (sh_lits sh)"
    and uip0: "ivar_level s \<bar>uip0\<bar> \<noteq> d" and ne: "b \<noteq> []"
  shows "\<exists>b' s'. shrunken_block_uip sh uip b uip0 = Some (b', sh\<lparr>sh_internal := s', sh_flag := (\<lambda>v. False)\<rparr>) \<and>
    reduced F s d b (List.filter (\<lambda>l. l \<noteq> uip0) b') s'"
proof -
  let ?s = "sh_internal sh" and ?v = "\<bar>uip\<bar>"
  have fr: "min_frame s ?s" and rem: "removal_ok F ?s" and fl: "sh_flag sh = (\<lambda>v. v \<in> abs ` set (sh_lits sh))"
    and M: "\<forall>l \<in> set (sh_lits sh). - l \<in> set (itrail s) \<and> ivar_level s \<bar>l\<bar> = d" using sh by (simp_all add: shrinking_def)
  have qs: "quiet s ?s" using fr by (simp add: min_frame_def)
  note e = quiet_eqs[OF qs]
  have tok: "trail_ok s" and ctl: "length (icontrol s) = ilevel s + 1" using core by (simp_all add: core_ok_def control_ok_def)
  have ut: "uip \<in> set (itrail s)" "ivar_level s ?v = d" using u(1) M by auto
  then have uok: "ilit_ok ?s (- uip)" using tok by (simp add: trail_ok_def e)
  have dl: "d < length (icontrol ?s)" using d(2) ctl by (simp add: e)
  define l' where "l' = (icontrol ?s ! d)\<lparr>lv_seen_trail := int (ivar_trail s ?v), lv_seen_count := 1\<rparr>"
  define s1 where "s1 = ?s\<lparr>icontrol := (icontrol ?s)[d := l']\<rparr>"
  define s2 where "s2 = (if iseen s1 ?v then s1 else s1\<lparr>ianalyzed := ianalyzed s1 @ [- uip], iseen := (iseen s1)(?v := True)\<rparr>)"
  define s3 where "s3 = s2\<lparr>ikeep := (ikeep s2)(?v := True)\<rparr>"
  have "map lv_trail ((icontrol ?s)[d := l']) = map lv_trail (icontrol ?s)"
    using dl by (simp add: map_update list_update_same_conv l'_def)
  then have q1: "quiet ?s s1" by (simp add: quiet_def s1_def)
  have q12: "quiet s1 s2" by (simp add: quiet_def s2_def)
  have fl2: "ikeep s2 = ikeep s" "iremovable s2 = iremovable ?s" "ipoison s2 = ipoison ?s" "iminimized s2 = iminimized ?s" "itrail s2 = itrail ?s"
    "ivar_level s2 = ivar_level ?s" "ilevel s2 = ilevel ?s" using fr by (simp_all add: s1_def s2_def min_frame_def)
  have "kept_implies F s2 l = kept_implies F ?s l" for l using fr by (simp add: kept_implies_def fl2 min_frame_def)
  then have rem2: "removal_ok F s2" using rem by (simp add: removal_ok_def fl2)
  note k3 = keep_literal_ok[OF rem2, of ?v, folded s3_def]
  have q3: "quiet s s3" using quiet_trans[OF qs quiet_trans[OF q1 quiet_trans[OF q12 k3(1)]]] .
  note e3 = quiet_eqs[OF q3]
  have keep3: "ikeep s3 = (\<lambda>v. ikeep s v \<or> v \<in> abs ` set [- uip])" by (auto simp: s3_def fl2(1) fun_eq_iff)
  have "supported F s3 (set (sh_lits sh)) l" if "supported F s (set (sh_lits sh)) l" for l
    by (rule supported_kept[OF that q3]) (simp add: keep3)
  then have sup: "\<forall>l \<in> set (sh_lits sh). l = - uip \<or> supported F s3 (set (sh_lits sh)) l" using u(2) by blast
  have "kept_implies F s3 (- (- uip))" using ut(1) by (simp add: kept_implies_def e3 keep3)
  note imp = supported_implied[OF quiet_graph[OF q3 core g] this sup]
  have tok3: "trail_ok s3" using tok by (simp add: trail_ok_def e3)
  let ?s' = "mark_removable_lits s3 (sh_lits sh)"
  have "\<forall>l \<in> set (sh_lits sh). - l \<in> set (itrail s3) \<and> kept_implies F s3 (- l) \<and> ivar_level s3 \<bar>l\<bar> \<noteq> ilevel s3"
    using M imp d(2) by (auto simp: e3)
  from mark_removable_lits_ok[OF tok3 k3(2) this] have m: "min_frame s3 ?s'" "removal_ok F ?s'" by simp_all
  define b' where "b' = (- uip) # map (\<lambda>lit. if lit = - uip0 then lit else uip0) (tl b)"
  have lvl: "ivar_level s \<bar>l\<bar> = d" if "l \<in> set b" for l using b M that by blast
  have tlb: "l \<noteq> - uip0" if "l \<in> set (tl b)" for l using lvl[of l] that uip0 by (cases b) auto
  then have "map (\<lambda>lit. if lit = - uip0 then lit else uip0) (tl b) = map (\<lambda>lit. uip0) (tl b)" by (intro map_cong) auto
  moreover have "- uip \<noteq> uip0" using ut(2) uip0 by auto
  ultimately have K: "List.filter (\<lambda>l. l \<noteq> uip0) b' = [- uip]" by (simp add: b'_def)
  have "shrunken_block_uip sh uip b uip0 = Some (b', sh\<lparr>sh_internal := ?s', sh_flag := (\<lambda>v. False)\<rparr>)"
  proof -
    have "var_level ?s (- uip) = Some d" using uok ut(2) by (simp add: var_level_def e)
    then have "shrunken_block_uip sh uip b uip0 = Some (b', mark_shrinkable_as_removable (sh\<lparr>sh_internal := s3\<rparr>))" using dl
      by (simp add: shrunken_block_uip_def Let_def b'_def s3_def s2_def s1_def l'_def e)
    moreover have "mark_shrinkable_as_removable (sh\<lparr>sh_internal := s3\<rparr>) = sh\<lparr>sh_internal := ?s', sh_flag := (\<lambda>v. False)\<rparr>"
      by (simp add: mark_shrinkable_as_removable_def reset_shrinkable_def fl fun_eq_iff)
    ultimately show ?thesis by metis
  qed
  moreover have "quiet s ?s'" using quiet_trans[OF q3] m(1) by (simp add: min_frame_def)
  moreover have "ikeep ?s' = (\<lambda>v. ikeep s v \<or> v \<in> abs ` set [- uip])" using m(1) keep3 by (simp add: min_frame_def)
  moreover have "abs ` set (ianalyzed ?s') = {v. iseen ?s' v}" if "abs ` set (ianalyzed s) = {v. iseen s v}"
  proof -
    have "ianalyzed s1 = ianalyzed s" "iseen s1 = iseen s" using fr by (simp_all add: s1_def min_frame_def)
    then have "abs ` set (ianalyzed s3) = {v. iseen s3 v}" using that by (auto simp: s3_def s2_def)
    then show ?thesis using m(1) by (simp add: min_frame_def)
  qed
  moreover have "length [- uip] \<le> length b" using ne by (cases b) simp_all
  ultimately show ?thesis unfolding reduced_def K using m(2) ut b imp min_frame_kept[OF m(1)]
    by (intro exI[of _ b'] exI[of _ ?s'] conjI) (auto simp: K)
qed

lemma shrinking_start:
  assumes "sh_clean sh" "removal_ok F (sh_internal sh)" "m < length (itrail (sh_internal sh))"
  shows "shrinking F (sh_internal sh) d sh" "queue_ok E (sh_internal sh) m (sh_lits sh) (sh_reap sh) m (set (sh_lits sh))" "last_deleted (sh_reap sh) = 0"
  using assms new_reap_ok by (simp_all add: sh_clean_def shrinking_def queue_ok_def reap_clean_def)

lemma reap_cleared:
  assumes "reap_clean E r"
  shows "(if shrinkreap (opts E) then reap_clear r else r) = new_reap"
  using assms reap_clear_ok[of r] by (auto simp: reap_clean_def reap_ok_def placed_def)

lemma shrink_block_ok:
  assumes core: "core_ok R (sh_internal sh)" and g: "graph_ok F (sh_internal sh)" and rem: "removal_ok F (sh_internal sh)" and cl: "sh_clean sh"
    and d: "0 < d" "d < ilevel (sh_internal sh)" and b: "b \<noteq> []" "distinct b"
    "\<forall>l \<in> set b. - l \<in> set (itrail (sh_internal sh)) \<and> ivar_level (sh_internal sh) \<bar>l\<bar> = d \<and> ivar_trail (sh_internal sh) \<bar>l\<bar> \<le> m"
    and m: "m < length (itrail (sh_internal sh))" and uip0: "ivar_level (sh_internal sh) \<bar>uip0\<bar> \<noteq> d"
  shows "\<exists>b' sh'. shrink_block E sh b d uip0 m = Some (b', sh') \<and> sh_clean sh' \<and>
    reduced F (sh_internal sh) d b (List.filter (\<lambda>l. l \<noteq> uip0) b') (sh_internal sh')"
proof -
  let ?s = "sh_internal sh"
  note start = shrinking_start[OF cl rem m]
  have "\<exists>failed uip sh1. (if opt_shrink (opts E) = 0 then Some (True, uip0, sh)
        else do { sh' \<leftarrow> push_literals_of_block E d m sh b; shrink_loop E d m sh' (int (length b)) m }) = Some (failed, uip, sh1) \<and>
      shrinking F ?s d sh1 \<and> reap_clean E (sh_reap sh1) \<and> (\<not> failed \<longrightarrow> set b \<subseteq> set (sh_lits sh1) \<and> - uip \<in> set (sh_lits sh1) \<and>
        (\<forall>l \<in> set (sh_lits sh1). l = - uip \<or> supported F ?s (set (sh_lits sh1)) l))"
  proof (cases "opt_shrink (opts E) = 0")
    case True
    then show ?thesis using start(1) start(2)[of E] by (auto simp: queue_ok_def)
  next
    case False
    from push_literals_of_block_ok[where E = E, OF core g d(1) start b(3)] obtain sh1 where
      p: "push_literals_of_block E d m sh b = Some sh1" "shrinking F ?s d sh1" "set (sh_lits sh1) = set b"
      "queue_ok E ?s m (sh_lits sh1) (sh_reap sh1) m (set (sh_lits sh1))" using cl by (auto simp: sh_clean_def)
    have "set (sh_lits sh1) \<noteq> {}" "int (length b) = int (card (set (sh_lits sh1)))" using b(1,2) p(3) by (simp_all add: distinct_card)
    with shrink_loop_ok[OF core g d(1) p(2,4)] obtain failed uip sh2 where
      "shrink_loop E d m sh1 (int (length b)) m = Some (failed, uip, sh2)" "shrinking F ?s d sh2" "reap_clean E (sh_reap sh2)"
      "set (sh_lits sh1) \<subseteq> set (sh_lits sh2)"
      "\<not> failed \<longrightarrow> - uip \<in> set (sh_lits sh2) \<and> (\<forall>l \<in> set (sh_lits sh2). l = - uip \<or> supported F ?s (set (sh_lits sh2)) l)" by auto
    then show ?thesis using False p(1,3) by auto
  qed
  then obtain failed uip sh1 where l: "(if opt_shrink (opts E) = 0 then Some (True, uip0, sh)
        else do { sh' \<leftarrow> push_literals_of_block E d m sh b; shrink_loop E d m sh' (int (length b)) m }) = Some (failed, uip, sh1)"
    "shrinking F ?s d sh1" "reap_clean E (sh_reap sh1)" "\<not> failed \<Longrightarrow> set b \<subseteq> set (sh_lits sh1)" "\<not> failed \<Longrightarrow> - uip \<in> set (sh_lits sh1)"
    "\<not> failed \<Longrightarrow> \<forall>l \<in> set (sh_lits sh1). l = - uip \<or> supported F ?s (set (sh_lits sh1)) l" by blast
  have fr: "min_frame ?s (sh_internal sh1)" "removal_ok F (sh_internal sh1)" "sh_flag sh1 = (\<lambda>v. v \<in> abs ` set (sh_lits sh1))"
    using l(2) by (simp_all add: shrinking_def)
  define rest where "rest = (if failed then do {
          let sh' = reset_shrinkable sh1;
          (b, s) \<leftarrow> shrunken_block_no_uip E uip0 (sh_internal sh') b;
          Some (b, sh'\<lparr>sh_internal := s\<rparr>) }
        else shrunken_block_uip sh1 uip b uip0)"
  have "\<exists>b' s'. rest = Some (b', sh1\<lparr>sh_internal := s', sh_flag := (\<lambda>v. False)\<rparr>) \<and> reduced F ?s d b (List.filter (\<lambda>l. l \<noteq> uip0) b') s'"
  proof (cases failed)
    case True
    have q: "quiet ?s (sh_internal sh1)" using fr(1) by (simp add: min_frame_def)
    have lits: "\<forall>l \<in> set b. - l \<in> set (itrail (sh_internal sh1)) \<and> ivar_level (sh_internal sh1) \<bar>l\<bar> = d \<and> l \<noteq> uip0"
      using b(3) uip0 by (auto simp: quiet_eqs[OF q])
    from shrunken_block_no_uip_ok[OF quiet_core[OF q core] quiet_graph[OF q core g] fr(2) b(2) lits, of E] obtain b' s' where
      b': "shrunken_block_no_uip E uip0 (sh_internal sh1) b = Some (b', s')" "reduced F (sh_internal sh1) d b (List.filter (\<lambda>l. l \<noteq> uip0) b') s'" by blast
    have "reset_shrinkable sh1 = sh1\<lparr>sh_flag := (\<lambda>v. False)\<rparr>" by (simp add: reset_shrinkable_def fr(3) fun_eq_iff)
    then have "rest = Some (b', sh1\<lparr>sh_internal := s', sh_flag := (\<lambda>v. False)\<rparr>)" using True b'(1) by (simp add: rest_def)
    then show ?thesis using reduced_from[OF fr(1) b'(2)] by blast
  next
    case False
    from shrunken_block_uip_ok[OF core g l(2) d l(5)[OF False] l(6)[OF False] l(4)[OF False] uip0 b(1)] False show ?thesis by (simp add: rest_def)
  qed
  then obtain b' s' where b': "rest = Some (b', sh1\<lparr>sh_internal := s', sh_flag := (\<lambda>v. False)\<rparr>)" "reduced F ?s d b (List.filter (\<lambda>l. l \<noteq> uip0) b') s'" by blast
  let ?sh = "sh1\<lparr>sh_internal := s', sh_flag := (\<lambda>v. False), sh_lits := [], sh_reap := new_reap\<rparr>"
  have "shrink_block E sh b d uip0 m = Some (b', ?sh)"
    unfolding shrink_block_def l(1) using b'(1)[unfolded rest_def] reap_cleared[OF l(3)] by (cases "shrinkreap (opts E)") simp_all
  moreover have "sh_clean ?sh" by (simp add: sh_clean_def)
  ultimately show ?thesis using b'(2) by (intro exI[of _ b'] exI[of _ ?sh]) simp
qed

section \<open>The whole clause\<close>

lemma find_block_ok:
  assumes "\<forall>l \<in> set ls. ilit_ok s l" "\<exists>l \<in> set ls. ivar_level s \<bar>l\<bar> \<noteq> d"
  shows "\<exists>b m' r. find_block s d m ls = Some (b, m', r) \<and> ls = b @ r \<and> r \<noteq> [] \<and> ivar_level s \<bar>hd r\<bar> \<noteq> d \<and> m \<le> m' \<and>
    (\<forall>l \<in> set b. ivar_level s \<bar>l\<bar> = d \<and> ivar_trail s \<bar>l\<bar> \<le> m') \<and> (m' = m \<or> (\<exists>l \<in> set b. m' = ivar_trail s \<bar>l\<bar>))"
  using assms
proof (induction ls arbitrary: m)
  case (Cons l ls)
  show ?case
  proof (cases "ivar_level s \<bar>l\<bar> = d")
    case True
    let ?m = "max m (ivar_trail s \<bar>l\<bar>)"
    have ex: "\<exists>l \<in> set ls. ivar_level s \<bar>l\<bar> \<noteq> d" using Cons.prems(2) True by auto
    from Cons.IH[OF _ ex, of ?m] Cons.prems(1) obtain b m' r where
      r: "find_block s d ?m ls = Some (b, m', r)" "ls = b @ r" "r \<noteq> []" "ivar_level s \<bar>hd r\<bar> \<noteq> d" "?m \<le> m'"
      "\<forall>l \<in> set b. ivar_level s \<bar>l\<bar> = d \<and> ivar_trail s \<bar>l\<bar> \<le> m'" "m' = ?m \<or> (\<exists>l \<in> set b. m' = ivar_trail s \<bar>l\<bar>)" by auto
    then have "m' = m \<or> (\<exists>k \<in> set (l # b). m' = ivar_trail s \<bar>k\<bar>)" by (auto simp: max_def split: if_splits)
    then show ?thesis using r True Cons.prems(1) by (intro exI[of _ "l # b"] exI[of _ m'] exI[of _ r]) simp
  qed (use Cons.prems in auto)
qed simp

lemma reduced_kept:
  assumes "reduced F s d b K s'"
  shows "quiet s s'" "removal_ok F s'" "ikeep s' = (\<lambda>v. ikeep s v \<or> v \<in> abs ` set K)" "\<forall>l \<in> set K. - l \<in> set (itrail s) \<and> ivar_level s \<bar>l\<bar> = d"
    "distinct K" "\<forall>l \<in> set b. l \<in> set K \<or> kept_implies F s' (- l)"
    "abs ` set (ianalyzed s) = {v. iseen s v} \<Longrightarrow> abs ` set (ianalyzed s') = {v. iseen s' v}" "length K \<le> length b"
  using assms by (simp_all add: reduced_def)

lemma minimize_and_shrink_block_ok:
  assumes core: "core_ok R (sh_internal sh)" and g: "graph_ok F (sh_internal sh)" and rem: "removal_ok F (sh_internal sh)" and cl: "sh_clean sh"
    and ls: "ls \<noteq> []" "distinct ls" "\<forall>l \<in> set ls. - l \<in> set (itrail (sh_internal sh)) \<and> 0 < ivar_level (sh_internal sh) \<bar>l\<bar>"
    and d: "d = ivar_level (sh_internal sh) \<bar>hd ls\<bar>" "d < ilevel (sh_internal sh)"
    and uip0: "uip0 \<in> set ls" "ivar_level (sh_internal sh) \<bar>uip0\<bar> \<noteq> d"
  shows "\<exists>b b' r sh'. minimize_and_shrink_block E uip0 sh ls = Some (b', r, sh') \<and> ls = b @ r \<and> b \<noteq> [] \<and> r \<noteq> [] \<and>
    ivar_level (sh_internal sh) \<bar>hd r\<bar> \<noteq> d \<and> (\<forall>l \<in> set b. ivar_level (sh_internal sh) \<bar>l\<bar> = d) \<and> sh_clean sh' \<and>
    reduced F (sh_internal sh) d b (List.filter (\<lambda>l. l \<noteq> uip0) b') (sh_internal sh')"
proof -
  let ?s = "sh_internal sh"
  obtain lit more where lm: "ls = lit # more" using ls(1) by (cases ls) auto
  have tok: "trail_ok ?s" using core by (simp add: core_ok_def)
  have lok: "\<forall>l \<in> set ls. ilit_ok ?s l" using trail_lits_distinct(2)[OF tok ls(2)] ls(3) by blast
  have lit: "ivar_level ?s \<bar>lit\<bar> = d" "lit \<noteq> uip0" "- lit \<in> set (itrail ?s)" using d(1) uip0(2) ls(3) lm by auto
  have "\<exists>l \<in> set more. ivar_level ?s \<bar>l\<bar> \<noteq> d" using uip0 lit lm by auto
  from find_block_ok[OF _ this, of "ivar_trail ?s \<bar>lit\<bar>"] lok lm obtain b m r where
    f: "find_block ?s d (ivar_trail ?s \<bar>lit\<bar>) more = Some (b, m, r)" "more = b @ r" "r \<noteq> []" "ivar_level ?s \<bar>hd r\<bar> \<noteq> d" "ivar_trail ?s \<bar>lit\<bar> \<le> m"
    "\<forall>l \<in> set b. ivar_level ?s \<bar>l\<bar> = d \<and> ivar_trail ?s \<bar>l\<bar> \<le> m" "m = ivar_trail ?s \<bar>lit\<bar> \<or> (\<exists>l \<in> set b. m = ivar_trail ?s \<bar>l\<bar>)" by auto
  have vl: "var_level ?s lit = Some d" using lok lm lit(1) by (simp add: var_level_def)
  show ?thesis
  proof (cases "b = []")
    case True
    let ?s1 = "?s\<lparr>ikeep := (ikeep ?s)(\<bar>lit\<bar> := True)\<rparr>" let ?s2 = "?s\<lparr>ikeep := (ikeep ?s)(\<bar>lit\<bar> := True), iminimized := iminimized ?s @ [lit]\<rparr>"
    note k = keep_literal_ok[OF rem, of "\<bar>lit\<bar>"]
    have "removal_ok F ?s2" using k(2) by (auto simp: removal_ok_def kept_implies_def)
    moreover have "quiet ?s ?s2" by (simp add: quiet_def)
    ultimately have "reduced F ?s d [lit] [lit] ?s2" using lit by (auto simp: reduced_def fun_eq_iff)
    moreover have "minimize_and_shrink_block E uip0 sh ls = Some ([lit], r, sh\<lparr>sh_internal := ?s2\<rparr>)" using lm vl f(1) True by (simp add: Let_def)
    ultimately show ?thesis using lm f True cl lit by (intro exI[of _ "[lit]"] exI[of _ "[lit]"] exI[of _ r]) (auto simp: sh_clean_def)
  next
    case False
    have b: "distinct (lit # b)" "\<forall>l \<in> set (lit # b). - l \<in> set (itrail ?s) \<and> ivar_level ?s \<bar>l\<bar> = d \<and> ivar_trail ?s \<bar>l\<bar> \<le> m"
      using ls(2,3) lm f(2,5,6) lit by auto
    have m: "m < length (itrail ?s)"
    proof -
      obtain l where "l \<in> set (lit # b)" "m = ivar_trail ?s \<bar>l\<bar>" using f(7) by auto
      then show ?thesis using trail_ok_position(1)[OF tok, of "- l"] b(2) by auto
    qed
    have d0: "0 < d" using ls(3) lit(1) lm by auto
    from shrink_block_ok[OF core g rem cl d0 d(2) _ b m uip0(2), of E] obtain b' sh' where
      b': "shrink_block E sh (lit # b) d uip0 m = Some (b', sh')" "sh_clean sh'" "reduced F ?s d (lit # b) (List.filter (\<lambda>l. l \<noteq> uip0) b') (sh_internal sh')" by auto
    have "minimize_and_shrink_block E uip0 sh ls = Some (b', r, sh')" using lm vl f(1) False b'(1) by simp
    then show ?thesis using lm f b' lit(1) by (intro exI[of _ "lit # b"] exI[of _ b'] exI[of _ r] exI[of _ sh']) simp
  qed
qed

text \<open>The blocks have increasing levels; the last literal is the UIP.\<close>

lemma shrink_blocks_ok:
  assumes "core_ok R (sh_internal sh)" "graph_ok F (sh_internal sh)" "removal_ok F (sh_internal sh)" "sh_clean sh"
    "ls \<noteq> []" "distinct ls" "\<forall>l \<in> set ls. - l \<in> set (itrail (sh_internal sh)) \<and> 0 < ivar_level (sh_internal sh) \<bar>l\<bar>"
    "sorted (map (\<lambda>l. ivar_level (sh_internal sh) \<bar>l\<bar>) ls)" "last ls = uip0" "\<forall>l \<in> set (butlast ls). ivar_level (sh_internal sh) \<bar>l\<bar> < ilevel (sh_internal sh)"
    "ivar_level (sh_internal sh) \<bar>uip0\<bar> = ilevel (sh_internal sh)"
  shows "\<exists>bs sh'. shrink_blocks E uip0 sh ls = Some (bs, sh') \<and> quiet (sh_internal sh) (sh_internal sh') \<and> removal_ok F (sh_internal sh') \<and> sh_clean sh' \<and>
    (let K = List.filter (\<lambda>l. l \<noteq> uip0) bs in
      ikeep (sh_internal sh') = (\<lambda>v. ikeep (sh_internal sh) v \<or> v \<in> abs ` set K) \<and> distinct K \<and> length K \<le> length (butlast ls) \<and>
      (\<forall>l \<in> set K. - l \<in> set (itrail (sh_internal sh)) \<and> ivar_level (sh_internal sh) \<bar>hd ls\<bar> \<le> ivar_level (sh_internal sh) \<bar>l\<bar> \<and>
         (\<exists>k \<in> set (butlast ls). ivar_level (sh_internal sh) \<bar>l\<bar> = ivar_level (sh_internal sh) \<bar>k\<bar>)) \<and>
      (\<forall>l \<in> set (butlast ls). l \<in> set K \<or> kept_implies F (sh_internal sh') (- l))) \<and>
    (abs ` set (ianalyzed (sh_internal sh)) = {v. iseen (sh_internal sh) v} \<longrightarrow> abs ` set (ianalyzed (sh_internal sh')) = {v. iseen (sh_internal sh') v})"
  using assms
proof (induction "length ls" arbitrary: sh ls rule: less_induct)
  case less
  let ?s = "sh_internal sh"
  show ?case
  proof (cases "length ls = 1")
    case True
    then have "shrink_blocks E uip0 sh ls = Some ([], sh)" by (subst shrink_blocks.simps) simp
    moreover have "butlast ls = []" using True by (metis length_butlast length_0_conv diff_self_eq_0)
    ultimately show ?thesis using less.prems(3,4) by (intro exI[of _ "[]"] exI[of _ sh]) simp
  next
    case False
    let ?d = "ivar_level ?s \<bar>hd ls\<bar>"
    have two: "hd ls \<in> set (butlast ls)" "uip0 \<in> set ls" using False less.prems(5,9) by (cases ls; auto)+
    have d: "?d < ilevel ?s" "ivar_level ?s \<bar>uip0\<bar> \<noteq> ?d" using less.prems(10,11) two(1) by auto
    from minimize_and_shrink_block_ok[OF less.prems(1-7) refl d(1) two(2) d(2), of E] obtain b b' r sh1 where
      b: "minimize_and_shrink_block E uip0 sh ls = Some (b', r, sh1)" "ls = b @ r" "b \<noteq> []" "r \<noteq> []" "ivar_level ?s \<bar>hd r\<bar> \<noteq> ?d"
      "\<forall>l \<in> set b. ivar_level ?s \<bar>l\<bar> = ?d" "sh_clean sh1" "reduced F ?s ?d b (List.filter (\<lambda>l. l \<noteq> uip0) b') (sh_internal sh1)"
      by (elim exE conjE) (rule that; assumption)
    let ?s1 = "sh_internal sh1" let ?K = "List.filter (\<lambda>l. l \<noteq> uip0) b'"
    note red = reduced_kept[OF b(8)] and e = quiet_eqs[OF reduced_kept(1)[OF b(8)]]
    have bl: "butlast ls = b @ butlast r" using b(2,4) by (simp add: butlast_append)
    have hr: "?d < ivar_level ?s \<bar>hd r\<bar>"
    proof -
      have "?d \<le> ivar_level ?s \<bar>hd r\<bar>" using less.prems(8) b(2-4) by (cases b; cases r) (auto simp: sorted_append)
      then show ?thesis using b(5) by simp
    qed
    have r_ok: "distinct r" "\<forall>l \<in> set r. - l \<in> set (itrail ?s1) \<and> 0 < ivar_level ?s1 \<bar>l\<bar>" "sorted (map (\<lambda>l. ivar_level ?s1 \<bar>l\<bar>) r)" "last r = uip0"
      "\<forall>l \<in> set (butlast r). ivar_level ?s1 \<bar>l\<bar> < ilevel ?s1" "ivar_level ?s1 \<bar>uip0\<bar> = ilevel ?s1" "length r < length ls"
      using less.prems(6-11) b(2-4) bl by (auto simp: e sorted_append)
    from less.hyps[OF r_ok(7) quiet_core[OF red(1) less.prems(1)] quiet_graph[OF red(1) less.prems(1,2)] red(2) b(7,4) r_ok(1-6)] obtain bs sh' where
      r: "shrink_blocks E uip0 sh1 r = Some (bs, sh')" "quiet ?s1 (sh_internal sh')" "removal_ok F (sh_internal sh')" "sh_clean sh'"
      "ikeep (sh_internal sh') = (\<lambda>v. ikeep ?s1 v \<or> v \<in> abs ` set (List.filter (\<lambda>l. l \<noteq> uip0) bs))" "distinct (List.filter (\<lambda>l. l \<noteq> uip0) bs)"
      "length (List.filter (\<lambda>l. l \<noteq> uip0) bs) \<le> length (butlast r)"
      "\<forall>l \<in> set (List.filter (\<lambda>l. l \<noteq> uip0) bs). - l \<in> set (itrail ?s1) \<and> ivar_level ?s1 \<bar>hd r\<bar> \<le> ivar_level ?s1 \<bar>l\<bar> \<and>
        (\<exists>k \<in> set (butlast r). ivar_level ?s1 \<bar>l\<bar> = ivar_level ?s1 \<bar>k\<bar>)"
      "\<forall>l \<in> set (butlast r). l \<in> set (List.filter (\<lambda>l. l \<noteq> uip0) bs) \<or> kept_implies F (sh_internal sh') (- l)"
      "abs ` set (ianalyzed ?s1) = {v. iseen ?s1 v} \<longrightarrow> abs ` set (ianalyzed (sh_internal sh')) = {v. iseen (sh_internal sh') v}"
      unfolding Let_def by (elim exE conjE) (rule that; assumption)
    let ?K2 = "List.filter (\<lambda>l. l \<noteq> uip0) bs"
    have run: "shrink_blocks E uip0 sh ls = Some (b' @ bs, sh')" using False b(1) r(1) by (subst shrink_blocks.simps) simp
    have keep: "ikeep (sh_internal sh') = (\<lambda>v. ikeep ?s v \<or> v \<in> abs ` set (?K @ ?K2))" using r(5) red(3) by (auto simp: fun_eq_iff)
    have lo: "ivar_level ?s \<bar>l\<bar> = ?d" if "l \<in> set ?K" for l using red(4) that by blast
    have hi: "ivar_level ?s \<bar>l\<bar> \<noteq> ?d" if "l \<in> set ?K2" for l using r(8) that hr by (auto simp: e)
    have disj: "set ?K \<inter> set ?K2 = {}" using lo hi by blast
    have imp: "kept_implies F (sh_internal sh') k" if "kept_implies F ?s1 k" for k
      by (rule kept_implies_more[OF that quiet_eqs(6)[OF r(2)]]) (simp add: r(5))
    have all: "\<forall>l \<in> set (butlast ls). l \<in> set (?K @ ?K2) \<or> kept_implies F (sh_internal sh') (- l)"
      unfolding bl using red(6) imp r(9) by auto
    have K: "\<forall>l \<in> set (?K @ ?K2). - l \<in> set (itrail ?s) \<and> ?d \<le> ivar_level ?s \<bar>l\<bar> \<and> (\<exists>k \<in> set (butlast ls). ivar_level ?s \<bar>l\<bar> = ivar_level ?s \<bar>k\<bar>)"
    proof
      fix l assume "l \<in> set (?K @ ?K2)"
      then consider "l \<in> set ?K" | "l \<in> set ?K2" by fastforce
      then show "- l \<in> set (itrail ?s) \<and> ?d \<le> ivar_level ?s \<bar>l\<bar> \<and> (\<exists>k \<in> set (butlast ls). ivar_level ?s \<bar>l\<bar> = ivar_level ?s \<bar>k\<bar>)"
      proof cases
        case 1
        then show ?thesis using red(4) two(1) by fastforce
      next
        case 2
        then have "- l \<in> set (itrail ?s)" "ivar_level ?s \<bar>hd r\<bar> \<le> ivar_level ?s \<bar>l\<bar>" "\<exists>k \<in> set (butlast r). ivar_level ?s \<bar>l\<bar> = ivar_level ?s \<bar>k\<bar>"
          using r(8) by (simp_all add: e)
        then show ?thesis using hr unfolding bl by auto
      qed
    qed
    have dist: "distinct (?K @ ?K2)" using red(5) r(6) disj by simp
    have short: "length (?K @ ?K2) \<le> length (butlast ls)" using red(8) r(7) unfolding bl by simp
    have seen: "abs ` set (ianalyzed ?s) = {v. iseen ?s v} \<longrightarrow> abs ` set (ianalyzed (sh_internal sh')) = {v. iseen (sh_internal sh') v}"
      using red(7) r(10) by blast
    show ?thesis
      unfolding Let_def filter_append
      by (intro exI[of _ "b' @ bs"] exI[of _ sh'] conjI run quiet_trans[OF red(1) r(2)] r(3,4) seen, unfold filter_append)
        (intro keep dist short K all)+
  qed
qed

lemma shrink_rank: "shrink_trail_negative_rank = analyze_trail_negative_rank"
  by (simp add: fun_eq_iff shrink_trail_negative_rank_def analyze_trail_negative_rank_def)

text \<open>The clause sorted for shrinking: the flipped UIP comes first, and levels do not increase.\<close>

lemma shrink_order:
  fixes s :: "('p, 'h) internal"
  defines "c \<equiv> sort_key (shrink_trail_negative_rank s) (iclause s)"
  assumes ok: "trail_ok s" "imax_var s \<le> INT_MAX" and u: "uip_clause F s u" "1 < length (iclause s)"
  shows "set c = set (iclause s)" "distinct c" "hd c = u" "c \<noteq> []" "sorted (map (\<lambda>l. ivar_level s \<bar>l\<bar>) (rev c))"
proof -
  have uc: "distinct (iclause s)" "\<forall>l \<in> set (iclause s). - l \<in> set (itrail s)" "u \<in> set (iclause s)" "ivar_level s \<bar>u\<bar> = ilevel s"
    "\<forall>l \<in> set (iclause s). l \<noteq> u \<longrightarrow> ivar_level s \<bar>l\<bar> < ilevel s" using u(1) by (simp_all add: uip_clause_def)
  show sd: "set c = set (iclause s)" "distinct c" using uc(1) by (simp_all add: c_def)
  have "length c = length (iclause s)" by (simp add: c_def)
  then show ne: "c \<noteq> []" using u(2) by auto
  have "2 \<le> length (iclause s)" using u(2) by simp
  from driving_order(1)[OF ok this uc(1,2,3,4,5)] show "hd c = u" using ne by (simp add: c_def shrink_rank hd_conv_nth)
  have small: "ivar_trail s \<bar>l\<bar> < 2 ^ 32" if "l \<in> set c" for l
    using trail_positions_small[OF ok, of "- l"] uc(2) that sd(1) by simp
  have "sorted_wrt (\<lambda>a b. analyze_trail_negative_rank s a \<le> analyze_trail_negative_rank s b) c"
    using sorted_sort_key[of "analyze_trail_negative_rank s" "iclause s"] by (simp add: c_def shrink_rank sorted_map)
  then have "sorted_wrt (\<lambda>a b. ivar_level s \<bar>b\<bar> \<le> ivar_level s \<bar>a\<bar>) c"
    by (rule sorted_wrt_mono_rel[rotated]) (use rank_levels small in blast)
  then show "sorted (map (\<lambda>l. ivar_level s \<bar>l\<bar>) (rev c))" by (simp add: sorted_wrt_rev sorted_map)
qed

lemma shrink_and_minimize_clause_ok:
  assumes core: "core_ok R s" and g: "graph_ok F s" and u: "uip_clause F s u" and len: "1 < length (iclause s)"
    and flags: "iminimized s = []" "ikeep s = (\<lambda>v. False)" "ipoison s = (\<lambda>v. False)" "iremovable s = (\<lambda>v. False)"
  shows "\<exists>s'. shrink_and_minimize_clause E s = Some s' \<and> simplifies F s s' \<and> length (iclause s') \<le> length (iclause s) \<and>
    (\<forall>l \<in> set (iclause s'). \<exists>k \<in> set (iclause s). ivar_level s \<bar>l\<bar> = ivar_level s \<bar>k\<bar>)"
proof -
  define c where "c = sort_key (shrink_trail_negative_rank s) (iclause s)"
  have tok: "trail_ok s" "imax_var s \<le> INT_MAX" using core g by (simp_all add: core_ok_def graph_ok_def)
  note ord = shrink_order[OF tok u len, folded c_def]
  have uc: "0 < ilevel s" "\<forall>l \<in> set c. - l \<in> set (itrail s) \<and> 0 < ivar_level s \<bar>l\<bar>" "u \<in> set c" "ivar_level s \<bar>u\<bar> = ilevel s" "entails F [] (iclause s)"
    "\<forall>l \<in> set c. l \<noteq> u \<longrightarrow> ivar_level s \<bar>l\<bar> < ilevel s" using u unfolding uip_clause_def ord(1) by simp_all
  let ?s = "s\<lparr>iclause := c\<rparr>" let ?sh = "new_shrinker ?s"
  have q0: "quiet s ?s" by (simp add: quiet_def)
  have sh: "sh_internal ?sh = ?s" "sh_clean ?sh" by (simp_all add: new_shrinker_def sh_clean_def)
  have rem: "removal_ok F ?s" using flags by (simp add: removal_ok_def)
  have lst: "last (rev c) = u" "butlast (rev c) = rev (tl c)" "c = u # tl c" using ord(3,4) by (simp_all add: last_rev butlast_rev) (metis list.collapse)
  have tl: "\<forall>l \<in> set (butlast (rev c)). ivar_level s \<bar>l\<bar> < ilevel s"
  proof
    fix l assume "l \<in> set (butlast (rev c))"
    then have "l \<in> set (tl c)" using lst(2) by simp
    then have "l \<in> set c" "l \<noteq> u" using ord(2) lst(3) by (metis list.set_intros(2), metis distinct.simps(2))
    then show "ivar_level s \<bar>l\<bar> < ilevel s" using uc(6) by blast
  qed
  have p: "core_ok R (sh_internal ?sh)" "graph_ok F (sh_internal ?sh)" "removal_ok F (sh_internal ?sh)" "rev c \<noteq> []" "distinct (rev c)"
    "\<forall>l \<in> set (rev c). - l \<in> set (itrail (sh_internal ?sh)) \<and> 0 < ivar_level (sh_internal ?sh) \<bar>l\<bar>"
    "sorted (map (\<lambda>l. ivar_level (sh_internal ?sh) \<bar>l\<bar>) (rev c))" "\<forall>l \<in> set (butlast (rev c)). ivar_level (sh_internal ?sh) \<bar>l\<bar> < ilevel (sh_internal ?sh)"
    "ivar_level (sh_internal ?sh) \<bar>u\<bar> = ilevel (sh_internal ?sh)"
    unfolding sh(1) using quiet_core[OF q0 core] quiet_graph[OF q0 core g] rem ord(2,4,5) uc(2,4) tl by simp_all
  from shrink_blocks_ok[OF p(1-3) sh(2) p(4-7) lst(1) p(8,9), of E, unfolded sh(1) Let_def] obtain bs sh' where
    b: "shrink_blocks E u ?sh (rev c) = Some (bs, sh')" "quiet ?s (sh_internal sh')" "removal_ok F (sh_internal sh')"
    "ikeep (sh_internal sh') = (\<lambda>v. ikeep ?s v \<or> v \<in> abs ` set (List.filter (\<lambda>l. l \<noteq> u) bs))" "distinct (List.filter (\<lambda>l. l \<noteq> u) bs)"
    "\<forall>l \<in> set (List.filter (\<lambda>l. l \<noteq> u) bs). - l \<in> set (itrail ?s) \<and> ivar_level ?s \<bar>hd (rev c)\<bar> \<le> ivar_level ?s \<bar>l\<bar> \<and>
      (\<exists>k \<in> set (butlast (rev c)). ivar_level ?s \<bar>l\<bar> = ivar_level ?s \<bar>k\<bar>)"
    "\<forall>l \<in> set (butlast (rev c)). l \<in> set (List.filter (\<lambda>l. l \<noteq> u) bs) \<or> kept_implies F (sh_internal sh') (- l)"
    "abs ` set (ianalyzed ?s) = {v. iseen ?s v} \<longrightarrow> abs ` set (ianalyzed (sh_internal sh')) = {v. iseen (sh_internal sh') v}"
    "length (List.filter (\<lambda>l. l \<noteq> u) bs) \<le> length (butlast (rev c))"
    by (elim exE conjE) (rule that; assumption)
  let ?t = "sh_internal sh'" and ?c1 = "u # List.filter (\<lambda>l. l \<noteq> u) (rev bs)"
  have q: "quiet s ?t" using quiet_trans[OF q0 b(2)] .
  note e = quiet_eqs[OF q]
  have set1: "set ?c1 = insert u (set (List.filter (\<lambda>l. l \<noteq> u) bs))" by auto
  have low: "0 < ivar_level s \<bar>l\<bar> \<and> ivar_level s \<bar>l\<bar> < ilevel s \<and> - l \<in> set (itrail s)" if "l \<in> set (List.filter (\<lambda>l. l \<noteq> u) bs)" for l
  proof -
    have "hd (rev c) \<in> set c" using ord(4) by (simp add: hd_rev)
    then have "0 < ivar_level s \<bar>hd (rev c)\<bar>" using uc(2) by blast
    moreover have "- l \<in> set (itrail s)" "ivar_level s \<bar>hd (rev c)\<bar> \<le> ivar_level s \<bar>l\<bar>" "ivar_level s \<bar>l\<bar> < ilevel s"
      using b(6) that tl by auto
    ultimately show ?thesis by simp
  qed
  have lits: "\<forall>l \<in> set ?c1. - l \<in> set (itrail s)" using low uc(2,3) unfolding set1 by blast
  have keep: "\<forall>v. ikeep ?t v \<longrightarrow> v \<in> abs ` set ?c1" unfolding b(4) set1 using flags(2) by auto
  have dist: "distinct ?c1" using b(5) by (simp add: rev_filter[symmetric])
  have "trail_ok ?t" using tok(1) by (simp add: trail_ok_def e)
  moreover have "\<forall>l \<in> set (iclause s). l \<in> set ?c1 \<or> kept_implies F ?t (- l)"
    using b(7) lst(2,3) unfolding set1 ord(1)[symmetric] by (metis insert_iff list.simps(15) set_rev)
  ultimately have ent: "entails F [] ?c1" using kept_entailed[OF _ uc(5), of ?t ?c1] lits keep by (simp add: e)
  have "removal_ok F (?t\<lparr>iclause := ?c1\<rparr>)" using b(3) by (simp add: removal_ok_def kept_implies_def)
  note clear = clear_minimized_ok[OF this]
  have keep': "\<forall>v. ikeep (?t\<lparr>iclause := ?c1\<rparr>) v \<longrightarrow> v \<in> abs ` set (iclause (?t\<lparr>iclause := ?c1\<rparr>))" using keep by simp
  note clear = clear[OF keep']
  let ?r = "clear_minimized_literals (?t\<lparr>iclause := ?c1\<rparr>)"
  have "quiet ?t (?t\<lparr>iclause := ?c1\<rparr>)" by (simp add: quiet_def)
  then have qr: "quiet s ?r" using quiet_trans[OF q quiet_trans[OF _ clear(1)]] by blast
  have cur: "\<forall>l \<in> set (iclause s). ivar_level s \<bar>l\<bar> = ilevel s \<longrightarrow> l \<in> set ?c1" using uc(6) unfolding ord(1) by auto
  have "\<forall>l \<in> set ?c1. - l \<in> set (itrail s) \<and> (l \<in> set (iclause s) \<or> 0 < ivar_level s \<bar>l\<bar> \<and> ivar_level s \<bar>l\<bar> < ilevel s)"
    using low lits uc(3) unfolding set1 ord(1) by blast
  then have "simplifies F s ?r" using qr dist ent cur clear(2-8) b(8) by (simp add: simplifies_def)
  moreover have "vec_at c 0 = Some u" using ord(3,4) by (simp add: hd_conv_nth)
  then have "shrink_and_minimize_clause E s = Some ?r" using b(1) by (simp add: shrink_and_minimize_clause_def Let_def c_def[symmetric])
  moreover have "length ?c1 \<le> length (iclause s)"
  proof -
    have "length (List.filter (\<lambda>l. l \<noteq> u) (rev bs)) = length (List.filter (\<lambda>l. l \<noteq> u) bs)" by (simp add: rev_filter[symmetric])
    moreover have "length c = length (iclause s)" by (simp add: c_def)
    ultimately show ?thesis using b(9) ord(4) by (cases c) simp_all
  qed
  moreover have "\<forall>l \<in> set ?c1. \<exists>k \<in> set (iclause s). ivar_level s \<bar>l\<bar> = ivar_level s \<bar>k\<bar>"
  proof
    fix l assume "l \<in> set ?c1"
    then consider "l = u" | "l \<in> set (List.filter (\<lambda>l. l \<noteq> u) bs)" unfolding set1 by blast
    then show "\<exists>k \<in> set (iclause s). ivar_level s \<bar>l\<bar> = ivar_level s \<bar>k\<bar>"
    proof cases
      case 2
      then obtain k where "k \<in> set (butlast (rev c))" "ivar_level s \<bar>l\<bar> = ivar_level s \<bar>k\<bar>" using b(6) by auto
      then show ?thesis using in_set_butlastD[of k "rev c"] ord(1) by auto
    qed (use uc(3) ord(1) in blast)
  qed
  ultimately show ?thesis using clear(6) by (intro exI[of _ ?r]) simp
qed

end
