(* ===== verification/Solver_Cdcl.thy ===== *)
theory Solver_Cdcl
  imports Solver_Shrink
begin

text \<open>
  Conflict analysis as a whole: from a conflict to the next state of the search, through the
  contract that a simplification of learned clauses has to meet, which minimization does.
\<close>

section \<open>Eager subsumption\<close>

lemma mark_garbage_quiet:
  assumes "istore s q = Some d" "cl_redundant d"
  shows "quiet s (mark_garbage s q d)" "same_marks s (mark_garbage s q d)"
proof -
  have "quiet s (s\<lparr>istore := (istore s)(q \<mapsto> d\<lparr>cl_garbage := True, cl_used := 0\<rparr>)\<rparr>)"
    by (rule quiet_set_clause[OF assms(1)]) (use assms(2) in \<open>simp add: same_lits_def\<close>)
  then show "quiet s (mark_garbage s q d)" by (cases "length (cl_lits d) = 2") (simp_all add: mark_garbage_def Let_def trace_def quiet_def)
  show "same_marks s (mark_garbage s q d)" by (simp add: mark_garbage_def Let_def trace_def same_marks_def)
qed

lemma subsumed_by_marks_returns: "\<forall>l \<in> set ls. ilit_ok s l \<Longrightarrow> \<exists>b. subsumed_by_marks s n ls = Some b"
  by (induction ls arbitrary: n) (auto simp: marked_def)

lemma eager_loop_ok:
  "clauses_ok s \<Longrightarrow> set qs \<subseteq> dom (istore s) \<Longrightarrow> \<exists>s'. eager_loop p n lim s qs = Some s' \<and> quiet s s' \<and> same_marks s s'"
proof (induction qs arbitrary: s)
  case (Cons q qs)
  define s1 where "s1 = s\<lparr>ieagertried := ieagertried s + 1\<rparr>"
  have q1: "quiet s s1" "same_marks s s1" by (simp_all add: s1_def quiet_def same_marks_def)
  have next_ok: "\<exists>s'. eager_loop p n lim t qs = Some s' \<and> quiet s s' \<and> same_marks s s'" if t: "quiet s1 t" "same_marks s1 t" for t
  proof -
    have q: "quiet s t" "same_marks s t" using quiet_trans[OF q1(1) t(1)] q1(2) t(2) by (simp_all add: same_marks_def)
    have "clauses_ok t" unfolding clauses_ok_def
    proof (intro allI impI)
      fix r c' assume "istore t r = Some c'"
      from quiet_store2[OF q(1) this] Cons.prems(1) show "r < ifresh t \<and> clause_ok t c'"
        by (auto simp: clauses_ok_def clause_ok_def same_lits_def quiet_eqs[OF q(1)])
    qed
    moreover have "set qs \<subseteq> dom (istore t)" using Cons.prems(2) quiet_store[OF q(1)] by (fastforce simp: dom_def)
    ultimately obtain s' where "eager_loop p n lim t qs = Some s'" "quiet t s'" "same_marks t s'" using Cons.IH by blast
    then show ?thesis using quiet_trans[OF q(1)] q(2) by (auto simp: same_marks_def)
  qed
  obtain d where d: "istore s q = Some d" using Cons.prems(2) by auto
  then have d1: "istore s1 q = Some d" by (simp add: s1_def)
  have "clause_ok s d" using Cons.prems(1) d by (auto simp: clauses_ok_def)
  then have "\<forall>l \<in> set (cl_lits d). ilit_ok s1 l" by (auto simp: clause_ok_def s1_def ilit_ok_def)
  then obtain b where b: "subsumed_by_marks s1 n (cl_lits d) = Some b" using subsumed_by_marks_returns by blast
  consider "\<not> ieagertried s \<le> lim" | "ieagertried s \<le> lim" "q = p \<or> cl_garbage d \<or> \<not> cl_redundant d"
    | "ieagertried s \<le> lim" "q \<noteq> p" "\<not> cl_garbage d" "cl_redundant d" by blast
  then show ?case
  proof cases
    case 1
    then show ?thesis using q1 by (simp add: s1_def[simplified, symmetric])
  next
    case 2
    then show ?thesis using next_ok[of s1] d1 by (auto simp: s1_def[simplified, symmetric])
  next
    case 3
    then show ?thesis using next_ok[of s1] next_ok[OF mark_garbage_quiet[OF d1 3(4)]] d1 b by (simp add: s1_def[simplified, symmetric])
  qed
qed simp

lemma mark_lits: "\<forall>l \<in> set ls. ilit_ok s l \<Longrightarrow> \<exists>m. mfold mark s ls = Some (s\<lparr>imarks := m\<rparr>) \<and> (\<forall>v. v \<notin> abs ` set ls \<longrightarrow> m v = imarks s v)"
proof (induction ls arbitrary: s)
  case Nil
  show ?case by (rule exI[of _ "imarks s"]) simp
next
  case (Cons l ls)
  let ?s = "s\<lparr>imarks := (imarks s)(\<bar>l\<bar> := sgn l)\<rparr>"
  have "\<forall>k \<in> set ls. ilit_ok ?s k" using Cons.prems by (simp add: ilit_ok_def)
  from Cons.IH[OF this] obtain m where "mfold mark ?s ls = Some (?s\<lparr>imarks := m\<rparr>)" "\<forall>v. v \<notin> abs ` set ls \<longrightarrow> m v = imarks ?s v" by blast
  moreover have "mark s l = Some ?s" using Cons.prems by (simp add: mark_def)
  ultimately show ?case by (intro exI[of _ m]) simp
qed

lemma unmark_lits:
  "\<forall>l \<in> set ls. ilit_ok s l \<Longrightarrow> mfold unmark s ls = Some (s\<lparr>imarks := (\<lambda>v. if v \<in> abs ` set ls then 0 else imarks s v)\<rparr>)"
proof (induction ls arbitrary: s)
  case (Cons l ls)
  let ?s = "s\<lparr>imarks := (imarks s)(\<bar>l\<bar> := 0)\<rparr>"
  have "\<forall>k \<in> set ls. ilit_ok ?s k" using Cons.prems by (simp add: ilit_ok_def)
  moreover have "(\<lambda>v. if v \<in> abs ` set ls then 0 else imarks ?s v) = (\<lambda>v. if v \<in> abs ` set (l # ls) then 0 else imarks s v)" by auto
  moreover have "unmark s l = Some ?s" using Cons.prems by (simp add: unmark_def)
  ultimately show ?case using Cons.IH[of ?s] by simp
qed simp

lemma eagerly_subsume_ok:
  assumes core: "core_ok R s" and g: "graph_ok F s" and p: "istore s p = Some c" and m: "imarks s = (\<lambda>v. 0)"
  shows "\<exists>s'. eagerly_subsume_recently_learned_clauses E s p = Some s' \<and> quiet s s' \<and> same_marks s s'"
proof -
  have "clause_ok s c" using core p by (auto simp: core_ok_def clauses_ok_def)
  then have c: "\<forall>l \<in> set (cl_lits c). ilit_ok s l" by (simp add: clause_ok_def)
  from mark_lits[OF this] obtain m1 where m1: "mfold mark s (cl_lits c) = Some (s\<lparr>imarks := m1\<rparr>)" "\<forall>v. v \<notin> abs ` set (cl_lits c) \<longrightarrow> m1 v = 0"
    using m by auto
  let ?s1 = "s\<lparr>imarks := m1\<rparr>"
  have "clauses_ok ?s1" "set (rev (iclauses ?s1)) \<subseteq> dom (istore ?s1)"
    using core g by (simp_all add: core_ok_def graph_ok_def clauses_ok_def clause_ok_def ilit_ok_def)
  from eager_loop_ok[OF this] obtain s2 where
    s2: "eager_loop p (length (cl_lits c)) (ieagertried ?s1 + eagersubsumelim (opts E)) ?s1 (rev (iclauses ?s1)) = Some s2" "quiet ?s1 s2" "same_marks ?s1 s2"
    by blast
  have m2: "imarks s2 = m1" "imax_var s2 = imax_var s" using s2(2) by (simp_all add: quiet_def)
  have "\<forall>l \<in> set (cl_lits c). ilit_ok s2 l" using c m2(2) by (simp add: ilit_ok_def)
  from unmark_lits[OF this] have "mfold unmark s2 (cl_lits c) = Some (s2\<lparr>imarks := imarks s\<rparr>)" using m1(2) by (simp add: m m2(1) if_distrib cong: if_cong)
  moreover have "quiet s (s2\<lparr>imarks := imarks s\<rparr>)" "same_marks s (s2\<lparr>imarks := imarks s\<rparr>)" using s2(2,3) by (simp_all add: quiet_def same_marks_def)
  ultimately show ?thesis using p m1(1) s2(1) by (simp add: eagerly_subsume_recently_learned_clauses_def)
qed

section \<open>The backtrack level\<close>

lemma reuse_level_bounds: "res \<le> reuse_level s b n res \<and> reuse_level s b n res \<le> res + n"
proof (induction n arbitrary: res)
  case (Suc n)
  from Suc[of "res + 1"] show ?case by simp
qed simp

lemma determine_level_ok:
  assumes "jump < ilevel s" "control_ok s"
  shows "\<exists>n. determine_actual_backtrack_level E s jump = Some n \<and> jump \<le> n \<and> n < ilevel s"
proof -
  obtain l where l: "vec_at (icontrol s) (jump + 1) = Some l" using assms by (simp add: vec_at_def control_ok_def)
  have r: "jump \<le> reuse_level s b (ilevel s - 1 - jump) jump" "reuse_level s b (ilevel s - 1 - jump) jump < ilevel s" for b
    using reuse_level_bounds[of jump s b "ilevel s - 1 - jump"] assms(1) by linarith+
  show ?thesis using assms(1) l r by (auto simp: determine_actual_backtrack_level_def Let_def)
qed


section \<open>Learning and backjumping\<close>

text \<open>The marks as analysis leaves them: the seen variables are the analyzed ones, and minimization has cleaned up.\<close>

definition tidy :: "('p, 'h) internal \<Rightarrow> bool" where
  "tidy s \<longleftrightarrow> abs ` set (ianalyzed s) = {v. iseen s v} \<and> iminimized s = [] \<and> ikeep s = (\<lambda>v. False) \<and> ipoison s = (\<lambda>v. False) \<and>
     iremovable s = (\<lambda>v. False) \<and> imarks s = (\<lambda>v. 0)"

definition same_problem :: "('p, 'h) internal \<Rightarrow> ('p, 'h) internal \<Rightarrow> bool" where
  "same_problem s s' \<longleftrightarrow> iunsat s' = iunsat s \<and> imax_var s' = imax_var s \<and> iassumptions s' = iassumptions s \<and> iconstraint s' = iconstraint s"

lemma same_problem_trans: "same_problem s s1 \<Longrightarrow> same_problem s1 s2 \<Longrightarrow> same_problem s s2"
  by (simp add: same_problem_def)

lemma same_problem_if:
  "quiet s s' \<Longrightarrow> same_problem s s'" "backtracked n s s' \<Longrightarrow> same_problem s s'" "same_base s s' \<Longrightarrow> same_problem s s'"
  "same_search s s' \<Longrightarrow> same_problem s s'"
  by (simp_all add: same_problem_def quiet_def backtracked_def Let_def same_base_def same_search_def)

lemma quiet_high:
  assumes q: "quiet s s'" and "control_ok s"
  shows "high s' = high s"
proof -
  have st: "trail_start s' (ilevel s') = trail_start s (ilevel s)"
    using quiet_start[OF q, of "ilevel s"] assms(2) by (simp add: control_ok_def quiet_eqs[OF q])
  have h: "watch_height s' c' = watch_height s c" if "same_lits c c'" for c c'
    using that by (simp add: watch_height_def same_lits_def quiet_eqs[OF q])
  have "p \<in> high s' \<longleftrightarrow> p \<in> high s" for p
  proof
    assume "p \<in> high s'"
    then obtain c' where c': "istore s' p = Some c'" "trail_start s' (ilevel s') \<le> watch_height s' c'" by (auto simp: high_def)
    from quiet_store2[OF q c'(1)] c'(2) st h show "p \<in> high s" by (auto simp: high_def)
  next
    assume "p \<in> high s"
    then obtain c where c: "istore s p = Some c" "trail_start s (ilevel s) \<le> watch_height s c" by (auto simp: high_def)
    from quiet_store[OF q c(1)] c(2) st h show "p \<in> high s'" by (auto simp: high_def)
  qed
  then show ?thesis by blast
qed

text \<open>What a driving clause, or a unit without one, has to be for the flipped UIP \<open>u\<close> and the jump level.\<close>

definition drives :: "int list list \<Rightarrow> ('p, 'h) internal \<Rightarrow> nat option \<Rightarrow> int \<Rightarrow> nat \<Rightarrow> bool" where
  "drives F s driving u jump \<longleftrightarrow> - u \<in> set (itrail s) \<and> ivar_level s \<bar>u\<bar> = ilevel s \<and> jump < ilevel s \<and> (case driving of
     None \<Rightarrow> entails F [] [u]
   | Some p \<Rightarrow> \<exists>c. istore s p = Some c \<and> u \<in> set (cl_lits c) \<and>
       (\<forall>l \<in> set (cl_lits c). l \<noteq> u \<longrightarrow> - l \<in> set (itrail s) \<and> ivar_level s \<bar>l\<bar> \<le> jump))"

lemma first_uip_clause:
  assumes m: "marks_ok s" and L: "0 < ilevel s" and u: "uip \<in> set (itrail s)" "ivar_level s \<bar>uip\<bar> = ilevel s"
    and ent: "entails F [] (iclause s @ [- uip])"
  shows "uip_clause F (s\<lparr>iclause := iclause s @ [- uip]\<rparr>) (- uip)" "tidy (s\<lparr>iclause := iclause s @ [- uip]\<rparr>)"
proof -
  have ic: "set (iclause s) = uminus ` {l \<in> set (itrail s). iseen s \<bar>l\<bar> \<and> ivar_level s \<bar>l\<bar> < ilevel s}" "distinct (iclause s)"
    using m by (simp_all add: marks_ok_def)
  have low: "- l \<in> set (itrail s) \<and> ivar_level s \<bar>l\<bar> < ilevel s \<and> 0 < ivar_level s \<bar>l\<bar>" if "l \<in> set (iclause s)" for l
    using that ic(1) m by (auto simp: marks_ok_def)
  then have "- uip \<notin> set (iclause s)" using u(2) by fastforce
  then show "uip_clause F (s\<lparr>iclause := iclause s @ [- uip]\<rparr>) (- uip)"
    using L u ent ic(2) low by (auto simp: uip_clause_def)
  show "tidy (s\<lparr>iclause := iclause s @ [- uip]\<rparr>)" using m by (simp add: marks_ok_def tidy_def)
qed

lemma new_driving_clause_drives:
  assumes core: "core_ok R s" and g: "graph_ok F s" and R: "R \<subseteq> high s" and u: "uip_clause F s u" and t: "tidy s"
  shows "\<exists>s' driving jump R'. new_driving_clause E s glue = Some (s', driving, jump) \<and> core_ok R' s' \<and> graph_ok F s' \<and> R' \<subseteq> high s' \<and>
    tidy s' \<and> drives F s' driving u jump \<and> same_problem s s' \<and> ilevel s' = ilevel s"
proof (cases "length (iclause s) < 2")
  case True
  have uc: "u \<in> set (iclause s)" "- u \<in> set (itrail s)" "ivar_level s \<bar>u\<bar> = ilevel s" "entails F [] (iclause s)" "0 < ilevel s"
    using u by (auto simp: uip_clause_def)
  then have one: "iclause s = [u]" using True by (cases "iclause s"; cases "tl (iclause s)") auto
  let ?s = "s\<lparr>iiterating := True\<rparr>"
  have q: "quiet s ?s" by (simp add: quiet_def)
  have "high ?s = high s" using quiet_high[OF q] core by (simp add: core_ok_def)
  moreover have "drives F ?s None u 0" using uc one by (simp add: drives_def)
  moreover have "tidy ?s" using t by (simp add: tidy_def)
  ultimately show ?thesis
    using new_driving_clause_unit[OF one, of E glue] quiet_core[OF q core] quiet_graph[OF q core g] R same_problem_if(1)[OF q]
    by (intro exI[of _ ?s] exI[of _ None] exI[of _ 0] exI[of _ R]) simp
next
  case False
  then have len: "2 \<le> length (iclause s)" by simp
  have uc: "u \<in> set (iclause s)" "\<forall>l \<in> set (iclause s). - l \<in> set (itrail s)" "ivar_level s \<bar>u\<bar> = ilevel s"
    using u by (simp_all add: uip_clause_def)
  from new_driving_clause_ok[OF core g R u len, of E glue] obtain s' p c jump where
    s': "new_driving_clause E s glue = Some (s', Some p, jump)" "core_ok (insert p R) s'" "graph_ok F s'" "insert p R \<subseteq> high s'"
    "istore s' p = Some c" "set (cl_lits c) = set (iclause s)" "jump < ilevel s"
    "\<forall>l \<in> set (cl_lits c). l \<noteq> u \<longrightarrow> ivar_level s \<bar>l\<bar> \<le> jump" "same_trail s s'" "ilevel s' = ilevel s" "iunsat s' = iunsat s"
    "iseen s' = iseen s" "ianalyzed s' = ianalyzed s" "iminimized s' = iminimized s" "ikeep s' = ikeep s" "ipoison s' = ipoison s"
    "iremovable s' = iremovable s" "imax_var s' = imax_var s" "iassumptions s' = iassumptions s" "iconstraint s' = iconstraint s" "imarks s' = imarks s"
    by (elim exE conjE) (rule that; assumption)
  have "drives F s' (Some p) u jump" using s'(5-10) uc by (simp add: drives_def same_trail_def)
  moreover have "tidy s'" using t s'(12-17,21) by (simp add: tidy_def)
  moreover have "same_problem s s'" using s'(11,18-20) by (simp add: same_problem_def)
  ultimately show ?thesis using s'(1-4,10)
    by (intro exI[of _ s'] exI[of _ "Some p"] exI[of _ jump] exI[of _ "insert p R"]) simp
qed

text \<open>Backtracking makes the driving clause unit, and the flipped UIP is assigned.\<close>

lemma backjump_ok:
  assumes E: "responsive E" and core: "core_ok R s" and g: "graph_ok F s" and R: "R \<subseteq> high s" and d: "drives F s driving u jump"
    and n: "jump \<le> n" "n < ilevel s" and t: "tidy s"
  shows "\<exists>s1 s'. backtrack E s n = Some s1 \<and>
    search_assign_driving E s1 u (case driving of None \<Rightarrow> No_Reason | Some p \<Rightarrow> Reason_Clause p) = Some s' \<and>
    core_ok {} s' \<and> graph_ok F s' \<and> tidy s' \<and> same_problem s s' \<and> ilevel s' = n \<and> u \<in> set (itrail s') \<and> istore s' = istore s"
proof -
  have ok: "trail_ok s" "control_ok s" "clauses_ok s" using core by (simp_all add: core_ok_def)
  from backtrack_effect[OF E ok(1,2) n(2)] obtain s1 where s1: "backtrack E s n = Some s1" "backtracked n s s1" by blast
  note c1 = backtracked_core[OF core R n(2) s1(2)] and g1 = backtracked_graph[OF ok(1,2) g n(2) s1(2)]
  have e1: "istore s1 = istore s" "ilevel s1 = n" "imax_var s1 = imax_var s" using s1(2) by (simp_all add: backtracked_def Let_def)
  have u: "- u \<in> set (itrail s)" "ivar_level s \<bar>u\<bar> = ilevel s" using d by (simp_all add: drives_def)
  then have uok: "ilit_ok s u" using ok(1) by (auto simp: trail_ok_def)
  have u1: "ivals s1 u = 0" "ilit_ok s1 u"
    using backtracked_vals[OF ok(1,2) n(2) s1(2) uok] u(2) n(2) uok e1 by (simp_all add: ilit_ok_def)
  have "\<exists>s2. search_assign E s1 u (case driving of None \<Rightarrow> No_Reason | Some p \<Rightarrow> Reason_Clause p) = Some s2 \<and>
    core_ok {} s2 \<and> graph_ok F s2 \<and> same_base s1 s2 \<and> itrail s2 = itrail s1 @ [u]"
  proof (cases driving)
    case None
    then have "entails F [] [u]" using d by (simp add: drives_def)
    from search_assign_learned_unit[OF E c1 g1 u1(2,1) this] None show ?thesis by auto
  next
    case (Some p)
    then obtain c where c: "istore s p = Some c" "u \<in> set (cl_lits c)"
      "\<forall>l \<in> set (cl_lits c). l \<noteq> u \<longrightarrow> - l \<in> set (itrail s) \<and> ivar_level s \<bar>l\<bar> \<le> jump" using d by (auto simp: drives_def)
    have "clause_ok s c" using ok(3) c(1) by (auto simp: clauses_ok_def)
    then have "ivals s1 l < 0" if "l \<in> set (cl_lits c)" "l \<noteq> u" for l
      using backtracked_vals[OF ok(1,2) n(2) s1(2), of l] c(3) that n(1) trail_ok_ivals(2)[OF ok(1), of l] by (auto simp: clause_ok_def)
    then show ?thesis using search_assign_reason[OF E c1 g1 _ c(2) u1(1), of p] c(1) e1(1) Some by auto
  qed
  then obtain s2 where s2: "search_assign E s1 u (case driving of None \<Rightarrow> No_Reason | Some p \<Rightarrow> Reason_Clause p) = Some s2"
    "core_ok {} s2" "graph_ok F s2" "same_base s1 s2" "itrail s2 = itrail s1 @ [u]" by blast
  have "\<forall>l \<in> set (itrail s2). ilit_ok s2 l" using s2(2) by (simp add: core_ok_def trail_ok_def)
  from notify_assignments_return[OF E this] obtain s3 where s3: "notify_assignments E s2 = Some s3" "same_search s2 s3" by blast
  have "tidy s3" using t s1(2) s2(4) s3(2) by (simp add: tidy_def backtracked_def Let_def same_base_def same_search_def)
  moreover have "same_problem s s3"
    using same_problem_if(2)[OF s1(2)] same_problem_if(3)[OF s2(4)] same_problem_if(4)[OF s3(2)] same_problem_trans by blast
  moreover have "ilevel s3 = n" "u \<in> set (itrail s3)" "istore s3 = istore s"
    using s3(2) s2(4,5) e1 by (simp_all add: same_search_def same_base_def same_trail_def)
  ultimately show ?thesis using s1(1) s2(1-3) s3 same_search_core[OF s3(2)] same_search_graph[OF s3(2)]
    by (simp add: search_assign_driving_def)
qed


section \<open>The clean-up\<close>

lemma reset_seen_trail [simp]: "lv_trail (reset_seen l) = lv_trail l"
  by (simp add: reset_seen_def)

lemma reset_levels_trail:
  "map lv_trail (foldl (\<lambda>ctl l. if l < length ctl then ctl[l := reset_seen (ctl ! l)] else ctl) ctl ls) = map lv_trail ctl"
proof (induction ls arbitrary: ctl)
  case (Cons l ls)
  have "lv_trail (ctl[l := reset_seen (ctl ! l)] ! i) = lv_trail (ctl ! i)" if "i < length ctl" for i
    using that by (cases "i = l") simp_all
  then have "map lv_trail (ctl[l := reset_seen (ctl ! l)]) = map lv_trail ctl" by (intro nth_equalityI) simp_all
  then show ?case using Cons by simp
qed simp

definition cleaned :: "('p, 'h) internal \<Rightarrow> ('p, 'h) internal" where
  "cleaned s = (clear_analyzed_levels (clear_analyzed_literals s))\<lparr>iclause := [], iconflict := None\<rparr>"

lemma core_ok_conflict [simp]: "core_ok R (s\<lparr>iconflict := x\<rparr>) = core_ok R s"
  by (simp add: core_ok_def search_ok_defs)

lemma graph_ok_conflict [simp]: "graph_ok F (s\<lparr>iconflict := x\<rparr>) = graph_ok F s"
  by (simp add: graph_ok_def reasons_ok_def justified_def decided_def trail_start_def follows_def demands_def)

lemma cleaned_ok:
  assumes core: "core_ok R s" and g: "graph_ok F s" and t: "tidy s"
  shows "core_ok R (cleaned s)" "graph_ok F (cleaned s)" "idle (cleaned s)" "iconflict (cleaned s) = None" "same_problem s (cleaned s)"
    "istore (cleaned s) = istore s" "itrail (cleaned s) = itrail s" "ilevel (cleaned s) = ilevel s"
proof -
  let ?s = "(clear_analyzed_levels (clear_analyzed_literals s))\<lparr>iclause := []\<rparr>"
  have q: "quiet s ?s" by (simp add: quiet_def clear_analyzed_levels_def clear_analyzed_literals_def reset_levels_trail)
  have c: "cleaned s = ?s\<lparr>iconflict := None\<rparr>" by (simp add: cleaned_def)
  show "core_ok R (cleaned s)" "graph_ok F (cleaned s)" unfolding c core_ok_conflict graph_ok_conflict
    by (rule quiet_core[OF q core], rule quiet_graph[OF q core g])
  show "idle (cleaned s)" using t by (auto simp: cleaned_def clear_analyzed_levels_def clear_analyzed_literals_def idle_def tidy_def fun_eq_iff)
  show "iconflict (cleaned s) = None" "same_problem s (cleaned s)" "istore (cleaned s) = istore s" "itrail (cleaned s) = itrail s" "ilevel (cleaned s) = ilevel s"
    by (simp_all add: cleaned_def clear_analyzed_levels_def clear_analyzed_literals_def same_problem_def)
qed

section \<open>The contract of clause simplification\<close>

text \<open>
  What conflict analysis relies on when it simplifies the first UIP clause: the simplification
  returns a clause that is entailed, keeps the literal of the current level, has only false literals,
  the others of lower levels, and leaves the search alone.
\<close>

locale clause_simplifier =
  fixes shrink :: "('p, 'h) internal \<Rightarrow> ('p, 'h) internal option"
  assumes simplification: "\<lbrakk>core_ok R s; graph_ok F s; uip_clause F s u; 1 < length (iclause s);
    iminimized s = []; ikeep s = (\<lambda>v. False); ipoison s = (\<lambda>v. False); iremovable s = (\<lambda>v. False)\<rbrakk>
    \<Longrightarrow> \<exists>s'. shrink s = Some s' \<and> simplifies F s s'"
begin

lemma simplified_clause:
  assumes E: "bumps E" and core: "core_ok R s" and g: "graph_ok F s" and R: "R \<subseteq> high s" and u: "uip_clause F s u" and t: "tidy s"
  shows "\<exists>s'. (if length (iclause s) > 1
             then do { s' \<leftarrow> shrink s; if opt_bump (opts E) then bump_variables E s' else Some s' }
             else Some s) = Some s' \<and>
    core_ok R s' \<and> graph_ok F s' \<and> R \<subseteq> high s' \<and> uip_clause F s' u \<and> tidy s' \<and> quiet s s'"
proof (cases "length (iclause s) > 1")
  case True
  have uc: "0 < ilevel s" "distinct (iclause s)" "\<forall>l \<in> set (iclause s). - l \<in> set (itrail s) \<and> 0 < ivar_level s \<bar>l\<bar>" "entails F [] (iclause s)"
    "u \<in> set (iclause s)" "ivar_level s \<bar>u\<bar> = ilevel s" "\<forall>l \<in> set (iclause s). l \<noteq> u \<longrightarrow> ivar_level s \<bar>l\<bar> < ilevel s"
    using u by (simp_all add: uip_clause_def)
  have td: "iminimized s = []" "ikeep s = (\<lambda>v. False)" "ipoison s = (\<lambda>v. False)" "iremovable s = (\<lambda>v. False)"
    using t by (simp_all add: tidy_def)
  from simplification[OF core g u True td] obtain s1 where s1: "shrink s = Some s1" "simplifies F s s1" by blast
  have q1: "quiet s s1" using s1(2) by (simp add: simplifies_def)
  have c1: "\<forall>l \<in> set (iclause s1). - l \<in> set (itrail s) \<and> 0 < ivar_level s \<bar>l\<bar>" "\<forall>l \<in> set (iclause s1). l \<noteq> u \<longrightarrow> ivar_level s \<bar>l\<bar> < ilevel s"
    "u \<in> set (iclause s1)" "distinct (iclause s1)" "entails F [] (iclause s1)" using s1(2) uc(3,5-7) unfolding simplifies_def by blast+
  then have u1: "uip_clause F s1 u" using uc(1,6) by (simp add: uip_clause_def quiet_eqs[OF q1])
  have t1: "tidy s1" using s1(2) t by (simp add: tidy_def simplifies_def quiet_imarks[OF q1])
  have ok1: "core_ok R s1" "graph_ok F s1" using quiet_core[OF q1 core] quiet_graph[OF q1 core g] by simp_all
  have "\<exists>s2. (if opt_bump (opts E) then bump_variables E s1 else Some s1) = Some s2 \<and> mark_frame s1 s2"
    using bump_variables_ok[OF E ok1] u1 by (simp add: uip_clause_def)
  then obtain s2 where s2: "(if opt_bump (opts E) then bump_variables E s1 else Some s1) = Some s2" "mark_frame s1 s2" by blast
  have q2: "quiet s1 s2" using s2(2) by (simp add: mark_frame_def)
  have "uip_clause F s2 u" using u1 s2(2) by (simp add: uip_clause_def mark_frame_def quiet_eqs[OF q2])
  moreover have "tidy s2" using t1 s2(2) by (simp add: tidy_def mark_frame_def quiet_imarks[OF q2])
  moreover have "high s2 = high s" using quiet_high[OF quiet_trans[OF q1 q2]] core by (simp add: core_ok_def)
  ultimately show ?thesis using True s1(1) s2(1) quiet_core[OF q2 ok1(1)] quiet_graph[OF q2 ok1] R quiet_trans[OF q1 q2] by simp
qed (use assms in simp)

lemma learn_and_backjump_ok:
  assumes E: "responsive E" "bumps E" and core: "core_ok R s" and g: "graph_ok F s" and R: "R \<subseteq> high s" and m: "marks_ok s"
    and L: "0 < ilevel s" and u: "uip \<in> set (itrail s)" "ivar_level s \<bar>uip\<bar> = ilevel s" and ent: "entails F [] (iclause s @ [- uip])"
  shows "\<exists>s'. learn_and_backjump shrink E s uip = Some s' \<and> core_ok {} s' \<and> graph_ok F s' \<and> idle s' \<and> iconflict s' = None \<and>
    same_problem s s' \<and> ilevel s' < ilevel s \<and> - uip \<in> set (itrail s')"
proof -
  let ?s = "s\<lparr>iclause := iclause s @ [- uip]\<rparr>" and ?glue = "length (ilevels s) - 1"
  have q0: "quiet s ?s" by (simp add: quiet_def)
  have R0: "R \<subseteq> high ?s" using quiet_high[OF q0] core R by (simp add: core_ok_def)
  from simplified_clause[OF E(2) quiet_core[OF q0 core] quiet_graph[OF q0 core g] R0 first_uip_clause[OF m L u ent]]
  obtain s1 where s1: "(if length (iclause ?s) > 1
             then do { s' \<leftarrow> shrink ?s; if opt_bump (opts E) then bump_variables E s' else Some s' }
             else Some ?s) = Some s1"
    "core_ok R s1" "graph_ok F s1" "R \<subseteq> high s1" "uip_clause F s1 (- uip)" "tidy s1" "quiet ?s s1" by (elim exE conjE) (rule that; assumption)
  from new_driving_clause_drives[OF s1(2-6), of E ?glue] obtain s2 driving jump R2 where
    s2: "new_driving_clause E s1 ?glue = Some (s2, driving, jump)" "core_ok R2 s2" "graph_ok F s2" "R2 \<subseteq> high s2" "tidy s2"
    "drives F s2 driving (- uip) jump" "same_problem s1 s2" "ilevel s2 = ilevel s1" by (elim exE conjE) (rule that; assumption)
  have L2: "ilevel s2 = ilevel s" using s2(8) quiet_eqs(7)[OF s1(7)] by simp
  have "jump < ilevel s2" "control_ok s2" using s2(2,6) by (simp_all add: drives_def core_ok_def)
  from determine_level_ok[OF this, of E] obtain n where n: "determine_actual_backtrack_level E s2 jump = Some n" "jump \<le> n" "n < ilevel s2" by blast
  from backjump_ok[OF E(1) s2(2-4,6) n(2,3) s2(5)] obtain s3 s4 where s3: "backtrack E s2 n = Some s3"
    and s4: "search_assign_driving E s3 (- uip) (case driving of None \<Rightarrow> No_Reason | Some p \<Rightarrow> Reason_Clause p) = Some s4"
    "core_ok {} s4" "graph_ok F s4" "tidy s4" "same_problem s2 s4" "ilevel s4 = n" "- uip \<in> set (itrail s4)" "istore s4 = istore s2" by blast
  define s5 where "s5 = (if istable s4 then s4\<lparr>ireluctant := tick (ireluctant s4)\<rparr> else s4)"
  have q5: "quiet s4 s5" "tidy s5" "istore s5 = istore s4" "itrail s5 = itrail s4" "ilevel s5 = ilevel s4"
    using s4(4) by (simp_all add: s5_def quiet_def tidy_def)
  note c6 = cleaned_ok[OF quiet_core[OF q5(1) s4(2)] quiet_graph[OF q5(1) s4(2,3)] q5(2)]
  have p6: "same_problem s (cleaned s5)"
    using same_problem_if(1)[OF q0] same_problem_if(1)[OF s1(7)] s2(7) s4(5) same_problem_if(1)[OF q5(1)] c6(5) same_problem_trans by blast
  have uip: "uip \<noteq> 0" using u(1) core by (auto simp: core_ok_def trail_ok_def ilit_ok_def)
  have run: "learn_and_backjump shrink E s uip = (case driving of
        Some p \<Rightarrow> if eagersubsume (opts E) then eagerly_subsume_recently_learned_clauses E (cleaned s5) p else Some (cleaned s5)
      | None \<Rightarrow> Some (cleaned s5))"
    unfolding learn_and_backjump_def Let_def s1(1)
    using s2(1) n(1) s3 s4(1) uip by (cases "istable s4"; cases driving) (simp_all add: s5_def cleaned_def)
  have "\<exists>s'. learn_and_backjump shrink E s uip = Some s' \<and> quiet (cleaned s5) s' \<and> same_marks (cleaned s5) s'"
  proof (cases driving)
    case (Some p)
    then obtain c where "istore s2 p = Some c" using s2(6) by (auto simp: drives_def)
    then have "istore (cleaned s5) p = Some c" using c6(6) q5(3) s4(8) by simp
    from eagerly_subsume_ok[OF c6(1,2) this, of E] c6(3) Some show ?thesis by (simp add: run idle_def)
  qed (simp add: run)
  then obtain s' where s': "learn_and_backjump shrink E s uip = Some s'" "quiet (cleaned s5) s'" "same_marks (cleaned s5) s'" by blast
  have "idle s'" using c6(3) s'(3) by (simp add: idle_def same_marks_def)
  moreover have "iconflict s' = None" "ilevel s' < ilevel s" "- uip \<in> set (itrail s')"
    using c6(4,7,8) q5(4,5) s4(6,7) n(3) L2 by (simp_all add: quiet_eqs[OF s'(2)])
  ultimately show ?thesis using s'(1) quiet_core[OF s'(2) c6(1)] quiet_graph[OF s'(2) c6(1,2)]
      same_problem_trans[OF p6 same_problem_if(1)[OF s'(2)]] by blast
qed

end

text \<open>Shrinking and minimization meet the contract, and so does leaving the clause as it is.\<close>

interpretation learned: clause_simplifier "simplify_learned E" for E :: "('p, 'h) config"
proof
  fix R F u and s :: "('p, 'h) internal"
  assume a: "core_ok R s" "graph_ok F s" "uip_clause F s u" "1 < length (iclause s)"
    "iminimized s = []" "ikeep s = (\<lambda>v. False)" "ipoison s = (\<lambda>v. False)" "iremovable s = (\<lambda>v. False)"
  have t: "trail_ok s" using a(1) by (simp add: core_ok_def)
  have u: "0 < ilevel s" "entails F [] (iclause s)" "\<forall>l \<in> set (iclause s). - l \<in> set (itrail s)" "distinct (iclause s)"
    using a(3) by (simp_all add: uip_clause_def)
  have "simplifies F s s" using u a(5-8) by (simp add: simplifies_def)
  then show "\<exists>s'. simplify_learned E s = Some s' \<and> simplifies F s s'"
    using shrink_and_minimize_clause_ok[OF a, of E] minimize_clause_ok[OF a(1,2) u(1-3) trail_lits_distinct(1)[OF t u(4,3)] a(5-8), of E]
    by (auto simp: simplify_learned_def)
qed

end
