(* ===== verification/Solver_Conflict.thy ===== *)
theory Solver_Conflict
  imports Solver_Cdcl
begin

text \<open>
  Conflict analysis with chronological backtracking: the actual conflict level, the two highest
  literals of the conflict in the watched positions, and \<^verbatim>\<open>analyze\<close> as a whole.
\<close>

section \<open>The actual conflict level\<close>

lemma conflict_scan_ok:
  assumes "\<forall>l \<in> set (pre @ ls). ilit_ok s l \<and> ivar_level s \<bar>l\<bar> \<le> ilevel s" "\<forall>l \<in> set pre. ivar_level s \<bar>l\<bar> \<le> res"
    "cnt = length (List.filter (\<lambda>l. ivar_level s \<bar>l\<bar> = res) pre)" "if res = 0 then forced = 0 else forced \<in> set pre \<and> ivar_level s \<bar>forced\<bar> = res"
  shows "\<exists>r f n. conflict_scan s ls res forced cnt = Some (r, f, n) \<and> (\<forall>l \<in> set (pre @ ls). ivar_level s \<bar>l\<bar> \<le> r) \<and>
    (if r = 0 then f = 0 else f \<in> set (pre @ ls) \<and> ivar_level s \<bar>f\<bar> = r) \<and>
    (n = 1 \<longleftrightarrow> length (List.filter (\<lambda>l. ivar_level s \<bar>l\<bar> = r) (pre @ ls)) = 1)"
  using assms
proof (induction ls arbitrary: pre res forced cnt)
  case (Cons l ls)
  let ?lv = "ivar_level s \<bar>l\<bar>"
  have lv: "var_level s l = Some ?lv" using Cons.prems(1) by (simp add: var_level_def)
  have go: ?case if "conflict_scan s (l # ls) res forced cnt = conflict_scan s ls r f n" "\<forall>x \<in> set (pre @ [l]). ivar_level s \<bar>x\<bar> \<le> r"
    "n = length (List.filter (\<lambda>x. ivar_level s \<bar>x\<bar> = r) (pre @ [l]))" "if r = 0 then f = 0 else f \<in> set (pre @ [l]) \<and> ivar_level s \<bar>f\<bar> = r" for r f n
  proof -
    have app: "(pre @ [l]) @ ls = pre @ l # ls" by simp
    show ?thesis using Cons.IH[OF _ that(2-4), unfolded app, OF Cons.prems(1)] unfolding that(1) .
  qed
  consider "?lv > res" | "?lv = res" "res = ilevel s" "cnt \<ge> 1" | "?lv = res" "\<not> (res = ilevel s \<and> cnt \<ge> 1)" | "?lv < res" by linarith
  then show ?case
  proof cases
    case 1
    have "List.filter (\<lambda>x. ivar_level s \<bar>x\<bar> = ?lv) pre = []" using 1 Cons.prems(2) by (auto simp: filter_empty_conv)
    then show ?thesis using 1 lv Cons.prems(2) by (intro go[of ?lv l 1]) auto
  next
    case 2
    have one: "1 \<le> length (List.filter (\<lambda>x. ivar_level s \<bar>x\<bar> = res) pre)" using 2 Cons.prems(3) by simp
    have "if res = 0 then forced = 0 else forced \<in> set (pre @ l # ls) \<and> ivar_level s \<bar>forced\<bar> = res" using Cons.prems(4) by (auto split: if_splits)
    moreover have "\<forall>x \<in> set (pre @ l # ls). ivar_level s \<bar>x\<bar> \<le> res" using Cons.prems(1) 2(2) by simp
    moreover have "length (List.filter (\<lambda>x. ivar_level s \<bar>x\<bar> = res) (pre @ l # ls)) \<noteq> 1" using one 2(1) by auto
    moreover have "conflict_scan s (l # ls) res forced cnt = Some (res, forced, cnt + 1)" using 2 lv by simp
    ultimately show ?thesis using 2(3) by (intro exI conjI) (assumption | simp)+
  next
    case 3
    have step: "conflict_scan s (l # ls) res forced cnt = conflict_scan s ls res forced (cnt + 1)" using 3 lv by auto
    show ?thesis by (rule go[OF step]) (use 3 Cons.prems(2-4) in \<open>auto split: if_splits\<close>)
  next
    case 4
    then show ?thesis using lv Cons.prems(2-4) by (intro go[of res forced cnt]) (auto split: if_splits)
  qed
qed simp

lemma highest_literal_ok:
  assumes "\<forall>j \<in> set (i # js). ilit_ok s (lits ! j) \<and> ivar_level s \<bar>lits ! j\<bar> \<le> res"
  shows "\<exists>pos \<in> set (i # js). highest_literal s res lits i (ivar_level s \<bar>lits ! i\<bar>) js = Some pos \<and>
    (\<forall>j \<in> set (i # js). ivar_level s \<bar>lits ! j\<bar> \<le> ivar_level s \<bar>lits ! pos\<bar>)"
  using assms
proof (induction js arbitrary: i)
  case (Cons j js)
  have lv: "var_level s (lits ! j) = Some (ivar_level s \<bar>lits ! j\<bar>)" using Cons.prems by (simp add: var_level_def)
  show ?case
  proof (cases "ivar_level s \<bar>lits ! j\<bar> \<le> ivar_level s \<bar>lits ! i\<bar>")
    case True
    with Cons.IH[of i] Cons.prems lv show ?thesis by fastforce
  next
    case False
    with Cons.IH[of j] Cons.prems lv show ?thesis by (cases "ivar_level s \<bar>lits ! j\<bar> = res") fastforce+
  qed
qed simp

text \<open>The literals of one clause change places, and its watches with them.\<close>

definition reordered :: "nat \<Rightarrow> ('p, 'h) internal \<Rightarrow> ('p, 'h) internal \<Rightarrow> bool" where
  "reordered p s s' \<longleftrightarrow> (\<exists>c lits W. istore s p = Some c \<and> mset lits = mset (cl_lits c) \<and>
     s' = s\<lparr>istore := (istore s)(p \<mapsto> c\<lparr>cl_lits := lits\<rparr>), iwatches := W\<rparr>)"

lemma reordered_core:
  assumes r: "reordered p s s'" and core: "core_ok R s" and p: "p \<in> R" and W: "watching_ok (istore s') (iwatches s')"
  shows "core_ok R s'"
proof -
  from r obtain c lits W where s': "istore s p = Some c" "mset lits = mset (cl_lits c)"
    "s' = s\<lparr>istore := (istore s)(p \<mapsto> c\<lparr>cl_lits := lits\<rparr>), iwatches := W\<rparr>" by (auto simp: reordered_def)
  have ok: "trail_ok s" "control_ok s" "clauses_ok s" "claims R s" using core by (simp_all add: core_ok_def)
  have "clause_ok s c" using ok(3) s'(1) by (auto simp: clauses_ok_def)
  then have "clause_ok s' (c\<lparr>cl_lits := lits\<rparr>)"
    using s'(2) mset_eq_length[OF s'(2)] mset_eq_setD[OF s'(2)] mset_eq_imp_distinct_iff[of "map abs lits" "map abs (cl_lits c)"]
    by (simp add: clause_ok_def s'(3) ilit_ok_def)
  then have "clauses_ok s'" using ok(3) s'(1) by (auto simp: clauses_ok_def clause_ok_def s'(3) ilit_ok_def)
  moreover have "claims R s'" using ok(4) p by (auto simp: claims_def both_processed_def rescued_def watch_height_def trail_start_def s'(3))
  moreover have "trail_ok s'" "control_ok s'" using ok(1,2) by (simp_all add: trail_ok_def control_ok_def trail_start_def s'(3) ilit_ok_def)
  ultimately show ?thesis using W by (simp add: core_ok_def)
qed

lemma reordered_graph:
  assumes r: "reordered p s s'" and g: "graph_ok F s"
  shows "graph_ok F s'"
proof -
  from r obtain c lits W where s': "istore s p = Some c" "mset lits = mset (cl_lits c)"
    "s' = s\<lparr>istore := (istore s)(p \<mapsto> c\<lparr>cl_lits := lits\<rparr>), iwatches := W\<rparr>" by (auto simp: reordered_def)
  have "permuted (istore s) (istore s')" unfolding s'(3) using permuted_update[of "istore s" p c "c\<lparr>cl_lits := lits\<rparr>"] s'(1,2)
    by (simp add: same_clause_def)
  then have "prop_frame s s'" by (simp add: prop_frame_def s'(3))
  then show ?thesis using prop_frame_graph g by blast
qed


lemma reordered_trans:
  assumes "reordered p s s1" "reordered p s1 s2"
  shows "reordered p s s2"
proof -
  from assms(1) obtain c lits W where 1: "istore s p = Some c" "mset lits = mset (cl_lits c)"
    "s1 = s\<lparr>istore := (istore s)(p \<mapsto> c\<lparr>cl_lits := lits\<rparr>), iwatches := W\<rparr>" by (auto simp: reordered_def)
  from assms(2) obtain d lits' W' where 2: "istore s1 p = Some d" "mset lits' = mset (cl_lits d)"
    "s2 = s1\<lparr>istore := (istore s1)(p \<mapsto> d\<lparr>cl_lits := lits'\<rparr>), iwatches := W'\<rparr>" by (auto simp: reordered_def)
  have d: "d = c\<lparr>cl_lits := lits\<rparr>" using 2(1) 1(3) by simp
  show ?thesis unfolding reordered_def using 1 2 d by (intro exI[of _ c] exI[of _ lits'] exI[of _ W']) simp
qed

lemma watch_highest_ok:
  assumes core: "core_ok R s" and c: "istore s p = Some c" and i: "i = 0 \<or> i = 1" and res: "\<forall>l \<in> set (cl_lits c). ivar_level s \<bar>l\<bar> \<le> res"
  shows "\<exists>s' pos. watch_highest p res s i = Some s' \<and> i \<le> pos \<and> pos < length (cl_lits c) \<and>
    (\<forall>j < length (cl_lits c). i \<le> j \<longrightarrow> ivar_level s \<bar>cl_lits c ! j\<bar> \<le> ivar_level s \<bar>cl_lits c ! pos\<bar>) \<and>
    istore s' p = Some (c\<lparr>cl_lits := (cl_lits c)[pos := cl_lits c ! i, i := cl_lits c ! pos]\<rparr>) \<and> reordered p s s' \<and>
    watching_ok (istore s') (iwatches s')"
proof -
  let ?L = "cl_lits c" and ?lv = "\<lambda>l. ivar_level s \<bar>l\<bar>"
  have cok: "clause_ok s c" and W: "watching_ok (istore s) (iwatches s)" using core c by (auto simp: core_ok_def clauses_ok_def)
  note cw = clause_ok_watches[OF cok]
  have il: "i < length ?L" using i cw(7,8) by auto
  have dist: "distinct ?L" using cok by (simp add: clause_ok_def distinct_map)
  have lok: "ilit_ok s (?L ! j)" if "j < length ?L" for j using cok that by (simp add: clause_ok_def)
  have "\<forall>j \<in> set (i # [i + 1..<length ?L]). ilit_ok s (?L ! j) \<and> ?lv (?L ! j) \<le> res" using il lok res by auto
  from highest_literal_ok[OF this] obtain pos where
    pos: "pos \<in> set (i # [i + 1..<length ?L])" "highest_literal s res ?L i (?lv (?L ! i)) [i + 1..<length ?L] = Some pos"
    "\<forall>j \<in> set (i # [i + 1..<length ?L]). ?lv (?L ! j) \<le> ?lv (?L ! pos)" by blast
  have pl: "i \<le> pos" "pos < length ?L" using pos(1) il by auto
  have best: "\<forall>j < length ?L. i \<le> j \<longrightarrow> ?lv (?L ! j) \<le> ?lv (?L ! pos)" using pos(3) by (auto simp: le_less)
  let ?M = "?L[pos := ?L ! i, i := ?L ! pos]"
  let ?st = "(istore s)(p \<mapsto> c\<lparr>cl_lits := ?M\<rparr>)"
  have ms: "mset ?M = mset ?L" using il pl(2) by (rule mset_swap)
  have M: "?M ! i = ?L ! pos" "pos \<noteq> i \<Longrightarrow> ?M ! pos = ?L ! i" "j \<noteq> i \<Longrightarrow> j \<noteq> pos \<Longrightarrow> ?M ! j = ?L ! j" for j using il pl by simp_all
  have lv: "var_level s (?L ! i) = Some (?lv (?L ! i))" using lok[OF il] by (simp add: var_level_def)
  have run: "watch_highest p res s i = (if pos = i then Some s
     else do {
       let s1 = (if pos > 1 then s\<lparr>iwatches := (iwatches s)(?L ! i := remove_watch (iwatches s (?L ! i)) p)\<rparr> else s);
       let s2 = s1\<lparr>istore := (istore s1)(p \<mapsto> c\<lparr>cl_lits := ?M\<rparr>)\<rparr>;
       other \<leftarrow> vec_at ?M (1 - i);
       if pos > 1 then watch_literal s2 (?L ! pos) other p else Some s2 })"
    using c il lv pos(2) by (simp add: watch_highest_def Let_def)
  have "\<exists>W'. watch_highest p res s i = Some (s\<lparr>istore := ?st, iwatches := W'\<rparr>) \<and> watching_ok ?st W'"
  proof -
    consider "pos = i" | "pos = 1" "i = 0" | "pos > 1" "pos \<noteq> i" using pl(1) i by linarith
    then show ?thesis
    proof cases
      case 1
      then have "?st = istore s" using c by (auto simp: fun_eq_iff)
      then show ?thesis using run 1 W by (intro exI[of _ "iwatches s"]) simp
    next
      case 2
      have "watching_ok ?st (iwatches s)"
        by (rule watching_ok_same_watches[OF W c]) (use 2 cw(8) M(1,2) mset_eq_setD[OF ms] in auto)
      then show ?thesis using run 2 cw(7,8) by (intro exI[of _ "iwatches s"]) (simp add: Let_def)
    next
      case 3
      let ?o = "?L ! (1 - i)"
      have o: "?M ! (1 - i) = ?o" "1 - i < length ?L" "1 - i \<noteq> i" using i 3 cw(7,8) by auto
      have ne: "?L ! pos \<noteq> ?L ! j" if "j = 0 \<or> j = 1" for j using that 3 pl(2) cw(7,8) dist by (auto simp: nth_eq_iff_index_eq)
      have "watching_ok ?st ((iwatches s)(?L ! i := List.filter (\<lambda>w. w_clause w \<noteq> p) (iwatches s (?L ! i)),
          ?L ! pos := iwatches s (?L ! pos) @ [\<lparr>w_clause = p, w_blit = ?o, w_size = length ?L\<rparr>]))"
      proof (rule watching_ok_rewatch[OF W c])
        show "?L ! pos \<noteq> ?L ! 0" "?L ! pos \<noteq> ?L ! 1" using ne by simp_all
        show "?o \<in> set ?L" using o(2) by simp
        show "?o \<noteq> ?L ! pos" using ne[of "1 - i"] i by auto
        show "{cl_lits (c\<lparr>cl_lits := ?M\<rparr>) ! 0, cl_lits (c\<lparr>cl_lits := ?M\<rparr>) ! 1} = {?o, ?L ! pos}" using i o(1) M(1) by auto
        show "{?L ! 0, ?L ! 1} = {?L ! i, ?o}" using i by auto
        show "?o \<noteq> ?L ! i" using i cw(4) by auto
      qed (use mset_eq_setD[OF ms] in simp_all)
      moreover have "?L ! i \<noteq> ?L ! pos" using ne[of i] i by auto
      ultimately show ?thesis using run 3 o lok[OF pl(2)]
        by (intro exI[of _ "(iwatches s)(?L ! i := List.filter (\<lambda>w. w_clause w \<noteq> p) (iwatches s (?L ! i)),
          ?L ! pos := iwatches s (?L ! pos) @ [\<lparr>w_clause = p, w_blit = ?o, w_size = length ?L\<rparr>])"])
          (simp add: Let_def watch_literal_def ilit_ok_def remove_watch_def)
    qed
  qed
  then obtain W' where W': "watch_highest p res s i = Some (s\<lparr>istore := ?st, iwatches := W'\<rparr>)" "watching_ok ?st W'" by blast
  have "reordered p s (s\<lparr>istore := ?st, iwatches := W'\<rparr>)" unfolding reordered_def using c ms by blast
  then show ?thesis using W' pl best by (intro exI[of _ "s\<lparr>istore := ?st, iwatches := W'\<rparr>"] exI[of _ pos]) simp
qed


lemma filter_unique:
  assumes "distinct xs" "f \<in> set xs" "P f"
  shows "length (List.filter P xs) = 1 \<longleftrightarrow> (\<forall>x \<in> set xs. P x \<longrightarrow> x = f)"
proof
  assume one: "length (List.filter P xs) = 1"
  then obtain y where y: "List.filter P xs = [y]" by (auto simp: length_Suc_conv)
  have "set (List.filter P xs) = {y}" using y by simp
  then have "{x \<in> set xs. P x} = {y}" by simp
  then have "x = y" if "x \<in> set xs" "P x" for x using that by blast
  then show "\<forall>x \<in> set xs. P x \<longrightarrow> x = f" using assms(2,3) by blast
next
  assume a: "\<forall>x \<in> set xs. P x \<longrightarrow> x = f"
  have s: "set (List.filter P xs) = {f}"
  proof
    show "set (List.filter P xs) \<subseteq> {f}" by (rule subsetI) (use a in simp)
    show "{f} \<subseteq> set (List.filter P xs)" using assms(2,3) by simp
  qed
  have "distinct (List.filter P xs)" using assms(1) by simp
  then have "length (List.filter P xs) = card (set (List.filter P xs))" by (simp only: distinct_card)
  then show "length (List.filter P xs) = 1" unfolding s by simp
qed

lemma find_conflict_level_ok:
  assumes core: "core_ok R s" and p: "p \<in> R" and g: "graph_ok F s" and c: "istore s p = Some c" and false: "\<forall>l \<in> set (cl_lits c). - l \<in> set (itrail s)"
  shows "\<exists>s' res forced c'. find_conflict_level s p = Some (s', res, forced) \<and> core_ok R s' \<and> graph_ok F s' \<and> reordered p s s' \<and>
    istore s' p = Some c' \<and> set (cl_lits c') = set (cl_lits c) \<and> (\<forall>l \<in> set (cl_lits c). ivar_level s \<bar>l\<bar> \<le> res) \<and>
    ivar_level s \<bar>cl_lits c' ! 0\<bar> = res \<and> res \<le> ilevel s \<and>
    (if forced = 0 then 0 < res \<longrightarrow> ivar_level s \<bar>cl_lits c' ! 1\<bar> = res
     else 0 < res \<and> cl_lits c' ! 0 = forced \<and> (\<forall>l \<in> set (cl_lits c). l \<noteq> forced \<longrightarrow> ivar_level s \<bar>l\<bar> < res))"
proof -
  let ?L = "cl_lits c" and ?lv = "\<lambda>l. ivar_level s \<bar>l\<bar>"
  have cok: "clause_ok s c" and tok: "trail_ok s" using core c by (auto simp: core_ok_def clauses_ok_def)
  note cw = clause_ok_watches[OF cok]
  have dist: "distinct ?L" using cok by (simp add: clause_ok_def distinct_map)
  have "ilit_ok s l" "?lv l \<le> ilevel s" if "l \<in> set ?L" for l
    using that cok false tok abs_minus_cancel[of l] unfolding clause_ok_def trail_ok_def by metis+
  then have lok: "\<forall>l \<in> set ?L. ilit_ok s l \<and> ?lv l \<le> ilevel s" by blast
  have "\<exists>r f n. conflict_scan s ?L 0 0 0 = Some (r, f, n) \<and> (\<forall>l \<in> set ?L. ?lv l \<le> r) \<and>
    (if r = 0 then f = 0 else f \<in> set ?L \<and> ?lv f = r) \<and> (n = 1 \<longleftrightarrow> length (List.filter (\<lambda>l. ?lv l = r) ?L) = 1)"
    by (rule conflict_scan_ok[of "[]" ?L s 0 0 0, unfolded append_Nil, OF lok]) simp_all
  then obtain r f n where
    scan: "conflict_scan s ?L 0 0 0 = Some (r, f, n)" "\<forall>l \<in> set ?L. ?lv l \<le> r" "if r = 0 then f = 0 else f \<in> set ?L \<and> ?lv f = r"
    "n = 1 \<longleftrightarrow> length (List.filter (\<lambda>l. ?lv l = r) ?L) = 1" by (elim exE conjE) (rule that; assumption)
  obtain m where m: "m \<in> set ?L" "?lv m = r" "r \<noteq> 0 \<longrightarrow> m = f"
  proof (cases "r = 0")
    case True
    then show ?thesis using that[of "?L ! 0"] scan(2) cw(1) by simp
  qed (use scan(3) that in auto)
  from watch_highest_ok[OF core c _ scan(2), of 0] obtain s1 i where
    s1: "watch_highest p r s 0 = Some s1" "i < length ?L" "\<forall>j < length ?L. ?lv (?L ! j) \<le> ?lv (?L ! i)"
    "istore s1 p = Some (c\<lparr>cl_lits := ?L[i := ?L ! 0, 0 := ?L ! i]\<rparr>)" "reordered p s s1" "watching_ok (istore s1) (iwatches s1)" by auto
  define c1 where "c1 = c\<lparr>cl_lits := ?L[i := ?L ! 0, 0 := ?L ! i]\<rparr>"
  let ?M = "cl_lits c1"
  have M: "set ?M = set ?L" "length ?M = length ?L" "distinct ?M"
    using mset_swap[OF cw(7) s1(2)] mset_eq_setD[OF mset_swap[OF cw(7) s1(2)]]
      mset_eq_imp_distinct_iff[OF mset_swap[OF cw(7) s1(2)]] dist by (simp_all add: c1_def)
  have M0: "?M ! 0 = ?L ! i" using cw(7) by (simp add: c1_def)
  have core1: "core_ok R s1" by (rule reordered_core[OF s1(5) core p s1(6)])
  have lv1: "ivar_level s1 = ivar_level s" using s1(5) by (auto simp: reordered_def)
  have "istore s1 p = Some c1" using s1(4) by (simp add: c1_def)
  from watch_highest_ok[OF core1 this, of 1 r] scan(2) M(1) obtain s2 k where
    s2: "watch_highest p r s1 1 = Some s2" "1 \<le> k" "k < length ?M" "\<forall>j < length ?M. 1 \<le> j \<longrightarrow> ?lv (?M ! j) \<le> ?lv (?M ! k)"
    "istore s2 p = Some (c1\<lparr>cl_lits := ?M[k := ?M ! 1, 1 := ?M ! k]\<rparr>)" "reordered p s1 s2" "watching_ok (istore s2) (iwatches s2)"
    by (auto simp: lv1)
  define c2 where "c2 = c1\<lparr>cl_lits := ?M[k := ?M ! 1, 1 := ?M ! k]\<rparr>"
  have one: "1 < length ?M" using cw(8) M(2) by simp
  have c2: "set (cl_lits c2) = set ?L" "cl_lits c2 ! 0 = ?M ! 0" "cl_lits c2 ! 1 = ?M ! k"
    using mset_eq_setD[OF mset_swap[OF one s2(3)]] M(1) s2(2) one by (simp_all add: c2_def)
  have top: "?lv (?M ! 0) = r"
  proof -
    obtain j where "j < length ?L" "?L ! j = m" using m(1) by (auto simp: in_set_conv_nth)
    then have "r \<le> ?lv (?L ! i)" using s1(3) m(2) by auto
    then show ?thesis using scan(2) s1(2) M0 by (simp add: le_antisym)
  qed
  have second: "?lv (cl_lits c2 ! 1) = r" if x: "x \<in> set ?L" "x \<noteq> ?M ! 0" "?lv x = r" for x
  proof -
    obtain j where j: "j < length ?M" "?M ! j = x" using x(1) M(1) by (metis in_set_conv_nth)
    then have "1 \<le> j" using x(2) by (cases j) auto
    then have "r \<le> ?lv (?M ! k)" using s2(4) j x(3) by auto
    moreover have "?M ! k \<in> set ?L" using s2(3) M(1) nth_mem by blast
    ultimately show ?thesis using scan(2) c2(3) by (simp add: le_antisym)
  qed
  have run: "find_conflict_level s p = Some (s2, r, if n \<noteq> 1 then 0 else f)"
    using c scan(1) s1(1) s2(1) by (simp add: find_conflict_level_def)
  have forced: "if (if n \<noteq> 1 then 0 else f) = 0 then 0 < r \<longrightarrow> ?lv (cl_lits c2 ! 1) = r
     else 0 < r \<and> cl_lits c2 ! 0 = (if n \<noteq> 1 then 0 else f) \<and> (\<forall>l \<in> set ?L. l \<noteq> (if n \<noteq> 1 then 0 else f) \<longrightarrow> ?lv l < r)"
  proof (cases "r = 0")
    case False
    then have f: "f \<in> set ?L" "?lv f = r" "f \<noteq> 0" using scan(3) lok by (auto simp: ilit_ok_def)
    note u = filter_unique[OF dist f(1), of "\<lambda>l. ?lv l = r", OF f(2)]
    have M0L: "?M ! 0 \<in> set ?L" using M0 s1(2) by simp
    show ?thesis
    proof (cases "n = 1")
      case True
      then have only: "\<forall>l \<in> set ?L. ?lv l = r \<longrightarrow> l = f" using u scan(4) by simp
      then have "?M ! 0 = f" "\<forall>l \<in> set ?L. l \<noteq> f \<longrightarrow> ?lv l < r" using top M0L scan(2) by (auto simp: le_less)
      then show ?thesis using True False f(3) c2(2) by simp
    next
      case n: False
      then obtain x where "x \<in> set ?L" "?lv x = r" "x \<noteq> f" using u scan(4) by auto
      then have "?lv (cl_lits c2 ! 1) = r" using second[of x] second[of f] f by metis
      then show ?thesis using n by simp
    qed
  qed (use scan(3) in simp)
  have "r \<le> ilevel s" using m lok by auto
  moreover have "core_ok R s2" by (rule reordered_core[OF s2(6) core1 p s2(7)])
  moreover have "graph_ok F s2" by (rule reordered_graph[OF s2(6) reordered_graph[OF s1(5) g]])
  moreover have "istore s2 p = Some c2" using s2(5) by (simp add: c2_def)
  moreover have "?lv (cl_lits c2 ! 0) = r" using top c2(2) by simp
  ultimately show ?thesis using run reordered_trans[OF s1(5) s2(6)] c2(1) scan(2) forced by (intro exI conjI)
qed


section \<open>The analysis of a conflict\<close>

lemma root_conflict:
  assumes g: "graph_ok F s" and c: "istore s p = Some c" and false: "\<forall>l \<in> set (cl_lits c). - l \<in> set (itrail s) \<and> ivar_level s \<bar>l\<bar> = 0"
  shows "entails F [] []"
proof -
  have fo: "entails F [] (cl_lits c)" "\<forall>l \<in> set (itrail s). ivar_level s \<bar>l\<bar> = 0 \<longrightarrow> entails F [] [l]"
    using g c by (auto simp: graph_ok_def follows_def)
  have False if m: "models F \<tau>" for \<tau>
  proof -
    obtain l where l: "l \<in> set (cl_lits c)" "lit_true \<tau> l" using models_clause_true[OF fo(1) m] by (auto simp: clause_true_iff)
    then have "entails F [] [- l]" using fo(2) false by fastforce
    then have "lit_true \<tau> (- l)" using models_clause_true[OF _ m, of "[- l]"] by simp
    then show False using l(2) by (cases "l = 0") simp_all
  qed
  then show ?thesis by (auto simp: entails_def)
qed

lemma derive_and_learn_ok:
  assumes E: "responsive E" "bumps E" and core: "core_ok R s" and g: "graph_ok F s" and R: "R \<subseteq> high s" and i: "idle s" and L: "0 < ilevel s"
    and c: "istore s p = Some c" and false: "\<forall>l \<in> set (cl_lits c). - l \<in> set (itrail s)"
    and top: "k \<in> set (cl_lits c)" "ivar_level s \<bar>k\<bar> = ilevel s"
  shows "\<exists>s'. derive_and_learn E s p = Some s' \<and> core_ok {} s' \<and> graph_ok F s' \<and> idle s' \<and> iconflict s' = None \<and> same_problem s s' \<and> ilevel s' < ilevel s"
proof -
  let ?ls = "rev (itrail s)"
  have m: "marks_ok s" "open_set s ?ls = {}" using idle_marks_ok[OF i] by simp_all
  have tok: "trail_ok s" and k: "- k \<in> set (itrail s)" using core false top(1) by (simp_all add: core_ok_def)
  then have "k \<noteq> 0" by (auto simp: trail_ok_def ilit_ok_def)
  have ent: "entails F [] (cl_lits c)" using g c by (auto simp: graph_ok_def follows_def)
  have z: "0 \<notin> set (cl_lits c)" using core c by (auto simp: core_ok_def clauses_ok_def clause_ok_def ilit_ok_def)
  then have re: "resolvent_entailed F s ?ls (set (cl_lits c) - {0})"
    unfolding resolvent_entailed_def using models_clause_true[OF ent] by (auto simp: clause_true_iff)
  have ls: "?ls = rev (take (length (itrail s)) (itrail s))" by simp
  have oth: "\<forall>k \<in> set (cl_lits c). k \<noteq> 0 \<longrightarrow> - k \<in> set (itrail s) \<and> (ivar_level s \<bar>k\<bar> = ilevel s \<longrightarrow> - k \<in> set ?ls)" using false by simp
  have "open_set s ?ls \<noteq> {} \<or> (\<exists>k \<in> set (cl_lits c). k \<noteq> 0 \<and> ivar_level s \<bar>k\<bar> = ilevel s)" using top \<open>k \<noteq> 0\<close> by blast
  from analyze_loop_ok[OF core g m(1) L ls c oth re this, of E] obtain s1 uip where s1: "analyze_loop E s 0 p (int (card (open_set s ?ls))) ?ls = Some (s1, uip)" "quiet s s1" "marks_ok s1"
    "uip \<in> set (itrail s)" "ivar_level s \<bar>uip\<bar> = ilevel s" "entails F [] (iclause s1 @ [- uip])" by blast
  have R1: "R \<subseteq> high s1" using quiet_high[OF s1(2)] core R by (simp add: core_ok_def)
  have "0 < ilevel s1" "uip \<in> set (itrail s1)" "ivar_level s1 \<bar>uip\<bar> = ilevel s1" using L s1(4,5) by (simp_all add: quiet_eqs[OF s1(2)])
  from learned.learn_and_backjump_ok[OF E quiet_core[OF s1(2) core] quiet_graph[OF s1(2) core g] R1 s1(3) this s1(6)]
  obtain s' where s': "learn_and_backjump (simplify_learned E) E s1 uip = Some s'" "core_ok {} s'" "graph_ok F s'" "idle s'" "iconflict s' = None"
    "same_problem s1 s'" "ilevel s' < ilevel s1" by blast
  have "derive_and_learn E s p = Some s'" using L s1(1) s'(1) m(2) by (simp add: derive_and_learn_def)
  then show ?thesis using s'(2-5,7) same_problem_trans[OF same_problem_if(1)[OF s1(2)] s'(6)] by (auto simp: quiet_eqs[OF s1(2)])
qed

text \<open>The conflict is reused as driving clause of its only literal on the conflict level.\<close>

lemma force_literal_ok:
  assumes E: "responsive E" and core: "core_ok R s" and g: "graph_ok F s" and R: "R \<subseteq> insert p (high s)" and i: "idle s"
    and c: "istore s p = Some c" "cl_lits c ! 0 = forced" and false: "\<forall>l \<in> set (cl_lits c). - l \<in> set (itrail s)"
    and res: "0 < res" "res \<le> ilevel s" "ivar_level s \<bar>forced\<bar> = res" "\<forall>l \<in> set (cl_lits c). l \<noteq> forced \<longrightarrow> ivar_level s \<bar>l\<bar> < res"
  shows "\<exists>s1 s2. backtrack E s (res - 1) = Some s1 \<and> search_assign_driving E s1 forced (Reason_Clause p) = Some s2 \<and>
    core_ok {} s2 \<and> graph_ok F s2 \<and> idle s2 \<and> same_problem s s2 \<and> ilevel s2 < ilevel s"
proof -
  have ok: "trail_ok s" "control_ok s" "clauses_ok s" using core by (simp_all add: core_ok_def)
  have cok: "clause_ok s c" using ok(3) c(1) by (auto simp: clauses_ok_def)
  have n: "res - 1 < ilevel s" using res(1,2) by simp
  from backtrack_effect[OF E ok(1,2) n] obtain s1 where s1: "backtrack E s (res - 1) = Some s1" "backtracked (res - 1) s s1" by blast
  have fs: "forced \<in> set (cl_lits c)" "ilit_ok s forced" using clause_ok_watches(1,5)[OF cok] c(2) by simp_all
  note vals = backtracked_vals[OF ok(1,2) n s1(2)]
  have "\<not> ivar_level s \<bar>forced\<bar> \<le> res - 1" using res(1,3) by linarith
  then have f0: "ivals s1 forced = 0" using vals[OF fs(2)] by simp
  have e1: "istore s1 = istore s" using s1(2) by (simp add: backtracked_def Let_def)
  have core0: "core_ok {p} s1" by (rule backtracked_core_except[OF core _ n s1(2)]) (use R in blast)
  have "claims {} s1" unfolding claims_def
  proof (intro allI impI, elim conjE)
    fix q d assume d: "istore s1 q = Some d" "\<not> cl_garbage d" "both_processed s1 d"
    have "q \<noteq> p" using d(1,3) f0 c e1 by (auto simp: both_processed_def)
    then show "rescued s1 d" using core0 d by (auto simp: core_ok_def claims_def)
  qed
  then have core1: "core_ok {} s1" using core0 by (simp add: core_ok_def)
  note g1 = backtracked_graph[OF ok(1,2) g n s1(2)]
  have "ivals s1 l < 0" if "l \<in> set (cl_lits c)" "l \<noteq> forced" for l
  proof -
    have "ilit_ok s l" using cok that by (simp add: clause_ok_def)
    then show ?thesis using vals[of l] trail_ok_ivals(2)[OF ok(1), of l] false res(4) that by fastforce
  qed
  then obtain s2 where s2: "search_assign E s1 forced (Reason_Clause p) = Some s2" "core_ok {} s2" "graph_ok F s2" "same_base s1 s2"
    using search_assign_reason[OF E core1 g1 _ fs(1) f0, of p] c(1) e1 by auto
  have "\<forall>l \<in> set (itrail s2). ilit_ok s2 l" using s2(2) by (simp add: core_ok_def trail_ok_def)
  from notify_assignments_return[OF E this] obtain s3 where s3: "notify_assignments E s2 = Some s3" "same_search s2 s3" by blast
  have "idle s3" using i s1(2) s2(4) s3(2) by (simp add: idle_def backtracked_def Let_def same_base_def same_search_def)
  moreover have "same_problem s s3"
    using same_problem_if(2)[OF s1(2)] same_problem_if(3)[OF s2(4)] same_problem_if(4)[OF s3(2)] same_problem_trans by blast
  moreover have "ilevel s3 < ilevel s" using s1(2) s2(4) s3(2) n by (simp add: backtracked_def Let_def same_base_def same_search_def)
  ultimately show ?thesis using s1(1) s2(1-3) s3 same_search_core[OF s3(2)] same_search_graph[OF s3(2)]
    by (simp add: search_assign_driving_def)
qed

text \<open>The state between two steps of the search; once the formula is known to be unsatisfiable there are no more steps.\<close>

definition search_inv :: "int list list \<Rightarrow> ('p, 'h) internal \<Rightarrow> bool" where
  "search_inv F s \<longleftrightarrow> (if iunsat s then entails F [] [] else core_ok (exempt s) s \<and> graph_ok F s \<and> idle s \<and> conflict_false s)"

lemma exempt_conflict: "iconflict s = Some p \<Longrightarrow> exempt s = insert p (high s)" "iconflict s = None \<Longrightarrow> exempt s = {}"
  by (simp_all add: exempt_def high_def)

lemma search_inv_resume:
  "core_ok {} s \<Longrightarrow> graph_ok F s \<Longrightarrow> idle s \<Longrightarrow> iconflict s = None \<Longrightarrow> search_inv F s"
  by (simp add: search_inv_def exempt_conflict conflict_false_def graph_ok_def follows_def)

text \<open>Below the conflict level everything but the conflict is in order; on it, everything but what is watched there.\<close>

lemma reordered_high:
  assumes r: "reordered p s s'"
  shows "high s \<subseteq> insert p (high s')"
proof
  from r obtain c lits W where s': "istore s p = Some c"
    "s' = s\<lparr>istore := (istore s)(p \<mapsto> c\<lparr>cl_lits := lits\<rparr>), iwatches := W\<rparr>" by (auto simp: reordered_def)
  fix q assume "q \<in> high s"
  then show "q \<in> insert p (high s')" by (cases "q = p") (simp_all add: high_def watch_height_def trail_start_def s'(2))
qed

lemma backtrack_to_conflict:
  assumes E: "responsive E" and core: "core_ok R s" and g: "graph_ok F s" and R: "R \<subseteq> insert p (high s)" and i: "idle s"
    and c: "istore s p = Some c" and false: "\<forall>l \<in> set (cl_lits c). - l \<in> set (itrail s) \<and> ivar_level s \<bar>l\<bar> \<le> res"
    and top: "ivar_level s \<bar>cl_lits c ! 0\<bar> = res" "res \<le> ilevel s"
  shows "\<exists>s' R'. backtrack E s res = Some s' \<and> core_ok R' s' \<and> R' \<subseteq> high s' \<and> graph_ok F s' \<and> idle s' \<and> same_problem s s' \<and>
    ilevel s' = res \<and> istore s' = istore s \<and> (\<forall>l \<in> set (cl_lits c). - l \<in> set (itrail s')) \<and> ivar_level s' = ivar_level s"
proof -
  have ok: "trail_ok s" "control_ok s" "clauses_ok s" using core by (simp_all add: core_ok_def)
  have c0: "cl_lits c ! 0 \<in> set (cl_lits c)" using clause_ok_watches(1)[of s c] ok(3) c by (auto simp: clauses_ok_def)
  have "\<exists>s' R'. backtrack E s res = Some s' \<and> core_ok R' s' \<and> R' \<subseteq> insert p (high s') \<and> graph_ok F s' \<and> idle s' \<and> same_problem s s' \<and>
    ilevel s' = res \<and> istore s' = istore s \<and> (\<forall>l \<in> set (cl_lits c). - l \<in> set (itrail s')) \<and> ivar_level s' = ivar_level s"
  proof (cases "res = ilevel s")
    case True
    then show ?thesis using core g R i false by (intro exI[of _ s] exI[of _ R]) (simp add: backtrack_def same_problem_def)
  next
    case False
    then have n: "res < ilevel s" using top(2) by simp
    from backtrack_effect[OF E ok(1,2) n] obtain s1 where s1: "backtrack E s res = Some s1" "backtracked res s s1" by blast
    have "core_ok {p} s1" by (rule backtracked_core_except[OF core _ n s1(2)]) (use R in blast)
    moreover have "- l \<in> set (itrail s1)" if "l \<in> set (cl_lits c)" for l
      using backtracked_trail(1)[OF ok(1,2) n s1(2)] false that by (simp add: set_kept_lits)
    moreover have "idle s1" "ilevel s1 = res" "istore s1 = istore s" "ivar_level s1 = ivar_level s"
      using i s1(2) by (simp_all add: idle_def backtracked_def Let_def)
    ultimately show ?thesis using s1(1) backtracked_graph[OF ok(1,2) g n s1(2)] same_problem_if(2)[OF s1(2)]
      by (intro exI[of _ s1] exI[of _ "{p}"]) simp
  qed
  then obtain s' R' where s': "backtrack E s res = Some s'" "core_ok R' s'" "R' \<subseteq> insert p (high s')" "graph_ok F s'" "idle s'" "same_problem s s'"
    "ilevel s' = res" "istore s' = istore s" "\<forall>l \<in> set (cl_lits c). - l \<in> set (itrail s')" "ivar_level s' = ivar_level s"
    by (elim exE conjE) (rule that; assumption)
  have "p \<in> high s'"
  proof (rule high_watch[where i = 0])
    show "trail_ok s'" "control_ok s'" using s'(2) by (simp_all add: core_ok_def)
  qed (use c s'(7-10) c0 top(1) in simp_all)
  then show ?thesis using s' by (intro exI[of _ s'] exI[of _ R']) auto
qed

lemma analyze_ok:
  assumes E: "responsive E" "bumps E" "\<not> eager E" "chrono (opts E) \<noteq> 0 \<or> connected (opts E)"
    and inv: "search_inv F s" "\<not> iunsat s" and conf: "iconflict s = Some p"
  shows "\<exists>s'. analyze E s = Some s' \<and> search_inv F s' \<and>
    (if iunsat s' then \<exists>c. istore s p = Some c \<and> (\<forall>l \<in> set (cl_lits c). ivar_level s \<bar>l\<bar> = 0)
     else iconflict s' = None \<and> same_problem s s' \<and> ilevel s' < ilevel s)"
proof -
  let ?R = "insert p (high s)"
  have s: "core_ok ?R s" "graph_ok F s" "idle s" "conflict_false s" using inv by (simp_all add: search_inv_def exempt_conflict(1)[OF conf])
  then obtain c where c: "istore s p = Some c" "\<forall>l \<in> set (cl_lits c). ivals s l < 0" using conf by (auto simp: conflict_false_def)
  have cok: "clause_ok s c" "trail_ok s" using s(1) c(1) by (auto simp: core_ok_def clauses_ok_def)
  then have false: "\<forall>l \<in> set (cl_lits c). - l \<in> set (itrail s)" using c(2) trail_ok_ivals(2)[OF cok(2)] by (auto simp: clause_ok_def)
  from find_conflict_level_ok[OF s(1) insertI1 s(2) c(1) false] obtain s1 res forced c1 where
    s1: "find_conflict_level s p = Some (s1, res, forced)" "core_ok ?R s1" "graph_ok F s1" "reordered p s s1" "istore s1 p = Some c1"
    "set (cl_lits c1) = set (cl_lits c)" "\<forall>l \<in> set (cl_lits c). ivar_level s \<bar>l\<bar> \<le> res" "ivar_level s \<bar>cl_lits c1 ! 0\<bar> = res" "res \<le> ilevel s"
    "if forced = 0 then 0 < res \<longrightarrow> ivar_level s \<bar>cl_lits c1 ! 1\<bar> = res
     else 0 < res \<and> cl_lits c1 ! 0 = forced \<and> (\<forall>l \<in> set (cl_lits c). l \<noteq> forced \<longrightarrow> ivar_level s \<bar>l\<bar> < res)"
    by (elim exE conjE) (rule that; assumption)
  have e1: "itrail s1 = itrail s" "ivar_level s1 = ivar_level s" "ilevel s1 = ilevel s" "idle s1" "same_problem s s1"
    using s1(4) s(3) by (auto simp: reordered_def idle_def same_problem_def)
  have R1: "?R \<subseteq> insert p (high s1)" using reordered_high[OF s1(4)] by blast
  have false1: "\<forall>l \<in> set (cl_lits c1). - l \<in> set (itrail s1) \<and> ivar_level s1 \<bar>l\<bar> \<le> res" using false s1(6,7) e1 by simp
  have start: "analyze E s = (if forced \<noteq> 0 then do {
         s2 \<leftarrow> backtrack E s1 (res - 1);
         s3 \<leftarrow> search_assign_driving E s2 forced (Reason_Clause p);
         Some (s3\<lparr>iconflict := None\<rparr>) }
       else do { s2 \<leftarrow> backtrack E s1 res; derive_and_learn E s2 p })"
    using E(3,4) conf s1(1) by (auto simp: analyze_def)
  show ?thesis
  proof (cases "forced = 0")
    case False
    then have f: "0 < res" "cl_lits c1 ! 0 = forced" "\<forall>l \<in> set (cl_lits c). l \<noteq> forced \<longrightarrow> ivar_level s \<bar>l\<bar> < res" using s1(10) by simp_all
    have "\<exists>s2 s3. backtrack E s1 (res - 1) = Some s2 \<and> search_assign_driving E s2 forced (Reason_Clause p) = Some s3 \<and>
      core_ok {} s3 \<and> graph_ok F s3 \<and> idle s3 \<and> same_problem s1 s3 \<and> ilevel s3 < ilevel s1"
      by (rule force_literal_ok[OF E(1) s1(2,3) R1 e1(4) s1(5) f(2)]) (use false1 f s1(6,8,9) e1 in auto)
    then obtain s2 s3 where s3: "backtrack E s1 (res - 1) = Some s2" "search_assign_driving E s2 forced (Reason_Clause p) = Some s3"
      "core_ok {} s3" "graph_ok F s3" "idle s3" "same_problem s1 s3" "ilevel s3 < ilevel s1" by blast
    let ?s = "s3\<lparr>iconflict := None\<rparr>"
    have "analyze E s = Some ?s" using start False s3(1,2) by simp
    moreover have "search_inv F ?s" by (rule search_inv_resume) (use s3(3-5) in \<open>simp_all add: idle_def\<close>)
    moreover have "same_problem s ?s" using same_problem_trans[OF e1(5) s3(6)] by (simp add: same_problem_def)
    moreover have "\<not> iunsat ?s" using inv(2) e1(5) s3(6) by (simp add: same_problem_def)
    ultimately show ?thesis using s3(7) e1(3) by auto
  next
    case True
    from backtrack_to_conflict[OF E(1) s1(2,3) R1 e1(4) s1(5) false1] s1(8,9) e1 obtain s2 R2 where
      s2: "backtrack E s1 res = Some s2" "core_ok R2 s2" "R2 \<subseteq> high s2" "graph_ok F s2" "idle s2" "same_problem s1 s2"
      "ilevel s2 = res" "istore s2 = istore s1" "\<forall>l \<in> set (cl_lits c1). - l \<in> set (itrail s2)" "ivar_level s2 = ivar_level s1" by auto
    have run: "analyze E s = derive_and_learn E s2 p" using start True s2(1) by simp
    show ?thesis
    proof (cases "res = 0")
      case r0: True
      have "entails F [] []" by (rule root_conflict[OF s2(4), of p c1]) (use s2 s1(5-7) e1(2) r0 in auto)
      moreover have "analyze E s = Some (learn_empty_clause s2)" using run r0 s2(7) by (simp add: derive_and_learn_def)
      moreover have "iunsat (learn_empty_clause s2)" by (simp add: learn_empty_clause_def)
      ultimately show ?thesis using c(1) s1(7) r0 by (auto simp: search_inv_def)
    next
      case r1: False
      have c10: "cl_lits c1 ! 0 \<in> set (cl_lits c1)" using clause_ok_watches(1)[of s1 c1] s1(2,5) by (auto simp: core_ok_def clauses_ok_def)
      have "\<exists>s'. derive_and_learn E s2 p = Some s' \<and> core_ok {} s' \<and> graph_ok F s' \<and> idle s' \<and> iconflict s' = None \<and> same_problem s2 s' \<and> ilevel s' < ilevel s2"
        by (rule derive_and_learn_ok[OF E(1,2) s2(2,4,3,5) _ _ s2(9) c10]) (use r1 s2(7,8,10) s1(5,8) e1(2) in simp_all)
      then obtain s' where s': "derive_and_learn E s2 p = Some s'" "core_ok {} s'" "graph_ok F s'" "idle s'" "iconflict s' = None"
        "same_problem s2 s'" "ilevel s' < ilevel s2" by blast
      have "same_problem s s'" using e1(5) s2(6) s'(6) same_problem_trans by blast
      moreover from this have "\<not> iunsat s'" using inv(2) by (simp add: same_problem_def)
      ultimately show ?thesis using run s'(1,5,7) search_inv_resume[OF s'(2-5)] s2(7) s1(9) by auto
    qed
  qed
qed

end
