(* ===== verification/Solver_Solve.thy ===== *)
theory Solver_Solve
  imports Solver_Conflict
begin

text \<open>
  The solver as a whole: original clauses are added one after the other, at any point between two
  solving calls, and the search propagates, analyzes, decides and backtracks in any order the
  heuristics may choose.  Whatever the order, a leaf of the search is a model of all clauses added
  and the answer \<open>unsatisfiable\<close> is right.
\<close>

section \<open>Original clauses\<close>

text \<open>The loop over the literals of the original clause; \<open>pre\<close> are the literals already taken.\<close>

definition taken :: "('p, 'h) internal \<Rightarrow> int list \<Rightarrow> (int \<Rightarrow> int) \<Rightarrow> int list \<Rightarrow> bool \<Rightarrow> bool" where
  "taken s pre m cl skip \<longleftrightarrow>
     (\<forall>v. if v \<in> abs ` set pre then m v = 1 \<and> v \<in> set pre \<or> m v = -1 \<and> - v \<in> set pre else m v = imarks s v) \<and>
     set cl \<subseteq> {l \<in> set pre. ivals s l = 0 \<and> m \<bar>l\<bar> = sgn l} \<and> distinct (map abs cl) \<and>
     (if skip then \<exists>l \<in> set pre. - l \<in> set pre \<or> l \<in> set (itrail s)
      else \<forall>l \<in> set pre. l \<in> set cl \<or> - l \<in> set (itrail s))"

lemma take_original_lit_ok:
  assumes t: "trail_ok s" and lit: "ilit_ok s lit" and m0: "imarks s = (\<lambda>v. 0)" and tk: "taken s pre m cl skip"
  shows "\<exists>m' cl' skip'. take_original_lit (s\<lparr>imarks := m, iclause := cl\<rparr>, skip) lit = Some (s\<lparr>imarks := m', iclause := cl'\<rparr>, skip') \<and>
    taken s (pre @ [lit]) m' cl' skip'"
proof -
  let ?s = "s\<lparr>imarks := m, iclause := cl\<rparr>"
  have nz: "lit \<noteq> 0" using lit by (simp add: ilit_ok_def)
  have lok: "ilit_ok ?s lit" using lit by (simp add: ilit_ok_def)
  define x where "x = (if lit < 0 then - m \<bar>lit\<bar> else m \<bar>lit\<bar>)"
  have mk: "marked ?s lit = Some x" using lok by (simp add: marked_def x_def)
  have mv: "if \<bar>lit\<bar> \<in> abs ` set pre then m \<bar>lit\<bar> = 1 \<and> \<bar>lit\<bar> \<in> set pre \<or> m \<bar>lit\<bar> = -1 \<and> - \<bar>lit\<bar> \<in> set pre else m \<bar>lit\<bar> = 0"
    using tk m0 by (simp add: taken_def)
  consider "x > 0" | "x < 0" | "x = 0" by linarith
  then show ?thesis
  proof cases
    case 1
    then have "lit \<in> set pre" using mv nz by (auto simp: x_def split: if_splits)
    then have "taken s (pre @ [lit]) m cl skip" using tk by (auto simp: taken_def insert_absorb split: if_splits)
    then show ?thesis using 1 mk by (intro exI[of _ m] exI[of _ cl] exI[of _ skip]) (simp add: take_original_lit_def)
  next
    case 2
    then have "- lit \<in> set pre" using mv nz by (auto simp: x_def split: if_splits)
    moreover from this have "abs ` set (pre @ [lit]) = abs ` set pre" by (auto simp: image_iff) (metis abs_minus_cancel)
    ultimately have "taken s (pre @ [lit]) m cl True" using tk by (auto simp: taken_def split: if_splits)
    then show ?thesis using 2 mk by (intro exI[of _ m] exI[of _ cl] exI[of _ True]) (simp add: take_original_lit_def)
  next
    case 3
    then have new: "\<bar>lit\<bar> \<notin> abs ` set pre" using mv by (auto simp: x_def split: if_splits)
    let ?m = "m(\<bar>lit\<bar> := sgn lit)"
    let ?cl = "if ivals s lit = 0 then cl @ [lit] else cl"
    have fresh: "\<bar>l\<bar> \<noteq> \<bar>lit\<bar>" if "l \<in> set pre" for l using new that by (metis imageI)
    have run: "take_original_lit (?s, skip) lit = Some (s\<lparr>imarks := ?m, iclause := ?cl\<rparr>, skip \<or> ivals s lit > 0)"
      using 3 mk lok by (auto simp: take_original_lit_def mark_def val_def ilit_ok_def)
    have "taken s (pre @ [lit]) ?m ?cl (skip \<or> ivals s lit > 0)"
      unfolding taken_def
    proof (intro conjI)
      show "\<forall>v. if v \<in> abs ` set (pre @ [lit]) then ?m v = 1 \<and> v \<in> set (pre @ [lit]) \<or> ?m v = -1 \<and> - v \<in> set (pre @ [lit]) else ?m v = imarks s v"
        using tk nz by (auto simp: taken_def sgn_if split: if_splits)
      have "l \<in> set pre" "ivals s l = 0" "m \<bar>l\<bar> = sgn l" if "l \<in> set cl" for l using tk that by (auto simp: taken_def)
      then show "set ?cl \<subseteq> {l \<in> set (pre @ [lit]). ivals s l = 0 \<and> ?m \<bar>l\<bar> = sgn l}" using fresh by (fastforce split: if_splits)
      show "distinct (map abs ?cl)" using tk new by (auto simp: taken_def)
      show "if skip \<or> ivals s lit > 0 then \<exists>l \<in> set (pre @ [lit]). - l \<in> set (pre @ [lit]) \<or> l \<in> set (itrail s)
        else \<forall>l \<in> set (pre @ [lit]). l \<in> set ?cl \<or> - l \<in> set (itrail s)"
        using tk trail_ok_ivals(1,2)[OF t lit] by (auto simp: taken_def split: if_splits)
    qed
    then show ?thesis using run by blast
  qed
qed

lemma take_original_lits_ok:
  assumes "trail_ok s" "imarks s = (\<lambda>v. 0)" "\<forall>l \<in> set ls. ilit_ok s l" "taken s pre m cl skip"
  shows "\<exists>m' cl' skip'. mfold take_original_lit (s\<lparr>imarks := m, iclause := cl\<rparr>, skip) ls = Some (s\<lparr>imarks := m', iclause := cl'\<rparr>, skip') \<and>
    taken s (pre @ ls) m' cl' skip'"
  using assms(3,4)
proof (induction ls arbitrary: pre m cl skip)
  case Nil
  show ?case by (rule exI[of _ m], rule exI[of _ cl], rule exI[of _ skip]) (use Nil in simp)
next
  case (Cons l ls)
  from take_original_lit_ok[OF assms(1) _ assms(2) Cons.prems(2), of l] Cons.prems(1) obtain m1 cl1 skip1 where
    1: "take_original_lit (s\<lparr>imarks := m, iclause := cl\<rparr>, skip) l = Some (s\<lparr>imarks := m1, iclause := cl1\<rparr>, skip1)"
    "taken s (pre @ [l]) m1 cl1 skip1" by auto
  from Cons.IH[OF _ 1(2)] Cons.prems(1) 1(1) show ?case by simp
qed

lemma simplified_original:
  assumes t: "trail_ok s" and i: "idle s" and c: "\<forall>l \<in> set (ioriginal s). ilit_ok s l"
  shows "\<exists>s' cl skip. mfold take_original_lit (s, False) (ioriginal s) = Some (s', skip) \<and>
    mfold unmark s' (ioriginal s') = Some (s\<lparr>iclause := cl\<rparr>) \<and> distinct (map abs cl) \<and> set cl \<subseteq> {l \<in> set (ioriginal s). ivals s l = 0} \<and>
    (if skip then \<exists>l \<in> set (ioriginal s). - l \<in> set (ioriginal s) \<or> l \<in> set (itrail s)
     else \<forall>l \<in> set (ioriginal s). l \<in> set cl \<or> - l \<in> set (itrail s))"
proof -
  have m0: "imarks s = (\<lambda>v. 0)" "iclause s = []" using i by (simp_all add: idle_def)
  have "taken s [] (imarks s) (iclause s) False" by (simp add: taken_def m0(2))
  from take_original_lits_ok[OF t m0(1) c this] obtain m cl skip where
    1: "mfold take_original_lit (s, False) (ioriginal s) = Some (s\<lparr>imarks := m, iclause := cl\<rparr>, skip)" "taken s (ioriginal s) m cl skip" by auto
  let ?s = "s\<lparr>imarks := m, iclause := cl\<rparr>"
  have "(\<lambda>v. if v \<in> abs ` set (ioriginal s) then 0 else m v) = imarks s"
  proof
    fix v show "(if v \<in> abs ` set (ioriginal s) then 0 else m v) = imarks s v"
      using 1(2) unfolding taken_def by (cases "v \<in> abs ` set (ioriginal s)") (simp_all add: m0(1))
  qed
  moreover have "\<forall>l \<in> set (ioriginal ?s). ilit_ok ?s l" using c by (simp add: ilit_ok_def)
  ultimately have "mfold unmark ?s (ioriginal ?s) = Some (s\<lparr>iclause := cl\<rparr>)" using unmark_lits[of "ioriginal ?s" ?s] by (simp cong: if_cong)
  moreover have "set cl \<subseteq> {l \<in> set (ioriginal s). ivals s l = 0}" "distinct (map abs cl)"
    "if skip then \<exists>l \<in> set (ioriginal s). - l \<in> set (ioriginal s) \<or> l \<in> set (itrail s)
     else \<forall>l \<in> set (ioriginal s). l \<in> set cl \<or> - l \<in> set (itrail s)" using 1(2) by (auto simp: taken_def)
  ultimately show ?thesis using 1(1) by (intro exI[of _ ?s] exI[of _ cl] exI[of _ skip]) simp
qed


lemma models_snoc: "models (F @ [c]) \<tau> \<longleftrightarrow> models F \<tau> \<and> clause_true \<tau> c"
  by (auto simp: models_def)

lemma graph_ok_grow:
  assumes g: "graph_ok F s" and G: "\<And>\<tau>. models G \<tau> \<Longrightarrow> models F \<tau>"
    "\<And>\<tau>. models F \<tau> \<Longrightarrow> \<forall>l \<in> set (itrail s). ivar_level s \<bar>l\<bar> = 0 \<longrightarrow> lit_true \<tau> l \<Longrightarrow> models G \<tau>"
  shows "graph_ok G s"
proof -
  have "entails F [] d \<Longrightarrow> entails G [] d" for d using G(1) by (simp add: entails_def)
  then have "follows G s" using g by (auto simp: graph_ok_def follows_def)
  moreover have "demands s G" using g G(2) unfolding graph_ok_def demands_def by blast
  ultimately show ?thesis using g by (simp add: graph_ok_def)
qed

lemma assign_original_unit_ok:
  assumes E: "responsive E" and core: "core_ok {} s" and g: "graph_ok F s" and s: "ilevel s = 0" "iconflict s = None" "\<not> iunsat s"
    and u: "ilit_ok s u" "ivals s u = 0"
    and G: "\<And>\<tau>. models G \<tau> \<Longrightarrow> models F \<tau>" "entails G [] [u]"
      "\<And>\<tau>. models F \<tau> \<Longrightarrow> \<forall>l \<in> set (itrail s). ivar_level s \<bar>l\<bar> = 0 \<longrightarrow> lit_true \<tau> l \<Longrightarrow> lit_true \<tau> u \<Longrightarrow> models G \<tau>"
  shows "\<exists>s'. assign_original_unit E s u = Some s' \<and> same_marks s s' \<and> imax_var s' = imax_var s \<and>
    (if iunsat s' then entails G [] [] else core_ok {} s' \<and> graph_ok G s' \<and> iconflict s' = None)"
proof -
  have ok: "trail_ok s" using core by (simp add: core_ok_def)
  define s1 where "s1 = s\<lparr>ivar_level := (ivar_level s)(\<bar>u\<bar> := ilevel s), ivar_trail := (ivar_trail s)(\<bar>u\<bar> := length (itrail s)),
     ivar_reason := (ivar_reason s)(\<bar>u\<bar> := No_Reason)\<rparr>"
  define s2 where "s2 = (set_val s1 u)\<lparr>itrail := itrail (set_val s1 u) @ [u]\<rparr>"
  have b2: "same_base s s2" "extended_by u 0 s s2" "ivar_reason s2 = (ivar_reason s)(\<bar>u\<bar> := No_Reason)"
    using s(1) by (simp_all add: s2_def s1_def set_val_def same_base_def extended_by_def)
  have ok2: "core_ok {} s2" by (rule core_ok_extended[OF core b2(2,1) u]) simp
  have g2: "graph_ok G s2" by (rule unit_graph[OF ok g u b2]) (fact G)+
  from mark_fixed_returns[OF E, of s2 u] obtain s3 where s3: "mark_fixed E s2 u = Some s3" "same_search s2 s3" unfolding same_search_def by blast
  have e3: "iconflict s3 = None" "iunsat s3 = iunsat s" "ilevel s3 = 0" "same_marks s s3" "imax_var s3 = imax_var s"
    using s b2(1) s3(2) by (simp_all add: same_search_def same_base_def same_marks_def)
  have "solver_ok G s3" using ok2 g2 same_search_core[OF s3(2)] same_search_graph[OF s3(2)]
    by (simp add: solver_ok_halves exempt_conflict(2)[OF e3(1)])
  from propagate_solver_ok[OF E this e3(1)] obtain s4 where s4: "propagate E s3 = Some (iconflict s4 = None, s4)" "solver_ok G s4" "conflict_false s4"
    "prop_frame s3 (at_start s3 s4)" by blast
  have e4: "same_marks s3 s4" "imax_var s4 = imax_var s3" "iunsat s4 = iunsat s3" "ilevel s4 = ilevel s3"
    using s4(4) by (simp_all add: prop_frame_def same_marks_def)
  have run: "assign_original_unit E s u = Some (if iconflict s4 = None then s4 else learn_empty_clause s4)"
    using u(1) s3(1) s4(1) by (simp add: assign_original_unit_def Let_def s1_def[symmetric] s2_def[symmetric])
  have sm: "same_marks s s4" "imax_var s4 = imax_var s" using e3(4,5) e4(1,2) by (simp_all add: same_marks_def)
  have ok4: "core_ok (exempt s4) s4" "graph_ok G s4" using s4(2) by (simp_all add: solver_ok_halves)
  show ?thesis
  proof (cases "iconflict s4")
    case None
    then show ?thesis using run sm ok4 s(3) e3(2) e4(3) by (simp add: exempt_conflict(2))
  next
    case (Some p)
    then obtain c where c: "istore s4 p = Some c" "\<forall>l \<in> set (cl_lits c). ivals s4 l < 0" using s4(3) by (auto simp: conflict_false_def)
    have t4: "clause_ok s4 c" "trail_ok s4" using ok4(1) c(1) by (auto simp: core_ok_def clauses_ok_def)
    have "- l \<in> set (itrail s4) \<and> ivar_level s4 \<bar>l\<bar> = 0" if "l \<in> set (cl_lits c)" for l
    proof -
      have "- l \<in> set (itrail s4)" using trail_ok_ivals(2)[OF t4(2), of l] that c(2) t4(1) by (auto simp: clause_ok_def)
      then show ?thesis using t4(2) e4(4) e3(3) unfolding trail_ok_def by (metis abs_minus_cancel le_zero_eq)
    qed
    then have "entails G [] []" using root_conflict[OF ok4(2) c(1)] by blast
    then show ?thesis using run Some sm by (simp add: learn_empty_clause_def trace_def same_marks_def)
  qed
qed

lemma use_original_clause_ok:
  assumes E: "responsive E" and core: "core_ok {} s" and g: "graph_ok F s" and s: "ilevel s = 0" "iconflict s = None" "\<not> iunsat s"
    and cl: "distinct (map abs (iclause s))" "\<forall>l \<in> set (iclause s). ilit_ok s l \<and> ivals s l = 0 \<and> l \<in> set c"
    and rest: "\<forall>l \<in> set c. l \<in> set (iclause s) \<or> - l \<in> set (itrail s)"
  shows "\<exists>s'. use_original_clause E s = Some s' \<and> same_marks s s' \<and> imax_var s' = imax_var s \<and>
    (if iunsat s' then entails (F @ [c]) [] [] else core_ok {} s' \<and> graph_ok (F @ [c]) s' \<and> iconflict s' = None)"
proof -
  have t: "trail_ok s" using core by (simp add: core_ok_def)
  have root: "entails F [] [l]" "ivar_level s \<bar>l\<bar> = 0" "l \<noteq> 0" if "l \<in> set (itrail s)" for l
    using that g t s(1) by (auto simp: graph_ok_def follows_def trail_ok_def ilit_ok_def)
  have ent: "entails (F @ [c]) [] (iclause s)"
    unfolding entails_def
  proof (intro allI impI)
    fix \<tau> assume "models (F @ [c]) \<tau>"
    then have m: "models F \<tau>" "clause_true \<tau> c" by (simp_all add: models_snoc)
    then obtain l where l: "l \<in> set c" "lit_true \<tau> l" by (auto simp: clause_true_iff)
    have "- l \<notin> set (itrail s)"
    proof
      assume a: "- l \<in> set (itrail s)"
      then have "lit_true \<tau> (- l)" using models_clause_true[OF root(1) m(1)] by simp
      then show False using l(2) root(3)[OF a] by simp
    qed
    then show "clause_true \<tau> (iclause s)" using rest l by (auto simp: clause_true_iff)
  qed
  have conv: "models (F @ [c]) \<tau>" if "models F \<tau>" "clause_true \<tau> (iclause s)" for \<tau>
    using that cl(2) by (auto simp: models_snoc clause_true_iff)
  consider "iclause s = []" | u where "iclause s = [u]" | "2 \<le> length (iclause s)" by (cases "iclause s"; cases "tl (iclause s)") auto
  then show ?thesis
  proof cases
    case 1
    then show ?thesis using ent by (simp add: use_original_clause_def same_marks_def)
  next
    case (2 u)
    have "\<exists>s'. assign_original_unit E s u = Some s' \<and> same_marks s s' \<and> imax_var s' = imax_var s \<and>
      (if iunsat s' then entails (F @ [c]) [] [] else core_ok {} s' \<and> graph_ok (F @ [c]) s' \<and> iconflict s' = None)"
      by (rule assign_original_unit_ok[OF E core g s]) (use cl(2) 2 ent conv in \<open>auto simp: models_snoc\<close>)
    then show ?thesis using 2 by (simp add: use_original_clause_def)
  next
    case 3
    obtain a b r where abr: "iclause s = a # b # r" using 3 by (cases "iclause s"; cases "tl (iclause s)") auto
    obtain s1 p where new: "new_solver_clause E s False 0 = (s1, p)" by fastforce
    from watch_new_clause[OF 3 cl(1) _ new, of s1] cl(2) obtain s' d where
      s': "watch_clause s1 p = Some s'" "p = ifresh s" "added d s s'" "clause_ok s d" "cl_lits d = iclause s" "cl_redundant d = False"
      "\<not> cl_garbage d" "same_marks s s'" by auto
    have core': "core_ok {ifresh s} s'" using added_core[OF core s'(4,3)] by simp
    have e: "ivals s' = ivals s" "iconflict s' = None" "iunsat s' = iunsat s" "imax_var s' = imax_var s" "istore s' = (istore s)(ifresh s \<mapsto> d)"
      using s'(3) s(2) by (simp_all add: added_def same_trail_def)
    have "ivals s' (cl_lits d ! 0) = 0" using cl(2) abr e(1) s'(5) by simp
    then have "claims {} s'" using core' unfolding core_ok_def claims_def both_processed_def by (metis e(5) fun_upd_same option.inject less_irrefl singletonD)
    then have "core_ok {} s'" using core' by (simp add: core_ok_def)
    moreover have "graph_ok (F @ [c]) s'"
      by (rule added_graph_grow[OF core g s'(3)]) (use ent conv s'(5-7) in \<open>auto simp: models_snoc\<close>)
    moreover have "use_original_clause E s = Some s'" using new s'(1) abr by (simp add: use_original_clause_def)
    ultimately show ?thesis using s'(8) e s(3) by simp
  qed
qed


lemma core_ok_original [simp]: "core_ok R (s\<lparr>ioriginal := x\<rparr>) = core_ok R s" "core_ok R (s\<lparr>iclause := y\<rparr>) = core_ok R s"
  by (simp_all add: core_ok_def search_ok_defs)

lemma graph_ok_original [simp]: "graph_ok F (s\<lparr>ioriginal := x\<rparr>) = graph_ok F s" "graph_ok F (s\<lparr>iclause := y\<rparr>) = graph_ok F s"
  by (simp_all add: graph_ok_def reasons_ok_def justified_def decided_def trail_start_def follows_def demands_def)

lemma same_search_trace [simp]: "same_search s (trace s e)"
  by (simp add: same_search_def same_base_def same_trail_def trace_def)

text \<open>Between two steps without a conflict.\<close>

definition at_rest :: "int list list \<Rightarrow> ('p, 'h) internal \<Rightarrow> bool" where
  "at_rest F s \<longleftrightarrow> core_ok {} s \<and> graph_ok F s \<and> idle s \<and> iconflict s = None \<and> \<not> iunsat s"

lemma search_inv_at_rest: "\<not> iunsat s \<Longrightarrow> iconflict s = None \<Longrightarrow> search_inv F s \<longleftrightarrow> at_rest F s"
  by (auto simp: search_inv_def at_rest_def exempt_conflict conflict_false_def)

lemma backtrack_at_rest:
  assumes E: "responsive E" and s: "at_rest F s" and n: "n \<le> ilevel s"
  shows "\<exists>s'. backtrack E s n = Some s' \<and> at_rest F s' \<and> ilevel s' = n \<and> imax_var s' = imax_var s \<and> ioriginal s' = ioriginal s"
proof (cases "n = ilevel s")
  case True
  then show ?thesis using s by (simp add: backtrack_def)
next
  case False
  then have n': "n < ilevel s" using n by simp
  have ok: "core_ok {} s" "graph_ok F s" "trail_ok s" "control_ok s" using s by (simp_all add: at_rest_def core_ok_def)
  from backtrack_effect[OF E ok(3,4) n'] obtain s' where s': "backtrack E s n = Some s'" "backtracked n s s'" by blast
  have "core_ok {} s'" by (rule backtracked_core[OF ok(1) _ n' s'(2)]) simp
  moreover have "idle s'" "iconflict s' = None" "\<not> iunsat s'" "ilevel s' = n" "imax_var s' = imax_var s" "ioriginal s' = ioriginal s"
    using s s'(2) by (simp_all add: at_rest_def idle_def backtracked_def Let_def)
  ultimately show ?thesis using s'(1) backtracked_graph[OF ok(3,4,2) n' s'(2)] by (simp add: at_rest_def)
qed

lemma add_new_original_clause_ok:
  assumes E: "responsive E" and s: "at_rest F s" and c: "\<forall>l \<in> set (ioriginal s). ilit_ok s l"
  shows "\<exists>s'. add_new_original_clause E s = Some s' \<and> imax_var s' = imax_var s \<and>
    (if iunsat s' then entails (F @ [ioriginal s]) [] [] else at_rest (F @ [ioriginal s]) s')"
proof -
  let ?c = "ioriginal s" let ?G = "F @ [?c]"
  from backtrack_at_rest[OF E s, of 0] obtain s0 where
    s0: "(if ilevel s \<noteq> 0 then backtrack E s 0 else Some s) = Some s0" "at_rest F s0" "ilevel s0 = 0" "imax_var s0 = imax_var s" "ioriginal s0 = ?c"
    using s by (cases "ilevel s = 0") auto
  have ok: "core_ok {} s0" "graph_ok F s0" "idle s0" "iconflict s0 = None" "\<not> iunsat s0" "trail_ok s0" using s0(2) by (simp_all add: at_rest_def core_ok_def)
  have c0: "\<forall>l \<in> set (ioriginal s0). ilit_ok s0 l" using c s0(4,5) by (simp add: ilit_ok_def)
  from simplified_original[OF ok(6,3) c0, unfolded s0(5)] obtain s1 cl skip where
    s1: "mfold take_original_lit (s0, False) ?c = Some (s1, skip)" "mfold unmark s1 (ioriginal s1) = Some (s0\<lparr>iclause := cl\<rparr>)"
    "distinct (map abs cl)" "set cl \<subseteq> {l \<in> set ?c. ivals s0 l = 0}"
    "if skip then \<exists>l \<in> set ?c. - l \<in> set ?c \<or> l \<in> set (itrail s0) else \<forall>l \<in> set ?c. l \<in> set cl \<or> - l \<in> set (itrail s0)"
    by (elim exE conjE) (rule that; assumption)
  let ?s = "s0\<lparr>iclause := cl\<rparr>"
  have grow: "models ?G \<tau> \<Longrightarrow> models F \<tau>" for \<tau> by (simp add: models_snoc)
  show ?thesis
  proof (cases skip)
    case True
    let ?t = "(trace ?s (Deleted ?c))\<lparr>iclause := []\<rparr>"
    have run: "add_new_original_clause E s = Some ?t"
      unfolding add_new_original_clause_def s0(1) using ok(5) s1(1,2) True s0(5) by simp
    obtain l where l: "l \<in> set ?c" "- l \<in> set ?c \<or> l \<in> set (itrail s0)" using s1(5) True by auto
    have lz: "l \<noteq> 0" "ivar_level s0 \<bar>l\<bar> = 0 \<or> l \<notin> set (itrail s0)" using l(1) c0 s0(3,5) ok(6) by (auto simp: ilit_ok_def trail_ok_def)
    have "graph_ok ?G s0"
    proof (rule graph_ok_grow[OF ok(2) grow])
      fix \<tau> assume m: "models F \<tau>" "\<forall>l \<in> set (itrail s0). ivar_level s0 \<bar>l\<bar> = 0 \<longrightarrow> lit_true \<tau> l"
      have "lit_true \<tau> l \<or> lit_true \<tau> (- l)" using lz(1) by simp
      then have "clause_true \<tau> ?c" using l lz(2) m(2) by (auto simp: clause_true_iff)
      then show "models ?G \<tau>" using m(1) by (simp add: models_snoc)
    qed
    then have "graph_ok ?G ?t" "core_ok {} ?t" using ok(1) same_search_graph[OF same_search_trace, of ?G ?s "Deleted ?c"]
        same_search_core[OF same_search_trace, of "{}" ?s "Deleted ?c"] by simp_all
    moreover have "idle ?t" "iconflict ?t = None" "\<not> iunsat ?t" using ok(3-5) by (simp_all add: idle_def trace_def)
    ultimately show ?thesis using run s0(4) by (simp add: at_rest_def trace_def)
  next
    case False
    have "\<exists>s'. use_original_clause E ?s = Some s' \<and> same_marks ?s s' \<and> imax_var s' = imax_var ?s \<and>
      (if iunsat s' then entails ?G [] [] else core_ok {} s' \<and> graph_ok ?G s' \<and> iconflict s' = None)"
    proof (rule use_original_clause_ok[OF E])
      show "\<forall>l \<in> set (iclause ?s). ilit_ok ?s l \<and> ivals ?s l = 0 \<and> l \<in> set ?c" using s1(4) c0 s0(5) by (auto simp: ilit_ok_def)
    qed (use ok s0(3) s1(3,5) False in simp_all)
    then obtain s' where s': "use_original_clause E ?s = Some s'" "same_marks ?s s'" "imax_var s' = imax_var s0"
      "if iunsat s' then entails ?G [] [] else core_ok {} s' \<and> graph_ok ?G s' \<and> iconflict s' = None" by auto
    define t where "t = (if length (ioriginal s') > length (iclause s') then trace (trace s' (Derived (iclause s'))) (Deleted (ioriginal s')) else s')"
    have run: "add_new_original_clause E s = Some (t\<lparr>iclause := []\<rparr>)"
      unfolding add_new_original_clause_def s0(1) using ok(5) s1(1,2) False s'(1) by (simp add: t_def s0(5))
    have ss: "same_search s' t" unfolding t_def by (simp, intro impI, rule same_search_trans[OF same_search_trace same_search_trace])
    have e: "iunsat t = iunsat s'" "iconflict t = iconflict s'" "imax_var t = imax_var s'" using ss by (simp_all add: same_search_def same_base_def)
    have i: "idle (t\<lparr>iclause := []\<rparr>)" using ok(3) s'(2) ss by (simp add: idle_def same_marks_def same_search_def same_base_def)
    show ?thesis
    proof (cases "iunsat s'")
      case True
      then show ?thesis using run s'(3,4) e s0(4) by simp
    next
      case False
      then have "at_rest ?G (t\<lparr>iclause := []\<rparr>)" using s'(4) i e same_search_core[OF ss] same_search_graph[OF ss] by (simp add: at_rest_def)
      then show ?thesis using run s'(3) e s0(4) False by simp
    qed
  qed
qed


section \<open>The solver as a machine\<close>

text \<open>
  A new solver with \<open>n\<close> variables declared in order; \<open>r\<close> is what the memory of the restart trigger held,
  \<open>p\<close> and \<open>h\<close> are the states of the propagator and of the decision heuristics.
\<close>

definition new_internal :: "('p, 'h) config \<Rightarrow> int \<Rightarrow> reluctant \<Rightarrow> 'p \<Rightarrow> 'h \<Rightarrow> ('p, 'h) internal" where
  "new_internal E n r p h = \<lparr>imax_var = n, ivals = (\<lambda>l. 0), ivar_level = (\<lambda>v. 0), ivar_trail = (\<lambda>v. 0),
     ivar_reason = (\<lambda>v. No_Reason), itrail = [], icontrol = [new_level_info 0 0],
     ilevel = 0, ipropagated = 0, ipropergated = 0, ipropagated2 = 0, inotified = 0, ino_conflict_until = 0, iconflict = None,
     iunsat = False, istore = (\<lambda>p. None), iclauses = [], ifresh = 0, iwatches = (\<lambda>l. []),
     imarks = (\<lambda>v. 0), iseen = (\<lambda>v. False), iclause = [], ioriginal = [], iassumptions = [], iconstraint = [],
     iunsat_constraint = False, imarked_failed = True, irelevant = (\<lambda>v. 0), ieobserved = (\<lambda>v. False), ie2i = [0..n],
     iext = \<lparr>emax_var = nat n, evals = [], extension = [], ewitness = [], etainted = [], eextended = False\<rparr>,
     ii2e = (\<lambda>v. v), isaved = (\<lambda>v. if opt_phase (opts E) then 1 else -1), iforced = (\<lambda>v. 0), itarget = (\<lambda>v. 0), ibest = (\<lambda>v. 0),
     itarget_assigned = 0, ibest_assigned = 0, irephased = None, iconflicts = 0, irephase_conflicts = 0, istable = False,
     iforce_saved_phase = False, isearching_lucky_phases = False,
     ilevels = [], ianalyzed = [], iminimized = [], ikeep = (\<lambda>v. False), ipoison = (\<lambda>v. False), iremovable = (\<lambda>v. False),
     igtab = (\<lambda>d. 0), irecomputed = 0, ieagertried = 0, iiterating = False,
     ireluctant = reluctant_init r, iproof = [], iprop = p, iheur = h\<rparr>"

definition add_original_lit :: "('p, 'h) config \<Rightarrow> ('p, 'h) internal \<Rightarrow> int \<Rightarrow> ('p, 'h) internal option" where
  "add_original_lit E s lit = (
     if lit \<noteq> 0 then Some (s\<lparr>ioriginal := ioriginal s @ [lit]\<rparr>)
     else do {
       s1 \<leftarrow> add_new_original_clause E (trace s (Original (ioriginal s)));
       Some (s1\<lparr>ioriginal := []\<rparr>) })"

text \<open>
  One step between two points of the search loop.  \<open>Assume\<close> stands for a decision, on an assumption, on
  a literal of the constraint or on a variable, whatever the heuristics or the user say; \<open>Pseudo\<close> is
  the level opened for an assumption that holds already; \<open>Backtrack\<close> covers restarts.
\<close>

datatype search_event = Add "int list" | Propagate | Analyze | Assume int | Pseudo | Backtrack nat

fun search_step :: "('p, 'h) config \<Rightarrow> ('p, 'h) internal \<Rightarrow> search_event \<Rightarrow> ('p, 'h) internal option" where
  "search_step E s (Add c) = (if iconflict s = None \<and> ioriginal s = [] \<and> list_all (ilit_ok s) c then mfold (add_original_lit E) s (c @ [0]) else None)"
| "search_step E s Propagate = (if iconflict s = None then map_option snd (propagate E s) else None)"
| "search_step E s Analyze = (if iconflict s \<noteq> None then analyze E s else None)"
| "search_step E s (Assume lit) =
     (if iconflict s = None \<and> ipropagated s = length (itrail s) \<and> val s lit = Some 0 then search_assume_decision E s lit else None)"
| "search_step E s Pseudo = (if iconflict s = None \<and> ipropagated s = length (itrail s) then pseudo_level E s else None)"
| "search_step E s (Backtrack n) = (if iconflict s = None \<and> n < ilevel s then backtrack E s n else None)"

text \<open>The states the solver reaches, with the clauses added so far.  After the answer \<open>unsatisfiable\<close> nothing happens any more.\<close>

fun with_clause :: "int list list \<Rightarrow> search_event \<Rightarrow> int list list" where
  "with_clause F (Add c) = F @ [c]"
| "with_clause F ev = F"

inductive reached :: "('p, 'h) config \<Rightarrow> int list list \<Rightarrow> ('p, 'h) internal \<Rightarrow> bool" for E where
  reached_new: "n \<le> INT_MAX \<Longrightarrow> reached E [] (new_internal E n r p h)"
| reached_step: "reached E F s \<Longrightarrow> \<not> iunsat s \<Longrightarrow> search_step E s ev = Some s' \<Longrightarrow> reached E (with_clause F ev) s'"

lemma new_internal_at_rest:
  assumes "n \<le> INT_MAX"
  shows "at_rest [] (new_internal E n r p h)"
proof -
  let ?s = "new_internal E n r p h"
  have "core_ok {} ?s" by (simp add: core_ok_def search_ok_defs new_internal_def new_level_info_def watching_ok_def)
  moreover have "graph_ok [] ?s" using assms by (simp add: graph_ok_def reasons_ok_def follows_def demands_def new_internal_def models_def)
  ultimately show ?thesis by (simp add: at_rest_def idle_def new_internal_def)
qed

lemma add_original_lits:
  "list_all (\<lambda>l. l \<noteq> 0) c \<Longrightarrow> mfold (add_original_lit E) s c = Some (s\<lparr>ioriginal := ioriginal s @ c\<rparr>)"
  by (induction c arbitrary: s) (simp_all add: add_original_lit_def)

lemma mfold_append: "mfold f s (xs @ ys) = do { s' \<leftarrow> mfold f s xs; mfold f s' ys }"
proof (induction xs arbitrary: s)
  case (Cons x xs)
  then show ?case by (cases "f s x") simp_all
qed simp

lemma search_step_ok:
  assumes E: "responsive E" "bumps E" "\<not> eager E" "chrono (opts E) \<noteq> 0 \<or> connected (opts E)"
    and inv: "search_inv F s" "\<not> iunsat s" and run: "search_step E s ev = Some s'"
  shows "search_inv (with_clause F ev) s'"
proof (cases ev)
  case (Add c)
  then have g: "iconflict s = None" "ioriginal s = []" "list_all (ilit_ok s) c" "mfold (add_original_lit E) s (c @ [0]) = Some s'"
    using run by (auto split: if_splits)
  let ?t = "trace (s\<lparr>ioriginal := c\<rparr>) (Original c)"
  have c: "list_all (\<lambda>l. l \<noteq> 0) c" using g(3) by (auto simp: list_all_iff ilit_ok_def)
  have "at_rest F s" using inv g(1) by (simp add: search_inv_at_rest)
  then have rt: "at_rest F ?t" using same_search_core[OF same_search_trace, of "{}" "s\<lparr>ioriginal := c\<rparr>" "Original c"]
      same_search_graph[OF same_search_trace, of F "s\<lparr>ioriginal := c\<rparr>" "Original c"] by (simp add: at_rest_def idle_def trace_def)
  have o: "ioriginal ?t = c" by (simp add: trace_def)
  have "\<forall>l \<in> set c. ilit_ok ?t l" using g(3) by (simp add: trace_def ilit_ok_def list_all_iff)
  then obtain s1 where s1: "add_new_original_clause E ?t = Some s1" "if iunsat s1 then entails (F @ [c]) [] [] else at_rest (F @ [c]) s1"
    using add_new_original_clause_ok[OF E(1) rt, unfolded o] by blast
  have "s' = s1\<lparr>ioriginal := []\<rparr>" using g(2,4) s1(1) add_original_lits[OF c, of E s] by (simp add: mfold_append add_original_lit_def)
  then show ?thesis using s1(2) Add
    by (cases "iunsat s1") (auto simp: search_inv_def at_rest_def idle_def exempt_conflict conflict_false_def)
next
  case Propagate
  then have g: "iconflict s = None" "map_option snd (propagate E s) = Some s'" using run by (auto split: if_splits)
  then have "solver_ok F s" using inv by (simp add: search_inv_def solver_ok_halves)
  from propagate_solver_ok[OF E(1) this g(1)] g(2) have s': "solver_ok F s'" "conflict_false s'" "prop_frame s (at_start s s')" by auto
  moreover have "idle s'" "\<not> iunsat s'" using inv s'(3) by (simp_all add: search_inv_def idle_def prop_frame_def)
  ultimately show ?thesis using Propagate by (simp add: search_inv_def solver_ok_halves)
next
  case Analyze
  then obtain p where p: "iconflict s = Some p" "analyze E s = Some s'" using run by (auto split: if_splits)
  from analyze_ok[OF E inv p(1)] p(2) Analyze show ?thesis by auto
next
  case (Assume lit)
  then have g: "iconflict s = None" "ipropagated s = length (itrail s)" "val s lit = Some 0" "search_assume_decision E s lit = Some s'"
    using run by (auto split: if_splits)
  have r: "core_ok {} s" "graph_ok F s" "idle s" using inv g(1) by (auto simp: search_inv_at_rest at_rest_def)
  have "ilit_ok s lit" "ivals s lit = 0" using g(3) by (auto simp: val_def split: if_splits)
  from search_assume_decision_ok[OF E(1) r(1,2) g(2) this] g(4) have s': "core_ok {} s'" "graph_ok F s'" "same_base (push_level s lit) s'" by auto
  have "idle s'" "iconflict s' = None" using r(3) g(1) s'(3) by (simp_all add: idle_def same_base_def push_level_def)
  then show ?thesis using search_inv_resume[OF s'(1,2)] Assume by simp
next
  case Pseudo
  then have g: "iconflict s = None" "ipropagated s = length (itrail s)" "pseudo_level E s = Some s'" using run by (auto split: if_splits)
  have r: "core_ok {} s" "graph_ok F s" "idle s" using inv g(1) by (auto simp: search_inv_at_rest at_rest_def)
  from pseudo_level_ok[OF E(1) r(1,2) g(2)] g(3) have s': "core_ok {} s'" "graph_ok F s'" "same_search (push_level s 0) s'" by auto
  have "idle s'" "iconflict s' = None" using r(3) g(1) s'(3) by (simp_all add: idle_def same_search_def same_base_def push_level_def)
  then show ?thesis using search_inv_resume[OF s'(1,2)] Pseudo by simp
next
  case (Backtrack n)
  then have g: "iconflict s = None" "n < ilevel s" "backtrack E s n = Some s'" using run by (auto split: if_splits)
  from backtrack_at_rest[OF E(1), of F s n] g inv Backtrack show ?thesis
    by (auto simp: search_inv_at_rest) (auto simp: at_rest_def search_inv_def exempt_conflict conflict_false_def)
qed

lemma reached_inv:
  assumes E: "responsive E" "bumps E" "\<not> eager E" "chrono (opts E) \<noteq> 0 \<or> connected (opts E)"
  shows "reached E F s \<Longrightarrow> search_inv F s"
proof (induction rule: reached.induct)
  case (reached_new n r p h)
  have "\<not> iunsat (new_internal E n r p h)" "iconflict (new_internal E n r p h) = None" by (simp_all add: new_internal_def)
  then show ?case using new_internal_at_rest[OF reached_new] by (simp add: search_inv_at_rest)
next
  case (reached_step F s ev s')
  then show ?case using search_step_ok[OF E] by blast
qed


section \<open>Properties\<close>

lemma leaf_model:
  assumes s: "at_rest F s" and sat: "satisfied s"
  shows "models F (\<lambda>v. v \<in> set (itrail s))"
proof -
  let ?\<tau> = "\<lambda>v. v \<in> set (itrail s)"
  have ok: "core_ok {} s" "graph_ok F s" "iconflict s = None" using s by (simp_all add: at_rest_def)
  then have so: "search_ok s" "trail_ok s" by (simp_all add: search_ok_def core_ok_def exempt_conflict(2))
  have tr: "lit_true ?\<tau> l" if "l \<in> set (itrail s)" for l
  proof -
    have "l \<noteq> 0" using that so(2) by (auto simp: trail_ok_def ilit_ok_def)
    moreover have "- l \<notin> set (itrail s)" using trail_same_abs[OF so(2) that, of "- l"] \<open>l \<noteq> 0\<close> by auto
    ultimately show ?thesis using that by (simp add: lit_true_def)
  qed
  have "clause_true ?\<tau> (cl_lits c)" if c: "istore s p = Some c" "\<not> cl_garbage c" for p c
  proof -
    obtain k where k: "k \<in> set (cl_lits c)" "ivals s k > 0" using leaf_satisfies[OF so(1) sat ok(3) c] by blast
    have "ilit_ok s k" using k(1) c(1) ok(1) by (auto simp: core_ok_def clauses_ok_def clause_ok_def)
    then show ?thesis using k trail_ok_ivals(1)[OF so(2)] tr by (auto simp: clause_true_iff)
  qed
  then show ?thesis using ok(2) tr unfolding graph_ok_def demands_def by blast
qed

text \<open>An executable run: it stops with \<open>None\<close> when a step is not possible.\<close>

fun search_run :: "('p, 'h) config \<Rightarrow> ('p, 'h) internal \<Rightarrow> search_event list \<Rightarrow> ('p, 'h) internal option" where
  "search_run E s [] = Some s"
| "search_run E s (ev # evs) = (if iunsat s then None else do { s' \<leftarrow> search_step E s ev; search_run E s' evs })"

lemma search_run_reached: "search_run E s evs = Some s' \<Longrightarrow> reached E F s \<Longrightarrow> reached E (foldl with_clause F evs) s'"
proof (induction evs arbitrary: s F)
  case (Cons ev evs)
  then obtain t where "\<not> iunsat s" "search_step E s ev = Some t" "search_run E t evs = Some s'" by (auto split: if_splits bind_splits)
  with Cons.IH[of t "with_clause F ev"] reached_step[OF Cons.prems(2)] show ?case by simp
qed simp

text \<open>
  \<^bold>\<open>C1\<close>  The answers of the solver are right, for every formula, every order of decisions, restarts and added
  clauses and every setting of the options: when the search ends with \<^verbatim>\<open>unsat\<close>, the clauses added so far
  have no model, and when \<^verbatim>\<open>satisfied\<close> holds without a conflict, the trail is a model of all of them.
  Callbacks and heuristics have to return; the propagator, if there is one, is lazy.
\<close>

theorem search_answers_right:
  assumes "responsive E" and "bumps E" and "\<not> eager E" and "chrono (opts E) \<noteq> 0 \<or> connected (opts E)" and "reached E F s"
  shows "(iunsat s \<longrightarrow> (\<nexists>\<tau>. models F \<tau>)) \<and>
    (\<not> iunsat s \<and> iconflict s = None \<and> satisfied s \<longrightarrow> models F (\<lambda>v. v \<in> set (itrail s)))"
proof -
  have inv: "search_inv F s" by (rule reached_inv[OF assms])
  have "\<not> models F \<tau>" if "iunsat s" for \<tau> using inv that by (auto simp: search_inv_def entails_def)
  moreover have "models F (\<lambda>v. v \<in> set (itrail s))" if "\<not> iunsat s" "iconflict s = None" "satisfied s"
    by (rule leaf_model) (use inv that in \<open>simp_all add: search_inv_at_rest\<close>)
  ultimately show ?thesis by blast
qed

text \<open>
  \<^bold>\<open>C2\<close>  The search never gets stuck: in every state reached, unless the formula is known to be unsatisfiable,
  propagation returns, with the whole trail propagated or a conflict, and a conflict is analyzed: either
  the answer is \<^verbatim>\<open>unsat\<close> or the search goes on below the level of the conflict.
\<close>

theorem search_never_stuck:
  assumes "responsive E" and "bumps E" and "\<not> eager E" and "chrono (opts E) \<noteq> 0 \<or> connected (opts E)" and "reached E F s" and "\<not> iunsat s"
  shows "case iconflict s of
      None \<Rightarrow> \<exists>s'. propagate E s = Some (iconflict s' = None, s') \<and> (iconflict s' = None \<longrightarrow> ipropagated s' = length (itrail s'))
    | Some p \<Rightarrow> \<exists>s'. analyze E s = Some s' \<and> (iunsat s' \<or> iconflict s' = None \<and> ilevel s' < ilevel s)"
proof -
  have inv: "search_inv F s" by (rule reached_inv[OF assms(1-5)])
  show ?thesis
  proof (cases "iconflict s")
    case None
    then have "solver_ok F s" using inv assms(6) by (simp add: search_inv_def solver_ok_halves)
    from propagate_solver_ok[OF assms(1) this None] None show ?thesis by auto
  next
    case (Some p)
    from analyze_ok[OF assms(1-4) inv assms(6) Some] Some show ?thesis by (auto split: if_splits)
  qed
qed

text \<open>
  \<^bold>\<open>C3\<close>  What the solver keeps follows from what was added: every clause in memory, learned clauses included,
  and every literal assigned on the root level is entailed by the clauses added so far, and every
  literal with a reason clause is implied by it: the other literals of the clause are false, were
  assigned before and on no higher level.
\<close>

theorem search_keeps_consequences:
  assumes "responsive E" and "bumps E" and "\<not> eager E" and "chrono (opts E) \<noteq> 0 \<or> connected (opts E)" and "reached E F s" and "\<not> iunsat s"
  shows "(\<forall>p c. istore s p = Some c \<longrightarrow> entails F [] (cl_lits c)) \<and>
    (\<forall>l \<in> set (itrail s). ivar_level s \<bar>l\<bar> = 0 \<longrightarrow> entails F [] [l]) \<and>
    (\<forall>l \<in> set (itrail s). \<forall>p. ivar_reason s \<bar>l\<bar> = Reason_Clause p \<longrightarrow> (\<exists>c. istore s p = Some c \<and> l \<in> set (cl_lits c) \<and>
       (\<forall>k \<in> set (cl_lits c). k \<noteq> l \<longrightarrow> - k \<in> set (itrail s) \<and> ivar_trail s \<bar>k\<bar> < ivar_trail s \<bar>l\<bar> \<and> ivar_level s \<bar>k\<bar> \<le> ivar_level s \<bar>l\<bar>)))"
proof -
  have g: "graph_ok F s" using reached_inv[OF assms(1-5)] assms(6) by (simp add: search_inv_def)
  have "\<exists>c. istore s p = Some c \<and> l \<in> set (cl_lits c) \<and>
       (\<forall>k \<in> set (cl_lits c). k \<noteq> l \<longrightarrow> - k \<in> set (itrail s) \<and> ivar_trail s \<bar>k\<bar> < ivar_trail s \<bar>l\<bar> \<and> ivar_level s \<bar>k\<bar> \<le> ivar_level s \<bar>l\<bar>)"
    if l: "l \<in> set (itrail s)" "ivar_reason s \<bar>l\<bar> = Reason_Clause p" for l p
  proof -
    have "justified s l" using g l by (auto simp: graph_ok_def reasons_ok_def decided_def)
    then show ?thesis using l(2) by (auto simp: justified_def split: if_splits)
  qed
  then show ?thesis using g by (auto simp: graph_ok_def follows_def)
qed

section \<open>Two runs\<close>

definition demo_lazy :: "(nat, nat) config" where
  "demo_lazy = (demo_config 1)\<lparr>opts := (opts (demo_config 1))\<lparr>connected := False\<rparr>\<rparr>"

definition demo_solver :: "(nat, nat) internal" where
  "demo_solver = new_internal demo_lazy 3 demo_reluctant 0 0"

definition demo_unsat_run :: "search_event list" where
  "demo_unsat_run = [Add [1, 2, 3], Add [1, -2], Add [2, -3], Add [-1, 2], Add [-1, -2, 3], Add [-1, -2, -3],
     Assume 1, Propagate, Analyze, Propagate, Analyze]"

definition demo_sat_run :: "search_event list" where
  "demo_sat_run = [Add [1, 2, 3], Add [-1, 2], Assume (-2), Propagate, Backtrack 0, Add [-2, 3], Add [-3, 1], Assume 1, Propagate]"

lemma demo_lazy_ok: "responsive demo_lazy" "bumps demo_lazy" "\<not> eager demo_lazy" "chrono (opts demo_lazy) \<noteq> 0 \<or> connected (opts demo_lazy)"
  by (simp_all add: demo_lazy_def demo_config_def responsive_def bumps_def eager_def)

lemma demo_runs:
  "map_option (\<lambda>s. (iunsat s, length (iclauses s))) (search_run demo_lazy demo_solver demo_unsat_run) = Some (True, 6)"
  "map_option (\<lambda>s. (itrail s, satisfied s, iconflict s, iunsat s)) (search_run demo_lazy demo_solver demo_sat_run) = Some ([1, 2, 3], True, None, False)"
  "map_option (\<lambda>s. (iconflict s \<noteq> None, iunsat s, ivar_reason s 3)) (search_run demo_lazy demo_solver (take 8 demo_unsat_run)) = Some (True, False, Reason_Clause 4)"
  "map_option (\<lambda>s. 3 \<in> set (itrail s)) (search_run demo_lazy demo_solver (take 8 demo_unsat_run)) = Some True"
  by code_simp+

lemma demo_reached:
  assumes "search_run demo_lazy demo_solver evs = Some s"
  shows "reached demo_lazy (foldl with_clause [] evs) s"
  by (rule search_run_reached[OF assms]) (simp add: demo_solver_def reached_new INT_MAX_def)

theorem search_answers_right_witness:
  "(\<nexists>\<tau>. models [[1, 2, 3], [1, -2], [2, -3], [-1, 2], [-1, -2, 3], [-1, -2, -3]] \<tau>) \<and>
   models [[1, 2, 3], [-1, 2], [-2, 3], [-3, 1]] (\<lambda>v. v \<in> {1, 2, 3})"
proof -
  obtain s where s: "search_run demo_lazy demo_solver demo_unsat_run = Some s" "iunsat s" using demo_runs(1) by auto
  obtain t where t: "search_run demo_lazy demo_solver demo_sat_run = Some t" "itrail t = [1, 2, 3]" "satisfied t" "iconflict t = None" "\<not> iunsat t"
    using demo_runs(2) by auto
  show ?thesis
    using search_answers_right[OF demo_lazy_ok demo_reached[OF s(1)]] search_answers_right[OF demo_lazy_ok demo_reached[OF t(1)]] s(2) t(2-5)
    by (simp add: demo_unsat_run_def demo_sat_run_def)
qed

theorem search_never_stuck_witness:
  "\<exists>s s'. search_run demo_lazy demo_solver (take 8 demo_unsat_run) = Some s \<and> iconflict s \<noteq> None \<and> analyze demo_lazy s = Some s' \<and>
     (iunsat s' \<or> iconflict s' = None \<and> ilevel s' < ilevel s)"
proof -
  obtain s p where s: "search_run demo_lazy demo_solver (take 8 demo_unsat_run) = Some s" "iconflict s = Some p" "\<not> iunsat s" using demo_runs(3) by auto
  then show ?thesis using search_never_stuck[OF demo_lazy_ok demo_reached[OF s(1)] s(3)] by auto
qed

theorem search_keeps_consequences_witness:
  "\<exists>s c. search_run demo_lazy demo_solver (take 8 demo_unsat_run) = Some s \<and> 3 \<in> set (itrail s) \<and> istore s 4 = Some c \<and> 3 \<in> set (cl_lits c) \<and>
     entails [[1, 2, 3], [1, -2], [2, -3], [-1, 2], [-1, -2, 3], [-1, -2, -3]] [] (cl_lits c)"
proof -
  obtain s where s: "search_run demo_lazy demo_solver (take 8 demo_unsat_run) = Some s" "\<not> iunsat s" "ivar_reason s 3 = Reason_Clause 4" "3 \<in> set (itrail s)"
    using demo_runs(3,4) by auto
  show ?thesis using search_keeps_consequences[OF demo_lazy_ok demo_reached[OF s(1)] s(2)] s
    by (auto simp: demo_unsat_run_def dest!: bspec[of _ _ 3])
qed


section \<open>Decisions\<close>

text \<open>Phases are signs, or zero where there is none, and the heuristics find a variable that is not assigned.\<close>

definition phases_ok :: "('p, 'h) internal \<Rightarrow> bool" where
  "phases_ok s \<longleftrightarrow> (\<forall>v. isaved s v \<in> {-1, 0, 1} \<and> iforced s v \<in> {-1, 0, 1} \<and> itarget s v \<in> {-1, 0, 1})"

definition picks :: "('p, 'h) config \<Rightarrow> ('p, 'h) internal \<Rightarrow> bool" where
  "picks E s \<longleftrightarrow> (\<exists>idx h. heur_next (hops E) (ivals s) (iheur s) = Some (idx, h) \<and> ilit_ok s idx \<and> ivals s idx = 0)"

lemma decide_phase_sign:
  assumes "phases_ok s"
  shows "decide_phase E s idx target = idx \<or> decide_phase E s idx target = - idx"
proof -
  have "isaved s idx \<in> {-1, 0, 1}" "iforced s idx \<in> {-1, 0, 1}" "itarget s idx \<in> {-1, 0, 1}" using assms by (simp_all add: phases_ok_def)
  then have "(let initial_phase = (if opt_phase (opts E) then 1 else -1);
         p0 = (if iforce_saved_phase s then isaved s idx else 0);
         p1 = (if p0 = 0 then iforced s idx else p0);
         p2 = (if p1 = 0 \<and> forcephase (opts E) then initial_phase else p1);
         p3 = (if p2 = 0 \<and> target then itarget s idx else p2);
         p4 = (if p3 = 0 then isaved s idx else p3)
     in if p4 = 0 then initial_phase else p4) \<in> {-1, 1 :: int}" by (auto simp: Let_def)
  then show ?thesis by (auto simp: decide_phase_def Let_def)
qed

lemma constraint_scan_ok:
  assumes t: "trail_ok s"
  shows "\<forall>l \<in> set ls. ilit_ok s l \<Longrightarrow> un = 0 \<or> ilit_ok s un \<and> ivals s un = 0 \<Longrightarrow>
    \<exists>sat un'. constraint_scan s ls un = Some (sat, un') \<and> (un' = 0 \<or> ilit_ok s un' \<and> ivals s un' = 0) \<and>
      (sat = None \<and> un' = 0 \<longrightarrow> un = 0 \<and> (\<forall>l \<in> set ls. - l \<in> set (itrail s)))"
proof (induction ls arbitrary: un)
  case (Cons l ls)
  have l: "ilit_ok s l" using Cons.prems(1) by simp
  then have v: "val s l = Some (ivals s l)" by (simp add: val_def)
  consider "ivals s l < 0" | "ivals s l > 0" | "ivals s l = 0" by linarith
  then show ?case
  proof cases
    case 1
    then have "- l \<in> set (itrail s)" using trail_ok_ivals(2)[OF t l] by simp
    then show ?thesis using Cons.IH[of un] Cons.prems v 1 by auto
  next
    case 2
    then show ?thesis using Cons.prems(2) v by auto
  next
    case 3
    have "(if un = 0 then l else un) \<noteq> 0" using l by (simp add: ilit_ok_def)
    then show ?thesis using Cons.IH[of "if un = 0 then l else un"] Cons.prems v 3 by auto
  qed
qed simp

text \<open>What a decision does: it opens a level with a step of the search, whatever the heuristics were before.\<close>

definition level_opened :: "('p, 'h) config \<Rightarrow> ('p, 'h) internal \<Rightarrow> ('p, 'h) internal \<Rightarrow> bool" where
  "level_opened E s s' \<longleftrightarrow> ilevel s' = ilevel s + 1 \<and>
     (\<exists>h ev. search_step E (s\<lparr>iheur := h\<rparr>) ev = Some s' \<and> (ev = Pseudo \<or> (\<exists>lit. ev = Assume lit)))"

lemma assume_opens:
  assumes E: "responsive E" and s: "at_rest F s" "ipropagated s = length (itrail s)" and lit: "ilit_ok s lit" "ivals s lit = 0"
  shows "\<exists>s'. search_assume_decision E (s\<lparr>iheur := h\<rparr>) lit = Some s' \<and> level_opened E s s'"
proof -
  let ?s = "s\<lparr>iheur := h\<rparr>"
  have ok: "core_ok {} s" "graph_ok F s" "iconflict s = None" using s(1) by (simp_all add: at_rest_def)
  have q: "quiet s ?s" by (simp add: quiet_def)
  have "\<exists>s'. search_assume_decision E ?s lit = Some s' \<and> core_ok {} s' \<and> graph_ok F s' \<and> same_base (push_level ?s lit) s' \<and>
    itrail s' = itrail ?s @ [lit] \<and> ilevel s' = ilevel ?s + 1"
    by (rule search_assume_decision_ok[OF E quiet_core[OF q ok(1)] quiet_graph[OF q ok(1,2)]])
      (use s(2) lit in \<open>simp_all add: ilit_ok_def\<close>)
  then obtain s' where s': "search_assume_decision E ?s lit = Some s'" "ilevel s' = ilevel s + 1" by auto
  then have "search_step E ?s (Assume lit) = Some s'" using ok(3) s(2) lit by (auto simp: val_def ilit_ok_def)
  then show ?thesis using s' unfolding level_opened_def by blast
qed

lemma pseudo_opens:
  assumes E: "responsive E" and s: "at_rest F s" "ipropagated s = length (itrail s)"
  shows "\<exists>s'. pseudo_level E s = Some s' \<and> level_opened E s s'"
proof -
  have ok: "core_ok {} s" "graph_ok F s" "iconflict s = None" using s(1) by (simp_all add: at_rest_def)
  obtain s' where s': "pseudo_level E s = Some s'" "ilevel s' = ilevel s + 1"
    using pseudo_level_ok[OF E ok(1,2) s(2)] by (auto simp: same_search_def same_base_def push_level_def)
  then have "search_step E (s\<lparr>iheur := iheur s\<rparr>) Pseudo = Some s'" using ok(3) s(2) by simp
  then show ?thesis using s' unfolding level_opened_def by blast
qed

lemma decide_assumption_ok:
  assumes E: "responsive E" and s: "at_rest F s" "ipropagated s = length (itrail s)"
    and a: "ilevel s < length (iassumptions s)" "\<forall>l \<in> set (iassumptions s). ilit_ok s l"
  shows "\<exists>r s'. decide_assumption E s = Some (r, s') \<and> (r = 0 \<and> level_opened E s s' \<or> r = 20 \<and> (\<exists>a \<in> set (iassumptions s). - a \<in> set (itrail s)))"
proof -
  let ?a = "iassumptions s ! ilevel s"
  have t: "trail_ok s" using s(1) by (simp add: at_rest_def core_ok_def)
  have a: "?a \<in> set (iassumptions s)" "ilit_ok s ?a" "vec_at (iassumptions s) (ilevel s) = Some ?a" using a by auto
  have v: "val s ?a = Some (ivals s ?a)" using a(2) by (simp add: val_def)
  consider "ivals s ?a < 0" | "ivals s ?a > 0" | "ivals s ?a = 0" by linarith
  then show ?thesis
  proof cases
    case 1
    then have "- ?a \<in> set (itrail s)" using trail_ok_ivals(2)[OF t a(2)] by simp
    then show ?thesis using 1 v a by (auto simp: decide_assumption_def)
  next
    case 2
    then show ?thesis using pseudo_opens[OF E s] v a by (auto simp: decide_assumption_def)
  next
    case 3
    then show ?thesis using assume_opens[OF E s a(2) 3, of "iheur s"] v a by (auto simp: decide_assumption_def)
  qed
qed

lemma decide_constraint_ok:
  assumes E: "responsive E" and s: "at_rest F s" "ipropagated s = length (itrail s)" and c: "iconstraint s \<noteq> []" "\<forall>l \<in> set (iconstraint s). ilit_ok s l"
  shows "\<exists>r s'. decide_constraint E s = Some (r, s') \<and>
    (r = 0 \<and> level_opened E s s' \<or> r = 20 \<and> iconstraint s \<noteq> [] \<and> (\<forall>l \<in> set (iconstraint s). - l \<in> set (itrail s)))"
proof -
  have t: "trail_ok s" using s(1) by (simp add: at_rest_def core_ok_def)
  obtain sat un where sc: "constraint_scan s (iconstraint s) 0 = Some (sat, un)" "un = 0 \<or> ilit_ok s un \<and> ivals s un = 0"
    "sat = None \<and> un = 0 \<longrightarrow> (\<forall>l \<in> set (iconstraint s). - l \<in> set (itrail s))"
    using constraint_scan_ok[OF t c(2), of 0] by auto
  consider "sat \<noteq> None" | "sat = None" "un \<noteq> 0" | "sat = None" "un = 0" by blast
  then show ?thesis
  proof cases
    case 1
    then show ?thesis using pseudo_opens[OF E s] sc(1) by (auto simp: decide_constraint_def)
  next
    case 2
    then show ?thesis using assume_opens[OF E s, of un "iheur s"] sc(1,2) by (auto simp: decide_constraint_def)
  next
    case 3
    then show ?thesis using c(1) sc(1,3) by (auto simp: decide_constraint_def)
  qed
qed

lemma decide_variable_ok:
  assumes E: "responsive E" "\<not> eager E" and s: "at_rest F s" "ipropagated s = length (itrail s)" and p: "phases_ok s" "picks E s"
  shows "\<exists>s'. decide_variable E s = Some (0, s') \<and> level_opened E s s'"
proof -
  have t: "trail_ok s" using s(1) by (simp add: at_rest_def core_ok_def)
  obtain idx h where h: "heur_next (hops E) (ivals s) (iheur s) = Some (idx, h)" "ilit_ok s idx" "ivals s idx = 0" using p(2) by (auto simp: picks_def)
  let ?t = "opt_target (opts E) > 1 \<or> (istable s \<and> opt_target (opts E) \<noteq> 0)"
  have d: "decide_phase E s idx ?t = idx \<or> decide_phase E s idx ?t = - idx" by (rule decide_phase_sign[OF p(1)])
  have "ivals s (- idx) = 0" using h(2,3) trail_ok_ivals(3)[OF t, of idx] trail_ok_ivals(3)[OF t, of "- idx"] by simp
  then have lit: "ilit_ok s (decide_phase E s idx ?t)" "ivals s (decide_phase E s idx ?t) = 0" using d h(2,3) by (metis ilit_ok_uminus)+
  have "decide_variable E s = do { s3 \<leftarrow> search_assume_decision E (s\<lparr>iheur := h\<rparr>) (decide_phase E s idx ?t); Some (0, s3) }"
    using E(2) h(1) by (simp add: decide_variable_def ask_decision_def Let_def)
  then show ?thesis using assume_opens[OF E(1) s lit, of h] by auto
qed



section \<open>Well-formed states and levels\<close>

text \<open>
  \<^bold>\<open>C4\<close>  Every state reached is well formed: the trail has each variable at most once, values are signs that agree
  with the trail, there is one control frame per level, every clause has at least two literals over
  different declared variables, and a clause that is not garbage is in the watch lists of its first two
  literals.
\<close>

theorem search_well_formed:
  assumes "responsive E" and "bumps E" and "\<not> eager E" and "chrono (opts E) \<noteq> 0 \<or> connected (opts E)" and "reached E F s" and "\<not> iunsat s"
  shows "distinct (map abs (itrail s)) \<and> length (icontrol s) = ilevel s + 1 \<and>
    (\<forall>l. ilit_ok s l \<longrightarrow> ivals s l = (if l \<in> set (itrail s) then 1 else if - l \<in> set (itrail s) then -1 else 0)) \<and>
    (\<forall>l \<in> set (itrail s). ilit_ok s l \<and> ivar_level s \<bar>l\<bar> \<le> ilevel s \<and> itrail s ! ivar_trail s \<bar>l\<bar> = l) \<and>
    (\<forall>p c. istore s p = Some c \<longrightarrow> 2 \<le> length (cl_lits c) \<and> distinct (map abs (cl_lits c)) \<and> (\<forall>l \<in> set (cl_lits c). ilit_ok s l) \<and>
       (\<not> cl_garbage c \<longrightarrow> p \<in> w_clause ` set (iwatches s (cl_lits c ! 0)) \<and> p \<in> w_clause ` set (iwatches s (cl_lits c ! 1))))"
proof -
  have ok: "trail_ok s" "control_ok s" "clauses_ok s" "watching_ok (istore s) (iwatches s)"
    using reached_inv[OF assms(1-5)] assms(6) by (simp_all add: search_inv_def core_ok_def)
  have tr: "distinct (map abs (itrail s))" "\<forall>l. ilit_ok s l \<longrightarrow> ivals s l = (if l \<in> set (itrail s) then 1 else if - l \<in> set (itrail s) then -1 else 0)"
    using ok(1) unfolding trail_ok_def by blast+
  have ctl: "length (icontrol s) = ilevel s + 1" using ok(2) by (simp add: control_ok_def)
  have lits: "ilit_ok s l" "ivar_level s \<bar>l\<bar> \<le> ilevel s" "itrail s ! ivar_trail s \<bar>l\<bar> = l" if "l \<in> set (itrail s)" for l
    using ok(1) that trail_ok_position(2)[OF ok(1) that] by (simp_all add: trail_ok_def)
  have cls: "2 \<le> length (cl_lits c)" "distinct (map abs (cl_lits c))" "\<forall>l \<in> set (cl_lits c). ilit_ok s l" if "istore s p = Some c" for p c
    using ok(3) that by (auto simp: clauses_ok_def clause_ok_def)
  have wat: "p \<in> w_clause ` set (iwatches s (cl_lits c ! 0)) \<and> p \<in> w_clause ` set (iwatches s (cl_lits c ! 1))"
    if "istore s p = Some c" "\<not> cl_garbage c" for p c using watching_ok_watched[OF ok(4) that] by blast
  show ?thesis using tr ctl lits cls wat by (intro conjI ballI allI impI) (assumption | simp)+
qed

theorem search_well_formed_witness:
  "\<exists>s. search_run demo_lazy demo_solver (take 8 demo_unsat_run) = Some s \<and> distinct (map abs (itrail s)) \<and> length (icontrol s) = ilevel s + 1 \<and>
     itrail s ! ivar_trail s 3 = 3"
proof -
  obtain s where s: "search_run demo_lazy demo_solver (take 8 demo_unsat_run) = Some s" "\<not> iunsat s" "3 \<in> set (itrail s)"
    using demo_runs(3,4) by auto
  note w = search_well_formed[OF demo_lazy_ok demo_reached[OF s(1)] s(2)]
  have "itrail s ! ivar_trail s 3 = 3" using w s(3) by fastforce
  then show ?thesis using w s(1) by blast
qed

text \<open>
  \<^bold>\<open>C6\<close>  The backtrack level lies between the jump level and the level of the conflict for every setting of the
  options of chronological backtracking, trail reuse included: the driving clause stays unit and the
  search backtracks at least one level.
\<close>

theorem backtrack_level_bounds:
  assumes "control_ok s" and "jump < ilevel s"
  shows "\<exists>n. determine_actual_backtrack_level E s jump = Some n \<and> jump \<le> n \<and> n < ilevel s"
  by (rule determine_level_ok[OF assms(2,1)])

definition demo_levels :: "search_event list" where
  "demo_levels = [Assume 3, Propagate, Assume (-2), Propagate, Assume 1]"

lemma demo_levels_end: "map_option (\<lambda>s. (ilevel s, iunsat s)) (search_run demo_lazy demo_solver demo_levels) = Some (3, False)"
  by code_simp

theorem backtrack_level_bounds_witness:
  "\<exists>s n. search_run demo_lazy demo_solver demo_levels = Some s \<and>
     determine_actual_backtrack_level (demo_lazy\<lparr>opts := (opts demo_lazy)\<lparr>chronoreusetrail := True\<rparr>\<rparr>) s 0 = Some n \<and> n < 3"
proof -
  obtain s where s: "search_run demo_lazy demo_solver demo_levels = Some s" "ilevel s = 3" "\<not> iunsat s" using demo_levels_end by auto
  have "control_ok s" using reached_inv[OF demo_lazy_ok demo_reached[OF s(1)]] s(3) by (simp add: search_inv_def core_ok_def)
  from backtrack_level_bounds[OF this, of 0] s show ?thesis by auto
qed

section \<open>Shrinking\<close>

text \<open>
  \<^bold>\<open>C7\<close>  \<^verbatim>\<open>shrink_and_minimize_clause\<close> is correct, for every setting of \<^verbatim>\<open>shrink\<close>, \<^verbatim>\<open>minimize\<close> and \<^verbatim>\<open>shrinkreap\<close>: from a first
  UIP clause it returns a clause that follows from the formula, is not longer, has only literals that
  are false and of levels that occur in the given clause, and still has the flipped UIP as its only literal
  of the current level; the trail is left alone and the flags are clear again.
\<close>

theorem shrink_learned_clause:
  assumes "core_ok R s" and "graph_ok F s" and "uip_clause F s u" and "1 < length (iclause s)" and "iminimized s = []"
    and "ikeep s = (\<lambda>v. False)" and "ipoison s = (\<lambda>v. False)" and "iremovable s = (\<lambda>v. False)"
  shows "\<exists>s'. shrink_and_minimize_clause E s = Some s' \<and> entails F [] (iclause s') \<and> length (iclause s') \<le> length (iclause s) \<and>
    u \<in> set (iclause s') \<and> distinct (iclause s') \<and> itrail s' = itrail s \<and>
    (\<forall>l \<in> set (iclause s'). - l \<in> set (itrail s) \<and> (\<exists>k \<in> set (iclause s). ivar_level s \<bar>l\<bar> = ivar_level s \<bar>k\<bar>) \<and>
       (l \<noteq> u \<longrightarrow> ivar_level s \<bar>l\<bar> < ilevel s)) \<and>
    iminimized s' = [] \<and> ikeep s' = (\<lambda>v. False) \<and> ipoison s' = (\<lambda>v. False) \<and> iremovable s' = (\<lambda>v. False)"
proof -
  obtain s' where s': "shrink_and_minimize_clause E s = Some s'" "simplifies F s s'" "length (iclause s') \<le> length (iclause s)"
    "\<forall>l \<in> set (iclause s'). \<exists>k \<in> set (iclause s). ivar_level s \<bar>l\<bar> = ivar_level s \<bar>k\<bar>"
    using shrink_and_minimize_clause_ok[OF assms, of E] by blast
  have u: "u \<in> set (iclause s)" "ivar_level s \<bar>u\<bar> = ilevel s" "\<forall>l \<in> set (iclause s). l \<noteq> u \<longrightarrow> ivar_level s \<bar>l\<bar> < ilevel s"
    using assms(3) by (simp_all add: uip_clause_def)
  have simp: "quiet s s'" "\<forall>l \<in> set (iclause s'). - l \<in> set (itrail s) \<and> (l \<in> set (iclause s) \<or> 0 < ivar_level s \<bar>l\<bar> \<and> ivar_level s \<bar>l\<bar> < ilevel s)"
    "distinct (iclause s')" "entails F [] (iclause s')" "\<forall>l \<in> set (iclause s). ivar_level s \<bar>l\<bar> = ilevel s \<longrightarrow> l \<in> set (iclause s')"
    "iminimized s' = []" "ikeep s' = (\<lambda>v. False)" "ipoison s' = (\<lambda>v. False)" "iremovable s' = (\<lambda>v. False)" using s'(2) by (simp_all add: simplifies_def)
  show ?thesis
    by (rule exI[of _ s']) (use s'(1,3,4) simp u quiet_eqs(6)[OF simp(1)] in blast)
qed

text \<open>The literals 2 and 3 of level one are replaced by the decision 1 that implies them.\<close>

definition demo_shrink_run :: "search_event list" where
  "demo_shrink_run = [Add [-1, 2], Add [-1, 3], Add [-2, -3, -4, 5], Add [-2, -3, -4, -5], Assume 1, Propagate, Assume 4]"

definition demo_shrinker :: "(nat, nat) internal" where
  "demo_shrinker = new_internal demo_lazy 5 demo_reluctant 0 0"

lemma demo_shrink_facts:
  "map_option (\<lambda>s. (itrail s, ilevel s, iconflict s, iunsat s, map (ivar_level s) [2, 3, 4])) (search_run demo_lazy demo_shrinker demo_shrink_run) =
     Some ([1, 2, 3, 4], 2, None, False, [1, 1, 2])"
  "Option.bind (search_run demo_lazy demo_shrinker demo_shrink_run)
     (\<lambda>s. map_option iclause (shrink_and_minimize_clause demo_lazy (s\<lparr>iclause := [-2, -3, -4]\<rparr>))) = Some [-4, -1]"
  by code_simp+

theorem shrink_learned_clause_witness:
  "entails [[-1, 2], [-1, 3], [-2, -3, -4, 5], [-2, -3, -4, -5]] [] [-4, -1]"
proof -
  let ?F = "[[-1, 2], [-1, 3], [-2, -3, -4, 5], [-2, -3, -4, -5]] :: int list list"
  obtain s where s: "search_run demo_lazy demo_shrinker demo_shrink_run = Some s" "itrail s = [1, 2, 3, 4]" "ilevel s = 2" "iconflict s = None" "\<not> iunsat s"
    "ivar_level s 2 = 1" "ivar_level s 3 = 1" "ivar_level s 4 = 2" using demo_shrink_facts(1) by auto
  have "reached demo_lazy (foldl with_clause [] demo_shrink_run) s"
    by (rule search_run_reached[OF s(1)]) (simp add: demo_shrinker_def reached_new INT_MAX_def)
  from reached_inv[OF demo_lazy_ok this] have rest: "at_rest ?F s" using s(4,5) by (simp add: search_inv_at_rest demo_shrink_run_def)
  let ?s = "s\<lparr>iclause := [-2, -3, -4]\<rparr>"
  have q: "quiet s ?s" by (simp add: quiet_def)
  have ok: "core_ok {} s" "graph_ok ?F s" "idle s" using rest by (simp_all add: at_rest_def)
  have "entails ?F [] [-2, -3, -4]" by (auto simp: entails_def models_def clause_true_iff)
  then have uip: "uip_clause ?F ?s (-4)" using s by (simp add: uip_clause_def)
  have "iminimized ?s = []" "ikeep ?s = (\<lambda>v. False)" "ipoison ?s = (\<lambda>v. False)" "iremovable ?s = (\<lambda>v. False)" using ok(3) by (simp_all add: idle_def)
  from shrink_learned_clause[OF quiet_core[OF q ok(1)] quiet_graph[OF q ok(1,2)] uip _ this, of demo_lazy]
  obtain s' where "shrink_and_minimize_clause demo_lazy ?s = Some s'" "entails ?F [] (iclause s')" by auto
  then show ?thesis using demo_shrink_facts(2) s(1) by simp
qed

end
