(* ===== verification/Spec2Isabelle.thy ===== *)
theory Spec2Isabelle
  imports Reluctant Bmc_Oracle Score Vmtf Radix Checker_Table Reconstruct Solver_Solve
begin

text \<open>
  A verification development of IPASIRUP-BMC: the SAT solver CaDiCaL with its interface for external
  propagators, and an oracle for bounded model checking of LTL that is connected to it as such a
  propagator.  All file names are relative to \<^verbatim>\<open>src/\<close>.

  \<^bold>\<open>The program and how its parts interact.\<close>  The input is a propositional problem that searches a lasso
  of length \<open>K\<close>, preceded by comment lines that name the variables, the loop selectors, the bound and the
  LTL specification.  \<^verbatim>\<open>readHeadFile\<close> (\<^verbatim>\<open>src/smvHead.hpp\<close>) reads these lines through a buffered stream over
  \<^verbatim>\<open>gzread\<close>.  The class \<^verbatim>\<open>BMCOracle\<close> (\<^verbatim>\<open>src/BMCOracle.hpp\<close>, \<^verbatim>\<open>src/BMCOracle.cpp\<close>) translates the specification
  with the automata library, observes the trail of the search through the notifications of the propagator
  interface and answers with clauses that exclude lassos the automaton rejects.  The search engine
  (\<^verbatim>\<open>Internal\<close>: \<^verbatim>\<open>propagate.cpp\<close>, \<^verbatim>\<open>backtrack.cpp\<close>, \<^verbatim>\<open>decide.cpp\<close>, \<^verbatim>\<open>analyze.cpp\<close>, \<^verbatim>\<open>minimize.cpp\<close>, \<^verbatim>\<open>shrink.cpp\<close>,
  \<^verbatim>\<open>clause.cpp\<close>, \<^verbatim>\<open>external_propagate.cpp\<close>) calls the propagator on every assignment, level, backtrack, decision and model.
  Decisions come from an EVSIDS heap (\<^verbatim>\<open>heap.hpp\<close>, \<^verbatim>\<open>score.cpp\<close>) or the VMTF queue (\<^verbatim>\<open>queue.cpp\<close>); bumping sorts
  by time stamp with \<^verbatim>\<open>rsort\<close> (\<^verbatim>\<open>radix.hpp\<close>); restarts in stable mode follow \<^verbatim>\<open>reluctant.hpp\<close>.  Clauses removed by
  preprocessing are put on the extension stack (\<^verbatim>\<open>extend.cpp\<close>, \<^verbatim>\<open>restore.cpp\<close>), from which models are
  completed.  The proof checker (\<^verbatim>\<open>checker.cpp\<close>) observes all clauses added, derived and deleted.

  \<^bold>\<open>Foundations.\<close>  \<^verbatim>\<open>Prelude\<close> has the ways a C++ computation can end, reading and writing of vectors at an index,
  monadic folds and the facts on lists the components share.  \<^verbatim>\<open>Sat_Semantics\<close> has literals, clauses, models
  and entailment.  Undefined behaviour (an index out of range, a null or freed pointer) is a value of
  its own or \<open>None\<close>, and so is a loop that does not return, so that a theorem that a function returns \<open>Some\<close>
  also says that it has no undefined behaviour.

  \<^bold>\<open>Problem head.\<close>  \<^verbatim>\<open>Smv_Stream\<close> and \<^verbatim>\<open>Smv_Head\<close> model the stream, the scanning functions and the reader.  The chunks
  \<open>gzread\<close> returns are a parameter; the stream delivers the characters of the file whatever they are.  Printing a
  head and reading it gives back the tables; inputs on which the reader truncates an atom or does not
  return are characterized.

  \<^bold>\<open>BMC oracle.\<close>  \<^verbatim>\<open>Bmc_State\<close> has the record of the class and the parameters \<open>bdd_package\<close> and automata library,
  \<^verbatim>\<open>Bmc_Clauses\<close> the clause generation with its call order, \<^verbatim>\<open>Bmc_Soundness\<close> what the clauses mean,
  \<^verbatim>\<open>Bmc_Instance\<close> an instance of both libraries on truth tables on which the theorems are exercised, and
  \<^verbatim>\<open>Bmc_Oracle\<close> the notifications and callbacks.  Shown: the clauses are true in every assignment whose selected
  lassos the automaton accepts when no constraint of an edge is trivially true, and a counterexample when one is;
  the stored trail mirrors what was notified; queued clauses are delivered completely, each
  terminated by zero; decisions are minimal in the sense intended.

  \<^bold>\<open>Heuristics.\<close>  \<^verbatim>\<open>Heap\<close> models the binary heap with positions for any comparison that meets the locale
  \<open>heap_order\<close>, interpreted on the comparisons of scores, elimination and blocking in \<^verbatim>\<open>Score\<close>; the locale \<open>schedule\<close>
  is the contract its clients rely on, and a sublocale gives it for every heap.  \<^verbatim>\<open>Vmtf\<close> models the doubly
  linked queue, \<^verbatim>\<open>Radix\<close> the byte-wise sort, \<^verbatim>\<open>Reap\<close> the radix heap of \<^verbatim>\<open>reap.cpp\<close>, which meets the contract \<open>monotone_queue\<close> of a
  priority queue whose pushes are never below the last pop, and \<^verbatim>\<open>Reluctant\<close> the 64-bit counters of reluctant
  doubling.  Shown: every pop of the radix heap returns the minimum, the
  decisions are the unassigned variables of highest score or latest time stamp, the sort equals the stable
  sort by rank, the restarts follow the Luby sequence.

  \<^bold>\<open>Extension stack.\<close>  \<^verbatim>\<open>Extend\<close> has pushing, extension, traversals and restoring, \<^verbatim>\<open>Reconstruct\<close> the theorems: extension
  repairs an assignment to a model of all removed clauses, and restoring keeps the stack correct when new
  clauses arrive.

  \<^bold>\<open>Proof checker.\<close>  \<^verbatim>\<open>Checker\<close> models the data structures and unit propagation, \<^verbatim>\<open>Checker_Sound\<close> their invariant,
  \<^verbatim>\<open>Checker_Table\<close> the hash table, its collection and whole runs, through the locale \<open>checking_observer\<close>, interpreted on
  the checker.  Shown: what it accepts follows from the original clauses; it returns except in one
  case, which is a finding.

  \<^bold>\<open>Search.\<close>  \<^verbatim>\<open>Solver_State\<close> has the record \<open>internal\<close> with the trail, values, levels, control stack, watches, the store of
  clauses and the flags of conflict analysis; a clause is an address in the store, and the propagator
  and the heuristics are parameters with a state of their own (\<open>propagator_ops\<close>, \<open>heuristic_ops\<close>).
  \<^verbatim>\<open>Solver_Search\<close> has assignment, unit propagation with blocking literals and saved positions, backtracking with
  out-of-order literals, decisions and new clauses; \<^verbatim>\<open>Solver_External\<close> all of \<^verbatim>\<open>external_propagate.cpp\<close>;
  \<^verbatim>\<open>Solver_Minimize\<close> recursive minimization and shrinking; \<^verbatim>\<open>Solver_Analyze\<close> first-UIP analysis, bumping, chronological
  backtracking and eager subsumption.  \<^verbatim>\<open>Solver_Invariant\<close> states the invariant of trail and watches, \<^verbatim>\<open>Solver_Propagate\<close> and
  \<^verbatim>\<open>Solver_Backtrack\<close> that propagation, backtracking and decisions return and keep it, \<^verbatim>\<open>Solver_Reasons\<close> the implication
  graph and its consequences, \<^verbatim>\<open>Solver_Learn\<close> that the learned clause is an entailed first-UIP clause and minimization
  keeps it, \<^verbatim>\<open>Solver_Shrink\<close> that shrinking replaces the literals of a level by one that implies them,
  \<^verbatim>\<open>Solver_Backjump\<close>, \<^verbatim>\<open>Solver_Cdcl\<close> (with the locale \<open>clause_simplifier\<close>, interpreted on shrinking and minimization) and
  \<^verbatim>\<open>Solver_Conflict\<close> that \<open>analyze\<close> as a whole resumes the search.  \<^verbatim>\<open>Solver_Solve\<close> composes these: original clauses enter
  at any time, and the relation \<open>reached\<close> allows propagation, analysis, decisions, assumptions and backtracking
  in every order, so that it covers every schedule of \<^verbatim>\<open>cdcl_loop_with_inprocessing\<close> restricted to these calls.
  In all reached states the answers are right, no operation gets stuck, every clause follows from
  the clauses added and the state is well formed; \<open>decide\<close> refines a step of the relation.

  \<^bold>\<open>Hypotheses.\<close>  \<open>responsive\<close> and \<open>bumps\<close> say that the callbacks of the propagator and the heuristics return.  The search
  theorems are for \<open>\<not> eager\<close>, a solver without a propagator that explains literals, and for
  \<open>chrono \<noteq> 0 \<or> connected\<close>, under which \<open>analyze\<close> searches the conflict level; the default options have
  chronological backtracking on.  \<open>spot_product_sound\<close> states the documented behaviour of the product of automata.
  Each is satisfied by the concrete instances of the witnesses.

  \<^bold>\<open>Bounds and fuel.\<close>  Recursions that the code bounds by an option carry that option as their fuel: minimization descends
  \<open>minimizedepth + 2\<close> levels, at which the code has returned, and bumping of reasons \<open>bumpreasondepth\<close>, one more in stable mode.  The loop of
  \<open>analyze\<close> recurses over the trail, the loop of \<open>shrink_block\<close> is partial and shown to return, and propagation terminates by a measure of unpropagated literals; loops that depend
  on a callback or on the input are \<open>partial_function\<close>s.  Counters whose overflow matters (the
  reluctant doubling, hashes and nonces of the checker, witness masks) are words; clause addresses and trail
  positions, bounded by memory, are natural numbers.

  \<^bold>\<open>Not modelled.\<close>  The libraries Spot, BuDDy and PicoSAT under \<^verbatim>\<open>spot/\<close> are third-party code and enter as parameters.  The model-based
  tester \<^verbatim>\<open>mobical.cpp\<close>, the command line program \<^verbatim>\<open>src/cadical.cpp\<close>, the API wrappers, DIMACS parsing, file access, signals,
  statistics, reports and logging are input and output around the search.  Inprocessing (probing, subsumption,
  elimination, blocking, covering, conditioning, vivification, ternary resolution, transitive reduction,
  decomposition, instantiation, lookahead, local search, lucky phases) and the schedules of restarts, rephasing and
  reduction with their floating-point averages are left out.  Scores are elements of an ordered field instead of doubles.  Assertions
  are not part of the compiled program; the conditions they state are proved or are hypotheses.
\<close>

end
